(* ===== verification/Prelude.thy ===== *)
theory Prelude
  imports Complex_Main "HOL-Library.AList"
begin

section \<open>Prelude: shared types, contracts and list lemmas\<close>

text \<open>
  What every component theory builds on: the JavaScript facts the model uses (numbers, thrown
  errors, array splicing), the contract of a comparator function as a locale, strictly sorted
  lists with respect to a comparator, and the specification functions \<open>ins_sorted\<close> and
  \<open>del_sorted\<close> on them. The lemmas are collected in \<open>sorted_rules\<close> and \<open>splice_simps\<close>.

  A JavaScript number is modelled by the rational it denotes; NaN and the infinities are not
  JSON values and do not reach the code modelled here. A comparator result is such a number:
  only its sign is ever tested.
\<close>

named_theorems splice_simps \<open>array splicing\<close>
named_theorems sorted_rules \<open>facts about lists sorted by a comparator\<close>

type_synonym number = rat

type_synonym 'k cmp = "'k \<Rightarrow> 'k \<Rightarrow> number"

text \<open>A thrown \<open>Error\<close> is a value; the model keeps which check threw it.\<close>

datatype js_error =
    AssertionFailed string
  | TypeMismatch
  | UnsupportedType
  | RangeError
  | IllegalState string

type_synonym 'a result = "js_error + 'a"

definition bind_result :: "'a result \<Rightarrow> ('a \<Rightarrow> 'b result) \<Rightarrow> 'b result" where
  "bind_result r f = (case r of Inl e \<Rightarrow> Inl e | Inr a \<Rightarrow> f a)"

lemma bind_result_simps [simp]:
  "bind_result (Inl e) f = Inl e"
  "bind_result (Inr a) f = f a"
  by (simp_all add: bind_result_def)

lemma bind_result_eq_Inr:
  "bind_result r f = Inr b \<longleftrightarrow> (\<exists>a. r = Inr a \<and> f a = Inr b)"
  by (cases r) auto

text \<open>\<open>map\<close> with a function that can throw: the first throw, in order, is the result.\<close>

fun traverse :: "('a \<Rightarrow> 'b result) \<Rightarrow> 'a list \<Rightarrow> 'b list result" where
  "traverse f [] = Inr []"
| "traverse f (x # xs) = bind_result (f x) (\<lambda>y. bind_result (traverse f xs) (\<lambda>ys. Inr (y # ys)))"

lemma traverse_cong [fundef_cong]:
  "xs = ys \<Longrightarrow> (\<And>x. x \<in> set ys \<Longrightarrow> f x = g x) \<Longrightarrow> traverse f xs = traverse g ys"
  by (induction ys arbitrary: xs) auto

lemma bind_result_cong [fundef_cong]:
  "r = r' \<Longrightarrow> (\<And>a. r' = Inr a \<Longrightarrow> f a = g a) \<Longrightarrow> bind_result r f = bind_result r' g"
  by (cases r') auto

lemma traverse_Inr: "(\<And>x. x \<in> set xs \<Longrightarrow> f x = Inr (g x)) \<Longrightarrow> traverse f xs = Inr (map g xs)"
  by (induction xs) auto

lemma traverse_eq_Inr:
  "traverse f xs = Inr ys \<longleftrightarrow> list_all2 (\<lambda>x y. f x = Inr y) xs ys"
  by (induction xs arbitrary: ys) (auto simp: bind_result_eq_Inr list_all2_Cons1)

definition traverse_option :: "('a \<Rightarrow> 'b result) \<Rightarrow> 'a option \<Rightarrow> 'b option result" where
  "traverse_option f x = (case x of None \<Rightarrow> Inr None | Some a \<Rightarrow> bind_result (f a) (\<lambda>b. Inr (Some b)))"

lemma traverse_option_simps [simp]:
  "traverse_option f None = Inr None"
  "traverse_option f (Some a) = bind_result (f a) (\<lambda>b. Inr (Some b))"
  by (simp_all add: traverse_option_def)

lemma traverse_option_cong [fundef_cong]:
  "x = y \<Longrightarrow> (\<And>a. y = Some a \<Longrightarrow> f a = g a) \<Longrightarrow> traverse_option f x = traverse_option g y"
  by (cases y) auto

subsection \<open>Array splicing\<close>

text \<open>\<open>xs.splice(i, 0, x)\<close> and \<open>xs.splice(i, 1)\<close> of JavaScript.\<close>

definition insert_at :: "nat \<Rightarrow> 'a \<Rightarrow> 'a list \<Rightarrow> 'a list" where
  "insert_at i x xs = take i xs @ x # drop i xs"

definition remove_at :: "nat \<Rightarrow> 'a list \<Rightarrow> 'a list" where
  "remove_at i xs = take i xs @ drop (Suc i) xs"

lemma length_insert_at [simp]: "length (insert_at i x xs) = Suc (length xs)"
  by (simp add: insert_at_def)

lemma length_remove_at [simp]: "i < length xs \<Longrightarrow> length (remove_at i xs) = length xs - 1"
  by (simp add: remove_at_def)

lemma set_insert_at [simp]: "set (insert_at i x xs) = insert x (set xs)"
  by (metis Un_insert_right append_take_drop_id insert_at_def list.simps(15) set_append)

lemma map_insert_at: "map f (insert_at i x xs) = insert_at i (f x) (map f xs)"
  by (simp add: insert_at_def take_map drop_map)

lemma map_remove_at: "map f (remove_at i xs) = remove_at i (map f xs)"
  by (simp add: remove_at_def take_map drop_map)

lemma insert_at_length [splice_simps]: "i = length xs \<Longrightarrow> insert_at i x (xs @ ys) = xs @ x # ys"
  by (simp add: insert_at_def)

lemma remove_at_length [splice_simps]: "i = length xs \<Longrightarrow> remove_at i (xs @ x # ys) = xs @ ys"
  by (simp add: remove_at_def)

lemma set_remove_at_subset: "set (remove_at i xs) \<subseteq> set xs"
  by (auto simp: remove_at_def dest: in_set_takeD in_set_dropD)

lemma split_at_nth:
  assumes "i < length xs"
  obtains as bs where "xs = as @ xs ! i # bs" "length as = i"
    "as = take i xs" "bs = drop (Suc i) xs"
  using assms id_take_nth_drop [OF assms] by (metis length_take min.absorb4)

subsection \<open>The comparator contract\<close>

text \<open>
  What every caller of a comparator relies on: its sign is a total preorder.
\<close>

locale comparator =
  fixes cmp :: "'k cmp"
  assumes cmp_refl: "cmp a a = 0"
    and cmp_anti: "cmp a b < 0 \<longleftrightarrow> 0 < cmp b a"
    and cmp_trans: "cmp a b \<le> 0 \<Longrightarrow> cmp b c \<le> 0 \<Longrightarrow> cmp a c \<le> 0"
begin

lemma cmp_refl_simps [simp]: "cmp a a = 0"
  by (rule cmp_refl)

lemma cmp_pos: "0 < cmp a b \<longleftrightarrow> cmp b a < 0"
  by (simp add: cmp_anti)

lemma cmp_zero_sym: "cmp a b = 0 \<longleftrightarrow> cmp b a = 0"
  by (metis cmp_anti less_irrefl linorder_neqE_linordered_idom)

lemma cmp_le_sym: "cmp a b \<le> 0 \<longleftrightarrow> 0 \<le> cmp b a"
  by (metis cmp_anti not_le)

lemma cmp_less_trans: "cmp a b < 0 \<Longrightarrow> cmp b c < 0 \<Longrightarrow> cmp a c < 0"
  by (metis cmp_anti cmp_trans not_le order_less_imp_le)

lemma cmp_le_less_trans: "cmp a b \<le> 0 \<Longrightarrow> cmp b c < 0 \<Longrightarrow> cmp a c < 0"
  by (metis cmp_anti cmp_trans not_le order_less_imp_le)

lemma cmp_less_le_trans: "cmp a b < 0 \<Longrightarrow> cmp b c \<le> 0 \<Longrightarrow> cmp a c < 0"
  by (metis cmp_anti cmp_trans not_le order_less_imp_le)

lemma cmp_eq_trans: "cmp a b = 0 \<Longrightarrow> cmp b c = 0 \<Longrightarrow> cmp a c = 0"
  by (metis cmp_trans cmp_zero_sym eq_refl cmp_le_sym order_antisym)

lemma cmp_eq_less: "cmp a b = 0 \<Longrightarrow> cmp b c < 0 \<longleftrightarrow> cmp a c < 0"
  by (metis cmp_le_less_trans cmp_zero_sym eq_refl)

lemma cmp_less_eq: "cmp b c = 0 \<Longrightarrow> cmp a b < 0 \<longleftrightarrow> cmp a c < 0"
  by (metis cmp_less_le_trans cmp_zero_sym eq_refl)

text \<open>The comparator with its arguments swapped, as a reversed scan uses it.\<close>

lemma comparator_reversed: "comparator (\<lambda>a b. cmp b a)"
  by unfold_locales (auto simp: cmp_anti intro: cmp_trans)

end

text \<open>
  Comparators compose: by a key, with the sign flipped, and lexicographically.
\<close>

lemma comparator_const: "comparator (\<lambda>a b. 0)"
  by unfold_locales auto

lemma comparator_key:
  assumes "comparator cmp"
  shows "comparator (\<lambda>a b. cmp (f a) (f b))"
proof (rule comparator.intro)
  fix a b c
  show "cmp (f a) (f a) = 0" by (rule comparator.cmp_refl [OF assms])
  show "cmp (f a) (f b) < 0 \<longleftrightarrow> 0 < cmp (f b) (f a)" by (rule comparator.cmp_anti [OF assms])
  show "cmp (f a) (f b) \<le> 0 \<Longrightarrow> cmp (f b) (f c) \<le> 0 \<Longrightarrow> cmp (f a) (f c) \<le> 0"
    by (rule comparator.cmp_trans [OF assms])
qed

lemma comparator_uminus:
  assumes "comparator cmp"
  shows "comparator (\<lambda>a b. - cmp a b)"
proof (rule comparator.intro)
  fix a b c
  show "- cmp a a = 0" by (simp add: comparator.cmp_refl [OF assms])
  show "- cmp a b < 0 \<longleftrightarrow> 0 < - cmp b a" by (simp add: comparator.cmp_pos [OF assms])
  show "- cmp a b \<le> 0 \<Longrightarrow> - cmp b c \<le> 0 \<Longrightarrow> - cmp a c \<le> 0"
    using comparator.cmp_trans [OF assms, of c b a]
    by (simp flip: comparator.cmp_le_sym [OF assms])
qed

lemma comparator_lex:
  assumes f: "comparator f" and g: "comparator g"
  shows "comparator (\<lambda>a b. if f a b \<noteq> 0 then f a b else g a b)"
proof (rule comparator.intro)
  fix a b c
  show "(if f a a \<noteq> 0 then f a a else g a a) = 0"
    by (simp add: comparator.cmp_refl [OF f] comparator.cmp_refl [OF g])
  show "(if f a b \<noteq> 0 then f a b else g a b) < 0 \<longleftrightarrow>
      0 < (if f b a \<noteq> 0 then f b a else g b a)"
    using comparator.cmp_zero_sym [OF f, of a b] comparator.cmp_anti [OF f, of a b]
      comparator.cmp_anti [OF g, of a b] by simp
  assume ab: "(if f a b \<noteq> 0 then f a b else g a b) \<le> 0"
    and bc: "(if f b c \<noteq> 0 then f b c else g b c) \<le> 0"
  have le: "f a b \<le> 0" "f b c \<le> 0"
    using ab bc by (auto split: if_splits)
  show "(if f a c \<noteq> 0 then f a c else g a c) \<le> 0"
  proof (cases "f a b = 0 \<and> f b c = 0")
    case True
    with ab bc show ?thesis
      using comparator.cmp_eq_trans [OF f, of a b c] comparator.cmp_trans [OF g, of a b c] by simp
  next
    case False
    with le have "f a c < 0"
      using comparator.cmp_less_le_trans [OF f, of a b c] comparator.cmp_le_less_trans [OF f, of a b c]
      by (auto simp: less_le)
    then show ?thesis by simp
  qed
qed

subsection \<open>Lists strictly sorted by a comparator\<close>

definition sorted_cmp :: "'k cmp \<Rightarrow> 'k list \<Rightarrow> bool" where
  "sorted_cmp cmp xs \<longleftrightarrow> sorted_wrt (\<lambda>a b. cmp a b < 0) xs"

lemma sorted_cmp_Nil [simp]: "sorted_cmp cmp []"
  by (simp add: sorted_cmp_def)

lemma sorted_cmp_Cons [sorted_rules]:
  "sorted_cmp cmp (x # xs) \<longleftrightarrow> (\<forall>y \<in> set xs. cmp x y < 0) \<and> sorted_cmp cmp xs"
  by (simp add: sorted_cmp_def)

lemma sorted_cmp_append [sorted_rules]:
  "sorted_cmp cmp (xs @ ys) \<longleftrightarrow> sorted_cmp cmp xs \<and> sorted_cmp cmp ys
     \<and> (\<forall>x \<in> set xs. \<forall>y \<in> set ys. cmp x y < 0)"
  by (auto simp: sorted_cmp_def sorted_wrt_append)

lemma sorted_cmp_filter: "sorted_cmp cmp xs \<Longrightarrow> sorted_cmp cmp (filter P xs)"
  by (simp add: sorted_cmp_def sorted_wrt_filter)

text \<open>
  The abstract operations of an ordered set: \<open>ins_sorted\<close> puts an element at its place,
  replacing the element that compares equal; \<open>del_sorted\<close> drops that element.
\<close>

definition ins_sorted :: "'k cmp \<Rightarrow> 'k \<Rightarrow> 'k list \<Rightarrow> 'k list" where
  "ins_sorted cmp x xs = filter (\<lambda>k. cmp k x < 0) xs @ x # filter (\<lambda>k. 0 < cmp k x) xs"

definition del_sorted :: "'k cmp \<Rightarrow> 'k \<Rightarrow> 'k list \<Rightarrow> 'k list" where
  "del_sorted cmp x xs = filter (\<lambda>k. cmp k x \<noteq> 0) xs"

definition mem_sorted :: "'k cmp \<Rightarrow> 'k \<Rightarrow> 'k list \<Rightarrow> bool" where
  "mem_sorted cmp x xs \<longleftrightarrow> list_ex (\<lambda>k. cmp k x = 0) xs"

lemma mem_sorted_append [simp]:
  "mem_sorted cmp x (xs @ ys) \<longleftrightarrow> mem_sorted cmp x xs \<or> mem_sorted cmp x ys"
  by (simp add: mem_sorted_def)

lemma mem_sorted_iff: "mem_sorted cmp x xs \<longleftrightarrow> (\<exists>k \<in> set xs. cmp k x = 0)"
  by (simp add: mem_sorted_def list_ex_iff)

lemma mem_sorted_none: "\<forall>k \<in> set xs. cmp k x \<noteq> 0 \<Longrightarrow> \<not> mem_sorted cmp x xs"
  by (simp add: mem_sorted_iff)

lemma ins_sorted_append:
  assumes "\<forall>k \<in> set as. cmp k x < 0" and "\<forall>k \<in> set bs. 0 < cmp k x"
  shows "ins_sorted cmp x (as @ ms @ bs) = as @ ins_sorted cmp x ms @ bs"
proof -
  have "filter (\<lambda>k. cmp k x < 0) as = as" "filter (\<lambda>k. 0 < cmp k x) as = []"
    using assms(1) by (auto simp: filter_id_conv filter_empty_conv)
  moreover have "filter (\<lambda>k. cmp k x < 0) bs = []" "filter (\<lambda>k. 0 < cmp k x) bs = bs"
    using assms(2) by (auto simp: filter_id_conv filter_empty_conv)
  ultimately show ?thesis by (simp add: ins_sorted_def)
qed

lemma del_sorted_append:
  assumes "\<forall>k \<in> set as. cmp k x < 0" and "\<forall>k \<in> set bs. 0 < cmp k x"
  shows "del_sorted cmp x (as @ ms @ bs) = as @ del_sorted cmp x ms @ bs"
proof -
  have "filter (\<lambda>k. cmp k x \<noteq> 0) as = as" "filter (\<lambda>k. cmp k x \<noteq> 0) bs = bs"
    using assms by (auto simp: filter_id_conv)
  then show ?thesis by (simp add: del_sorted_def)
qed

lemma del_sorted_absent: "\<not> mem_sorted cmp x xs \<Longrightarrow> del_sorted cmp x xs = xs"
  by (auto simp: del_sorted_def mem_sorted_iff filter_id_conv)

lemma set_ins_sorted: "set (ins_sorted cmp x xs) = insert x {k \<in> set xs. cmp k x \<noteq> 0}"
  by (auto simp: ins_sorted_def)

lemma set_del_sorted: "set (del_sorted cmp x xs) = {k \<in> set xs. cmp k x \<noteq> 0}"
  by (auto simp: del_sorted_def)

lemma sorted_del_sorted: "sorted_cmp cmp xs \<Longrightarrow> sorted_cmp cmp (del_sorted cmp x xs)"
  by (simp add: del_sorted_def sorted_cmp_filter)

context comparator
begin

lemma sorted_ins_sorted:
  assumes "sorted_cmp cmp xs"
  shows "sorted_cmp cmp (ins_sorted cmp x xs)"
proof -
  have "cmp a b < 0" if "cmp a x < 0" "0 < cmp b x" for a b
    using that by (metis cmp_pos cmp_less_trans)
  then show ?thesis
    using assms by (simp add: ins_sorted_def sorted_rules sorted_cmp_filter cmp_pos)
qed

lemma mem_ins_sorted:
  "mem_sorted cmp y (ins_sorted cmp x xs) \<longleftrightarrow> cmp x y = 0 \<or> mem_sorted cmp y xs"
proof -
  have "mem_sorted cmp y (ins_sorted cmp x xs)"
    if "k \<in> set xs" "cmp k y = 0" "cmp x y \<noteq> 0" for k
  proof -
    from that have "cmp k x \<noteq> 0"
      using cmp_eq_trans cmp_zero_sym by blast
    with that show ?thesis
      by (auto simp: mem_sorted_iff set_ins_sorted)
  qed
  then show ?thesis
    by (auto simp: mem_sorted_iff set_ins_sorted)
qed

lemma mem_del_sorted:
  "mem_sorted cmp y (del_sorted cmp x xs) \<longleftrightarrow> cmp x y \<noteq> 0 \<and> mem_sorted cmp y xs"
  by (auto simp: mem_sorted_iff set_del_sorted) (metis cmp_eq_trans cmp_zero_sym)+

lemma sorted_cmp_distinct: "sorted_cmp cmp xs \<Longrightarrow> distinct xs"
  by (induction xs) (auto simp: sorted_rules)

text \<open>In a strictly sorted list at most one element compares equal to a key.\<close>

lemma sorted_cmp_unique:
  assumes "sorted_cmp cmp (as @ y # bs)" and "cmp y x = 0"
  shows "\<forall>k \<in> set as. cmp k x < 0" and "\<forall>k \<in> set bs. 0 < cmp k x"
  using assms by (auto simp: sorted_rules cmp_pos)
    (metis cmp_less_eq, metis cmp_eq_less cmp_zero_sym)

lemma length_ins_sorted:
  assumes "sorted_cmp cmp xs"
  shows "length (ins_sorted cmp x xs) = (if mem_sorted cmp x xs then length xs else Suc (length xs))"
proof (cases "mem_sorted cmp x xs")
  case True
  then obtain y where "y \<in> set xs" "cmp y x = 0"
    by (auto simp: mem_sorted_iff)
  then obtain as bs where xs: "xs = as @ y # bs"
    by (meson split_list)
  note u = sorted_cmp_unique [OF assms [unfolded xs] \<open>cmp y x = 0\<close>]
  have "ins_sorted cmp x (as @ [y] @ bs) = as @ ins_sorted cmp x [y] @ bs"
    by (rule ins_sorted_append) (use u in auto)
  with True \<open>cmp y x = 0\<close> show ?thesis
    by (simp add: xs ins_sorted_def)
next
  case False
  then have "\<forall>k \<in> set xs. 0 < cmp k x \<longleftrightarrow> \<not> cmp k x < 0"
    by (auto simp: mem_sorted_iff not_less less_le)
  then have "filter (\<lambda>k. 0 < cmp k x) xs = filter (\<lambda>k. \<not> cmp k x < 0) xs"
    by (auto intro: filter_cong)
  then have "length (ins_sorted cmp x xs) = Suc (length xs)"
    using sum_length_filter_compl [of "\<lambda>k. cmp k x < 0" xs]
    by (simp add: ins_sorted_def)
  with False show ?thesis by simp
qed

lemma length_del_sorted:
  assumes "sorted_cmp cmp xs"
  shows "length (del_sorted cmp x xs) = (if mem_sorted cmp x xs then length xs - 1 else length xs)"
proof (cases "mem_sorted cmp x xs")
  case True
  then obtain y where "y \<in> set xs" "cmp y x = 0"
    by (auto simp: mem_sorted_iff)
  then obtain as bs where xs: "xs = as @ y # bs"
    by (meson split_list)
  note u = sorted_cmp_unique [OF assms [unfolded xs] \<open>cmp y x = 0\<close>]
  have "del_sorted cmp x (as @ [y] @ bs) = as @ del_sorted cmp x [y] @ bs"
    by (rule del_sorted_append) (use u in auto)
  with True \<open>cmp y x = 0\<close> show ?thesis
    by (simp add: xs del_sorted_def)
next
  case False
  then show ?thesis by (simp add: del_sorted_absent)
qed

text \<open>Strictly sorted lists with the same elements are equal: list laws reduce to set laws.\<close>

lemma sorted_cmp_ext:
  assumes "sorted_cmp cmp xs" "sorted_cmp cmp ys" "set xs = set ys"
  shows "xs = ys"
  using assms
proof (induction xs arbitrary: ys)
  case (Cons x xs)
  then obtain y ys' where ys: "ys = y # ys'" by (cases ys) auto
  have less: "\<forall>k \<in> set xs. cmp x k < 0" "\<forall>k \<in> set ys'. cmp y k < 0"
    using Cons.prems by (simp_all add: ys sorted_rules)
  have "x = y"
  proof (rule ccontr)
    assume "x \<noteq> y"
    then have "cmp x y < 0" "cmp y x < 0" using Cons.prems(3) less by (auto simp: ys)
    then show False using cmp_less_trans [of x y x] by simp
  qed
  moreover have "x \<notin> set xs" "y \<notin> set ys'" using less by force+
  ultimately show ?case
    using Cons.prems Cons.IH [of ys'] by (simp add: ys sorted_rules insert_ident)
qed simp

lemma sorted_cmp_inj:
  "sorted_cmp cmp xs \<Longrightarrow> a \<in> set xs \<Longrightarrow> b \<in> set xs \<Longrightarrow> cmp a b = 0 \<Longrightarrow> a = b"
proof (induction xs)
  case (Cons x xs)
  then show ?case using cmp_zero_sym [of a b] by (auto simp: sorted_rules)
qed simp

lemma del_ins_sorted:
  assumes "sorted_cmp cmp xs" "\<not> mem_sorted cmp x xs"
  shows "del_sorted cmp x (ins_sorted cmp x xs) = xs"
  using assms by (intro sorted_cmp_ext sorted_del_sorted sorted_ins_sorted)
    (auto simp: set_del_sorted set_ins_sorted mem_sorted_iff)

lemma ins_del_sorted:
  assumes "sorted_cmp cmp xs" "x \<in> set xs"
  shows "ins_sorted cmp x (del_sorted cmp x xs) = xs"
proof -
  have "\<forall>k \<in> set xs. cmp k x = 0 \<longrightarrow> k = x"
    using sorted_cmp_inj [OF assms(1)] assms(2) by blast
  with assms show ?thesis
    by (intro sorted_cmp_ext sorted_ins_sorted sorted_del_sorted)
      (auto simp: set_del_sorted set_ins_sorted)
qed

lemma ins_sorted_commute:
  assumes "sorted_cmp cmp xs" "cmp x y \<noteq> 0"
  shows "ins_sorted cmp x (ins_sorted cmp y xs) = ins_sorted cmp y (ins_sorted cmp x xs)"
  using assms cmp_zero_sym by (intro sorted_cmp_ext sorted_ins_sorted)
    (auto simp: set_ins_sorted)

end

subsection \<open>Objects\<close>

text \<open>An object is an association list; \<open>spread base c\<close> is \<open>{...base, ...c}\<close>.\<close>

definition spread :: "('k \<times> 'v) list \<Rightarrow> ('k \<times> 'v) list \<Rightarrow> ('k \<times> 'v) list" where
  "spread base c = foldl (\<lambda>acc (k, v). AList.update k v acc) base c"

lemma map_of_spread: "distinct (map fst c) \<Longrightarrow> map_of (spread base c) = map_of base ++ map_of c"
proof (induction c arbitrary: base)
  case Nil
  then show ?case by (simp add: spread_def)
next
  case (Cons kv c)
  obtain k v where kv: "kv = (k, v)" by (cases kv)
  have "map_of (spread base (kv # c)) = map_of (spread (AList.update k v base) c)" by (simp add: spread_def kv)
  also have "\<dots> = (map_of base)(k \<mapsto> v) ++ map_of c" using Cons by (simp add: update_conv')
  also have "\<dots> = map_of base ++ map_of (kv # c)"
    using Cons.prems by (simp add: kv map_add_upd_left dom_map_of_conv_image_fst)
  finally show ?case .
qed

lemma distinct_spread: "distinct (map fst base) \<Longrightarrow> distinct (map fst (spread base c))"
proof (induction c arbitrary: base)
  case (Cons kv c)
  obtain k v where kv: "kv = (k, v)" by (cases kv)
  have "distinct (map fst (AList.update k v base))" by (rule distinct_update [OF Cons.prems])
  from Cons.IH [OF this] show ?case by (simp add: spread_def kv)
qed (simp add: spread_def)

text \<open>Storing entries with new keys one by one appends them.\<close>

lemma update_distinct: "distinct (map fst kvs) \<Longrightarrow> fst ` set acc \<inter> fst ` set kvs = {} \<Longrightarrow>
    foldl (\<lambda>c (k, v). AList.update k v c) acc kvs = acc @ kvs"
proof (induction kvs arbitrary: acc)
  case (Cons kv kvs)
  obtain k v where kv: "kv = (k, v)" by (cases kv)
  have "AList.update k v acc = acc @ [(k, v)]"
    using Cons.prems(2) by (induction acc) (auto simp: kv)
  with Cons show ?case by (auto simp: kv)
qed simp

end
