(* ===== verification/JsValue.thy ===== *)
theory JsValue
  imports Prelude
begin

section \<open>Values, rows and row comparators (zql/src/ivm/data.ts)\<close>

text \<open>
  The values of a row and the functions of \<open>packages/zql/src/ivm/data.ts\<close> on them. A row is the
  association list of the JavaScript object, in insertion order; a missing field reads as
  \<open>undefined\<close>. An array or object value is modelled by its reference, because the code
  only ever applies \<open>===\<close> and \<open>typeof\<close> to it. \<open>compareUTF8\<close> comes from a package that is not in
  the repository: it is the parameter \<open>u8\<close>, and the locale \<open>utf8_order\<close> states what the code relies on
  (a total order on strings).

  \<open>compareValues\<close> and \<open>makeComparator\<close> can throw. \<open>value_cmp\<close> and \<open>row_cmp\<close> extend them to a total
  preorder on all values; the lemmas \<open>compareValues_value_cmp\<close> and \<open>makeComparator_row_cmp\<close>
  show that the extension agrees with the code wherever the code returns, so the ordered
  structures built on a comparator can be instantiated with it.
\<close>

datatype js_symbol = MinValue | MaxValue

datatype js_value =
    JUndefined
  | JNull
  | JBool bool
  | JNum number
  | JStr string
  | JRef nat
  | JSymbol js_symbol

datatype js_type = TyUndefined | TyObject | TyBoolean | TyNumber | TyString | TySymbol

fun js_typeof :: "js_value \<Rightarrow> js_type" where
  "js_typeof JUndefined = TyUndefined"
| "js_typeof JNull = TyObject"
| "js_typeof (JBool _) = TyBoolean"
| "js_typeof (JNum _) = TyNumber"
| "js_typeof (JStr _) = TyString"
| "js_typeof (JRef _) = TyObject"
| "js_typeof (JSymbol _) = TySymbol"

type_synonym row = "(string \<times> js_value) list"

definition get_field :: "row \<Rightarrow> string \<Rightarrow> js_value" where
  "get_field r f = (case map_of r f of None \<Rightarrow> JUndefined | Some v \<Rightarrow> v)"

datatype direction = Asc | Desc

type_synonym ordering = "(string \<times> direction) list"

type_synonym utf8 = "string \<Rightarrow> string \<Rightarrow> number"

subsection \<open>The code\<close>

definition normalizeUndefined :: "js_value \<Rightarrow> js_value" where
  "normalizeUndefined v = (case v of JUndefined \<Rightarrow> JNull | _ \<Rightarrow> v)"

definition compareValues :: "utf8 \<Rightarrow> js_value \<Rightarrow> js_value \<Rightarrow> number result" where
  "compareValues u8 a0 b0 =
     (let a = normalizeUndefined a0; b = normalizeUndefined b0 in
      if a = b then Inr 0
      else (case (a, b) of
          (JStr s, JStr t) \<Rightarrow> Inr (u8 s t)
        | (JNum m, JNum n) \<Rightarrow> Inr (m - n)
        | (JBool p, JBool q) \<Rightarrow> Inr (if p then 1 else -1)
        | _ \<Rightarrow>
            if a = JNull then Inr (-1)
            else if b = JNull then Inr 1
            else if js_typeof a \<noteq> js_typeof b then Inl TypeMismatch
            else Inl UnsupportedType))"

fun makeComparator :: "utf8 \<Rightarrow> ordering \<Rightarrow> bool \<Rightarrow> row \<Rightarrow> row \<Rightarrow> number result" where
  "makeComparator u8 [] reverse a b = Inr 0"
| "makeComparator u8 ((field, dir) # order) reverse a b =
     bind_result (compareValues u8 (get_field a field) (get_field b field)) (\<lambda>comp.
       if comp \<noteq> 0 then
         let result = (if dir = Asc then comp else - comp)
         in Inr (if reverse then - result else result)
       else makeComparator u8 order reverse a b)"

definition valuesEqual :: "js_value \<Rightarrow> js_value \<Rightarrow> bool" where
  "valuesEqual a b =
     (if a = JUndefined \<or> a = JNull \<or> b = JUndefined \<or> b = JNull then False else a = b)"

subsection \<open>What the code relies on: a total order on strings\<close>

locale utf8_order =
  fixes u8 :: utf8
  assumes u8_zero: "u8 s t = 0 \<longleftrightarrow> s = t"
    and u8_anti: "u8 s t < 0 \<longleftrightarrow> 0 < u8 t s"
    and u8_trans: "u8 s t \<le> 0 \<Longrightarrow> u8 t v \<le> 0 \<Longrightarrow> u8 s v \<le> 0"

sublocale utf8_order \<subseteq> u8: comparator u8
  by unfold_locales (auto simp: u8_zero u8_anti intro: u8_trans)

text \<open>The total extension of \<open>compareValues\<close>: values of different types are ordered by type.\<close>

fun value_rank :: "js_value \<Rightarrow> number" where
  "value_rank JUndefined = 0"
| "value_rank JNull = 0"
| "value_rank (JBool _) = 1"
| "value_rank (JNum _) = 2"
| "value_rank (JStr _) = 3"
| "value_rank (JRef _) = 4"
| "value_rank (JSymbol s) = (if s = MinValue then 5 else 6)"

fun value_cmp :: "utf8 \<Rightarrow> js_value \<Rightarrow> js_value \<Rightarrow> number" where
  "value_cmp u8 (JStr s) (JStr t) = u8 s t"
| "value_cmp u8 (JNum m) (JNum n) = m - n"
| "value_cmp u8 (JBool p) (JBool q) = (if p = q then 0 else if p then 1 else -1)"
| "value_cmp u8 (JRef m) (JRef n) = of_nat m - of_nat n"
| "value_cmp u8 a b =
     (if value_rank a < value_rank b then -1
      else if value_rank b < value_rank a then 1 else 0)"

fun row_cmp :: "utf8 \<Rightarrow> ordering \<Rightarrow> bool \<Rightarrow> row cmp" where
  "row_cmp u8 [] reverse a b = 0"
| "row_cmp u8 ((field, dir) # order) reverse a b =
     (let comp = value_cmp u8 (get_field a field) (get_field b field) in
      if comp \<noteq> 0 then (if (dir = Asc) \<noteq> reverse then comp else - comp)
      else row_cmp u8 order reverse a b)"

lemma value_cmp_rank:
  "value_rank a \<noteq> value_rank b \<Longrightarrow> value_cmp u8 a b = (if value_rank a < value_rank b then -1 else 1)"
  by (cases a; cases b) auto

text \<open>Values of one type: the domain on which comparison is meant to be used.\<close>

definition comparable :: "js_value \<Rightarrow> js_value \<Rightarrow> bool" where
  "comparable a b \<longleftrightarrow>
     (let a' = normalizeUndefined a; b' = normalizeUndefined b in
      a' = b' \<or> a' = JNull \<or> b' = JNull \<or>
      (js_typeof a' = js_typeof b' \<and> js_typeof a' \<noteq> TyObject \<and> js_typeof a' \<noteq> TySymbol))"

lemma compareValues_returns: "(\<exists>c. compareValues u8 a b = Inr c) \<longleftrightarrow> comparable a b"
  by (cases a; cases b) (auto simp: compareValues_def comparable_def normalizeUndefined_def Let_def)

context utf8_order
begin

lemma u8_self [simp]: "u8 s s = 0"
  by (simp add: u8_zero)

lemma compareValues_value_cmp: "compareValues u8 a b = Inr c \<Longrightarrow> value_cmp u8 a b = c"
  by (cases a; cases b)
    (auto simp: compareValues_def normalizeUndefined_def Let_def split: if_splits)

lemma makeComparator_row_cmp:
  "makeComparator u8 order reverse a b = Inr c \<Longrightarrow> row_cmp u8 order reverse a b = c"
proof (induction order)
  case Nil
  then show ?case by simp
next
  case (Cons od order)
  obtain field dir where od: "od = (field, dir)" by (cases od)
  from Cons.prems Cons.IH show ?case
    by (auto simp: od bind_result_eq_Inr Let_def split: if_splits dest!: compareValues_value_cmp)
qed

lemma comparator_value_cmp: "comparator (value_cmp u8)"
proof
  fix a b c
  show "value_cmp u8 a a = 0" by (cases a) auto
  show "value_cmp u8 a b < 0 \<longleftrightarrow> 0 < value_cmp u8 b a"
    by (cases a; cases b) (auto simp: u8_anti)
  show "value_cmp u8 a b \<le> 0 \<Longrightarrow> value_cmp u8 b c \<le> 0 \<Longrightarrow> value_cmp u8 a c \<le> 0"
  proof (cases "value_rank a = value_rank b \<and> value_rank b = value_rank c")
    case True
    assume "value_cmp u8 a b \<le> 0" "value_cmp u8 b c \<le> 0"
    with True show ?thesis
      by (cases a; cases b; cases c) (auto intro: u8_trans split: if_splits)
  next
    case False
    assume le: "value_cmp u8 a b \<le> 0" "value_cmp u8 b c \<le> 0"
    then have "value_rank a \<le> value_rank b" "value_rank b \<le> value_rank c"
      using value_cmp_rank [of a b u8] value_cmp_rank [of b c u8]
      by (metis not_le not_one_le_zero order_less_imp_not_less order_less_irrefl)+
    with False have "value_rank a < value_rank c" by auto
    then show ?thesis by (simp add: value_cmp_rank)
  qed
qed

lemma row_cmp_Cons_lex:
  fixes field f defines "f \<equiv> \<lambda>a b. value_cmp u8 (get_field a field) (get_field b field)"
  shows "(dir = Asc) \<noteq> reverse \<Longrightarrow> row_cmp u8 ((field, dir) # order) reverse =
      (\<lambda>a b. if f a b \<noteq> 0 then f a b else row_cmp u8 order reverse a b)"
    and "(dir = Asc) = reverse \<Longrightarrow> row_cmp u8 ((field, dir) # order) reverse =
      (\<lambda>a b. if - f a b \<noteq> 0 then - f a b else row_cmp u8 order reverse a b)"
  by (auto simp: Let_def fun_eq_iff f_def)

lemma comparator_row_cmp: "comparator (row_cmp u8 order reverse)"
proof (induction order)
  case Nil
  then show ?case by (simp add: comparator_const row_cmp.simps [abs_def])
next
  case (Cons od order)
  obtain field dir where od: "od = (field, dir)" by (cases od)
  let ?f = "\<lambda>a b. value_cmp u8 (get_field a field) (get_field b field)"
  have f: "comparator ?f"
    by (rule comparator_key [OF comparator_value_cmp])
  show ?case
  proof (cases "(dir = Asc) \<noteq> reverse")
    case True
    show ?thesis
      unfolding od row_cmp_Cons_lex(1) [OF True] by (rule comparator_lex [OF f Cons.IH])
  next
    case False
    then have "(dir = Asc) = reverse" by simp
    show ?thesis
      unfolding od row_cmp_Cons_lex(2) [OF \<open>(dir = Asc) = reverse\<close>]
      by (rule comparator_lex [OF comparator_uminus [OF f] Cons.IH])
  qed
qed

end

text \<open>
  The contract holds of a concrete byte-wise comparison, the behaviour the package documents.
\<close>

definition char_code :: "char \<Rightarrow> nat" where
  "char_code c = of_char c"

lemma char_code_eq [simp]: "char_code c = char_code d \<longleftrightarrow> c = d"
  by (simp add: char_code_def)

fun utf8_lex :: utf8 where
  "utf8_lex [] [] = 0"
| "utf8_lex [] (_ # _) = -1"
| "utf8_lex (_ # _) [] = 1"
| "utf8_lex (c # cs) (d # ds) =
     (if char_code c < char_code d then -1
      else if char_code d < char_code c then 1 else utf8_lex cs ds)"

interpretation bytes: utf8_order utf8_lex
proof
  fix s t v
  show "utf8_lex s t = 0 \<longleftrightarrow> s = t"
  proof (induction s t rule: utf8_lex.induct)
    case (4 c cs d ds)
    then show ?case
      by (cases "char_code c" "char_code d" rule: linorder_cases) (auto simp: less_le)
  qed simp_all
  show "utf8_lex s t < 0 \<longleftrightarrow> 0 < utf8_lex t s"
  proof (induction s t rule: utf8_lex.induct)
    case (4 c cs d ds)
    then show ?case
      by (cases "char_code c" "char_code d" rule: linorder_cases) simp_all
  qed simp_all
  show "utf8_lex s t \<le> 0 \<Longrightarrow> utf8_lex t v \<le> 0 \<Longrightarrow> utf8_lex s v \<le> 0"
  proof (induction s t arbitrary: v rule: utf8_lex.induct)
    case (4 c cs d ds)
    show ?case
    proof (cases v)
      case Nil
      with "4.prems" show ?thesis by simp
    next
      case (Cons e es)
      with "4.prems" "4.IH" [of es] show ?thesis
        by (cases "char_code c" "char_code d" rule: linorder_cases;
            cases "char_code d" "char_code e" rule: linorder_cases) simp_all
    qed
  next
    case 1
    then show ?case by simp
  next
    case (2 d ds)
    then show ?case by (cases v) simp_all
  next
    case (3 c cs)
    then show ?case by simp
  qed
qed

text \<open>On comparable fields the row comparator returns, so it never throws on rows of one table.\<close>

lemma makeComparator_returns:
  assumes "\<forall>(f, _) \<in> set order. comparable (get_field a f) (get_field b f)"
  shows "\<exists>c. makeComparator u8 order reverse a b = Inr c"
  using assms
proof (induction order)
  case Nil
  then show ?case by simp
next
  case (Cons od order)
  obtain field dir where od: "od = (field, dir)" by (cases od)
  with Cons.prems obtain c where "compareValues u8 (get_field a field) (get_field b field) = Inr c"
    using compareValues_returns by fastforce
  with Cons od show ?case by (auto simp: Let_def)
qed

lemma valuesEqual_iff:
  "valuesEqual a b \<longleftrightarrow> a = b \<and> normalizeUndefined a \<noteq> JNull"
  by (cases a) (auto simp: valuesEqual_def normalizeUndefined_def)

end
