(* ===== verification/BTreeSet.thy ===== *)
theory BTreeSet
  imports Prelude
begin

section \<open>The B+ tree set (shared/src/btree-set.ts)\<close>

text \<open>
  \<open>packages/shared/src/btree-set.ts\<close>: the ordered set behind the indexes of \<open>MemorySource\<close>. A node
  is a value; the field \<open>isShared\<close> is kept, cloning clears it and marks the children, exactly as
  the code does, so the check that throws when a shared leaf would be changed is part of the
  model. The comparator is the parameter \<open>cmp\<close>; it never returns NaN, so that branch of \<open>indexOf\<close>
  does not exist here. A leaf has no \<open>children\<close>; \<open>children_of\<close> gives the empty list, and the
  invariant (uniform depth) shows that no operation ever reads the children of a leaf.
  The mutable \<open>tree.size\<close> is threaded through the operations.
\<close>

definition max_node_size :: nat where
  "max_node_size = 32"

datatype 'k bnode =
    BNode (nkeys: "'k list") (isShared: bool)
  | BNodeInternal (nkeys: "'k list") (nchildren: "'k bnode list") (isShared: bool)

fun isInternal :: "'k bnode \<Rightarrow> bool" where
  "isInternal (BNode _ _) = False"
| "isInternal (BNodeInternal _ _ _) = True"

fun children_of :: "'k bnode \<Rightarrow> 'k bnode list" where
  "children_of (BNode _ _) = []"
| "children_of (BNodeInternal _ cs _) = cs"

fun mark_shared :: "'k bnode \<Rightarrow> 'k bnode" where
  "mark_shared (BNode ks _) = BNode ks True"
| "mark_shared (BNodeInternal ks cs _) = BNodeInternal ks cs True"

definition emptyLeaf :: "'k bnode" where
  "emptyLeaf = BNode [] True"

definition maxKey :: "'k bnode \<Rightarrow> 'k" where
  "maxKey n = last (nkeys n)"

text \<open>\<open>maxKey\<close> and \<open>minKey\<close> return \<open>undefined\<close> on an empty node: the optional forms.\<close>

definition maxKey_opt :: "'k bnode \<Rightarrow> 'k option" where
  "maxKey_opt n = (case nkeys n of [] \<Rightarrow> None | _ \<Rightarrow> Some (last (nkeys n)))"

fun minKey :: "'k bnode \<Rightarrow> 'k option" where
  "minKey (BNode ks _) = (case ks of [] \<Rightarrow> None | k # _ \<Rightarrow> Some k)"
| "minKey (BNodeInternal _ [] _) = None"
| "minKey (BNodeInternal _ (c # _) _) = minKey c"

fun clone :: "'k bnode \<Rightarrow> 'k bnode" where
  "clone (BNode ks _) = BNode ks False"
| "clone (BNodeInternal ks cs _) = BNodeInternal ks (map mark_shared cs) False"

definition unshare :: "'k bnode \<Rightarrow> 'k bnode" where
  "unshare n = (if isShared n then clone n else n)"

definition mk_internal :: "'k bnode list \<Rightarrow> 'k bnode" where
  "mk_internal cs = BNodeInternal (map maxKey cs) cs False"

subsection \<open>Binary search\<close>

text \<open>
  \<open>indexOf\<close> answers the position of a key that compares equal, else the insertion point xor
  \<open>failXor\<close>. The loop returns whether it found the key, and the position.
\<close>

function indexOf_loop :: "'k cmp \<Rightarrow> 'k \<Rightarrow> 'k list \<Rightarrow> nat \<Rightarrow> nat \<Rightarrow> bool \<times> nat" where
  "indexOf_loop cmp key ks lo hi =
     (let mid = (lo + hi) div 2 in
      if lo < hi then
        (let c = cmp (ks ! mid) key in
         if c < 0 then indexOf_loop cmp key ks (mid + 1) hi
         else if c > 0 then indexOf_loop cmp key ks lo mid
         else (True, mid))
      else (False, mid))"
  by pat_completeness auto
termination
  by (relation "measure (\<lambda>(cmp, key, ks, lo, hi). hi - lo)") auto

declare indexOf_loop.simps [simp del]

unbundle bit_operations_syntax

definition indexOf :: "'k cmp \<Rightarrow> 'k \<Rightarrow> 'k list \<Rightarrow> int \<Rightarrow> int" where
  "indexOf cmp key ks failXor =
     (case indexOf_loop cmp key ks 0 (length ks) of
        (found, mid) \<Rightarrow> if found then int mid else int mid XOR failXor)"

subsection \<open>Lookup\<close>

fun bdepth :: "'k bnode \<Rightarrow> nat" where
  "bdepth (BNode _ _) = 0"
| "bdepth (BNodeInternal _ cs _) = Suc (foldr max (map bdepth cs) 0)"

lemma foldr_max_ge: "x \<in> set xs \<Longrightarrow> x \<le> foldr max xs (0::nat)"
  by (induction xs) auto

lemma foldr_max_le: "foldr max xs (0::nat) \<le> b \<longleftrightarrow> (\<forall>x \<in> set xs. x \<le> b)"
  by (induction xs) auto

lemma bdepth_child: "c \<in> set cs \<Longrightarrow> bdepth c < bdepth (BNodeInternal ks cs s)"
  using foldr_max_ge [of "bdepth c" "map bdepth cs"] by auto

function bget :: "'k cmp \<Rightarrow> 'k \<Rightarrow> 'k bnode \<Rightarrow> 'k option" where
  "bget cmp key (BNode ks s) =
     (let i = indexOf cmp key ks (-1) in if i < 0 then None else Some (ks ! nat i))"
| "bget cmp key (BNodeInternal ks cs s) =
     (let i = nat (indexOf cmp key ks 0) in
      if i < length cs then bget cmp key (cs ! i) else None)"
  by pat_completeness auto
termination
  by (relation "measure (\<lambda>(cmp, key, n). bdepth n)") (auto simp: bdepth_child simp del: bdepth.simps)

function bhas :: "'k cmp \<Rightarrow> 'k \<Rightarrow> 'k bnode \<Rightarrow> bool" where
  "bhas cmp key (BNode ks s) =
     (let i = indexOf cmp key ks (-1) in 0 \<le> i \<and> i < int (length ks))"
| "bhas cmp key (BNodeInternal ks cs s) =
     (let i = nat (indexOf cmp key ks 0) in
      if i < length cs then bhas cmp key (cs ! i) else False)"
  by pat_completeness auto
termination
  by (relation "measure (\<lambda>(cmp, key, n). bdepth n)") (auto simp: bdepth_child simp del: bdepth.simps)

subsection \<open>Moving keys between siblings, splitting\<close>

text \<open>
  The two-node operations return the pair of nodes after the mutation.
  \<open>takeFromRight self rhs\<close> and \<open>takeFromLeft self lhs\<close> return \<open>(self', other')\<close>.
\<close>

fun takeFromRight :: "'k bnode \<Rightarrow> 'k bnode \<Rightarrow> 'k bnode \<times> 'k bnode" where
  "takeFromRight (BNode ks s) (BNode rks rs) =
     (BNode (ks @ [hd rks]) s, BNode (tl rks) rs)"
| "takeFromRight (BNodeInternal ks cs s) (BNodeInternal rks rcs rs) =
     (BNodeInternal (ks @ [hd rks]) (cs @ [hd rcs]) s, BNodeInternal (tl rks) (tl rcs) rs)"
| "takeFromRight self rhs = (self, rhs)"

fun takeFromLeft :: "'k bnode \<Rightarrow> 'k bnode \<Rightarrow> 'k bnode \<times> 'k bnode" where
  "takeFromLeft (BNode ks s) (BNode lks ls) =
     (BNode (last lks # ks) s, BNode (butlast lks) ls)"
| "takeFromLeft (BNodeInternal ks cs s) (BNodeInternal lks lcs ls) =
     (BNodeInternal (last lks # ks) (last lcs # cs) s, BNodeInternal (butlast lks) (butlast lcs) ls)"
| "takeFromLeft self lhs = (self, lhs)"

fun splitOffRightSide :: "'k bnode \<Rightarrow> 'k bnode \<times> 'k bnode" where
  "splitOffRightSide (BNode ks s) =
     (let half = length ks div 2 in (BNode (take half ks) s, BNode (drop half ks) False))"
| "splitOffRightSide (BNodeInternal ks cs s) =
     (let half = length cs div 2 in
      (BNodeInternal (take half ks) (take half cs) s,
       BNodeInternal (drop half ks) (drop half cs) False))"

fun binsert :: "nat \<Rightarrow> 'k bnode \<Rightarrow> 'k bnode \<Rightarrow> 'k bnode" where
  "binsert i child (BNodeInternal ks cs s) =
     BNodeInternal (insert_at i (maxKey child) ks) (insert_at i child cs) s"
| "binsert i child n = n"

subsection \<open>Insertion\<close>

text \<open>
  The part of \<open>BNodeInternal.set\<close> that runs before the recursive call: unshare child \<open>i\<close> and, when
  it is full, try to shift one entry to a sibling. The condition \<open>(other = c[i + 1]) !== undefined\<close>
  is the bounds check.
\<close>

definition shift_to_sibling ::
    "'k cmp \<Rightarrow> 'k \<Rightarrow> nat \<Rightarrow> 'k list \<Rightarrow> 'k bnode list \<Rightarrow> 'k list \<times> 'k bnode list" where
  "shift_to_sibling cmp key i ks cs0 =
     (let child = unshare (cs0 ! i); cs = cs0[i := child] in
      if length (nkeys child) \<ge> max_node_size then
        if i > 0 \<and> length (nkeys (cs ! (i - 1))) < max_node_size
             \<and> cmp (nkeys child ! 0) key < 0 then
          (case takeFromRight (unshare (cs ! (i - 1))) child of
             (other', child') \<Rightarrow>
               (ks[i - 1 := maxKey other'], cs[i - 1 := other', i := child']))
        else if i + 1 < length cs \<and> length (nkeys (cs ! (i + 1))) < max_node_size
             \<and> cmp (maxKey child) key < 0 then
          (case takeFromLeft (unshare (cs ! (i + 1))) child of
             (other', child') \<Rightarrow>
               (ks[i := maxKey child'], cs[i + 1 := other', i := child']))
        else (ks, cs)
      else (ks, cs))"

text \<open>\<open>Math.min(indexOf(key, this.keys, 0, cmp), c.length - 1)\<close>\<close>

definition child_index :: "'k cmp \<Rightarrow> 'k \<Rightarrow> 'k list \<Rightarrow> 'k bnode list \<Rightarrow> nat" where
  "child_index cmp key ks cs = min (nat (indexOf cmp key ks 0)) (length cs - 1)"

text \<open>The part after the recursive call: place the right half of a split child.\<close>

definition place_split ::
    "'k cmp \<Rightarrow> nat \<Rightarrow> 'k bnode \<Rightarrow> 'k bnode \<Rightarrow> 'k bnode \<times> 'k bnode option" where
  "place_split cmp i res node =
     (if length (nkeys node) < max_node_size then (binsert (i + 1) res node, None)
      else
        (case splitOffRightSide node of
           (l, r) \<Rightarrow>
             if cmp (maxKey res) (maxKey l) > 0
             then (l, Some (binsert (i + 1 - length (nkeys l)) res r))
             else (binsert (i + 1) res l, Some r)))"

lemma bdepth_mark_shared [simp]: "bdepth (mark_shared n) = bdepth n"
  by (cases n) auto

lemma bdepth_clone [simp]: "bdepth (clone n) = bdepth n"
  by (cases n) (auto simp: comp_def)

lemma bdepth_unshare [simp]: "bdepth (unshare n) = bdepth n"
  by (simp add: unshare_def)

lemma bdepth_internal_le:
  "bdepth (BNodeInternal ks cs s) \<le> Suc d \<longleftrightarrow> (\<forall>c \<in> set cs. bdepth c \<le> d)"
  by (simp add: foldr_max_le)

lemma bdepth_mono: "set cs \<subseteq> set ds \<Longrightarrow> bdepth (BNodeInternal ks cs s) \<le> bdepth (BNodeInternal ls ds t)"
  using foldr_max_ge [of _ "map bdepth ds"] by (auto simp: foldr_max_le)

lemma bdepth_takeFromRight: "bdepth (snd (takeFromRight a b)) \<le> bdepth b"
proof (induction a b rule: takeFromRight.induct)
  case (2 ks cs s rks rcs rs)
  have "set (tl rcs) \<subseteq> set rcs" by (cases rcs) auto
  with 2 show ?case by (auto intro: bdepth_mono simp del: bdepth.simps)
qed auto

lemma bdepth_takeFromLeft: "bdepth (snd (takeFromLeft a b)) \<le> bdepth b"
proof (induction a b rule: takeFromLeft.induct)
  case (2 ks cs s rks rcs rs)
  have "set (butlast rcs) \<subseteq> set rcs" by (auto dest: in_set_butlastD)
  with 2 show ?case by (auto intro: bdepth_mono simp del: bdepth.simps)
qed auto

lemma bdepth_takeFrom_unshared:
  "takeFromRight a (unshare b) = (a', b') \<Longrightarrow> bdepth b' \<le> bdepth b"
  "takeFromLeft a (unshare b) = (a', b') \<Longrightarrow> bdepth b' \<le> bdepth b"
  using bdepth_takeFromRight [of a "unshare b"] bdepth_takeFromLeft [of a "unshare b"] by simp_all

lemma bdepth_shift_child:
  assumes "i < length cs" and "shift_to_sibling cmp key i ks cs = (ks', cs')"
  shows "bdepth (cs' ! i) \<le> bdepth (cs ! i)"
proof -
  from assms(1) have "cs \<noteq> []" by auto
  with assms show ?thesis
    by (auto simp: shift_to_sibling_def Let_def dest: bdepth_takeFrom_unshared split: if_splits prod.splits)
qed

lemma bdepth_shift_less:
  assumes "i < length cs" and "(ks', cs') = shift_to_sibling cmp key i ks cs"
  shows "bdepth (cs' ! i) < bdepth (BNodeInternal ls cs s)"
  using bdepth_shift_child [OF assms(1) assms(2) [symmetric]] bdepth_child [OF nth_mem [OF assms(1)]]
  by (rule le_less_trans)

text \<open>
  \<open>set(key, tree)\<close>: the node and \<open>tree.size\<close> after the call, and the new right sibling when the node
  was split. The size is threaded as a number.
\<close>

function bset :: "'k cmp \<Rightarrow> 'k \<Rightarrow> 'k bnode \<Rightarrow> nat \<Rightarrow> 'k bnode \<times> nat \<times> 'k bnode option" where
  "bset cmp key (BNode ks s) sz =
     (let i0 = indexOf cmp key ks (-1) in
      if i0 < 0 then
        (let i = nat (NOT i0) in
         if length ks < max_node_size then (BNode (insert_at i key ks) s, sz + 1, None)
         else
           (case splitOffRightSide (BNode ks s) of
              (l, r) \<Rightarrow>
                if i > length (nkeys l)
                then (l, sz + 1, Some (BNode (insert_at (i - length (nkeys l)) key (nkeys r)) (isShared r)))
                else (BNode (insert_at i key (nkeys l)) (isShared l), sz + 1, Some r)))
      else (BNode (ks[nat i0 := key]) s, sz, None))"
| "bset cmp key (BNodeInternal ks cs s) sz =
     (let i = child_index cmp key ks cs in
      if i < length cs then
        (case shift_to_sibling cmp key i ks cs of
           (ks1, cs1) \<Rightarrow>
             (case bset cmp key (cs1 ! i) sz of
                (child', sz', res) \<Rightarrow>
                  let node = BNodeInternal (ks1[i := maxKey child']) (cs1[i := child']) s in
                  (case res of
                     None \<Rightarrow> (node, sz', None)
                   | Some r \<Rightarrow> (case place_split cmp i r node of (n, out) \<Rightarrow> (n, sz', out)))))
      else (BNodeInternal ks cs s, sz, None))"
  by pat_completeness auto
termination
  by (relation "measure (\<lambda>(cmp, key, n, sz). bdepth n)")
    (auto simp: bdepth_shift_less simp del: bdepth.simps)

declare bset.simps [simp del]

subsection \<open>Deletion and merging\<close>

text \<open>
  \<open>tryMerge(i, maxSize)\<close> merges child \<open>i\<close> with its right sibling; merging two internal nodes tries
  to merge the two grandchildren that became neighbours, so the two functions call each other.
\<close>

lemma bdepth_merged:
  assumes "rcs = map mark_shared (children_of rhs) \<or> rcs = children_of rhs"
  shows "bdepth (BNodeInternal ks (cs @ rcs) s) \<le> max (bdepth (BNodeInternal ls cs t)) (bdepth rhs)"
proof -
  have "bdepth c < bdepth rhs" if "c \<in> set rcs" for c
    using assms that by (cases rhs) (auto simp: bdepth_child simp del: bdepth.simps)
  then have r: "\<forall>c \<in> set rcs. Suc (bdepth c) \<le> bdepth rhs"
    by (simp add: Suc_le_eq)
  have l: "\<forall>c \<in> set cs. Suc (bdepth c) \<le> bdepth (BNodeInternal ls cs t)"
    by (intro ballI Suc_leI bdepth_child)
  obtain d where d: "max (bdepth (BNodeInternal ls cs t)) (bdepth rhs) = Suc d"
    by (cases "max (bdepth (BNodeInternal ls cs t)) (bdepth rhs)") auto
  with r l have "\<forall>c \<in> set (cs @ rcs). bdepth c \<le> d"
    by (auto simp del: bdepth.simps)
  then show ?thesis
    by (simp only: d bdepth_internal_le)
qed

function mergeSibling :: "nat \<Rightarrow> 'k bnode \<Rightarrow> 'k bnode \<Rightarrow> 'k bnode"
  and tryMerge :: "nat \<Rightarrow> int \<Rightarrow> 'k bnode \<Rightarrow> 'k bnode" where
  "mergeSibling maxSize (BNode ks s) rhs = BNode (ks @ nkeys rhs) s"
| "mergeSibling maxSize (BNodeInternal ks cs s) rhs =
     (let oldLength = length ks;
          rhsChildren = (if isShared rhs \<and> \<not> s then map mark_shared (children_of rhs) else children_of rhs)
      in tryMerge maxSize (int oldLength - 1) (BNodeInternal (ks @ nkeys rhs) (cs @ rhsChildren) s))"
| "tryMerge maxSize i (BNode ks s) = BNode ks s"
| "tryMerge maxSize i (BNodeInternal ks cs s) =
     (let j = nat i in
      if 0 \<le> i \<and> j + 1 < length cs
         \<and> length (nkeys (cs ! j)) + length (nkeys (cs ! (j + 1))) \<le> maxSize then
        (let child = mergeSibling maxSize (unshare (cs ! j)) (cs ! (j + 1))
         in BNodeInternal ((remove_at (j + 1) ks)[j := maxKey child])
              ((remove_at (j + 1) cs)[j := child]) s)
      else BNodeInternal ks cs s)"
  by pat_completeness auto
termination
proof (relation "measure (\<lambda>x. case x of
      Inl (m, a, b) \<Rightarrow> Suc (2 * max (bdepth a) (bdepth b))
    | Inr (m, i, n) \<Rightarrow> 2 * bdepth n)", goal_cases)
  case 1
  then show ?case by simp
next
  case (2 maxSize ks cs s rhs x xa)
  then have "bdepth (BNodeInternal (ks @ nkeys rhs) (cs @ xa) s)
      \<le> max (bdepth (BNodeInternal ks cs s)) (bdepth rhs)"
    by (intro bdepth_merged) auto
  then show ?case by (simp del: bdepth.simps)
next
  case (3 maxSize i ks cs s j)
  then have "bdepth (cs ! j) < bdepth (BNodeInternal ks cs s)"
    and "bdepth (cs ! (j + 1)) < bdepth (BNodeInternal ks cs s)"
    by (intro bdepth_child nth_mem; simp)+
  then show ?case by (simp del: bdepth.simps)
qed

declare mergeSibling.simps(2) [simp del] tryMerge.simps(2) [simp del]

text \<open>
  The \<open>finally\<close> block of \<open>delete\<close>: for \<open>i\<close> from \<open>iHigh\<close> down to \<open>iLow\<close>, merge a child that is at
  most half full, or drop it when it is empty.
\<close>

fun merge_scan :: "nat list \<Rightarrow> 'k bnode \<Rightarrow> 'k bnode" where
  "merge_scan [] n = n"
| "merge_scan (i # is) n =
     (let half = max_node_size div 2; child = children_of n ! i in
      merge_scan is
        (if length (nkeys child) \<le> half then
           if length (nkeys child) \<noteq> 0 then tryMerge max_node_size (int i) n
           else (case n of
               BNodeInternal ks cs s \<Rightarrow> BNodeInternal (remove_at i ks) (remove_at i cs) s
             | _ \<Rightarrow> n)
         else n))"

text \<open>
  \<open>delete(key, tree)\<close>: whether a key was removed, the node and \<open>tree.size\<close> afterwards; an error when
  the leaf to be changed is shared. \<open>keys[i]\<close> of a child that became empty is \<open>undefined\<close> until the
  \<open>finally\<close> block removes it; here it keeps its old value until then.
\<close>

function bdelete :: "'k cmp \<Rightarrow> 'k \<Rightarrow> 'k bnode \<Rightarrow> nat \<Rightarrow> (bool \<times> 'k bnode \<times> nat) result" where
  "bdelete cmp key (BNode ks s) sz =
     (let iLow = indexOf cmp key ks (-1) in
      if iLow < 0 then Inr (False, BNode ks s, sz)
      else if s then Inl (IllegalState ''BTree illegally changed or cloned in delete'')
      else Inr (True, BNode (remove_at (nat iLow) ks) s, sz - 1))"
| "bdelete cmp key (BNodeInternal ks cs s) sz =
     (let iLow = nat (indexOf cmp key ks 0) in
      if iLow < length ks \<and> iLow < length cs then
        (let cs1 = cs[iLow := unshare (cs ! iLow)] in
         bind_result (bdelete cmp key (unshare (cs ! iLow)) sz) (\<lambda>(removed, child, sz').
           let ks2 = (if nkeys child = [] then ks else ks[iLow := maxKey child]);
               node = BNodeInternal ks2 (cs1[iLow := child]) s
           in Inr (removed, merge_scan (if iLow > 0 then [iLow, iLow - 1] else [iLow]) node, sz')))
      else Inr (False, BNodeInternal ks cs s, sz))"
  by pat_completeness auto
termination
  by (relation "measure (\<lambda>(cmp, key, n, sz). bdepth n)")
    (auto simp: bdepth_child simp del: bdepth.simps)

declare bdelete.simps [simp del]

subsection \<open>The tree\<close>

record 'k btree =
  root :: "'k bnode"
  tsize :: nat

definition empty_btree :: "'k btree" where
  "empty_btree = \<lparr>root = emptyLeaf, tsize = 0\<rparr>"

definition btree_clear :: "'k btree \<Rightarrow> 'k btree" where
  "btree_clear t = t\<lparr>root := emptyLeaf, tsize := 0\<rparr>"

text \<open>\<open>clone()\<close> marks the root of the cloned tree, so it returns both trees.\<close>

definition btree_clone :: "'k btree \<Rightarrow> 'k btree \<times> 'k btree" where
  "btree_clone t =
     (let t' = t\<lparr>root := mark_shared (root t)\<rparr> in (t', \<lparr>root = root t', tsize = tsize t\<rparr>))"

definition btree_get :: "'k cmp \<Rightarrow> 'k \<Rightarrow> 'k btree \<Rightarrow> 'k option" where
  "btree_get cmp key t = bget cmp key (root t)"

definition btree_has :: "'k cmp \<Rightarrow> 'k \<Rightarrow> 'k btree \<Rightarrow> bool" where
  "btree_has cmp key t = bhas cmp key (root t)"

definition btree_add :: "'k cmp \<Rightarrow> 'k \<Rightarrow> 'k btree \<Rightarrow> 'k btree" where
  "btree_add cmp key t =
     (case bset cmp key (unshare (root t)) (tsize t) of
        (r, sz, None) \<Rightarrow> \<lparr>root = r, tsize = sz\<rparr>
      | (r, sz, Some result) \<Rightarrow> \<lparr>root = mk_internal [r, result], tsize = sz\<rparr>)"

definition btree_from_entries :: "'k cmp \<Rightarrow> 'k list \<Rightarrow> 'k btree" where
  "btree_from_entries cmp entries = fold (btree_add cmp) entries empty_btree"

text \<open>The \<open>finally\<close> block of the tree's \<open>#delete\<close>: drop internal roots with at most one child.\<close>

fun collapse_root :: "bool \<Rightarrow> 'k bnode \<Rightarrow> 'k bnode" where
  "collapse_root shared (BNode ks s) = (if shared then BNode ks True else BNode ks s)"
| "collapse_root shared (BNodeInternal [] cs s) = emptyLeaf"
| "collapse_root shared (BNodeInternal [k] (c # cs) s) = collapse_root (shared \<or> s) c"
| "collapse_root shared n = (if shared then mark_shared n else n)"

definition btree_delete :: "'k cmp \<Rightarrow> 'k \<Rightarrow> 'k btree \<Rightarrow> (bool \<times> 'k btree) result" where
  "btree_delete cmp key t =
     bind_result (bdelete cmp key (unshare (root t)) (tsize t)) (\<lambda>(removed, r, sz).
       Inr (removed, \<lparr>root = collapse_root False r, tsize = sz\<rparr>))"

end
