(* ===== verification/BTreeCorrect.thy ===== *)
theory BTreeCorrect
  imports BTreeSet
begin

section \<open>Correctness of the B+ tree set\<close>

text \<open>
  The invariant \<open>binv h\<close> of a node of height \<open>h\<close> (uniform depth, at most \<open>max_node_size\<close> entries, each
  internal key caches the largest key below its child, no empty child), the abstraction \<open>elems\<close> to
  the ordered list of keys, and the proof that every operation keeps the invariant and acts on
  \<open>elems\<close> as the specification functions of the prelude do.
\<close>

fun elems :: "'k bnode \<Rightarrow> 'k list" where
  "elems (BNode ks _) = ks"
| "elems (BNodeInternal _ cs _) = concat (map elems cs)"

fun binv :: "nat \<Rightarrow> 'k bnode \<Rightarrow> bool" where
  "binv h (BNode ks _) \<longleftrightarrow> h = 0 \<and> length ks \<le> max_node_size"
| "binv 0 (BNodeInternal _ _ _) \<longleftrightarrow> False"
| "binv (Suc h) (BNodeInternal ks cs _) \<longleftrightarrow>
     ks = map maxKey cs \<and> length cs \<le> max_node_size \<and> (\<forall>c \<in> set cs. binv h c \<and> nkeys c \<noteq> [])"

abbreviation elems_of :: "'k bnode list \<Rightarrow> 'k list" where
  "elems_of cs \<equiv> concat (map elems cs)"

lemma binv_internal_Suc: "binv h (BNodeInternal ks cs s) \<Longrightarrow> \<exists>h'. h = Suc h'"
  by (cases h) auto

lemma max_node_size_simps [simp]: "max_node_size div 2 = 16" "0 < max_node_size"
  by (simp_all add: max_node_size_def)

lemma elems_mark_shared [simp]: "elems (mark_shared n) = elems n"
  by (cases n) auto

lemma nkeys_mark_shared [simp]: "nkeys (mark_shared n) = nkeys n"
  by (cases n) auto

lemma maxKey_mark_shared [simp]: "maxKey (mark_shared n) = maxKey n"
  by (simp add: maxKey_def)

lemma isShared_mark_shared [simp]: "isShared (mark_shared n)"
  by (cases n) auto

lemma binv_mark_shared [simp]: "binv h (mark_shared n) = binv h n"
  by (cases n; cases h) auto

lemma elems_clone [simp]: "elems (clone n) = elems n"
  by (cases n) (auto simp: comp_def)

lemma nkeys_clone [simp]: "nkeys (clone n) = nkeys n"
  by (cases n) auto

lemma binv_clone [simp]: "binv h (clone n) = binv h n"
  by (cases n; cases h) (auto simp: comp_def)

lemma isShared_clone [simp]: "\<not> isShared (clone n)"
  by (cases n) auto

lemma unshare_simps [simp]:
  "elems (unshare n) = elems n" "nkeys (unshare n) = nkeys n"
  "binv h (unshare n) = binv h n" "\<not> isShared (unshare n)"
  by (simp_all add: unshare_def)

lemma maxKey_unshare [simp]: "maxKey (unshare n) = maxKey n"
  by (simp add: maxKey_def)

lemma binv_max: "binv h n \<Longrightarrow> nkeys n \<noteq> [] \<Longrightarrow> elems n \<noteq> [] \<and> last (elems n) = maxKey n"
proof (induction h n rule: binv.induct)
  case (3 h ks cs s)
  then have ne: "cs \<noteq> []" by auto
  then have "last cs \<in> set cs" by simp
  with 3 have "elems (last cs) \<noteq> []" "last (elems (last cs)) = maxKey (last cs)" by auto
  moreover have "elems (BNodeInternal ks cs s) = elems_of (butlast cs) @ elems (last cs)"
    using arg_cong [OF append_butlast_last_id [OF ne], of elems_of] by simp
  moreover have "maxKey (BNodeInternal ks cs s) = maxKey (last cs)"
    using "3.prems"(1) ne by (simp add: maxKey_def last_map)
  ultimately show ?case by (simp del: elems.simps)
qed (auto simp: maxKey_def)

lemma binv_nonempty: "binv h n \<Longrightarrow> nkeys n = [] \<longleftrightarrow> elems n = []"
  using binv_max [of h n] by (cases n; cases h) auto

lemma binv_keys_length: "binv h n \<Longrightarrow> length (nkeys n) \<le> max_node_size"
  by (cases n; cases h) auto

lemma elems_of_split:
  assumes "i < length cs"
  shows "elems_of cs = elems_of (take i cs) @ elems (cs ! i) @ elems_of (drop (Suc i) cs)"
  using arg_cong [OF id_take_nth_drop [OF assms], of elems_of] by simp

lemma sorted_child: "i < length cs \<Longrightarrow> sorted_cmp cmp (elems_of cs) \<Longrightarrow> sorted_cmp cmp (elems (cs ! i))"
  by (simp add: elems_of_split sorted_rules)

lemma elems_of_update:
  assumes "i < length cs"
  shows "elems_of (cs[i := c]) = elems_of (take i cs) @ elems c @ elems_of (drop (Suc i) cs)"
  using elems_of_split [of i "cs[i := c]"] assms by simp

lemma elems_of_update2:
  assumes "Suc j < length cs"
  shows "elems_of (cs[j := a, Suc j := b]) =
    elems_of (take j cs) @ elems a @ elems b @ elems_of (drop (Suc (Suc j)) cs)"
  using assms elems_of_update [of "Suc j" "cs[j := a]" b]
  by (simp add: take_Suc_conv_app_nth)

lemma elems_of_split2:
  assumes "Suc j < length cs"
  shows "elems_of cs =
    elems_of (take j cs) @ elems (cs ! j) @ elems (cs ! Suc j) @ elems_of (drop (Suc (Suc j)) cs)"
  using elems_of_update2 [OF assms, of "cs ! j" "cs ! Suc j"] by simp

lemma binv_update:
  assumes "binv (Suc h) (BNodeInternal ks cs s)" and "binv h c" and "nkeys c \<noteq> []"
  shows "binv (Suc h) (BNodeInternal (ks[i := maxKey c]) (cs[i := c]) s)"
  using assms by (auto simp: map_update dest!: subsetD [OF set_update_subset_insert])

subsection \<open>Binary search\<close>

abbreviation lower_bound :: "'k cmp \<Rightarrow> 'k \<Rightarrow> 'k list \<Rightarrow> nat" where
  "lower_bound cmp key ks \<equiv> length (takeWhile (\<lambda>k. cmp k key < 0) ks)"

context comparator
begin

lemma lower_bound_less:
  "sorted_cmp cmp ks \<Longrightarrow> i < length ks \<Longrightarrow> cmp (ks ! i) key < 0 \<longleftrightarrow> i < lower_bound cmp key ks"
proof (induction ks arbitrary: i)
  case (Cons k ks)
  show ?case
  proof (cases i)
    case 0
    then show ?thesis by simp
  next
    case (Suc j)
    with Cons show ?thesis
      by (auto simp: sorted_rules) (metis cmp_less_trans nth_mem)
  qed
qed simp

lemma lower_bound_le: "lower_bound cmp key ks \<le> length ks"
  by (simp add: length_takeWhile_le)

lemma equal_at_lower_bound:
  assumes "sorted_cmp cmp ks" "i < length ks" "cmp (ks ! i) key = 0"
  shows "lower_bound cmp key ks = i"
proof (rule ccontr)
  assume ne: "lower_bound cmp key ks \<noteq> i"
  have "\<not> i < lower_bound cmp key ks"
    using lower_bound_less [OF assms(1,2), of key] assms(3) by simp
  with ne have lt: "lower_bound cmp key ks < i" by simp
  then have "cmp (ks ! lower_bound cmp key ks) (ks ! i) < 0"
    using assms(1,2) sorted_wrt_nth_less [of "\<lambda>a b. cmp a b < 0" ks] by (simp add: sorted_cmp_def)
  then have "cmp (ks ! lower_bound cmp key ks) key < 0"
    using assms(3) cmp_less_eq by blast
  then show False
    using lower_bound_less [OF assms(1), of "lower_bound cmp key ks" key] lt assms(2) by simp
qed

lemma indexOf_loop_spec:
  assumes "sorted_cmp cmp ks" and "lo \<le> lower_bound cmp key ks"
    and "lower_bound cmp key ks \<le> hi" and "hi \<le> length ks"
    and "\<forall>i < length ks. cmp (ks ! i) key = 0 \<longrightarrow> i < hi"
  shows "indexOf_loop cmp key ks lo hi =
    (lower_bound cmp key ks < length ks \<and> cmp (ks ! lower_bound cmp key ks) key = 0,
     lower_bound cmp key ks)"
  using assms(2-)
proof (induction "hi - lo" arbitrary: lo hi rule: less_induct)
  case less
  let ?p = "lower_bound cmp key ks" and ?mid = "(lo + hi) div 2"
  show ?case
  proof (cases "lo < hi")
    case False
    with less.prems have "lo = ?p" "hi = ?p" by auto
    moreover have "\<not> (?p < length ks \<and> cmp (ks ! ?p) key = 0)"
      using less.prems(4) \<open>hi = ?p\<close> by blast
    ultimately show ?thesis
      by (simp add: indexOf_loop.simps [of cmp key ks ?p ?p])
  next
    case True
    then have mid: "lo \<le> ?mid" "?mid < hi" "?mid < length ks"
      using less.prems by auto
    consider "cmp (ks ! ?mid) key < 0" | "cmp (ks ! ?mid) key > 0" | "cmp (ks ! ?mid) key = 0"
      by linarith
    then show ?thesis
    proof cases
      case 1
      then have "?mid + 1 \<le> ?p"
        using lower_bound_less [OF assms(1) mid(3), of key] by simp
      with 1 True mid less.prems show ?thesis
        using less.hyps [of hi "?mid + 1"]
        by (simp add: indexOf_loop.simps [of cmp key ks lo hi] Let_def)
    next
      case 2
      then have le: "?p \<le> ?mid"
        using lower_bound_less [OF assms(1) mid(3), of key] by simp
      have "\<forall>i < length ks. cmp (ks ! i) key = 0 \<longrightarrow> i < ?mid"
        using equal_at_lower_bound [OF assms(1)] le 2 by (metis le_neq_implies_less less_irrefl)
      with 2 True mid le less.prems show ?thesis
        using less.hyps [of ?mid lo]
        by (simp add: indexOf_loop.simps [of cmp key ks lo hi] Let_def)
    next
      case 3
      then have "?p = ?mid"
        using equal_at_lower_bound [OF assms(1) mid(3)] by simp
      with 3 True mid show ?thesis
        by (simp add: indexOf_loop.simps [of cmp key ks lo hi] Let_def)
    qed
  qed
qed

lemma indexOf_0:
  "sorted_cmp cmp ks \<Longrightarrow> indexOf cmp key ks 0 = int (lower_bound cmp key ks)"
  by (simp add: indexOf_def indexOf_loop_spec lower_bound_le)

lemma indexOf_neg:
  assumes "sorted_cmp cmp ks"
  shows "indexOf cmp key ks (-1) =
    (let p = lower_bound cmp key ks in
     if p < length ks \<and> cmp (ks ! p) key = 0 then int p else NOT (int p))"
  using assms by (simp add: indexOf_def indexOf_loop_spec lower_bound_le Let_def)

text \<open>An equal element, if there is one, stands at the lower bound.\<close>

lemma mem_at_lower_bound:
  assumes "sorted_cmp cmp ks"
  shows "mem_sorted cmp key ks \<longleftrightarrow>
    lower_bound cmp key ks < length ks \<and> cmp (ks ! lower_bound cmp key ks) key = 0"
proof
  assume "mem_sorted cmp key ks"
  then obtain i where i: "i < length ks" "cmp (ks ! i) key = 0"
    by (auto simp: mem_sorted_iff in_set_conv_nth)
  with equal_at_lower_bound [OF assms i]
  show "lower_bound cmp key ks < length ks \<and> cmp (ks ! lower_bound cmp key ks) key = 0"
    by simp
qed (auto simp: mem_sorted_iff)

lemma take_lower_bound: "\<forall>k \<in> set (take (lower_bound cmp key ks) ks). cmp k key < 0"
  by (metis set_takeWhileD takeWhile_eq_take)

lemma drop_lower_bound:
  assumes "sorted_cmp cmp ks" "\<not> mem_sorted cmp key ks"
  shows "\<forall>k \<in> set (drop (lower_bound cmp key ks) ks). 0 < cmp k key"
proof
  fix k assume "k \<in> set (drop (lower_bound cmp key ks) ks)"
  then obtain i where i: "i < length ks" "\<not> i < lower_bound cmp key ks" "k = ks ! i"
    by (auto simp: in_set_conv_nth) (metis add.commute less_diff_conv not_add_less1)
  with assms have "\<not> cmp k key < 0" "cmp k key \<noteq> 0"
    using lower_bound_less [OF assms(1) i(1), of key] by (auto simp: mem_sorted_iff)
  then show "0 < cmp k key" by simp
qed

subsection \<open>The child a search descends into\<close>

text \<open>
  Everything to the left of the child that \<open>indexOf\<close> selects is smaller than the key, everything
  to its right is larger.
\<close>

lemma sorted_keys:
  assumes "binv (Suc h) (BNodeInternal ks cs s)" "sorted_cmp cmp (elems_of cs)"
  shows "sorted_cmp cmp ks"
proof -
  have "sorted_cmp cmp (map maxKey cs)"
    if "\<forall>c \<in> set cs. binv h c \<and> nkeys c \<noteq> []" "sorted_cmp cmp (elems_of cs)" for cs :: "'k bnode list"
    using that
  proof (induction cs)
    case (Cons c cs)
    have max: "maxKey d \<in> set (elems d)" if "d \<in> set (c # cs)" for d
      using that Cons.prems(1) binv_max [of h d] by (metis last_in_set)
    with Cons show ?case
      by (auto simp: sorted_rules)
  qed simp
  with assms show ?thesis by simp
qed

lemma child_elems_le:
  assumes "binv h c" "nkeys c \<noteq> []" "sorted_cmp cmp (elems c)" "k \<in> set (elems c)"
  shows "cmp k (maxKey c) \<le> 0"
proof -
  have ne: "elems c \<noteq> []" and last: "last (elems c) = maxKey c"
    using binv_max [OF assms(1,2)] by auto
  then have e: "elems c = butlast (elems c) @ [maxKey c]"
    by (metis append_butlast_last_id)
  then have "sorted_cmp cmp (butlast (elems c) @ [maxKey c])" and "k \<in> set (butlast (elems c) @ [maxKey c])"
    using assms(3,4) by auto
  then show ?thesis
    by (auto simp: sorted_rules)
qed

lemma children_left:
  assumes "binv (Suc h) (BNodeInternal ks cs s)" "sorted_cmp cmp (elems_of cs)"
    and "i \<le> lower_bound cmp key ks"
  shows "\<forall>k \<in> set (elems_of (take i cs)). cmp k key < 0"
proof
  fix k assume "k \<in> set (elems_of (take i cs))"
  then obtain c where "c \<in> set (take i cs)" "k \<in> set (elems c)"
    by auto
  then obtain j where j: "j < i" "j < length cs" "k \<in> set (elems (cs ! j))"
    by (auto simp: in_set_conv_nth [of c])
  have c: "binv h (cs ! j)" "nkeys (cs ! j) \<noteq> []" and ks: "ks = map maxKey cs"
    using assms(1) j(2) by auto
  have "sorted_cmp cmp (elems (cs ! j))"
    by (rule sorted_child [OF j(2) assms(2)])
  then have "cmp k (maxKey (cs ! j)) \<le> 0"
    using c j(3) by (intro child_elems_le)
  moreover have "cmp (ks ! j) key < 0"
    using lower_bound_less [OF sorted_keys [OF assms(1,2)], of j key] j(1,2) assms(3) ks by auto
  ultimately show "cmp k key < 0"
    using ks j(2) cmp_le_less_trans by auto
qed

lemma children_right:
  assumes "binv (Suc h) (BNodeInternal ks cs s)" "sorted_cmp cmp (elems_of cs)"
    and "i < length cs" and "lower_bound cmp key ks \<le> i"
  shows "\<forall>k \<in> set (elems_of (drop (Suc i) cs)). 0 < cmp k key"
proof
  fix k assume k: "k \<in> set (elems_of (drop (Suc i) cs))"
  have c: "binv h (cs ! i)" "nkeys (cs ! i) \<noteq> []" and ks: "ks = map maxKey cs"
    using assms(1,3) by auto
  have "\<not> cmp (ks ! i) key < 0"
    using lower_bound_less [OF sorted_keys [OF assms(1,2)], of i key] assms(3,4) ks by auto
  then have "cmp key (maxKey (cs ! i)) \<le> 0"
    using ks assms(3) cmp_le_sym by auto
  moreover have "maxKey (cs ! i) \<in> set (elems (cs ! i))"
    using binv_max [OF c] by (metis last_in_set)
  with k have "cmp (maxKey (cs ! i)) k < 0"
    using assms(2) by (auto simp: elems_of_split [OF assms(3)] sorted_rules)
  ultimately show "0 < cmp k key"
    using cmp_le_less_trans cmp_pos by blast
qed

subsection \<open>Lookup\<close>

lemma find_append_left: "\<forall>x \<in> set as. \<not> P x \<Longrightarrow> find P (as @ bs) = find P bs"
  by (induction as) auto

lemma find_append_right: "\<forall>x \<in> set bs. \<not> P x \<Longrightarrow> find P (as @ bs) = find P as"
  by (induction as) (auto simp: find_None_iff)

lemma search_skip:
  assumes "\<forall>k \<in> set as. cmp k key < 0" "\<forall>k \<in> set bs. 0 < cmp k key"
  shows "find (\<lambda>k. cmp k key = 0) (as @ ms @ bs) = find (\<lambda>k. cmp k key = 0) ms"
    and "mem_sorted cmp key (as @ ms @ bs) \<longleftrightarrow> mem_sorted cmp key ms"
proof -
  have as: "\<forall>k \<in> set as. cmp k key \<noteq> 0" and bs: "\<forall>k \<in> set bs. cmp k key \<noteq> 0"
    using assms by fastforce+
  show "find (\<lambda>k. cmp k key = 0) (as @ ms @ bs) = find (\<lambda>k. cmp k key = 0) ms"
    by (simp only: find_append_left [OF as] find_append_right [OF bs])
  show "mem_sorted cmp key (as @ ms @ bs) \<longleftrightarrow> mem_sorted cmp key ms"
    using mem_sorted_none [of as cmp key] mem_sorted_none [of bs cmp key] as bs by simp
qed

lemma search_none:
  assumes "\<forall>k \<in> set as. cmp k key < 0"
  shows "find (\<lambda>k. cmp k key = 0) as = None" "\<not> mem_sorted cmp key as"
  using search_skip [of as key "[]" "[]"] assms by (simp_all add: mem_sorted_def)

lemma find_at_lower_bound:
  assumes "sorted_cmp cmp ks"
  shows "find (\<lambda>k. cmp k key = 0) ks =
    (let p = lower_bound cmp key ks in
     if p < length ks \<and> cmp (ks ! p) key = 0 then Some (ks ! p) else None)"
proof (cases "mem_sorted cmp key ks")
  case True
  let ?p = "lower_bound cmp key ks"
  from True have p: "?p < length ks" "cmp (ks ! ?p) key = 0"
    by (simp_all add: mem_at_lower_bound [OF assms])
  have "find (\<lambda>k. cmp k key = 0) (take ?p ks @ ks ! ?p # drop (Suc ?p) ks) = Some (ks ! ?p)"
  proof (subst find_append_left)
    show "\<forall>k \<in> set (take ?p ks). cmp k key \<noteq> 0"
      using take_lower_bound [of key ks] by (metis less_irrefl)
    show "find (\<lambda>k. cmp k key = 0) (ks ! ?p # drop (Suc ?p) ks) = Some (ks ! ?p)"
      by (simp only: find.simps p(2) if_True simp_thms)
  qed
  then have "find (\<lambda>k. cmp k key = 0) ks = Some (ks ! ?p)"
    by (rule trans [OF arg_cong [OF id_take_nth_drop [OF p(1)], of "find (\<lambda>k. cmp k key = 0)"]])
  with p show ?thesis by (simp add: Let_def)
next
  case False
  then have "find (\<lambda>k. cmp k key = 0) ks = None"
    by (auto simp: find_None_iff mem_sorted_iff)
  with False show ?thesis
    by (simp add: mem_at_lower_bound [OF assms] Let_def)
qed

text \<open>The case split of a search in an internal node.\<close>

lemma search_cases:
  assumes "binv (Suc h) (BNodeInternal ks cs s)" "sorted_cmp cmp (elems_of cs)"
  obtains (child) i where "indexOf cmp key ks 0 = int i" "i < length cs"
      "\<forall>k \<in> set (elems_of (take i cs)). cmp k key < 0"
      "\<forall>k \<in> set (elems_of (drop (Suc i) cs)). 0 < cmp k key"
      "sorted_cmp cmp (elems (cs ! i))" "binv h (cs ! i)" "nkeys (cs ! i) \<noteq> []"
      "elems_of cs = elems_of (take i cs) @ elems (cs ! i) @ elems_of (drop (Suc i) cs)"
      "\<not> cmp (maxKey (cs ! i)) key < 0"
    | (beyond) "indexOf cmp key ks 0 = int (length cs)"
      "\<forall>k \<in> set (elems_of cs). cmp k key < 0"
proof (cases "lower_bound cmp key ks < length cs")
  case True
  show ?thesis
  proof (rule child)
    show "indexOf cmp key ks 0 = int (lower_bound cmp key ks)"
      by (rule indexOf_0 [OF sorted_keys [OF assms]])
    show "sorted_cmp cmp (elems (cs ! lower_bound cmp key ks))"
      by (rule sorted_child [OF True assms(2)])
    show "binv h (cs ! lower_bound cmp key ks)" "nkeys (cs ! lower_bound cmp key ks) \<noteq> []"
      using assms(1) True by simp_all
    show "\<forall>k \<in> set (elems_of (take (lower_bound cmp key ks) cs)). cmp k key < 0"
      by (rule children_left [OF assms order.refl])
    show "\<forall>k \<in> set (elems_of (drop (Suc (lower_bound cmp key ks)) cs)). 0 < cmp k key"
      by (rule children_right [OF assms True order.refl])
    show "\<not> cmp (maxKey (cs ! lower_bound cmp key ks)) key < 0"
      using lower_bound_less [OF sorted_keys [OF assms], of "lower_bound cmp key ks" key] assms(1) True
      by auto
  qed (fact True, rule elems_of_split [OF True])
next
  case False
  moreover have "length ks = length cs" using assms(1) by simp
  ultimately have "lower_bound cmp key ks = length cs"
    using lower_bound_le [of key ks] by simp
  then show ?thesis
    using beyond indexOf_0 [OF sorted_keys [OF assms]] children_left [OF assms, of "length cs" key]
    by simp
qed

lemma bget_find:
  assumes "binv h n" "sorted_cmp cmp (elems n)"
  shows "bget cmp key n = find (\<lambda>k. cmp k key = 0) (elems n)"
  using assms
proof (induction h n rule: binv.induct)
  case (1 h ks s)
  then show ?case
    by (auto simp: indexOf_neg find_at_lower_bound Let_def)
next
  case (2 ks cs s)
  then show ?case by simp
next
  case (3 h ks cs s)
  have "sorted_cmp cmp (elems_of cs)" using "3.prems" by simp
  from "3.prems"(1) this show ?case
  proof (cases rule: search_cases [where key = key])
    case (child i)
    have "find (\<lambda>k. cmp k key = 0) (elems_of cs) = find (\<lambda>k. cmp k key = 0) (elems (cs ! i))"
      unfolding child(8) by (rule search_skip) (fact child(3,4))+
    moreover have "bget cmp key (cs ! i) = find (\<lambda>k. cmp k key = 0) (elems (cs ! i))"
      by (rule "3.IH") (use child in auto)
    ultimately show ?thesis
      using child(1,2) by simp
  next
    case beyond
    with search_none(1) [OF beyond(2)] show ?thesis by simp
  qed
qed

lemma bhas_mem:
  assumes "binv h n" "sorted_cmp cmp (elems n)"
  shows "bhas cmp key n \<longleftrightarrow> mem_sorted cmp key (elems n)"
  using assms
proof (induction h n rule: binv.induct)
  case (1 h ks s)
  then show ?case
    by (auto simp: indexOf_neg mem_at_lower_bound Let_def)
next
  case (2 ks cs s)
  then show ?case by simp
next
  case (3 h ks cs s)
  have "sorted_cmp cmp (elems_of cs)" using "3.prems" by simp
  from "3.prems"(1) this show ?case
  proof (cases rule: search_cases [where key = key])
    case (child i)
    have "mem_sorted cmp key (elems_of cs) = mem_sorted cmp key (elems (cs ! i))"
      unfolding child(8) by (rule search_skip) (fact child(3,4))+
    moreover have "bhas cmp key (cs ! i) = mem_sorted cmp key (elems (cs ! i))"
      by (rule "3.IH") (use child in auto)
    ultimately show ?thesis
      using child(1,2) by simp
  next
    case beyond
    with search_none(2) [OF beyond(2)] show ?thesis by simp
  qed
qed

subsection \<open>Insertion\<close>

lemma ins_sorted_absent:
  assumes "sorted_cmp cmp ks" "\<not> mem_sorted cmp key ks"
  shows "ins_sorted cmp key ks = insert_at (lower_bound cmp key ks) key ks"
  using ins_sorted_append [where ms = "[]" and cmp = cmp and x = key, OF take_lower_bound [of key ks] drop_lower_bound [OF assms]]
  by (simp add: insert_at_def ins_sorted_def [of cmp key "[]"])

lemma ins_sorted_present:
  assumes "sorted_cmp cmp ks" "mem_sorted cmp key ks"
  shows "ins_sorted cmp key ks = ks[lower_bound cmp key ks := key]"
proof -
  obtain p where p: "p = lower_bound cmp key ks" "p < length ks" "cmp (ks ! p) key = 0"
    using assms by (simp add: mem_at_lower_bound)
  have ks: "ks = take p ks @ ks ! p # drop (Suc p) ks"
    by (rule id_take_nth_drop [OF p(2)])
  have sorted: "sorted_cmp cmp (take p ks @ ks ! p # drop (Suc p) ks)"
    using assms(1) ks by simp
  have "ins_sorted cmp key (take p ks @ [ks ! p] @ drop (Suc p) ks) =
      take p ks @ ins_sorted cmp key [ks ! p] @ drop (Suc p) ks"
    by (rule ins_sorted_append) (rule sorted_cmp_unique [OF sorted p(3)])+
  then have "ins_sorted cmp key ks = take p ks @ key # drop (Suc p) ks"
    using p(3) ks by (simp add: ins_sorted_def [of cmp key "[ks ! p]"])
  then show ?thesis
    using p(2) by (simp add: p(1) [symmetric] upd_conv_take_nth_drop)
qed

text \<open>What an insertion into a subtree of height \<open>h\<close> returns.\<close>

definition ins_result ::
    "nat \<Rightarrow> 'k \<Rightarrow> 'k list \<Rightarrow> nat \<Rightarrow> 'k bnode \<times> nat \<times> 'k bnode option \<Rightarrow> bool" where
  "ins_result h key xs sz out \<longleftrightarrow> (case out of (n, sz', res) \<Rightarrow>
     binv h n \<and> nkeys n \<noteq> [] \<and> sz' = (if mem_sorted cmp key xs then sz else sz + 1) \<and>
     (case res of
        None \<Rightarrow> elems n = ins_sorted cmp key xs
      | Some r \<Rightarrow> binv h r \<and> nkeys r \<noteq> [] \<and> elems n @ elems r = ins_sorted cmp key xs))"

lemma insert_at_take_drop:
  "p \<ge> m \<Longrightarrow> insert_at p key ks = take m ks @ insert_at (p - m) key (drop m ks)"
  "p \<le> m \<Longrightarrow> insert_at p key ks = insert_at p key (take m ks) @ drop m ks"
proof -
  assume "p \<ge> m"
  then have "take p ks = take m ks @ take (p - m) (drop m ks)"
    using take_add [of m "p - m" ks] by simp
  with \<open>p \<ge> m\<close> show "insert_at p key ks = take m ks @ insert_at (p - m) key (drop m ks)"
    by (simp add: insert_at_def)
next
  assume "p \<le> m"
  then have "drop p ks = drop p (take m ks) @ drop m ks"
    using append_take_drop_id [of "m - p" "drop p ks"] by (simp add: drop_take)
  with \<open>p \<le> m\<close> show "insert_at p key ks = insert_at p key (take m ks) @ drop m ks"
    by (simp add: insert_at_def min_def)
qed

lemma bset_leaf:
  assumes "sorted_cmp cmp ks" "length ks \<le> max_node_size"
  shows "ins_result 0 key ks sz (bset cmp key (BNode ks s) sz)"
proof (cases "mem_sorted cmp key ks")
  case True
  then have "indexOf cmp key ks (-1) = int (lower_bound cmp key ks)" and "ks \<noteq> []"
    by (auto simp: indexOf_neg [OF assms(1)] mem_at_lower_bound [OF assms(1)])
  with True assms show ?thesis
    by (simp add: ins_result_def bset.simps ins_sorted_present)
next
  case False
  define p where "p = lower_bound cmp key ks"
  have i: "indexOf cmp key ks (-1) = NOT (int p)" "NOT (int p) < 0"
    using False by (auto simp: indexOf_neg [OF assms(1)] mem_at_lower_bound [OF assms(1)] p_def Let_def)
  have ins: "ins_sorted cmp key ks = insert_at p key ks"
    using ins_sorted_absent [OF assms(1) False] by (simp add: p_def)
  show ?thesis
  proof (cases "length ks < max_node_size")
    case True
    with False i show ?thesis
      by (auto simp: ins_result_def bset.simps ins insert_at_def)
  next
    case full: False
    with assms(2) have len: "length ks = 32" by (simp add: max_node_size_def)
    have "length (take 16 ks) = 16" "length (drop 16 ks) = 16" using len by auto
    with False i full len show ?thesis
      using insert_at_take_drop [of 16 p key ks] insert_at_take_drop [of p 16 key ks]
      by (cases "p > 16") (auto simp: ins_result_def bset.simps ins insert_at_def max_node_size_def)
  qed
qed

lemma takeFromRight_spec:
  assumes "binv h a" "binv h b" "nkeys a \<noteq> []" "length (nkeys a) < max_node_size"
    and "2 \<le> length (nkeys b)" "sorted_cmp cmp (elems b)" "takeFromRight a b = (a', b')"
  shows "binv h a' \<and> binv h b' \<and> nkeys a' \<noteq> [] \<and> nkeys b' \<noteq> [] \<and> maxKey b' = maxKey b \<and>
    (\<exists>xs. elems a' = elems a @ xs \<and> elems b = xs @ elems b' \<and> (\<forall>k \<in> set xs. cmp k (nkeys b ! 0) \<le> 0))"
  using assms
proof (cases "(a, b)" rule: takeFromRight.cases)
  case (1 ks s rks rs)
  then obtain r r' rks' where "rks = r # r' # rks'"
    using assms(5) by (cases rks; cases "tl rks") auto
  with 1 assms show ?thesis by (auto simp: maxKey_def)
next
  case (2 ks cs s rks rcs rs)
  then obtain h' where h: "h = Suc h'" using assms(1) by (cases h) auto
  obtain c c' rcs' where rcs: "rcs = c # c' # rcs'"
    using assms(2,5) 2 h by (cases rcs; cases "tl rcs") auto
  have "\<forall>k \<in> set (elems c). cmp k (maxKey c) \<le> 0"
    using child_elems_le [of h' c] assms(2,6) 2 h rcs by (auto simp: sorted_rules)
  with 2 h rcs assms show ?thesis by (auto simp: maxKey_def)
next
  case "3_1"
  then show ?thesis using assms by (cases h) auto
next
  case "3_2"
  then show ?thesis using assms by (cases h) auto
qed

lemma binv_update2:
  assumes "binv (Suc h) (BNodeInternal ks cs s)" and "Suc j < length cs"
    and "binv h a" "nkeys a \<noteq> []" "binv h b" "nkeys b \<noteq> []" "maxKey b = maxKey (cs ! Suc j)"
  shows "binv (Suc h) (BNodeInternal (ks[j := maxKey a]) (cs[j := a, Suc j := b]) s)"
proof -
  have "binv (Suc h) (BNodeInternal (ks[j := maxKey a, Suc j := maxKey b]) (cs[j := a, Suc j := b]) s)"
    using assms binv_update by blast
  moreover have "ks[j := maxKey a, Suc j := maxKey b] = ks[j := maxKey a]"
    using assms(1,2,7) by (intro list_update_same_conv [THEN iffD2]) auto
  ultimately show ?thesis by simp
qed

lemma list_update_shadow: "i \<noteq> j \<Longrightarrow> xs[i := a, j := b, i := c] = xs[j := b, i := c]"
  by (metis list_update_overwrite list_update_swap)

lemma shift_spec:
  assumes inv: "binv (Suc h) (BNodeInternal ks cs s)" and sorted: "sorted_cmp cmp (elems_of cs)"
    and i: "i < length cs" and left: "\<forall>k \<in> set (elems_of (take i cs)). cmp k key < 0"
    and right: "Suc i < length cs \<Longrightarrow> \<not> cmp (ks ! i) key < 0"
    and shift: "shift_to_sibling cmp key i ks cs = (ks1, cs1)"
  shows "binv (Suc h) (BNodeInternal ks1 cs1 s)" "elems_of cs1 = elems_of cs" "length cs1 = length cs"
    "\<forall>k \<in> set (elems_of (take i cs1)). cmp k key < 0" "drop (Suc i) cs1 = drop (Suc i) cs"
proof -
  have goal: "binv (Suc h) (BNodeInternal ks1 cs1 s) \<and> elems_of cs1 = elems_of cs \<and> length cs1 = length cs \<and>
    (\<forall>k \<in> set (elems_of (take i cs1)). cmp k key < 0) \<and> drop (Suc i) cs1 = drop (Suc i) cs"
  proof (cases "ks1 = ks \<and> cs1 = cs[i := unshare (cs ! i)]")
    case True
    have "ks = ks[i := maxKey (unshare (cs ! i))]"
      using inv i by (auto simp: list_update_same_conv [THEN iffD2])
    moreover have "binv (Suc h) (BNodeInternal (ks[i := maxKey (unshare (cs ! i))]) (cs[i := unshare (cs ! i)]) s)"
      using inv i by (intro binv_update [OF inv]) auto
    ultimately have "binv (Suc h) (BNodeInternal ks1 cs1 s)" using True by metis
    with True i left show ?thesis
      by (simp add: elems_of_update elems_of_split [OF i])
  next
    case changed: False
    have max: "maxKey (cs ! i) = ks ! i" using inv i by simp
    have "\<not> (i + 1 < length cs \<and> cmp (maxKey (cs ! i)) key < 0)"
      using right max by auto
    with changed shift i obtain other' child' where
        pos: "i > 0" and full: "length (nkeys (cs ! i)) \<ge> max_node_size"
      and room: "length (nkeys (cs ! (i - 1))) < max_node_size"
      and first: "cmp (nkeys (cs ! i) ! 0) key < 0"
      and take: "takeFromRight (unshare (cs ! (i - 1))) (unshare (cs ! i)) = (other', child')"
      and ks1: "ks1 = ks[i - 1 := maxKey other']" and cs1: "cs1 = cs[i - 1 := other', i := child']"
      by (auto simp: shift_to_sibling_def Let_def list_update_shadow split: if_splits prod.splits)
    obtain j where j: "i = Suc j" using pos by (cases i) auto
    have "binv h (cs ! j)" "nkeys (cs ! j) \<noteq> []" "binv h (cs ! i)"
      using inv i j by auto
    then obtain xs where spec: "binv h other'" "binv h child'" "nkeys other' \<noteq> []" "nkeys child' \<noteq> []"
        "maxKey child' = maxKey (cs ! i)" "elems other' = elems (cs ! j) @ xs" "elems (cs ! i) = xs @ elems child'"
        "\<forall>k \<in> set xs. cmp k (nkeys (cs ! i) ! 0) \<le> 0"
      using takeFromRight_spec [OF _ _ _ _ _ _ take, of h] full room j sorted_child [OF i sorted]
      by (auto simp: max_node_size_def)
    have "binv (Suc h) (BNodeInternal ks1 cs1 s)"
      unfolding ks1 cs1 j using binv_update2 [OF inv, of j other' child'] spec i j by simp
    moreover have "elems_of cs1 = elems_of cs"
      using i j spec(6,7) by (simp add: cs1 elems_of_update2 elems_of_split2 [of j cs])
    moreover have "\<forall>k \<in> set xs. cmp k key < 0"
      using spec(8) first cmp_le_less_trans by blast
    then have "\<forall>k \<in> set (elems_of (take i cs1)). cmp k key < 0"
      using left i j spec(6) by (auto simp: cs1 take_Suc_conv_app_nth)
    ultimately show ?thesis
      using i j by (simp add: cs1)
  qed
  then show "binv (Suc h) (BNodeInternal ks1 cs1 s)" "elems_of cs1 = elems_of cs" "length cs1 = length cs"
    "\<forall>k \<in> set (elems_of (take i cs1)). cmp k key < 0" "drop (Suc i) cs1 = drop (Suc i) cs"
    by auto
qed

lemma maxKey_in: "binv h n \<Longrightarrow> nkeys n \<noteq> [] \<Longrightarrow> maxKey n \<in> set (elems n)"
  using binv_max by (metis last_in_set)

lemma elems_of_insert_at:
  "elems_of (insert_at j r cs) = elems_of (take j cs) @ elems r @ elems_of (drop j cs)"
  by (simp add: insert_at_def)

lemma binv_insert_at:
  assumes "\<forall>c \<in> set cs. binv h c \<and> nkeys c \<noteq> []" "binv h r" "nkeys r \<noteq> []" "length cs < max_node_size"
  shows "binv (Suc h) (BNodeInternal (insert_at j (maxKey r) (map maxKey cs)) (insert_at j r cs) s)"
  using assms by (auto simp: map_insert_at)

lemma place_split_spec:
  assumes inv: "binv (Suc h) (BNodeInternal ks cs s)" and i: "i < length cs"
    and r: "binv h r" "nkeys r \<noteq> []"
    and sorted: "sorted_cmp cmp (elems_of (take (Suc i) cs) @ elems r @ elems_of (drop (Suc i) cs))"
    and place: "place_split cmp i r (BNodeInternal ks cs s) = (n, out)"
  shows "binv (Suc h) n \<and> nkeys n \<noteq> [] \<and>
    (case out of
       None \<Rightarrow> elems n = elems_of (insert_at (Suc i) r cs)
     | Some q \<Rightarrow> binv (Suc h) q \<and> nkeys q \<noteq> [] \<and> elems n @ elems q = elems_of (insert_at (Suc i) r cs))"
proof (cases "length cs < max_node_size")
  case True
  with inv place have "n = BNodeInternal (insert_at (i + 1) (maxKey r) (map maxKey cs)) (insert_at (i + 1) r cs) s"
    "out = None"
    by (auto simp: place_split_def)
  with True inv r show ?thesis
    using binv_insert_at [of cs h r "i + 1" s] by (simp add: insert_at_def)
next
  case full: False
  with inv have len: "length cs = 32" and ks: "ks = map maxKey cs"
    and children: "\<forall>c \<in> set cs. binv h c \<and> nkeys c \<noteq> []"
    by (auto simp: max_node_size_def)
  let ?l = "take 16 cs" and ?r = "drop 16 cs"
  have halves: "\<forall>c \<in> set ?l. binv h c \<and> nkeys c \<noteq> []" "\<forall>c \<in> set ?r. binv h c \<and> nkeys c \<noteq> []"
    "length ?l = 16" "length ?r = 16"
    using children len by (auto dest: in_set_takeD in_set_dropD)
  have l_max: "maxKey (BNodeInternal (take 16 ks) ?l s) = maxKey (cs ! 15)"
    using len take_Suc_conv_app_nth [of 15 cs] by (simp add: ks maxKey_def take_map)
  have in15: "maxKey (cs ! 15) \<in> set (elems (cs ! 15))"
    using children len by (intro maxKey_in [of h]) auto
  have r_in: "maxKey r \<in> set (elems r)" using r by (rule maxKey_in)
  have side: "0 < cmp (maxKey r) (maxKey (cs ! 15)) \<longleftrightarrow> 15 \<le> i"
  proof (cases "15 \<le> i")
    case True
    then have "cs ! 15 \<in> set (take (Suc i) cs)"
      using len by (auto simp: in_set_conv_nth intro!: exI [of _ 15])
    then have "cmp (maxKey (cs ! 15)) (maxKey r) < 0"
      using sorted in15 r_in by (auto simp: sorted_rules)
    with True show ?thesis by (simp add: cmp_pos)
  next
    case False
    then have "cs ! 15 \<in> set (drop (Suc i) cs)"
      using len by (auto simp: in_set_conv_nth intro!: exI [of _ "15 - Suc i"])
    then have "cmp (maxKey r) (maxKey (cs ! 15)) < 0"
      using sorted in15 r_in by (auto simp: sorted_rules)
    with False show ?thesis by simp
  qed
  show ?thesis
  proof (cases "15 \<le> i")
    case True
    then have "n = BNodeInternal (map maxKey ?l) ?l s"
      "out = Some (BNodeInternal (insert_at (Suc i - 16) (maxKey r) (map maxKey ?r)) (insert_at (Suc i - 16) r ?r) False)"
      using place full side len l_max
      by (auto simp: place_split_def ks take_map drop_map Let_def)
    with True halves r show ?thesis
      using binv_insert_at [OF halves(2) r, of "Suc i - 16" False] insert_at_take_drop(1) [of 16 "Suc i" r cs]
      by (auto simp: max_node_size_def insert_at_def)
  next
    case False
    then have "n = BNodeInternal (insert_at (Suc i) (maxKey r) (map maxKey ?l)) (insert_at (Suc i) r ?l) s"
      "out = Some (BNodeInternal (map maxKey ?r) ?r False)"
      using place full side len l_max
      by (auto simp: place_split_def ks take_map drop_map Let_def)
    with False halves r show ?thesis
      using binv_insert_at [OF halves(1) r, of "Suc i" s] insert_at_take_drop(2) [of "Suc i" 16 r cs]
      by (auto simp: max_node_size_def insert_at_def)
  qed
qed

text \<open>
  Insertion: on a node of height \<open>h\<close>, \<open>bset\<close> keeps the invariant and inserts the key into the list of
  elements; a split returns the two halves.
\<close>

lemma child_index_props:
  assumes inv: "binv (Suc h) (BNodeInternal ks cs s)" and sorted: "sorted_cmp cmp (elems_of cs)"
    and ne: "cs \<noteq> []" and i: "i = child_index cmp key ks cs"
  shows "i < length cs" "\<forall>k \<in> set (elems_of (take i cs)). cmp k key < 0"
    "\<forall>k \<in> set (elems_of (drop (Suc i) cs)). 0 < cmp k key"
    "Suc i < length cs \<Longrightarrow> \<not> cmp (ks ! i) key < 0"
proof -
  have len: "length ks = length cs" using inv by simp
  have idx: "i = min (lower_bound cmp key ks) (length cs - 1)"
    using i indexOf_0 [OF sorted_keys [OF inv sorted]] by (simp add: child_index_def)
  show lt: "i < length cs" using ne by (simp add: idx min_less_iff_disj)
  show "\<forall>k \<in> set (elems_of (take i cs)). cmp k key < 0"
    by (rule children_left [OF inv sorted]) (simp add: idx)
  show "\<forall>k \<in> set (elems_of (drop (Suc i) cs)). 0 < cmp k key"
  proof (cases "Suc i < length cs")
    case True
    then have "lower_bound cmp key ks \<le> i" by (simp add: idx min_def split: if_splits)
    then show ?thesis by (rule children_right [OF inv sorted lt])
  next
    case False
    then show ?thesis by simp
  qed
  assume "Suc i < length cs"
  then have "\<not> i < lower_bound cmp key ks" by (simp add: idx min_def split: if_splits)
  then show "\<not> cmp (ks ! i) key < 0"
    using lower_bound_less [OF sorted_keys [OF inv sorted], of i key] lt len by simp
qed

lemma bset_spec:
  assumes "binv h n" "sorted_cmp cmp (elems n)" "nkeys n \<noteq> [] \<or> h = 0"
  shows "ins_result h key (elems n) sz (bset cmp key n sz)"
  using assms
proof (induction h arbitrary: n sz)
  case 0
  then show ?case
    by (cases n) (auto intro: bset_leaf)
next
  case (Suc h)
  then obtain ks cs s where n: "n = BNodeInternal ks cs s" by (cases n) auto
  note inv = Suc.prems(1) [unfolded n]
  have sorted: "sorted_cmp cmp (elems_of cs)" and ne: "cs \<noteq> []"
    using Suc.prems n by auto
  define i where "i = child_index cmp key ks cs"
  note ci = child_index_props [OF inv sorted ne i_def]
  obtain ks1 cs1 where shift: "shift_to_sibling cmp key i ks cs = (ks1, cs1)"
    by (cases "shift_to_sibling cmp key i ks cs")
  note sh = shift_spec [OF inv sorted ci(1,2,4) shift]
  have i1: "i < length cs1" using sh(3) ci(1) by simp
  have sorted1: "sorted_cmp cmp (elems_of cs1)" using sorted sh(2) by simp
  obtain c' sz' res where call: "bset cmp key (cs1 ! i) sz = (c', sz', res)"
    by (cases "bset cmp key (cs1 ! i) sz") auto
  have "ins_result h key (elems (cs1 ! i)) sz (c', sz', res)"
    using Suc.IH [of "cs1 ! i" sz] call sh(1) i1 sorted_child [OF i1 sorted1] by auto
  then have c': "binv h c'" "nkeys c' \<noteq> []"
      "sz' = (if mem_sorted cmp key (elems (cs1 ! i)) then sz else sz + 1)"
      "case res of None \<Rightarrow> elems c' = ins_sorted cmp key (elems (cs1 ! i))
        | Some r \<Rightarrow> binv h r \<and> nkeys r \<noteq> [] \<and> elems c' @ elems r = ins_sorted cmp key (elems (cs1 ! i))"
    by (auto simp: ins_result_def)
  let ?as = "elems_of (take i cs1)" and ?bs = "elems_of (drop (Suc i) cs1)"
  have as: "\<forall>k \<in> set ?as. cmp k key < 0" by (rule sh(4))
  have bs: "\<forall>k \<in> set ?bs. 0 < cmp k key" using ci(3) sh(5) by metis
  have whole: "elems n = ?as @ elems (cs1 ! i) @ ?bs"
    using sh(2) elems_of_split [OF i1] n by simp
  have mem: "mem_sorted cmp key (elems n) = mem_sorted cmp key (elems (cs1 ! i))"
    unfolding whole by (rule search_skip(2) [OF as bs])
  have ins: "ins_sorted cmp key (elems n) = ?as @ ins_sorted cmp key (elems (cs1 ! i)) @ ?bs"
    unfolding whole using as bs by (rule ins_sorted_append)
  have node: "binv (Suc h) (BNodeInternal (ks1[i := maxKey c']) (cs1[i := c']) s)"
    by (rule binv_update [OF sh(1) c'(1,2)])
  show ?case
  proof (cases res)
    case None
    then have "bset cmp key n sz = (BNodeInternal (ks1[i := maxKey c']) (cs1[i := c']) s, sz', None)"
      using n ci(1) shift call by (simp add: bset.simps i_def Let_def)
    moreover have "elems_of (cs1[i := c']) = ins_sorted cmp key (elems n)"
      using c'(4) None by (simp add: elems_of_update [OF i1] ins)
    moreover have "cs1 \<noteq> []" using i1 by auto
    ultimately show ?thesis
      using node c'(3) mem by (simp add: ins_result_def)
  next
    case (Some r)
    obtain m out where place: "place_split cmp i r (BNodeInternal (ks1[i := maxKey c']) (cs1[i := c']) s) = (m, out)"
      by (cases "place_split cmp i r (BNodeInternal (ks1[i := maxKey c']) (cs1[i := c']) s)")
    have call': "bset cmp key n sz = (m, sz', out)"
      using n ci(1) shift call Some place by (simp add: bset.simps i_def Let_def)
    have r: "binv h r" "nkeys r \<noteq> []" and cr: "elems c' @ elems r = ins_sorted cmp key (elems (cs1 ! i))"
      using c'(4) Some by auto
    have list: "elems_of (take (Suc i) (cs1[i := c'])) @ elems r @ elems_of (drop (Suc i) (cs1[i := c']))
        = ins_sorted cmp key (elems n)"
      using i1 by (simp add: take_Suc_conv_app_nth ins flip: cr)
    moreover have "sorted_cmp cmp (ins_sorted cmp key (elems n))"
      by (rule sorted_ins_sorted [OF Suc.prems(2)])
    ultimately have "sorted_cmp cmp (elems_of (take (Suc i) (cs1[i := c'])) @ elems r @ elems_of (drop (Suc i) (cs1[i := c'])))"
      by simp
    note sorted2 = this
    have e: "elems_of (insert_at (Suc i) r (cs1[i := c'])) = ins_sorted cmp key (elems n)"
      using list by (simp only: elems_of_insert_at)
    have "i < length (cs1[i := c'])" using i1 by simp
    from place_split_spec [OF node this r sorted2 place, unfolded e]
    show ?thesis
      using c'(3) mem unfolding ins_result_def call' by simp
  qed
qed

end

subsection \<open>Merging and deletion\<close>

lemma remove_update_at:
  "Suc j < length cs \<Longrightarrow> (remove_at (Suc j) cs)[j := c] = take j cs @ c # drop (Suc (Suc j)) cs"
  by (simp add: remove_at_def list_update_append upd_conv_take_nth_drop min_def)

text \<open>Merging keeps the invariant and the elements; what it merges fits into one node.\<close>

lemma merge_node_spec:
  fixes a b n :: "'k bnode"
  shows "m \<le> max_node_size \<Longrightarrow> binv h a \<Longrightarrow> binv h b \<Longrightarrow> nkeys a \<noteq> [] \<Longrightarrow> nkeys b \<noteq> [] \<Longrightarrow>
      length (nkeys a) + length (nkeys b) \<le> m \<Longrightarrow>
      binv h (mergeSibling m a b) \<and> elems (mergeSibling m a b) = elems a @ elems b \<and>
      nkeys (mergeSibling m a b) \<noteq> [] \<and> isShared (mergeSibling m a b) = isShared a"
    and "m' \<le> max_node_size \<Longrightarrow> binv h' n \<Longrightarrow> nkeys n \<noteq> [] \<Longrightarrow>
      binv h' (tryMerge m' i n) \<and> elems (tryMerge m' i n) = elems n \<and>
      nkeys (tryMerge m' i n) \<noteq> [] \<and> isShared (tryMerge m' i n) = isShared n \<and>
      length (children_of n) - 1 \<le> length (children_of (tryMerge m' i n))"
proof (induction m a b and m' i n arbitrary: h and h' rule: mergeSibling_tryMerge.induct)
  case (1 m ks s rhs)
  then show ?case by (cases rhs; cases h) auto
next
  case (2 m ks cs s rhs)
  then obtain h' where h: "h = Suc h'" by (cases h) auto
  with "2.prems" obtain rks rcs rs where rhs: "rhs = BNodeInternal rks rcs rs" by (cases rhs) auto
  define rcs' where "rcs' = (if isShared rhs \<and> \<not> s then map mark_shared (children_of rhs) else children_of rhs)"
  have rcs': "map maxKey rcs' = rks" "elems_of rcs' = elems_of rcs" "length rcs' = length rcs"
    "\<forall>c \<in> set rcs'. binv h' c \<and> nkeys c \<noteq> []"
    using "2.prems"(3) by (auto simp: rcs'_def rhs h comp_def)
  have "binv h (BNodeInternal (ks @ nkeys rhs) (cs @ rcs') s)"
    using "2.prems" rcs' by (auto simp: h rhs)
  moreover have "nkeys (BNodeInternal (ks @ nkeys rhs) (cs @ rcs') s) \<noteq> []"
    using "2.prems"(4) by simp
  moreover have "mergeSibling m (BNodeInternal ks cs s) rhs =
      tryMerge m (int (length ks) - 1) (BNodeInternal (ks @ nkeys rhs) (cs @ rcs') s)"
    by (simp add: mergeSibling.simps(2) Let_def rcs'_def)
  ultimately show ?case
    using "2.IH" [OF refl rcs'_def "2.prems"(1), of h] rcs'(2) rhs by simp
next
  case (3 m i ks s)
  then show ?case by simp
next
  case (4 m i ks cs s)
  then obtain g where h: "h' = Suc g" by (cases h') auto
  define j where "j = nat i"
  show ?case
  proof (cases "0 \<le> i \<and> j + 1 < length cs \<and> length (nkeys (cs ! j)) + length (nkeys (cs ! (j + 1))) \<le> m")
    case False
    with 4 show ?thesis by (auto simp: tryMerge.simps(2) Let_def j_def)
  next
    case True
    let ?c = "mergeSibling m (unshare (cs ! j)) (cs ! (j + 1))"
    have "cs ! j \<in> set cs" "cs ! (j + 1) \<in> set cs" using True by auto
    with "4.prems"(2) h have
      c: "binv g ?c \<and> elems ?c = elems (unshare (cs ! j)) @ elems (cs ! (j + 1)) \<and>
          nkeys ?c \<noteq> [] \<and> isShared ?c = isShared (unshare (cs ! j))"
      using True by (intro "4.IH" [OF j_def _ "4.prems"(1)]) auto
    have eq: "tryMerge m i (BNodeInternal ks cs s) =
        BNodeInternal ((remove_at (Suc j) ks)[j := maxKey ?c]) (take j cs @ ?c # drop (Suc (Suc j)) cs) s"
      using True by (simp add: tryMerge.simps(2) Let_def j_def remove_update_at)
    have keys: "(remove_at (Suc j) ks)[j := maxKey ?c] = map maxKey (take j cs @ ?c # drop (Suc (Suc j)) cs)"
      using "4.prems"(2) True by (simp add: h remove_update_at take_map drop_map)
    show ?thesis
      unfolding eq keys using "4.prems"(2) c True h elems_of_split2 [of j cs]
      by (auto dest: in_set_takeD in_set_dropD)
  qed
qed

text \<open>The first step of the scan repairs the child that was just changed, the second merges.\<close>

lemma scan_changed_child:
  assumes inv: "binv (Suc h) (BNodeInternal ks cs s)" and i: "i < length cs" and c: "binv h c"
  defines "n \<equiv> BNodeInternal (if nkeys c = [] then ks else ks[i := maxKey c]) (cs[i := c]) s"
  shows "\<exists>n1. (\<forall>is. merge_scan (i # is) n = merge_scan is n1) \<and> binv (Suc h) n1 \<and>
    elems n1 = elems_of (take i cs) @ elems c @ elems_of (drop (Suc i) cs) \<and> isShared n1 = s \<and>
    length cs - 1 \<le> length (children_of n1)"
proof (cases "nkeys c = []")
  case True
  let ?n1 = "BNodeInternal (remove_at i ks) (remove_at i cs) s"
  have "\<forall>is. merge_scan (i # is) n = merge_scan is (BNodeInternal (remove_at i ks) (remove_at i (cs[i := c])) s)"
    using True i by (simp add: n_def)
  moreover have "remove_at i (cs[i := c]) = remove_at i cs"
    using i by (simp add: remove_at_def)
  moreover have "binv (Suc h) ?n1"
    using inv i set_remove_at_subset [of i cs] by (auto simp: map_remove_at)
  moreover have "elems c = []"
    using binv_nonempty [OF c] True by simp
  ultimately show ?thesis
    using i by (intro exI [of _ ?n1]) (simp add: remove_at_def)
next
  case False
  have n: "binv (Suc h) n" "elems n = elems_of (take i cs) @ elems c @ elems_of (drop (Suc i) cs)"
    using binv_update [OF inv c False] i False by (simp_all add: n_def elems_of_update)
  show ?thesis
  proof (cases "length (nkeys c) \<le> 16")
    case True
    have "nkeys n \<noteq> []" using n(1) i inv by (auto simp: n_def)
    with False True i n show ?thesis
      using merge_node_spec(2) [of max_node_size "Suc h" n "int i"]
      by (intro exI [of _ "tryMerge max_node_size (int i) n"]) (simp add: n_def)
  next
    case large: False
    with False i n show ?thesis
      by (intro exI [of _ n]) (simp add: n_def)
  qed
qed

lemma scan_next_child:
  assumes inv: "binv (Suc h) n" and i: "i < length (children_of n)"
  shows "binv (Suc h) (merge_scan [i] n) \<and> elems (merge_scan [i] n) = elems n \<and>
    isShared (merge_scan [i] n) = isShared n"
proof -
  obtain ks cs s where n: "n = BNodeInternal ks cs s" using inv by (cases n) auto
  with inv i have "nkeys (cs ! i) \<noteq> []" "nkeys n \<noteq> []" by auto
  with inv show ?thesis
    using merge_node_spec(2) [of max_node_size "Suc h" n "int i"] by (auto simp: n Let_def)
qed

context comparator
begin

lemma del_sorted_leaf:
  assumes "sorted_cmp cmp ks" "mem_sorted cmp key ks"
  shows "del_sorted cmp key ks = remove_at (lower_bound cmp key ks) ks"
proof -
  obtain p where p: "p = lower_bound cmp key ks" "p < length ks" "cmp (ks ! p) key = 0"
    using assms by (simp add: mem_at_lower_bound)
  have ks: "ks = take p ks @ ks ! p # drop (Suc p) ks"
    by (rule id_take_nth_drop [OF p(2)])
  have sorted: "sorted_cmp cmp (take p ks @ ks ! p # drop (Suc p) ks)"
    using assms(1) ks by simp
  have "del_sorted cmp key (take p ks @ [ks ! p] @ drop (Suc p) ks) =
      take p ks @ del_sorted cmp key [ks ! p] @ drop (Suc p) ks"
    by (rule del_sorted_append) (rule sorted_cmp_unique [OF sorted p(3)])+
  then show ?thesis
    using p(3) ks by (simp add: p(1) [symmetric] del_sorted_def [of cmp key "[ks ! p]"] remove_at_def)
qed

text \<open>
  Deletion on an unshared node never throws, keeps the invariant, removes the element that
  compares equal and reports whether there was one. The node may become empty.
\<close>

lemma bdelete_spec:
  assumes "binv h n" "sorted_cmp cmp (elems n)" "\<not> isShared n"
  shows "\<exists>n' sz'. bdelete cmp key n sz = Inr (mem_sorted cmp key (elems n), n', sz') \<and> binv h n' \<and>
    elems n' = del_sorted cmp key (elems n) \<and>
    sz' = (if mem_sorted cmp key (elems n) then sz - 1 else sz)"
  using assms
proof (induction h arbitrary: n sz)
  case 0
  then obtain ks where n: "n = BNode ks False" by (cases n) auto
  have sorted: "sorted_cmp cmp ks" using 0 n by simp
  show ?case
  proof (cases "mem_sorted cmp key ks")
    case True
    then have "indexOf cmp key ks (-1) = int (lower_bound cmp key ks)"
      and "lower_bound cmp key ks < length ks"
      by (auto simp: indexOf_neg [OF sorted] mem_at_lower_bound [OF sorted])
    with True 0 n show ?thesis
      by (simp add: bdelete.simps del_sorted_leaf [OF sorted])
  next
    case False
    then have "indexOf cmp key ks (-1) < 0"
      by (auto simp: indexOf_neg [OF sorted] mem_at_lower_bound [OF sorted] Let_def not_int_def)
    with False 0 n show ?thesis
      by (simp add: bdelete.simps del_sorted_absent)
  qed
next
  case (Suc h)
  then obtain ks cs where n: "n = BNodeInternal ks cs False" by (cases n) auto
  note inv = Suc.prems(1) [unfolded n]
  have sorted: "sorted_cmp cmp (elems_of cs)" using Suc.prems(2) n by simp
  have len: "length ks = length cs" using inv by simp
  from inv sorted show ?case
  proof (cases rule: search_cases [where key = key])
    case (child i)
    obtain c' sz' where call: "bdelete cmp key (unshare (cs ! i)) sz =
        Inr (mem_sorted cmp key (elems (cs ! i)), c', sz')"
      and c': "binv h c'" "elems c' = del_sorted cmp key (elems (cs ! i))"
      and sz': "sz' = (if mem_sorted cmp key (elems (cs ! i)) then sz - 1 else sz)"
      using Suc.IH [of "unshare (cs ! i)" sz] child(5,6) by auto
    have mem: "mem_sorted cmp key (elems n) = mem_sorted cmp key (elems (cs ! i))"
      using search_skip(2) [OF child(3,4), of "elems (cs ! i)"] child(8) n by simp
    have del: "del_sorted cmp key (elems n) =
        elems_of (take i cs) @ elems c' @ elems_of (drop (Suc i) cs)"
      using del_sorted_append [where cmp = cmp, OF child(3,4)] child(8) n c'(2) by simp
    define node where "node = BNodeInternal (if nkeys c' = [] then ks else ks[i := maxKey c']) (cs[i := c']) False"
    have scan: "bdelete cmp key n sz =
        Inr (mem_sorted cmp key (elems n), merge_scan (if i > 0 then [i, i - 1] else [i]) node, sz')"
      using child(1,2) len call mem by (simp add: n bdelete.simps node_def)
    obtain n1 where n1: "\<And>is. merge_scan (i # is) node = merge_scan is n1" "binv (Suc h) n1"
        "elems n1 = del_sorted cmp key (elems n)" "length cs - 1 \<le> length (children_of n1)"
      using scan_changed_child [OF inv child(2) c'(1)] del unfolding node_def by auto
    have "binv (Suc h) (merge_scan (if i > 0 then [i, i - 1] else [i]) node) \<and>
      elems (merge_scan (if i > 0 then [i, i - 1] else [i]) node) = del_sorted cmp key (elems n)"
    proof (cases "i > 0")
      case True
      then have "i - 1 < length (children_of n1)" using n1(4) child(2) by auto
      with scan_next_child [OF n1(2) this] True n1(3) show ?thesis
        by (simp only: if_True n1(1))
    next
      case False
      with n1(2,3) show ?thesis by (simp only: if_False n1(1) merge_scan.simps(1))
    qed
    with scan sz' mem show ?thesis by simp
  next
    case beyond
    have "\<not> mem_sorted cmp key (elems n)"
      using search_none(2) [OF beyond(2)] n by simp
    moreover have "bdelete cmp key n sz = Inr (False, n, sz)"
      using beyond(1) len by (simp add: n bdelete.simps)
    ultimately show ?thesis
      using Suc.prems(1) by (simp add: del_sorted_absent)
  qed
qed

end

subsection \<open>The tree\<close>

text \<open>
  The invariant of a tree: the root satisfies the node invariant at its own depth, only a leaf root
  may be empty, the elements are strictly sorted, and \<open>size\<close> counts them.
\<close>

definition btree_elems :: "'k btree \<Rightarrow> 'k list" where
  "btree_elems t = elems (root t)"

definition btree_inv :: "'k cmp \<Rightarrow> 'k btree \<Rightarrow> bool" where
  "btree_inv cmp t \<longleftrightarrow>
     binv (bdepth (root t)) (root t) \<and> (isInternal (root t) \<longrightarrow> nkeys (root t) \<noteq> []) \<and>
     sorted_cmp cmp (btree_elems t) \<and> tsize t = length (btree_elems t)"

lemma foldr_max_const: "cs \<noteq> [] \<Longrightarrow> \<forall>c \<in> set cs. f c = d \<Longrightarrow> foldr max (map f cs) 0 = (d :: nat)"
proof (induction cs)
  case (Cons c cs)
  then show ?case by (cases cs) auto
qed simp

lemma binv_bdepth: "binv h n \<Longrightarrow> nkeys n \<noteq> [] \<or> \<not> isInternal n \<Longrightarrow> bdepth n = h"
proof (induction h n rule: binv.induct)
  case (3 h ks cs s)
  then have "foldr max (map bdepth cs) 0 = h"
    by (intro foldr_max_const) auto
  then show ?case by simp
qed auto

lemma btree_invI:
  assumes "binv h (root t)" "isInternal (root t) \<Longrightarrow> nkeys (root t) \<noteq> []"
    and "sorted_cmp cmp (elems (root t))" "tsize t = length (elems (root t))"
  shows "btree_inv cmp t"
  using assms binv_bdepth [OF assms(1)] by (auto simp: btree_inv_def btree_elems_def)

lemma btree_empty: "btree_inv cmp empty_btree" "btree_elems empty_btree = []"
  by (simp_all add: btree_inv_def empty_btree_def btree_elems_def emptyLeaf_def)

lemma isInternal_unshare [simp]: "isInternal (unshare n) = isInternal n"
  by (cases n) (auto simp: unshare_def)

lemma isInternal_mark_shared [simp]: "isInternal (mark_shared n) = isInternal n"
  by (cases n) auto

lemma collapse_root_spec:
  assumes "binv h n"
  shows "elems (collapse_root sh n) = elems n \<and> (\<exists>h'. binv h' (collapse_root sh n)) \<and>
    (isInternal (collapse_root sh n) \<longrightarrow> nkeys (collapse_root sh n) \<noteq> [])"
  using assms
proof (induction sh n arbitrary: h rule: collapse_root.induct)
  case (1 shared ks s)
  then show ?case by auto
next
  case (2 shared cs s)
  then have "cs = []" by (cases h) auto
  then show ?case by (auto simp: emptyLeaf_def intro: exI [of _ 0])
next
  case (3 shared k c cs s)
  then obtain h' where "binv h' c" "cs = []" by (cases h) auto
  with "3.IH" show ?case by auto
next
  case "4_1"
  then show ?case by (auto intro!: exI [of _ h] simp del: mark_shared.simps binv.simps)
next
  case "4_2"
  then show ?case by (cases h) auto
qed

context comparator
begin

lemma btree_get_spec:
  "btree_inv cmp t \<Longrightarrow> btree_get cmp key t = find (\<lambda>k. cmp k key = 0) (btree_elems t)"
  using bget_find by (auto simp: btree_inv_def btree_get_def btree_elems_def)

lemma btree_has_spec:
  "btree_inv cmp t \<Longrightarrow> btree_has cmp key t = mem_sorted cmp key (btree_elems t)"
  using bhas_mem by (auto simp: btree_inv_def btree_has_def btree_elems_def)

lemma btree_add_spec:
  assumes "btree_inv cmp t"
  shows "btree_inv cmp (btree_add cmp key t)"
    and "btree_elems (btree_add cmp key t) = ins_sorted cmp key (btree_elems t)"
proof -
  let ?h = "bdepth (root t)" and ?xs = "elems (root t)"
  have t: "binv ?h (root t)" "sorted_cmp cmp ?xs" "tsize t = length ?xs"
    "nkeys (root t) \<noteq> [] \<or> ?h = 0"
    using assms by (cases "root t"; auto simp: btree_inv_def btree_elems_def)+
  obtain n sz res where call: "bset cmp key (unshare (root t)) (tsize t) = (n, sz, res)"
    by (cases "bset cmp key (unshare (root t)) (tsize t)") auto
  have "ins_result ?h key ?xs (tsize t) (n, sz, res)"
    using bset_spec [of ?h "unshare (root t)" key "tsize t"] t call by simp
  then have r: "binv ?h n" "nkeys n \<noteq> []" "sz = length (ins_sorted cmp key ?xs)"
    "case res of None \<Rightarrow> elems n = ins_sorted cmp key ?xs
      | Some r \<Rightarrow> binv ?h r \<and> nkeys r \<noteq> [] \<and> elems n @ elems r = ins_sorted cmp key ?xs"
    using t(3) length_ins_sorted [OF t(2)] by (auto simp: ins_result_def)
  have sorted: "sorted_cmp cmp (ins_sorted cmp key ?xs)"
    by (rule sorted_ins_sorted [OF t(2)])
  have "btree_inv cmp (btree_add cmp key t) \<and>
    btree_elems (btree_add cmp key t) = ins_sorted cmp key (btree_elems t)"
  proof (cases res)
    case None
    with r sorted call show ?thesis
      by (auto simp: btree_add_def btree_elems_def intro!: btree_invI [of ?h])
  next
    case (Some q)
    with r(4) have q: "binv ?h q" "nkeys q \<noteq> []" "elems n @ elems q = ins_sorted cmp key ?xs"
      by auto
    have "btree_add cmp key t = \<lparr>root = mk_internal [n, q], tsize = sz\<rparr>"
      using call Some by (simp add: btree_add_def)
    moreover have "binv (Suc ?h) (mk_internal [n, q])"
      using r(1,2) q by (simp add: mk_internal_def max_node_size_def)
    moreover have "elems (mk_internal [n, q]) = ins_sorted cmp key ?xs" "nkeys (mk_internal [n, q]) \<noteq> []"
      using q(3) by (simp_all add: mk_internal_def)
    ultimately show ?thesis
      using r(3) sorted by (auto simp: btree_elems_def intro!: btree_invI [of "Suc ?h"])
  qed
  then show "btree_inv cmp (btree_add cmp key t)"
    "btree_elems (btree_add cmp key t) = ins_sorted cmp key (btree_elems t)" by auto
qed

lemma btree_delete_spec:
  assumes "btree_inv cmp t"
  obtains t' where "btree_delete cmp key t = Inr (mem_sorted cmp key (btree_elems t), t')"
    "btree_inv cmp t'" "btree_elems t' = del_sorted cmp key (btree_elems t)"
proof -
  let ?h = "bdepth (root t)" and ?xs = "elems (root t)"
  have t: "binv ?h (root t)" "sorted_cmp cmp ?xs" "tsize t = length ?xs"
    using assms by (auto simp: btree_inv_def btree_elems_def)
  obtain n sz where call: "bdelete cmp key (unshare (root t)) (tsize t) = Inr (mem_sorted cmp key ?xs, n, sz)"
    and n: "binv ?h n" "elems n = del_sorted cmp key ?xs"
    and sz: "sz = length (del_sorted cmp key ?xs)"
    using bdelete_spec [of ?h "unshare (root t)" key "tsize t"] t length_del_sorted [OF t(2)] by auto
  let ?t' = "\<lparr>root = collapse_root False n, tsize = sz\<rparr>"
  note c = collapse_root_spec [OF n(1), of False]
  obtain h' where "binv h' (collapse_root False n)" using c by blast
  then have "btree_inv cmp ?t'"
    using c n(2) sz sorted_del_sorted [OF t(2)] by (intro btree_invI [of h']) auto
  moreover have "btree_delete cmp key t = Inr (mem_sorted cmp key (btree_elems t), ?t')"
    using call by (simp add: btree_delete_def btree_elems_def)
  ultimately show thesis
    using that c n(2) by (simp add: btree_elems_def)
qed

end

end
