(* ===== verification/BTreeIter.thy ===== *)
theory BTreeIter
  imports BTreeCorrect
begin

section \<open>Bulk construction and iteration of the B+ tree set\<close>

text \<open>
  \<open>BTreeSet.fromSorted\<close>, \<open>findPath\<close>, \<open>valuesFrom\<close>, \<open>valuesFromReversed\<close> and the two iterator classes of
  \<open>btree-set.ts\<close>. An iterator keeps, per level, the list of sibling nodes and the index of the
  current one (\<open>nodeQueue\<close> and \<open>nodeIndex\<close>, lowest level first, zipped here into one list of pairs),
  the current leaf and the position in it. Calling \<open>next\<close> until it answers \<open>done\<close> yields exactly the
  part of the element list the call asked for.
\<close>

subsection \<open>Building a tree bottom-up\<close>

fun fill_leaves :: "'k list \<Rightarrow> 'k bnode list \<Rightarrow> 'k list \<Rightarrow> 'k bnode list" where
  "fill_leaves [] leaves currentKeys =
     (if length currentKeys > 0 then leaves @ [BNode currentKeys False] else leaves)"
| "fill_leaves (key # entries) leaves currentKeys =
     (let currentKeys' = currentKeys @ [key] in
      if length currentKeys' = max_node_size
      then fill_leaves entries (leaves @ [BNode currentKeys' False]) []
      else fill_leaves entries leaves currentKeys')"

fun next_level :: "'k bnode list \<Rightarrow> 'k bnode list" where
  "next_level [] = []"
| "next_level (n # ns) =
     mk_internal (take max_node_size (n # ns)) # next_level (drop (max_node_size - 1) ns)"

declare next_level.simps(2) [simp del]

lemma length_next_level: "length (next_level ns) \<le> length ns"
proof (induction ns rule: next_level.induct)
  case (2 n ns)
  then show ?case by (simp add: next_level.simps(2))
qed simp

lemma length_next_level_less:
  assumes "1 < length ns"
  shows "length (next_level ns) < length ns"
proof -
  obtain n m ms where ns: "ns = n # m # ms"
    using assms by (cases ns; cases "tl ns") auto
  have "length (next_level (drop 31 (m # ms))) \<le> length ms"
    using length_next_level [of "drop 31 (m # ms)"] by simp
  then show ?thesis by (simp add: ns next_level.simps(2) max_node_size_def)
qed

function build_levels :: "'k bnode list \<Rightarrow> 'k bnode list" where
  "build_levels currentLevel =
     (if length currentLevel > 1 then build_levels (next_level currentLevel) else currentLevel)"
  by pat_completeness auto
termination
  by (relation "measure length") (auto simp: length_next_level_less)

declare build_levels.simps [simp del]

definition fromSorted :: "'k list \<Rightarrow> 'k btree" where
  "fromSorted entries =
     (let leaves = fill_leaves entries [] [] in
      if length leaves = 0 then empty_btree
      else if length leaves = 1 then \<lparr>root = leaves ! 0, tsize = length entries\<rparr>
      else \<lparr>root = build_levels leaves ! 0, tsize = length entries\<rparr>)"

text \<open>Every level lists the same elements, and all its nodes have the same height.\<close>

definition level_ok :: "nat \<Rightarrow> 'k bnode list \<Rightarrow> bool" where
  "level_ok h ns \<longleftrightarrow> (\<forall>n \<in> set ns. binv h n \<and> nkeys n \<noteq> [])"

lemma fill_leaves_spec:
  assumes "level_ok 0 leaves" "length cur < max_node_size"
  shows "level_ok 0 (fill_leaves entries leaves cur)"
    and "elems_of (fill_leaves entries leaves cur) = elems_of leaves @ cur @ entries"
proof -
  have "level_ok 0 (fill_leaves entries leaves cur) \<and>
    elems_of (fill_leaves entries leaves cur) = elems_of leaves @ cur @ entries"
    using assms
  proof (induction entries leaves cur rule: fill_leaves.induct)
    case (2 key entries leaves cur)
    then show ?case by (auto simp: level_ok_def Let_def)
  qed (auto simp: level_ok_def)
  then show "level_ok 0 (fill_leaves entries leaves cur)"
    "elems_of (fill_leaves entries leaves cur) = elems_of leaves @ cur @ entries" by auto
qed

lemma elems_of_take_drop: "elems_of (take n cs) @ elems_of (drop n cs) = elems_of cs"
  by (metis append_take_drop_id concat_append map_append)

lemma next_level_spec:
  assumes "level_ok h ns"
  shows "level_ok (Suc h) (next_level ns) \<and> elems_of (next_level ns) = elems_of ns"
  using assms
proof (induction ns rule: next_level.induct)
  case (2 n ns)
  have "level_ok h (drop (max_node_size - 1) ns)"
    using "2.prems" by (auto simp: level_ok_def dest: in_set_dropD)
  with 2 have IH: "level_ok (Suc h) (next_level (drop (max_node_size - 1) ns))"
    "elems_of (next_level (drop (max_node_size - 1) ns)) = elems_of (drop (max_node_size - 1) ns)"
    by auto
  have "elems_of (take 32 (n # ns)) @ elems_of (drop 31 ns) = elems_of (n # ns)"
    using elems_of_take_drop [of 31 ns] by simp
  then show ?case
    using IH "2.prems"
    by (auto simp: next_level.simps(2) level_ok_def mk_internal_def max_node_size_def dest: in_set_takeD)
qed (simp add: level_ok_def)

lemma build_levels_spec:
  assumes "level_ok h ns" "ns \<noteq> []"
  shows "\<exists>h' n. build_levels ns = [n] \<and> binv h' n \<and> nkeys n \<noteq> [] \<and> elems n = elems_of ns"
  using assms
proof (induction ns arbitrary: h rule: build_levels.induct)
  case (1 ns)
  show ?case
  proof (cases "length ns > 1")
    case True
    have "next_level ns \<noteq> []" using "1.prems"(2) by (cases ns) (auto simp: next_level.simps(2))
    with "1.IH" [OF True, of "Suc h"] True next_level_spec [OF "1.prems"(1)] show ?thesis
      by (simp add: build_levels.simps [of ns])
  next
    case False
    with "1.prems"(2) obtain n where "ns = [n]" by (cases ns; cases "tl ns") auto
    with "1.prems"(1) show ?thesis
      by (auto simp: build_levels.simps [of "[n]"] level_ok_def)
  qed
qed

lemma fromSorted_spec:
  assumes "sorted_cmp cmp entries"
  shows "btree_inv cmp (fromSorted entries)" and "btree_elems (fromSorted entries) = entries"
proof -
  let ?ls = "fill_leaves entries [] []"
  have ls: "level_ok 0 ?ls" "elems_of ?ls = entries"
    using fill_leaves_spec [of "[]" "[]" entries] by (simp_all add: level_ok_def)
  have "btree_inv cmp (fromSorted entries) \<and> btree_elems (fromSorted entries) = entries"
  proof (cases "?ls = []")
    case True
    then show ?thesis using ls btree_empty by (auto simp: fromSorted_def)
  next
    case False
    obtain h n where n: "build_levels ?ls = [n]" "binv h n" "nkeys n \<noteq> []" "elems n = entries"
      using build_levels_spec [OF ls(1) False] ls(2) by auto
    have "root (fromSorted entries) = n" "tsize (fromSorted entries) = length entries"
      using False n(1) build_levels.simps [of ?ls] by (auto simp: fromSorted_def Let_def)
    with n assms show ?thesis
      by (auto simp: btree_elems_def intro!: btree_invI [of h])
  qed
  then show "btree_inv cmp (fromSorted entries)" "btree_elems (fromSorted entries) = entries" by auto
qed

subsection \<open>Finding the path to a key\<close>

record 'k biter =
  stack :: "('k bnode list \<times> nat) list"
  leaf :: "'k bnode"
  pos :: int

text \<open>
  \<open>findPath\<close>: the path is collected top-down and reversed at the end, which the accumulator does.
\<close>

function findPath ::
    "'k cmp \<Rightarrow> 'k option \<Rightarrow> ('k bnode list \<times> nat) list \<Rightarrow> 'k bnode \<Rightarrow>
     (('k bnode list \<times> nat) list \<times> 'k bnode) option" where
  "findPath cmp key acc (BNode ks s) = Some (acc, BNode ks s)"
| "findPath cmp key acc (BNodeInternal ks cs s) =
     (let ix = (case key of None \<Rightarrow> 0 | Some k \<Rightarrow> nat (indexOf cmp k ks 0)) in
      if ix \<ge> length cs then None else findPath cmp key ((cs, ix) # acc) (cs ! ix))"
  by pat_completeness auto
termination
  by (relation "measure (\<lambda>(cmp, key, acc, n). bdepth n)") (auto simp: bdepth_child simp del: bdepth.simps)

text \<open>
  The inner loop of \<open>next\<close>: go up to the first level with another sibling, step there, and fill
  the levels below with the children of the node reached.
\<close>

fun advance :: "('k bnode list \<times> nat) list \<Rightarrow> ('k bnode list \<times> nat) list option" where
  "advance [] = None"
| "advance ((q, ix) # rest) =
     (if ix + 1 < length q then Some ((q, ix + 1) # rest)
      else (case advance rest of
          Some ((q', ix') # rest') \<Rightarrow> Some ((children_of (q' ! ix'), 0) # (q', ix') # rest')
        | _ \<Rightarrow> None))"

fun retreat :: "('k bnode list \<times> nat) list \<Rightarrow> ('k bnode list \<times> nat) list option" where
  "retreat [] = None"
| "retreat ((q, ix) # rest) =
     (if ix > 0 then Some ((q, ix - 1) # rest)
      else (case retreat rest of
          Some ((q', ix') # rest') \<Rightarrow>
            (let cs = children_of (q' ! ix') in Some ((cs, length cs - 1) # (q', ix') # rest'))
        | _ \<Rightarrow> None))"

text \<open>
  \<open>next()\<close> of the two iterators: the value (\<open>None\<close> when done) and the iterator afterwards. The outer
  loop runs again when the next leaf yields nothing, so the functions are partial.
\<close>

partial_function (option) forward_next :: "'k biter \<Rightarrow> ('k option \<times> 'k biter) option" where
  "forward_next it =
     (let i = pos it + 1 in
      if i < int (length (nkeys (leaf it))) then Some (Some (nkeys (leaf it) ! nat i), it\<lparr>pos := i\<rparr>)
      else (case advance (stack it) of
          None \<Rightarrow> Some (None, it\<lparr>pos := i\<rparr>)
        | Some st \<Rightarrow> forward_next
            \<lparr>stack = st, leaf = fst (hd st) ! snd (hd st), pos = -1\<rparr>))"

partial_function (option) reverse_next :: "'k biter \<Rightarrow> ('k option \<times> 'k biter) option" where
  "reverse_next it =
     (let i = pos it - 1 in
      if i \<ge> 0 then Some (Some (nkeys (leaf it) ! nat i), it\<lparr>pos := i\<rparr>)
      else (case retreat (stack it) of
          None \<Rightarrow> Some (None, it\<lparr>pos := i\<rparr>)
        | Some st \<Rightarrow>
            (let lf = fst (hd st) ! snd (hd st)
             in reverse_next \<lparr>stack = st, leaf = lf, pos = int (length (nkeys lf))\<rparr>)))"

declare forward_next.simps [code] reverse_next.simps [code]

text \<open>A consumer that asks at most \<open>n\<close> times.\<close>

fun iter_take :: "('i \<Rightarrow> ('k option \<times> 'i) option) \<Rightarrow> nat \<Rightarrow> 'i \<Rightarrow> 'k list option" where
  "iter_take nxt 0 it = Some []"
| "iter_take nxt (Suc n) it =
     (case nxt it of
        None \<Rightarrow> None
      | Some (None, it') \<Rightarrow> Some []
      | Some (Some k, it') \<Rightarrow> map_option ((#) k) (iter_take nxt n it'))"

text \<open>
  \<open>valuesFrom\<close> and \<open>valuesFromReversed\<close> return the iterator; \<open>None\<close> is the empty iterator the code
  returns when there is nothing to iterate.
\<close>

definition valuesFrom :: "'k cmp \<Rightarrow> 'k btree \<Rightarrow> 'k option \<Rightarrow> bool \<Rightarrow> 'k biter option" where
  "valuesFrom cmp t lowestKey inclusive =
     (case findPath cmp lowestKey [] (root t) of
        None \<Rightarrow> None
      | Some (st, lf) \<Rightarrow>
          (let i = (case lowestKey of None \<Rightarrow> -1 | Some k \<Rightarrow> indexOf cmp k (nkeys lf) 0 - 1);
               i' = (case lowestKey of
                   None \<Rightarrow> i
                 | Some k \<Rightarrow>
                     if \<not> inclusive \<and> i + 1 < int (length (nkeys lf))
                        \<and> cmp (nkeys lf ! nat (i + 1)) k = 0
                     then i + 1 else i)
           in Some \<lparr>stack = st, leaf = lf, pos = i'\<rparr>))"

definition reversed_from :: "'k cmp \<Rightarrow> 'k btree \<Rightarrow> 'k \<Rightarrow> 'k option \<Rightarrow> bool \<Rightarrow> 'k biter option" where
  "reversed_from cmp t highestKey mx inclusive =
     (case (case findPath cmp (Some highestKey) [] (root t) of
              None \<Rightarrow> findPath cmp mx [] (root t) | Some p \<Rightarrow> Some p) of
        None \<Rightarrow> None
      | Some (st, lf) \<Rightarrow>
          (let i = indexOf cmp highestKey (nkeys lf) 0;
               i' = (if inclusive \<and> i < int (length (nkeys lf)) \<and> cmp (nkeys lf ! nat i) highestKey \<le> 0
                     then i + 1 else i)
           in Some \<lparr>stack = st, leaf = lf, pos = i'\<rparr>))"

definition valuesFromReversed :: "'k cmp \<Rightarrow> 'k btree \<Rightarrow> 'k option \<Rightarrow> bool \<Rightarrow> 'k biter option" where
  "valuesFromReversed cmp t highestKey inclusive =
     (case (case highestKey of None \<Rightarrow> maxKey_opt (root t) | Some k \<Rightarrow> Some k) of
        None \<Rightarrow> None
      | Some k \<Rightarrow> reversed_from cmp t k (maxKey_opt (root t)) inclusive)"

subsection \<open>What is left to iterate\<close>

fun stack_ok :: "nat \<Rightarrow> ('k bnode list \<times> nat) list \<Rightarrow> bool" where
  "stack_ok h [] = True"
| "stack_ok h ((q, ix) # rest) \<longleftrightarrow> ix < length q \<and> level_ok h q \<and> stack_ok (Suc h) rest"

fun stack_rest :: "('k bnode list \<times> nat) list \<Rightarrow> 'k list" where
  "stack_rest [] = []"
| "stack_rest ((q, ix) # rest) = elems_of (drop (Suc ix) q) @ stack_rest rest"

fun stack_before :: "('k bnode list \<times> nat) list \<Rightarrow> 'k list" where
  "stack_before [] = []"
| "stack_before ((q, ix) # rest) = stack_before rest @ elems_of (take ix q)"

lemma level_child:
  assumes "level_ok (Suc h) q" "ix < length q"
  obtains cs where "children_of (q ! ix) = cs" "level_ok h cs" "cs \<noteq> []" "elems (q ! ix) = elems_of cs"
proof -
  have "binv (Suc h) (q ! ix)" "nkeys (q ! ix) \<noteq> []"
    using assms by (auto simp: level_ok_def)
  then show thesis
    by (cases "q ! ix") (use that in \<open>auto simp: level_ok_def\<close>)
qed

lemma elems_of_hd: "cs \<noteq> [] \<Longrightarrow> elems_of cs = elems (cs ! 0) @ elems_of (drop (Suc 0) cs)"
  by (cases cs) auto

lemma elems_of_last:
  "cs \<noteq> [] \<Longrightarrow> elems_of cs = elems_of (take (length cs - 1) cs) @ elems (cs ! (length cs - 1))"
  using elems_of_split [of "length cs - 1" cs] by simp

lemma advance_spec:
  assumes "stack_ok h st"
  shows "case advance st of
      None \<Rightarrow> stack_rest st = []
    | Some st' \<Rightarrow> stack_ok h st' \<and> st' \<noteq> [] \<and>
        stack_rest st = elems (fst (hd st') ! snd (hd st')) @ stack_rest st'"
  using assms
proof (induction st arbitrary: h)
  case (Cons l rest)
  obtain q ix where l: "l = (q, ix)" by (cases l)
  show ?case
  proof (cases "ix + 1 < length q")
    case True
    with Cons.prems l show ?thesis
      by (simp add: Cons_nth_drop_Suc [symmetric, of "Suc ix" q])
  next
    case False
    note IH = Cons.IH [of "Suc h"]
    show ?thesis
    proof (cases "advance rest")
      case None
      with IH Cons.prems l False show ?thesis by simp
    next
      case (Some st')
      with IH Cons.prems l obtain q' ix' rest' where st': "st' = (q', ix') # rest'"
          "ix' < length q'" "level_ok (Suc h) q'" "stack_ok (Suc (Suc h)) rest'"
          "stack_rest rest = elems (q' ! ix') @ stack_rest st'"
        by (cases st') auto
      obtain cs where "children_of (q' ! ix') = cs" "level_ok h cs" "cs \<noteq> []" "elems (q' ! ix') = elems_of cs"
        using level_child [OF st'(3,2)] .
      with st' Some False l show ?thesis
        by (simp add: elems_of_hd)
    qed
  qed
qed simp

lemma retreat_spec:
  assumes "stack_ok h st"
  shows "case retreat st of
      None \<Rightarrow> stack_before st = []
    | Some st' \<Rightarrow> stack_ok h st' \<and> st' \<noteq> [] \<and>
        stack_before st = stack_before st' @ elems (fst (hd st') ! snd (hd st'))"
  using assms
proof (induction st arbitrary: h)
  case (Cons l rest)
  obtain q ix where l: "l = (q, ix)" by (cases l)
  show ?case
  proof (cases "ix > 0")
    case True
    then obtain j where j: "ix = Suc j" by (cases ix) auto
    with Cons.prems l have "take ix q = take j q @ [q ! j]" "j < length q"
      using take_Suc_conv_app_nth [of j q] by auto
    with j Cons.prems l show ?thesis by simp
  next
    case False
    note IH = Cons.IH [of "Suc h"]
    show ?thesis
    proof (cases "retreat rest")
      case None
      with IH Cons.prems l False show ?thesis by simp
    next
      case (Some st')
      with IH Cons.prems l obtain q' ix' rest' where st': "st' = (q', ix') # rest'"
          "ix' < length q'" "level_ok (Suc h) q'" "stack_ok (Suc (Suc h)) rest'"
          "stack_before rest = stack_before st' @ elems (q' ! ix')"
        by (cases st') auto
      obtain cs where "children_of (q' ! ix') = cs" "level_ok h cs" "cs \<noteq> []" "elems (q' ! ix') = elems_of cs"
        using level_child [OF st'(3,2)] .
      with st' Some False l show ?thesis
        by (simp add: elems_of_last Let_def)
    qed
  qed
qed simp

definition iter_ok :: "'k biter \<Rightarrow> bool" where
  "iter_ok it \<longleftrightarrow> stack_ok 0 (stack it) \<and> binv 0 (leaf it) \<and> -1 \<le> pos it \<and>
     pos it \<le> int (length (nkeys (leaf it)))"

definition iter_rest :: "'k biter \<Rightarrow> 'k list" where
  "iter_rest it = drop (nat (pos it + 1)) (nkeys (leaf it)) @ stack_rest (stack it)"

definition iter_before :: "'k biter \<Rightarrow> 'k list" where
  "iter_before it = stack_before (stack it) @ take (nat (pos it)) (nkeys (leaf it))"

lemma binv_0_elems: "binv 0 n \<Longrightarrow> elems n = nkeys n"
  by (cases n) auto

lemma forward_next_spec:
  assumes "iter_ok it"
  shows "\<exists>it'. forward_next it = Some (case iter_rest it of [] \<Rightarrow> None | x # _ \<Rightarrow> Some x, it') \<and>
    (iter_rest it \<noteq> [] \<longrightarrow> iter_ok it' \<and> iter_rest it' = tl (iter_rest it))"
proof (cases "pos it + 1 < int (length (nkeys (leaf it)))")
  case True
  define i where "i = nat (pos it + 1)"
  have i: "int i = pos it + 1" using assms by (simp add: i_def iter_ok_def)
  have "drop i (nkeys (leaf it)) = nkeys (leaf it) ! i # drop (Suc i) (nkeys (leaf it))"
    using True i by (simp add: Cons_nth_drop_Suc)
  moreover have "nat (int i + 1) = Suc i" by simp
  ultimately show ?thesis
    using True assms i
    by (simp add: forward_next.simps [of it] iter_rest_def iter_ok_def i_def [symmetric])
next
  case False
  then have rest: "iter_rest it = stack_rest (stack it)" by (simp add: iter_rest_def)
  have adv: "stack_ok 0 (stack it)" using assms by (simp add: iter_ok_def)
  show ?thesis
  proof (cases "advance (stack it)")
    case None
    with advance_spec [OF adv] False rest show ?thesis
      by (simp add: forward_next.simps [of it] Let_def)
  next
    case (Some st)
    define lf where "lf = fst (hd st) ! snd (hd st)"
    have st: "stack_ok 0 st" "st \<noteq> []" "stack_rest (stack it) = elems lf @ stack_rest st"
      using advance_spec [OF adv] Some by (auto simp: lf_def)
    then have lf: "binv 0 lf" "nkeys lf \<noteq> []"
      by (cases st; auto simp: lf_def level_ok_def)+
    let ?it = "\<lparr>stack = st, leaf = lf, pos = -1\<rparr>"
    obtain k ks where k: "nkeys lf = k # ks" using lf(2) by (cases "nkeys lf") auto
    have "forward_next it = forward_next ?it"
      using Some False by (simp add: forward_next.simps [of it] lf_def Let_def)
    also have "\<dots> = Some (Some k, ?it\<lparr>pos := 0\<rparr>)"
      using k by (simp add: forward_next.simps [of ?it])
    finally show ?thesis
      using st lf k rest by (simp add: iter_ok_def iter_rest_def binv_0_elems)
  qed
qed

lemma reverse_next_spec:
  assumes "iter_ok it" "0 \<le> pos it"
  shows "\<exists>it'. reverse_next it = Some (case rev (iter_before it) of [] \<Rightarrow> None | x # _ \<Rightarrow> Some x, it') \<and>
    (iter_before it \<noteq> [] \<longrightarrow> iter_ok it' \<and> 0 \<le> pos it' \<and> iter_before it' = butlast (iter_before it))"
proof (cases "pos it \<ge> 1")
  case True
  define i where "i = nat (pos it - 1)"
  have i: "pos it = int i + 1" using True by (simp add: i_def)
  have "i < length (nkeys (leaf it))" using assms i by (simp add: iter_ok_def)
  then have "take (nat (pos it)) (nkeys (leaf it)) = take i (nkeys (leaf it)) @ [nkeys (leaf it) ! i]"
    by (simp add: i take_Suc_conv_app_nth nat_add_distrib)
  then show ?thesis
    using True assms i
    by (simp add: reverse_next.simps [of it] iter_before_def iter_ok_def butlast_append)
next
  case False
  then have rest: "iter_before it = stack_before (stack it)" using assms by (simp add: iter_before_def)
  have adv: "stack_ok 0 (stack it)" using assms by (simp add: iter_ok_def)
  show ?thesis
  proof (cases "retreat (stack it)")
    case None
    with retreat_spec [OF adv] False rest show ?thesis
      by (simp add: reverse_next.simps [of it] Let_def)
  next
    case (Some st)
    define lf where "lf = fst (hd st) ! snd (hd st)"
    have st: "stack_ok 0 st" "st \<noteq> []" "stack_before (stack it) = stack_before st @ elems lf"
      using retreat_spec [OF adv] Some by (auto simp: lf_def)
    then have lf: "binv 0 lf" "nkeys lf \<noteq> []"
      by (cases st; auto simp: lf_def level_ok_def)+
    obtain ks k where k: "nkeys lf = ks @ [k]" using lf(2) by (cases "nkeys lf" rule: rev_cases) auto
    let ?it = "\<lparr>stack = st, leaf = lf, pos = int (length (nkeys lf))\<rparr>"
    have "reverse_next it = reverse_next ?it"
      using Some False by (simp add: reverse_next.simps [of it] lf_def Let_def)
    also have "\<dots> = Some (Some k, ?it\<lparr>pos := int (length ks)\<rparr>)"
      by (subst reverse_next.simps) (simp add: k)
    finally have "reverse_next it = Some (Some k, ?it\<lparr>pos := int (length ks)\<rparr>)" .
    moreover have "iter_before it = stack_before st @ ks @ [k]"
      using rest st(3) k lf(1) by (simp add: binv_0_elems)
    moreover have "iter_before (?it\<lparr>pos := int (length ks)\<rparr>) = stack_before st @ ks"
      using k by (simp add: iter_before_def)
    ultimately show ?thesis
      using st(1) lf(1) k by (simp add: iter_ok_def butlast_append)
  qed
qed

text \<open>Draining the iterators.\<close>

lemma forward_take:
  "iter_ok it \<Longrightarrow> iter_take forward_next n it = Some (take n (iter_rest it))"
proof (induction n arbitrary: it)
  case (Suc n)
  from forward_next_spec [OF Suc.prems] obtain it' where
      it': "forward_next it = Some (case iter_rest it of [] \<Rightarrow> None | x # _ \<Rightarrow> Some x, it')"
        "iter_rest it \<noteq> [] \<longrightarrow> iter_ok it' \<and> iter_rest it' = tl (iter_rest it)"
    by blast
  then show ?case
    using Suc.IH [of it'] by (cases "iter_rest it") auto
qed simp

lemma reverse_take:
  "iter_ok it \<Longrightarrow> 0 \<le> pos it \<Longrightarrow> iter_take reverse_next n it = Some (take n (rev (iter_before it)))"
proof (induction n arbitrary: it)
  case (Suc n)
  from reverse_next_spec [OF Suc.prems] obtain it' where
      it': "reverse_next it = Some (case rev (iter_before it) of [] \<Rightarrow> None | x # _ \<Rightarrow> Some x, it')"
        "iter_before it \<noteq> [] \<longrightarrow> iter_ok it' \<and> 0 \<le> pos it' \<and> iter_before it' = butlast (iter_before it)"
    by blast
  show ?case
  proof (cases "iter_before it" rule: rev_cases)
    case Nil
    with it' show ?thesis by simp
  next
    case (snoc xs x)
    with it' Suc.IH [of it'] show ?thesis by simp
  qed
qed simp

subsection \<open>Starting points\<close>

context comparator
begin

lemma findPath_None:
  assumes "binv h n" "sorted_cmp cmp (elems n)" "nkeys n \<noteq> [] \<or> h = 0" "findPath cmp key acc n = None"
  shows "\<exists>k. key = Some k \<and> (\<forall>x \<in> set (elems n). cmp x k < 0) \<and> cmp (maxKey n) k < 0"
  using assms
proof (induction h arbitrary: n acc)
  case 0
  then show ?case by (cases n) auto
next
  case (Suc h)
  then obtain ks cs s where n: "n = BNodeInternal ks cs s" by (cases n) auto
  note inv = Suc.prems(1) [unfolded n]
  have sorted: "sorted_cmp cmp (elems_of cs)" and ne: "cs \<noteq> []" using Suc.prems n by auto
  have no_child: False if "i < length cs" "findPath cmp key ((cs, i) # acc) (cs ! i) = None"
      "\<And>k. key = Some k \<Longrightarrow> \<not> cmp (maxKey (cs ! i)) k < 0" for i
    using Suc.IH [of "cs ! i" "(cs, i) # acc"] that inv sorted_child [OF that(1) sorted] by auto
  show ?case
  proof (cases key)
    case None
    with Suc.prems(4) ne n no_child [of 0] show ?thesis by auto
  next
    case (Some k)
    from inv sorted show ?thesis
    proof (cases rule: search_cases [where key = k])
      case (child i)
      with no_child [of i] Suc.prems(4) Some n show ?thesis by auto
    next
      case beyond
      then have "\<forall>x \<in> set (elems n). cmp x k < 0" using n by simp
      moreover have "maxKey n \<in> set (elems n)"
        using maxKey_in [OF Suc.prems(1)] Suc.prems(3) by simp
      ultimately show ?thesis using Some by blast
    qed
  qed
qed

text \<open>
  A found path splits the elements into those before the leaf, the leaf, and those after it.
\<close>

definition path_ok ::
    "'k option \<Rightarrow> ('k bnode list \<times> nat) list \<Rightarrow> 'k list \<Rightarrow> ('k bnode list \<times> nat) list \<Rightarrow> 'k bnode \<Rightarrow> bool" where
  "path_ok key acc xs st lf \<longleftrightarrow> stack_ok 0 st \<and> binv 0 lf \<and>
     (\<exists>bs as. stack_before st = stack_before acc @ bs \<and> stack_rest st = as @ stack_rest acc \<and>
        xs = bs @ nkeys lf @ as \<and>
        (case key of None \<Rightarrow> bs = []
         | Some k \<Rightarrow> (\<forall>x \<in> set bs. cmp x k < 0) \<and> (\<forall>x \<in> set as. 0 < cmp x k)))"

lemma path_ok_child:
  assumes "path_ok key ((cs, i) # acc) (elems (cs ! i)) st lf" "i < length cs"
    and "case key of None \<Rightarrow> i = 0
      | Some k \<Rightarrow> (\<forall>x \<in> set (elems_of (take i cs)). cmp x k < 0) \<and>
          (\<forall>x \<in> set (elems_of (drop (Suc i) cs)). 0 < cmp x k)"
  shows "path_ok key acc (elems_of cs) st lf"
proof -
  obtain bs as where p: "stack_ok 0 st" "binv 0 lf"
      "stack_before st = stack_before acc @ (elems_of (take i cs) @ bs)"
      "stack_rest st = (as @ elems_of (drop (Suc i) cs)) @ stack_rest acc"
      "elems (cs ! i) = bs @ nkeys lf @ as"
      "case key of None \<Rightarrow> bs = []
        | Some k \<Rightarrow> (\<forall>x \<in> set bs. cmp x k < 0) \<and> (\<forall>x \<in> set as. 0 < cmp x k)"
    using assms(1) by (auto simp: path_ok_def)
  have "elems_of cs = (elems_of (take i cs) @ bs) @ nkeys lf @ (as @ elems_of (drop (Suc i) cs))"
    using elems_of_split [OF assms(2)] p(5) by simp
  moreover have "case key of None \<Rightarrow> elems_of (take i cs) @ bs = []
      | Some k \<Rightarrow> (\<forall>x \<in> set (elems_of (take i cs) @ bs). cmp x k < 0) \<and>
          (\<forall>x \<in> set (as @ elems_of (drop (Suc i) cs)). 0 < cmp x k)"
  proof (cases key)
    case None
    with p(6) assms(3) show ?thesis by simp
  next
    case (Some k)
    show ?thesis
      using p(6) assms(3) unfolding Some option.case set_append ball_Un by blast
  qed
  ultimately show ?thesis
    unfolding path_ok_def using p(1-4) by blast
qed

lemma findPath_Some:
  assumes "binv h n" "sorted_cmp cmp (elems n)" "stack_ok h acc" "nkeys n \<noteq> [] \<or> h = 0"
    and "findPath cmp key acc n = Some (st, lf)"
  shows "path_ok key acc (elems n) st lf"
  using assms
proof (induction h arbitrary: n acc)
  case 0
  then obtain ks s where "n = BNode ks s" by (cases n) auto
  with 0 show ?case by (auto simp: path_ok_def split: option.splits)
next
  case (Suc h)
  then obtain ks cs s where n: "n = BNodeInternal ks cs s" by (cases n) auto
  note inv = Suc.prems(1) [unfolded n]
  have sorted: "sorted_cmp cmp (elems_of cs)" and ne: "cs \<noteq> []" using Suc.prems n by auto
  have step: "path_ok key ((cs, i) # acc) (elems (cs ! i)) st lf"
    if "i < length cs" "findPath cmp key ((cs, i) # acc) (cs ! i) = Some (st, lf)" for i
    using Suc.IH [of "cs ! i" "(cs, i) # acc"] that inv Suc.prems(3) sorted_child [OF that(1) sorted]
    by (simp add: level_ok_def)
  have "path_ok key acc (elems_of cs) st lf"
  proof (cases key)
    case None
    with Suc.prems(5) n ne step [of 0] show ?thesis
      by (intro path_ok_child [of key cs 0]) auto
  next
    case (Some k)
    from inv sorted show ?thesis
    proof (cases rule: search_cases [where key = k])
      case (child i)
      with Some Suc.prems(5) n step [of i] show ?thesis
        by (intro path_ok_child [of key cs i]) auto
    next
      case beyond
      with Some Suc.prems(5) n show ?thesis by simp
    qed
  qed
  with n show ?case by simp
qed

text \<open>Where a leaf scan starts: everything before the position fails the bound, everything after meets it.\<close>

lemma filter_split: "\<forall>x \<in> set as. \<not> P x \<Longrightarrow> \<forall>x \<in> set bs. P x \<Longrightarrow> filter P (as @ bs) = bs"
  by (simp add: filter_empty_conv filter_id_conv)

lemma filter_split': "\<forall>x \<in> set as. P x \<Longrightarrow> \<forall>x \<in> set bs. \<not> P x \<Longrightarrow> filter P (as @ bs) = as"
  by (simp add: filter_empty_conv filter_id_conv)

lemma drop_lower_bound_ge:
  assumes "sorted_cmp cmp ks"
  shows "\<forall>x \<in> set (drop (lower_bound cmp k ks) ks). 0 \<le> cmp x k"
proof
  fix x assume "x \<in> set (drop (lower_bound cmp k ks) ks)"
  then obtain i where "x = ks ! i" "i < length ks" "\<not> i < lower_bound cmp k ks"
    by (auto simp: in_set_conv_nth)
  with lower_bound_less [OF assms, of i k] show "0 \<le> cmp x k" by simp
qed

lemma around_equal:
  assumes "sorted_cmp cmp ks" "p < length ks" "cmp (ks ! p) k = 0"
  shows "\<forall>x \<in> set (take (Suc p) ks). cmp x k \<le> 0" "\<forall>x \<in> set (drop (Suc p) ks). 0 < cmp x k"
proof -
  have ks: "ks = take p ks @ ks ! p # drop (Suc p) ks" by (rule id_take_nth_drop [OF assms(2)])
  have "sorted_cmp cmp (take p ks @ ks ! p # drop (Suc p) ks)" using assms(1) ks by simp
  note u = sorted_cmp_unique [OF this assms(3)]
  show "\<forall>x \<in> set (drop (Suc p) ks). 0 < cmp x k" by (rule u(2))
  show "\<forall>x \<in> set (take (Suc p) ks). cmp x k \<le> 0"
    using u(1) assms(2,3) by (auto simp: take_Suc_conv_app_nth)
qed

lemma around_absent:
  assumes "sorted_cmp cmp ks" "\<not> (lower_bound cmp k ks < length ks \<and> cmp (ks ! lower_bound cmp k ks) k = 0)"
  shows "\<forall>x \<in> set (drop (lower_bound cmp k ks) ks). 0 < cmp x k"
  using drop_lower_bound [OF assms(1)] assms mem_at_lower_bound [OF assms(1)] by blast

text \<open>Both kinds of start position split a leaf at the bound.\<close>

lemma cut_low:
  assumes "sorted_cmp cmp ks"
  defines "P \<equiv> \<lambda>k inclusive x. if inclusive then 0 \<le> cmp x k else 0 < cmp x k"
    and "split_pos \<equiv> \<lambda>k inclusive m. if \<not> inclusive \<and> m < length ks \<and> cmp (ks ! m) k = 0 then Suc m else m"
  shows "\<forall>x \<in> set (take (split_pos k inclusive (lower_bound cmp k ks)) ks). \<not> P k inclusive x"
    and "\<forall>x \<in> set (drop (split_pos k inclusive (lower_bound cmp k ks)) ks). P k inclusive x"
proof -
  obtain m where m: "m = lower_bound cmp k ks" by simp
  have take: "\<forall>x \<in> set (take m ks). cmp x k < 0" unfolding m by (rule take_lower_bound)
  have drop: "\<forall>x \<in> set (drop m ks). 0 \<le> cmp x k" unfolding m by (rule drop_lower_bound_ge [OF assms(1)])
  show "\<forall>x \<in> set (take (split_pos k inclusive (lower_bound cmp k ks)) ks). \<not> P k inclusive x"
  proof (cases "\<not> inclusive \<and> m < length ks \<and> cmp (ks ! m) k = 0")
    case True
    with around_equal(1) [OF assms(1), of m k] show ?thesis
      by (auto simp: P_def split_pos_def m [symmetric] not_less)
  next
    case False
    then have "split_pos k inclusive m = m" by (simp add: split_pos_def)
    with take show ?thesis
      by (auto simp: P_def m [symmetric] not_less not_le less_imp_le)
  qed
  show "\<forall>x \<in> set (drop (split_pos k inclusive (lower_bound cmp k ks)) ks). P k inclusive x"
  proof (cases "m < length ks \<and> cmp (ks ! m) k = 0")
    case True
    with around_equal(2) [OF assms(1), of m k] drop show ?thesis
      by (auto simp: P_def split_pos_def m [symmetric])
  next
    case False
    then have "split_pos k inclusive m = m" by (auto simp: split_pos_def)
    with around_absent [OF assms(1), of k] False show ?thesis
      by (auto simp: P_def m [symmetric] less_imp_le)
  qed
qed

lemma cut_high:
  assumes "sorted_cmp cmp ks"
  defines "P \<equiv> \<lambda>k inclusive x. if inclusive then cmp x k \<le> 0 else cmp x k < 0"
    and "split_pos \<equiv> \<lambda>k inclusive m. if inclusive \<and> m < length ks \<and> cmp (ks ! m) k \<le> 0 then Suc m else m"
  shows "\<forall>x \<in> set (take (split_pos k inclusive (lower_bound cmp k ks)) ks). P k inclusive x"
    and "\<forall>x \<in> set (drop (split_pos k inclusive (lower_bound cmp k ks)) ks). \<not> P k inclusive x"
proof -
  obtain m where m: "m = lower_bound cmp k ks" by simp
  have take: "\<forall>x \<in> set (take m ks). cmp x k < 0" unfolding m by (rule take_lower_bound)
  have drop: "\<forall>x \<in> set (drop m ks). 0 \<le> cmp x k" unfolding m by (rule drop_lower_bound_ge [OF assms(1)])
  have ge: "m < length ks \<Longrightarrow> 0 \<le> cmp (ks ! m) k"
    using lower_bound_less [OF assms(1), of m k] m by simp
  show "\<forall>x \<in> set (take (split_pos k inclusive (lower_bound cmp k ks)) ks). P k inclusive x"
  proof (cases "inclusive \<and> m < length ks \<and> cmp (ks ! m) k \<le> 0")
    case True
    with around_equal(1) [OF assms(1), of m k] ge show ?thesis
      by (auto simp: P_def split_pos_def m [symmetric])
  next
    case False
    then have "split_pos k inclusive m = m" by (simp add: split_pos_def)
    with take show ?thesis
      by (auto simp: P_def m [symmetric] less_imp_le)
  qed
  show "\<forall>x \<in> set (drop (split_pos k inclusive (lower_bound cmp k ks)) ks). \<not> P k inclusive x"
  proof (cases "m < length ks \<and> cmp (ks ! m) k \<le> 0")
    case True
    with around_equal(2) [OF assms(1), of m k] drop ge show ?thesis
      by (auto simp: P_def split_pos_def m [symmetric] not_le not_less)
  next
    case False
    then have "split_pos k inclusive m = m" "\<not> (m < length ks \<and> cmp (ks ! m) k = 0)" by (auto simp: split_pos_def)
    with around_absent [OF assms(1), of k] show ?thesis
      by (auto simp: P_def m [symmetric] not_le not_less less_imp_le)
  qed
qed

text \<open>The whole iteration, from its starting point.\<close>

definition scan_from :: "'k option \<Rightarrow> bool \<Rightarrow> 'k list \<Rightarrow> 'k list" where
  "scan_from lowest inclusive xs = (case lowest of
     None \<Rightarrow> xs
   | Some k \<Rightarrow> filter (\<lambda>x. if inclusive then 0 \<le> cmp x k else 0 < cmp x k) xs)"

lemma valuesFrom_spec:
  assumes "btree_inv cmp t"
  shows "case valuesFrom cmp t lowest inclusive of
      None \<Rightarrow> scan_from lowest inclusive (btree_elems t) = []
    | Some it \<Rightarrow> iter_ok it \<and> iter_rest it = scan_from lowest inclusive (btree_elems t)"
proof -
  let ?h = "bdepth (root t)" and ?xs = "elems (root t)"
  have t: "binv ?h (root t)" "sorted_cmp cmp ?xs" "nkeys (root t) \<noteq> [] \<or> ?h = 0"
    using assms by (cases "root t"; auto simp: btree_inv_def btree_elems_def)+
  show ?thesis
  proof (cases "findPath cmp lowest [] (root t)")
    case None
    with findPath_None [OF t this] obtain k where k: "lowest = Some k" "\<forall>x \<in> set ?xs. cmp x k < 0"
      by blast
    then have "\<forall>x \<in> set ?xs. \<not> 0 \<le> cmp x k \<and> \<not> 0 < cmp x k"
      by (metis less_asym not_le)
    with None k(1) show ?thesis
      by (simp add: valuesFrom_def scan_from_def btree_elems_def)
  next
    case (Some p)
    then obtain st lf where p: "findPath cmp lowest [] (root t) = Some (st, lf)" by (cases p) auto
    have "path_ok lowest [] ?xs st lf"
      by (rule findPath_Some [OF t(1,2) _ t(3) p]) simp
    then obtain bs as where path: "stack_ok 0 st" "binv 0 lf" "stack_rest st = as" "?xs = bs @ nkeys lf @ as"
      "case lowest of None \<Rightarrow> bs = []
        | Some k \<Rightarrow> (\<forall>x \<in> set bs. cmp x k < 0) \<and> (\<forall>x \<in> set as. 0 < cmp x k)"
      by (auto simp: path_ok_def)
    have sorted: "sorted_cmp cmp (nkeys lf)" using t(2) path(4) by (simp add: sorted_rules)
    show ?thesis
    proof (cases lowest)
      case None
      with p path show ?thesis
        by (simp add: valuesFrom_def iter_ok_def iter_rest_def scan_from_def btree_elems_def)
    next
      case k: (Some k)
      define m where "m = lower_bound cmp k (nkeys lf)"
      define j where "j = (if \<not> inclusive \<and> m < length (nkeys lf) \<and> cmp (nkeys lf ! m) k = 0 then Suc m else m)"
      have m: "m \<le> length (nkeys lf)" "indexOf cmp k (nkeys lf) 0 = int m"
        using indexOf_0 [OF sorted] lower_bound_le [of k] by (simp_all add: m_def)
      then have j: "j \<le> length (nkeys lf)" by (simp add: j_def)
      have "valuesFrom cmp t lowest inclusive = Some \<lparr>stack = st, leaf = lf, pos = int j - 1\<rparr>"
        using p k m by (auto simp: valuesFrom_def j_def Let_def)
      moreover have "scan_from lowest inclusive ?xs = drop j (nkeys lf) @ as"
      proof -
        let ?P = "\<lambda>x. if inclusive then 0 \<le> cmp x k else 0 < cmp x k"
        have bounds: "\<forall>x \<in> set bs. \<not> ?P x" "\<forall>x \<in> set as. ?P x"
          using path(5) k by (auto simp: not_le not_less less_imp_le)
        have "\<forall>x \<in> set (take j (nkeys lf)). \<not> ?P x"
          using cut_low(1) [OF sorted, where k = k and inclusive = inclusive] unfolding j_def m_def .
        with bounds have before: "\<forall>x \<in> set (bs @ take j (nkeys lf)). \<not> ?P x"
          unfolding set_append by blast
        have "\<forall>x \<in> set (drop j (nkeys lf)). ?P x"
          using cut_low(2) [OF sorted, where k = k and inclusive = inclusive] unfolding j_def m_def .
        with bounds have after: "\<forall>x \<in> set (drop j (nkeys lf) @ as). ?P x"
          unfolding set_append by blast
        have "?xs = (bs @ take j (nkeys lf)) @ (drop j (nkeys lf) @ as)"
          using path(4) by simp
        then show ?thesis
          using filter_split [OF before after] by (simp only: scan_from_def k option.case)
      qed
      ultimately show ?thesis
        using path(1-3) j by (simp add: iter_ok_def iter_rest_def btree_elems_def)
    qed
  qed
qed

definition scan_reversed :: "'k option \<Rightarrow> bool \<Rightarrow> 'k list \<Rightarrow> 'k list" where
  "scan_reversed highest inclusive xs =
     (case (case highest of None \<Rightarrow> if xs = [] then None else Some (last xs) | Some k \<Rightarrow> Some k) of
        None \<Rightarrow> []
      | Some k \<Rightarrow> rev (filter (\<lambda>x. if inclusive then cmp x k \<le> 0 else cmp x k < 0) xs))"

text \<open>
  The path used by a reversed scan: to the key, or to the largest key when the key is beyond it.
\<close>

lemma reversed_path:
  assumes "binv h n" "sorted_cmp cmp (elems n)" "nkeys n \<noteq> []"
  obtains st lf bs as where
    "(case findPath cmp (Some k) [] n of None \<Rightarrow> findPath cmp (maxKey_opt n) [] n | Some p \<Rightarrow> Some p) = Some (st, lf)"
    "stack_ok 0 st" "binv 0 lf" "stack_before st = bs" "elems n = bs @ nkeys lf @ as"
    "\<forall>x \<in> set bs. cmp x k < 0" "\<forall>x \<in> set as. 0 < cmp x k"
proof (cases "findPath cmp (Some k) [] n")
  case (Some p)
  then obtain st lf where p: "findPath cmp (Some k) [] n = Some (st, lf)" by (cases p) auto
  have "path_ok (Some k) [] (elems n) st lf"
    by (rule findPath_Some [OF assms(1,2) _ _ p]) (use assms(3) in auto)
  with p that show ?thesis by (auto simp: path_ok_def)
next
  case None
  then have less: "\<forall>x \<in> set (elems n). cmp x k < 0"
    using findPath_None [OF assms(1,2) _ None] assms(3) by auto
  have mx: "maxKey_opt n = Some (maxKey n)"
    using assms(3) by (auto simp: maxKey_opt_def maxKey_def split: list.splits)
  have "findPath cmp (Some (maxKey n)) [] n \<noteq> None"
  proof
    assume "findPath cmp (Some (maxKey n)) [] n = None"
    from findPath_None [OF assms(1,2) _ this] assms(3) show False by auto
  qed
  then obtain p where "findPath cmp (Some (maxKey n)) [] n = Some p" by blast
  then obtain st lf where p: "findPath cmp (Some (maxKey n)) [] n = Some (st, lf)"
    by (cases p) simp
  have "path_ok (Some (maxKey n)) [] (elems n) st lf"
    by (rule findPath_Some [OF assms(1,2) _ _ p]) (use assms(3) in auto)
  then obtain bs as where path: "stack_ok 0 st" "binv 0 lf" "stack_before st = bs"
      "elems n = bs @ nkeys lf @ as" "\<forall>x \<in> set as. 0 < cmp x (maxKey n)"
    by (auto simp: path_ok_def)
  have "\<forall>x \<in> set (elems n). cmp x (maxKey n) \<le> 0"
    using child_elems_le [OF assms(1,3,2)] by blast
  with path(4,5) have "as = []" by (cases as) auto
  with that [of st lf bs as] p path less mx None show ?thesis by auto
qed

lemma reversed_from_spec:
  assumes "btree_inv cmp t" "nkeys (root t) \<noteq> []"
  shows "\<exists>it. reversed_from cmp t k (maxKey_opt (root t)) inclusive = Some it \<and> iter_ok it \<and> 0 \<le> pos it \<and>
    iter_before it = filter (\<lambda>x. if inclusive then cmp x k \<le> 0 else cmp x k < 0) (btree_elems t)"
proof -
  let ?xs = "elems (root t)"
  have t: "binv (bdepth (root t)) (root t)" "sorted_cmp cmp ?xs"
    using assms(1) by (auto simp: btree_inv_def btree_elems_def)
  obtain st lf bs as where
    p: "(case findPath cmp (Some k) [] (root t) of
          None \<Rightarrow> findPath cmp (maxKey_opt (root t)) [] (root t) | Some p \<Rightarrow> Some p) = Some (st, lf)"
    and path: "stack_ok 0 st" "binv 0 lf" "stack_before st = bs" "?xs = bs @ nkeys lf @ as"
    "\<forall>x \<in> set bs. cmp x k < 0" "\<forall>x \<in> set as. 0 < cmp x k"
    using reversed_path [OF t assms(2), of k] by blast
  have sorted: "sorted_cmp cmp (nkeys lf)" using t(2) path(4) by (simp add: sorted_rules)
  define m where "m = lower_bound cmp k (nkeys lf)"
  define j where "j = (if inclusive \<and> m < length (nkeys lf) \<and> cmp (nkeys lf ! m) k \<le> 0 then Suc m else m)"
  have m: "m \<le> length (nkeys lf)" "indexOf cmp k (nkeys lf) 0 = int m"
    using indexOf_0 [OF sorted] lower_bound_le [of k] by (simp_all add: m_def)
  then have j: "j \<le> length (nkeys lf)" by (simp add: j_def)
  let ?P = "\<lambda>x. if inclusive then cmp x k \<le> 0 else cmp x k < 0"
  have "reversed_from cmp t k (maxKey_opt (root t)) inclusive = Some \<lparr>stack = st, leaf = lf, pos = int j\<rparr>"
    unfolding reversed_from_def p option.case prod.case using m by (auto simp: j_def Let_def)
  moreover have "filter ?P ?xs = bs @ take j (nkeys lf)"
  proof -
    have bounds: "\<forall>x \<in> set bs. ?P x" "\<forall>x \<in> set as. \<not> ?P x"
      using path(5,6) by (auto simp: not_le not_less less_imp_le)
    have "\<forall>x \<in> set (take j (nkeys lf)). ?P x"
      using cut_high(1) [OF sorted, where k = k and inclusive = inclusive] unfolding j_def m_def .
    with bounds have before: "\<forall>x \<in> set (bs @ take j (nkeys lf)). ?P x"
      unfolding set_append by blast
    have "\<forall>x \<in> set (drop j (nkeys lf)). \<not> ?P x"
      using cut_high(2) [OF sorted, where k = k and inclusive = inclusive] unfolding j_def m_def .
    with bounds have after: "\<forall>x \<in> set (drop j (nkeys lf) @ as). \<not> ?P x"
      unfolding set_append by blast
    have "?xs = (bs @ take j (nkeys lf)) @ (drop j (nkeys lf) @ as)"
      using path(4) by simp
    then show ?thesis using filter_split' [OF before after] by (simp only:)
  qed
  ultimately show ?thesis
    using path(1-3) j by (simp add: iter_ok_def iter_before_def btree_elems_def)
qed

lemma maxKey_opt_elems: "binv h n \<Longrightarrow> maxKey_opt n = (if elems n = [] then None else Some (last (elems n)))"
  using binv_max [of h n] binv_nonempty [of h n]
  by (auto simp: maxKey_opt_def maxKey_def split: list.splits)

lemma valuesFromReversed_spec:
  assumes "btree_inv cmp t" "btree_elems t \<noteq> []"
  shows "\<exists>it. valuesFromReversed cmp t highest inclusive = Some it \<and> iter_ok it \<and> 0 \<le> pos it \<and>
    rev (iter_before it) = scan_reversed highest inclusive (btree_elems t)"
proof -
  have inv: "binv (bdepth (root t)) (root t)" using assms(1) by (simp add: btree_inv_def)
  have ne: "nkeys (root t) \<noteq> []"
    using binv_nonempty [OF inv] assms(2) by (simp add: btree_elems_def)
  have mx: "maxKey_opt (root t) = Some (last (btree_elems t))"
    using maxKey_opt_elems [OF inv] assms(2) by (simp add: btree_elems_def)
  define k where "k = (case highest of None \<Rightarrow> last (btree_elems t) | Some k \<Rightarrow> k)"
  have "valuesFromReversed cmp t highest inclusive = reversed_from cmp t k (maxKey_opt (root t)) inclusive"
    using mx by (auto simp: valuesFromReversed_def k_def split: option.splits)
  moreover have "scan_reversed highest inclusive (btree_elems t) =
      rev (filter (\<lambda>x. if inclusive then cmp x k \<le> 0 else cmp x k < 0) (btree_elems t))"
    using assms(2) by (auto simp: scan_reversed_def k_def split: option.splits)
  ultimately show ?thesis
    using reversed_from_spec [OF assms(1) ne, of k inclusive] by auto
qed

end

end
