(* ===== verification/BTreeIndex.thy ===== *)
theory BTreeIndex
  imports BTreeCorrect BTreeIter
begin

section \<open>The ordered-set interface of the B+ tree\<close>

text \<open>
  The contract that the callers of \<open>BTreeSet\<close> rely on, as the locale \<open>ordered_set\<close>: an invariant, the
  list of elements in order, and what each operation does to that list. The lemmas that only need
  the contract are proved inside the locale; the interpretation \<open>bt\<close> shows that the model of
  \<open>btree-set.ts\<close> satisfies it for every comparator. The properties of the tree follow.
\<close>

text \<open>
  What a consumer gets that asks a scan of the tree for at most \<open>n\<close> elements, as a \<open>for\<close> loop with a
  \<open>break\<close> does.
\<close>

definition scan_values :: "'k cmp \<Rightarrow> 'k btree \<Rightarrow> 'k option \<Rightarrow> bool \<Rightarrow> nat \<Rightarrow> 'k list option" where
  "scan_values cmp t lowest inclusive n =
     (case valuesFrom cmp t lowest inclusive of
        None \<Rightarrow> Some [] | Some it \<Rightarrow> iter_take forward_next n it)"

definition scan_values_reversed ::
    "'k cmp \<Rightarrow> 'k btree \<Rightarrow> 'k option \<Rightarrow> bool \<Rightarrow> nat \<Rightarrow> 'k list option" where
  "scan_values_reversed cmp t highest inclusive n =
     (case valuesFromReversed cmp t highest inclusive of
        None \<Rightarrow> Some [] | Some it \<Rightarrow> iter_take reverse_next n it)"

text \<open>A comparator on integers, for evaluating the tree on concrete input.\<close>

definition int_cmp :: "int cmp" where
  "int_cmp a b = of_int (a - b)"

interpretation ints: comparator int_cmp
  by unfold_locales (auto simp: int_cmp_def)

subsection \<open>The contract\<close>

locale ordered_set =
  fixes inv :: "'k cmp \<Rightarrow> 's \<Rightarrow> bool" and elements :: "'s \<Rightarrow> 'k list" and empty :: 's
    and add :: "'k cmp \<Rightarrow> 'k \<Rightarrow> 's \<Rightarrow> 's"
    and remove :: "'k cmp \<Rightarrow> 'k \<Rightarrow> 's \<Rightarrow> (bool \<times> 's) result"
    and has :: "'k cmp \<Rightarrow> 'k \<Rightarrow> 's \<Rightarrow> bool"
  assumes inv_empty: "comparator cmp \<Longrightarrow> inv cmp empty"
    and elements_empty: "elements empty = []"
    and inv_sorted: "inv cmp s \<Longrightarrow> sorted_cmp cmp (elements s)"
    and add_inv: "comparator cmp \<Longrightarrow> inv cmp s \<Longrightarrow> inv cmp (add cmp x s)"
    and add_elements:
      "comparator cmp \<Longrightarrow> inv cmp s \<Longrightarrow> elements (add cmp x s) = ins_sorted cmp x (elements s)"
    and remove_law: "comparator cmp \<Longrightarrow> inv cmp s \<Longrightarrow>
      \<exists>s'. remove cmp x s = Inr (mem_sorted cmp x (elements s), s') \<and> inv cmp s' \<and>
        elements s' = del_sorted cmp x (elements s)"
    and has_law: "comparator cmp \<Longrightarrow> inv cmp s \<Longrightarrow> has cmp x s = mem_sorted cmp x (elements s)"
begin

lemma has_add:
  "comparator cmp \<Longrightarrow> inv cmp s \<Longrightarrow> has cmp y (add cmp x s) \<longleftrightarrow> cmp x y = 0 \<or> has cmp y s"
  by (simp add: has_law add_inv add_elements comparator.mem_ins_sorted)

lemma has_remove:
  assumes "comparator cmp" "inv cmp s" "remove cmp x s = Inr (b, s')"
  shows "has cmp y s' \<longleftrightarrow> cmp x y \<noteq> 0 \<and> has cmp y s"
  using remove_law [OF assms(1,2), of x] assms
  by (auto simp: has_law comparator.mem_del_sorted)

lemma remove_inv:
  assumes "comparator cmp" "inv cmp s" "remove cmp x s = Inr (b, s')"
  shows "inv cmp s'"
  using remove_law [OF assms(1,2), of x] assms(3) by auto

lemma remove_never_throws:
  assumes "comparator cmp" "inv cmp s"
  shows "remove cmp x s \<noteq> Inl e"
  using remove_law [OF assms, of x] by auto

text \<open>Adding a new element and removing it again gives the elements back.\<close>

lemma remove_add:
  assumes "comparator cmp" "inv cmp s" "\<not> has cmp x s"
  shows "\<exists>s'. remove cmp x (add cmp x s) = Inr (True, s') \<and> inv cmp s' \<and> elements s' = elements s"
proof -
  have "del_sorted cmp x (ins_sorted cmp x (elements s)) = elements s"
    using assms by (intro comparator.del_ins_sorted inv_sorted) (simp_all add: has_law)
  moreover have "mem_sorted cmp x (elements (add cmp x s))"
    using assms by (simp add: add_elements comparator.mem_ins_sorted comparator.cmp_refl)
  ultimately show ?thesis
    using remove_law [OF assms(1) add_inv [OF assms(1,2)], of x x] by (auto simp: add_elements assms)
qed

text \<open>A whole batch of additions: the elements depend only on the final set.\<close>

lemma add_all:
  assumes "comparator cmp" "inv cmp s"
  shows "inv cmp (fold (add cmp) xs s)"
    and "elements (fold (add cmp) xs s) = fold (ins_sorted cmp) xs (elements s)"
  using assms(2) by (induction xs arbitrary: s) (simp_all add: assms(1) add_inv add_elements)

lemma has_add_all:
  assumes "comparator cmp" "inv cmp s"
  shows "has cmp y (fold (add cmp) xs s) \<longleftrightarrow> (\<exists>x \<in> set xs. cmp x y = 0) \<or> has cmp y s"
  using assms(2) by (induction xs arbitrary: s) (auto simp: assms(1) has_add add_inv)

end

text \<open>The model of \<open>btree-set.ts\<close> satisfies the contract.\<close>

interpretation bt: ordered_set btree_inv btree_elems empty_btree btree_add btree_delete btree_has
proof
  fix cmp :: "'k cmp" and s :: "'k btree" and x :: 'k
  show "btree_inv cmp empty_btree" "btree_elems (empty_btree :: 'k btree) = []"
    by (rule btree_empty)+
  show "btree_inv cmp s \<Longrightarrow> sorted_cmp cmp (btree_elems s)"
    by (simp add: btree_inv_def)
  assume "comparator cmp" "btree_inv cmp s"
  then show "btree_inv cmp (btree_add cmp x s)"
    "btree_elems (btree_add cmp x s) = ins_sorted cmp x (btree_elems s)"
    "btree_has cmp x s = mem_sorted cmp x (btree_elems s)"
    "\<exists>s'. btree_delete cmp x s = Inr (mem_sorted cmp x (btree_elems s), s') \<and> btree_inv cmp s' \<and>
      btree_elems s' = del_sorted cmp x (btree_elems s)"
    by (simp_all add: comparator.btree_add_spec comparator.btree_has_spec)
      (rule comparator.btree_delete_spec, assumption+, blast)
qed

subsection \<open>A sample tree\<close>

definition sample_tree :: "int btree" where
  "sample_tree = fold (btree_add int_cmp) (map (\<lambda>i. (i * 17) mod 67) [0..66]) empty_btree"

lemma sample_tree_inv: "btree_inv int_cmp sample_tree"
  unfolding sample_tree_def by (intro bt.add_all(1) bt.inv_empty ints.comparator_axioms)

lemma sample_tree_elems: "btree_elems sample_tree = [0..66]" "isInternal (root sample_tree)"
  by code_simp+

subsection \<open>Scans\<close>

lemma scan_values_spec:
  assumes "comparator cmp" and "btree_inv cmp t"
  shows "scan_values cmp t lowest inclusive n =
    Some (take n (case lowest of None \<Rightarrow> btree_elems t
      | Some k \<Rightarrow> filter (\<lambda>x. if inclusive then 0 \<le> cmp x k else 0 < cmp x k) (btree_elems t)))"
proof -
  note spec = comparator.valuesFrom_spec [OF assms, of lowest inclusive]
  note from_def = comparator.scan_from_def [OF assms(1)]
  show ?thesis
    using spec unfolding scan_values_def from_def
    by (cases "valuesFrom cmp t lowest inclusive"; cases lowest)
      (simp_all add: forward_take split del: if_split)
qed

lemma scan_values_reversed_spec:
  assumes "comparator cmp" and "btree_inv cmp t" and "btree_elems t \<noteq> []"
    and k: "k = (case highest of None \<Rightarrow> last (btree_elems t) | Some h \<Rightarrow> h)"
  shows "scan_values_reversed cmp t highest inclusive n =
    Some (take n (rev (filter (\<lambda>x. if inclusive then cmp x k \<le> 0 else cmp x k < 0) (btree_elems t))))"
proof -
  note spec = comparator.valuesFromReversed_spec [OF assms(1-3), of highest inclusive]
  note rev_def = comparator.scan_reversed_def [OF assms(1)]
  show ?thesis
    using spec assms(3) k
    by (auto simp: scan_values_reversed_def rev_def reverse_take split: option.splits)
qed

subsection \<open>Properties\<close>

text \<open>C27: \<open>add\<close> on a valid tree gives a valid tree (uniform depth, routing keys equal to the
  subtrees' largest keys, at most 32 keys per node, no empty child, elements strictly sorted, \<open>size\<close>
  their number) whose elements are those before with the key at its place, replacing an element that
  compares equal. Splits, shifts to a sibling and root growth are all covered.\<close>

theorem btree_add_correct:
  assumes "comparator cmp" and "btree_inv cmp t"
  shows "btree_inv cmp (btree_add cmp key t) \<and>
    btree_elems (btree_add cmp key t) = ins_sorted cmp key (btree_elems t) \<and>
    tsize (btree_add cmp key t) = (if btree_has cmp key t then tsize t else tsize t + 1)"
proof -
  note inv = bt.add_inv [OF assms, of key]
  then show ?thesis
    using assms bt.add_elements [OF assms, of key] comparator.length_ins_sorted [OF assms(1)]
    by (auto simp: btree_inv_def bt.has_law)
qed

theorem btree_add_correct_witness:
  "btree_inv int_cmp (btree_add int_cmp 70 sample_tree) \<and>
   btree_elems (btree_add int_cmp 70 sample_tree) = [0..66] @ [70]"
proof -
  have "ins_sorted int_cmp 70 [0..66] = [0..66] @ [70]" by code_simp
  then show ?thesis
    using btree_add_correct [OF ints.comparator_axioms sample_tree_inv, of 70]
    by (simp only: sample_tree_elems)
qed

text \<open>C28: \<open>delete\<close> on a valid tree never throws (its three assertions on the children's class and the
  rebalancing never fail); it returns whether the key was there and leaves a valid tree without it,
  the root collapsed when one child is left.\<close>

theorem btree_delete_correct:
  assumes "comparator cmp" and "btree_inv cmp t"
  shows "\<exists>t'. btree_delete cmp key t = Inr (btree_has cmp key t, t') \<and> btree_inv cmp t' \<and>
    btree_elems t' = del_sorted cmp key (btree_elems t) \<and>
    tsize t' = (if btree_has cmp key t then tsize t - 1 else tsize t)"
proof -
  obtain t' where t': "btree_delete cmp key t = Inr (mem_sorted cmp key (btree_elems t), t')"
    "btree_inv cmp t'" "btree_elems t' = del_sorted cmp key (btree_elems t)"
    using bt.remove_law [OF assms, of key] by blast
  moreover have "tsize t' = length (btree_elems t')" "tsize t = length (btree_elems t)"
    "sorted_cmp cmp (btree_elems t)"
    using t'(2) assms(2) by (simp_all add: btree_inv_def)
  ultimately show ?thesis
    using assms comparator.length_del_sorted [OF assms(1)] by (auto simp: bt.has_law)
qed

theorem btree_delete_correct_witness:
  "\<exists>t'. btree_delete int_cmp 33 sample_tree = Inr (btree_has int_cmp 33 sample_tree, t') \<and>
    btree_inv int_cmp t' \<and> 33 \<notin> set (btree_elems t')"
  using btree_delete_correct [OF ints.comparator_axioms sample_tree_inv, of 33]
  by (auto simp: set_del_sorted)

text \<open>\<open>get\<close> and \<open>has\<close> descend by binary search to the one element of the whole tree that compares
  equal to the key.\<close>

theorem btree_lookup_correct:
  assumes "comparator cmp" and "btree_inv cmp t"
  shows "btree_get cmp key t = find (\<lambda>k. cmp k key = 0) (btree_elems t) \<and>
    (btree_has cmp key t \<longleftrightarrow> (\<exists>k \<in> set (btree_elems t). cmp k key = 0))"
  using comparator.btree_get_spec [OF assms] comparator.btree_has_spec [OF assms]
  by (simp add: mem_sorted_iff)

theorem btree_lookup_correct_witness:
  "btree_get int_cmp 40 sample_tree = Some 40 \<and> \<not> btree_has int_cmp 67 sample_tree"
proof -
  have "find (\<lambda>k. int_cmp k 40 = 0) [0..66] = Some 40" by code_simp
  moreover have "\<not> (\<exists>k \<in> set [0..66]. int_cmp k 67 = 0)" by (simp add: int_cmp_def)
  ultimately show ?thesis
    using btree_lookup_correct [OF ints.comparator_axioms sample_tree_inv, of 40]
      btree_lookup_correct [OF ints.comparator_axioms sample_tree_inv, of 67]
    by (simp only: sample_tree_elems) simp
qed

text \<open>C29: A forward scan from a lower bound, read for at most \<open>n\<close> steps, yields the first \<open>n\<close> elements at
  or after (after, when exclusive) the bound, in order; each \<open>next\<close> terminates, whatever leaves it has to
  walk over.\<close>

theorem scan_values_correct:
  assumes "comparator cmp" and "btree_inv cmp t"
  shows "scan_values cmp t lowest inclusive n =
    Some (take n (case lowest of None \<Rightarrow> btree_elems t
      | Some k \<Rightarrow> filter (\<lambda>x. if inclusive then 0 \<le> cmp x k else 0 < cmp x k) (btree_elems t)))"
  by (rule scan_values_spec [OF assms])

theorem scan_values_correct_witness:
  "scan_values int_cmp sample_tree (Some 30) False 4 = Some [31, 32, 33, 34]"
proof -
  have "take 4 (filter (\<lambda>x. if False then 0 \<le> int_cmp x 30 else 0 < int_cmp x 30) [0..66]) = [31, 32, 33, 34]"
    by code_simp
  then show ?thesis
    using scan_values_correct [OF ints.comparator_axioms sample_tree_inv, of "Some 30" False 4]
    by (simp only: sample_tree_elems option.case)
qed

text \<open>A reverse scan of a non-empty tree, read for at most \<open>n\<close> steps, yields the last \<open>n\<close> elements at or
  before (before, when exclusive) the upper bound, in descending order. Without a bound the largest
  key is the bound, so an exclusive unbounded scan leaves that key out.\<close>

theorem scan_values_reversed_correct:
  assumes "comparator cmp" and "btree_inv cmp t" and "btree_elems t \<noteq> []"
    and k: "k = (case highest of None \<Rightarrow> last (btree_elems t) | Some h \<Rightarrow> h)"
  shows "scan_values_reversed cmp t highest inclusive n =
    Some (take n (rev (filter (\<lambda>x. if inclusive then cmp x k \<le> 0 else cmp x k < 0) (btree_elems t))))"
  by (rule scan_values_reversed_spec [OF assms])

theorem scan_values_reversed_correct_witness:
  "scan_values_reversed int_cmp sample_tree (Some 40) True 3 = Some [40, 39, 38]"
proof -
  have "take 3 (rev (filter (\<lambda>x. if True then int_cmp x 40 \<le> 0 else int_cmp x 40 < 0) [0..66])) = [40, 39, 38]"
    by code_simp
  moreover have "[0..66] \<noteq> ([] :: int list)" by code_simp
  ultimately show ?thesis
    using scan_values_reversed_correct [OF ints.comparator_axioms sample_tree_inv, of 40 "Some 40" True 3]
    by (simp only: sample_tree_elems option.case) blast
qed

text \<open>The bulk loader turns any strictly sorted array into a valid tree with exactly those elements,
  so every operation and scan can continue from it.\<close>

theorem fromSorted_correct:
  assumes "sorted_cmp cmp entries"
  shows "btree_inv cmp (fromSorted entries) \<and> btree_elems (fromSorted entries) = entries \<and>
    tsize (fromSorted entries) = length entries"
  using fromSorted_spec [OF assms] by (simp add: btree_inv_def)

theorem fromSorted_correct_witness:
  "btree_inv int_cmp (fromSorted [1..100]) \<and> btree_elems (fromSorted [1..100]) = ([1..100] :: int list)"
proof -
  have "sorted_cmp int_cmp [1..100]" by code_simp
  then show ?thesis using fromSorted_correct by blast
qed

end
