(* ===== verification/Ast.thy ===== *)
theory Ast
  imports JsValue "HOL-Library.AList"
begin

section \<open>The query AST and its transformations (zero-protocol/src/ast.ts, zql/src/query/expression.ts)\<close>

text \<open>
  The wire format of a query, the expression helpers that build its conditions, and the two
  transformations of \<open>ast.ts\<close>: normalisation (flatten and sort, used to hash and to compare
  queries) and name mapping. JavaScript's \<open>String(v)\<close> on a literal is the parameter \<open>str\<close> and
  \<open>compareUTF8\<close> the parameter \<open>u8\<close>. An absent property is \<open>None\<close>. The normalisation cache is a
  memo table of a pure function and is not modelled.
\<close>

subsection \<open>Data\<close>

datatype simple_op =
    OpEq | OpNe | OpIs | OpIsNot | OpLt | OpGt | OpLe | OpGe
  | OpLike | OpNotLike | OpILike | OpNotILike | OpIn | OpNotIn

datatype exists_op = EXISTS | NOT_EXISTS

datatype query_system = Permissions | Client | Test

text \<open>A literal is a scalar or, for \<open>IN\<close>, an array of scalars.\<close>

datatype literal_value = LScalar js_value | LArray "js_value list"

datatype value_position =
    PLiteral literal_value
  | PColumn string
  | PStatic (anchor: string) (static_field: "string list")

datatype condition =
    Simple simple_op value_position value_position
  | And "condition list"
  | Or "condition list"
  | Correlated correlated_subquery exists_op (flip: "bool option") (scalar: "bool option")
and correlated_subquery =
    Subquery (parentField: "string list") (childField: "string list") (subquery: ast)
      (query_system: "query_system option") (is_hidden: "bool option")
and ast =
    AST (ast_schema: "string option") (ast_table: string) (ast_alias: "string option")
      (ast_where: "condition option") (ast_related: "correlated_subquery list option")
      (ast_start: "(row \<times> bool) option") (ast_limit: "number option") (ast_orderBy: "ordering option")

fun op_name :: "simple_op \<Rightarrow> string" where
  "op_name OpEq = ''=''" | "op_name OpNe = ''!=''" | "op_name OpIs = ''IS''"
| "op_name OpIsNot = ''IS NOT''" | "op_name OpLt = ''<''" | "op_name OpGt = ''>''"
| "op_name OpLe = ''<=''" | "op_name OpGe = ''>=''" | "op_name OpLike = ''LIKE''"
| "op_name OpNotLike = ''NOT LIKE''" | "op_name OpILike = ''ILIKE''"
| "op_name OpNotILike = ''NOT ILIKE''" | "op_name OpIn = ''IN''" | "op_name OpNotIn = ''NOT IN''"

fun exists_name :: "exists_op \<Rightarrow> string" where
  "exists_name EXISTS = ''EXISTS''" | "exists_name NOT_EXISTS = ''NOT EXISTS''"

subsection \<open>Building conditions: expression.ts\<close>

definition cond_TRUE :: condition where "cond_TRUE = And []"

definition cond_FALSE :: condition where "cond_FALSE = Or []"

definition isAlwaysTrue :: "condition \<Rightarrow> bool" where
  "isAlwaysTrue c \<longleftrightarrow> (case c of And cs \<Rightarrow> cs = [] | _ \<Rightarrow> False)"

definition isAlwaysFalse :: "condition \<Rightarrow> bool" where
  "isAlwaysFalse c \<longleftrightarrow> (case c of Or cs \<Rightarrow> cs = [] | _ \<Rightarrow> False)"

definition filterUndefined :: "'a option list \<Rightarrow> 'a list" where
  "filterUndefined xs = List.map_filter id xs"

definition and_expr :: "condition option list \<Rightarrow> condition" where
  "and_expr conditions =
     (let expressions = filter (\<lambda>c. \<not> isAlwaysTrue c) (filterUndefined conditions) in
      if length expressions = 1 then hd expressions
      else if list_ex isAlwaysFalse expressions then cond_FALSE
      else And expressions)"

definition or_expr :: "condition option list \<Rightarrow> condition" where
  "or_expr conditions =
     (let expressions = filter (\<lambda>c. \<not> isAlwaysFalse c) (filterUndefined conditions) in
      if length expressions = 1 then hd expressions
      else if list_ex isAlwaysTrue expressions then cond_TRUE
      else Or expressions)"

fun negateOperator :: "simple_op \<Rightarrow> simple_op" where
  "negateOperator OpEq = OpNe" | "negateOperator OpNe = OpEq"
| "negateOperator OpLt = OpGe" | "negateOperator OpGt = OpLe"
| "negateOperator OpGe = OpLt" | "negateOperator OpLe = OpGt"
| "negateOperator OpIn = OpNotIn" | "negateOperator OpNotIn = OpIn"
| "negateOperator OpLike = OpNotLike" | "negateOperator OpNotLike = OpLike"
| "negateOperator OpILike = OpNotILike" | "negateOperator OpNotILike = OpILike"
| "negateOperator OpIs = OpIsNot" | "negateOperator OpIsNot = OpIs"

fun negateExists :: "exists_op \<Rightarrow> exists_op" where
  "negateExists EXISTS = NOT_EXISTS" | "negateExists NOT_EXISTS = EXISTS"

fun not_expr :: "condition \<Rightarrow> condition" where
  "not_expr (And cs) = Or (map not_expr cs)"
| "not_expr (Or cs) = And (map not_expr cs)"
| "not_expr (Correlated related op flp sc) = Correlated related (negateExists op) flp sc"
| "not_expr (Simple op left right) = Simple (negateOperator op) left right"

text \<open>\<open>cmp(field, value)\<close> and \<open>cmp(field, op, value)\<close>; \<open>undefined\<close> becomes \<open>null\<close>.\<close>

definition cmp_expr :: "string \<Rightarrow> simple_op option \<Rightarrow> value_position option \<Rightarrow> condition" where
  "cmp_expr field opt value =
     Simple (case opt of None \<Rightarrow> OpEq | Some p \<Rightarrow> p) (PColumn field)
       (case value of None \<Rightarrow> PLiteral (LScalar JNull) | Some v \<Rightarrow> v)"

fun same_junction :: "condition \<Rightarrow> condition \<Rightarrow> bool" where
  "same_junction (And _) (And _) = True"
| "same_junction (Or _) (Or _) = True"
| "same_junction _ _ = False"

fun conditions_of :: "condition \<Rightarrow> condition list" where
  "conditions_of (And cs) = cs"
| "conditions_of (Or cs) = cs"
| "conditions_of _ = []"

text \<open>The \<open>type\<close> argument of \<open>flatten\<close> is given as a condition of that type.\<close>

definition flatten_conds :: "condition \<Rightarrow> condition list \<Rightarrow> condition list" where
  "flatten_conds ty conditions =
     concat (map (\<lambda>c. if same_junction c ty then conditions_of c else [c]) conditions)"

fun simplifyCondition :: "condition \<Rightarrow> condition" where
  "simplifyCondition (And [c]) = simplifyCondition c"
| "simplifyCondition (Or [c]) = simplifyCondition c"
| "simplifyCondition (And cs) =
     (let conditions = flatten_conds cond_TRUE (map simplifyCondition cs) in
      if list_ex isAlwaysFalse conditions then cond_FALSE else And conditions)"
| "simplifyCondition (Or cs) =
     (let conditions = flatten_conds cond_FALSE (map simplifyCondition cs) in
      if list_ex isAlwaysTrue conditions then cond_TRUE else Or conditions)"
| "simplifyCondition c = c"

subsection \<open>Normalisation: ast.ts\<close>

text \<open>\<open>flattened\<close>: a child of the parent's own type is replaced by its flattened children.\<close>

fun flattened :: "condition \<Rightarrow> condition option" where
  "flattened (And cs) =
     (let conditions = filterUndefined (concat (map (\<lambda>c. case c of
          And ds \<Rightarrow> map flattened ds | _ \<Rightarrow> [flattened c]) cs))
      in case conditions of [] \<Rightarrow> None | [c] \<Rightarrow> Some c | _ \<Rightarrow> Some (And conditions))"
| "flattened (Or cs) =
     (let conditions = filterUndefined (concat (map (\<lambda>c. case c of
          Or ds \<Rightarrow> map flattened ds | _ \<Rightarrow> [flattened c]) cs))
      in case conditions of [] \<Rightarrow> None | [c] \<Rightarrow> Some c | _ \<Rightarrow> Some (Or conditions))"
| "flattened c = Some c"

definition compareUTF8MaybeNull :: "utf8 \<Rightarrow> string option \<Rightarrow> string option \<Rightarrow> number" where
  "compareUTF8MaybeNull u8 a b = (case (a, b) of
     (Some s, Some t) \<Rightarrow> u8 s t | (None, Some _) \<Rightarrow> -1 | (Some _, None) \<Rightarrow> 1 | (None, None) \<Rightarrow> 0)"

definition cmpOptionalBool :: "bool option \<Rightarrow> bool option \<Rightarrow> number" where
  "cmpOptionalBool a b =
     (let toNum = (\<lambda>v. case v of None \<Rightarrow> 0 | Some v \<Rightarrow> if v then 2 else 1) in toNum a - toNum b)"

fun position_type :: "value_position \<Rightarrow> string" where
  "position_type (PLiteral _) = ''literal''"
| "position_type (PColumn _) = ''column''"
| "position_type (PStatic _ _) = ''static''"

fun compareValuePosition ::
    "utf8 \<Rightarrow> (literal_value \<Rightarrow> string) \<Rightarrow> value_position \<Rightarrow> value_position \<Rightarrow> number result" where
  "compareValuePosition u8 str (PLiteral v) (PLiteral w) = Inr (u8 (str v) (str w))"
| "compareValuePosition u8 str (PColumn c) (PColumn d) = Inr (u8 c d)"
| "compareValuePosition u8 str (PStatic _ _) (PStatic _ _) = Inl (IllegalState ''static'')"
| "compareValuePosition u8 str a b = Inr (u8 (position_type a) (position_type b))"

definition cmpRelated :: "utf8 \<Rightarrow> correlated_subquery \<Rightarrow> correlated_subquery \<Rightarrow> number result" where
  "cmpRelated u8 a b = (case (ast_alias (subquery a), ast_alias (subquery b)) of
     (Some s, Some t) \<Rightarrow> Inr (u8 s t) | _ \<Rightarrow> Inl (IllegalState ''alias''))"

text \<open>\<open>a || b\<close> on comparison results.\<close>

definition or_else :: "number result \<Rightarrow> number result \<Rightarrow> number result" where
  "or_else a b = bind_result a (\<lambda>v. if v \<noteq> 0 then Inr v else b)"

lemma or_else_cong [fundef_cong]:
  "a = a' \<Longrightarrow> (a' = Inr 0 \<Longrightarrow> b = b') \<Longrightarrow> or_else a b = or_else a' b'"
  by (cases a') (auto simp: or_else_def)

fun cmpCondition ::
    "utf8 \<Rightarrow> (literal_value \<Rightarrow> string) \<Rightarrow> condition \<Rightarrow> condition \<Rightarrow> number result"
  and cmp_conditions ::
    "utf8 \<Rightarrow> (literal_value \<Rightarrow> string) \<Rightarrow> condition list \<Rightarrow> condition list \<Rightarrow> number result" where
  "cmpCondition u8 str (Simple op l r) (Simple op' l' r') =
     or_else (compareValuePosition u8 str l l')
       (or_else (Inr (compareUTF8MaybeNull u8 (Some (op_name op)) (Some (op_name op'))))
         (compareValuePosition u8 str r r'))"
| "cmpCondition u8 str (Simple _ _ _) b = Inr (-1)"
| "cmpCondition u8 str a (Simple _ _ _) = Inr 1"
| "cmpCondition u8 str (Correlated rel op flp sc) (Correlated rel' op' flp' sc') =
     or_else (cmpRelated u8 rel rel')
       (or_else (Inr (compareUTF8MaybeNull u8 (Some (exists_name op)) (Some (exists_name op'))))
         (or_else (Inr (cmpOptionalBool flp flp')) (Inr (cmpOptionalBool sc sc'))))"
| "cmpCondition u8 str (Correlated _ _ _ _) b = Inr (-1)"
| "cmpCondition u8 str a (Correlated _ _ _ _) = Inr (-1)"
| "cmpCondition u8 str (And cs) (Or ds) =
     or_else (Inr (compareUTF8MaybeNull u8 (Some ''and'') (Some ''or''))) (cmp_conditions u8 str cs ds)"
| "cmpCondition u8 str (Or cs) (And ds) =
     or_else (Inr (compareUTF8MaybeNull u8 (Some ''or'') (Some ''and''))) (cmp_conditions u8 str cs ds)"
| "cmpCondition u8 str (And cs) (And ds) =
     or_else (Inr (compareUTF8MaybeNull u8 (Some ''and'') (Some ''and''))) (cmp_conditions u8 str cs ds)"
| "cmpCondition u8 str (Or cs) (Or ds) =
     or_else (Inr (compareUTF8MaybeNull u8 (Some ''or'') (Some ''or''))) (cmp_conditions u8 str cs ds)"
| "cmp_conditions u8 str (c # cs) (d # ds) =
     or_else (cmpCondition u8 str c d) (cmp_conditions u8 str cs ds)"
| "cmp_conditions u8 str cs ds = Inr (of_nat (length cs) - of_nat (length ds))"

text \<open>
  \<open>Array.prototype.sort\<close> with a comparator that can throw: a stable insertion sort. (The pairs an
  engine compares are not specified; for a consistent comparator the result is.)
\<close>

fun insert_stable :: "('a \<Rightarrow> 'a \<Rightarrow> number result) \<Rightarrow> 'a \<Rightarrow> 'a list \<Rightarrow> 'a list result" where
  "insert_stable cmp x [] = Inr [x]"
| "insert_stable cmp x (y # ys) =
     bind_result (cmp x y) (\<lambda>c.
       if c \<le> 0 then Inr (x # y # ys) else bind_result (insert_stable cmp x ys) (\<lambda>zs. Inr (y # zs)))"

fun js_sort :: "('a \<Rightarrow> 'a \<Rightarrow> number result) \<Rightarrow> 'a list \<Rightarrow> 'a list result" where
  "js_sort cmp [] = Inr []"
| "js_sort cmp (x # xs) = bind_result (js_sort cmp xs) (insert_stable cmp x)"

record name_mapper =
  tableName :: "string \<Rightarrow> string"
  columnName :: "string \<Rightarrow> string \<Rightarrow> string"

text \<open>The two transforms of \<open>ast.ts\<close>: the fields of \<open>ASTTransform\<close> are the functions \<open>tr_\<dots>\<close>.\<close>

datatype ast_transform =
    NORMALIZE_TRANSFORM (norm_u8: utf8) (norm_str: "literal_value \<Rightarrow> string")
  | MAP_TRANSFORM name_mapper

fun tr_table :: "ast_transform \<Rightarrow> string \<Rightarrow> string" where
  "tr_table (NORMALIZE_TRANSFORM _ _) t = t"
| "tr_table (MAP_TRANSFORM m) t = tableName m t"

fun tr_column :: "ast_transform \<Rightarrow> string \<Rightarrow> string \<Rightarrow> string" where
  "tr_column (NORMALIZE_TRANSFORM _ _) t c = c"
| "tr_column (MAP_TRANSFORM m) t c = columnName m t c"

fun tr_related :: "ast_transform \<Rightarrow> correlated_subquery list \<Rightarrow> correlated_subquery list result" where
  "tr_related (NORMALIZE_TRANSFORM u8 _) rs = js_sort (cmpRelated u8) rs"
| "tr_related (MAP_TRANSFORM _) rs = Inr rs"

fun tr_where :: "ast_transform \<Rightarrow> condition \<Rightarrow> condition option" where
  "tr_where (NORMALIZE_TRANSFORM _ _) c = flattened c"
| "tr_where (MAP_TRANSFORM _) c = Some c"

fun tr_conditions :: "ast_transform \<Rightarrow> condition list \<Rightarrow> condition list result" where
  "tr_conditions (NORMALIZE_TRANSFORM u8 str) cs = js_sort (cmpCondition u8 str) cs"
| "tr_conditions (MAP_TRANSFORM _) cs = Inr cs"

definition mustCompoundKey :: "string list \<Rightarrow> string list result" where
  "mustCompoundKey k =
     (if k = [] then Inl (AssertionFailed ''Expected non-empty array for compound key'') else Inr k)"

definition tr_key :: "ast_transform \<Rightarrow> string \<Rightarrow> string list \<Rightarrow> string list result" where
  "tr_key tr table k = mustCompoundKey (map (tr_column tr table) k)"

text \<open>\<open>Object.fromEntries\<close>: a later entry of the same key replaces the value.\<close>

definition tr_start :: "ast_transform \<Rightarrow> string \<Rightarrow> row \<times> bool \<Rightarrow> row \<times> bool" where
  "tr_start tr table st =
     (fold (\<lambda>(col, val) obj. AList.update (tr_column tr table col) val obj) (fst st) [], snd st)"

fun tr_position :: "ast_transform \<Rightarrow> string \<Rightarrow> value_position \<Rightarrow> value_position" where
  "tr_position tr table (PColumn c) = PColumn (tr_column tr table c)"
| "tr_position tr table p = p"

text \<open>\<open>flattened\<close> does not grow a condition, so the recursion through it ends.\<close>

definition cond_weight :: "condition list \<Rightarrow> nat" where
  "cond_weight cs = size_list size cs"

lemma cond_weight_simps [simp]:
  "cond_weight [] = 0" "cond_weight (c # cs) = Suc (size c + cond_weight cs)"
  "cond_weight (cs @ ds) = cond_weight cs + cond_weight ds"
  by (simp_all add: cond_weight_def)

lemma filterUndefined_simps [simp]:
  "filterUndefined [] = []"
  "filterUndefined (None # xs) = filterUndefined xs"
  "filterUndefined (Some x # xs) = x # filterUndefined xs"
  "filterUndefined (xs @ ys) = filterUndefined xs @ filterUndefined ys"
  by (simp_all add: filterUndefined_def map_filter_def)

lemma weight_flattened_list:
  "(\<And>c d. c \<in> set cs \<Longrightarrow> flattened c = Some d \<Longrightarrow> size d \<le> size c) \<Longrightarrow>
   cond_weight (filterUndefined (map flattened cs)) \<le> cond_weight cs"
proof (induction cs)
  case (Cons c cs)
  then have "cond_weight (filterUndefined (map flattened cs)) \<le> cond_weight cs" by simp
  with Cons.prems [of c] show ?case by (cases "flattened c") auto
qed simp

lemma flatten_conds_simps [simp]:
  "flatten_conds ty [] = []"
  "flatten_conds ty (c # cs) =
     (if same_junction c ty then conditions_of c else [c]) @ flatten_conds ty cs"
  by (simp_all add: flatten_conds_def)

lemma flattened_junction:
  "flattened (And cs) = (case filterUndefined (map flattened (flatten_conds cond_TRUE cs)) of
     [] \<Rightarrow> None | [c] \<Rightarrow> Some c | conds \<Rightarrow> Some (And conds))"
  "flattened (Or cs) = (case filterUndefined (map flattened (flatten_conds cond_FALSE cs)) of
     [] \<Rightarrow> None | [c] \<Rightarrow> Some c | conds \<Rightarrow> Some (Or conds))"
proof -
  have "map flattened (flatten_conds cond_TRUE cs) =
      concat (map (\<lambda>c. case c of And ds \<Rightarrow> map flattened ds | _ \<Rightarrow> [flattened c]) cs)"
    by (induction cs) (auto simp: cond_TRUE_def split: condition.splits)
  then show "flattened (And cs) = (case filterUndefined (map flattened (flatten_conds cond_TRUE cs)) of
     [] \<Rightarrow> None | [c] \<Rightarrow> Some c | conds \<Rightarrow> Some (And conds))"
    by (simp add: Let_def split: list.splits)
  have "map flattened (flatten_conds cond_FALSE cs) =
      concat (map (\<lambda>c. case c of Or ds \<Rightarrow> map flattened ds | _ \<Rightarrow> [flattened c]) cs)"
    by (induction cs) (auto simp: cond_FALSE_def split: condition.splits)
  then show "flattened (Or cs) = (case filterUndefined (map flattened (flatten_conds cond_FALSE cs)) of
     [] \<Rightarrow> None | [c] \<Rightarrow> Some c | conds \<Rightarrow> Some (Or conds))"
    by (simp add: Let_def split: list.splits)
qed

lemma weight_conditions_of: "cond_weight (conditions_of c) \<le> size c"
  by (cases c) (auto simp: cond_weight_def)

lemma weight_flatten_conds: "cond_weight (flatten_conds ty cs) \<le> cond_weight cs"
proof (induction cs)
  case (Cons c cs)
  with weight_conditions_of [of c] show ?case by auto
qed simp

lemma in_cond_weight: "c \<in> set cs \<Longrightarrow> size c < cond_weight cs"
  by (induction cs) auto

lemma size_junction: "size (And cs) = Suc (cond_weight cs)" "size (Or cs) = Suc (cond_weight cs)"
  by (simp_all add: cond_weight_def)

lemma size_flattened: "flattened c = Some d \<Longrightarrow> size d \<le> size c"
proof (induction c arbitrary: d rule: measure_induct_rule [of size])
  case (less c)
  have bound: "cond_weight (filterUndefined (map flattened (flatten_conds ty cs))) \<le> cond_weight cs"
    if "size c = Suc (cond_weight cs)" for ty cs
  proof -
    have "cond_weight (filterUndefined (map flattened (flatten_conds ty cs)))
      \<le> cond_weight (flatten_conds ty cs)"
      using that weight_flatten_conds [of ty cs] in_cond_weight
      by (intro weight_flattened_list less.IH) fastforce+
    then show ?thesis using weight_flatten_conds le_trans by blast
  qed
  show ?case
  proof (cases c)
    case (And cs)
    with bound [of cs cond_TRUE] less.prems show ?thesis
      by (auto simp: flattened_junction size_junction simp del: flattened.simps condition.size
        split: list.splits)
  next
    case (Or cs)
    with bound [of cs cond_FALSE] less.prems show ?thesis
      by (auto simp: flattened_junction size_junction simp del: flattened.simps condition.size
        split: list.splits)
  qed (use less.prems in auto)
qed

lemma size_tr_where: "tr_where tr c = Some d \<Longrightarrow> size d \<le> size c"
  by (cases tr) (auto dest: size_flattened)

text \<open>\<open>transformAST\<close> and \<open>transformWhere\<close>, with the translation of one correlated subquery split off.\<close>

function transformAST :: "ast_transform \<Rightarrow> ast \<Rightarrow> ast result"
  and transformWhere :: "ast_transform \<Rightarrow> string \<Rightarrow> condition \<Rightarrow> condition result"
  and transformSubquery ::
    "ast_transform \<Rightarrow> string \<Rightarrow> correlated_subquery \<Rightarrow> correlated_subquery result" where
  "transformAST tr (AST schm table alias whr related start limit order) =
     bind_result (traverse_option (transformWhere tr table)
         (case whr of None \<Rightarrow> None | Some w \<Rightarrow> tr_where tr w)) (\<lambda>whr'.
     bind_result (traverse_option (\<lambda>rs.
         bind_result (traverse (transformSubquery tr table) rs) (tr_related tr)) related) (\<lambda>related'.
     Inr (AST schm (tr_table tr table) alias whr' related'
       (map_option (tr_start tr table) start) limit
       (map_option (map (\<lambda>(col, dir). (tr_column tr table col, dir))) order))))"
| "transformWhere tr table (Simple op left right) = Inr (Simple op (tr_position tr table left) right)"
| "transformWhere tr table (Correlated related op flp sc) =
     bind_result (transformSubquery tr table related) (\<lambda>related'. Inr (Correlated related' op flp sc))"
| "transformWhere tr table (And cs) =
     bind_result (traverse (transformWhere tr table) cs) (\<lambda>ds.
     bind_result (tr_conditions tr ds) (\<lambda>es. Inr (And es)))"
| "transformWhere tr table (Or cs) =
     bind_result (traverse (transformWhere tr table) cs) (\<lambda>ds.
     bind_result (tr_conditions tr ds) (\<lambda>es. Inr (Or es)))"
| "transformSubquery tr table (Subquery pf cf sub sys hid) =
     bind_result (tr_key tr table pf) (\<lambda>pf'.
     bind_result (tr_key tr (ast_table sub) cf) (\<lambda>cf'.
     bind_result (transformAST tr sub) (\<lambda>sub'. Inr (Subquery pf' cf' sub' sys hid))))"
  by pat_completeness auto
termination
  by (relation "measure (\<lambda>x. case x of Inl (tr, a) \<Rightarrow> size a
      | Inr (Inl (tr, t, c)) \<Rightarrow> size c | Inr (Inr (tr, t, r)) \<Rightarrow> size r)")
    (auto simp: less_Suc_eq_le dest!: in_cond_weight size_tr_where split: option.splits
      simp flip: cond_weight_def intro: le_trans trans_le_add1 trans_le_add2 size_list_estimation')

end
