(* ===== verification/AstProps.thy ===== *)
theory AstProps
  imports Ast
begin

section \<open>Correctness of the AST transformations\<close>

text \<open>
  The meaning of a condition on one row, given the truth of its atoms; what the helpers and the
  simplifier do to it; where normalisation keeps it and where it does not; and the round trip of
  name mapping.
\<close>

subsection \<open>Meaning\<close>

fun eval_cond :: "(condition \<Rightarrow> bool) \<Rightarrow> condition \<Rightarrow> bool" where
  "eval_cond atom (And cs) \<longleftrightarrow> list_all (eval_cond atom) cs"
| "eval_cond atom (Or cs) \<longleftrightarrow> list_ex (eval_cond atom) cs"
| "eval_cond atom c \<longleftrightarrow> atom c"

definition eval_where :: "(condition \<Rightarrow> bool) \<Rightarrow> condition option \<Rightarrow> bool" where
  "eval_where atom w \<longleftrightarrow> (case w of None \<Rightarrow> True | Some c \<Rightarrow> eval_cond atom c)"

lemma isAlways_eval [simp]:
  "isAlwaysTrue c \<Longrightarrow> eval_cond atom c"
  "isAlwaysFalse c \<Longrightarrow> \<not> eval_cond atom c"
  by (cases c; simp add: isAlwaysTrue_def isAlwaysFalse_def)+

lemma eval_flatten_conds [simp]:
  "list_all (eval_cond atom) (flatten_conds (And ds) cs) = list_all (eval_cond atom) cs"
  "list_ex (eval_cond atom) (flatten_conds (Or ds) cs) = list_ex (eval_cond atom) cs"
proof -
  show "list_all (eval_cond atom) (flatten_conds (And ds) cs) = list_all (eval_cond atom) cs"
  proof (induction cs)
    case (Cons c cs)
    then show ?case by (cases c) auto
  qed simp
  show "list_ex (eval_cond atom) (flatten_conds (Or ds) cs) = list_ex (eval_cond atom) cs"
  proof (induction cs)
    case (Cons c cs)
    then show ?case by (cases c) auto
  qed simp
qed

lemma list_ex_falsified:
  "list_ex isAlwaysFalse cs \<Longrightarrow> \<not> list_all (eval_cond atom) cs"
  "list_ex isAlwaysTrue cs \<Longrightarrow> list_ex (eval_cond atom) cs"
  unfolding list_ex_iff list_all_iff using isAlways_eval by blast+

lemma eval_map_cong:
  "(\<And>c. c \<in> set cs \<Longrightarrow> eval_cond atom (f c) = eval_cond atom c) \<Longrightarrow>
   list_all (eval_cond atom) (map f cs) = list_all (eval_cond atom) cs \<and>
   list_ex (eval_cond atom) (map f cs) = list_ex (eval_cond atom) cs"
  by (auto simp: list_all_iff list_ex_iff)

lemma simplifyCondition_eval: "eval_cond atom (simplifyCondition c) = eval_cond atom c"
proof (induction c rule: simplifyCondition.induct
    [case_names and_one or_one and_nil and_more or_nil or_more simple correlated])
  case and_nil
  then show ?case by (simp add: cond_TRUE_def)
next
  case (and_more c d cs)
  note m = eval_map_cong [of "c # d # cs" atom simplifyCondition, OF and_more]
  show ?case
    using m list_ex_falsified(1) [of "flatten_conds (And []) (map simplifyCondition (c # d # cs))" atom]
      eval_flatten_conds(1) [of atom "[]" "map simplifyCondition (c # d # cs)"]
    by (auto simp: Let_def cond_TRUE_def cond_FALSE_def simp del: flatten_conds_simps list.map)
next
  case or_nil
  then show ?case by (simp add: cond_FALSE_def)
next
  case (or_more c d cs)
  note m = eval_map_cong [of "c # d # cs" atom simplifyCondition, OF or_more]
  show ?case
    using m list_ex_falsified(2) [of "flatten_conds (Or []) (map simplifyCondition (c # d # cs))" atom]
      eval_flatten_conds(2) [of atom "[]" "map simplifyCondition (c # d # cs)"]
    by (auto simp: Let_def cond_TRUE_def cond_FALSE_def simp del: flatten_conds_simps list.map)
qed auto

text \<open>C36: Simplifying a condition (splicing nested conjunctions and disjunctions, unwrapping singletons,
  cutting at a constant) does not change which rows satisfy it.\<close>

theorem simplifyCondition_meaning:
  "{row. eval_cond (atom row) (simplifyCondition c)} = {row. eval_cond (atom row) c}"
  by (simp add: simplifyCondition_eval)

text \<open>The expression helpers \<open>and\<close> and \<open>or\<close> mean the conjunction and disjunction of their defined
  arguments, although they drop constants and unwrap singletons; \<open>not\<close> is an involution.\<close>

theorem expression_helpers_meaning:
  "eval_cond atom (and_expr cs) = list_all (eval_cond atom) (filterUndefined cs) \<and>
   eval_cond atom (or_expr cs) = list_ex (eval_cond atom) (filterUndefined cs) \<and>
   not_expr (not_expr c) = c"
proof (intro conjI)
  have drop: "list_all (eval_cond atom) (filter (\<lambda>c. \<not> isAlwaysTrue c) ds) = list_all (eval_cond atom) ds"
    "list_ex (eval_cond atom) (filter (\<lambda>c. \<not> isAlwaysFalse c) ds) = list_ex (eval_cond atom) ds" for ds
    by (induction ds) auto
  have one: "length ds = 1 \<Longrightarrow> list_all P ds = P (hd ds) \<and> list_ex P ds = P (hd ds)"
    for P and ds :: "condition list"
    by (cases ds; simp)
  have all: "eval_cond atom (if length ds = 1 then hd ds else if list_ex isAlwaysFalse ds then cond_FALSE
      else And ds) = list_all (eval_cond atom) ds" for ds
    using one [of ds "eval_cond atom"] list_ex_falsified(1) [of ds atom] by (simp add: cond_FALSE_def)
  have ex: "eval_cond atom (if length ds = 1 then hd ds else if list_ex isAlwaysTrue ds then cond_TRUE
      else Or ds) = list_ex (eval_cond atom) ds" for ds
    using one [of ds "eval_cond atom"] list_ex_falsified(2) [of ds atom] by (simp add: cond_TRUE_def)
  show "eval_cond atom (and_expr cs) = list_all (eval_cond atom) (filterUndefined cs)"
    unfolding and_expr_def Let_def all drop ..
  show "eval_cond atom (or_expr cs) = list_ex (eval_cond atom) (filterUndefined cs)"
    unfolding or_expr_def Let_def ex drop ..
  have "negateOperator (negateOperator op) = op" for op by (cases op) auto
  moreover have "negateExists (negateExists op) = op" for op by (cases op) auto
  ultimately show "not_expr (not_expr c) = c"
    by (induction c rule: not_expr.induct) (auto intro: map_idI)
qed

subsection \<open>Normalisation\<close>

text \<open>Conditions without constants: every conjunction and disjunction has a member.\<close>

fun no_constants :: "condition \<Rightarrow> bool" where
  "no_constants (And cs) \<longleftrightarrow> cs \<noteq> [] \<and> list_all no_constants cs"
| "no_constants (Or cs) \<longleftrightarrow> cs \<noteq> [] \<and> list_all no_constants cs"
| "no_constants _ \<longleftrightarrow> True"

lemma no_constants_flatten_conds:
  "list_all no_constants cs \<Longrightarrow> list_all no_constants (flatten_conds ty cs)"
  "list_all no_constants cs \<Longrightarrow> cs \<noteq> [] \<Longrightarrow> flatten_conds ty cs \<noteq> []"
proof -
  show all: "list_all no_constants cs \<Longrightarrow> list_all no_constants (flatten_conds ty cs)" for cs
  proof (induction cs)
    case (Cons c cs)
    then show ?case by (cases c) auto
  qed simp
  show "list_all no_constants cs \<Longrightarrow> cs \<noteq> [] \<Longrightarrow> flatten_conds ty cs \<noteq> []"
    by (cases cs; cases "hd cs"; cases ty) auto
qed

lemma in_flatten_conds: "c \<in> set (flatten_conds ty cs) \<Longrightarrow> size c < Suc (cond_weight cs)"
  using weight_flatten_conds [of ty cs] in_cond_weight [of c "flatten_conds ty cs"] by simp

text \<open>What flattening each member of a list gives, when each has a flattened form of equal meaning.\<close>

lemma filterUndefined_flattened:
  assumes "\<And>c. c \<in> set cs \<Longrightarrow> \<exists>d. flattened c = Some d \<and> (\<forall>atom. eval_cond atom d = eval_cond atom c)"
  shows "length (filterUndefined (map flattened cs)) = length cs \<and>
    list_all (eval_cond atom) (filterUndefined (map flattened cs)) = list_all (eval_cond atom) cs \<and>
    list_ex (eval_cond atom) (filterUndefined (map flattened cs)) = list_ex (eval_cond atom) cs"
  using assms
proof (induction cs)
  case (Cons c cs)
  obtain d where "flattened c = Some d" "\<forall>atom. eval_cond atom d = eval_cond atom c"
    using Cons.prems [of c] by auto
  with Cons show ?case by simp
qed simp

lemma flattened_eval:
  "no_constants c \<Longrightarrow> \<exists>d. flattened c = Some d \<and> (\<forall>atom. eval_cond atom d = eval_cond atom c)"
proof (induction c rule: measure_induct_rule [of size])
  case (less c)
  have members: "filterUndefined (map flattened (flatten_conds ty cs)) \<noteq> [] \<and>
      list_all (eval_cond atom) (filterUndefined (map flattened (flatten_conds ty cs))) =
        list_all (eval_cond atom) (flatten_conds ty cs) \<and>
      list_ex (eval_cond atom) (filterUndefined (map flattened (flatten_conds ty cs))) =
        list_ex (eval_cond atom) (flatten_conds ty cs)"
    if junction: "c = And cs \<or> c = Or cs" for ty cs atom
  proof -
    have nc: "list_all no_constants cs" "cs \<noteq> []" "size c = Suc (cond_weight cs)"
      using less.prems junction by (auto simp: size_junction simp del: condition.size)
    let ?ds = "flatten_conds ty cs" and ?fs = "filterUndefined (map flattened (flatten_conds ty cs))"
    have each: "\<exists>d. flattened e = Some d \<and> (\<forall>atom. eval_cond atom d = eval_cond atom e)"
      if "e \<in> set (flatten_conds ty cs)" for e
    proof (rule less.IH)
      show "size e < size c" using in_flatten_conds [OF that] nc(3) by simp
      show "no_constants e"
        using no_constants_flatten_conds(1) [OF nc(1), of ty] that unfolding list_all_iff by blast
    qed
    have flat: "length ?fs = length ?ds \<and> list_all (eval_cond atom) ?fs = list_all (eval_cond atom) ?ds \<and>
      list_ex (eval_cond atom) ?fs = list_ex (eval_cond atom) ?ds"
      by (rule filterUndefined_flattened) (rule each)
    have "?ds \<noteq> []"
      by (rule no_constants_flatten_conds(2) [OF nc(1,2)])
    with flat have "?fs \<noteq> []" by (metis length_0_conv)
    with flat show ?thesis by blast
  qed
  show ?case
  proof (cases c)
    case (And cs)
    define fs where "fs = filterUndefined (map flattened (flatten_conds cond_TRUE cs))"
    have fs: "fs \<noteq> []" "list_all (eval_cond atom) fs = eval_cond atom c" for atom
      using members [of cs cond_TRUE atom] eval_flatten_conds(1) [of atom "[]" cs]
      by (simp_all only: fs_def cond_TRUE_def And eval_cond.simps simp_thms)
    have "flattened c = (case fs of [] \<Rightarrow> None | [c] \<Rightarrow> Some c | conds \<Rightarrow> Some (And conds))"
      unfolding And fs_def by (rule flattened_junction)
    with fs show ?thesis by (cases fs rule: list.exhaust [case_names Nil Cons]; cases "tl fs") auto
  next
    case (Or cs)
    define fs where "fs = filterUndefined (map flattened (flatten_conds cond_FALSE cs))"
    have fs: "fs \<noteq> []" "list_ex (eval_cond atom) fs = eval_cond atom c" for atom
      using members [of cs cond_FALSE atom] eval_flatten_conds(2) [of atom "[]" cs]
      by (simp_all only: fs_def cond_FALSE_def Or eval_cond.simps simp_thms)
    have "flattened c = (case fs of [] \<Rightarrow> None | [c] \<Rightarrow> Some c | conds \<Rightarrow> Some (Or conds))"
      unfolding Or fs_def by (rule flattened_junction)
    with fs show ?thesis by (cases fs rule: list.exhaust [case_names Nil Cons]; cases "tl fs") auto
  qed auto
qed

lemma set_insert_stable: "insert_stable cmp x ys = Inr zs \<Longrightarrow> set zs = insert x (set ys)"
  by (induction ys arbitrary: zs) (auto simp: bind_result_eq_Inr split: if_splits)

lemma set_js_sort: "js_sort cmp xs = Inr ys \<Longrightarrow> set ys = set xs"
  by (induction xs arbitrary: ys) (auto simp: bind_result_eq_Inr dest!: set_insert_stable)

lemma eval_same_set:
  "set cs = set ds \<Longrightarrow> list_all P cs = list_all P ds \<and> list_ex P cs = list_ex P ds"
  by (simp add: list_all_iff list_ex_iff)

definition sample_where :: condition where
  "sample_where = And [Or [Simple OpEq (PColumn ''b'') (PLiteral (LScalar (JNum 2))),
       Simple OpEq (PColumn ''a'') (PLiteral (LScalar (JNum 1)))],
     And [Simple OpGt (PColumn ''c'') (PLiteral (LScalar (JNum 0)))]]"

definition sample_query :: ast where
  "sample_query = AST None ''issue'' None (Some sample_where) None None None None"

definition sample_str :: "literal_value \<Rightarrow> string" where
  "sample_str v = (case v of LScalar (JStr s) \<Rightarrow> s | _ \<Rightarrow> [])"

text \<open>Normalisation drops a \<open>where\<close> of \<open>FALSE\<close> (the empty disjunction the expression helpers build): the
  normal form, and with it the hash and what is sent to the server, is that of the query without a
  filter, although one selects no row and the other every row.\<close>

theorem normalizeAST_drops_FALSE:
  "transformAST (NORMALIZE_TRANSFORM u8 str) (AST sch t al (Some (or_expr [])) rel st lmt ord) =
     transformAST (NORMALIZE_TRANSFORM u8 str) (AST sch t al None rel st lmt ord) \<and>
   \<not> eval_where atom (Some (or_expr [])) \<and> eval_where atom None"
  by (simp add: or_expr_def filterUndefined_def map_filter_def eval_where_def)

text \<open>\<open>cmpCondition\<close> is not an ordering: of a conjunction or disjunction and a subquery condition each
  comes before the other, so the order in which such siblings were written survives the sort.\<close>

theorem cmpCondition_not_antisymmetric:
  "cmpCondition u8 str (And cs) (Correlated rel op flp sc) = Inr (-1) \<and>
   cmpCondition u8 str (Correlated rel op flp sc) (And cs) = Inr (-1) \<and>
   cmpCondition u8 str (Or cs) (Correlated rel op flp sc) = Inr (-1) \<and>
   cmpCondition u8 str (Correlated rel op flp sc) (Or cs) = Inr (-1)"
  by simp

subsection \<open>Name mapping\<close>

text \<open>The second mapper undoes the first.\<close>

definition inverse_mapper :: "name_mapper \<Rightarrow> name_mapper \<Rightarrow> bool" where
  "inverse_mapper f g \<longleftrightarrow> (\<forall>t. tableName g (tableName f t) = t \<and>
     (\<forall>c. columnName g (tableName f t) (columnName f t c) = c))"

text \<open>The start row of every (sub)query is an object: no key occurs twice.\<close>

fun ast_objects :: "ast \<Rightarrow> bool" and cond_objects :: "condition \<Rightarrow> bool"
  and subq_objects :: "correlated_subquery \<Rightarrow> bool" where
  "ast_objects (AST schm t al whr rel st lmt ord) \<longleftrightarrow> pred_option cond_objects whr \<and>
     pred_option (list_all subq_objects) rel \<and> pred_option (\<lambda>(r, e). distinct (map fst r)) st"
| "cond_objects (And cs) \<longleftrightarrow> list_all cond_objects cs"
| "cond_objects (Or cs) \<longleftrightarrow> list_all cond_objects cs"
| "cond_objects (Correlated rel op flp sc) \<longleftrightarrow> subq_objects rel"
| "cond_objects (Simple op l r) \<longleftrightarrow> True"
| "subq_objects (Subquery pf cf sub sys hid) \<longleftrightarrow> ast_objects sub"

lemma update_new: "k \<notin> fst ` set al \<Longrightarrow> AList.update k v al = al @ [(k, v)]"
  by (induction al) auto

lemma fold_update_distinct:
  assumes "inj f" "distinct (map fst r)" "f ` fst ` set r \<inter> fst ` set obj = {}"
  shows "fold (\<lambda>(col, val) obj. AList.update (f col) val obj) r obj = obj @ map (\<lambda>(col, val). (f col, val)) r"
  using assms(2,3)
proof (induction r arbitrary: obj)
  case (Cons kv r)
  obtain k v where kv: "kv = (k, v)" by (cases kv)
  have "AList.update (f k) v obj = obj @ [(f k, v)]"
    using Cons.prems by (intro update_new) (auto simp: kv)
  moreover have "f ` fst ` set r \<inter> fst ` set (obj @ [(f k, v)]) = {}"
    using Cons.prems by (force simp: kv dest: injD [OF assms(1)])
  ultimately show ?case
    using Cons.IH [of "obj @ [(f k, v)]"] Cons.prems(1) by (simp add: kv)
qed simp

lemma inverse_mapper_inj: "inverse_mapper f g \<Longrightarrow> inj (columnName f t)"
  unfolding inverse_mapper_def inj_def by metis

lemma tr_start_inverse:
  assumes inv: "inverse_mapper f g" and "distinct (map fst (fst st))"
  shows "tr_start (MAP_TRANSFORM g) (tableName f t) (tr_start (MAP_TRANSFORM f) t st) = st"
proof -
  obtain r e where st: "st = (r, e)" by (cases st)
  let ?r' = "map (\<lambda>(col, val). (columnName f t col, val)) r"
  have once: "tr_start (MAP_TRANSFORM f) t st = (?r', e)"
    using fold_update_distinct [OF inverse_mapper_inj [OF inv, of t], of r "[]"] assms(2)
    by (simp add: tr_start_def st)
  let ?g = "columnName g (tableName f t)"
  have g: "?g (columnName f t c) = c" for c using inv by (simp add: inverse_mapper_def)
  have "fold (\<lambda>(col, val) obj. AList.update (?g col) val obj) ?r' [] =
      fold (\<lambda>(col, val) obj. AList.update col val obj) r []"
    by (simp add: fold_map comp_def case_prod_unfold g)
  also have "\<dots> = r"
    using fold_update_distinct [of id r "[]"] assms(2) by (simp add: st)
  finally show ?thesis by (simp add: once) (simp add: tr_start_def st)
qed

lemma tr_key_inverse:
  "inverse_mapper f g \<Longrightarrow> tr_key (MAP_TRANSFORM f) t k = Inr k' \<Longrightarrow>
   tr_key (MAP_TRANSFORM g) (tableName f t) k' = Inr k"
  by (auto simp: tr_key_def mustCompoundKey_def inverse_mapper_def comp_def split: if_splits)

lemma traverse_inverse:
  "traverse f xs = Inr ys \<Longrightarrow> (\<And>x y. x \<in> set xs \<Longrightarrow> f x = Inr y \<Longrightarrow> g y = Inr x) \<Longrightarrow>
   traverse g ys = Inr xs"
  by (induction xs arbitrary: ys) (auto simp: bind_result_eq_Inr)

lemma mapAST_inverse:
  assumes inv: "inverse_mapper f g"
  shows "transformAST tr a = Inr b \<Longrightarrow> tr = MAP_TRANSFORM f \<Longrightarrow> ast_objects a \<Longrightarrow>
      transformAST (MAP_TRANSFORM g) b = Inr a \<and> ast_table b = tableName f (ast_table a)"
    and "transformWhere tr t c = Inr d \<Longrightarrow> tr = MAP_TRANSFORM f \<Longrightarrow> cond_objects c \<Longrightarrow>
      transformWhere (MAP_TRANSFORM g) (tableName f t) d = Inr c"
    and "transformSubquery tr t r = Inr s \<Longrightarrow> tr = MAP_TRANSFORM f \<Longrightarrow> subq_objects r \<Longrightarrow>
      transformSubquery (MAP_TRANSFORM g) (tableName f t) s = Inr r"
proof (induction tr a and tr t c and tr t r arbitrary: b and d and s
    rule: transformAST_transformWhere_transformSubquery.induct)
  case (1 tr schm table al whr related start lmt order)
  have col: "columnName g (tableName f table) (columnName f table c) = c" for c
    using inv by (simp add: inverse_mapper_def)
  obtain whr' related' where
    w: "traverse_option (transformWhere tr table) whr = Inr whr'" and
    w0: "traverse_option (transformWhere tr table)
      (case whr of None \<Rightarrow> None | Some x \<Rightarrow> tr_where tr x) = Inr whr'" and
    r: "traverse_option (\<lambda>rs. traverse (transformSubquery tr table) rs) related = Inr related'" and
    b: "b = AST schm (tableName f table) al whr' related'
       (map_option (tr_start tr table) start) lmt
       (map_option (map (\<lambda>(col, dir). (columnName f table col, dir))) order)"
    using "1.prems"(1,2)
    by (cases whr; cases related) (auto simp: bind_result_eq_Inr)
  have "traverse_option (transformWhere (MAP_TRANSFORM g) (tableName f table)) whr' = Inr whr"
    using w "1.IH"(1) "1.prems"(2,3) by (cases whr) (auto simp: bind_result_eq_Inr)
  moreover have "traverse_option (\<lambda>rs. traverse (transformSubquery (MAP_TRANSFORM g) (tableName f table)) rs) related'
      = Inr related"
    using r w0 "1.IH"(2) [OF w0] "1.prems"(2,3)
    by (cases related) (auto simp: bind_result_eq_Inr list_all_iff elim!: traverse_inverse)
  moreover have "map_option (tr_start (MAP_TRANSFORM g) (tableName f table))
      (map_option (tr_start tr table) start) = start"
    using "1.prems"(2,3) tr_start_inverse [OF inv, of _ table] by (cases start) auto
  moreover have "map_option (map (\<lambda>(col, dir). (columnName g (tableName f table) col, dir)))
      (map_option (map (\<lambda>(col, dir). (columnName f table col, dir))) order) = order"
    by (cases order) (simp_all add: comp_def case_prod_unfold col)
  moreover have "(case whr' of None \<Rightarrow> None | Some x \<Rightarrow> tr_where (MAP_TRANSFORM g) x) = whr'"
    by (cases whr') simp_all
  moreover have "(\<lambda>rs. bind_result (traverse (transformSubquery (MAP_TRANSFORM g) (tableName f table)) rs)
      (tr_related (MAP_TRANSFORM g))) = traverse (transformSubquery (MAP_TRANSFORM g) (tableName f table))"
    by (auto simp: fun_eq_iff bind_result_def split: sum.splits)
  moreover have "tableName g (tableName f table) = table"
    using inv by (simp add: inverse_mapper_def)
  ultimately show ?case
    by (simp add: b)
next
  case (2 tr table op left right)
  then show ?case using inv by (cases left) (auto simp: inverse_mapper_def)
next
  case (3 tr table related op flp sc)
  then show ?case by (auto simp: bind_result_eq_Inr)
next
  case (4 tr table cs)
  then show ?case by (auto simp: bind_result_eq_Inr list_all_iff elim!: traverse_inverse)
next
  case (5 tr table cs)
  then show ?case by (auto simp: bind_result_eq_Inr list_all_iff elim!: traverse_inverse)
next
  case (6 tr table pf cf sub sys hid)
  then obtain pf' cf' sub' where
    k: "tr_key tr table pf = Inr pf'" "tr_key tr (ast_table sub) cf = Inr cf'"
      "transformAST tr sub = Inr sub'" "s = Subquery pf' cf' sub' sys hid"
    by (auto simp: bind_result_eq_Inr)
  with "6.IH" "6.prems"(2,3) have
    "transformAST (MAP_TRANSFORM g) sub' = Inr sub" "ast_table sub' = tableName f (ast_table sub)"
    by auto
  with k tr_key_inverse [OF inv] "6.prems"(2) show ?case by simp
qed

text \<open>C38: Mapping a query's names to the server and back with the inverse mapper gives the query back, in
  every nested subquery, correlation key, condition, ordering and start row.\<close>

theorem mapAST_roundtrip:
  assumes "inverse_mapper f g" and "ast_objects a" and "transformAST (MAP_TRANSFORM f) a = Inr b"
  shows "transformAST (MAP_TRANSFORM g) b = Inr a"
  using mapAST_inverse(1) [OF assms(1,3)] assms(2) by blast

definition prefix_mapper :: name_mapper where
  "prefix_mapper = \<lparr>tableName = (#) (CHR ''t''), columnName = (\<lambda>t. (#) (CHR ''c''))\<rparr>"

definition unprefix_mapper :: name_mapper where
  "unprefix_mapper = \<lparr>tableName = tl, columnName = (\<lambda>t. tl)\<rparr>"

definition mapped_query :: ast where
  "mapped_query = AST None ''issue'' None
     (Some (Correlated (Subquery [''id''] [''issueID'']
        (AST None ''comment'' (Some ''c'') None None None None (Some [(''id'', Asc)])) None None)
        EXISTS None None))
     None (Some ([(''id'', JNum 3), (''title'', JStr ''x'')], True)) (Some 10) (Some [(''id'', Desc)])"

theorem mapAST_roundtrip_witness:
  "\<exists>b. transformAST (MAP_TRANSFORM prefix_mapper) mapped_query = Inr b \<and>
     ast_table b = ''tissue'' \<and> transformAST (MAP_TRANSFORM unprefix_mapper) b = Inr mapped_query"
proof -
  obtain b where b: "transformAST (MAP_TRANSFORM prefix_mapper) mapped_query = Inr b"
    "ast_table b = ''tissue''"
    by (simp add: mapped_query_def prefix_mapper_def tr_key_def mustCompoundKey_def)
  moreover have "inverse_mapper prefix_mapper unprefix_mapper"
    by (simp add: inverse_mapper_def prefix_mapper_def unprefix_mapper_def)
  moreover have "ast_objects mapped_query" by (simp add: mapped_query_def)
  ultimately show ?thesis using mapAST_roundtrip by blast
qed

end
