(* ===== verification/RowPredicate.thy ===== *)
theory RowPredicate
  imports AstProps
begin

section \<open>Row predicates (zql/src/builder/filter.ts, like.ts)\<close>

text \<open>
  How a condition becomes a predicate on rows. Building the predicate can throw (an unresolved
  parameter, a malformed \<open>LIKE\<close> pattern, an \<open>IN\<close> without an array, a literal comparison of mixed
  types) and so can running it, hence the two levels of results. Strings consist of code units
  below 256; \<open>toLowerCase\<close> and the \<open>i\<close> flag are those of JavaScript on these.
\<close>

subsection \<open>Regular expressions\<close>

text \<open>
  Of JavaScript's \<open>RegExp\<close> the part that patterns of \<open>LIKE\<close> need: the assertions \<open>^\<close> and \<open>$\<close>, the dot, characters, escaped
  syntax characters, and the star; the flags \<open>i\<close>, \<open>m\<close> and \<open>s\<close>. Any other use of a syntax character is an error here. A
  match is searched from every position; \<open>prev\<close> is the character before the current one.
\<close>

datatype re_atom = ReDot | ReChar char

datatype re_term = ReStart | ReEnd | ReAtom re_atom | ReStar re_atom

definition special_char :: "char \<Rightarrow> bool" where
  "special_char c \<longleftrightarrow> c \<in> set (CHR 0x5C # ''$()*+.?[]^{|}'')"

definition lineTerminator :: "char \<Rightarrow> bool" where
  "lineTerminator c \<longleftrightarrow> c = CHR 0x0A \<or> c = CHR 0x0D"

fun re_parse :: "string \<Rightarrow> re_term list result" where
  "re_parse [] = Inr []"
| "re_parse (c # cs) =
     (if c = CHR ''^'' then bind_result (re_parse cs) (\<lambda>ts. Inr (ReStart # ts))
      else if c = CHR ''$'' then bind_result (re_parse cs) (\<lambda>ts. Inr (ReEnd # ts))
      else if c = CHR 0x5C then
        (case cs of
           [] \<Rightarrow> Inl (IllegalState ''Invalid regular expression'')
         | d # ds \<Rightarrow>
             if \<not> special_char d then Inl (IllegalState ''Invalid regular expression'')
             else (case ds of
                 [] \<Rightarrow> Inr [ReAtom (ReChar d)]
               | e # es \<Rightarrow>
                   if e = CHR ''*'' then bind_result (re_parse es) (\<lambda>ts. Inr (ReStar (ReChar d) # ts))
                   else bind_result (re_parse ds) (\<lambda>ts. Inr (ReAtom (ReChar d) # ts))))
      else if special_char c \<and> c \<noteq> CHR ''.'' then Inl (IllegalState ''Invalid regular expression'')
      else
        (let a = (if c = CHR ''.'' then ReDot else ReChar c) in
         case cs of
           [] \<Rightarrow> Inr [ReAtom a]
         | e # es \<Rightarrow>
             if e = CHR ''*'' then bind_result (re_parse es) (\<lambda>ts. Inr (ReStar a # ts))
             else bind_result (re_parse cs) (\<lambda>ts. Inr (ReAtom a # ts))))"

text \<open>
  How the \<open>i\<close> flag compares characters: by their upper case, if that is one character and does not turn a character that is
  not ASCII into one that is. The upper cases of 181 and 255 are beyond 255.
\<close>

definition canonicalize :: "char \<Rightarrow> nat" where
  "canonicalize c = (let n = char_code c in
     if 97 \<le> n \<and> n \<le> 122 \<or> 224 \<le> n \<and> n \<le> 254 \<and> n \<noteq> 247 then n - 32
     else if n = 181 then 924 else if n = 255 then 376 else n)"

fun atom_matches :: "string \<Rightarrow> re_atom \<Rightarrow> char \<Rightarrow> bool" where
  "atom_matches flags ReDot d \<longleftrightarrow> CHR ''s'' \<in> set flags \<or> \<not> lineTerminator d"
| "atom_matches flags (ReChar c) d \<longleftrightarrow> (if CHR ''i'' \<in> set flags then canonicalize c = canonicalize d else c = d)"

fun re_match :: "string \<Rightarrow> re_term list \<Rightarrow> char option \<Rightarrow> string \<Rightarrow> bool" where
  "re_match flags [] prev s \<longleftrightarrow> True"
| "re_match flags (ReStart # ts) prev s \<longleftrightarrow>
     (case prev of None \<Rightarrow> True | Some c \<Rightarrow> CHR ''m'' \<in> set flags \<and> lineTerminator c) \<and> re_match flags ts prev s"
| "re_match flags (ReEnd # ts) prev s \<longleftrightarrow>
     (case s of [] \<Rightarrow> True | d # _ \<Rightarrow> CHR ''m'' \<in> set flags \<and> lineTerminator d) \<and> re_match flags ts prev s"
| "re_match flags (ReAtom a # ts) prev s \<longleftrightarrow>
     (case s of [] \<Rightarrow> False | d # s' \<Rightarrow> atom_matches flags a d \<and> re_match flags ts (Some d) s')"
| "re_match flags (ReStar a # ts) prev s \<longleftrightarrow>
     re_match flags ts prev s \<or>
     (case s of [] \<Rightarrow> False | d # s' \<Rightarrow> atom_matches flags a d \<and> re_match flags (ReStar a # ts) (Some d) s')"

fun re_search :: "string \<Rightarrow> re_term list \<Rightarrow> char option \<Rightarrow> string \<Rightarrow> bool" where
  "re_search flags ts prev [] \<longleftrightarrow> re_match flags ts prev []"
| "re_search flags ts prev (d # s) \<longleftrightarrow> re_match flags ts prev (d # s) \<or> re_search flags ts (Some d) s"

text \<open>\<open>new RegExp(pattern, flags)\<close>, as the function \<open>test\<close> of the result.\<close>

definition new_RegExp :: "string \<Rightarrow> string \<Rightarrow> (string \<Rightarrow> bool) result" where
  "new_RegExp pattern flags = bind_result (re_parse pattern) (\<lambda>ts. Inr (re_search flags ts None))"

subsection \<open>LIKE patterns\<close>

definition append_char :: "string \<Rightarrow> char \<Rightarrow> string" where
  "append_char pattern c = pattern @ (if special_char c then [CHR 0x5C] else []) @ [c]"

fun pattern_loop :: "string \<Rightarrow> string \<Rightarrow> string result" where
  "pattern_loop [] pattern = Inr pattern"
| "pattern_loop (c # cs) pattern =
     (if c = CHR ''%'' then pattern_loop cs (pattern @ ''.*'')
      else if c = CHR ''_'' then pattern_loop cs (pattern @ ''.'')
      else if c = CHR 0x5C then
        (case cs of
           [] \<Rightarrow> Inl (IllegalState ''LIKE pattern must not end with escape character'')
         | d # ds \<Rightarrow> pattern_loop ds (append_char pattern d))
      else pattern_loop cs (append_char pattern c))"

definition patternToRegExp :: "string \<Rightarrow> string \<Rightarrow> (string \<Rightarrow> bool) result" where
  "patternToRegExp source flags =
     bind_result (pattern_loop source ''^'') (\<lambda>pattern. new_RegExp (pattern @ ''$'') (flags @ ''s''))"

text \<open>\<open>toLowerCase\<close>.\<close>

definition lower_char :: "char \<Rightarrow> char" where
  "lower_char c = (let n = char_code c in
     if 65 \<le> n \<and> n \<le> 90 \<or> 192 \<le> n \<and> n \<le> 222 \<and> n \<noteq> 215 then char_of (n + 32) else c)"

definition getLikeOp :: "string \<Rightarrow> bool \<Rightarrow> (string \<Rightarrow> bool) result" where
  "getLikeOp pattern i =
     (if \<not> list_ex (\<lambda>c. c = CHR ''_'' \<or> c = CHR ''%'' \<or> c = CHR 0x5C) pattern then
        Inr (if i then (let rhsLower = map lower_char pattern in (\<lambda>lhs. map lower_char lhs = rhsLower))
             else (\<lambda>lhs. lhs = pattern))
      else patternToRegExp pattern (if i then ''i'' else []))"

definition getLikePredicate ::
    "(literal_value \<Rightarrow> string) \<Rightarrow> literal_value \<Rightarrow> bool \<Rightarrow> (js_value \<Rightarrow> bool result) result" where
  "getLikePredicate str pattern i =
     bind_result (getLikeOp (str pattern) i) (\<lambda>like_op.
       Inr (\<lambda>lhs. case lhs of JStr s \<Rightarrow> Inr (like_op s) | _ \<Rightarrow> Inl (AssertionFailed ''string'')))"

subsection \<open>Predicates of conditions\<close>

definition is_nullish :: "js_value \<Rightarrow> bool" where
  "is_nullish v \<longleftrightarrow> v = JNull \<or> v = JUndefined"

text \<open>\<open>lhs === rhs\<close>: an array literal is a fresh object, equal to no value of a row.\<close>

fun literal_is :: "js_value \<Rightarrow> literal_value \<Rightarrow> bool" where
  "literal_is lhs (LScalar v) \<longleftrightarrow> lhs = v"
| "literal_is lhs (LArray _) \<longleftrightarrow> False"

fun compare_literal :: "utf8 \<Rightarrow> js_value \<Rightarrow> literal_value \<Rightarrow> number result" where
  "compare_literal u8 lhs (LScalar v) = compareValues u8 lhs v"
| "compare_literal u8 lhs (LArray _) =
     (if is_nullish lhs then Inr (-1) else if js_typeof lhs = TyObject then Inl UnsupportedType
      else Inl TypeMismatch)"

definition not_result :: "bool result \<Rightarrow> bool result" where
  "not_result r = bind_result r (\<lambda>b. Inr (\<not> b))"

definition array_of :: "literal_value \<Rightarrow> js_value list result" where
  "array_of v = (case v of LArray vs \<Rightarrow> Inr vs | _ \<Rightarrow> Inl (AssertionFailed ''Expected rhs to be an array''))"

fun createPredicateImpl ::
    "utf8 \<Rightarrow> (literal_value \<Rightarrow> string) \<Rightarrow> literal_value \<Rightarrow> simple_op \<Rightarrow> (js_value \<Rightarrow> bool result) result" where
  "createPredicateImpl u8 str rhs OpEq = Inr (\<lambda>lhs. Inr (literal_is lhs rhs))"
| "createPredicateImpl u8 str rhs OpNe = Inr (\<lambda>lhs. Inr (\<not> literal_is lhs rhs))"
| "createPredicateImpl u8 str rhs OpLt =
     Inr (\<lambda>lhs. bind_result (compare_literal u8 lhs rhs) (\<lambda>c. Inr (c < 0)))"
| "createPredicateImpl u8 str rhs OpLe =
     Inr (\<lambda>lhs. bind_result (compare_literal u8 lhs rhs) (\<lambda>c. Inr (c \<le> 0)))"
| "createPredicateImpl u8 str rhs OpGt =
     Inr (\<lambda>lhs. bind_result (compare_literal u8 lhs rhs) (\<lambda>c. Inr (0 < c)))"
| "createPredicateImpl u8 str rhs OpGe =
     Inr (\<lambda>lhs. bind_result (compare_literal u8 lhs rhs) (\<lambda>c. Inr (0 \<le> c)))"
| "createPredicateImpl u8 str rhs OpLike = getLikePredicate str rhs False"
| "createPredicateImpl u8 str rhs OpNotLike =
     bind_result (getLikePredicate str rhs False) (\<lambda>f. Inr (\<lambda>lhs. not_result (f lhs)))"
| "createPredicateImpl u8 str rhs OpILike = getLikePredicate str rhs True"
| "createPredicateImpl u8 str rhs OpNotILike =
     bind_result (getLikePredicate str rhs True) (\<lambda>f. Inr (\<lambda>lhs. not_result (f lhs)))"
| "createPredicateImpl u8 str rhs OpIn = bind_result (array_of rhs) (\<lambda>vs. Inr (\<lambda>lhs. Inr (lhs \<in> set vs)))"
| "createPredicateImpl u8 str rhs OpNotIn =
     bind_result (array_of rhs) (\<lambda>vs. Inr (\<lambda>lhs. Inr (lhs \<notin> set vs)))"
| "createPredicateImpl u8 str rhs op = Inl (IllegalState ''Unexpected operator'')"

definition createIsPredicate :: "literal_value \<Rightarrow> bool \<Rightarrow> js_value \<Rightarrow> bool" where
  "createIsPredicate rhs is_not lhs = (if is_not then \<not> literal_is lhs rhs else literal_is lhs rhs)"

text \<open>The short-circuit loops over the members of a conjunction and of a disjunction.\<close>

fun all_predicates :: "(row \<Rightarrow> bool result) list \<Rightarrow> row \<Rightarrow> bool result" where
  "all_predicates [] row = Inr True"
| "all_predicates (p # ps) row =
     bind_result (p row) (\<lambda>b. if \<not> b then Inr False else all_predicates ps row)"

fun any_predicate :: "(row \<Rightarrow> bool result) list \<Rightarrow> row \<Rightarrow> bool result" where
  "any_predicate [] row = Inr False"
| "any_predicate (p # ps) row =
     bind_result (p row) (\<lambda>b. if b then Inr True else any_predicate ps row)"

definition literal_nullish :: "literal_value \<Rightarrow> bool" where
  "literal_nullish v \<longleftrightarrow> (case v of LScalar w \<Rightarrow> is_nullish w | LArray _ \<Rightarrow> False)"

text \<open>A left-hand literal: \<open>String\<close>, number or boolean; an array is an object no row value equals.\<close>

definition literal_js :: "literal_value \<Rightarrow> js_value" where
  "literal_js v = (case v of LScalar w \<Rightarrow> w | LArray _ \<Rightarrow> JRef 0)"

definition createSimplePredicate ::
    "utf8 \<Rightarrow> (literal_value \<Rightarrow> string) \<Rightarrow> simple_op \<Rightarrow> value_position \<Rightarrow> value_position \<Rightarrow>
     (row \<Rightarrow> bool result) result" where
  "createSimplePredicate u8 str op left right =
     (case right of
        PLiteral rhs \<Rightarrow>
          (case left of
             PStatic _ _ \<Rightarrow> Inl (AssertionFailed ''static'')
           | _ \<Rightarrow>
             if op = OpIs \<or> op = OpIsNot then
               (case left of
                  PLiteral v \<Rightarrow>
                    (let r = createIsPredicate rhs (op = OpIsNot) (literal_js v) in Inr (\<lambda>row. Inr r))
                | PColumn name \<Rightarrow>
                    Inr (\<lambda>row. Inr (createIsPredicate rhs (op = OpIsNot) (get_field row name)))
                | PStatic _ _ \<Rightarrow> Inl (AssertionFailed ''static''))
             else if literal_nullish rhs then Inr (\<lambda>row. Inr False)
             else bind_result (createPredicateImpl u8 str rhs op) (\<lambda>impl.
               (case left of
                  PLiteral v \<Rightarrow>
                    if literal_nullish v then Inr (\<lambda>row. Inr False)
                    else bind_result (impl (literal_js v)) (\<lambda>r. Inr (\<lambda>row. Inr r))
                | PColumn name \<Rightarrow>
                    Inr (\<lambda>row. let lhs = get_field row name in
                      if is_nullish lhs then Inr False else impl lhs)
                | PStatic _ _ \<Rightarrow> Inl (AssertionFailed ''static''))))
      | _ \<Rightarrow> Inl (AssertionFailed ''static''))"

fun createPredicate ::
    "utf8 \<Rightarrow> (literal_value \<Rightarrow> string) \<Rightarrow> condition \<Rightarrow> (row \<Rightarrow> bool result) result" where
  "createPredicate u8 str (And cs) =
     bind_result (traverse (createPredicate u8 str) cs) (\<lambda>ps. Inr (all_predicates ps))"
| "createPredicate u8 str (Or cs) =
     bind_result (traverse (createPredicate u8 str) cs) (\<lambda>ps. Inr (any_predicate ps))"
| "createPredicate u8 str (Simple op left right) = createSimplePredicate u8 str op left right"
| "createPredicate u8 str (Correlated _ _ _ _) = Inl (IllegalState ''subquery'')"

text \<open>\<open>transformFilters\<close>: the loop over the members returns early when a disjunct is lost.\<close>

fun transformFilters :: "condition option \<Rightarrow> condition option \<times> bool" 
  and transform_members ::
    "bool \<Rightarrow> condition list \<Rightarrow> condition list \<Rightarrow> bool \<Rightarrow> (condition list \<times> bool) option" where
  "transformFilters None = (None, False)"
| "transformFilters (Some (Simple op l r)) = (Some (Simple op l r), False)"
| "transformFilters (Some (Correlated _ _ _ _)) = (None, True)"
| "transformFilters (Some (And cs)) =
     (case transform_members False cs [] False of
        None \<Rightarrow> (None, True)
      | Some (ds, removed) \<Rightarrow> (Some (simplifyCondition (And ds)), removed))"
| "transformFilters (Some (Or cs)) =
     (case transform_members True cs [] False of
        None \<Rightarrow> (None, True)
      | Some (ds, removed) \<Rightarrow> (Some (simplifyCondition (Or ds)), removed))"
| "transform_members is_or [] acc removed = Some (acc, removed)"
| "transform_members is_or (c # cs) acc removed =
     (case transformFilters (Some c) of (f, rm) \<Rightarrow>
        if f = None \<and> is_or then None
        else transform_members is_or cs (acc @ (case f of None \<Rightarrow> [] | Some d \<Rightarrow> [d])) (removed \<or> rm))"

end
