(* ===== verification/RowPredicateProps.thy ===== *)
theory RowPredicateProps
  imports RowPredicate
begin

section \<open>Correctness of row predicates\<close>

subsection \<open>LIKE\<close>

text \<open>
  SQL's \<open>LIKE\<close> read off the pattern: \<open>%\<close> matches any run of characters, \<open>_\<close> any one character, a
  backslash makes the next character literal, and a pattern that ends in a backslash is malformed.
\<close>

fun like_wf :: "string \<Rightarrow> bool" where
  "like_wf [] \<longleftrightarrow> True"
| "like_wf (c # cs) \<longleftrightarrow> (if c = CHR 0x5C then (case cs of [] \<Rightarrow> False | d # ds \<Rightarrow> like_wf ds) else like_wf cs)"

fun like_spec :: "(char \<Rightarrow> char) \<Rightarrow> string \<Rightarrow> string \<Rightarrow> bool" where
  "like_spec cf [] s \<longleftrightarrow> s = []"
| "like_spec cf (c # cs) s \<longleftrightarrow>
     (if c = CHR ''%'' then list_ex (\<lambda>n. like_spec cf cs (drop n s)) [0..<Suc (length s)]
      else if c = CHR ''_'' then s \<noteq> [] \<and> like_spec cf cs (tl s)
      else if c = CHR 0x5C then
        (case cs of [] \<Rightarrow> False | d # ds \<Rightarrow> s \<noteq> [] \<and> cf d = cf (hd s) \<and> like_spec cf ds (tl s))
      else s \<noteq> [] \<and> cf c = cf (hd s) \<and> like_spec cf cs (tl s))"

text \<open>What the loop appends for a pattern, and what parsing that gives.\<close>

fun pieces :: "string \<Rightarrow> string" where
  "pieces [] = []"
| "pieces (c # cs) =
     (if c = CHR ''%'' then ''.*'' @ pieces cs
      else if c = CHR ''_'' then ''.'' @ pieces cs
      else if c = CHR 0x5C then (case cs of [] \<Rightarrow> [] | d # ds \<Rightarrow> append_char [] d @ pieces ds)
      else append_char [] c @ pieces cs)"

fun like_terms :: "string \<Rightarrow> re_term list" where
  "like_terms [] = []"
| "like_terms (c # cs) =
     (if c = CHR ''%'' then ReStar ReDot # like_terms cs
      else if c = CHR ''_'' then ReAtom ReDot # like_terms cs
      else if c = CHR 0x5C then (case cs of [] \<Rightarrow> [] | d # ds \<Rightarrow> ReAtom (ReChar d) # like_terms ds)
      else ReAtom (ReChar c) # like_terms cs)"

lemma append_char_eq: "append_char pattern c = pattern @ append_char [] c"
  by (simp add: append_char_def)

lemma pattern_loop_eq:
  "pattern_loop p acc = (if like_wf p then Inr (acc @ pieces p)
     else Inl (IllegalState ''LIKE pattern must not end with escape character''))"
proof (induction p acc rule: pattern_loop.induct)
  case (2 c cs acc)
  then show ?case
    by (cases cs) (auto simp: append_char_eq [of acc])
qed simp

lemma pieces_head: "\<exists>e es. pieces p @ ''$'' = e # es \<and> e \<noteq> CHR ''*''"
proof (induction p rule: pieces.induct)
  case (2 c cs)
  have "\<exists>e es. append_char [] d @ xs = e # es \<and> e \<noteq> CHR ''*''" for d xs
    by (auto simp: append_char_def special_char_def)
  then show ?case by (auto split: list.split)
qed simp

lemma re_parse_char:
  assumes "r = e # es" "e \<noteq> CHR ''*''"
  shows "re_parse (append_char [] c @ r) = bind_result (re_parse r) (\<lambda>ts. Inr (ReAtom (ReChar c) # ts))"
proof (cases "special_char c")
  case True
  then show ?thesis by (simp add: append_char_def assms)
next
  case False
  then have "c \<noteq> CHR ''^''" "c \<noteq> CHR ''$''" "c \<noteq> CHR 0x5C" "c \<noteq> CHR ''.''" by (auto simp: special_char_def)
  with False show ?thesis by (simp add: append_char_def assms Let_def)
qed

lemma re_parse_dot:
  assumes "r = e # es" "e \<noteq> CHR ''*''"
  shows "re_parse (''.'' @ r) = bind_result (re_parse r) (\<lambda>ts. Inr (ReAtom ReDot # ts))"
    and "re_parse (''.*'' @ r) = bind_result (re_parse r) (\<lambda>ts. Inr (ReStar ReDot # ts))"
  by (simp_all add: assms Let_def)

lemma re_parse_pieces: "like_wf p \<Longrightarrow> re_parse (pieces p @ ''$'') = Inr (like_terms p @ [ReEnd])"
proof (induction p rule: pieces.induct)
  case (2 c cs)
  have char: "re_parse (append_char [] d @ pieces ds @ ''$'') = Inr (ReAtom (ReChar d) # like_terms ds @ [ReEnd])"
    if "re_parse (pieces ds @ ''$'') = Inr (like_terms ds @ [ReEnd])" for d ds
  proof -
    from pieces_head [of ds] obtain e es where "pieces ds @ ''$'' = e # es" "e \<noteq> CHR ''*''" by blast
    from re_parse_char [OF this, of d] that show ?thesis by simp
  qed
  have dot: "re_parse (''.'' @ pieces cs @ ''$'') = Inr (ReAtom ReDot # like_terms cs @ [ReEnd])"
    "re_parse (''.*'' @ pieces cs @ ''$'') = Inr (ReStar ReDot # like_terms cs @ [ReEnd])"
    if "re_parse (pieces cs @ ''$'') = Inr (like_terms cs @ [ReEnd])"
  proof -
    from pieces_head [of cs] obtain e es where "pieces cs @ ''$'' = e # es" "e \<noteq> CHR ''*''" by blast
    from re_parse_dot [OF this] that
    show "re_parse (''.'' @ pieces cs @ ''$'') = Inr (ReAtom ReDot # like_terms cs @ [ReEnd])"
      "re_parse (''.*'' @ pieces cs @ ''$'') = Inr (ReStar ReDot # like_terms cs @ [ReEnd])" by simp_all
  qed
  consider "c = CHR ''%''" | "c = CHR ''_''" | "c = CHR 0x5C"
    | "c \<noteq> CHR ''%''" "c \<noteq> CHR ''_''" "c \<noteq> CHR 0x5C" by blast
  then show ?case
  proof cases
    case 1
    with 2 have "re_parse (pieces cs @ ''$'') = Inr (like_terms cs @ [ReEnd])" by simp
    from dot(2) [OF this] 1 show ?thesis by simp
  next
    case 2
    with "2.IH"(2) "2.prems" have "re_parse (pieces cs @ ''$'') = Inr (like_terms cs @ [ReEnd])" by simp
    from dot(1) [OF this] 2 show ?thesis by simp
  next
    case 3
    with "2.prems" obtain d ds where ds: "cs = d # ds" "like_wf ds" by (cases cs) auto
    with "2.IH"(3) [of d ds] 3 have "re_parse (pieces ds @ ''$'') = Inr (like_terms ds @ [ReEnd])" by simp
    from char [OF this, of d] 3 ds show ?thesis by simp
  next
    case 4
    with "2.IH"(4) "2.prems" have "re_parse (pieces cs @ ''$'') = Inr (like_terms cs @ [ReEnd])" by simp
    from char [OF this, of c] 4 show ?thesis by simp
  qed
qed simp

text \<open>The \<open>i\<close> flag, which goes by upper cases, and \<open>toLowerCase\<close> identify the same characters.\<close>

definition upper_letter :: "nat \<Rightarrow> bool" where "upper_letter n \<longleftrightarrow> 65 \<le> n \<and> n \<le> 90 \<or> 192 \<le> n \<and> n \<le> 222 \<and> n \<noteq> 215"
lemma upper_letter_32: "upper_letter n \<Longrightarrow> \<not> upper_letter (n + 32)" unfolding upper_letter_def by presburger
lemma lower_case_letter: "97 \<le> n \<and> n \<le> 122 \<or> 224 \<le> n \<and> n \<le> 254 \<and> n \<noteq> 247 \<longleftrightarrow> 32 \<le> n \<and> upper_letter (n - 32)" for n :: nat
  unfolding upper_letter_def by presburger
lemma upper_letter_bounds: "upper_letter n \<Longrightarrow> n < 223 \<and> n \<noteq> 181" unfolding upper_letter_def by presburger
lemma lower_same: assumes "lower = (\<lambda>n. if upper_letter n then n + 32 else n)"
  shows "lower m = lower n \<longleftrightarrow> m = n \<or> upper_letter m \<and> n = m + 32 \<or> upper_letter n \<and> m = n + 32"
  using upper_letter_32 [of m] upper_letter_32 [of n] unfolding assms by (cases "upper_letter m"; cases "upper_letter n") auto
lemma upper_same: assumes "upper = (\<lambda>n. if 32 \<le> n \<and> upper_letter (n - 32) then n - 32 else if n = 181 then 924 else if n = 255 then 376 else n)"
   "m < 256" "n < 256"
  shows "upper m = upper n \<longleftrightarrow> m = n \<or> upper_letter m \<and> n = m + 32 \<or> upper_letter n \<and> m = n + 32"
proof -
  have no: "\<not> upper_letter (149::nat)" "\<not> upper_letter (223::nat)" by (simp_all add: upper_letter_def)
  have k: "32 \<le> m \<and> upper_letter (m - 32) \<longleftrightarrow> (\<exists>k. upper_letter k \<and> m = k + 32)" for m :: nat by (metis le_add2 le_add_diff_inverse2 add_diff_cancel_right')
  show ?thesis
  proof (cases "\<exists>k. upper_letter k \<and> m = k + 32")
    case True
    then obtain k where m: "upper_letter k" "m = k + 32" by blast
    then have um: "upper m = k" by (simp add: assms(1))
    have nm: "\<not> upper_letter m" using upper_letter_32 m by simp
    show ?thesis
    proof (cases "\<exists>k. upper_letter k \<and> n = k + 32")
      case True
      then obtain l where n: "upper_letter l" "n = l + 32" by blast
      then have un: "upper n = l" by (simp add: assms(1))
      have nn: "\<not> upper_letter n" using upper_letter_32 n by simp
      show ?thesis using m n um un nm nn by auto
    next
      case False
      then have "\<not> (32 \<le> n \<and> upper_letter (n - 32))" using k [of n] by blast
      then have un: "upper n = (if n = 181 then 924 else if n = 255 then 376 else n)" by (simp only: assms(1) if_not_P if_False)
      show ?thesis using False m um un nm upper_letter_bounds [of k] upper_letter_bounds [of n] by auto
    qed
  next
    case False
    then have "\<not> (32 \<le> m \<and> upper_letter (m - 32))" using k [of m] by blast
    then have um: "upper m = (if m = 181 then 924 else if m = 255 then 376 else m)" by (simp only: assms(1) if_not_P if_False)
    show ?thesis
    proof (cases "\<exists>k. upper_letter k \<and> n = k + 32")
      case True
      then obtain l where n: "upper_letter l" "n = l + 32" by blast
      then have un: "upper n = l" by (simp add: assms(1))
      have nn: "\<not> upper_letter n" using upper_letter_32 n by simp
      show ?thesis using False n um un nn upper_letter_bounds [of l] upper_letter_bounds [of m] by auto
    next
      case F2: False
      then have "\<not> (32 \<le> n \<and> upper_letter (n - 32))" using k [of n] by blast
      then have un: "upper n = (if n = 181 then 924 else if n = 255 then 376 else n)" by (simp only: assms(1) if_not_P if_False)
      show ?thesis using False F2 um un assms(2,3) by auto
    qed
  qed
qed
lemma canonicalize_lower: "canonicalize c = canonicalize d \<longleftrightarrow> lower_char c = lower_char d"
proof -
  define lower :: "nat \<Rightarrow> nat" where "lower = (\<lambda>n. if upper_letter n then n + 32 else n)"
  define upper :: "nat \<Rightarrow> nat" where "upper = (\<lambda>n. if 32 \<le> n \<and> upper_letter (n - 32) then n - 32
     else if n = 181 then 924 else if n = 255 then 376 else n)"
  have lt: "char_code x < 256" for x by (simp add: char_code_def)
  have low: "char_code (lower_char x) = lower (char_code x)" for x
    using upper_letter_bounds [of "char_code x"]
    by (simp add: lower_char_def lower_def Let_def upper_letter_def [symmetric]) (auto simp: char_code_def of_char_of)
  have up: "canonicalize x = upper (char_code x)" for x
    by (simp add: canonicalize_def upper_def Let_def lower_case_letter)
  have "canonicalize c = canonicalize d \<longleftrightarrow> lower (char_code c) = lower (char_code d)"
    unfolding up lower_same [OF lower_def] by (rule upper_same [OF upper_def lt lt])
  then show ?thesis by (simp flip: low)
qed

definition like_fold :: "bool \<Rightarrow> char \<Rightarrow> char" where
  "like_fold i = (if i then lower_char else id)"

definition like_flags :: "bool \<Rightarrow> string" where
  "like_flags i = (if i then ''i'' else []) @ ''s''"

lemma like_flags_atoms:
  "atom_matches (like_flags i) ReDot d" "atom_matches (like_flags i) (ReChar c) d \<longleftrightarrow> like_fold i c = like_fold i d"
  "CHR ''m'' \<notin> set (like_flags i)"
  by (simp_all add: like_flags_def like_fold_def canonicalize_lower)

lemma re_match_star:
  assumes "\<And>prev s. re_match (like_flags i) ts prev s = F s"
  shows "re_match (like_flags i) (ReStar ReDot # ts) prev s \<longleftrightarrow> (\<exists>n \<le> length s. F (drop n s))"
proof (induction s arbitrary: prev)
  case (Cons c s)
  have "(\<exists>n \<le> length (c # s). F (drop n (c # s))) \<longleftrightarrow> F (c # s) \<or> (\<exists>n \<le> length s. F (drop n s))"
    by (metis (no_types, lifting) Suc_le_mono drop0 drop_Suc_Cons le0 length_Cons not0_implies_Suc)
  with Cons show ?case by (simp add: assms like_flags_atoms(1) del: atom_matches.simps)
qed (simp add: assms)

lemma list_ex_upto: "list_ex P [0..<Suc n] \<longleftrightarrow> (\<exists>k \<le> n. P k)"
proof -
  have "k \<in> set [0..<Suc n] \<longleftrightarrow> k \<le> n" for k by (auto simp del: upt_Suc)
  then show ?thesis unfolding list_ex_iff by blast
qed

lemma like_terms_match:
  "like_wf p \<Longrightarrow> re_match (like_flags i) (like_terms p @ [ReEnd]) prev s \<longleftrightarrow> like_spec (like_fold i) p s"
proof (induction p arbitrary: prev s rule: like_terms.induct)
  case 1
  then show ?case by (cases s) (simp_all add: like_flags_atoms(3))
next
  case (2 c cs)
  have char: "re_match (like_flags i) (ReAtom (ReChar d) # ts) prev s \<longleftrightarrow>
      s \<noteq> [] \<and> like_fold i d = like_fold i (hd s) \<and> re_match (like_flags i) ts (Some (hd s)) (tl s)" for d ts
    by (cases s) (simp_all add: like_flags_atoms(2) del: atom_matches.simps)
  have dot: "re_match (like_flags i) (ReAtom ReDot # ts) prev s \<longleftrightarrow> s \<noteq> [] \<and> re_match (like_flags i) ts (Some (hd s)) (tl s)" for ts
    by (cases s) (simp_all add: like_flags_atoms(1) del: atom_matches.simps)
  consider "c = CHR ''%''" | "c = CHR ''_''" | "c = CHR 0x5C"
    | "c \<noteq> CHR ''%''" "c \<noteq> CHR ''_''" "c \<noteq> CHR 0x5C" by blast
  then show ?case
  proof cases
    case 1
    with "2.IH"(1) "2.prems" have "re_match (like_flags i) (like_terms cs @ [ReEnd]) prev s = like_spec (like_fold i) cs s" for prev s
      by simp
    from re_match_star [OF this, of prev s] 1 show ?thesis
      by (simp add: list_ex_upto del: re_match.simps upt_Suc)
  next
    case 2
    with "2.IH"(2) "2.prems" show ?thesis by (simp add: dot del: re_match.simps)
  next
    case 3
    with "2.prems" obtain d ds where ds: "cs = d # ds" "like_wf ds" by (cases cs) auto
    with "2.IH"(3) [of d ds] 3 show ?thesis by (simp add: char del: re_match.simps)
  next
    case 4
    with "2.IH"(4) "2.prems" show ?thesis by (simp add: char del: re_match.simps)
  qed
qed

lemma re_search_anchored:
  assumes "CHR ''m'' \<notin> set flags"
  shows "re_search flags (ReStart # ts) None s = re_match flags ts None s"
proof -
  have "\<not> re_search flags (ReStart # ts) (Some c) s" for c s
    by (induction s arbitrary: c) (simp_all add: assms)
  then show ?thesis by (cases s) simp_all
qed

lemma patternToRegExp_eq:
  "patternToRegExp p (if i then ''i'' else []) =
     (if like_wf p then Inr (like_spec (like_fold i) p)
      else Inl (IllegalState ''LIKE pattern must not end with escape character''))"
proof (cases "like_wf p")
  case True
  have "re_parse (''^'' @ pieces p @ ''$'') = Inr (ReStart # like_terms p @ [ReEnd])"
    using re_parse_pieces [OF True] by simp
  moreover have "re_search (like_flags i) (ReStart # like_terms p @ [ReEnd]) None = like_spec (like_fold i) p"
    using re_search_anchored [OF like_flags_atoms(3)] like_terms_match [OF True] by (simp add: fun_eq_iff)
  ultimately show ?thesis
    using True by (simp add: patternToRegExp_def pattern_loop_eq new_RegExp_def like_flags_def [symmetric])
qed (simp add: patternToRegExp_def pattern_loop_eq)

lemma like_plain:
  "\<not> list_ex (\<lambda>c. c = CHR ''_'' \<or> c = CHR ''%'' \<or> c = CHR 0x5C) p \<Longrightarrow>
   like_wf p \<and> (\<forall>s. like_spec cf p s \<longleftrightarrow> map cf s = map cf p)"
proof (induction p)
  case (Cons c p)
  then have "like_wf (c # p)" and IH: "like_spec cf p s \<longleftrightarrow> map cf s = map cf p" for s by auto
  moreover have "like_spec cf (c # p) s \<longleftrightarrow> map cf s = map cf (c # p)" for s
    using Cons.prems by (cases s) (auto simp: IH)
  ultimately show ?case by blast
qed simp

text \<open>C33: The predicate built for \<open>LIKE\<close> and \<open>ILIKE\<close>, whether it goes through the regular expression (its source built with
  the special characters escaped, parsed, searched for and matched under the flags) or the
  shortcut for patterns without wildcards, decides SQL's \<open>LIKE\<close>, for \<open>ILIKE\<close> up to the case of letters, accented ones
  included (code units below 256); building it throws exactly on a
  pattern that ends in an escape, and running it exactly on a value that is not a string.\<close>

theorem getLikePredicate_correct:
  "getLikePredicate str pattern i =
     (if like_wf (str pattern)
      then Inr (\<lambda>lhs. case lhs of
          JStr s \<Rightarrow> Inr (like_spec (like_fold i) (str pattern) s) | _ \<Rightarrow> Inl (AssertionFailed ''string''))
      else Inl (IllegalState ''LIKE pattern must not end with escape character''))"
proof -
  have "getLikeOp (str pattern) i = (if like_wf (str pattern) then Inr (like_spec (like_fold i) (str pattern))
      else Inl (IllegalState ''LIKE pattern must not end with escape character''))"
  proof (cases "list_ex (\<lambda>c. c = CHR ''_'' \<or> c = CHR ''%'' \<or> c = CHR 0x5C) (str pattern)")
    case True
    then show ?thesis by (simp only: getLikeOp_def patternToRegExp_eq simp_thms if_False)
  next
    case False
    with like_plain [OF False, of "like_fold i"] show ?thesis
      by (auto simp: getLikeOp_def like_fold_def fun_eq_iff)
  qed
  then show ?thesis by (simp add: getLikePredicate_def)
qed

subsection \<open>Dropping subqueries from a filter\<close>

fun no_subquery :: "condition \<Rightarrow> bool" where
  "no_subquery (And cs) \<longleftrightarrow> list_all no_subquery cs"
| "no_subquery (Or cs) \<longleftrightarrow> list_all no_subquery cs"
| "no_subquery (Correlated _ _ _ _) \<longleftrightarrow> False"
| "no_subquery (Simple _ _ _) \<longleftrightarrow> True"

lemma no_subquery_flatten_conds:
  "list_all no_subquery cs \<Longrightarrow> list_all no_subquery (flatten_conds ty cs)"
proof (induction cs)
  case (Cons c cs)
  then show ?case by (cases c) auto
qed simp

lemma no_subquery_simplify: "no_subquery c \<Longrightarrow> no_subquery (simplifyCondition c)"
proof (induction c rule: simplifyCondition.induct
    [case_names and_one or_one and_nil and_more or_nil or_more simple correlated])
  case (and_more c d cs)
  then have "list_all no_subquery (map simplifyCondition (c # d # cs))" by (auto simp: list_all_iff)
  from no_subquery_flatten_conds [OF this, of cond_TRUE] show ?case
    by (simp add: Let_def cond_FALSE_def del: flatten_conds_simps)
next
  case (or_more c d cs)
  then have "list_all no_subquery (map simplifyCondition (c # d # cs))" by (auto simp: list_all_iff)
  from no_subquery_flatten_conds [OF this, of cond_FALSE] show ?case
    by (simp add: Let_def cond_TRUE_def del: flatten_conds_simps)
qed (auto simp: Let_def cond_FALSE_def cond_TRUE_def)

definition transformed :: "condition \<Rightarrow> condition option" where
  "transformed c = fst (transformFilters (Some c))"

definition subqueries_removed :: "condition \<Rightarrow> bool" where
  "subqueries_removed c = snd (transformFilters (Some c))"

lemma transform_members_eq:
  "transform_members is_or cs acc removed =
     (if is_or \<and> list_ex (\<lambda>c. transformed c = None) cs then None
      else Some (acc @ filterUndefined (map transformed cs), removed \<or> list_ex subqueries_removed cs))"
proof (induction cs arbitrary: acc removed)
  case (Cons c cs)
  obtain f rm where f: "transformFilters (Some c) = (f, rm)" by (cases "transformFilters (Some c)")
  then have "transformed c = f" "subqueries_removed c = rm"
    by (simp_all add: transformed_def subqueries_removed_def)
  with f Cons.IH show ?case by (cases f; cases is_or) auto
qed (simp add: filterUndefined_def map_filter_def)

text \<open>What the transformation of one condition guarantees.\<close>

definition weakens :: "condition \<Rightarrow> bool" where
  "weakens c \<longleftrightarrow> pred_option no_subquery (transformed c) \<and>
     (\<forall>atom. eval_cond atom c \<longrightarrow> eval_where atom (transformed c)) \<and>
     (\<not> subqueries_removed c \<longrightarrow>
        transformed c \<noteq> None \<and> (\<forall>atom. eval_where atom (transformed c) = eval_cond atom c))"

lemma weakens_members:
  assumes "\<And>c. c \<in> set cs \<Longrightarrow> weakens c"
  shows "list_all no_subquery (filterUndefined (map transformed cs))"
    and "list_all (eval_cond atom) cs \<Longrightarrow> list_all (eval_cond atom) (filterUndefined (map transformed cs))"
    and "\<not> list_ex (\<lambda>c. transformed c = None) cs \<Longrightarrow> list_ex (eval_cond atom) cs \<Longrightarrow>
      list_ex (eval_cond atom) (filterUndefined (map transformed cs))"
    and "\<not> list_ex subqueries_removed cs \<Longrightarrow> \<not> list_ex (\<lambda>c. transformed c = None) cs \<and>
      list_all (eval_cond atom) (filterUndefined (map transformed cs)) = list_all (eval_cond atom) cs \<and>
      list_ex (eval_cond atom) (filterUndefined (map transformed cs)) = list_ex (eval_cond atom) cs"
proof -
  have each: "weakens c \<Longrightarrow> transformed c = Some d \<Longrightarrow> no_subquery d \<and> (eval_cond atom c \<longrightarrow> eval_cond atom d) \<and>
      (\<not> subqueries_removed c \<longrightarrow> eval_cond atom d = eval_cond atom c)"
    and none: "weakens c \<Longrightarrow> transformed c = None \<Longrightarrow> subqueries_removed c" for c d
    by (auto simp: weakens_def eval_where_def)
  show "list_all no_subquery (filterUndefined (map transformed cs))"
    using assms
  proof (induction cs)
    case (Cons c cs)
    then show ?case using each [of c] by (cases "transformed c") auto
  qed simp
  show "list_all (eval_cond atom) cs \<Longrightarrow> list_all (eval_cond atom) (filterUndefined (map transformed cs))"
    using assms
  proof (induction cs)
    case (Cons c cs)
    then show ?case using each [of c] by (cases "transformed c") auto
  qed simp
  show "\<not> list_ex (\<lambda>c. transformed c = None) cs \<Longrightarrow> list_ex (eval_cond atom) cs \<Longrightarrow>
      list_ex (eval_cond atom) (filterUndefined (map transformed cs))"
    using assms
  proof (induction cs)
    case (Cons c cs)
    then show ?case using each [of c] by (cases "transformed c") auto
  qed simp
  show "\<not> list_ex subqueries_removed cs \<Longrightarrow> \<not> list_ex (\<lambda>c. transformed c = None) cs \<and>
      list_all (eval_cond atom) (filterUndefined (map transformed cs)) = list_all (eval_cond atom) cs \<and>
      list_ex (eval_cond atom) (filterUndefined (map transformed cs)) = list_ex (eval_cond atom) cs"
    using assms
  proof (induction cs)
    case (Cons c cs)
    then show ?case using each [of c] none [of c] by (cases "transformed c") auto
  qed simp
qed

lemma transformed_junction:
  "transformed (And cs) = Some (simplifyCondition (And (filterUndefined (map transformed cs))))"
  "subqueries_removed (And cs) = list_ex subqueries_removed cs"
  "transformed (Or cs) = (if list_ex (\<lambda>c. transformed c = None) cs then None
     else Some (simplifyCondition (Or (filterUndefined (map transformed cs)))))"
  "subqueries_removed (Or cs) \<longleftrightarrow> list_ex (\<lambda>c. transformed c = None) cs \<or> list_ex subqueries_removed cs"
proof -
  have [simp]: "fst (transformFilters (Some c)) = transformed c"
    "snd (transformFilters (Some c)) = subqueries_removed c" for c
    by (simp_all add: transformed_def subqueries_removed_def)
  show "transformed (And cs) = Some (simplifyCondition (And (filterUndefined (map transformed cs))))"
    "subqueries_removed (And cs) = list_ex subqueries_removed cs"
    "transformed (Or cs) = (if list_ex (\<lambda>c. transformed c = None) cs then None
     else Some (simplifyCondition (Or (filterUndefined (map transformed cs)))))"
    "subqueries_removed (Or cs) \<longleftrightarrow> list_ex (\<lambda>c. transformed c = None) cs \<or> list_ex subqueries_removed cs"
    unfolding transformed_def [of "And cs"] transformed_def [of "Or cs"]
      subqueries_removed_def [of "And cs"] subqueries_removed_def [of "Or cs"]
    by (simp_all add: transform_members_eq)
qed

lemma transformFilters_weakens: "weakens c"
proof (induction c rule: measure_induct_rule [of size])
  case (less c)
  show ?case
  proof (cases c)
    case (And cs)
    have "weakens d" if "d \<in> set cs" for d
      using less.IH in_cond_weight [OF that] And by (simp add: size_junction del: condition.size)
    note m = weakens_members [of cs, OF this]
    show ?thesis
      using m by (auto simp: weakens_def And transformed_junction eval_where_def simplifyCondition_eval
          intro!: no_subquery_simplify)
  next
    case (Or cs)
    have "weakens d" if "d \<in> set cs" for d
      using less.IH in_cond_weight [OF that] Or by (simp add: size_junction del: condition.size)
    note m = weakens_members [of cs, OF this]
    show ?thesis
      using m by (auto simp: weakens_def Or transformed_junction eval_where_def simplifyCondition_eval
          intro!: no_subquery_simplify)
  qed (auto simp: weakens_def transformed_def subqueries_removed_def eval_where_def)
qed

text \<open>C34: \<open>transformFilters\<close> returns a condition without subqueries that every row satisfying the
  original satisfies, so a source may filter by it early; and when it reports that nothing was removed,
  it returns a condition satisfied by exactly the same rows.\<close>

theorem transformFilters_correct:
  "case transformFilters (Some c) of
     (None, removed) \<Rightarrow> removed
   | (Some d, removed) \<Rightarrow> no_subquery d \<and>
       {row. eval_cond (atom row) c} \<subseteq> {row. eval_cond (atom row) d} \<and>
       (removed \<or> {row. eval_cond (atom row) c} = {row. eval_cond (atom row) d})"
  using transformFilters_weakens [of c]
  by (cases "transformFilters (Some c)")
    (auto simp: weakens_def transformed_def subqueries_removed_def eval_where_def split: option.splits)

subsection \<open>Negation\<close>

text \<open>Building and running a predicate.\<close>

definition run_predicate ::
    "utf8 \<Rightarrow> (literal_value \<Rightarrow> string) \<Rightarrow> condition \<Rightarrow> row \<Rightarrow> bool result" where
  "run_predicate u8 str c row = bind_result (createPredicate u8 str c) (\<lambda>p. p row)"

text \<open>No comparison in the condition meets a null on this row.\<close>

fun null_free :: "row \<Rightarrow> condition \<Rightarrow> bool" where
  "null_free row (And cs) \<longleftrightarrow> list_all (null_free row) cs"
| "null_free row (Or cs) \<longleftrightarrow> list_all (null_free row) cs"
| "null_free row (Correlated _ _ _ _) \<longleftrightarrow> True"
| "null_free row (Simple op left right) \<longleftrightarrow>
     (case left of PColumn name \<Rightarrow> \<not> is_nullish (get_field row name)
      | PLiteral v \<Rightarrow> \<not> literal_nullish v | PStatic _ _ \<Rightarrow> True) \<and>
     (case right of PLiteral v \<Rightarrow> \<not> literal_nullish v | _ \<Rightarrow> True)"

lemma not_result_simps [simp]:
  "not_result (Inl e) = Inl e" "not_result (Inr b) = Inr (\<not> b)"
  "not_result (not_result r) = r"
  "not_result (bind_result r f) = bind_result r (\<lambda>a. not_result (f a))"
  by (simp_all add: not_result_def) (cases r; simp)+

text \<open>Two predicates, or two failures to build one, that are opposite on a row.\<close>

definition opposite :: "'b \<Rightarrow> ('b \<Rightarrow> bool result) result \<Rightarrow> ('b \<Rightarrow> bool result) result \<Rightarrow> bool" where
  "opposite x p q \<longleftrightarrow>
     (case p of Inl e \<Rightarrow> q = Inl e | Inr f \<Rightarrow> (\<exists>g. q = Inr g \<and> g x = not_result (f x)))"

lemma createPredicateImpl_negate:
  "op \<noteq> OpIs \<Longrightarrow> op \<noteq> OpIsNot \<Longrightarrow>
   opposite lhs (createPredicateImpl u8 str rhs op) (createPredicateImpl u8 str rhs (negateOperator op))"
  by (cases op; cases "array_of rhs"; cases "compare_literal u8 lhs rhs";
      cases "getLikePredicate str rhs False"; cases "getLikePredicate str rhs True")
    (auto simp: opposite_def not_less not_le)

lemma createSimplePredicate_negate:
  assumes "null_free row (Simple op left right)"
  shows "opposite row (createSimplePredicate u8 str op left right)
    (createSimplePredicate u8 str (negateOperator op) left right)"
proof (cases right)
  case (PLiteral rhs)
  show ?thesis
  proof (cases "op = OpIs \<or> op = OpIsNot")
    case True
    then show ?thesis
      by (cases left) (auto simp: createSimplePredicate_def PLiteral opposite_def createIsPredicate_def Let_def)
  next
    case False
    then have neg: "negateOperator op \<noteq> OpIs" "negateOperator op \<noteq> OpIsNot" by (cases op; simp)+
    note impl = createPredicateImpl_negate [of op _ u8 str rhs]
    show ?thesis
    proof (cases left)
      case (PLiteral v)
      then show ?thesis
        using assms False neg impl [of "literal_js v"] \<open>right = _\<close>
        by (auto simp: createSimplePredicate_def opposite_def bind_result_def not_result_def
            split: sum.splits)
    next
      case (PColumn name)
      then show ?thesis
        using assms False neg impl [of "get_field row name"] \<open>right = _\<close>
        by (auto simp: createSimplePredicate_def opposite_def bind_result_def Let_def split: sum.splits)
    next
      case (PStatic x31 x32)
      then show ?thesis using \<open>right = _\<close> by (simp add: createSimplePredicate_def opposite_def)
    qed
  qed
qed (simp_all add: createSimplePredicate_def opposite_def)

lemma opposite_members:
  assumes "\<And>c. c \<in> set cs \<Longrightarrow> opposite row (create c) (create (neg c))"
  shows "case traverse create cs of
      Inl e \<Rightarrow> traverse create (map neg cs) = Inl e
    | Inr ps \<Rightarrow> \<exists>qs. traverse create (map neg cs) = Inr qs \<and>
        any_predicate qs row = not_result (all_predicates ps row) \<and>
        all_predicates qs row = not_result (any_predicate ps row)"
  using assms
proof (induction cs)
  case (Cons c cs)
  have IH: "case traverse create cs of
      Inl e \<Rightarrow> traverse create (map neg cs) = Inl e
    | Inr ps \<Rightarrow> \<exists>qs. traverse create (map neg cs) = Inr qs \<and>
        any_predicate qs row = not_result (all_predicates ps row) \<and>
        all_predicates qs row = not_result (any_predicate ps row)"
    by (rule Cons.IH) (simp add: Cons.prems)
  have c: "opposite row (create c) (create (neg c))" by (simp add: Cons.prems)
  show ?case
  proof (cases "create c")
    case (Inl e)
    with c show ?thesis by (simp add: opposite_def)
  next
    case (Inr p)
    with c obtain q where q: "create (neg c) = Inr q" "q row = not_result (p row)"
      by (auto simp: opposite_def)
    show ?thesis
    proof (cases "traverse create cs")
      case (Inl e)
      with IH Inr q show ?thesis by simp
    next
      case (Inr ps)
      with IH obtain qs where "traverse create (map neg cs) = Inr qs"
        "any_predicate qs row = not_result (all_predicates ps row)"
        "all_predicates qs row = not_result (any_predicate ps row)" by auto
      with \<open>create c = _\<close> Inr q show ?thesis by (cases "p row") auto
    qed
  qed
qed simp

lemma opposite_junction:
  assumes "\<And>c. c \<in> set cs \<Longrightarrow> opposite row (create c) (create (neg c))"
  shows "opposite row (bind_result (traverse create cs) (\<lambda>ps. Inr (all_predicates ps)))
      (bind_result (traverse create (map neg cs)) (\<lambda>ps. Inr (any_predicate ps)))"
    and "opposite row (bind_result (traverse create cs) (\<lambda>ps. Inr (any_predicate ps)))
      (bind_result (traverse create (map neg cs)) (\<lambda>ps. Inr (all_predicates ps)))"
proof -
  note m = opposite_members [of cs row create neg, OF assms]
  show "opposite row (bind_result (traverse create cs) (\<lambda>ps. Inr (all_predicates ps)))
      (bind_result (traverse create (map neg cs)) (\<lambda>ps. Inr (any_predicate ps)))"
    using m by (cases "traverse create cs") (auto simp: opposite_def)
  show "opposite row (bind_result (traverse create cs) (\<lambda>ps. Inr (any_predicate ps)))
      (bind_result (traverse create (map neg cs)) (\<lambda>ps. Inr (all_predicates ps)))"
    using m by (cases "traverse create cs") (auto simp: opposite_def)
qed

lemma createPredicate_negate:
  "null_free row c \<Longrightarrow> opposite row (createPredicate u8 str c) (createPredicate u8 str (not_expr c))"
proof (induction c rule: not_expr.induct)
  case (1 cs)
  then show ?case
    using opposite_junction(1) [of cs row "createPredicate u8 str" not_expr] by (simp add: list_all_iff)
next
  case (2 cs)
  then show ?case
    using opposite_junction(2) [of cs row "createPredicate u8 str" not_expr] by (simp add: list_all_iff)
next
  case (3 related op flp sc)
  then show ?case by (simp add: opposite_def)
next
  case (4 op left right)
  then show ?case using createSimplePredicate_negate by simp
qed

text \<open>On a row where no comparison meets a null, the predicate of \<open>not(c)\<close> returns the opposite of the
  predicate of \<open>c\<close>, and the two throw together, at construction or when run. (With a null both are
  false, as in SQL.)\<close>

theorem not_predicate:
  assumes "null_free row c"
  shows "run_predicate u8 str (not_expr c) row = not_result (run_predicate u8 str c row)"
  using createPredicate_negate [OF assms, of u8 str]
  by (auto simp: run_predicate_def opposite_def split: sum.splits)

theorem not_predicate_witness:
  "run_predicate utf8_lex sample_str
     (not_expr (And [Simple OpLt (PColumn ''a'') (PLiteral (LScalar (JNum 5))),
       Simple OpLike (PColumn ''s'') (PLiteral (LScalar (JStr ''x%'')))]))
     [(''a'', JNum 3), (''s'', JStr ''abc'')] = Inr True"
proof -
  let ?c = "And [Simple OpLt (PColumn ''a'') (PLiteral (LScalar (JNum 5))),
       Simple OpLike (PColumn ''s'') (PLiteral (LScalar (JStr ''x%'')))]"
  let ?row = "[(''a'', JNum 3), (''s'', JStr ''abc'')]"
  have "null_free ?row ?c" by code_simp
  moreover have "run_predicate utf8_lex sample_str ?c ?row = Inr False" by code_simp
  ultimately show ?thesis using not_predicate [of ?row ?c utf8_lex sample_str] by simp
qed

end
