(* ===== verification/QueryCovering.thy ===== *)
theory QueryCovering
  imports RowPredicateProps
begin

section \<open>Query covering (zero-cache/src/services/view-syncer/query-covering.ts)\<close>

text \<open>
  The syntactic check that every row of one query is produced by another, and the index that finds
  a covering query among the running ones. \<open>deepEqual\<close> on JSON values is equality here: an absent
  property is \<open>None\<close>, and the start rows of one table list their columns in one order.
\<close>

subsection \<open>Conditions on one column\<close>

definition literal_number :: "literal_value \<Rightarrow> number option" where
  "literal_number v = (case v of LScalar (JNum n) \<Rightarrow> Some n | _ \<Rightarrow> None)"

definition isNonNullScalarLiteralValue :: "literal_value \<Rightarrow> bool" where
  "isNonNullScalarLiteralValue v = (case v of LScalar w \<Rightarrow> w \<noteq> JNull | LArray _ \<Rightarrow> False)"

definition literalArrayIncludes :: "js_value list \<Rightarrow> literal_value \<Rightarrow> bool" where
  "literalArrayIncludes values v = list_ex (\<lambda>w. LScalar w = v) values"

definition isEqualityOp :: "simple_op \<Rightarrow> bool" where
  "isEqualityOp op \<longleftrightarrow> op = OpEq \<or> op = OpIs"

definition isNumericOrderOp :: "simple_op \<Rightarrow> bool" where
  "isNumericOrderOp op \<longleftrightarrow> op = OpLt \<or> op = OpGt \<or> op = OpLe \<or> op = OpGe"

definition both_numbers :: "literal_value \<Rightarrow> literal_value \<Rightarrow> (number \<Rightarrow> number \<Rightarrow> bool) \<Rightarrow> bool" where
  "both_numbers v w P = (case (literal_number v, literal_number w) of
     (Some m, Some n) \<Rightarrow> P m n | _ \<Rightarrow> False)"

fun equalityImplies :: "literal_value \<Rightarrow> simple_op \<Rightarrow> literal_value \<Rightarrow> bool" where
  "equalityImplies v OpEq w \<longleftrightarrow> v = w"
| "equalityImplies v OpIs w \<longleftrightarrow> v = w"
| "equalityImplies v OpNe w \<longleftrightarrow> v \<noteq> w"
| "equalityImplies v OpIsNot w \<longleftrightarrow> v \<noteq> w"
| "equalityImplies v OpIn w \<longleftrightarrow> (case w of LArray ws \<Rightarrow> literalArrayIncludes ws v | _ \<Rightarrow> False)"
| "equalityImplies v OpLt w \<longleftrightarrow> both_numbers v w (<)"
| "equalityImplies v OpLe w \<longleftrightarrow> both_numbers v w (\<le>)"
| "equalityImplies v OpGt w \<longleftrightarrow> both_numbers v w (>)"
| "equalityImplies v OpGe w \<longleftrightarrow> both_numbers v w (\<ge>)"
| "equalityImplies v _ w \<longleftrightarrow> False"

definition orderConditionImplies ::
    "simple_op \<Rightarrow> literal_value \<Rightarrow> simple_op \<Rightarrow> literal_value \<Rightarrow> bool" where
  "orderConditionImplies coveredOp v coveringOp w \<longleftrightarrow> both_numbers v w (\<lambda>m n.
     (case coveredOp of
        OpGt \<Rightarrow> (coveringOp = OpGt \<and> m \<ge> n) \<or> (coveringOp = OpGe \<and> m \<ge> n)
      | OpGe \<Rightarrow> (coveringOp = OpGt \<and> m > n) \<or> (coveringOp = OpGe \<and> m \<ge> n)
      | OpLt \<Rightarrow> (coveringOp = OpLt \<and> m \<le> n) \<or> (coveringOp = OpLe \<and> m \<le> n)
      | OpLe \<Rightarrow> (coveringOp = OpLt \<and> m < n) \<or> (coveringOp = OpLe \<and> m \<le> n)
      | _ \<Rightarrow> False))"

definition columnLiteralParts ::
    "simple_op \<Rightarrow> value_position \<Rightarrow> value_position \<Rightarrow> (string \<times> simple_op \<times> literal_value) option" where
  "columnLiteralParts op left right = (case (left, right) of
     (PColumn name, PLiteral v) \<Rightarrow> Some (name, op, v) | _ \<Rightarrow> None)"

definition simpleConditionImplies ::
    "simple_op \<Rightarrow> value_position \<Rightarrow> value_position \<Rightarrow> simple_op \<Rightarrow> value_position \<Rightarrow> value_position \<Rightarrow> bool" where
  "simpleConditionImplies op l r op' l' r' \<longleftrightarrow>
     (case (columnLiteralParts op l r, columnLiteralParts op' l' r') of
        (Some (column, coveredOp, v), Some (column', coveringOp, w)) \<Rightarrow>
          if column \<noteq> column' then False
          else if isEqualityOp coveredOp \<and> isNonNullScalarLiteralValue v
            then equalityImplies v coveringOp w
          else (case (coveredOp, coveringOp, v, w) of
              (OpIn, OpIn, LArray vs, LArray ws) \<Rightarrow>
                list_all (\<lambda>x. literalArrayIncludes ws (LScalar x)) vs
            | _ \<Rightarrow>
                if isNumericOrderOp coveredOp \<and> isNumericOrderOp coveringOp
                then orderConditionImplies coveredOp v coveringOp w else False)
      | _ \<Rightarrow> False)"

subsection \<open>Conditions, related queries and bounds\<close>

definition sameRelatedEdge :: "correlated_subquery \<Rightarrow> correlated_subquery \<Rightarrow> bool" where
  "sameRelatedEdge a b \<longleftrightarrow>
     parentField a = parentField b \<and> childField a = childField b \<and> is_hidden a = is_hidden b \<and>
     query_system a = query_system b \<and> ast_alias (subquery a) = ast_alias (subquery b)"

lemma subquery_size: "size (subquery r) < size (r :: correlated_subquery)"
  by (cases r) simp

text \<open>The sizes of the two sides together decrease; the second component orders the helpers.\<close>

definition cond_measure where
  "cond_measure x = (case x of
     Inl (Inl (c, d)) \<Rightarrow> (size c + size (d :: condition), 0 :: nat)
   | Inl (Inr (Inl (r, op, sc, r', op', sc'))) \<Rightarrow> (size r + size (r' :: correlated_subquery), 0)
   | Inl (Inr (Inr (w, w'))) \<Rightarrow> (size_option size w + size_option size (w' :: condition option), 1)
   | Inr (Inl (rs, rs')) \<Rightarrow> (size_list size rs + size_list size (rs' :: correlated_subquery list), 0)
   | Inr (Inr (Inl (a, b))) \<Rightarrow> (size a + size b, 0)
   | Inr (Inr (Inr (a, b))) \<Rightarrow> (size (a :: ast) + size (b :: ast), 1))"

lemma ast_parts_size:
  "size_option size (ast_where a) < size a"
  "ast_related a = Some rs \<Longrightarrow> size_list size rs < size a"
  by (cases a; simp)+

lemma member_subquery_size: "r \<in> set rs \<Longrightarrow> size (subquery r) < size_list size rs"
  by (induction rs) (auto intro: less_trans [OF subquery_size] less_SucI trans_less_add2)

function conditionImplies :: "condition \<Rightarrow> condition \<Rightarrow> bool"
  and correlatedConditionImplies ::
    "correlated_subquery \<Rightarrow> exists_op \<Rightarrow> bool option \<Rightarrow>
     correlated_subquery \<Rightarrow> exists_op \<Rightarrow> bool option \<Rightarrow> bool"
  and optionalConditionImplies :: "condition option \<Rightarrow> condition option \<Rightarrow> bool"
  and relatedCoveredBy :: "correlated_subquery list \<Rightarrow> correlated_subquery list \<Rightarrow> bool"
  and boundsCoveredBy :: "ast \<Rightarrow> ast \<Rightarrow> bool"
  and astCoveredBy :: "ast \<Rightarrow> ast \<Rightarrow> bool" where
  "conditionImplies covered covering \<longleftrightarrow>
     (if covered = covering then True
      else (case covered of
        Or cs \<Rightarrow> list_all (\<lambda>c. conditionImplies c covering) cs
      | _ \<Rightarrow> (case covering of
          Or ds \<Rightarrow> list_ex (\<lambda>d. conditionImplies covered d) ds
        | And ds \<Rightarrow> list_all (\<lambda>d. conditionImplies covered d) ds
        | _ \<Rightarrow> (case covered of
            And cs \<Rightarrow> list_ex (\<lambda>c. conditionImplies c covering) cs
          | Simple op l r \<Rightarrow> (case covering of
              Simple op' l' r' \<Rightarrow> simpleConditionImplies op l r op' l' r' | _ \<Rightarrow> False)
          | Correlated rel op flp sc \<Rightarrow> (case covering of
              Correlated rel' op' flp' sc' \<Rightarrow> correlatedConditionImplies rel op sc rel' op' sc'
            | _ \<Rightarrow> False)
          | _ \<Rightarrow> False))))"
| "correlatedConditionImplies rel op sc rel' op' sc' \<longleftrightarrow>
     (if op \<noteq> op' \<or> sc \<noteq> sc' \<or> \<not> sameRelatedEdge rel rel' then False
      else if op = EXISTS then astCoveredBy (subquery rel) (subquery rel')
      else astCoveredBy (subquery rel') (subquery rel))"
| "optionalConditionImplies covered covering \<longleftrightarrow>
     (case covering of
        None \<Rightarrow> True
      | Some d \<Rightarrow> (case covered of None \<Rightarrow> False | Some c \<Rightarrow> conditionImplies c d))"
| "relatedCoveredBy covered covering \<longleftrightarrow>
     list_all (\<lambda>r. list_ex (\<lambda>r'. sameRelatedEdge r r' \<and> astCoveredBy (subquery r) (subquery r')) covering)
       covered"
| "boundsCoveredBy covered covering \<longleftrightarrow>
     (case ast_limit covering of
        None \<Rightarrow>
          ast_start covering = None \<or>
          (ast_start covered = ast_start covering \<and> ast_orderBy covered = ast_orderBy covering)
      | Some l \<Rightarrow>
          (case ast_limit covered of
             None \<Rightarrow> False
           | Some k \<Rightarrow>
               if l < k then False
               else optionalConditionImplies (ast_where covered) (ast_where covering) \<and>
                 optionalConditionImplies (ast_where covering) (ast_where covered) \<and>
                 ast_start covered = ast_start covering \<and> ast_orderBy covered = ast_orderBy covering))"
| "astCoveredBy covered covering \<longleftrightarrow>
     ast_schema covered = ast_schema covering \<and> ast_table covered = ast_table covering \<and>
     ast_alias covered = ast_alias covering \<and>
     optionalConditionImplies (ast_where covered) (ast_where covering) \<and>
     (case ast_related covered of
        None \<Rightarrow> True
      | Some rs \<Rightarrow> rs = [] \<or>
          (case ast_related covering of None \<Rightarrow> False | Some rs' \<Rightarrow> relatedCoveredBy rs rs')) \<and>
     boundsCoveredBy covered covering"
  by pat_completeness auto

termination
  apply (relation "inv_image (less_than <*lex*> less_than) cond_measure")
  apply (auto simp: cond_measure_def dest: in_cond_weight simp flip: cond_weight_def)
  subgoal for r r' using subquery_size [of r] subquery_size [of r'] by simp
  subgoal for r op r' using subquery_size [of r] subquery_size [of r'] by simp
  subgoal for rs rs' r r' using member_subquery_size [of r rs] member_subquery_size [of r' rs'] by simp
  subgoal for a b using ast_parts_size(1) [of a] ast_parts_size(1) [of b] by simp
  subgoal for a b using ast_parts_size(1) [of a] ast_parts_size(1) [of b] by simp
  subgoal for a b using ast_parts_size(1) [of a] ast_parts_size(1) [of b] by simp
  subgoal for a b rs rs' using ast_parts_size(2) [of a rs] ast_parts_size(2) [of b rs'] by simp
  done

declare conditionImplies.simps [simp del] correlatedConditionImplies.simps [simp del]
  optionalConditionImplies.simps [simp del] relatedCoveredBy.simps [simp del] boundsCoveredBy.simps [simp del]
  astCoveredBy.simps [simp del]

subsection \<open>The exported check and the index of running queries\<close>

definition normalizeAST :: "utf8 \<Rightarrow> (literal_value \<Rightarrow> string) \<Rightarrow> ast \<Rightarrow> ast result" where
  "normalizeAST u8 str a = transformAST (NORMALIZE_TRANSFORM u8 str) a"

definition isQueryCoveredBy :: "utf8 \<Rightarrow> (literal_value \<Rightarrow> string) \<Rightarrow> ast \<Rightarrow> ast \<Rightarrow> bool result" where
  "isQueryCoveredBy u8 str covered covering =
     bind_result (normalizeAST u8 str covered) (\<lambda>a.
     bind_result (normalizeAST u8 str covering) (\<lambda>b. Inr (astCoveredBy a b)))"

type_synonym root_key = "string option \<times> string \<times> string option"

definition rootKey :: "ast \<Rightarrow> root_key" where
  "rootKey a = (ast_schema a, ast_table a, ast_alias a)"

record running_query =
  transformedAst :: ast
  transformationHash :: string
  queryName :: "string option"

text \<open>The two maps of the index; a \<open>Map\<close> is its entries in insertion order.\<close>

record covering_index =
  byRoot :: "(root_key \<times> (string \<times> running_query \<times> ast) list) list"
  queryIDToRoot :: "(string \<times> root_key) list"

definition empty_index :: covering_index where
  "empty_index = \<lparr>byRoot = [], queryIDToRoot = []\<rparr>"

definition index_remove :: "string \<Rightarrow> covering_index \<Rightarrow> covering_index" where
  "index_remove queryID idx = (case map_of (queryIDToRoot idx) queryID of
     None \<Rightarrow> idx
   | Some rk \<Rightarrow>
       (let idx' = idx\<lparr>queryIDToRoot := AList.delete queryID (queryIDToRoot idx)\<rparr> in
        case map_of (byRoot idx') rk of
          None \<Rightarrow> idx'
        | Some queries \<Rightarrow>
            (let queries' = AList.delete queryID queries in
             idx'\<lparr>byRoot := (if queries' = [] then AList.delete rk (byRoot idx')
               else AList.update rk queries' (byRoot idx'))\<rparr>)))"

text \<open>The old entry is removed before the normalisation that may throw.\<close>

definition index_add ::
    "utf8 \<Rightarrow> (literal_value \<Rightarrow> string) \<Rightarrow> string \<Rightarrow> running_query \<Rightarrow> covering_index \<Rightarrow>
     unit result \<times> covering_index" where
  "index_add u8 str queryID query idx =
     (let idx' = index_remove queryID idx in
      case normalizeAST u8 str (transformedAst query) of
        Inl e \<Rightarrow> (Inl e, idx')
      | Inr nrm \<Rightarrow>
          (let rk = rootKey nrm;
               queries = (case map_of (byRoot idx') rk of None \<Rightarrow> [] | Some qs \<Rightarrow> qs)
           in (Inr (), idx'\<lparr>byRoot := AList.update rk (AList.update queryID (query, nrm) queries) (byRoot idx'),
             queryIDToRoot := AList.update queryID rk (queryIDToRoot idx')\<rparr>)))"

fun first_covering ::
    "string \<Rightarrow> ast \<Rightarrow> (string \<times> running_query \<times> ast) list \<Rightarrow> (string \<times> string \<times> string option) option" where
  "first_covering coveredID covered [] = None"
| "first_covering coveredID covered ((queryID, query, nrm) # rest) =
     (if queryID = coveredID then first_covering coveredID covered rest
      else if astCoveredBy covered nrm then Some (queryID, transformationHash query, queryName query)
      else first_covering coveredID covered rest)"

definition index_find ::
    "utf8 \<Rightarrow> (literal_value \<Rightarrow> string) \<Rightarrow> string \<Rightarrow> ast \<Rightarrow> covering_index \<Rightarrow>
     (string \<times> string \<times> string option) option result" where
  "index_find u8 str coveredID coveredAst idx =
     bind_result (normalizeAST u8 str coveredAst) (\<lambda>nrm.
       case map_of (byRoot idx) (rootKey nrm) of
         None \<Rightarrow> Inr None
       | Some queries \<Rightarrow> Inr (first_covering coveredID nrm queries))"

text \<open>\<open>findCoveringQuery\<close>: a fresh index of the running queries, added in order, then one search.\<close>

fun index_build ::
    "utf8 \<Rightarrow> (literal_value \<Rightarrow> string) \<Rightarrow> (string \<times> running_query) list \<Rightarrow> covering_index \<Rightarrow>
     covering_index result" where
  "index_build u8 str [] idx = Inr idx"
| "index_build u8 str ((queryID, query) # rest) idx =
     (case index_add u8 str queryID query idx of
        (Inl e, _) \<Rightarrow> Inl e | (Inr _, idx') \<Rightarrow> index_build u8 str rest idx')"

definition findCoveringQuery ::
    "utf8 \<Rightarrow> (literal_value \<Rightarrow> string) \<Rightarrow> string \<Rightarrow> ast \<Rightarrow> (string \<times> running_query) list \<Rightarrow>
     (string \<times> string \<times> string option) option result" where
  "findCoveringQuery u8 str coveredID coveredAst running =
     bind_result (index_build u8 str running empty_index) (index_find u8 str coveredID coveredAst)"

end
