(* ===== verification/QueryCoveringProps.thy ===== *)
theory QueryCoveringProps
  imports QueryCovering
begin

section \<open>Soundness of query covering\<close>

text \<open>
  The meaning of a query on a database, and the proof that the syntactic check only answers yes
  when the covering query produces every row of the covered one, at the root and in every related
  query. The one condition is that the covering side has no comparison \<open>!= null\<close>: such a
  comparison is satisfied by no row, yet the check takes it to be implied by any equality.
\<close>

subsection \<open>Meaning of a query\<close>

type_synonym db = "string \<Rightarrow> row list"

fun insert_row :: "row cmp \<Rightarrow> row \<Rightarrow> row list \<Rightarrow> row list" where
  "insert_row cmp r [] = [r]"
| "insert_row cmp r (s # ss) = (if cmp r s \<le> 0 then r # s # ss else s # insert_row cmp r ss)"

definition sort_rows :: "utf8 \<Rightarrow> ordering option \<Rightarrow> row list \<Rightarrow> row list" where
  "sort_rows u8 ord rows = (case ord of None \<Rightarrow> rows | Some order \<Rightarrow> foldr (insert_row (row_cmp u8 order False)) rows [])"

definition from_start :: "utf8 \<Rightarrow> ordering option \<Rightarrow> (row \<times> bool) option \<Rightarrow> row list \<Rightarrow> row list" where
  "from_start u8 ord start rows = (case start of
     None \<Rightarrow> rows
   | Some (s, exclusive) \<Rightarrow>
       filter (\<lambda>r. let c = row_cmp u8 (case ord of None \<Rightarrow> [] | Some order \<Rightarrow> order) False s r in
         c < 0 \<or> (c = 0 \<and> \<not> exclusive)) rows)"

definition up_to_limit :: "number option \<Rightarrow> row list \<Rightarrow> row list" where
  "up_to_limit limit rows = (case limit of None \<Rightarrow> rows | Some l \<Rightarrow> take (nat \<lfloor>l\<rfloor>) rows)"

definition correlated_rows :: "string list \<Rightarrow> string list \<Rightarrow> row \<Rightarrow> row \<Rightarrow> bool" where
  "correlated_rows pf cf parent child \<longleftrightarrow>
     list_all (\<lambda>(p, c). valuesEqual (get_field parent p) (get_field child c)) (zip pf cf)"

fun query_rows ::
    "utf8 \<Rightarrow> (literal_value \<Rightarrow> string) \<Rightarrow> db \<Rightarrow> (row \<Rightarrow> bool) \<Rightarrow> ast \<Rightarrow> row list"
  and satisfies :: "utf8 \<Rightarrow> (literal_value \<Rightarrow> string) \<Rightarrow> db \<Rightarrow> row \<Rightarrow> condition \<Rightarrow> bool"
  and exists_rows ::
    "utf8 \<Rightarrow> (literal_value \<Rightarrow> string) \<Rightarrow> db \<Rightarrow> row \<Rightarrow> correlated_subquery \<Rightarrow> bool" where
  "query_rows u8 str db P (AST schm t al whr rel start lmt ord) =
     up_to_limit lmt (from_start u8 ord start (sort_rows u8 ord
       (filter (\<lambda>r. P r \<and> (case whr of None \<Rightarrow> True | Some c \<Rightarrow> satisfies u8 str db r c)) (db t))))"
| "satisfies u8 str db r (And cs) \<longleftrightarrow> list_all (satisfies u8 str db r) cs"
| "satisfies u8 str db r (Or cs) \<longleftrightarrow> list_ex (satisfies u8 str db r) cs"
| "satisfies u8 str db r (Simple op left right) \<longleftrightarrow>
     bind_result (createSimplePredicate u8 str op left right) (\<lambda>p. p r) = Inr True"
| "satisfies u8 str db r (Correlated rel op flp sc) \<longleftrightarrow> (exists_rows u8 str db r rel \<longleftrightarrow> op = EXISTS)"
| "exists_rows u8 str db r (Subquery pf cf sub sys hid) \<longleftrightarrow>
     query_rows u8 str db (correlated_rows pf cf r) sub \<noteq> []"

text \<open>Everything a query produces: its rows and, for each, what its related queries produce.\<close>

fun produced ::
    "utf8 \<Rightarrow> (literal_value \<Rightarrow> string) \<Rightarrow> db \<Rightarrow> (row \<Rightarrow> bool) \<Rightarrow> ast \<Rightarrow> (string \<times> row) set"
  and produced_related ::
    "utf8 \<Rightarrow> (literal_value \<Rightarrow> string) \<Rightarrow> db \<Rightarrow> row \<Rightarrow> correlated_subquery \<Rightarrow> (string \<times> row) set" where
  "produced u8 str db P (AST schm t al whr rel start lmt ord) =
     (\<Union>r \<in> set (query_rows u8 str db P (AST schm t al whr rel start lmt ord)).
       insert (t, r) (case rel of None \<Rightarrow> {} | Some rs \<Rightarrow> \<Union>s \<in> set rs. produced_related u8 str db r s))"
| "produced_related u8 str db r (Subquery pf cf sub sys hid) =
     produced u8 str db (correlated_rows pf cf r) sub"

subsection \<open>Soundness\<close>

text \<open>No comparison \<open>!= null\<close> at any depth, and literals are JSON values.\<close>

fun ast_safe :: "ast \<Rightarrow> bool" and cond_safe :: "condition \<Rightarrow> bool" and subq_safe :: "correlated_subquery \<Rightarrow> bool" where
  "ast_safe (AST schm t al whr rel st lmt ord) \<longleftrightarrow>
     pred_option cond_safe whr \<and> pred_option (list_all subq_safe) rel"
| "cond_safe (And cs) \<longleftrightarrow> list_all cond_safe cs"
| "cond_safe (Or cs) \<longleftrightarrow> list_all cond_safe cs"
| "cond_safe (Correlated rel op flp sc) \<longleftrightarrow> subq_safe rel"
| "cond_safe (Simple op l r) \<longleftrightarrow> \<not> (op = OpNe \<and> r = PLiteral (LScalar JNull)) \<and>
     r \<noteq> PLiteral (LScalar JUndefined)"
| "subq_safe (Subquery pf cf sub sys hid) \<longleftrightarrow> ast_safe sub"

text \<open>A comparison of a column with a literal, on the column's value.\<close>

definition holds_on ::
    "utf8 \<Rightarrow> (literal_value \<Rightarrow> string) \<Rightarrow> simple_op \<Rightarrow> literal_value \<Rightarrow> js_value \<Rightarrow> bool" where
  "holds_on u8 str op v lhs \<longleftrightarrow>
     (if op = OpIs \<or> op = OpIsNot then createIsPredicate v (op = OpIsNot) lhs
      else \<not> literal_nullish v \<and> \<not> is_nullish lhs \<and>
        bind_result (createPredicateImpl u8 str v op) (\<lambda>impl. impl lhs) = Inr True)"

lemma satisfies_column:
  "satisfies u8 str db r (Simple op (PColumn name) (PLiteral v)) \<longleftrightarrow> holds_on u8 str op v (get_field r name)"
  by (auto simp: createSimplePredicate_def holds_on_def bind_result_eq_Inr Let_def split: if_splits)

lemma holds_on_equality:
  "isEqualityOp op \<Longrightarrow> holds_on u8 str op v lhs \<Longrightarrow> v = LScalar lhs"
  by (cases v) (auto simp: isEqualityOp_def holds_on_def createIsPredicate_def)

lemma literal_number_eq: "literal_number v = Some n \<longleftrightarrow> v = LScalar (JNum n)"
  by (auto simp: literal_number_def split: literal_value.splits js_value.splits)

lemma both_numbers_iff: "both_numbers v w P \<longleftrightarrow>
    (\<exists>m n. v = LScalar (JNum m) \<and> w = LScalar (JNum n) \<and> P m n)"
  by (auto simp: both_numbers_def literal_number_eq split: option.splits)
    (metis literal_number_eq option.discI)+

lemma compareValues_number:
  "compareValues u8 lhs (JNum n) = Inr c \<Longrightarrow> \<not> is_nullish lhs \<Longrightarrow> \<exists>m. lhs = JNum m \<and> c = m - n"
  by (cases lhs) (auto simp: compareValues_def normalizeUndefined_def is_nullish_def Let_def split: if_splits)

lemma compareValues_numbers [simp]: "compareValues u8 (JNum m) (JNum n) = Inr (m - n)"
  by (auto simp: compareValues_def normalizeUndefined_def Let_def)

lemma holds_on_number:
  "holds_on u8 str OpLt (LScalar (JNum n)) lhs \<longleftrightarrow> (\<exists>m. lhs = JNum m \<and> m < n)"
  "holds_on u8 str OpLe (LScalar (JNum n)) lhs \<longleftrightarrow> (\<exists>m. lhs = JNum m \<and> m \<le> n)"
  "holds_on u8 str OpGt (LScalar (JNum n)) lhs \<longleftrightarrow> (\<exists>m. lhs = JNum m \<and> m > n)"
  "holds_on u8 str OpGe (LScalar (JNum n)) lhs \<longleftrightarrow> (\<exists>m. lhs = JNum m \<and> m \<ge> n)"
  by (auto simp: holds_on_def literal_nullish_def bind_result_eq_Inr dest!: compareValues_number)
    (auto simp: is_nullish_def)

lemma equalityImplies_sound:
  assumes "equalityImplies (LScalar lhs) op w" "\<not> is_nullish lhs"
    and "\<not> (op = OpNe \<and> w = LScalar JNull)" "w \<noteq> LScalar JUndefined"
  shows "holds_on u8 str op w lhs"
  using assms
  by (cases op; cases w)
    (auto simp: holds_on_number both_numbers_iff literalArrayIncludes_def list_ex_iff array_of_def
      holds_on_def createIsPredicate_def literal_nullish_def is_nullish_def)

lemma orderConditionImplies_sound:
  "orderConditionImplies op v op' w \<Longrightarrow> holds_on u8 str op v lhs \<Longrightarrow> holds_on u8 str op' w lhs"
  by (cases op) (auto simp: orderConditionImplies_def both_numbers_iff holds_on_number)

lemma holds_on_in:
  "holds_on u8 str OpIn (LArray vs) lhs \<longleftrightarrow> \<not> is_nullish lhs \<and> lhs \<in> set vs"
  by (auto simp: holds_on_def literal_nullish_def array_of_def)

lemma simpleConditionImplies_sound:
  assumes "simpleConditionImplies op l r op' l' r'" "cond_safe (Simple op l r)" "cond_safe (Simple op' l' r')"
    and "satisfies u8 str db row (Simple op l r)"
  shows "satisfies u8 str db row (Simple op' l' r')"
proof -
  obtain name v w where lr: "l = PColumn name" "r = PLiteral v" "l' = PColumn name" "r' = PLiteral w"
    and imp: "if isEqualityOp op \<and> isNonNullScalarLiteralValue v then equalityImplies v op' w
      else (case (op, op', v, w) of
          (OpIn, OpIn, LArray vs, LArray ws) \<Rightarrow> list_all (\<lambda>x. literalArrayIncludes ws (LScalar x)) vs
        | _ \<Rightarrow> isNumericOrderOp op \<and> isNumericOrderOp op' \<and> orderConditionImplies op v op' w)"
    using assms(1)
    by (auto simp: simpleConditionImplies_def columnLiteralParts_def
        split: value_position.splits if_splits simple_op.splits literal_value.splits)
  have lhs: "holds_on u8 str op v (get_field row name)"
    using assms(4) unfolding lr satisfies_column .
  have "holds_on u8 str op' w (get_field row name)"
  proof (cases "isEqualityOp op \<and> isNonNullScalarLiteralValue v")
    case True
    then have v: "v = LScalar (get_field row name)" using holds_on_equality lhs by blast
    have "\<not> is_nullish (get_field row name)"
      using True v assms(2) by (auto simp: isNonNullScalarLiteralValue_def is_nullish_def lr)
    then show ?thesis
      using True imp v assms(3) by (intro equalityImplies_sound) (auto simp: lr)
  next
    case False
    show ?thesis
    proof (cases "op = OpIn \<and> op' = OpIn \<and> (\<exists>vs ws. v = LArray vs \<and> w = LArray ws)")
      case True
      then obtain vs ws where "op = OpIn" "op' = OpIn" "v = LArray vs" "w = LArray ws" by blast
      with imp False lhs show ?thesis
        by (auto simp: holds_on_in list_all_iff literalArrayIncludes_def list_ex_iff)
    next
      case notin: False
      then have "orderConditionImplies op v op' w"
        using imp False by (auto split: simple_op.splits literal_value.splits)
      then show ?thesis using orderConditionImplies_sound lhs by blast
    qed
  qed
  then show ?thesis unfolding lr satisfies_column .
qed

definition where_holds ::
    "utf8 \<Rightarrow> (literal_value \<Rightarrow> string) \<Rightarrow> db \<Rightarrow> row \<Rightarrow> condition option \<Rightarrow> bool" where
  "where_holds u8 str db r w = (case w of None \<Rightarrow> True | Some c \<Rightarrow> satisfies u8 str db r c)"

lemma query_rows_eq:
  "query_rows u8 str db P a = up_to_limit (ast_limit a) (from_start u8 (ast_orderBy a) (ast_start a)
     (sort_rows u8 (ast_orderBy a) (filter (\<lambda>r. P r \<and> where_holds u8 str db r (ast_where a)) (db (ast_table a)))))"
  by (cases a) (simp add: where_holds_def)

lemma set_insert_row: "set (insert_row cmp r ss) = insert r (set ss)"
  by (induction ss) auto

lemma set_sort_rows [simp]: "set (sort_rows u8 ord rows) = set rows"
proof -
  have "set (foldr (insert_row cmp) rows []) = set rows" for cmp
    by (induction rows) (simp_all add: set_insert_row)
  then show ?thesis by (simp add: sort_rows_def split: option.splits)
qed

lemma up_to_limit_subset: "set (up_to_limit l rows) \<subseteq> set rows"
  by (auto simp: up_to_limit_def split: option.splits dest: in_set_takeD)

lemma up_to_limit_mono: "k \<le> l \<Longrightarrow> set (up_to_limit (Some k) rows) \<subseteq> set (up_to_limit (Some l) rows)"
  by (simp add: up_to_limit_def set_take_subset_set_take nat_mono floor_mono)

lemma from_start_mono: "set rows \<subseteq> set rows' \<Longrightarrow>
    set (from_start u8 ord start rows) \<subseteq> set (from_start u8 ord start rows')"
  by (auto simp: from_start_def split: option.splits)

lemma from_start_subset: "set (from_start u8 ord start rows) \<subseteq> set rows"
  by (auto simp: from_start_def split: option.splits)

text \<open>The order, start and limit of the two queries, once the filters imply each other as required.\<close>

lemma bounds_sound:
  assumes "ast_table a = ast_table b"
    and imp: "\<And>r. where_holds u8 str db r (ast_where a) \<Longrightarrow> where_holds u8 str db r (ast_where b)"
    and bounds: "(ast_limit b = None \<and> (ast_start b = None \<or>
        ast_start a = ast_start b \<and> ast_orderBy a = ast_orderBy b)) \<or>
      (\<exists>k l. ast_limit a = Some k \<and> ast_limit b = Some l \<and> k \<le> l \<and>
        (\<forall>r. where_holds u8 str db r (ast_where b) \<longrightarrow> where_holds u8 str db r (ast_where a)) \<and>
        ast_start a = ast_start b \<and> ast_orderBy a = ast_orderBy b)"
  shows "set (query_rows u8 str db P a) \<subseteq> set (query_rows u8 str db P b)"
proof -
  let ?f = "\<lambda>a. filter (\<lambda>r. P r \<and> where_holds u8 str db r (ast_where a)) (db (ast_table a))"
  have f: "set (?f a) \<subseteq> set (?f b)" using assms(1) imp by auto
  from bounds show ?thesis
  proof (elim disjE exE conjE)
    assume "ast_limit b = None" "ast_start b = None"
    then show ?thesis
      using f up_to_limit_subset from_start_subset
      by (fastforce simp: query_rows_eq up_to_limit_def [of None] from_start_def [of _ _ None])
  next
    assume "ast_limit b = None" "ast_start a = ast_start b" "ast_orderBy a = ast_orderBy b"
    then show ?thesis
      using from_start_mono [of "sort_rows u8 (ast_orderBy b) (?f a)" "sort_rows u8 (ast_orderBy b) (?f b)" u8
          "ast_orderBy b" "ast_start b"] f up_to_limit_subset
      by (fastforce simp: query_rows_eq up_to_limit_def [of None])
  next
    fix k l
    assume *: "ast_limit a = Some k" "ast_limit b = Some l" "k \<le> l"
      "\<forall>r. where_holds u8 str db r (ast_where b) \<longrightarrow> where_holds u8 str db r (ast_where a)"
      "ast_start a = ast_start b" "ast_orderBy a = ast_orderBy b"
    then have "where_holds u8 str db r (ast_where a) = where_holds u8 str db r (ast_where b)" for r
      using imp by blast
    with * show ?thesis
      by (simp add: query_rows_eq assms(1) up_to_limit_mono)
  qed
qed

lemma exists_rows_eq:
  "exists_rows u8 str db r rel \<longleftrightarrow>
     query_rows u8 str db (correlated_rows (parentField rel) (childField rel) r) (subquery rel) \<noteq> []"
  by (cases rel) simp

lemma produced_related_eq:
  "produced_related u8 str db r rel =
     produced u8 str db (correlated_rows (parentField rel) (childField rel) r) (subquery rel)"
  by (cases rel) simp

lemma produced_eq:
  "produced u8 str db P a = (\<Union>r \<in> set (query_rows u8 str db P a). insert (ast_table a, r)
     (case ast_related a of None \<Rightarrow> {} | Some rs \<Rightarrow> \<Union>s \<in> set rs. produced_related u8 str db r s))"
  by (cases a) simp

lemma ast_safe_eq:
  "ast_safe a \<longleftrightarrow> pred_option cond_safe (ast_where a) \<and> pred_option (list_all subq_safe) (ast_related a)"
  "subq_safe rel \<longleftrightarrow> ast_safe (subquery rel)"
  by (cases a; simp) (cases rel; simp)

text \<open>One step of the check on conditions, given what it says of the parts.\<close>

lemma conditionImplies_step:
  assumes implies: "conditionImplies covered covering"
    and safe: "cond_safe covered" "cond_safe covering"
    and distinct: "covered \<noteq> covering"
    and or_left: "\<And>cs c. covered = Or cs \<Longrightarrow> c \<in> set cs \<Longrightarrow> conditionImplies c covering \<Longrightarrow>
      \<forall>row. satisfies u8 str db row c \<longrightarrow> satisfies u8 str db row covering"
    and right: "\<And>ds d. \<nexists>cs. covered = Or cs \<Longrightarrow> covering = And ds \<or> covering = Or ds \<Longrightarrow> d \<in> set ds \<Longrightarrow>
      conditionImplies covered d \<Longrightarrow> \<forall>row. satisfies u8 str db row covered \<longrightarrow> satisfies u8 str db row d"
    and and_left: "\<And>cs c. covered = And cs \<Longrightarrow> \<nexists>ds. covering = And ds \<or> covering = Or ds \<Longrightarrow> c \<in> set cs \<Longrightarrow>
      conditionImplies c covering \<Longrightarrow> \<forall>row. satisfies u8 str db row c \<longrightarrow> satisfies u8 str db row covering"
    and subq: "\<And>rel op flp sc rel' op' flp' sc'. covered = Correlated rel op flp sc \<Longrightarrow> covering = Correlated rel' op' flp' sc' \<Longrightarrow>
      correlatedConditionImplies rel op sc rel' op' sc' \<Longrightarrow>
      \<forall>row. (exists_rows u8 str db row rel \<longleftrightarrow> op = EXISTS) \<longrightarrow> (exists_rows u8 str db row rel' \<longleftrightarrow> op' = EXISTS)"
  shows "\<forall>row. satisfies u8 str db row covered \<longrightarrow> satisfies u8 str db row covering"
proof -
  have step: "case covered of
      Or cs \<Rightarrow> list_all (\<lambda>c. conditionImplies c covering) cs
    | _ \<Rightarrow> (case covering of
        Or ds \<Rightarrow> list_ex (\<lambda>d. conditionImplies covered d) ds
      | And ds \<Rightarrow> list_all (\<lambda>d. conditionImplies covered d) ds
      | _ \<Rightarrow> (case covered of
          And cs \<Rightarrow> list_ex (\<lambda>c. conditionImplies c covering) cs
        | Simple op l r \<Rightarrow> (case covering of
            Simple op' l' r' \<Rightarrow> simpleConditionImplies op l r op' l' r' | _ \<Rightarrow> False)
        | Correlated rel op flp sc \<Rightarrow> (case covering of
            Correlated rel' op' flp' sc' \<Rightarrow> correlatedConditionImplies rel op sc rel' op' sc'
          | _ \<Rightarrow> False)
        | _ \<Rightarrow> False))"
    using implies distinct by (subst (asm) conditionImplies.simps) (simp only: if_False)
  show ?thesis
  proof (intro allI impI)
    fix row
    assume row: "satisfies u8 str db row covered"
    show "satisfies u8 str db row covering"
    proof (cases "\<exists>cs. covered = Or cs")
      case True
      with step row or_left show ?thesis by (auto simp: list_all_iff list_ex_iff)
    next
      case notor: False
      have each: "satisfies u8 str db row d" if "covering = And ds \<or> covering = Or ds" "d \<in> set ds"
        "conditionImplies covered d" for ds d
        using right [OF notor that] row by blast
      show ?thesis
      proof (cases covering)
        case (And ds)
        with step notor have "\<forall>d \<in> set ds. conditionImplies covered d"
          by (cases covered) (auto simp: list_all_iff)
        with each [of ds] And show ?thesis by (simp add: list_all_iff)
      next
        case (Or ds)
        with step notor have "\<exists>d \<in> set ds. conditionImplies covered d"
          by (cases covered) (auto simp: list_ex_iff)
        with each [of ds] Or show ?thesis by (auto simp: list_ex_iff)
      next
        case (Simple op' l' r')
        show ?thesis
        proof (cases covered)
          case (And cs)
          with step Simple have "\<exists>c \<in> set cs. conditionImplies c covering" by (simp add: list_ex_iff)
          with and_left [OF And] Simple row And show ?thesis by (auto simp: list_all_iff)
        next
          case cov: (Simple op l r)
          with step Simple have "simpleConditionImplies op l r op' l' r'" by simp
          then show ?thesis
            using simpleConditionImplies_sound row safe unfolding cov Simple by blast
        qed (use step notor Simple in auto)
      next
        case (Correlated rel' op' flp' sc')
        show ?thesis
        proof (cases covered)
          case (And cs)
          with step Correlated have "\<exists>c \<in> set cs. conditionImplies c covering" by (simp add: list_ex_iff)
          with and_left [OF And] Correlated row And show ?thesis by (auto simp: list_all_iff)
        next
          case cov: (Correlated rel op flp sc)
          with step Correlated have "correlatedConditionImplies rel op sc rel' op' sc'" by simp
          from subq [OF cov Correlated this] row show ?thesis by (simp add: cov Correlated)
        qed (use step notor Correlated in auto)
      qed
    qed
  qed
qed

lemma covering_sound:
  "conditionImplies c d \<Longrightarrow> cond_safe c \<Longrightarrow> cond_safe d \<Longrightarrow>
     (\<forall>row. satisfies u8 str db row c \<longrightarrow> satisfies u8 str db row d)"
  "correlatedConditionImplies rel op sc rel' op' sc' \<Longrightarrow> subq_safe rel \<Longrightarrow> subq_safe rel' \<Longrightarrow>
     (\<forall>row. (exists_rows u8 str db row rel \<longleftrightarrow> op = EXISTS) \<longrightarrow>
       (exists_rows u8 str db row rel' \<longleftrightarrow> op' = EXISTS))"
  "optionalConditionImplies w w' \<Longrightarrow> pred_option cond_safe w \<Longrightarrow> pred_option cond_safe w' \<Longrightarrow>
     (\<forall>row. where_holds u8 str db row w \<longrightarrow> where_holds u8 str db row w')"
  "relatedCoveredBy rs rs' \<Longrightarrow> list_all subq_safe rs \<Longrightarrow> list_all subq_safe rs' \<Longrightarrow>
     (\<forall>row. \<forall>s \<in> set rs. \<exists>s' \<in> set rs'. produced_related u8 str db row s \<subseteq> produced_related u8 str db row s')"
  "boundsCoveredBy a b \<Longrightarrow> ast_safe a \<Longrightarrow> ast_safe b \<Longrightarrow> ast_table a = ast_table b \<Longrightarrow>
     optionalConditionImplies (ast_where a) (ast_where b) \<Longrightarrow>
     (\<forall>row. where_holds u8 str db row (ast_where a) \<longrightarrow> where_holds u8 str db row (ast_where b)) \<Longrightarrow>
     (\<forall>P. set (query_rows u8 str db P a) \<subseteq> set (query_rows u8 str db P b))"
  "astCoveredBy x y \<Longrightarrow> ast_safe x \<Longrightarrow> ast_safe y \<Longrightarrow>
     (\<forall>P. set (query_rows u8 str db P x) \<subseteq> set (query_rows u8 str db P y) \<and>
       produced u8 str db P x \<subseteq> produced u8 str db P y)"
proof (induction c d and rel op sc rel' op' sc' and w w' and rs rs' and a b and x y
    rule: conditionImplies_correlatedConditionImplies_optionalConditionImplies_relatedCoveredBy_boundsCoveredBy_astCoveredBy.induct)
  case (1 covered covering)
  show ?case
  proof (cases "covered = covering")
    case False
    let ?sat = "satisfies u8 str db"
    have or_left: "\<forall>row. ?sat row c \<longrightarrow> ?sat row covering"
      if "covered = Or cs" "c \<in> set cs" "conditionImplies c covering" for cs c
      using "1.IH" False that "1.prems"(2,3) by (simp add: list_all_iff)
    have right: "\<forall>row. ?sat row covered \<longrightarrow> ?sat row d"
      if "\<nexists>cs. covered = Or cs" "covering = And ds \<or> covering = Or ds" "d \<in> set ds"
        "conditionImplies covered d" for ds d
    proof -
      have safe: "cond_safe d" using that(2,3) "1.prems"(3) by (auto simp: list_all_iff)
      show ?thesis
      proof (cases covered)
        case (Simple v w x)
        show ?thesis by (rule disjE [OF that(2)]; rule "1.IH"; (assumption | rule False Simple that(3,4) safe "1.prems"(2)))
      next
        case (Correlated v w x y)
        show ?thesis by (rule disjE [OF that(2)]; rule "1.IH"; (assumption | rule False Correlated that(3,4) safe "1.prems"(2)))
      next
        case (And cs)
        show ?thesis by (rule disjE [OF that(2)]; rule "1.IH"; (assumption | rule False And that(3,4) safe "1.prems"(2)))
      qed (use that(1) in simp)
    qed
    have and_left: "\<forall>row. ?sat row c \<longrightarrow> ?sat row covering"
      if "covered = And cs" "\<nexists>ds. covering = And ds \<or> covering = Or ds" "c \<in> set cs"
        "conditionImplies c covering" for cs c
    proof -
      have safe: "cond_safe c" using that(1,3) "1.prems"(2) by (auto simp: list_all_iff)
      show ?thesis
      proof (cases covering)
        case (Simple v w x)
        show ?thesis by (rule "1.IH"; rule False Simple that(1,3,4) safe "1.prems"(3))
      next
        case (Correlated v w x y)
        show ?thesis by (rule "1.IH"; rule False Correlated that(1,3,4) safe "1.prems"(3))
      qed (use that(2) in auto)
    qed
    have subq: "\<forall>row. (exists_rows u8 str db row rel \<longleftrightarrow> op = EXISTS) \<longrightarrow>
        (exists_rows u8 str db row rel' \<longleftrightarrow> op' = EXISTS)"
      if "covered = Correlated rel op flp sc" "covering = Correlated rel' op' flp' sc'"
        "correlatedConditionImplies rel op sc rel' op' sc'" for rel op flp sc rel' op' flp' sc'
      using "1.IH" False that "1.prems"(2,3) by auto
    show ?thesis by (rule conditionImplies_step [OF "1.prems" False]; (rule or_left right and_left subq; assumption))
  qed simp
next
  case (2 rel op sc rel' op' sc')
  then have same: "op' = op" "sameRelatedEdge rel rel'" "sc = sc'"
    and cov: "if op = EXISTS then astCoveredBy (subquery rel) (subquery rel')
      else astCoveredBy (subquery rel') (subquery rel)"
    by (simp_all add: correlatedConditionImplies.simps split: if_splits)
  have keys: "correlated_rows (parentField rel) (childField rel) =
      correlated_rows (parentField rel') (childField rel')"
    using same(2) by (simp add: sameRelatedEdge_def)
  show ?case
  proof (cases "op = EXISTS")
    case True
    then have "set (query_rows u8 str db P (subquery rel)) \<subseteq> set (query_rows u8 str db P (subquery rel'))" for P
      using "2.IH"(1) same cov "2.prems"(2,3) by (simp add: ast_safe_eq(2))
    with True same(1) keys show ?thesis
      by (auto simp: exists_rows_eq) (metis empty_subsetI set_empty subset_antisym)
  next
    case False
    then have "set (query_rows u8 str db P (subquery rel')) \<subseteq> set (query_rows u8 str db P (subquery rel))" for P
      using "2.IH"(2) same cov "2.prems"(2,3) by (simp add: ast_safe_eq(2))
    with False same(1) keys show ?thesis
      by (auto simp: exists_rows_eq) (metis empty_subsetI set_empty subset_antisym)
  qed
next
  case (3 covered covering)
  then show ?case
    by (auto simp: optionalConditionImplies.simps where_holds_def split: option.splits)
next
  case (4 covered covering)
  show ?case
  proof (intro allI ballI)
    fix row s
    assume "s \<in> set covered"
    with "4.prems" obtain s' where s': "s' \<in> set covering" "sameRelatedEdge s s'"
      "astCoveredBy (subquery s) (subquery s')" "subq_safe s" "subq_safe s'"
      by (auto simp: relatedCoveredBy.simps list_all_iff list_ex_iff)
    with "4.IH" [of s s'] \<open>s \<in> set covered\<close>
    have "produced u8 str db P (subquery s) \<subseteq> produced u8 str db P (subquery s')" for P
      by (simp add: ast_safe_eq(2))
    with s' show "\<exists>s' \<in> set covering. produced_related u8 str db row s \<subseteq> produced_related u8 str db row s'"
      by (auto simp: produced_related_eq sameRelatedEdge_def intro!: bexI [of _ s'])
  qed
next
  case (5 covered covering)
  have safe: "pred_option cond_safe (ast_where covered)" "pred_option cond_safe (ast_where covering)"
    using "5.prems"(2,3) by (simp_all add: ast_safe_eq)
  have "(ast_limit covering = None \<and> (ast_start covering = None \<or>
        ast_start covered = ast_start covering \<and> ast_orderBy covered = ast_orderBy covering)) \<or>
      (\<exists>k l. ast_limit covered = Some k \<and> ast_limit covering = Some l \<and> k \<le> l \<and>
        (\<forall>r. where_holds u8 str db r (ast_where covering) \<longrightarrow> where_holds u8 str db r (ast_where covered)) \<and>
        ast_start covered = ast_start covering \<and> ast_orderBy covered = ast_orderBy covering)"
    using "5.prems"(1) "5.IH"(2) safe
    by (auto simp: boundsCoveredBy.simps not_less split: option.splits if_splits)
  then show ?case
    using bounds_sound [OF "5.prems"(4)] "5.prems"(6) by blast
next
  case (6 covered covering)
  note c = "6.prems"(1) [unfolded astCoveredBy.simps [of covered covering]]
  have safe: "pred_option cond_safe (ast_where covered)" "pred_option cond_safe (ast_where covering)"
    "pred_option (list_all subq_safe) (ast_related covered)"
    "pred_option (list_all subq_safe) (ast_related covering)"
    using "6.prems"(2,3) by (simp_all add: ast_safe_eq)
  have tab: "ast_table covered = ast_table covering" and whr: "optionalConditionImplies (ast_where covered) (ast_where covering)"
    and bnd: "boundsCoveredBy covered covering" using c by simp_all
  have rows: "set (query_rows u8 str db P covered) \<subseteq> set (query_rows u8 str db P covering)" for P
    using "6.IH"(3) [OF bnd "6.prems"(2,3) tab whr "6.IH"(1) [OF whr safe(1,2)]] by blast
  have related: "(case ast_related covered of None \<Rightarrow> {} | Some rs \<Rightarrow> \<Union>s \<in> set rs. produced_related u8 str db r s)
    \<subseteq> (case ast_related covering of None \<Rightarrow> {} | Some rs \<Rightarrow> \<Union>s \<in> set rs. produced_related u8 str db r s)" for r
  proof (cases "ast_related covered")
    case (Some rs)
    show ?thesis
    proof (cases "rs = []")
      case False
      with Some c obtain rs' where rs': "ast_related covering = Some rs'" "relatedCoveredBy rs rs'"
        by (auto split: option.splits)
      then have "\<forall>row. \<forall>s \<in> set rs. \<exists>s' \<in> set rs'.
          produced_related u8 str db row s \<subseteq> produced_related u8 str db row s'"
        using "6.IH"(2) [OF Some rs'(1) rs'(2)] safe(3,4) Some by simp
      with Some rs'(1) show ?thesis by fastforce
    qed (simp add: Some)
  qed simp
  show ?case
    unfolding produced_eq tab using rows related by fastforce
qed

subsection \<open>Properties\<close>

text \<open>C30: When the check says that a (normalised) query is covered by another, the covering query produces
  every row the covered one does, at the root and in every related query, on every database, through
  filters, subqueries, start, order and limit. Literals must be JSON values and no comparison may be
  \<open>!= null\<close>.\<close>

theorem astCoveredBy_sound:
  assumes "astCoveredBy covered covering" and "ast_safe covered" and "ast_safe covering"
  shows "produced u8 str db P covered \<subseteq> produced u8 str db P covering"
  using covering_sound(6) [OF assms] by blast

definition narrow_query :: ast where
  "narrow_query = AST None ''issue'' None
     (Some (And [Simple OpEq (PColumn ''id'') (PLiteral (LScalar (JNum 3))),
       Simple OpGt (PColumn ''n'') (PLiteral (LScalar (JNum 10)))]))
     None None (Some 5) None"

definition wide_query :: ast where
  "wide_query = AST None ''issue'' None
     (Some (Or [Simple OpIn (PColumn ''id'') (PLiteral (LArray [JNum 1, JNum 3])),
       Simple OpGt (PColumn ''n'') (PLiteral (LScalar (JNum 20)))]))
     None None None None"

definition issue_db :: db where
  "issue_db t = [[(''id'', JNum 3), (''n'', JNum 12)], [(''id'', JNum 4), (''n'', JNum 12)]]"

theorem astCoveredBy_sound_witness:
  "(''issue'', [(''id'', JNum 3), (''n'', JNum 12)]) \<in> produced utf8_lex sample_str issue_db (\<lambda>r. True) wide_query"
proof -
  have "astCoveredBy narrow_query wide_query" by code_simp
  moreover have "ast_safe narrow_query" "ast_safe wide_query"
    by (simp_all add: narrow_query_def wide_query_def)
  moreover have "query_rows utf8_lex sample_str issue_db (\<lambda>r. True) narrow_query = [[(''id'', JNum 3), (''n'', JNum 12)]]"
    by code_simp
  then have "(''issue'', [(''id'', JNum 3), (''n'', JNum 12)]) \<in> produced utf8_lex sample_str issue_db (\<lambda>r. True) narrow_query"
    by (simp add: produced_eq narrow_query_def)
  ultimately show ?thesis using astCoveredBy_sound by blast
qed

text \<open>The check is unsound for \<open>!= null\<close> and for \<open>FALSE\<close>: it says that a query for \<open>id = 3\<close> is covered by
  the query for \<open>id != null\<close>, and by the query whose filter is the empty disjunction, although neither of
  these produces any row on a database where the covered query does.\<close>

theorem isQueryCoveredBy_unsound:
  "let covered = AST None ''issue'' None (Some (Simple OpEq (PColumn ''id'') (PLiteral (LScalar (JNum 3))))) None None None None;
       not_null = AST None ''issue'' None (Some (Simple OpNe (PColumn ''id'') (PLiteral (LScalar JNull)))) None None None None;
       never = AST None ''issue'' None (Some (or_expr [])) None None None None
   in isQueryCoveredBy utf8_lex sample_str covered not_null = Inr True \<and>
      isQueryCoveredBy utf8_lex sample_str covered never = Inr True \<and>
      query_rows utf8_lex sample_str issue_db (\<lambda>r. True) covered \<noteq> [] \<and>
      query_rows utf8_lex sample_str issue_db (\<lambda>r. True) not_null = [] \<and>
      query_rows utf8_lex sample_str issue_db (\<lambda>r. True) never = []"
  unfolding Let_def by (intro conjI; code_simp)

end
