(* ===== verification/NormalizeProps.thy ===== *)
theory NormalizeProps
  imports QueryCoveringProps
begin

section \<open>Normalisation keeps the result of a query\<close>

text \<open>
  What \<open>normalizeAST\<close> does to a query at every level (flattening and sorting conditions, sorting related queries, subqueries
  included) changes nothing of what it produces on a database, provided that no condition has an empty
  conjunction or disjunction: those are dropped.
\<close>

text \<open>No empty junction at any depth, and the columns of a start are the keys of an object.\<close>

fun plain_ast :: "ast \<Rightarrow> bool" and plain_cond :: "condition \<Rightarrow> bool" and plain_subq :: "correlated_subquery \<Rightarrow> bool" where
  "plain_ast (AST schm t al whr rel st lmt ord) \<longleftrightarrow> pred_option plain_cond whr \<and>
     pred_option (list_all plain_subq) rel \<and> pred_option (\<lambda>s. distinct (map fst (fst s))) st"
| "plain_cond (And cs) \<longleftrightarrow> cs \<noteq> [] \<and> list_all plain_cond cs"
| "plain_cond (Or cs) \<longleftrightarrow> cs \<noteq> [] \<and> list_all plain_cond cs"
| "plain_cond (Correlated rel op flp sc) \<longleftrightarrow> plain_subq rel"
| "plain_cond (Simple op l r) \<longleftrightarrow> True"
| "plain_subq (Subquery pf cf sub sys hid) \<longleftrightarrow> plain_ast sub"

lemma plain_no_constants: "plain_cond c \<Longrightarrow> no_constants c"
  by (induction c rule: no_constants.induct) (auto simp: list_all_iff)

text \<open>Flattening keeps a property of conditions that junctions inherit from their members.\<close>

lemma flattened_keeps:
  assumes down: "\<And>cs. Q (And cs) \<Longrightarrow> list_all Q cs" "\<And>cs. Q (Or cs) \<Longrightarrow> list_all Q cs"
    and up: "\<And>cs. cs \<noteq> [] \<Longrightarrow> list_all Q cs \<Longrightarrow> Q (And cs)" "\<And>cs. cs \<noteq> [] \<Longrightarrow> list_all Q cs \<Longrightarrow> Q (Or cs)"
  shows "Q c \<Longrightarrow> flattened c = Some d \<Longrightarrow> Q d"
proof (induction c arbitrary: d rule: measure_induct_rule [of size])
  case (less c)
  have members: "list_all Q (filterUndefined (map flattened (flatten_conds ty cs)))"
    if "c = And cs \<or> c = Or cs" for ty cs
  proof -
    have cs: "list_all Q cs" "size c = Suc (cond_weight cs)"
      using less.prems(1) that down by (auto simp: size_junction simp del: condition.size)
    have flat: "list_all Q (flatten_conds ty cs)"
      using cs(1)
    proof (induction cs)
      case (Cons e es)
      then show ?case using down by (cases e) auto
    qed simp
    have "Q f" if "e \<in> set (flatten_conds ty cs)" "flattened e = Some f" for e f
      using less.IH [OF _ _ that(2)] in_flatten_conds [OF that(1)] cs(2) flat that(1) by (simp add: list_all_iff)
    then show ?thesis by (auto simp: list_all_iff filterUndefined_def map_filter_def)
  qed
  show ?case
  proof (cases c)
    case (And cs)
    with members [of cs cond_TRUE] less.prems(2) up show ?thesis
      by (auto simp: flattened_junction simp del: flattened.simps split: list.splits)
  next
    case (Or cs)
    with members [of cs cond_FALSE] less.prems(2) up show ?thesis
      by (auto simp: flattened_junction simp del: flattened.simps split: list.splits)
  qed (use less.prems in auto)
qed

lemma plain_flattened: "plain_cond c \<Longrightarrow> flattened c = Some d \<Longrightarrow> plain_cond d"
  by (rule flattened_keeps [where Q = plain_cond]) auto

lemma safe_flattened: "cond_safe c \<Longrightarrow> flattened c = Some d \<Longrightarrow> cond_safe d"
  by (rule flattened_keeps [where Q = cond_safe]) auto

lemma satisfies_eval: "satisfies u8 str db r c = eval_cond (satisfies u8 str db r) c"
proof (induction c rule: measure_induct_rule [of size])
  case (less c)
  have "list_all (satisfies u8 str db r) cs = list_all (eval_cond (satisfies u8 str db r)) cs \<and>
      list_ex (satisfies u8 str db r) cs = list_ex (eval_cond (satisfies u8 str db r)) cs" if "c = And cs \<or> c = Or cs" for cs
  proof -
    have "satisfies u8 str db r e = eval_cond (satisfies u8 str db r) e" if "e \<in> set cs" for e
      using less.IH in_cond_weight [OF that] \<open>c = And cs \<or> c = Or cs\<close>
      by (auto simp: size_junction simp del: condition.size)
    then show ?thesis by (simp add: list_all_iff list_ex_iff)
  qed
  then show ?case by (cases c) auto
qed

lemma satisfies_flattened:
  assumes "plain_cond c" "flattened c = Some d"
  shows "satisfies u8 str db r d = satisfies u8 str db r c"
  using flattened_eval [OF plain_no_constants [OF assms(1)]] assms(2)
  by (subst (1 2) satisfies_eval) auto

lemma flattened_plain_Some: "plain_cond c \<Longrightarrow> \<exists>d. flattened c = Some d"
  using flattened_eval plain_no_constants by blast

lemma tr_start_normal:
  assumes "distinct (map fst (fst s))"
  shows "tr_start (NORMALIZE_TRANSFORM u8 str) t s = s"
proof -
  have "fold (\<lambda>(col, val) obj. AList.update col val obj) (fst s) [] = fst s"
    using update_distinct [OF assms, of "[]"] unfolding foldl_conv_fold by (simp add: case_prod_unfold)
  then show ?thesis by (simp add: tr_start_def)
qed

lemma traverse_map:
  assumes "traverse f cs = Inr ds" "\<And>c d. c \<in> set cs \<Longrightarrow> f c = Inr d \<Longrightarrow> P d = Q c"
  shows "map P ds = map Q cs"
  using assms(1) [unfolded traverse_eq_Inr] assms(2)
  by (auto simp: list_all2_conv_all_nth intro!: nth_equalityI)

lemma traverse_members:
  assumes "traverse f cs = Inr ds" "\<And>c d. c \<in> set cs \<Longrightarrow> f c = Inr d \<Longrightarrow> P d = Q c"
  shows "list_all P ds = list_all Q cs \<and> list_ex P ds = list_ex Q cs"
proof -
  have "list_all P ds = list_all id (map P ds) \<and> list_ex P ds = list_ex id (map P ds)" by (induction ds) auto
  moreover have "list_all Q cs = list_all id (map Q cs) \<and> list_ex Q cs = list_ex id (map Q cs)" by (induction cs) auto
  moreover have "map P ds = map Q cs" by (rule traverse_map [OF assms])
  ultimately show ?thesis by simp
qed

lemma traverse_union:
  assumes "traverse f cs = Inr ds" "\<And>c d. c \<in> set cs \<Longrightarrow> f c = Inr d \<Longrightarrow> P d = Q c"
  shows "(\<Union>d \<in> set ds. P d) = (\<Union>c \<in> set cs. Q c)"
proof -
  have "set (map P ds) = set (map Q cs)" using traverse_map [OF assms] by simp
  then show ?thesis by simp
qed

lemma normalize_same:
  "plain_ast a \<Longrightarrow> transformAST (NORMALIZE_TRANSFORM u8 str) a = Inr a' \<Longrightarrow>
     ast_table a' = ast_table a \<and> query_rows u8 str db P a' = query_rows u8 str db P a \<and>
     produced u8 str db P a' = produced u8 str db P a"
  "plain_cond c \<Longrightarrow> transformWhere (NORMALIZE_TRANSFORM u8 str) table c = Inr d \<Longrightarrow>
     satisfies u8 str db r d = satisfies u8 str db r c"
  "plain_subq s \<Longrightarrow> transformSubquery (NORMALIZE_TRANSFORM u8 str) table s = Inr s' \<Longrightarrow>
     exists_rows u8 str db r s' = exists_rows u8 str db r s \<and> produced_related u8 str db r s' = produced_related u8 str db r s"
proof (induction "NORMALIZE_TRANSFORM u8 str" a and "NORMALIZE_TRANSFORM u8 str" table c
    and "NORMALIZE_TRANSFORM u8 str" table s arbitrary: a' P and d r and s' r
    rule: transformAST_transformWhere_transformSubquery.induct)
  case (1 schm table al whr related start limit order)
  let ?tr = "NORMALIZE_TRANSFORM u8 str"
  obtain whr' related' where raw: "traverse_option (transformWhere ?tr table) (case whr of None \<Rightarrow> None | Some w \<Rightarrow> tr_where ?tr w) = Inr whr'"
    "traverse_option (\<lambda>rs. bind_result (traverse (transformSubquery ?tr table) rs) (tr_related ?tr)) related = Inr related'"
    "a' = AST schm (tr_table ?tr table) al whr' related' (map_option (tr_start ?tr table) start) limit
        (map_option (map (\<lambda>(col, dir). (tr_column ?tr table col, dir))) order)"
    using "1.prems"(2) unfolding transformAST.simps bind_result_eq_Inr by blast
  have "tr_where ?tr = flattened" "tr_related ?tr = js_sort (cmpRelated u8)" by (simp_all add: fun_eq_iff)
  note w = raw(1) [unfolded this] and rel = raw(2) [unfolded this]
  have a': "a' = AST schm table al whr' related' (map_option (tr_start ?tr table) start) limit
      (map_option (map (\<lambda>(col, dir). (col, dir))) order)" using raw(3) by (simp only: tr_table.simps tr_column.simps)
  have same: "map_option (tr_start (NORMALIZE_TRANSFORM u8 str) table) start = start"
    "map_option (map (\<lambda>(col, dir). (col, dir))) order = order"
    using "1.prems"(1) by (cases start; simp add: tr_start_normal) (cases order; simp add: case_prod_unfold)
  have holds: "(case whr' of None \<Rightarrow> True | Some c \<Rightarrow> satisfies u8 str db r c) =
      (case whr of None \<Rightarrow> True | Some c \<Rightarrow> satisfies u8 str db r c)" for r
  proof (cases whr)
    case None
    with w show ?thesis by simp
  next
    case (Some c)
    with "1.prems"(1) have c: "plain_cond c" by simp
    then obtain e where e: "flattened c = Some e" using flattened_plain_Some by blast
    with w Some obtain f where f: "transformWhere (NORMALIZE_TRANSFORM u8 str) table e = Inr f" "whr' = Some f"
      by (auto simp: bind_result_eq_Inr)
    have "satisfies u8 str db r f = satisfies u8 str db r e"
      using "1.hyps"(1) [of e] plain_flattened [OF c e] f Some e by simp
    with satisfies_flattened [OF c e] f Some show ?thesis by simp
  qed
  have rows: "query_rows u8 str db P a' = query_rows u8 str db P (AST schm table al whr related start limit order)"
    unfolding a' same by (simp add: holds)
  have below: "(case related' of None \<Rightarrow> {} | Some rs \<Rightarrow> \<Union>s \<in> set rs. produced_related u8 str db r s) =
      (case related of None \<Rightarrow> {} | Some rs \<Rightarrow> \<Union>s \<in> set rs. produced_related u8 str db r s)" for r
  proof (cases related)
    case None
    with rel show ?thesis by simp
  next
    case (Some rs)
    with rel obtain qs ss where q: "traverse (transformSubquery (NORMALIZE_TRANSFORM u8 str) table) rs = Inr qs"
      "js_sort (cmpRelated u8) qs = Inr ss" "related' = Some ss" by (auto simp: bind_result_eq_Inr)
    have "(\<Union>s \<in> set qs. produced_related u8 str db r s) = (\<Union>s \<in> set rs. produced_related u8 str db r s)"
    proof (rule traverse_union [OF q(1)])
      fix s s' assume s: "s \<in> set rs" "transformSubquery (NORMALIZE_TRANSFORM u8 str) table s = Inr s'"
      have "plain_subq s" using "1.prems"(1) Some s(1) by (simp add: list_all_iff)
      then show "produced_related u8 str db r s' = produced_related u8 str db r s"
        using "1.hyps"(2) [OF raw(1)] Some s by blast
    qed
    with set_js_sort [OF q(2)] q(3) Some show ?thesis by simp
  qed
  have "produced u8 str db P a' = produced u8 str db P (AST schm table al whr related start limit order)"
    unfolding produced_eq rows by (simp add: a' below)
  with rows show ?case by (simp add: a')
next
  case (2 table op left right)
  then show ?case by (cases left) auto
next
  case (3 table related op flp sc)
  then show ?case by (auto simp: bind_result_eq_Inr)
next
  case (4 table cs)
  then obtain ds es where ds: "traverse (transformWhere (NORMALIZE_TRANSFORM u8 str) table) cs = Inr ds"
    "js_sort (cmpCondition u8 str) ds = Inr es" "d = And es" by (auto simp: bind_result_eq_Inr)
  have "list_all (satisfies u8 str db r) ds = list_all (satisfies u8 str db r) cs \<and>
      list_ex (satisfies u8 str db r) ds = list_ex (satisfies u8 str db r) cs"
    by (rule traverse_members [OF ds(1)]) (use 4 in \<open>auto simp: list_all_iff\<close>)
  with set_js_sort [OF ds(2)] ds(3) show ?case by (simp add: list_all_iff)
next
  case (5 table cs)
  then obtain ds es where ds: "traverse (transformWhere (NORMALIZE_TRANSFORM u8 str) table) cs = Inr ds"
    "js_sort (cmpCondition u8 str) ds = Inr es" "d = Or es" by (auto simp: bind_result_eq_Inr)
  have "list_all (satisfies u8 str db r) ds = list_all (satisfies u8 str db r) cs \<and>
      list_ex (satisfies u8 str db r) ds = list_ex (satisfies u8 str db r) cs"
    by (rule traverse_members [OF ds(1)]) (use 5 in \<open>auto simp: list_all_iff\<close>)
  with set_js_sort [OF ds(2)] ds(3) show ?case by (simp add: list_ex_iff)
next
  case (6 table pf cf sub sys hid)
  have key: "tr_key (NORMALIZE_TRANSFORM u8 str) t k = Inr k' \<Longrightarrow> k' = k" for t k k'
    by (auto simp: tr_key_def mustCompoundKey_def map_idI split: if_splits)
  from "6.prems"(2) obtain pf' cf' sub' where parts: "tr_key (NORMALIZE_TRANSFORM u8 str) table pf = Inr pf'"
    "tr_key (NORMALIZE_TRANSFORM u8 str) (ast_table sub) cf = Inr cf'"
    "transformAST (NORMALIZE_TRANSFORM u8 str) sub = Inr sub'" "s' = Subquery pf' cf' sub' sys hid"
    unfolding transformSubquery.simps bind_result_eq_Inr by blast
  have "query_rows u8 str db P sub' = query_rows u8 str db P sub \<and> produced u8 str db P sub' = produced u8 str db P sub" for P
    using "6.hyps"(1) [OF parts(1,2)] "6.prems"(1) parts(3) by simp
  then show ?case by (simp add: parts(4) key [OF parts(1)] key [OF parts(2)])
qed

text \<open>Normalisation keeps the condition of the covering check.\<close>

lemma traverse_all:
  assumes "traverse f cs = Inr ds" "\<And>c d. c \<in> set cs \<Longrightarrow> f c = Inr d \<Longrightarrow> P d"
  shows "list_all P ds"
  using traverse_members [OF assms(1), of P "\<lambda>_. True"] assms(2) by (simp add: list_all_iff)

lemma normalize_safe:
  "ast_safe a \<Longrightarrow> transformAST (NORMALIZE_TRANSFORM u8 str) a = Inr a' \<Longrightarrow> ast_safe a'"
  "cond_safe c \<Longrightarrow> transformWhere (NORMALIZE_TRANSFORM u8 str) table c = Inr d \<Longrightarrow> cond_safe d"
  "subq_safe s \<Longrightarrow> transformSubquery (NORMALIZE_TRANSFORM u8 str) table s = Inr s' \<Longrightarrow> subq_safe s'"
proof (induction "NORMALIZE_TRANSFORM u8 str" a and "NORMALIZE_TRANSFORM u8 str" table c
    and "NORMALIZE_TRANSFORM u8 str" table s arbitrary: a' and d and s'
    rule: transformAST_transformWhere_transformSubquery.induct)
  case (1 schm table al whr related start limit order)
  let ?tr = "NORMALIZE_TRANSFORM u8 str"
  obtain whr' related' where raw: "traverse_option (transformWhere ?tr table) (case whr of None \<Rightarrow> None | Some w \<Rightarrow> tr_where ?tr w) = Inr whr'"
    "traverse_option (\<lambda>rs. bind_result (traverse (transformSubquery ?tr table) rs) (tr_related ?tr)) related = Inr related'"
    "a' = AST schm (tr_table ?tr table) al whr' related' (map_option (tr_start ?tr table) start) limit
        (map_option (map (\<lambda>(col, dir). (tr_column ?tr table col, dir))) order)"
    using "1.prems"(2) unfolding transformAST.simps bind_result_eq_Inr by blast
  have "pred_option cond_safe whr'"
  proof (cases "case whr of None \<Rightarrow> None | Some w \<Rightarrow> tr_where ?tr w")
    case None
    with raw(1) show ?thesis by simp
  next
    case (Some e)
    then obtain c where c: "whr = Some c" "flattened c = Some e" by (cases whr) auto
    from raw(1) Some obtain f where f: "transformWhere ?tr table e = Inr f" "whr' = Some f" by (auto simp: bind_result_eq_Inr)
    have "cond_safe e" using safe_flattened [OF _ c(2)] "1.prems"(1) c(1) by simp
    with "1.hyps"(1) [of e f] Some f show ?thesis by simp
  qed
  moreover have "pred_option (list_all subq_safe) related'"
  proof (cases related)
    case None
    with raw(2) show ?thesis by simp
  next
    case (Some rs)
    with raw(2) obtain qs ss where q: "traverse (transformSubquery ?tr table) rs = Inr qs"
      "js_sort (cmpRelated u8) qs = Inr ss" "related' = Some ss" by (auto simp: bind_result_eq_Inr)
    have "list_all subq_safe qs"
    proof (rule traverse_all [OF q(1)])
      fix s s' assume s: "s \<in> set rs" "transformSubquery ?tr table s = Inr s'"
      have "subq_safe s" using "1.prems"(1) Some s(1) by (simp add: list_all_iff)
      then show "subq_safe s'" using "1.hyps"(2) [OF raw(1)] Some s by blast
    qed
    with set_js_sort [OF q(2)] q(3) show ?thesis by (simp add: list_all_iff)
  qed
  ultimately show ?case by (simp add: raw(3))
next
  case (2 table op left right)
  then show ?case by auto
next
  case (3 table related op flp sc)
  then show ?case by (auto simp: bind_result_eq_Inr)
next
  case (4 table cs)
  then obtain ds es where ds: "traverse (transformWhere (NORMALIZE_TRANSFORM u8 str) table) cs = Inr ds"
    "js_sort (cmpCondition u8 str) ds = Inr es" "d = And es" by (auto simp: bind_result_eq_Inr)
  have "list_all cond_safe ds"
  proof (rule traverse_all [OF ds(1)])
    fix c d assume c: "c \<in> set cs" "transformWhere (NORMALIZE_TRANSFORM u8 str) table c = Inr d"
    have "cond_safe c" using "4.prems"(1) c(1) by (simp add: list_all_iff)
    from "4.hyps"(1) [OF c(1) this c(2)] show "cond_safe d" .
  qed
  with set_js_sort [OF ds(2)] ds(3) show ?case by (simp add: list_all_iff)
next
  case (5 table cs)
  then obtain ds es where ds: "traverse (transformWhere (NORMALIZE_TRANSFORM u8 str) table) cs = Inr ds"
    "js_sort (cmpCondition u8 str) ds = Inr es" "d = Or es" by (auto simp: bind_result_eq_Inr)
  have "list_all cond_safe ds"
  proof (rule traverse_all [OF ds(1)])
    fix c d assume c: "c \<in> set cs" "transformWhere (NORMALIZE_TRANSFORM u8 str) table c = Inr d"
    have "cond_safe c" using "5.prems"(1) c(1) by (simp add: list_all_iff)
    from "5.hyps"(1) [OF c(1) this c(2)] show "cond_safe d" .
  qed
  with set_js_sort [OF ds(2)] ds(3) show ?case by (simp add: list_all_iff)
next
  case (6 table pf cf sub sys hid)
  from "6.prems"(2) obtain pf' cf' sub' where parts: "tr_key (NORMALIZE_TRANSFORM u8 str) table pf = Inr pf'"
    "tr_key (NORMALIZE_TRANSFORM u8 str) (ast_table sub) cf = Inr cf'"
    "transformAST (NORMALIZE_TRANSFORM u8 str) sub = Inr sub'" "s' = Subquery pf' cf' sub' sys hid"
    unfolding transformSubquery.simps bind_result_eq_Inr by blast
  then show ?case using "6.hyps"(1) [OF parts(1,2)] "6.prems"(1) by simp
qed

subsection \<open>Properties\<close>

text \<open>C37: Normalising a query (flattening and sorting its conditions and sorting its related queries, in every subquery too)
  keeps its result on every database: the same rows in the same order, and the same rows below them, with \<open>EXISTS\<close>
  evaluated by the normalised subqueries. No condition may hold an empty conjunction or disjunction, which normalisation drops, and
  a start names each column once.\<close>

theorem normalizeAST_keeps_result:
  assumes "plain_ast q" and "normalizeAST u8 str q = Inr q'"
  shows "query_rows u8 str db P q' = query_rows u8 str db P q \<and> produced u8 str db P q' = produced u8 str db P q"
  using normalize_same(1) [OF assms(1) assms(2) [unfolded normalizeAST_def]] by blast

text \<open>A sample: the issues numbered above 10 for which there is one with the same \<open>n\<close> whose \<open>id\<close> is 4 or 9.\<close>

definition same_n :: "condition \<Rightarrow> condition" where
  "same_n c = Correlated (Subquery [''n''] [''n''] (AST None ''issue'' None (Some c) None None None None) None None) EXISTS None None"

definition id_is :: "nat \<Rightarrow> condition" where
  "id_is k = Simple OpEq (PColumn ''id'') (PLiteral (LScalar (JNum (of_nat k))))"

definition above_ten :: condition where
  "above_ten = Simple OpGt (PColumn ''n'') (PLiteral (LScalar (JNum 10)))"

definition nested_query :: ast where
  "nested_query = AST None ''issue'' None (Some (And [And [same_n (Or [Or [id_is 9], And [id_is 4]])], above_ten])) None None None None"

definition nested_normal :: ast where
  "nested_normal = AST None ''issue'' None (Some (And [above_ten, same_n (Or [id_is 9, id_is 4])])) None None None None"

theorem normalizeAST_keeps_result_witness:
  "normalizeAST utf8_lex sample_str nested_query = Inr nested_normal \<and>
   query_rows utf8_lex sample_str issue_db (\<lambda>r. True) nested_query =
     [[(''id'', JNum 3), (''n'', JNum 12)], [(''id'', JNum 4), (''n'', JNum 12)]]"
proof -
  have plain: "plain_ast nested_query"
    by (simp add: nested_query_def same_n_def id_is_def above_ten_def)
  have nrm: "normalizeAST utf8_lex sample_str nested_query = Inr nested_normal" by code_simp
  have "query_rows utf8_lex sample_str issue_db (\<lambda>r. True) nested_normal =
      [[(''id'', JNum 3), (''n'', JNum 12)], [(''id'', JNum 4), (''n'', JNum 12)]]" by code_simp
  with normalizeAST_keeps_result [OF plain nrm, of issue_db "\<lambda>r. True"] nrm show ?thesis by simp
qed

text \<open>C31: When the whole check, normalisation included, says that a query is covered by another, the covering query produces every
  row the covered one does, at the root and in every related query, on every database. Both are as above, literals are
  JSON values and no comparison is \<open>!= null\<close>.\<close>

theorem isQueryCoveredBy_sound:
  assumes "isQueryCoveredBy u8 str covered covering = Inr True"
    and "plain_ast covered" "plain_ast covering" and "ast_safe covered" "ast_safe covering"
  shows "produced u8 str db P covered \<subseteq> produced u8 str db P covering"
proof -
  from assms(1) obtain a b where nrm: "normalizeAST u8 str covered = Inr a" "normalizeAST u8 str covering = Inr b" "astCoveredBy a b"
    by (auto simp: isQueryCoveredBy_def bind_result_eq_Inr)
  note safe = normalize_safe(1) [OF assms(4) nrm(1) [unfolded normalizeAST_def]]
    normalize_safe(1) [OF assms(5) nrm(2) [unfolded normalizeAST_def]]
  have "produced u8 str db P a \<subseteq> produced u8 str db P b" using covering_sound(6) [OF nrm(3) safe] by blast
  moreover have "produced u8 str db P a = produced u8 str db P covered"
    using normalize_same(1) [OF assms(2) nrm(1) [unfolded normalizeAST_def]] by blast
  moreover have "produced u8 str db P b = produced u8 str db P covering"
    using normalize_same(1) [OF assms(3) nrm(2) [unfolded normalizeAST_def]] by blast
  ultimately show ?thesis by simp
qed

theorem isQueryCoveredBy_sound_witness:
  "isQueryCoveredBy utf8_lex sample_str nested_query (AST None ''issue'' None (Some (And [And [above_ten]])) None None None None) = Inr True \<and>
   (''issue'', [(''id'', JNum 3), (''n'', JNum 12)]) \<in>
     produced utf8_lex sample_str issue_db (\<lambda>r. True) (AST None ''issue'' None (Some (And [And [above_ten]])) None None None None)"
proof -
  let ?wide = "AST None ''issue'' None (Some (And [And [above_ten]])) None None None None"
  have check: "isQueryCoveredBy utf8_lex sample_str nested_query ?wide = Inr True" by code_simp
  have plain: "plain_ast nested_query" "plain_ast ?wide" and safe: "ast_safe nested_query" "ast_safe ?wide"
    by (simp_all add: nested_query_def same_n_def id_is_def above_ten_def)
  have "query_rows utf8_lex sample_str issue_db (\<lambda>r. True) nested_query =
      [[(''id'', JNum 3), (''n'', JNum 12)], [(''id'', JNum 4), (''n'', JNum 12)]]" by code_simp
  then have "(''issue'', [(''id'', JNum 3), (''n'', JNum 12)]) \<in> produced utf8_lex sample_str issue_db (\<lambda>r. True) nested_query"
    by (simp add: produced_eq) (simp add: nested_query_def)
  with isQueryCoveredBy_sound [OF check plain safe, of issue_db "\<lambda>r. True"] check show ?thesis by blast
qed

end
