(* ===== verification/QueryIndexProps.thy ===== *)
theory QueryIndexProps
  imports QueryCovering
begin

section \<open>The index of running queries\<close>

text \<open>
  The invariant that ties the two maps of \<open>QueryCoveringIndex\<close> together, its preservation by every
  operation, and the refinement: the index behaves as the map from query ids to running queries.
\<close>

text \<open>What the index stores for a query id.\<close>

definition index_lookup :: "covering_index \<Rightarrow> string \<Rightarrow> (running_query \<times> ast) option" where
  "index_lookup idx queryID = (case map_of (queryIDToRoot idx) queryID of
     None \<Rightarrow> None
   | Some rk \<Rightarrow> (case map_of (byRoot idx) rk of None \<Rightarrow> None | Some qs \<Rightarrow> map_of qs queryID))"

definition bucket :: "covering_index \<Rightarrow> root_key \<Rightarrow> (string \<times> running_query \<times> ast) list" where
  "bucket idx rk = (case map_of (byRoot idx) rk of None \<Rightarrow> [] | Some qs \<Rightarrow> qs)"

text \<open>
  No key occurs twice, no bucket is empty, and a query is in the bucket of its root exactly when the
  second map sends its id there.
\<close>

definition index_shape :: "covering_index \<Rightarrow> bool" where
  "index_shape idx \<longleftrightarrow>
     distinct (map fst (byRoot idx)) \<and> distinct (map fst (queryIDToRoot idx)) \<and>
     (\<forall>rk qs. map_of (byRoot idx) rk = Some qs \<longrightarrow> qs \<noteq> [] \<and> distinct (map fst qs))"

definition maps_agree ::
    "(root_key \<Rightarrow> string \<Rightarrow> (running_query \<times> ast) option) \<Rightarrow> (string \<Rightarrow> root_key option) \<Rightarrow> bool" where
  "maps_agree B R \<longleftrightarrow>
     (\<forall>rk i q nrm. B rk i = Some (q, nrm) \<longrightarrow> rootKey nrm = rk) \<and> (\<forall>rk i. B rk i \<noteq> None \<longleftrightarrow> R i = Some rk)"

definition index_inv :: "covering_index \<Rightarrow> bool" where
  "index_inv idx \<longleftrightarrow> index_shape idx \<and>
     maps_agree (\<lambda>rk. map_of (bucket idx rk)) (map_of (queryIDToRoot idx))"

lemma maps_agree_remove:
  "maps_agree B R \<Longrightarrow> maps_agree (\<lambda>rk. (B rk)(i := None)) (R(i := None))"
  unfolding maps_agree_def by simp

lemma maps_agree_absent: "maps_agree B R \<Longrightarrow> R i = None \<Longrightarrow> B rk i = None"
  unfolding maps_agree_def by (metis option.discI)

lemma maps_agree_other: "maps_agree B R \<Longrightarrow> R i = Some rk' \<Longrightarrow> rk \<noteq> rk' \<Longrightarrow> B rk i = None"
  unfolding maps_agree_def by (metis option.inject)

lemma maps_agree_put:
  "maps_agree B R \<Longrightarrow> R i = None \<Longrightarrow>
   maps_agree (\<lambda>rk. if rk = rootKey nrm then (B rk)(i \<mapsto> (q, nrm)) else B rk) (R(i \<mapsto> rootKey nrm))"
  using maps_agree_absent [of B R i] unfolding maps_agree_def by simp metis

lemma maps_agree_lookup:
  "maps_agree B R \<Longrightarrow> (\<exists>rk. R i = Some rk \<and> B rk i = Some (q, nrm)) \<longleftrightarrow> B (rootKey nrm) i = Some (q, nrm)"
  unfolding maps_agree_def by (metis option.discI)

lemma index_lookup_bucket:
  assumes "index_inv idx"
  shows "index_lookup idx i = Some (q, nrm) \<longleftrightarrow> map_of (bucket idx (rootKey nrm)) i = Some (q, nrm)"
proof -
  have "index_lookup idx i = Some (q, nrm) \<longleftrightarrow>
      (\<exists>rk. map_of (queryIDToRoot idx) i = Some rk \<and> map_of (bucket idx rk) i = Some (q, nrm))"
    by (auto simp: index_lookup_def bucket_def split: option.splits)
  with maps_agree_lookup assms show ?thesis unfolding index_inv_def by blast
qed

lemma index_inv_empty: "index_inv empty_index"
  by (simp add: index_inv_def index_shape_def maps_agree_def empty_index_def bucket_def)

lemma map_of_delete: "map_of (AList.delete k al) = (map_of al)(k := None)"
  by (rule AList.delete_conv')

lemma map_of_update: "map_of (AList.update k v al) = (map_of al)(k \<mapsto> v)"
  by (rule AList.update_conv')

lemma map_of_all_None: "(\<And>i. map_of qs i = None) \<Longrightarrow> qs = []"
  by (metis list.set_intros(1) map_of_eq_None_iff image_eqI neq_Nil_conv)

lemma index_inv_bucketD:
  "index_inv idx \<Longrightarrow> map_of (byRoot idx) rk = Some qs \<Longrightarrow> qs \<noteq> [] \<and> distinct (map fst qs)"
  unfolding index_inv_def index_shape_def by blast

lemma bucket_distinct:
  assumes "index_inv idx"
  shows "distinct (map fst (bucket idx rk))"
proof (cases "map_of (byRoot idx) rk")
  case (Some qs)
  with assms have "distinct (map fst qs)" using index_inv_bucketD by blast
  with Some show ?thesis by (simp add: bucket_def)
qed (simp add: bucket_def)

lemma bucket_remove:
  assumes "index_inv idx"
  shows "map_of (bucket (index_remove i idx) rk) = (map_of (bucket idx rk))(i := None)"
proof (cases "map_of (queryIDToRoot idx) i")
  case None
  then have "map_of (bucket idx rk) i = None"
    using assms maps_agree_absent unfolding index_inv_def by blast
  with None show ?thesis by (simp add: index_remove_def fun_upd_idem)
next
  case (Some rk')
  show ?thesis
  proof (cases "map_of (byRoot idx) rk'")
    case None
    then have "map_of (bucket idx rk') i = None" by (simp add: bucket_def)
    with Some assms show ?thesis unfolding index_inv_def maps_agree_def by blast
  next
    case qs: (Some qs)
    have other: "map_of (bucket idx rk) i = None" if "rk \<noteq> rk'"
      using assms Some that maps_agree_other unfolding index_inv_def by blast
    show ?thesis
      using Some qs other
      by (cases "rk = rk'"; cases "AList.delete i qs = []")
        (auto simp: index_remove_def bucket_def Let_def map_of_delete map_of_update fun_upd_idem
          dest: arg_cong [where f = map_of] split: option.splits)
  qed
qed

lemma distinct_delete: "distinct (map fst al) \<Longrightarrow> distinct (map fst (AList.delete k al))"
  by (rule AList.distinct_delete)

lemma distinct_update: "distinct (map fst al) \<Longrightarrow> distinct (map fst (AList.update k v al))"
  by (rule AList.distinct_update)

lemma roots_remove:
  assumes "index_inv idx"
  shows "map_of (queryIDToRoot (index_remove i idx)) = (map_of (queryIDToRoot idx))(i := None)"
    and "distinct (map fst (queryIDToRoot (index_remove i idx)))"
    and "distinct (map fst (byRoot (index_remove i idx)))"
  using assms unfolding index_inv_def index_shape_def index_remove_def Let_def
  by (auto simp: map_of_delete distinct_delete distinct_update fun_upd_idem simp del: map_of_eq_Some_iff
      split: option.splits)

lemma buckets_remove:
  assumes "index_inv idx" "map_of (byRoot (index_remove i idx)) rk = Some qs"
  shows "qs \<noteq> [] \<and> distinct (map fst qs)"
proof (cases "map_of (queryIDToRoot idx) i")
  case (Some rk')
  show ?thesis
  proof (cases "map_of (byRoot idx) rk'")
    case (Some qs')
    let ?d = "AList.delete i qs'"
    have "map_of (byRoot (index_remove i idx)) rk =
        (if rk = rk' then (if ?d = [] then None else Some ?d) else map_of (byRoot idx) rk)"
      using Some \<open>map_of (queryIDToRoot idx) i = _\<close>
      by (simp add: index_remove_def Let_def map_of_delete map_of_update)
    moreover have "distinct (map fst ?d)"
      by (rule distinct_delete) (rule conjunct2 [OF index_inv_bucketD [OF assms(1) Some]])
    ultimately show ?thesis
      using assms(2) index_inv_bucketD [OF assms(1), of rk qs]
      by (metis option.inject option.discI)
  next
    case None
    with Some have "byRoot (index_remove i idx) = byRoot idx" by (simp add: index_remove_def Let_def)
    with assms index_inv_bucketD show ?thesis by metis
  qed
next
  case None
  then have "index_remove i idx = idx" by (simp add: index_remove_def)
  with assms index_inv_bucketD show ?thesis by metis
qed

lemma index_inv_remove:
  assumes "index_inv idx"
  shows "index_inv (index_remove i idx)"
    unfolding index_inv_def
proof
  show "index_shape (index_remove i idx)"
    using roots_remove(2,3) [OF assms] buckets_remove [OF assms] unfolding index_shape_def by blast
  show "maps_agree (\<lambda>rk. map_of (bucket (index_remove i idx) rk)) (map_of (queryIDToRoot (index_remove i idx)))"
    unfolding bucket_remove [OF assms] roots_remove(1) [OF assms]
    using assms maps_agree_remove unfolding index_inv_def by blast
qed

lemma index_lookup_remove:
  assumes "index_inv idx"
  shows "index_lookup (index_remove i idx) = (index_lookup idx)(i := None)"
proof
  fix j
  have "index_lookup (index_remove i idx) j = Some (q, nrm) \<longleftrightarrow> ((index_lookup idx)(i := None)) j = Some (q, nrm)"
    for q nrm
    using index_lookup_bucket [OF index_inv_remove [OF assms]] index_lookup_bucket [OF assms]
    by (simp add: bucket_remove [OF assms])
  then show "index_lookup (index_remove i idx) j = ((index_lookup idx)(i := None)) j"
    by (metis not_None_eq surj_pair)
qed

text \<open>The index with one more query, after the old entry is gone.\<close>

definition index_put :: "string \<Rightarrow> running_query \<Rightarrow> ast \<Rightarrow> covering_index \<Rightarrow> covering_index" where
  "index_put i q nrm idx = idx\<lparr>
     byRoot := AList.update (rootKey nrm) (AList.update i (q, nrm) (bucket idx (rootKey nrm))) (byRoot idx),
     queryIDToRoot := AList.update i (rootKey nrm) (queryIDToRoot idx)\<rparr>"

lemma index_add_eq:
  "index_add u8 str i q idx = (case normalizeAST u8 str (transformedAst q) of
     Inl e \<Rightarrow> (Inl e, index_remove i idx)
   | Inr nrm \<Rightarrow> (Inr (), index_put i q nrm (index_remove i idx)))"
  by (simp add: index_add_def index_put_def bucket_def Let_def split: sum.splits option.splits)

lemma bucket_put:
  "map_of (bucket (index_put i q nrm idx) rk) =
     (if rk = rootKey nrm then (map_of (bucket idx rk))(i \<mapsto> (q, nrm)) else map_of (bucket idx rk))"
  by (simp add: index_put_def bucket_def map_of_update)

lemma index_inv_put:
  assumes "index_inv idx" "map_of (queryIDToRoot idx) i = None"
  shows "index_inv (index_put i q nrm idx)"
  unfolding index_inv_def
proof
  have "distinct (map fst (AList.update i (q, nrm) (bucket idx (rootKey nrm))))"
    by (intro distinct_update bucket_distinct assms(1))
  then have "map_of (byRoot (index_put i q nrm idx)) rk = Some qs \<Longrightarrow> qs \<noteq> [] \<and> distinct (map fst qs)" for rk qs
    using index_inv_bucketD [OF assms(1), of rk qs]
    by (cases "rk = rootKey nrm") (auto simp: index_put_def map_of_update simp del: map_of_eq_Some_iff)
  moreover have "distinct (map fst (byRoot (index_put i q nrm idx)))"
    "distinct (map fst (queryIDToRoot (index_put i q nrm idx)))"
    using assms(1) by (simp_all add: index_inv_def index_shape_def index_put_def distinct_update)
  ultimately show "index_shape (index_put i q nrm idx)" unfolding index_shape_def by blast
  have "map_of (queryIDToRoot (index_put i q nrm idx)) = (map_of (queryIDToRoot idx))(i \<mapsto> rootKey nrm)"
    by (simp add: index_put_def map_of_update)
  then show "maps_agree (\<lambda>rk. map_of (bucket (index_put i q nrm idx) rk))
      (map_of (queryIDToRoot (index_put i q nrm idx)))"
    unfolding bucket_put using assms maps_agree_put unfolding index_inv_def by simp
qed

lemma index_lookup_put:
  assumes "index_inv idx" "map_of (queryIDToRoot idx) i = None"
  shows "index_lookup (index_put i q nrm idx) = (index_lookup idx)(i \<mapsto> (q, nrm))"
proof
  fix j
  have none: "map_of (bucket idx rk) i = None" for rk
    using assms maps_agree_absent unfolding index_inv_def by blast
  have "index_lookup (index_put i q nrm idx) j = Some (q', nrm') \<longleftrightarrow>
      ((index_lookup idx)(i \<mapsto> (q, nrm))) j = Some (q', nrm')" for q' nrm'
    using index_lookup_bucket [OF index_inv_put [OF assms]] index_lookup_bucket [OF assms(1)] none
    by (auto simp: bucket_put)
  then show "index_lookup (index_put i q nrm idx) j = ((index_lookup idx)(i \<mapsto> (q, nrm))) j"
    by (metis not_None_eq surj_pair)
qed

lemma sample_normal:
  obtains nrm where "normalizeAST utf8_lex sample_str sample_query = Inr nrm"
proof -
  have "\<not> (case normalizeAST utf8_lex sample_str sample_query of Inl e \<Rightarrow> True | Inr nrm \<Rightarrow> False)" by code_simp
  then show thesis using that by (cases "normalizeAST utf8_lex sample_str sample_query") simp_all
qed

subsection \<open>Searching\<close>

lemma astCoveredBy_root: "astCoveredBy a b \<Longrightarrow> rootKey a = rootKey b"
  by (subst (asm) astCoveredBy.simps) (simp add: rootKey_def)

lemma first_covering_Some:
  "first_covering i a qs = Some (j, h, n) \<Longrightarrow>
   \<exists>q nrm. (j, q, nrm) \<in> set qs \<and> j \<noteq> i \<and> astCoveredBy a nrm \<and> h = transformationHash q \<and> n = queryName q"
  by (induction i a qs rule: first_covering.induct) (auto split: if_splits)

lemma first_covering_None:
  "first_covering i a qs = None \<Longrightarrow> (j, q, nrm) \<in> set qs \<Longrightarrow> j \<noteq> i \<Longrightarrow> \<not> astCoveredBy a nrm"
  by (induction i a qs rule: first_covering.induct) (auto split: if_splits)

lemma in_bucket_lookup:
  assumes "index_inv idx"
  shows "(j, q, nrm) \<in> set (bucket idx (rootKey nrm)) \<longleftrightarrow> index_lookup idx j = Some (q, nrm)"
  by (simp add: index_lookup_bucket [OF assms] map_of_eq_Some_iff [OF bucket_distinct [OF assms]])

lemma bucket_root:
  assumes "index_inv idx" "(j, q, nrm) \<in> set (bucket idx rk)"
  shows "rootKey nrm = rk"
proof -
  have "map_of (bucket idx rk) j = Some (q, nrm)"
    using assms(2) by (simp add: map_of_eq_Some_iff [OF bucket_distinct [OF assms(1)]])
  then show ?thesis using assms(1) unfolding index_inv_def maps_agree_def by blast
qed

text \<open>C32: The two maps of the index stay consistent and the index refines the map from query ids to running
  queries: \<open>remove\<close> forgets one id, \<open>add\<close> replaces its entry by the query with its normal form, and an \<open>add\<close>
  whose normalisation throws leaves the id removed.\<close>

theorem covering_index_refines_map:
  assumes "index_inv idx"
  shows "index_inv (index_remove i idx) \<and> index_lookup (index_remove i idx) = (index_lookup idx)(i := None) \<and>
    (case index_add u8 str i q idx of (r, idx') \<Rightarrow> index_inv idx' \<and>
       (case normalizeAST u8 str (transformedAst q) of
          Inl e \<Rightarrow> r = Inl e \<and> index_lookup idx' = (index_lookup idx)(i := None)
        | Inr nrm \<Rightarrow> r = Inr () \<and> index_lookup idx' = (index_lookup idx)(i \<mapsto> (q, nrm))))"
proof -
  have gone: "map_of (queryIDToRoot (index_remove i idx)) i = None"
    by (simp add: roots_remove(1) [OF assms])
  show ?thesis
    using index_inv_remove [OF assms] index_lookup_remove [OF assms] index_inv_put [OF index_inv_remove [OF assms] gone]
      index_lookup_put [OF index_inv_remove [OF assms] gone]
    by (auto simp: index_add_eq split: sum.splits)
qed

definition running_issue :: running_query where
  "running_issue = \<lparr>transformedAst = AST None ''issue'' None None None None None None,
     transformationHash = ''h1'', queryName = Some ''all''\<rparr>"

theorem covering_index_refines_map_witness:
  "index_lookup (snd (index_add utf8_lex sample_str ''q1'' running_issue empty_index)) ''q1'' =
     Some (running_issue, transformedAst running_issue)"
proof -
  have "normalizeAST utf8_lex sample_str (transformedAst running_issue) = Inr (transformedAst running_issue)"
    by (simp add: normalizeAST_def running_issue_def)
  then show ?thesis
    using covering_index_refines_map [OF index_inv_empty, of "''q1''" running_issue utf8_lex sample_str]
    by (simp split: prod.splits)
qed

text \<open>The search through the index, which only looks at the bucket of the query's root, is complete: it
  returns a covering query if and only if some other running query covers the given one, and what it
  returns describes such a query.\<close>

theorem index_find_correct:
  assumes "index_inv idx" and "normalizeAST u8 str a = Inr nrm"
  shows "case index_find u8 str i a idx of
      Inl e \<Rightarrow> False
    | Inr None \<Rightarrow> \<not> (\<exists>j q nrm'. j \<noteq> i \<and> index_lookup idx j = Some (q, nrm') \<and> astCoveredBy nrm nrm')
    | Inr (Some (j, h, n)) \<Rightarrow> (\<exists>q nrm'. j \<noteq> i \<and> index_lookup idx j = Some (q, nrm') \<and> astCoveredBy nrm nrm' \<and>
        h = transformationHash q \<and> n = queryName q)"
proof -
  have find: "index_find u8 str i a idx = Inr (first_covering i nrm (bucket idx (rootKey nrm)))"
    using assms(2) by (simp add: index_find_def bucket_def split: option.splits)
  show ?thesis
  proof (cases "first_covering i nrm (bucket idx (rootKey nrm))")
    case None
    have "\<not> astCoveredBy nrm nrm'" if "j \<noteq> i" "index_lookup idx j = Some (q, nrm')" for j q nrm'
      using first_covering_None [OF None _ that(1)] in_bucket_lookup [OF assms(1)] that(2) astCoveredBy_root
      by metis
    with find None show ?thesis by auto
  next
    case (Some r)
    obtain j h n where r: "r = (j, h, n)" by (cases r)
    from first_covering_Some [OF Some [unfolded r]] obtain q nrm' where
      q: "(j, q, nrm') \<in> set (bucket idx (rootKey nrm))" "j \<noteq> i" "astCoveredBy nrm nrm'"
      "h = transformationHash q" "n = queryName q" by blast
    with bucket_root [OF assms(1) q(1)] in_bucket_lookup [OF assms(1)] have "index_lookup idx j = Some (q, nrm')"
      by metis
    with q find Some r show ?thesis by auto
  qed
qed

theorem index_find_correct_witness:
  "\<exists>idx. index_inv idx \<and> (case index_find utf8_lex sample_str ''q2'' sample_query idx of
     Inr (Some (j, h, n)) \<Rightarrow> j = ''q1'' \<and> h = ''h1'' | _ \<Rightarrow> False)"
proof -
  let ?idx = "snd (index_add utf8_lex sample_str ''q1'' running_issue empty_index)"
  obtain nrm where nrm: "normalizeAST utf8_lex sample_str sample_query = Inr nrm"
    by (rule sample_normal)
  have all: "normalizeAST utf8_lex sample_str (transformedAst running_issue) = Inr (transformedAst running_issue)"
    by (simp add: normalizeAST_def running_issue_def)
  have gone: "map_of (queryIDToRoot (index_remove ''q1'' empty_index)) ''q1'' = None"
    by (simp add: roots_remove(1) [OF index_inv_empty])
  have idx: "?idx = index_put ''q1'' running_issue (transformedAst running_issue) (index_remove ''q1'' empty_index)"
    by (simp add: index_add_eq all)
  have inv: "index_inv ?idx"
    unfolding idx by (rule index_inv_put [OF index_inv_remove [OF index_inv_empty] gone])
  have find: "index_find utf8_lex sample_str ''q2'' sample_query ?idx = Inr (Some (''q1'', ''h1'', Some ''all''))"
    by code_simp
  with inv index_find_correct [OF inv nrm, of "''q2''"] show ?thesis
    by (intro exI [of _ ?idx]) simp
qed

end
