(* ===== verification/Constraint.thy ===== *)
theory Constraint
  imports RowPredicateProps
begin

section \<open>Fetch constraints (zql/src/ivm/constraint.ts)\<close>

text \<open>
  A constraint is the object of the columns it fixes. \<open>SetOfConstraint\<close> is only available in
  tests and is not modelled, nor is its \<open>constraintEquals\<close>.
\<close>

type_synonym constraint = "(string \<times> js_value) list"

definition has_key :: "constraint \<Rightarrow> string \<Rightarrow> bool" where
  "has_key c k \<longleftrightarrow> k \<in> fst ` set c"

definition constraintMatchesRow :: "constraint \<Rightarrow> row \<Rightarrow> bool" where
  "constraintMatchesRow c row = list_all (\<lambda>(k, v). valuesEqual (get_field row k) v) c"

definition constraintsAreCompatible :: "constraint \<Rightarrow> constraint \<Rightarrow> bool" where
  "constraintsAreCompatible left right =
     list_all (\<lambda>(k, v). \<not> (has_key right k \<and> \<not> valuesEqual v (get_field right k))) left"

text \<open>\<open>keys.sort(stringCompare)\<close>: code units in order.\<close>

definition stringCompare :: "string \<Rightarrow> string \<Rightarrow> number" where
  "stringCompare a b = (if a = b then 0 else if utf8_lex a b < 0 then -1 else 1)"

fun insert_string :: "string \<Rightarrow> string list \<Rightarrow> string list" where
  "insert_string s [] = [s]"
| "insert_string s (t # ts) = (if stringCompare s t \<le> 0 then s # t # ts else t # insert_string s ts)"

definition sort_strings :: "string list \<Rightarrow> string list" where
  "sort_strings ss = foldr insert_string ss []"

definition keyMatchesPrimaryKey :: "string list \<Rightarrow> string list \<Rightarrow> bool" where
  "keyMatchesPrimaryKey keys primary \<longleftrightarrow> length keys = length primary \<and> sort_strings keys = primary"

definition constraintMatchesPrimaryKey :: "constraint \<Rightarrow> string list \<Rightarrow> bool" where
  "constraintMatchesPrimaryKey c primary = keyMatchesPrimaryKey (map fst c) primary"

fun pullSimpleAndComponents :: "condition \<Rightarrow> condition list" where
  "pullSimpleAndComponents (And cs) = concat (map pullSimpleAndComponents cs)"
| "pullSimpleAndComponents (Simple op l r) = [Simple op l r]"
| "pullSimpleAndComponents (Or [c]) = pullSimpleAndComponents c"
| "pullSimpleAndComponents _ = []"

text \<open>\<open>extractColumn\<close>: the column and literal of a comparison; \<open>None\<close> when the left side is no column.\<close>

definition extractColumn :: "value_position \<Rightarrow> value_position \<Rightarrow> (string \<times> literal_value) option result" where
  "extractColumn left right = (case left of
     PColumn name \<Rightarrow>
       (case right of
          PLiteral v \<Rightarrow> Inr (Some (name, v))
        | _ \<Rightarrow> Inl (AssertionFailed ''extractColumn: expected right side to be literal''))
   | _ \<Rightarrow> Inr None)"

text \<open>The loop that collects the columns of the primary key that a filter fixes.\<close>

fun collect_pk ::
    "string list \<Rightarrow> condition list \<Rightarrow> (string \<times> literal_value) list \<Rightarrow> (string \<times> literal_value) list result" where
  "collect_pk primary [] ret = Inr ret"
| "collect_pk primary (Simple op left right # cs) ret =
     (if op = OpEq then
        bind_result (extractColumn left right) (\<lambda>col. case col of
            None \<Rightarrow> collect_pk primary cs ret
          | Some (name, v) \<Rightarrow>
              if name \<notin> set primary then collect_pk primary cs ret
              else collect_pk primary cs (AList.update name v ret))
      else collect_pk primary cs ret)"
| "collect_pk primary (_ # cs) ret = collect_pk primary cs ret"

definition primaryKeyConstraintFromFilters ::
    "condition option \<Rightarrow> string list \<Rightarrow> constraint option result" where
  "primaryKeyConstraintFromFilters cond primary = (case cond of
     None \<Rightarrow> Inr None
   | Some c \<Rightarrow>
       (let conditions = pullSimpleAndComponents c in
        if conditions = [] then Inr None
        else bind_result (collect_pk primary conditions []) (\<lambda>ret.
          Inr (if length ret \<noteq> length primary then None
               else Some (map (\<lambda>(k, v). (k, literal_js v)) ret)))))"

subsection \<open>Correctness\<close>

lemma constraintMatchesRow_iff:
  "constraintMatchesRow c row \<longleftrightarrow> (\<forall>(k, v) \<in> set c. valuesEqual (get_field row k) v)"
  by (auto simp: constraintMatchesRow_def list_all_iff)

lemma get_field_in: "distinct (map fst c) \<Longrightarrow> (k, v) \<in> set c \<Longrightarrow> get_field c k = v"
  by (simp add: get_field_def)

text \<open>Compatible constraints: a row that both match exists exactly when they do not contradict.\<close>

lemma match_compatible:
  assumes "constraintMatchesRow left row" "constraintMatchesRow right row"
    and "distinct (map fst right)"
  shows "constraintsAreCompatible left right"
  unfolding constraintsAreCompatible_def list_all_iff
proof clarify
  fix k v
  assume "(k, v) \<in> set left" "has_key right k" and neq: "\<not> valuesEqual v (get_field right k)"
  then obtain w where "(k, w) \<in> set right" by (auto simp: has_key_def)
  with assms \<open>(k, v) \<in> set left\<close> have "valuesEqual (get_field row k) v" "valuesEqual (get_field row k) w"
    "get_field right k = w"
    by (auto simp: constraintMatchesRow_iff get_field_in)
  with neq show False by (auto simp: valuesEqual_iff)
qed

text \<open>What a true filter says about the columns of its top-level conjunction.\<close>

lemma all_predicates_True:
  "all_predicates ps row = Inr True \<longleftrightarrow> (\<forall>p \<in> set ps. p row = Inr True)"
  by (induction ps) (auto simp: bind_result_eq_Inr)

lemma run_And:
  "run_predicate u8 str (And cs) row = Inr True \<Longrightarrow> c \<in> set cs \<Longrightarrow> run_predicate u8 str c row = Inr True"
  by (auto simp: run_predicate_def bind_result_eq_Inr traverse_eq_Inr all_predicates_True
      list_all2_conv_all_nth in_set_conv_nth) (metis nth_mem)

lemma run_Or_one: "run_predicate u8 str (Or [c]) row = Inr True \<Longrightarrow> run_predicate u8 str c row = Inr True"
  by (auto simp: run_predicate_def bind_result_eq_Inr split: if_splits)

lemma run_pulled:
  "run_predicate u8 str c row = Inr True \<Longrightarrow> d \<in> set (pullSimpleAndComponents c) \<Longrightarrow>
   run_predicate u8 str d row = Inr True"
proof (induction c rule: pullSimpleAndComponents.induct)
  case (1 cs)
  then show ?case using run_And by fastforce
next
  case (3 c)
  then show ?case using run_Or_one by fastforce
qed auto

lemma pulled_simple: "d \<in> set (pullSimpleAndComponents c) \<Longrightarrow> \<exists>op l r. d = Simple op l r"
  by (induction c rule: pullSimpleAndComponents.induct) auto

lemma run_equality:
  assumes "run_predicate u8 str (Simple OpEq (PColumn name) (PLiteral v)) row = Inr True"
  shows "valuesEqual (get_field row name) (literal_js v)"
proof -
  have "\<not> is_nullish (get_field row name) \<and> literal_is (get_field row name) v"
    using assms by (auto simp: run_predicate_def createSimplePredicate_def Let_def split: if_splits)
  then show ?thesis
    by (cases v) (auto simp: valuesEqual_def literal_js_def is_nullish_def)
qed

lemma set_update_subset: "set (AList.update k v al) \<subseteq> insert (k, v) (set al)"
  by (induction al) auto

lemma update_keys: "distinct (map fst al) \<Longrightarrow> distinct (map fst (AList.update k v al))"
  by (rule AList.distinct_update)

text \<open>What every update of the loop keeps holds of its result.\<close>

lemma collect_pk_invariant:
  assumes "collect_pk primary cs ret = Inr ret'" and "P ret"
    and "\<And>name v ret. Simple OpEq (PColumn name) (PLiteral v) \<in> set cs \<Longrightarrow> name \<in> set primary \<Longrightarrow>
      P ret \<Longrightarrow> P (AList.update name v ret)"
  shows "P ret'"
  using assms
proof (induction cs arbitrary: ret)
  case (Cons c cs)
  have step: "P ret'" if "collect_pk primary cs ret2 = Inr ret'" "P ret2" for ret2
    by (rule Cons.IH [OF that]) (use Cons.prems(3) in auto)
  show ?case
  proof (cases "\<exists>name v. c = Simple OpEq (PColumn name) (PLiteral v) \<and> name \<in> set primary")
    case True
    then obtain name v where c: "c = Simple OpEq (PColumn name) (PLiteral v)" "name \<in> set primary" by blast
    then have "P (AList.update name v ret)" using Cons.prems(2,3) by simp
    moreover have "collect_pk primary cs (AList.update name v ret) = Inr ret'"
      using Cons.prems(1) c by (simp add: extractColumn_def)
    ultimately show ?thesis using step by blast
  next
    case False
    with Cons.prems(1) have "collect_pk primary cs ret = Inr ret'"
      by (cases c) (auto simp: extractColumn_def split: if_splits value_position.splits)
    then show ?thesis using step Cons.prems(2) by blast
  qed
qed simp

lemma pk_constraint_sound:
  assumes "primaryKeyConstraintFromFilters (Some cond) primary = Inr (Some c)"
    and "run_predicate u8 str cond row = Inr True"
  shows "constraintMatchesRow c row"
proof -
  obtain ret where ret: "collect_pk primary (pullSimpleAndComponents cond) [] = Inr ret"
    "c = map (\<lambda>(k, v). (k, literal_js v)) ret"
    using assms(1) by (auto simp: primaryKeyConstraintFromFilters_def Let_def bind_result_eq_Inr split: if_splits)
  have "\<forall>(k, v) \<in> set ret. valuesEqual (get_field row k) (literal_js v)"
  proof (rule collect_pk_invariant [OF ret(1)])
    fix name v ret'
    assume "Simple OpEq (PColumn name) (PLiteral v) \<in> set (pullSimpleAndComponents cond)"
    then have "valuesEqual (get_field row name) (literal_js v)"
      using run_equality run_pulled [OF assms(2)] by blast
    moreover assume "\<forall>(k, v) \<in> set ret'. valuesEqual (get_field row k) (literal_js v)"
    ultimately show "\<forall>(k, v) \<in> set (AList.update name v ret'). valuesEqual (get_field row k) (literal_js v)"
      using set_update_subset [of name v ret'] by auto
  qed simp
  then show ?thesis by (auto simp: ret(2) constraintMatchesRow_iff)
qed

lemma pk_constraint_keys:
  assumes "primaryKeyConstraintFromFilters cond primary = Inr (Some c)" "distinct primary"
  shows "distinct (map fst c) \<and> fst ` set c = set primary"
proof -
  obtain cond' ret where ret: "collect_pk primary (pullSimpleAndComponents cond') [] = Inr ret"
    "c = map (\<lambda>(k, v). (k, literal_js v)) ret" "length ret = length primary"
    using assms(1) by (auto simp: primaryKeyConstraintFromFilters_def Let_def bind_result_eq_Inr
        split: if_splits option.splits)
  have keys: "map fst c = map fst ret" by (auto simp: ret(2))
  have "distinct (map fst ret) \<and> fst ` set ret \<subseteq> set primary"
  proof (rule collect_pk_invariant [OF ret(1)])
    fix name v ret'
    assume "name \<in> set primary" "distinct (map fst ret') \<and> fst ` set ret' \<subseteq> set primary"
    then show "distinct (map fst (AList.update name v ret')) \<and> fst ` set (AList.update name v ret') \<subseteq> set primary"
      using set_update_subset [of name v ret'] update_keys [of ret' name v] by fastforce
  qed simp
  then have d: "distinct (map fst ret)" "fst ` set ret \<subseteq> set primary" by auto
  have "card (fst ` set ret) = length primary"
    using distinct_card [OF d(1)] ret(3) by simp
  with d(2) assms(2) have "fst ` set ret = set primary"
    by (metis List.finite_set card_subset_eq distinct_card)
  with d(1) keys show ?thesis by (metis list.set_map)
qed

text \<open>When a filter pins the primary key, the constraint read off it covers exactly the key's columns and
  every row the filter accepts matches it, so looking that one key up loses no row.\<close>

theorem primaryKeyConstraint_correct:
  assumes "primaryKeyConstraintFromFilters (Some cond) primary = Inr (Some c)" and "distinct primary"
    and "run_predicate u8 str cond row = Inr True"
  shows "constraintMatchesRow c row \<and> distinct (map fst c) \<and> fst ` set c = set primary"
  using pk_constraint_sound [OF assms(1,3)] pk_constraint_keys [OF assms(1,2)] by blast

theorem primaryKeyConstraint_correct_witness:
  "constraintMatchesRow [(''b'', JNum 2), (''a'', JStr ''x'')] [(''a'', JStr ''x''), (''b'', JNum 2), (''c'', JNull)]"
proof -
  let ?eq = "\<lambda>c v. Simple OpEq (PColumn c) (PLiteral (LScalar v))"
  let ?cond = "And [?eq ''b'' (JNum 2), Or [?eq ''a'' (JStr ''x'')]]"
  have "primaryKeyConstraintFromFilters (Some ?cond) [''a'', ''b''] = Inr (Some [(''b'', JNum 2), (''a'', JStr ''x'')])"
    by code_simp
  moreover have "distinct [''a'', ''b'']" by simp
  moreover have "run_predicate utf8_lex sample_str ?cond [(''a'', JStr ''x''), (''b'', JNum 2), (''c'', JNull)] = Inr True"
    by code_simp
  ultimately show ?thesis using primaryKeyConstraint_correct by blast
qed

end
