(* ===== verification/Bounds.thy ===== *)
theory Bounds
  imports Constraint
begin

section \<open>Row bounds and index comparators (zql/src/ivm/memory-source.ts)\<close>

text \<open>
  An index is scanned from a row bound: a row some of whose fields are the symbols \<open>min-value\<close> and
  \<open>max-value\<close>, below and above every value. \<open>compareBounds\<close> and \<open>makeBoundComparator\<close> can throw where
  \<open>compareValues\<close> does; \<open>bound_cmp\<close> and \<open>bound_row_cmp\<close> are their total extensions, which the B+ trees
  of the model are built on. The two agree in sign wherever the code returns.
\<close>

subsection \<open>The code\<close>

definition compareBounds :: "utf8 \<Rightarrow> js_value \<Rightarrow> js_value \<Rightarrow> number result" where
  "compareBounds u8 a b =
     (if a = b then Inr 0
      else (case a of
          JSymbol s \<Rightarrow> Inr (if s = MinValue then -1 else 1)
        | _ \<Rightarrow> (case b of
            JSymbol s \<Rightarrow> Inr (if s = MinValue then 1 else -1)
          | _ \<Rightarrow> compareValues u8 a b)))"

text \<open>The tail loop of the comparator, over the srt fields from the third on.\<close>

fun bound_loop :: "utf8 \<Rightarrow> ordering \<Rightarrow> row \<Rightarrow> row \<Rightarrow> number result" where
  "bound_loop u8 [] a b = Inr 0"
| "bound_loop u8 ((k, dir) # srt) a b =
     bind_result (compareBounds u8 (get_field a k) (get_field b k)) (\<lambda>cmp.
       if cmp \<noteq> 0 then Inr (if dir = Asc then cmp else - cmp) else bound_loop u8 srt a b)"

text \<open>One of the two leading fields: a descending one has its arguments swapped.\<close>

definition bound_field :: "utf8 \<Rightarrow> string \<times> direction \<Rightarrow> row \<Rightarrow> row \<Rightarrow> number result" where
  "bound_field u8 kd a b = (case kd of (k, dir) \<Rightarrow>
     if dir = Asc then compareBounds u8 (get_field a k) (get_field b k)
     else compareBounds u8 (get_field b k) (get_field a k))"

fun makeBoundComparator :: "utf8 \<Rightarrow> ordering \<Rightarrow> (row \<Rightarrow> row \<Rightarrow> number result) result" where
  "makeBoundComparator u8 [] = Inl (IllegalState ''sort[0]'')"
| "makeBoundComparator u8 (kd0 # srt) = Inr (\<lambda>a b.
     bind_result (bound_field u8 kd0 a b) (\<lambda>c0.
       if srt = [] \<or> c0 \<noteq> 0 then Inr c0
       else bind_result (bound_field u8 (hd srt) a b) (\<lambda>c1.
         if tl srt = [] \<or> c1 \<noteq> 0 then Inr c1 else bound_loop u8 (tl srt) a b)))"

lemma not_MinValue [simp]: "s \<noteq> MinValue \<longleftrightarrow> s = MaxValue"
  by (cases s) auto

subsection \<open>The total extension\<close>

fun bound_class :: "js_value \<Rightarrow> number" where
  "bound_class (JSymbol s) = (if s = MinValue then -1 else 1)"
| "bound_class _ = 0"

definition bound_cmp :: "utf8 \<Rightarrow> js_value \<Rightarrow> js_value \<Rightarrow> number" where
  "bound_cmp u8 a b =
     (if bound_class a - bound_class b \<noteq> 0 then bound_class a - bound_class b else value_cmp u8 a b)"

definition field_cmp :: "utf8 \<Rightarrow> string \<Rightarrow> direction \<Rightarrow> row cmp" where
  "field_cmp u8 k dir a b =
     (let c = bound_cmp u8 (get_field a k) (get_field b k) in if dir = Asc then c else - c)"

fun bound_row_cmp :: "utf8 \<Rightarrow> ordering \<Rightarrow> row cmp" where
  "bound_row_cmp u8 [] a b = 0"
| "bound_row_cmp u8 ((k, dir) # srt) a b =
     (if field_cmp u8 k dir a b \<noteq> 0 then field_cmp u8 k dir a b else bound_row_cmp u8 srt a b)"

lemma bound_row_cmp_append:
  "bound_row_cmp u8 (s @ t) a b = (if bound_row_cmp u8 s a b \<noteq> 0 then bound_row_cmp u8 s a b else bound_row_cmp u8 t a b)"
  by (induction s) (auto simp: split: prod.splits)

lemma bound_cmp_values:
  "bound_class a = 0 \<Longrightarrow> bound_class b = 0 \<Longrightarrow> bound_cmp u8 a b = value_cmp u8 a b"
  by (simp add: bound_cmp_def)

text \<open>A row proper: no field is one of the symbols of a bound.\<close>

definition plain_row :: "row \<Rightarrow> bool" where
  "plain_row r \<longleftrightarrow> (\<forall>k s. get_field r k \<noteq> JSymbol s)"

lemma plain_bound_class: "plain_row r \<Longrightarrow> bound_class (get_field r k) = 0"
  by (cases "get_field r k") (auto simp: plain_row_def)

context utf8_order
begin

lemma compareBounds_sign:
  "compareBounds u8 a b = Inr c \<Longrightarrow> sgn (bound_cmp u8 a b) = sgn c"
proof (cases "bound_class a = 0 \<and> bound_class b = 0")
  case True
  assume c: "compareBounds u8 a b = Inr c"
  show ?thesis
  proof (cases "a = b")
    case True
    with c show ?thesis
      using comparator.cmp_refl [OF comparator_value_cmp] by (simp add: compareBounds_def bound_cmp_def)
  next
    case False
    with c True have "compareValues u8 a b = Inr c"
      by (auto simp: compareBounds_def split: js_value.splits if_splits)
    then show ?thesis using compareValues_value_cmp True by (simp add: bound_cmp_values)
  qed
next
  case False
  assume "compareBounds u8 a b = Inr c"
  with False show ?thesis
    by (cases a; cases b) (auto simp: compareBounds_def bound_cmp_def split: if_splits js_symbol.splits)
qed

lemma comparator_bound_cmp: "comparator (bound_cmp u8)"
  unfolding bound_cmp_def [abs_def]
  by (rule comparator_lex [OF _ comparator_value_cmp]) (unfold_locales; auto)

lemma comparator_field_cmp: "comparator (field_cmp u8 k dir)"
proof (cases dir)
  case Asc
  then show ?thesis
    using comparator_key [OF comparator_bound_cmp, of "\<lambda>r. get_field r k"] by (simp add: field_cmp_def [abs_def])
next
  case Desc
  then show ?thesis
    using comparator_uminus [OF comparator_key [OF comparator_bound_cmp, of "\<lambda>r. get_field r k"]]
    by (simp add: field_cmp_def [abs_def])
qed

lemma comparator_bound_row_cmp: "comparator (bound_row_cmp u8 srt)"
proof (induction srt)
  case Nil
  then show ?case by (simp add: comparator_const bound_row_cmp.simps [abs_def])
next
  case (Cons kd srt)
  obtain k dir where kd: "kd = (k, dir)" by (cases kd)
  have "bound_row_cmp u8 (kd # srt) =
      (\<lambda>a b. if field_cmp u8 k dir a b \<noteq> 0 then field_cmp u8 k dir a b else bound_row_cmp u8 srt a b)"
    by (auto simp: kd fun_eq_iff)
  then show ?case using comparator_lex [OF comparator_field_cmp Cons.IH] by simp
qed

lemma bound_field_sign:
  assumes "bound_field u8 (k, dir) a b = Inr c"
  shows "sgn (field_cmp u8 k dir a b) = sgn c"
proof (cases dir)
  case Asc
  with assms show ?thesis using compareBounds_sign by (simp add: bound_field_def field_cmp_def)
next
  case Desc
  with assms have "sgn (bound_cmp u8 (get_field b k) (get_field a k)) = sgn c"
    using compareBounds_sign by (simp add: bound_field_def)
  moreover have "sgn (- bound_cmp u8 x y) = sgn (bound_cmp u8 y x)" for x y
    using comparator.cmp_anti [OF comparator_bound_cmp, of x y] comparator.cmp_anti [OF comparator_bound_cmp, of y x]
      comparator.cmp_zero_sym [OF comparator_bound_cmp, of x y]
    by (auto simp: sgn_if)
  ultimately show ?thesis using Desc by (simp add: field_cmp_def)
qed

lemma bound_loop_sign: "bound_loop u8 srt a b = Inr c \<Longrightarrow> sgn (bound_row_cmp u8 srt a b) = sgn c"
proof (induction srt)
  case (Cons kd srt)
  obtain k dir where kd: "kd = (k, dir)" by (cases kd)
  with Cons.prems obtain d where d: "compareBounds u8 (get_field a k) (get_field b k) = Inr d"
    "(if d \<noteq> 0 then Inr (if dir = Asc then d else - d) else bound_loop u8 srt a b) = Inr c"
    by (auto simp: bind_result_eq_Inr)
  have "sgn (bound_cmp u8 (get_field a k) (get_field b k)) = sgn d" by (rule compareBounds_sign [OF d(1)])
  then have s: "sgn (field_cmp u8 k dir a b) = sgn (if dir = Asc then d else - d)"
    by (cases dir) (simp_all add: field_cmp_def Let_def sgn_minus)
  then have z: "field_cmp u8 k dir a b = 0 \<longleftrightarrow> d = 0"
  proof -
    have "sgn (field_cmp u8 k dir a b) = 0 \<longleftrightarrow> sgn (if dir = Asc then d else - d) = 0" by (simp only: s)
    then show ?thesis by (simp add: sgn_eq_0_iff split: if_split_asm)
  qed
  show ?case
  proof (cases "d = 0")
    case True
    with d(2) Cons.IH z show ?thesis by (simp add: kd)
  next
    case False
    with d(2) s z show ?thesis by (auto simp: kd)
  qed
qed simp

text \<open>Wherever the code's comparator returns, the model's has the same sign.\<close>

lemma makeBoundComparator_sign:
  assumes "makeBoundComparator u8 srt = Inr f" and "f a b = Inr c"
  shows "sgn (bound_row_cmp u8 srt a b) = sgn c"
proof -
  obtain k0 d0 rest where srt: "srt = (k0, d0) # rest" using assms(1) by (cases srt) auto
  obtain c0 where c0: "bound_field u8 (k0, d0) a b = Inr c0" using assms by (auto simp: srt bind_result_eq_Inr)
  note s0 = bound_field_sign [OF c0]
  then have z0: "field_cmp u8 k0 d0 a b = 0 \<longleftrightarrow> c0 = 0" by (metis sgn_eq_0_iff)
  show ?thesis
  proof (cases "rest = [] \<or> c0 \<noteq> 0")
    case True
    with assms s0 c0 z0 show ?thesis by (auto simp: srt)
  next
    case False
    then obtain k1 d1 rest' where rest: "rest = (k1, d1) # rest'" by (cases rest) auto
    obtain c1 where c1: "bound_field u8 (k1, d1) a b = Inr c1"
      using assms False c0 by (auto simp: srt rest bind_result_eq_Inr)
    note s1 = bound_field_sign [OF c1]
    then have z1: "field_cmp u8 k1 d1 a b = 0 \<longleftrightarrow> c1 = 0" by (metis sgn_eq_0_iff)
    show ?thesis
    proof (cases "rest' = [] \<or> c1 \<noteq> 0")
      case True
      with assms False s1 c0 c1 z0 z1 show ?thesis by (auto simp: srt rest)
    next
      case f1: False
      then have "bound_loop u8 rest' a b = Inr c" using assms False c0 c1 by (auto simp: srt rest)
      from bound_loop_sign [OF this] False f1 z0 z1 show ?thesis by (simp add: srt rest)
    qed
  qed
qed

text \<open>On rows without symbols the index comparator is the row comparator.\<close>

lemma bound_row_cmp_plain:
  "plain_row a \<Longrightarrow> plain_row b \<Longrightarrow> bound_row_cmp u8 srt a b = row_cmp u8 srt False a b"
  by (induction srt)
    (auto simp: field_cmp_def bound_cmp_values plain_bound_class Let_def split: prod.splits)

text \<open>Two values compare equal exactly when they are equal up to \<open>undefined\<close> and \<open>null\<close>.\<close>

lemma value_cmp_zero: "value_cmp u8 a b = 0 \<longleftrightarrow> normalizeUndefined a = normalizeUndefined b"
proof -
  have "value_cmp u8 a b = 0 \<Longrightarrow> normalizeUndefined a = normalizeUndefined b"
    by (cases a; cases b) (auto simp: normalizeUndefined_def u8_zero split: if_splits js_symbol.splits)
  moreover have "normalizeUndefined a = normalizeUndefined b \<Longrightarrow> value_cmp u8 a b = 0"
    by (cases a; cases b) (auto simp: normalizeUndefined_def u8_zero)
  ultimately show ?thesis by blast
qed

end

end
