(* ===== verification/Streams.thy ===== *)
theory Streams
  imports Bounds
begin

section \<open>Nodes, changes and streams (zql/src/ivm: data.ts, change.ts, source.ts, operator.ts, stream.ts)\<close>

text \<open>
  What flows through a pipeline. A stream is a lazy iterable; the model is the list of what reading
  it to its end gives, the \<open>'yield'\<close> markers included. A relationship of a node is such a stream.
  An operator that pushes to its output is modelled by the list of the changes it pushes, in order.
\<close>

datatype 'a item = Yield | Item 'a

datatype node = Node (node_row: row) (relationships: "(string \<times> node item list) list")

datatype change =
    CAdd node
  | CRemove node
  | CChild node string change
  | CEdit node node

datatype source_change =
    SourceAdd row
  | SourceRemove row
  | SourceEdit row row

datatype basis = At | After

type_synonym start = "row \<times> basis"

record fetch_request =
  req_constraint :: "constraint option"
  req_multi :: "constraint list list option"
  req_start :: "start option"
  req_reverse :: bool

type_synonym row_predicate = "row \<Rightarrow> bool result"

subsection \<open>Streams\<close>

fun skipYields :: "'a item list \<Rightarrow> 'a list" where
  "skipYields [] = []"
| "skipYields (Yield # xs) = skipYields xs"
| "skipYields (Item x # xs) = x # skipYields xs"

definition once :: "'a list \<Rightarrow> 'a list" where
  "once xs = (case xs of [] \<Rightarrow> [] | x # _ \<Rightarrow> [x])"

fun take_loop :: "'a list \<Rightarrow> int \<Rightarrow> int \<Rightarrow> 'a list" where
  "take_loop [] limit count = []"
| "take_loop (v # vs) limit count = v # (if count + 1 = limit then [] else take_loop vs limit (count + 1))"

definition stream_take :: "'a list \<Rightarrow> int \<Rightarrow> 'a list" where
  "stream_take xs limit = (if limit < 1 then [] else take_loop xs limit 0)"

lemma skipYields_append [simp]: "skipYields (xs @ ys) = skipYields xs @ skipYields ys"
  by (induction xs rule: skipYields.induct) auto

lemma skipYields_map_Item [simp]: "skipYields (map Item xs) = xs"
  by (induction xs) auto

lemma take_loop_take: "count < limit \<Longrightarrow> take_loop xs limit count = take (nat (limit - count)) xs"
proof (induction xs arbitrary: count)
  case (Cons v vs)
  show ?case
  proof (cases "count + 1 = limit")
    case False
    with Cons.prems have "nat (limit - count) = Suc (nat (limit - (count + 1)))" by simp
    with Cons False show ?thesis by simp
  next
    case True
    then have "nat (limit - count) = 1" by simp
    with True show ?thesis by simp
  qed
qed simp

lemma stream_take_eq: "stream_take xs limit = take (nat limit) xs"
  by (simp add: stream_take_def take_loop_take)

lemma once_take: "once xs = take 1 xs"
  by (simp add: once_def split: list.split)

subsection \<open>Pushing through a predicate (filter-push.ts, maybe-split-and-push-edit-change.ts)\<close>

fun maybeSplitAndPushEditChange :: "node \<Rightarrow> node \<Rightarrow> row_predicate \<Rightarrow> change list result" where
  "maybeSplitAndPushEditChange node oldNode predicate =
     bind_result (predicate (node_row oldNode)) (\<lambda>oldWasPresent.
     bind_result (predicate (node_row node)) (\<lambda>newIsPresent.
       Inr (if oldWasPresent \<and> newIsPresent then [CEdit node oldNode]
            else if oldWasPresent \<and> \<not> newIsPresent then [CRemove oldNode]
            else if \<not> oldWasPresent \<and> newIsPresent then [CAdd node] else [])))"

fun filterPush :: "change \<Rightarrow> row_predicate option \<Rightarrow> change list result" where
  "filterPush change None = Inr [change]"
| "filterPush (CEdit node oldNode) (Some predicate) = maybeSplitAndPushEditChange node oldNode predicate"
| "filterPush (CAdd node) (Some predicate) =
     bind_result (predicate (node_row node)) (\<lambda>b. Inr (if b then [CAdd node] else []))"
| "filterPush (CRemove node) (Some predicate) =
     bind_result (predicate (node_row node)) (\<lambda>b. Inr (if b then [CRemove node] else []))"
| "filterPush (CChild node rel c) (Some predicate) =
     bind_result (predicate (node_row node)) (\<lambda>b. Inr (if b then [CChild node rel c] else []))"

text \<open>
  The contract of \<open>Output.push\<close>: only add rows that are not there, only remove rows that are. A
  consumer's rows are a set; \<open>apply_push\<close> is what a consumer makes of a change, \<open>push_ok\<close> the contract.
\<close>

fun apply_push :: "change \<Rightarrow> row set \<Rightarrow> row set" where
  "apply_push (CAdd n) S = insert (node_row n) S"
| "apply_push (CRemove n) S = S - {node_row n}"
| "apply_push (CEdit n m) S = insert (node_row n) (S - {node_row m})"
| "apply_push (CChild n rel c) S = S"

fun push_ok :: "change \<Rightarrow> row set \<Rightarrow> bool" where
  "push_ok (CAdd n) S \<longleftrightarrow> node_row n \<notin> S"
| "push_ok (CRemove n) S \<longleftrightarrow> node_row n \<in> S"
| "push_ok (CEdit n m) S \<longleftrightarrow> node_row m \<in> S \<and> (node_row n = node_row m \<or> node_row n \<notin> S)"
| "push_ok (CChild n rel c) S \<longleftrightarrow> node_row n \<in> S"

fun apply_pushes :: "change list \<Rightarrow> row set \<Rightarrow> row set" where
  "apply_pushes [] S = S"
| "apply_pushes (c # cs) S = apply_pushes cs (apply_push c S)"

fun pushes_ok :: "change list \<Rightarrow> row set \<Rightarrow> bool" where
  "pushes_ok [] S \<longleftrightarrow> True"
| "pushes_ok (c # cs) S \<longleftrightarrow> push_ok c S \<and> pushes_ok cs (apply_push c S)"

definition passing :: "row_predicate option \<Rightarrow> row set \<Rightarrow> row set" where
  "passing p S = {r \<in> S. case p of None \<Rightarrow> True | Some f \<Rightarrow> f r = Inr True}"

lemma filterPush_spec:
  assumes "filterPush c p = Inr cs" "push_ok c S"
  shows "pushes_ok cs (passing p S) \<and> apply_pushes cs (passing p S) = passing p (apply_push c S)"
proof (cases p)
  case None
  then have "cs = [c]" using assms(1) by auto
  with assms(2) None show ?thesis by (simp add: passing_def)
next
  case (Some f)
  then show ?thesis
    using assms by (cases c) (auto simp: passing_def bind_result_eq_Inr split: if_splits)
qed

text \<open>Pushing a change through a predicate keeps the contract of \<open>Output.push\<close>: if the change only
  adds rows that are absent and removes rows that are present, so do the pushes to the output with
  respect to the rows that pass, and after them the output holds exactly the rows that pass of the new
  rows. An edit whose old and new row differ in passing becomes an add or a remove.\<close>

theorem filterPush_correct:
  assumes "filterPush c p = Inr cs" and "push_ok c S"
  shows "pushes_ok cs (passing p S) \<and> apply_pushes cs (passing p S) = passing p (apply_push c S)"
  using filterPush_spec [OF assms] .

theorem filterPush_correct_witness:
  "pushes_ok [CRemove (Node [(''id'', JNum 1)] [])] {[(''id'', JNum 1)]} \<and>
   apply_pushes [CRemove (Node [(''id'', JNum 1)] [])] {[(''id'', JNum 1)]} = {}"
proof -
  let ?old = "[(''id'', JNum 1)]" and ?new = "[(''id'', JNum 2)]" and ?other = "[(''id'', JNum 7)]"
  let ?p = "Some (\<lambda>r. Inr (get_field r ''id'' = JNum 1)) :: row_predicate option"
  have push: "filterPush (CEdit (Node ?new []) (Node ?old [])) ?p = Inr [CRemove (Node ?old [])]"
    by (simp add: get_field_def)
  have "push_ok (CEdit (Node ?new []) (Node ?old [])) {?old, ?other}" by simp
  note filterPush_correct [OF push this]
  moreover have "passing ?p {?old, ?other} = {?old}" by (auto simp: passing_def get_field_def)
  moreover have "passing ?p (apply_push (CEdit (Node ?new []) (Node ?old [])) {?old, ?other}) = {}"
    by (auto simp: passing_def get_field_def)
  ultimately show ?thesis by simp
qed

end
