(* ===== verification/MergeStreams.thy ===== *)
theory MergeStreams
  imports Streams BTreeIndex "HOL-Library.Multiset"
begin

section \<open>The merge of sorted streams (mergeSortedStreams of zql/src/ivm/memory-source.ts)\<close>

text \<open>
  A binary min-heap of the heads of the streams, as an array with \<open>siftUp\<close> and \<open>siftDown\<close>. The state of
  the generator is the rest of each iterator, the flag whether it is still active and the heap; its
  result is what reading it to the end gives, with the flags the \<open>finally\<close> block then looks at.
\<close>

type_synonym 'a heap = "('a \<times> nat) list"

definition swap :: "nat \<Rightarrow> nat \<Rightarrow> 'a list \<Rightarrow> 'a list" where
  "swap i j xs = xs[i := xs ! j, j := xs ! i]"

function siftUp :: "'a cmp \<Rightarrow> 'a heap \<Rightarrow> nat \<Rightarrow> 'a heap" where
  "siftUp compare heap i =
     (if i = 0 then heap
      else let p = (i - 1) div 2 in
        if 0 \<le> compare (fst (heap ! i)) (fst (heap ! p)) then heap
        else siftUp compare (swap i p heap) p)"
  by pat_completeness auto
termination by (relation "measure (\<lambda>(_, _, i). i)") auto

declare siftUp.simps [simp del]

definition smallest_child :: "'a cmp \<Rightarrow> 'a heap \<Rightarrow> nat \<Rightarrow> nat" where
  "smallest_child compare heap i =
     (let n = length heap; l = 2 * i + 1; r = l + 1;
          s = (if l < n \<and> compare (fst (heap ! l)) (fst (heap ! i)) < 0 then l else i)
      in if r < n \<and> compare (fst (heap ! r)) (fst (heap ! s)) < 0 then r else s)"

lemma smallest_child_cases:
  "smallest_child compare heap i = i \<or>
   (i < smallest_child compare heap i \<and> smallest_child compare heap i < length heap)"
  by (auto simp: smallest_child_def Let_def)

lemma length_swap [simp]: "length (swap i j xs) = length xs"
  by (simp add: swap_def)

function siftDown :: "'a cmp \<Rightarrow> 'a heap \<Rightarrow> nat \<Rightarrow> 'a heap" where
  "siftDown compare heap i =
     (let s = smallest_child compare heap i in
      if s = i then heap else siftDown compare (swap i s heap) s)"
  by pat_completeness auto
termination
proof (relation "measure (\<lambda>(_, heap, i). length heap - i)")
  fix compare :: "'a cmp" and heap i s
  assume "s = smallest_child compare heap i" "s \<noteq> i"
  then show "((compare, swap i s heap, s), compare, heap, i) \<in> measure (\<lambda>(_, heap, i). length heap - i)"
    using smallest_child_cases [of compare heap i] by auto
qed simp

declare siftDown.simps [simp del]

text \<open>\<open>pullNext\<close>: the markers forwarded, the next value and the rest of the iterator.\<close>

fun pullNext :: "'a item list \<Rightarrow> nat \<times> 'a option \<times> 'a item list" where
  "pullNext [] = (0, None, [])"
| "pullNext (Yield # xs) = (case pullNext xs of (n, v, rest) \<Rightarrow> (n + 1, v, rest))"
| "pullNext (Item x # xs) = (0, Some x, xs)"

text \<open>Priming the heap with the first value of each stream, from stream \<open>i\<close> on.\<close>

fun merge_prime ::
    "'a cmp \<Rightarrow> nat \<Rightarrow> 'a item list list \<Rightarrow> 'a heap \<Rightarrow> 'a item list \<times> 'a item list list \<times> bool list \<times> 'a heap" where
  "merge_prime compare i [] heap = ([], [], [], heap)"
| "merge_prime compare i (it # its) heap =
     (case pullNext it of (n, v, rest) \<Rightarrow>
        case (case v of None \<Rightarrow> heap | Some row \<Rightarrow> siftUp compare (heap @ [(row, i)]) (length heap)) of heap' \<Rightarrow>
        case merge_prime compare (i + 1) its heap' of (out, its', active, heap'') \<Rightarrow>
          (replicate n Yield @ out, rest # its', (v \<noteq> None) # active, heap''))"

lemma pullNext_shorter: "pullNext it = (n, Some x, rest) \<Longrightarrow> length rest < length it"
  by (induction it arbitrary: n rule: pullNext.induct) (fastforce split: prod.splits)+

lemma pullNext_le: "pullNext it = (n, v, rest) \<Longrightarrow> length rest \<le> length it"
  by (induction it arbitrary: n rule: pullNext.induct) (fastforce split: prod.splits)+

definition stream_at :: "'a item list list \<Rightarrow> nat \<Rightarrow> 'a item list" where
  "stream_at its i = (if i < length its then its ! i else [])"

lemma sum_list_replace:
  "i < length ns \<Longrightarrow> sum_list (ns[i := k]) + ns ! i = sum_list ns + (k :: nat)"
proof (induction ns arbitrary: i)
  case (Cons n ns)
  then show ?case by (cases i) auto
qed simp

lemma pull_shorter:
  assumes "pullNext (stream_at its i) = (n, v, rest)"
  shows "sum_list (map length (its[i := rest])) + (if v = None then 0 else 1) \<le> sum_list (map length its)"
proof (cases "i < length its")
  case True
  have "length rest + (if v = None then 0 else 1) \<le> length (its ! i)"
    using assms True pullNext_le [of "its ! i" n v rest] pullNext_shorter [of "its ! i" n _ rest]
    by (cases v) (auto simp: stream_at_def Suc_le_eq)
  with sum_list_replace [of i "map length its" "length rest"] True show ?thesis
    by (simp add: map_update)
next
  case False
  with assms show ?thesis by (auto simp: stream_at_def list_update_beyond)
qed

lemma siftUp_length [simp]: "length (siftUp compare heap i) = length heap"
proof (induction compare heap i rule: siftUp.induct)
  case (1 compare heap i)
  then show ?case by (subst siftUp.simps) (simp add: Let_def)
qed

lemma siftDown_length [simp]: "length (siftDown compare heap i) = length heap"
proof (induction compare heap i rule: siftDown.induct)
  case (1 compare heap i)
  then show ?case by (subst siftDown.simps) (simp add: Let_def)
qed

lemma pull_Some:
  "(n, Some x, rest) = pullNext (stream_at its i) \<Longrightarrow> sum_list (map length (its[i := rest])) < sum_list (map length its)"
  using pull_shorter [of its i n "Some x" rest] by simp

lemma pull_None:
  "(n, None, rest) = pullNext (stream_at its i) \<Longrightarrow> sum_list (map length (its[i := rest])) \<le> sum_list (map length its)"
  using pull_shorter [of its i n None rest] by simp

text \<open>
  The main loop: the root is emitted and refilled from its stream, or, when that is exhausted, replaced
  by the tail of the heap.
\<close>

function merge_loop ::
    "'a cmp \<Rightarrow> 'a item list list \<Rightarrow> bool list \<Rightarrow> 'a heap \<Rightarrow> 'a item list \<times> bool list" where
  "merge_loop compare its active [] = ([], active)"
| "merge_loop compare its active (e # heap) =
     (let (n, v, rest) = pullNext (stream_at its (snd e)) in
      case v of
        Some next \<Rightarrow>
          (let (out, active') = merge_loop compare (its[snd e := rest]) active
             (siftDown compare ((next, snd e) # heap) 0)
           in (Item (fst e) # replicate n Yield @ out, active'))
      | None \<Rightarrow>
          (let (out, active') = merge_loop compare (its[snd e := rest]) (active[snd e := False])
             (if heap = [] then [] else siftDown compare (last heap # butlast heap) 0)
           in (Item (fst e) # replicate n Yield @ out, active')))"
  by pat_completeness auto
termination
  by (relation "measure (\<lambda>(_, its, _, heap). sum_list (map length its) + length heap)")
    (auto dest: pull_None pull_Some)

text \<open>The stream, and which of the iterators the \<open>finally\<close> block still has to close.\<close>

definition mergeSortedStreams :: "'a item list list \<Rightarrow> 'a cmp \<Rightarrow> 'a item list \<times> nat list" where
  "mergeSortedStreams streams compare =
     (let (out, its, active, heap) = merge_prime compare 0 streams [];
          (out', active') = merge_loop compare its active heap
      in (out @ out', filter (\<lambda>i. active' ! i) [0..<length streams]))"

subsection \<open>The heap\<close>

abbreviation parent :: "nat \<Rightarrow> nat" where
  "parent j \<equiv> (j - 1) div 2"

definition edge_ok :: "'a cmp \<Rightarrow> 'a heap \<Rightarrow> nat \<Rightarrow> bool" where
  "edge_ok compare h j \<longleftrightarrow> compare (fst (h ! parent j)) (fst (h ! j)) \<le> 0"

definition heap_ok :: "'a cmp \<Rightarrow> 'a heap \<Rightarrow> bool" where
  "heap_ok compare h \<longleftrightarrow> (\<forall>j. 0 < j \<and> j < length h \<longrightarrow> edge_ok compare h j)"

text \<open>A heap but for the edge above \<open>i\<close>, and a heap but for the edges below \<open>i\<close>.\<close>

definition bridged :: "'a cmp \<Rightarrow> 'a heap \<Rightarrow> nat \<Rightarrow> bool" where
  "bridged compare h i \<longleftrightarrow>
     (\<forall>j. 0 < i \<and> 0 < j \<and> j < length h \<and> parent j = i \<longrightarrow> compare (fst (h ! parent i)) (fst (h ! j)) \<le> 0)"

definition up_ok :: "'a cmp \<Rightarrow> 'a heap \<Rightarrow> nat \<Rightarrow> bool" where
  "up_ok compare h i \<longleftrightarrow>
     (\<forall>j. 0 < j \<and> j < length h \<and> j \<noteq> i \<longrightarrow> edge_ok compare h j) \<and> bridged compare h i"

definition down_ok :: "'a cmp \<Rightarrow> 'a heap \<Rightarrow> nat \<Rightarrow> bool" where
  "down_ok compare h i \<longleftrightarrow>
     (\<forall>j. 0 < j \<and> j < length h \<and> parent j \<noteq> i \<longrightarrow> edge_ok compare h j) \<and> bridged compare h i"

lemma parent_less: "0 < i \<Longrightarrow> parent i < i"
  by linarith

lemma children: "0 < j \<Longrightarrow> parent j = i \<longleftrightarrow> j = 2 * i + 1 \<or> j = 2 * i + 2"
  by linarith

lemma mset_swap: "i < length h \<Longrightarrow> j < length h \<Longrightarrow> mset (swap i j h) = mset h"
  unfolding swap_def by (rule mset_swap)

lemma nth_swap:
  "i < length h \<Longrightarrow> j < length h \<Longrightarrow> k < length h \<Longrightarrow>
   swap i j h ! k = (if k = i then h ! j else if k = j then h ! i else h ! k)"
  by (auto simp: swap_def nth_list_update)

context comparator
begin

lemma heap_root:
  assumes "heap_ok cmp h" "j < length h"
  shows "cmp (fst (h ! 0)) (fst (h ! j)) \<le> 0"
  using assms(2)
proof (induction j rule: less_induct)
  case (less j)
  show ?case
  proof (cases "j = 0")
    case False
    then have p: "parent j < j" by (simp add: parent_less)
    with less have "cmp (fst (h ! 0)) (fst (h ! parent j)) \<le> 0" by simp
    moreover have "edge_ok cmp h j" using assms(1) less.prems False by (simp add: heap_ok_def)
    ultimately show ?thesis unfolding edge_ok_def by (rule cmp_trans)
  qed simp
qed

lemma up_okD:
  assumes "up_ok cmp h i" "0 < j" "j < length h" "j \<noteq> i"
  shows "cmp (fst (h ! parent j)) (fst (h ! j)) \<le> 0"
  using assms by (simp add: up_ok_def edge_ok_def)

lemma up_ok_swap:
  assumes i: "0 < i" "i < length h" and up: "up_ok cmp h i"
    and pe: "parent i = p" and less: "cmp (fst (h ! i)) (fst (h ! p)) < 0"
  shows "up_ok cmp (swap i p h) p"
proof -
  let ?h = "swap i p h"
  have p: "p < i" "p < length h" using i parent_less [of i] pe by auto
  note nth = nth_swap [OF i(2) p(2)]
  have le: "cmp (fst (h ! i)) (fst (h ! p)) \<le> 0" using less by simp
  have "edge_ok cmp ?h j" if j: "0 < j" "j < length h" "j \<noteq> p" for j
  proof -
    have pj: "parent j < length h" "parent j \<noteq> j" using j parent_less [of j] by auto
    consider "j = i" | "j \<noteq> i" "parent j = i" | "j \<noteq> i" "parent j = p" | "j \<noteq> i" "parent j \<noteq> i" "parent j \<noteq> p" by blast
    then show ?thesis
    proof cases
      case 1
      with le p i pe show ?thesis by (simp add: edge_ok_def nth)
    next
      case 2
      with up i j pe have "cmp (fst (h ! p)) (fst (h ! j)) \<le> 0" unfolding up_ok_def bridged_def by metis
      with 2 j p pj i show ?thesis by (simp add: edge_ok_def nth)
    next
      case 3
      have "cmp (fst (h ! p)) (fst (h ! j)) \<le> 0" using up_okD [OF up j(1,2)] 3 by simp
      with le have "cmp (fst (h ! i)) (fst (h ! j)) \<le> 0" by (rule cmp_trans)
      with 3 j p pj i show ?thesis by (simp add: edge_ok_def nth)
    next
      case 4
      have "cmp (fst (h ! parent j)) (fst (h ! j)) \<le> 0" by (rule up_okD [OF up j(1,2) 4(1)])
      with 4 j p pj i show ?thesis by (simp add: edge_ok_def nth)
    qed
  qed
  moreover have "cmp (fst (?h ! parent p)) (fst (?h ! j)) \<le> 0"
    if j: "0 < p" "0 < j" "j < length h" "parent j = p" for j
  proof -
    have pp: "parent p < p" "parent p < length h" using j(1) parent_less [of p] p by auto
    have base: "cmp (fst (h ! parent p)) (fst (h ! p)) \<le> 0" using up_okD [OF up j(1) p(2)] p by simp
    have jp: "j \<noteq> p" using j parent_less [of j] by auto
    show ?thesis
    proof (cases "j = i")
      case True
      with base pp p i show ?thesis by (simp add: nth)
    next
      case False
      have "cmp (fst (h ! p)) (fst (h ! j)) \<le> 0" using up_okD [OF up j(2,3) False] j(4) by simp
      with base have "cmp (fst (h ! parent p)) (fst (h ! j)) \<le> 0" by (rule cmp_trans)
      with False jp pp p i j(3) show ?thesis by (simp add: nth)
    qed
  qed
  ultimately show ?thesis by (simp add: up_ok_def bridged_def)
qed

lemma up_ok_heap:
  assumes "up_ok cmp h i" "i = 0 \<or> cmp (fst (h ! parent i)) (fst (h ! i)) \<le> 0"
  shows "heap_ok cmp h"
  unfolding heap_ok_def
proof (intro allI impI)
  fix j
  assume "0 < j \<and> j < length h"
  then show "edge_ok cmp h j" using assms by (cases "j = i") (auto simp: up_ok_def edge_ok_def)
qed

lemma siftUp_heap:
  "i < length h \<Longrightarrow> up_ok cmp h i \<Longrightarrow> heap_ok cmp (siftUp cmp h i) \<and> mset (siftUp cmp h i) = mset h"
proof (induction i arbitrary: h rule: less_induct)
  case (less i)
  let ?p = "parent i"
  show ?case
  proof (cases "i = 0 \<or> 0 \<le> cmp (fst (h ! i)) (fst (h ! ?p))")
    case True
    then have "siftUp cmp h i = h" by (subst siftUp.simps) (auto simp: Let_def)
    moreover have "i = 0 \<or> cmp (fst (h ! ?p)) (fst (h ! i)) \<le> 0" using True cmp_le_sym by blast
    ultimately show ?thesis using up_ok_heap [OF less.prems(2)] by simp
  next
    case False
    then have i: "0 < i" "cmp (fst (h ! i)) (fst (h ! ?p)) < 0" by auto
    have p: "?p < i" "?p < length h" using i(1) parent_less [of i] less.prems(1) by auto
    have eq: "siftUp cmp h i = siftUp cmp (swap i ?p h) ?p"
      using False by (subst siftUp.simps) (simp add: Let_def)
    have "up_ok cmp (swap i ?p h) ?p" by (rule up_ok_swap [OF i(1) less.prems refl i(2)])
    with less.IH [OF p(1), of "swap i ?p h"] p(2) less.prems(1) show ?thesis
      by (simp add: eq mset_swap)
  qed
qed

lemma heap_push:
  assumes "heap_ok cmp h"
  shows "heap_ok cmp (siftUp cmp (h @ [e]) (length h)) \<and> mset (siftUp cmp (h @ [e]) (length h)) = add_mset e (mset h)"
proof -
  have "up_ok cmp (h @ [e]) (length h)"
    unfolding up_ok_def bridged_def
  proof (intro conjI allI impI)
    fix j
    assume j: "0 < j \<and> j < length (h @ [e]) \<and> j \<noteq> length h"
    then have "parent j < length h" "edge_ok cmp h j" using assms parent_less [of j] by (auto simp: heap_ok_def)
    with j show "edge_ok cmp (h @ [e]) j" by (simp add: edge_ok_def nth_append)
  next
    fix j
    assume "0 < length h \<and> 0 < j \<and> j < length (h @ [e]) \<and> parent j = length h"
    then have False using parent_less [of j] by auto
    then show "cmp (fst ((h @ [e]) ! parent (length h))) (fst ((h @ [e]) ! j)) \<le> 0" ..
  qed
  then show ?thesis using siftUp_heap [of "length h" "h @ [e]"] by simp
qed

lemma down_okD:
  assumes "down_ok cmp h i" "0 < j" "j < length h" "parent j \<noteq> i"
  shows "cmp (fst (h ! parent j)) (fst (h ! j)) \<le> 0"
  using assms by (simp add: down_ok_def edge_ok_def)

text \<open>What \<open>siftDown\<close> compares: the chosen position is a child or \<open>i\<close> itself, and no greater than the others.\<close>

lemma smallest_child_spec:
  assumes "i < length h" and s: "s = smallest_child cmp h i"
  shows "s = i \<or> (s < length h \<and> 0 < s \<and> parent s = i \<and> cmp (fst (h ! s)) (fst (h ! i)) < 0)"
    and "0 < j \<Longrightarrow> j < length h \<Longrightarrow> parent j = i \<Longrightarrow> cmp (fst (h ! s)) (fst (h ! j)) \<le> 0"
proof -
  let ?l = "2 * i + 1" and ?r = "2 * i + 2"
  let ?c = "\<lambda>a b. cmp (fst (h ! a)) (fst (h ! b))"
  define m where "m = (if ?l < length h \<and> ?c ?l i < 0 then ?l else i)"
  have sm: "s = (if ?r < length h \<and> ?c ?r m < 0 then ?r else m)"
    by (simp add: s smallest_child_def m_def Let_def)
  have mi: "?c m i \<le> 0" by (auto simp: m_def)
  have ml: "?l < length h \<Longrightarrow> ?c m ?l \<le> 0" by (auto simp: m_def cmp_le_sym)
  have sm_le: "?c s m \<le> 0" by (auto simp: sm)
  have sr: "?r < length h \<Longrightarrow> ?c s ?r \<le> 0" by (auto simp: sm cmp_le_sym)
  have less: "s = i \<or> ?c s i < 0"
    using mi by (auto simp: sm m_def intro: cmp_less_le_trans)
  show "s = i \<or> (s < length h \<and> 0 < s \<and> parent s = i \<and> ?c s i < 0)"
    using less by (auto simp: sm m_def split: if_splits)
  assume "0 < j" "j < length h" "parent j = i"
  then have "j = ?l \<or> j = ?r" using children by blast
  then show "?c s j \<le> 0"
    using \<open>j < length h\<close> sm_le sr ml cmp_trans by blast
qed

lemma down_ok_swap:
  assumes i: "i < length h" and down: "down_ok cmp h i"
    and s: "s = smallest_child cmp h i" "s \<noteq> i"
  shows "down_ok cmp (swap i s h) s"
proof -
  let ?h = "swap i s h"
  note spec = smallest_child_spec [OF i s(1)]
  have s': "s < length h" "0 < s" "parent s = i" "cmp (fst (h ! s)) (fst (h ! i)) < 0" using spec(1) s(2) by auto
  note nth = nth_swap [OF i s'(1)]
  have his: "?h ! i = h ! s" "?h ! s = h ! i" using nth [OF i] nth [OF s'(1)] by auto
  have "edge_ok cmp ?h j" if j: "0 < j" "j < length h" "parent j \<noteq> s" for j
  proof -
    have pj: "parent j < length h" "parent j \<noteq> j" using j parent_less [of j] by auto
    have hp: "?h ! parent j = (if parent j = i then h ! s else h ! parent j)" using nth [OF pj(1)] j(3) by simp
    have hj: "?h ! j = (if j = i then h ! s else if j = s then h ! i else h ! j)" by (rule nth [OF j(2)])
    consider "j = s" | "j = i" | "j \<noteq> s" "parent j = i" | "j \<noteq> i" "j \<noteq> s" "parent j \<noteq> i" by blast
    then have "cmp (fst (?h ! parent j)) (fst (?h ! j)) \<le> 0"
    proof cases
      case 1
      with s' his show ?thesis by simp
    next
      case 2
      then have "cmp (fst (h ! parent i)) (fst (h ! s)) \<le> 0"
        using down s' j(1) unfolding down_ok_def bridged_def by blast
      with 2 pj hp hj show ?thesis by simp
    next
      case 3
      with spec(2) [OF j(1,2) 3(2)] hp hj pj(2) show ?thesis by simp
    next
      case 4
      with down_okD [OF down j(1,2) 4(3)] hp hj show ?thesis by simp
    qed
    then show ?thesis by (simp add: edge_ok_def)
  qed
  moreover have "cmp (fst (?h ! parent s)) (fst (?h ! j)) \<le> 0"
    if j: "0 < j" "j < length h" "parent j = s" for j
  proof -
    have ne: "j \<noteq> s" "j \<noteq> i" "parent j \<noteq> i" using j s' parent_less [of j] parent_less [of s] s(2) by auto
    have "cmp (fst (h ! s)) (fst (h ! j)) \<le> 0" using down_okD [OF down j(1,2) ne(3)] j(3) by simp
    moreover have "?h ! j = h ! j" using nth [OF j(2)] ne by simp
    ultimately show ?thesis using his(1) s'(3) by simp
  qed
  ultimately show ?thesis by (simp add: down_ok_def bridged_def)
qed

lemma siftDown_heap:
  "i < length h \<Longrightarrow> down_ok cmp h i \<Longrightarrow> heap_ok cmp (siftDown cmp h i) \<and> mset (siftDown cmp h i) = mset h"
proof (induction "length h - i" arbitrary: h i rule: less_induct)
  case less
  define s where s: "s = smallest_child cmp h i"
  show ?case
  proof (cases "s = i")
    case True
    then have "siftDown cmp h i = h" by (subst siftDown.simps) (simp add: s)
    moreover have "heap_ok cmp h"
      unfolding heap_ok_def edge_ok_def
      using down_okD [OF less.prems(2)] smallest_child_spec(2) [OF less.prems(1) s] True by metis
    ultimately show ?thesis by simp
  next
    case False
    then have eq: "siftDown cmp h i = siftDown cmp (swap i s h) s"
      by (subst siftDown.simps) (simp add: s Let_def)
    have s': "i < s" "s < length h" using smallest_child_cases [of cmp h i] False s by auto
    have "down_ok cmp (swap i s h) s" by (rule down_ok_swap [OF less.prems s False])
    with less.hyps [of "swap i s h" s] s' less.prems(1) show ?thesis by (simp add: eq mset_swap)
  qed
qed

text \<open>A new root put in the place of the old one, with the last entry kept or taken away.\<close>

lemma heap_replace_root:
  assumes "heap_ok cmp (e # h)"
  shows "heap_ok cmp (siftDown cmp (e' # h) 0) \<and> mset (siftDown cmp (e' # h) 0) = add_mset e' (mset h)"
proof -
  have "down_ok cmp (e' # h) 0"
    unfolding down_ok_def bridged_def
  proof (intro conjI allI impI)
    fix j
    assume j: "0 < j \<and> j < length (e' # h) \<and> parent j \<noteq> 0"
    then have "edge_ok cmp (e # h) j" using assms by (simp add: heap_ok_def)
    with j show "edge_ok cmp (e' # h) j" by (simp add: edge_ok_def nth_Cons')
  qed simp
  then show ?thesis using siftDown_heap [of 0 "e' # h"] by simp
qed

lemma heap_butlast:
  assumes "heap_ok cmp h"
  shows "heap_ok cmp (butlast h)"
  unfolding heap_ok_def
proof (intro allI impI)
  fix j
  assume j: "0 < j \<and> j < length (butlast h)"
  then have "parent j < length (butlast h)" "j < length h" using parent_less [of j] by auto
  with j assms show "edge_ok cmp (butlast h) j"
    by (simp add: edge_ok_def heap_ok_def nth_butlast)
qed

lemma heap_pop:
  assumes "heap_ok cmp (e # h)" "h \<noteq> []"
  shows "heap_ok cmp (siftDown cmp (last h # butlast h) 0) \<and> mset (siftDown cmp (last h # butlast h) 0) = mset h"
proof -
  have "heap_ok cmp (e # butlast h)" using heap_butlast [OF assms(1)] assms(2) by simp
  from heap_replace_root [OF this, of "last h"] assms(2) show ?thesis
    by (metis append_butlast_last_id mset.simps(2) mset_append union_mset_add_mset_right add.right_neutral mset.simps(1))
qed

end

subsection \<open>Correctness of the merge\<close>

definition sorted_le :: "'a cmp \<Rightarrow> 'a list \<Rightarrow> bool" where
  "sorted_le compare xs \<longleftrightarrow> sorted_wrt (\<lambda>a b. compare a b \<le> 0) xs"

lemma skipYields_replicate [simp]: "skipYields (replicate n Yield) = []"
  by (induction n) auto

lemma set_skipYields: "x \<in> set (skipYields xs) \<longleftrightarrow> Item x \<in> set xs"
  by (induction xs rule: skipYields.induct) auto

lemma pullNext_eq:
  "pullNext it = (n, v, rest) \<Longrightarrow>
   it = replicate n Yield @ (case v of None \<Rightarrow> [] | Some x \<Rightarrow> Item x # rest) \<and> (v = None \<longrightarrow> rest = [])"
  by (induction it arbitrary: n rule: pullNext.induct) (fastforce split: prod.splits)+

lemma mset_concat_update:
  assumes "i < length xss"
  shows "mset (concat (xss[i := xs])) + mset (xss ! i) = mset (concat xss) + mset xs"
  using assms
proof (induction xss arbitrary: i)
  case (Cons ys yss)
  then show ?case by (cases i) (auto simp: ac_simps)
qed simp

definition heads_ok :: "'a cmp \<Rightarrow> 'a item list list \<Rightarrow> 'a heap \<Rightarrow> bool" where
  "heads_ok compare its heap \<longleftrightarrow> heap_ok compare heap \<and> distinct (map snd heap) \<and>
     (\<forall>(x, i) \<in> set heap. i < length its \<and> (\<forall>y \<in> set (skipYields (its ! i)). compare x y \<le> 0)) \<and>
     (\<forall>i < length its. sorted_le compare (skipYields (its ! i)) \<and> (i \<notin> snd ` set heap \<longrightarrow> its ! i = []))"

context comparator
begin

lemma heads_ok_min:
  assumes "heads_ok cmp its (e # h)"
  shows "(\<forall>(x, i) \<in> set h. cmp (fst e) x \<le> 0) \<and> (\<forall>y \<in> set (skipYields (concat its)). cmp (fst e) y \<le> 0)"
proof -
  have heap: "heap_ok cmp (e # h)" using assms by (simp add: heads_ok_def)
  have root: "\<And>d. d \<in> set (e # h) \<Longrightarrow> cmp (fst e) (fst d) \<le> 0"
    using heap_root [OF heap] by (metis in_set_conv_nth nth_Cons_0)
  have "\<forall>(x, i) \<in> set h. cmp (fst e) x \<le> 0"
  proof clarify
    fix x i
    assume "(x, i) \<in> set h"
    then show "cmp (fst e) x \<le> 0" using root [of "(x, i)"] by simp
  qed
  moreover have "cmp (fst e) y \<le> 0" if y: "y \<in> set (skipYields (concat its))" for y
  proof -
    obtain it where "it \<in> set its" "Item y \<in> set it" using y by (auto simp: set_skipYields)
    then obtain i where i: "i < length its" "Item y \<in> set (its ! i)" by (metis in_set_conv_nth)
    then have "i \<in> snd ` set (e # h)" using assms unfolding heads_ok_def by (metis empty_iff list.set(1))
    then obtain d where d: "d \<in> set (e # h)" "snd d = i" by blast
    then have "cmp (fst d) y \<le> 0"
      using assms i unfolding heads_ok_def by (auto simp: set_skipYields split_beta)
    with root [OF d(1)] show ?thesis by (rule cmp_trans)
  qed
  ultimately show ?thesis by auto
qed

text \<open>The step of the main loop keeps the heads in order.\<close>

lemma heads_ok_step:
  assumes ok: "heads_ok cmp its (e # h)" and pull: "pullNext (stream_at its (snd e)) = (n, v, rest)"
    and h': "h' = (case v of Some x \<Rightarrow> siftDown cmp ((x, snd e) # h) 0
               | None \<Rightarrow> if h = [] then [] else siftDown cmp (last h # butlast h) 0)"
  shows "heads_ok cmp (its[snd e := rest]) h' \<and>
    mset h' = (case v of Some x \<Rightarrow> add_mset (x, snd e) (mset h) | None \<Rightarrow> mset h)"
proof -
  have i: "snd e < length its" using ok by (auto simp: heads_ok_def split_beta)
  then have it: "its ! snd e = replicate n Yield @ (case v of None \<Rightarrow> [] | Some x \<Rightarrow> Item x # rest)"
    "v = None \<Longrightarrow> rest = []"
    using pullNext_eq pull by (fastforce simp: stream_at_def)+
  have heap: "heap_ok cmp (e # h)" "distinct (map snd (e # h))" using ok by (simp_all add: heads_ok_def)
  have new: "heap_ok cmp h' \<and> mset h' = (case v of Some x \<Rightarrow> add_mset (x, snd e) (mset h) | None \<Rightarrow> mset h)"
    using heap_replace_root [OF heap(1)] heap_pop [OF heap(1)]
    by (auto simp: h' heap_ok_def split: option.split)
  then have set': "set h' = (case v of Some x \<Rightarrow> insert (x, snd e) (set h) | None \<Rightarrow> set h)"
    by (metis (no_types, lifting) option.case_eq_if set_mset_add_mset_insert set_mset_mset)
  have "mset (map snd h') = (case v of Some x \<Rightarrow> mset (map snd (e # h)) | None \<Rightarrow> mset (map snd h))"
    using new by (auto split: option.splits)
  then have dist: "distinct (map snd h')"
    using heap(2) by (metis (no_types, lifting) distinct.simps(2) list.simps(9) mset_eq_imp_distinct_iff option.case_eq_if)
  have sorted: "sorted_le cmp (skipYields (its ! snd e))" using ok i by (simp add: heads_ok_def)
  have rest: "sorted_le cmp (skipYields rest)" "\<And>x y. v = Some x \<Longrightarrow> y \<in> set (skipYields rest) \<Longrightarrow> cmp x y \<le> 0"
    using sorted it by (cases v; simp add: sorted_le_def)+
  have keep: "i < length its" "y \<in> set (skipYields (its[snd e := rest] ! i)) \<Longrightarrow> cmp x y \<le> 0"
    if "(x, i) \<in> set h'" for x y i
  proof -
    show "i < length its" using that set' ok i by (cases v) (auto simp: heads_ok_def)
    assume y: "y \<in> set (skipYields (its[snd e := rest] ! i))"
    show "cmp x y \<le> 0"
    proof (cases "i = snd e")
      case True
      have "(x, i) \<notin> set h" using heap(2) True by (force simp: image_iff)
      then have "v = Some x" using that set' True by (cases v) auto
      with rest(2) y True i show ?thesis by simp
    next
      case False
      then have "(x, i) \<in> set h" using that set' by (cases v) auto
      with ok y False show ?thesis by (auto simp: heads_ok_def)
    qed
  qed
  moreover have "sorted_le cmp (skipYields (its[snd e := rest] ! i))"
    "i \<notin> snd ` set h' \<Longrightarrow> its[snd e := rest] ! i = []" if "i < length its" for i
    using that ok rest(1) it(2) set' i by (cases v; cases "i = snd e"; auto simp: heads_ok_def)+
  ultimately show ?thesis using new dist by (auto simp: heads_ok_def)
qed

lemma merge_loop_spec:
  assumes "heads_ok cmp its heap" "length active = length its"
    and "\<forall>i < length its. active ! i \<longleftrightarrow> i \<in> snd ` set heap"
    and "merge_loop cmp its active heap = (out, active')"
  shows "mset out = image_mset (\<lambda>e. Item (fst e)) (mset heap) + mset (concat its) \<and>
    sorted_le cmp (skipYields out) \<and> length active' = length its \<and> (\<forall>i < length its. \<not> active' ! i)"
  using assms
proof (induction "sum_list (map length its) + length heap" arbitrary: its active heap out active' rule: less_induct)
  case less
  show ?case
  proof (cases heap)
    case Nil
    then have "its ! i = []" if "i < length its" for i using less.prems(1) that by (auto simp: heads_ok_def)
    then have "concat its = []" by (auto simp: in_set_conv_nth)
    with less.prems Nil show ?thesis by (auto simp: sorted_le_def)
  next
    case (Cons e h)
    obtain n v rest where pull: "pullNext (stream_at its (snd e)) = (n, v, rest)" by (metis prod_cases3)
    define h' where "h' = (case v of Some x \<Rightarrow> siftDown cmp ((x, snd e) # h) 0
        | None \<Rightarrow> if h = [] then [] else siftDown cmp (last h # butlast h) 0)"
    define act where "act = (if v = None then active[snd e := False] else active)"
    obtain out2 where out2: "merge_loop cmp (its[snd e := rest]) act h' = (out2, active')"
      "out = Item (fst e) # replicate n Yield @ out2"
      using less.prems(4) pull by (cases v) (auto simp: Cons h'_def act_def split: prod.splits)
    note step = heads_ok_step [OF less.prems(1) [unfolded Cons] pull h'_def]
    have i: "snd e < length its" using less.prems(1) by (auto simp: Cons heads_ok_def split_beta)
    have set': "set h' = (case v of Some x \<Rightarrow> insert (x, snd e) (set h) | None \<Rightarrow> set h)"
      using step by (metis (no_types, lifting) option.case_eq_if set_mset_add_mset_insert set_mset_mset)
    have len: "length h' = (if v = None then length h else length h + 1)"
      using step by (cases v) (auto dest: arg_cong [of _ _ size])
    have it: "its ! snd e = replicate n Yield @ (case v of None \<Rightarrow> [] | Some x \<Rightarrow> Item x # rest)" "v = None \<Longrightarrow> rest = []"
      using pullNext_eq pull i by (fastforce simp: stream_at_def)+
    have "snd e \<notin> snd ` set h" using less.prems(1) by (auto simp: Cons heads_ok_def)
    then have act: "act ! k \<longleftrightarrow> k \<in> snd ` set h'" if k: "k < length its" for k
    proof -
      have "active ! k \<longleftrightarrow> k = snd e \<or> k \<in> snd ` set h" using less.prems(3) k by (auto simp: Cons)
      with \<open>snd e \<notin> snd ` set h\<close> k less.prems(2) show ?thesis
        by (cases v; cases "k = snd e") (auto simp: act_def set')
    qed
    have act_len: "length act = length its" using less.prems(2) by (simp add: act_def)
    have less': "sum_list (map length (its[snd e := rest])) + length h' < sum_list (map length its) + length heap"
      using pull_shorter [OF pull] len by (simp add: Cons split: if_splits)
    have IH: "mset out2 = image_mset (\<lambda>e. Item (fst e)) (mset h') + mset (concat (its[snd e := rest])) \<and>
        sorted_le cmp (skipYields out2) \<and> length active' = length its \<and> (\<forall>i < length its. \<not> active' ! i)"
      using less.hyps [OF less' conjunct1 [OF step] _ _ out2(1)] act act_len by simp
    have conc: "mset (concat (its[snd e := rest])) + mset (its ! snd e) = mset (concat its) + mset rest"
      by (rule mset_concat_update [OF i])
    have m: "mset out = image_mset (\<lambda>e. Item (fst e)) (mset heap) + mset (concat its)"
      using IH step conc it by (cases v) (auto simp: out2(2) Cons ac_simps)
    have "cmp (fst e) y \<le> 0" if "y \<in> set (skipYields out2)" for y
    proof -
      have "Item y \<in># image_mset (\<lambda>e. Item (fst e)) (mset h') + mset (concat (its[snd e := rest]))"
        using that IH by (metis set_mset_mset set_skipYields)
      then have "(\<exists>d \<in> set h. y = fst d) \<or> Item y \<in> set (concat its)"
      proof -
        have "Item x \<in> set (concat its)" if "v = Some x" for x
        proof -
          have "Item x \<in> set (its ! snd e)" using it(1) that by simp
          then show ?thesis using nth_mem [OF i] by auto
        qed
        moreover have "set (concat (its[snd e := rest])) \<subseteq> set (concat its)"
        proof -
          have "set rest \<subseteq> set (its ! snd e)" using it by (cases v) auto
          then show ?thesis using i set_update_subset_insert [of its "snd e" rest] by fastforce
        qed
        ultimately show ?thesis
          using \<open>Item y \<in># _\<close> set' by (cases v) auto
      qed
      then show ?thesis
        using heads_ok_min [OF less.prems(1) [unfolded Cons]] by (auto simp: set_skipYields split_beta)
    qed
    then have "sorted_le cmp (skipYields out)" using IH by (simp add: out2(2) sorted_le_def)
    with m IH show ?thesis by simp
  qed
qed

lemma heads_ok_push:
  assumes ok: "heads_ok cmp its heap" and pull: "pullNext it = (n, v, rest)"
    and sorted: "sorted_le cmp (skipYields it)"
    and h': "h' = (case v of None \<Rightarrow> heap | Some x \<Rightarrow> siftUp cmp (heap @ [(x, length its)]) (length heap))"
  shows "heads_ok cmp (its @ [rest]) h' \<and>
    mset h' = (case v of Some x \<Rightarrow> add_mset (x, length its) (mset heap) | None \<Rightarrow> mset heap)"
proof -
  have it: "it = replicate n Yield @ (case v of None \<Rightarrow> [] | Some x \<Rightarrow> Item x # rest)" "v = None \<Longrightarrow> rest = []"
    using pullNext_eq [OF pull] by auto
  have new: "heap_ok cmp h' \<and> mset h' = (case v of Some x \<Rightarrow> add_mset (x, length its) (mset heap) | None \<Rightarrow> mset heap)"
    using heap_push [of heap] ok by (auto simp: h' heads_ok_def split: option.split)
  then have set': "set h' = (case v of Some x \<Rightarrow> insert (x, length its) (set heap) | None \<Rightarrow> set heap)"
    by (metis (no_types, lifting) option.case_eq_if set_mset_add_mset_insert set_mset_mset)
  have fresh: "length its \<notin> snd ` set heap" using ok by (auto simp: heads_ok_def)
  have "mset (map snd h') = (case v of Some x \<Rightarrow> mset (length its # map snd heap) | None \<Rightarrow> mset (map snd heap))"
    using new by (auto split: option.splits)
  then have dist: "distinct (map snd h')"
    using ok fresh unfolding heads_ok_def
    by (metis (no_types, lifting) distinct.simps(2) list.set_map mset_eq_imp_distinct_iff option.case_eq_if)
  have rest: "sorted_le cmp (skipYields rest)" "\<And>x y. v = Some x \<Longrightarrow> y \<in> set (skipYields rest) \<Longrightarrow> cmp x y \<le> 0"
    using sorted it by (cases v; simp add: sorted_le_def)+
  have "i < length (its @ [rest]) \<and> (\<forall>y \<in> set (skipYields ((its @ [rest]) ! i)). cmp x y \<le> 0)"
    if "(x, i) \<in> set h'" for x i
  proof (cases "(x, i) \<in> set heap")
    case True
    with ok show ?thesis by (auto simp: heads_ok_def nth_append)
  next
    case False
    with that set' have "v = Some x" "i = length its" by (cases v; auto)+
    with rest(2) show ?thesis by simp
  qed
  moreover have "sorted_le cmp (skipYields ((its @ [rest]) ! i)) \<and> (i \<notin> snd ` set h' \<longrightarrow> (its @ [rest]) ! i = [])"
    if "i < length (its @ [rest])" for i
    using that ok rest(1) it(2) set' fresh
    by (cases v; cases "i = length its"; auto simp: heads_ok_def nth_append)
  ultimately show ?thesis using new dist by (auto simp: heads_ok_def)
qed

lemma merge_prime_spec:
  assumes "heads_ok cmp before heap" "\<forall>it \<in> set its. sorted_le cmp (skipYields it)"
    and "merge_prime cmp (length before) its heap = (out, its', active, heap')"
  shows "heads_ok cmp (before @ its') heap' \<and> skipYields out = [] \<and> length its' = length its \<and>
    length active = length its \<and>
    mset out + mset (concat its') + image_mset (\<lambda>e. Item (fst e)) (mset heap') =
      mset (concat its) + image_mset (\<lambda>e. Item (fst e)) (mset heap) \<and>
    {e \<in> set heap'. snd e < length before} = set heap \<and>
    (\<forall>k < length its. active ! k \<longleftrightarrow> length before + k \<in> snd ` set heap')"
  using assms
proof (induction its arbitrary: before heap out its' active heap')
  case Nil
  then show ?case by (auto simp: heads_ok_def)
next
  case (Cons it its)
  obtain n v rest where pull: "pullNext it = (n, v, rest)" by (metis prod_cases3)
  define h where "h = (case v of None \<Rightarrow> heap | Some x \<Rightarrow> siftUp cmp (heap @ [(x, length before)]) (length heap))"
  obtain out2 its2 act2 where r: "merge_prime cmp (length (before @ [rest])) its h = (out2, its2, act2, heap')"
    "out = replicate n Yield @ out2" "its' = rest # its2" "active = (v \<noteq> None) # act2"
    using Cons.prems(3) pull by (auto simp: h_def split: prod.splits)
  have sorted: "sorted_le cmp (skipYields it)" "\<forall>it \<in> set its. sorted_le cmp (skipYields it)" using Cons.prems(2) by auto
  note push = heads_ok_push [OF Cons.prems(1) pull sorted(1) h_def]
  note IH = Cons.IH [OF conjunct1 [OF push] sorted(2) r(1)]
  have it: "it = replicate n Yield @ (case v of None \<Rightarrow> [] | Some x \<Rightarrow> Item x # rest)" "v = None \<Longrightarrow> rest = []"
    using pullNext_eq [OF pull] by auto
  have set': "set h = (case v of Some x \<Rightarrow> insert (x, length before) (set heap) | None \<Rightarrow> set heap)"
    using push by (metis (no_types, lifting) option.case_eq_if set_mset_add_mset_insert set_mset_mset)
  have below: "snd e < length before" if "e \<in> set heap" for e
    using that Cons.prems(1) by (auto simp: heads_ok_def split_beta)
  have "{e \<in> set heap'. snd e < length (before @ [rest])} = set h" using IH by blast
  then have in_h: "\<And>e. e \<in> set h \<longleftrightarrow> e \<in> set heap' \<and> snd e \<le> length before"
    by (metis (mono_tags, lifting) length_append_singleton less_Suc_eq_le mem_Collect_eq)
  have "{e \<in> set heap'. snd e < length before} = {e \<in> set h. snd e < length before}" using in_h by auto
  also have "\<dots> = set heap" using set' below by (cases v) auto
  finally have old: "{e \<in> set heap'. snd e < length before} = set heap" .
  have head: "(v \<noteq> None) \<longleftrightarrow> length before \<in> snd ` set heap'"
  proof -
    have "length before \<in> snd ` set heap' \<longleftrightarrow> length before \<in> snd ` set h" using in_h by force
    then show ?thesis using set' below by (cases v) force+
  qed
  have act: "active ! k \<longleftrightarrow> length before + k \<in> snd ` set heap'" if "k < length (it # its)" for k
  proof (cases k)
    case 0
    then show ?thesis using head by (simp add: r(4))
  next
    case (Suc k')
    then have "act2 ! k' \<longleftrightarrow> length (before @ [rest]) + k' \<in> snd ` set heap'" using IH that by simp
    with Suc show ?thesis by (simp add: r(4))
  qed
  have "mset out + mset (concat its') + image_mset (\<lambda>e. Item (fst e)) (mset heap') =
      mset (replicate n Yield) + mset rest + (mset (concat its) + image_mset (\<lambda>e. Item (fst e)) (mset h))"
    using IH by (simp add: r ac_simps)
  also have "\<dots> = mset (concat (it # its)) + image_mset (\<lambda>e. Item (fst e)) (mset heap)"
    using push it by (cases v) (auto simp: ac_simps)
  finally show ?case using IH old act by (simp add: r)
qed

lemma merge_spec:
  assumes "\<forall>s \<in> set streams. sorted_le cmp (skipYields s)" "mergeSortedStreams streams cmp = (out, unclosed)"
  shows "sorted_le cmp (skipYields out) \<and> mset out = mset (concat streams) \<and> unclosed = []"
proof -
  obtain out1 its active heap where p: "merge_prime cmp 0 streams [] = (out1, its, active, heap)" by (metis prod_cases4)
  obtain out2 active' where l: "merge_loop cmp its active heap = (out2, active')" by force
  have "heads_ok cmp [] []" by (simp add: heads_ok_def heap_ok_def)
  note ps = merge_prime_spec [OF this assms(1), simplified, OF p]
  have ls: "mset out2 = image_mset (\<lambda>e. Item (fst e)) (mset heap) + mset (concat its) \<and>
      sorted_le cmp (skipYields out2) \<and> length active' = length its \<and> (\<forall>i < length its. \<not> active' ! i)"
    using ps by (intro merge_loop_spec [OF _ _ _ l]) auto
  have "out = out1 @ out2" "unclosed = filter (\<lambda>i. active' ! i) [0..<length streams]"
    using assms(2) p l by (simp_all add: mergeSortedStreams_def)
  with ps ls show ?thesis by (auto simp: filter_empty_conv ac_simps)
qed

end

subsection \<open>Property\<close>

text \<open>C26: Merging sorted streams gives a sorted stream with the same items, markers included and each as
  often as in the inputs, and leaves no iterator to close when it is read to the end.\<close>

theorem mergeSortedStreams_correct:
  assumes "comparator compare" and "\<forall>s \<in> set streams. sorted_le compare (skipYields s)"
  shows "(case mergeSortedStreams streams compare of (out, unclosed) \<Rightarrow>
    sorted_le compare (skipYields out) \<and> mset out = mset (concat streams) \<and> unclosed = [])"
  using comparator.merge_spec [OF assms] by (simp split: prod.split)

theorem mergeSortedStreams_correct_witness:
  "sorted_le int_cmp (skipYields (fst (mergeSortedStreams
     [[Item 3, Yield, Item 9], [], [Item 1, Item 3], [Yield, Item 2, Item 8, Item 10]] int_cmp))) \<and>
   fst (mergeSortedStreams [[Item 3, Yield, Item 9], [], [Item 1, Item 3], [Yield, Item 2, Item 8, Item 10]] int_cmp) =
     [Yield, Item 1, Item 2, Item 3, Yield, Item 3, Item 8, Item 9, Item 10]"
proof -
  let ?s = "[[Item 3, Yield, Item 9], [], [Item 1, Item 3], [Yield, Item 2, Item 8, Item 10]]"
  have "\<forall>s \<in> set ?s. sorted_le int_cmp (skipYields s)" by (simp add: sorted_le_def int_cmp_def)
  note mergeSortedStreams_correct [OF ints.comparator_axioms this]
  moreover have "fst (mergeSortedStreams ?s int_cmp) = [Yield, Item 1, Item 2, Item 3, Yield, Item 3, Item 8, Item 9, Item 10]"
    by code_simp
  ultimately show ?thesis by (auto split: prod.splits)
qed

end
