(* ===== verification/MemorySource.thy ===== *)
theory MemorySource
  imports MergeStreams
begin

section \<open>The in-memory source (zql/src/ivm/memory-source.ts)\<close>

text \<open>
  The class \<open>MemorySource\<close>: a table kept in one B+ tree per ordering asked for, its connections, and the
  change being pushed as an overlay. Methods take the record of the source's private fields and give it
  back; an assertion or exception is an \<open>Inl\<close>. An index is keyed by its ordering (the code by the JSON
  of it) and its comparator is \<open>bound_row_cmp\<close> of the key. An input is an object identity, a number; an
  output is an opaque number, the name of the sink. The column types of the table are only passed on
  by the code and are left out. A stream is read to its end.
\<close>

subsection \<open>State\<close>

text \<open>\<open>Overlay\<close>: the epoch and the change; \<open>Overlays\<close>: the rows to add and to remove.\<close>

type_synonym overlay = "nat \<times> source_change"
type_synonym overlays = "row option \<times> row option"

record mem_index =
  idx_data :: "row btree"
  idx_usedBy :: "nat list"

record connection =
  conn_input :: nat
  conn_output :: "nat option"
  conn_sort :: ordering
  conn_splitEditKeys :: "string list option"
  conn_filters :: "(condition \<times> row_predicate) option"
  conn_lastPushedEpoch :: nat

record memory_source =
  ms_tableName :: string
  ms_primaryKey :: "string list"
  ms_primaryIndexSort :: ordering
  ms_indexes :: "(ordering \<times> mem_index) list"
  ms_connections :: "connection list"
  ms_overlay :: "overlay option"
  ms_pushEpoch :: nat
  ms_nextInput :: nat

record source_schema =
  sch_tableName :: string
  sch_primaryKey :: "string list"
  sch_sort :: "ordering option"
  sch_isHidden :: bool

record source_input =
  si_input :: nat
  si_schema :: source_schema
  si_fullyAppliedFilters :: bool

definition conn_compareRows :: "utf8 \<Rightarrow> connection \<Rightarrow> row cmp" where
  "conn_compareRows u8 conn = row_cmp u8 (conn_sort conn) False"

text \<open>
  \<open>makeBoundComparator\<close> reads \<open>sort[0]\<close> and throws on an empty ordering. Where the comparator it returns
  throws (on values of different types) the model's total extension of it goes on.
\<close>

definition index_comparator :: "utf8 \<Rightarrow> ordering \<Rightarrow> row cmp result" where
  "index_comparator u8 srt =
     bind_result (makeBoundComparator u8 srt) (\<lambda>_. Inr (bound_row_cmp u8 srt))"

subsection \<open>Construction, connections and indexes\<close>

definition new_memory_source :: "utf8 \<Rightarrow> string \<Rightarrow> string list \<Rightarrow> row btree option \<Rightarrow> memory_source result" where
  "new_memory_source u8 table primaryKey primaryIndexData =
     (let primaryIndexSort = map (\<lambda>k. (k, Asc)) primaryKey in
      bind_result (index_comparator u8 primaryIndexSort) (\<lambda>_.
        Inr \<lparr>ms_tableName = table, ms_primaryKey = primaryKey, ms_primaryIndexSort = primaryIndexSort,
          ms_indexes = [(primaryIndexSort,
            \<lparr>idx_data = (case primaryIndexData of Some d \<Rightarrow> d | None \<Rightarrow> empty_btree), idx_usedBy = []\<rparr>)],
          ms_connections = [], ms_overlay = None, ms_pushEpoch = 0, ms_nextInput = 0\<rparr>))"

definition getPrimaryIndex :: "memory_source \<Rightarrow> mem_index result" where
  "getPrimaryIndex ms = (case map_of (ms_indexes ms) (ms_primaryIndexSort ms) of
     None \<Rightarrow> Inl (AssertionFailed ''Primary index not found'') | Some index \<Rightarrow> Inr index)"

text \<open>\<open>fork\<close>: the new source, and this one with its nodes now shared with the clone.\<close>

definition fork_source :: "utf8 \<Rightarrow> memory_source \<Rightarrow> (memory_source \<times> memory_source) result" where
  "fork_source u8 ms = bind_result (getPrimaryIndex ms) (\<lambda>primaryIndex.
     let (data, cloned) = btree_clone (idx_data primaryIndex);
         ms' = ms\<lparr>ms_indexes := AList.update (ms_primaryIndexSort ms) (primaryIndex\<lparr>idx_data := data\<rparr>) (ms_indexes ms)\<rparr>
     in bind_result (new_memory_source u8 (ms_tableName ms) (ms_primaryKey ms) (Some cloned)) (\<lambda>fork. Inr (fork, ms')))"

definition getSchema :: "memory_source \<Rightarrow> ordering \<Rightarrow> bool \<Rightarrow> source_schema" where
  "getSchema ms srt unordered =
     \<lparr>sch_tableName = ms_tableName ms, sch_primaryKey = ms_primaryKey ms,
      sch_sort = (if unordered then None else Some srt), sch_isHidden = False\<rparr>"

definition assertOrderingIncludesPK :: "ordering \<Rightarrow> string list \<Rightarrow> unit result" where
  "assertOrderingIncludesPK srt pk =
     (let orderingFields = map fst srt;
          missingFields = filter (\<lambda>f. f \<notin> set orderingFields) pk
      in if missingFields = [] then Inr ()
         else Inl (AssertionFailed ''Ordering must include all primary key fields''))"

definition connect ::
    "utf8 \<Rightarrow> (literal_value \<Rightarrow> string) \<Rightarrow> memory_source \<Rightarrow> ordering option \<Rightarrow> condition option \<Rightarrow>
     string list option \<Rightarrow> (source_input \<times> memory_source) result" where
  "connect u8 str ms srt filters splitEditKeys =
     (let (transformed, conditionsRemoved) = transformFilters filters;
          unordered = (srt = None);
          internalSort = (case srt of None \<Rightarrow> ms_primaryIndexSort ms | Some s \<Rightarrow> s);
          input = ms_nextInput ms
      in bind_result (traverse_option (\<lambda>c. bind_result (createPredicate u8 str c) (\<lambda>p. Inr (c, p))) transformed)
        (\<lambda>connFilters.
          let connection = \<lparr>conn_input = input, conn_output = None, conn_sort = internalSort,
                conn_splitEditKeys = splitEditKeys, conn_filters = connFilters, conn_lastPushedEpoch = 0\<rparr>;
              schema = getSchema ms internalSort unordered
          in bind_result (if unordered then Inr () else assertOrderingIncludesPK internalSort (ms_primaryKey ms)) (\<lambda>_.
            Inr (\<lparr>si_input = input, si_schema = schema, si_fullyAppliedFilters = \<not> conditionsRemoved\<rparr>,
              ms\<lparr>ms_connections := ms_connections ms @ [connection], ms_nextInput := input + 1\<rparr>))))"

definition setOutput :: "nat \<Rightarrow> nat \<Rightarrow> memory_source \<Rightarrow> memory_source" where
  "setOutput input out ms = ms\<lparr>ms_connections :=
     map (\<lambda>c. if conn_input c = input then c\<lparr>conn_output := Some out\<rparr> else c) (ms_connections ms)\<rparr>"

text \<open>\<open>findIndex\<close>: the first position that satisfies the test.\<close>

fun find_index :: "('a \<Rightarrow> bool) \<Rightarrow> 'a list \<Rightarrow> nat option" where
  "find_index P [] = None"
| "find_index P (x # xs) = (if P x then Some 0 else map_option Suc (find_index P xs))"

definition disconnect :: "nat \<Rightarrow> memory_source \<Rightarrow> memory_source result" where
  "disconnect input ms = (case find_index (\<lambda>c. conn_input c = input) (ms_connections ms) of
     None \<Rightarrow> Inl (AssertionFailed ''Connection not found'')
   | Some idx \<Rightarrow> Inr (ms\<lparr>ms_connections := remove_at idx (ms_connections ms)\<rparr>))"

text \<open>Reading all of a scan; an iteration that does not end would be an error.\<close>

definition drained :: "'a option \<Rightarrow> 'a result" where
  "drained it = (case it of None \<Rightarrow> Inl (IllegalState ''iteration'') | Some xs \<Rightarrow> Inr xs)"

definition getOrCreateIndex :: "utf8 \<Rightarrow> ordering \<Rightarrow> nat \<Rightarrow> memory_source \<Rightarrow> (mem_index \<times> memory_source) result" where
  "getOrCreateIndex u8 srt usedBy ms = (case map_of (ms_indexes ms) srt of
     Some index \<Rightarrow>
       (let index' = index\<lparr>idx_usedBy := List.insert usedBy (idx_usedBy index)\<rparr>
        in Inr (index', ms\<lparr>ms_indexes := AList.update srt index' (ms_indexes ms)\<rparr>))
   | None \<Rightarrow>
       bind_result (index_comparator u8 srt) (\<lambda>comparator.
       bind_result (getPrimaryIndex ms) (\<lambda>primary.
       bind_result (drained (scan_values (bound_row_cmp u8 (ms_primaryIndexSort ms)) (idx_data primary) None True
         (tsize (idx_data primary)))) (\<lambda>all_rows.
       bind_result (js_sort (\<lambda>a b. Inr (comparator a b)) all_rows) (\<lambda>rows.
         let newIndex = \<lparr>idx_data = fromSorted rows, idx_usedBy = [usedBy]\<rparr>
         in Inr (newIndex, ms\<lparr>ms_indexes := AList.update srt newIndex (ms_indexes ms)\<rparr>))))))"

definition getIndexKeys :: "memory_source \<Rightarrow> ordering list" where
  "getIndexKeys ms = map fst (ms_indexes ms)"

subsection \<open>The stages of a fetch\<close>

definition generateRows :: "utf8 \<Rightarrow> ordering \<Rightarrow> row btree \<Rightarrow> row option \<Rightarrow> bool \<Rightarrow> row list result" where
  "generateRows u8 srt data scanStart reverse =
     drained (if reverse then scan_values_reversed (bound_row_cmp u8 srt) data scanStart True (tsize data)
              else scan_values (bound_row_cmp u8 srt) data scanStart True (tsize data))"

fun generateWithConstraint :: "node list \<Rightarrow> constraint option \<Rightarrow> node list" where
  "generateWithConstraint [] constraint = []"
| "generateWithConstraint (node # it) constraint =
     (if (case constraint of None \<Rightarrow> False | Some c \<Rightarrow> \<not> constraintMatchesRow c (node_row node)) then []
      else node # generateWithConstraint it constraint)"

fun generateWithFilter :: "node list \<Rightarrow> row_predicate \<Rightarrow> node list result" where
  "generateWithFilter [] predicate = Inr []"
| "generateWithFilter (node # it) predicate =
     bind_result (predicate (node_row node)) (\<lambda>b.
     bind_result (generateWithFilter it predicate) (\<lambda>rest. Inr (if b then node # rest else rest)))"

definition start_reached :: "row cmp \<Rightarrow> start \<Rightarrow> row \<Rightarrow> bool" where
  "start_reached compare start r =
     (if snd start = At then 0 \<le> compare r (fst start) else 0 < compare r (fst start))"

fun start_loop :: "row cmp \<Rightarrow> start \<Rightarrow> bool \<Rightarrow> node item list \<Rightarrow> node item list" where
  "start_loop compare start started [] = []"
| "start_loop compare start started (Yield # nodes) = Yield # start_loop compare start started nodes"
| "start_loop compare start started (Item node # nodes) =
     (let started' = (started \<or> start_reached compare start (node_row node)) in
      if started' then Item node # start_loop compare start started' nodes
      else start_loop compare start started' nodes)"

definition generateWithStart :: "node item list \<Rightarrow> start option \<Rightarrow> row cmp \<Rightarrow> node item list" where
  "generateWithStart nodes start compare =
     (case start of None \<Rightarrow> nodes | Some s \<Rightarrow> start_loop compare s False nodes)"

fun overlays_of :: "source_change \<Rightarrow> overlays" where
  "overlays_of (SourceAdd row) = (Some row, None)"
| "overlays_of (SourceRemove row) = (None, Some row)"
| "overlays_of (SourceEdit row oldRow) = (Some row, Some oldRow)"

definition keep_if :: "(row \<Rightarrow> bool) \<Rightarrow> row option \<Rightarrow> row option" where
  "keep_if P r = (case r of None \<Rightarrow> None | Some row \<Rightarrow> if P row then Some row else None)"

definition overlaysForStartAt :: "overlays \<Rightarrow> row \<Rightarrow> row cmp \<Rightarrow> overlays" where
  "overlaysForStartAt ov startAt compare =
     (let undefinedIfBeforeStartAt = keep_if (\<lambda>row. \<not> compare row startAt < 0)
      in (undefinedIfBeforeStartAt (fst ov), undefinedIfBeforeStartAt (snd ov)))"

definition overlaysForConstraint :: "overlays \<Rightarrow> constraint \<Rightarrow> overlays" where
  "overlaysForConstraint ov constraint =
     (let undefinedIfDoesntMatchConstraint = keep_if (constraintMatchesRow constraint)
      in (undefinedIfDoesntMatchConstraint (fst ov), undefinedIfDoesntMatchConstraint (snd ov)))"

definition overlaysForMultiConstraint :: "overlays \<Rightarrow> constraint list \<Rightarrow> overlays" where
  "overlaysForMultiConstraint ov multiConstraint =
     (let matchesAny = keep_if (\<lambda>row. list_ex (\<lambda>c. constraintMatchesRow c row) multiConstraint)
      in (matchesAny (fst ov), matchesAny (snd ov)))"

definition applyMultiConstraintsToOverlays :: "overlays \<Rightarrow> constraint list list option \<Rightarrow> overlays" where
  "applyMultiConstraintsToOverlays ov multiConstraints = (case multiConstraints of
     None \<Rightarrow> ov
   | Some mcs \<Rightarrow> foldl (\<lambda>ov mc. if 0 < length mc then overlaysForMultiConstraint ov mc else ov) ov mcs)"

definition overlaysForFilterPredicate :: "overlays \<Rightarrow> row_predicate \<Rightarrow> overlays result" where
  "overlaysForFilterPredicate ov filterPredicate =
     (let undefinedIfDoesntMatchFilter = (\<lambda>r. case r of None \<Rightarrow> Inr None
            | Some row \<Rightarrow> bind_result (filterPredicate row) (\<lambda>b. Inr (if b then Some row else None)))
      in bind_result (undefinedIfDoesntMatchFilter (fst ov)) (\<lambda>a.
         bind_result (undefinedIfDoesntMatchFilter (snd ov)) (\<lambda>r. Inr (a, r))))"

definition computeOverlays ::
    "row option \<Rightarrow> constraint option \<Rightarrow> overlay option \<Rightarrow> row cmp \<Rightarrow> row_predicate option \<Rightarrow>
     constraint list list option \<Rightarrow> overlays result" where
  "computeOverlays startAt constraint overlay startAtCompare filterPredicate multiConstraints =
     (let ov0 = (case overlay of None \<Rightarrow> (None, None) | Some (_, change) \<Rightarrow> overlays_of change);
          ov1 = (case startAt of None \<Rightarrow> ov0 | Some s \<Rightarrow> overlaysForStartAt ov0 s startAtCompare);
          ov2 = (case constraint of None \<Rightarrow> ov1 | Some c \<Rightarrow> overlaysForConstraint ov1 c);
          ov3 = applyMultiConstraintsToOverlays ov2 multiConstraints
      in (case filterPredicate of None \<Rightarrow> Inr ov3 | Some p \<Rightarrow> overlaysForFilterPredicate ov3 p))"

text \<open>\<open>generateWithOverlayInner\<close>: the two flags say whether the added row was yielded and the removed one skipped.\<close>

fun overlay_loop :: "overlays \<Rightarrow> row cmp \<Rightarrow> bool \<Rightarrow> bool \<Rightarrow> row list \<Rightarrow> node list" where
  "overlay_loop ov compare addYielded removeSkipped [] =
     (case fst ov of Some a \<Rightarrow> if \<not> addYielded then [Node a []] else [] | None \<Rightarrow> [])"
| "overlay_loop ov compare addYielded removeSkipped (row # rows) =
     (let yield_add = (\<not> addYielded \<and> (case fst ov of Some a \<Rightarrow> compare a row < 0 | None \<Rightarrow> False));
          addYielded' = (addYielded \<or> yield_add);
          skip = (\<not> removeSkipped \<and> (case snd ov of Some r \<Rightarrow> compare r row = 0 | None \<Rightarrow> False));
          rest = overlay_loop ov compare addYielded' (removeSkipped \<or> skip) rows
      in (if yield_add then map (\<lambda>a. Node a []) (case fst ov of Some a \<Rightarrow> [a] | None \<Rightarrow> []) else []) @
         (if skip then rest else Node row [] # rest))"

definition generateWithOverlayInner :: "row list \<Rightarrow> overlays \<Rightarrow> row cmp \<Rightarrow> node list" where
  "generateWithOverlayInner rows ov compare = overlay_loop ov compare False False rows"

definition overlay_to_apply :: "overlay option \<Rightarrow> nat \<Rightarrow> overlay option" where
  "overlay_to_apply overlay lastPushedEpoch = (case overlay of
     None \<Rightarrow> None | Some (epoch, change) \<Rightarrow> if epoch \<le> lastPushedEpoch then Some (epoch, change) else None)"

definition generateWithOverlay ::
    "row option \<Rightarrow> row list \<Rightarrow> constraint option \<Rightarrow> overlay option \<Rightarrow> nat \<Rightarrow> row cmp \<Rightarrow> row cmp \<Rightarrow>
     row_predicate option \<Rightarrow> constraint list list option \<Rightarrow> node list result" where
  "generateWithOverlay startAt rows constraint overlay lastPushedEpoch compare startAtCompare filterPredicate
       multiConstraints =
     bind_result (computeOverlays startAt constraint (overlay_to_apply overlay lastPushedEpoch) startAtCompare
       filterPredicate multiConstraints) (\<lambda>ov. Inr (generateWithOverlayInner rows ov compare))"

text \<open>The variants for sources whose rows come in no order.\<close>

definition rowMatchesPK :: "row \<Rightarrow> row \<Rightarrow> string list \<Rightarrow> bool" where
  "rowMatchesPK a b primaryKey = list_all (\<lambda>key. valuesEqual (get_field a key) (get_field b key)) primaryKey"

fun skip_loop :: "row option \<Rightarrow> string list \<Rightarrow> bool \<Rightarrow> row list \<Rightarrow> node list" where
  "skip_loop rm primaryKey removeSkipped [] = []"
| "skip_loop rm primaryKey removeSkipped (row # rows) =
     (if \<not> removeSkipped \<and> (case rm of None \<Rightarrow> False | Some r \<Rightarrow> rowMatchesPK r row primaryKey)
      then skip_loop rm primaryKey True rows
      else Node row [] # skip_loop rm primaryKey removeSkipped rows)"

definition generateWithOverlayInnerUnordered :: "row list \<Rightarrow> overlays \<Rightarrow> string list \<Rightarrow> node list" where
  "generateWithOverlayInnerUnordered rows ov primaryKey =
     (case fst ov of None \<Rightarrow> [] | Some a \<Rightarrow> [Node a []]) @ skip_loop (snd ov) primaryKey False rows"

definition generateWithOverlayUnordered ::
    "row list \<Rightarrow> constraint option \<Rightarrow> overlay option \<Rightarrow> nat \<Rightarrow> string list \<Rightarrow> row_predicate option \<Rightarrow>
     constraint list list option \<Rightarrow> node list result" where
  "generateWithOverlayUnordered rows constraint overlay lastPushedEpoch primaryKey filterPredicate multiConstraints =
     (let ov0 = (case overlay_to_apply overlay lastPushedEpoch of
            None \<Rightarrow> (None, None) | Some (_, change) \<Rightarrow> overlays_of change);
          ov2 = (case constraint of None \<Rightarrow> ov0 | Some c \<Rightarrow> overlaysForConstraint ov0 c);
          ov3 = applyMultiConstraintsToOverlays ov2 multiConstraints
      in bind_result (case filterPredicate of None \<Rightarrow> Inr ov3 | Some p \<Rightarrow> overlaysForFilterPredicate ov3 p)
        (\<lambda>ov. Inr (generateWithOverlayInnerUnordered rows ov primaryKey)))"

subsection \<open>Fetch\<close>

definition rev_cmp :: "bool \<Rightarrow> row cmp \<Rightarrow> row cmp" where
  "rev_cmp reverse compare = (if reverse then (\<lambda>r1 r2. compare r2 r1) else compare)"

definition bound_value :: "bool \<Rightarrow> direction \<Rightarrow> js_value" where
  "bound_value reverse dir =
     (if reverse then (if dir = Asc then JSymbol MaxValue else JSymbol MinValue)
      else (if dir = Asc then JSymbol MinValue else JSymbol MaxValue))"

text \<open>The row bound at which the scan of a constrained fetch starts, assigned field by field.\<close>

definition scan_start :: "constraint \<Rightarrow> ordering \<Rightarrow> bool \<Rightarrow> row" where
  "scan_start c indexSort reverse =
     foldl (\<lambda>s (key, dir). AList.update key
       (if has_key c key then get_field c key else bound_value reverse dir) s) [] indexSort"

definition index_sort :: "string list \<Rightarrow> constraint option \<Rightarrow> ordering \<Rightarrow> ordering" where
  "index_sort primaryKey constraint requestedSort =
     (case constraint of None \<Rightarrow> [] | Some c \<Rightarrow> map (\<lambda>(key, _). (key, Asc)) c) @
     (if 1 < length primaryKey \<or> constraint = None \<or>
         (case constraint of None \<Rightarrow> True | Some c \<Rightarrow> \<not> constraintMatchesPrimaryKey c primaryKey)
      then requestedSort else [])"

definition fetch_one ::
    "utf8 \<Rightarrow> fetch_request \<Rightarrow> connection \<Rightarrow> memory_source \<Rightarrow> (node list \<times> memory_source) result" where
  "fetch_one u8 req conn ms =
     (let reverse = req_reverse req;
          connectionComparator = rev_cmp reverse (conn_compareRows u8 conn)
      in bind_result (primaryKeyConstraintFromFilters (map_option fst (conn_filters conn)) (ms_primaryKey ms)) (\<lambda>pkConstraint.
         let fetchOrPkConstraint = (case pkConstraint of Some c \<Rightarrow> Some c | None \<Rightarrow> req_constraint req);
             indexSort = index_sort (ms_primaryKey ms) fetchOrPkConstraint (conn_sort conn)
         in bind_result (getOrCreateIndex u8 indexSort (conn_input conn) ms) (\<lambda>(index, ms').
            let indexComparator = rev_cmp reverse (bound_row_cmp u8 indexSort);
                startAt = map_option fst (req_start req);
                scanStart = (case fetchOrPkConstraint of Some c \<Rightarrow> Some (scan_start c indexSort reverse) | None \<Rightarrow> startAt)
            in bind_result (generateRows u8 indexSort (idx_data index) scanStart reverse) (\<lambda>rows.
               if overlay_to_apply (ms_overlay ms) (conn_lastPushedEpoch conn) = None \<and> req_start req = None \<and>
                  conn_filters conn = None
               then Inr (generateWithConstraint (map (\<lambda>row. Node row []) rows) (req_constraint req), ms')
               else bind_result (generateWithOverlay startAt
                     (if pkConstraint \<noteq> None then once rows else rows)
                     (req_constraint req) (ms_overlay ms) (conn_lastPushedEpoch conn) indexComparator
                     connectionComparator (map_option snd (conn_filters conn)) None) (\<lambda>withOverlay.
                 let withConstraint = generateWithConstraint
                       (skipYields (generateWithStart (map Item withOverlay) (req_start req) connectionComparator))
                       (req_constraint req)
                 in (case conn_filters conn of
                       None \<Rightarrow> Inr (withConstraint, ms')
                     | Some (_, predicate) \<Rightarrow>
                         bind_result (generateWithFilter withConstraint predicate) (\<lambda>nodes. Inr (nodes, ms'))))))))"

text \<open>\<open>{...base, ...c}\<close>.\<close>

fun fetch_each ::
    "utf8 \<Rightarrow> fetch_request \<Rightarrow> connection \<Rightarrow> constraint list \<Rightarrow> memory_source \<Rightarrow>
     (node item list list \<times> memory_source) result" where
  "fetch_each u8 req conn [] ms = Inr ([], ms)"
| "fetch_each u8 req conn (c # cs) ms =
     (let merged = (case req_constraint req of Some base \<Rightarrow> spread base c | None \<Rightarrow> c) in
      bind_result (fetch_one u8 (req\<lparr>req_constraint := Some merged, req_multi := None\<rparr>) conn ms) (\<lambda>(nodes, ms').
      bind_result (fetch_each u8 req conn cs ms') (\<lambda>(streams, ms''). Inr (map Item nodes # streams, ms''))))"

definition matches_all :: "constraint list list \<Rightarrow> row \<Rightarrow> bool" where
  "matches_all mcs row = list_all (\<lambda>mc. list_ex (\<lambda>c. constraintMatchesRow c row) mc) mcs"

definition filter_items :: "(node \<Rightarrow> bool) \<Rightarrow> node item list \<Rightarrow> node item list" where
  "filter_items P items = filter (\<lambda>it. case it of Yield \<Rightarrow> True | Item n \<Rightarrow> P n) items"

definition fetchMulti ::
    "utf8 \<Rightarrow> fetch_request \<Rightarrow> constraint list list \<Rightarrow> connection \<Rightarrow> memory_source \<Rightarrow>
     (node item list \<times> memory_source) result" where
  "fetchMulti u8 req multi conn ms =
     (case filter (\<lambda>mc. 0 < length mc) multi of
        [] \<Rightarrow> Inl (IllegalState ''multis[0]'')
      | primary # rest \<Rightarrow>
          bind_result (fetch_each u8 req conn primary ms) (\<lambda>(subStreams, ms').
            let compare = rev_cmp (req_reverse req) (conn_compareRows u8 conn);
                merged = fst (mergeSortedStreams subStreams (\<lambda>a b. compare (node_row a) (node_row b)))
            in Inr (if rest = [] then merged else filter_items (\<lambda>n. matches_all rest (node_row n)) merged, ms')))"

definition fetch ::
    "utf8 \<Rightarrow> fetch_request \<Rightarrow> connection \<Rightarrow> memory_source \<Rightarrow> (node item list \<times> memory_source) result" where
  "fetch u8 req conn ms =
     (case req_multi req of
        Some multi \<Rightarrow>
          if list_ex (\<lambda>mc. 0 < length mc) multi then fetchMulti u8 req multi conn ms
          else bind_result (fetch_one u8 req conn ms) (\<lambda>(nodes, ms'). Inr (map Item nodes, ms'))
      | None \<Rightarrow> bind_result (fetch_one u8 req conn ms) (\<lambda>(nodes, ms'). Inr (map Item nodes, ms')))"

subsection \<open>Push\<close>

definition write_index :: "row cmp \<Rightarrow> source_change \<Rightarrow> row btree \<Rightarrow> row btree result" where
  "write_index compare change data = (case change of
     SourceAdd row \<Rightarrow> Inr (btree_add compare row data)
   | SourceRemove row \<Rightarrow>
       bind_result (btree_delete compare row data) (\<lambda>(removed, data').
         if removed then Inr data' else Inl (AssertionFailed ''MemorySource: remove must succeed''))
   | SourceEdit row oldRow \<Rightarrow>
       bind_result (btree_delete compare oldRow data) (\<lambda>(removed, data').
         if removed then Inr (btree_add compare row data')
         else Inl (AssertionFailed ''MemorySource: edit remove must succeed'')))"

definition writeChange :: "utf8 \<Rightarrow> source_change \<Rightarrow> memory_source \<Rightarrow> memory_source result" where
  "writeChange u8 change ms =
     bind_result (traverse (\<lambda>(srt, index).
         bind_result (write_index (bound_row_cmp u8 srt) change (idx_data index)) (\<lambda>d. Inr (srt, index\<lparr>idx_data := d\<rparr>)))
       (ms_indexes ms)) (\<lambda>indexes. Inr (ms\<lparr>ms_indexes := indexes\<rparr>))"

definition row_exists :: "utf8 \<Rightarrow> memory_source \<Rightarrow> row \<Rightarrow> bool result" where
  "row_exists u8 ms row = bind_result (getPrimaryIndex ms) (\<lambda>index.
     Inr (btree_has (bound_row_cmp u8 (ms_primaryIndexSort ms)) row (idx_data index)))"

text \<open>\<open>genPushAndWriteWithSplitEdit\<close>: the changes that a pushed change becomes.\<close>

definition edit_splits :: "connection list \<Rightarrow> row \<Rightarrow> row \<Rightarrow> bool" where
  "edit_splits connections row oldRow = list_ex (\<lambda>c. case conn_splitEditKeys c of
     None \<Rightarrow> False
   | Some keys \<Rightarrow> list_ex (\<lambda>key. \<not> valuesEqual (get_field row key) (get_field oldRow key)) keys) connections"

definition split_change :: "connection list \<Rightarrow> source_change \<Rightarrow> source_change list" where
  "split_change connections change = (case change of
     SourceEdit row oldRow \<Rightarrow>
       if edit_splits connections row oldRow then [SourceRemove oldRow, SourceAdd row] else [change]
   | _ \<Rightarrow> [change])"

text \<open>The check at the start of \<open>genPush\<close>, under the epoch just taken.\<close>

definition push_begin :: "utf8 \<Rightarrow> source_change \<Rightarrow> memory_source \<Rightarrow> memory_source result" where
  "push_begin u8 change ms =
     (let ms' = ms\<lparr>ms_pushEpoch := ms_pushEpoch ms + 1\<rparr> in
      case change of
        SourceAdd row \<Rightarrow> bind_result (row_exists u8 ms' row) (\<lambda>b.
          if b then Inl (AssertionFailed ''Row already exists'') else Inr ms')
      | SourceRemove row \<Rightarrow> bind_result (row_exists u8 ms' row) (\<lambda>b.
          if b then Inr ms' else Inl (AssertionFailed ''Row not found''))
      | SourceEdit row oldRow \<Rightarrow> bind_result (row_exists u8 ms' oldRow) (\<lambda>b.
          if b then Inr ms' else Inl (AssertionFailed ''Row not found'')))"

fun output_change :: "source_change \<Rightarrow> change" where
  "output_change (SourceEdit row oldRow) = CEdit (Node row []) (Node oldRow [])"
| "output_change (SourceAdd row) = CAdd (Node row [])"
| "output_change (SourceRemove row) = CRemove (Node row [])"

text \<open>One turn of the loop over the connections: what is pushed to which output.\<close>

definition push_deliver ::
    "nat \<Rightarrow> source_change \<Rightarrow> memory_source \<Rightarrow> ((nat \<times> change list) list \<times> memory_source) result" where
  "push_deliver i change ms =
     (let conn = ms_connections ms ! i; epoch = ms_pushEpoch ms in
      case conn_output conn of
        None \<Rightarrow> Inr ([], ms)
      | Some out \<Rightarrow>
          (let ms' = ms\<lparr>ms_connections := (ms_connections ms)[i := conn\<lparr>conn_lastPushedEpoch := epoch\<rparr>],
                 ms_overlay := Some (epoch, change)\<rparr>
           in bind_result (filterPush (output_change change) (map_option snd (conn_filters conn)))
             (\<lambda>pushes. Inr ([(out, pushes)], ms'))))"

definition push_finish :: "utf8 \<Rightarrow> source_change \<Rightarrow> memory_source \<Rightarrow> memory_source result" where
  "push_finish u8 change ms = writeChange u8 change (ms\<lparr>ms_overlay := None\<rparr>)"

text \<open>A push with nothing else happening meanwhile: \<open>genPush\<close>, \<open>genPushAndWrite\<close> and \<open>push\<close>.\<close>

fun deliver_all ::
    "nat list \<Rightarrow> source_change \<Rightarrow> memory_source \<Rightarrow> ((nat \<times> change list) list \<times> memory_source) result" where
  "deliver_all [] change ms = Inr ([], ms)"
| "deliver_all (i # is) change ms =
     bind_result (push_deliver i change ms) (\<lambda>(ev, ms').
     bind_result (deliver_all is change ms') (\<lambda>(evs, ms''). Inr (ev @ evs, ms'')))"

definition pushAndWrite ::
    "utf8 \<Rightarrow> source_change \<Rightarrow> memory_source \<Rightarrow> ((nat \<times> change list) list \<times> memory_source) result" where
  "pushAndWrite u8 change ms =
     bind_result (push_begin u8 change ms) (\<lambda>ms1.
     bind_result (deliver_all [0..<length (ms_connections ms1)] change ms1) (\<lambda>(evs, ms2).
     bind_result (push_finish u8 change ms2) (\<lambda>ms3. Inr (evs, ms3))))"

fun push_each ::
    "utf8 \<Rightarrow> source_change list \<Rightarrow> memory_source \<Rightarrow> ((nat \<times> change list) list \<times> memory_source) result" where
  "push_each u8 [] ms = Inr ([], ms)"
| "push_each u8 (c # cs) ms =
     bind_result (pushAndWrite u8 c ms) (\<lambda>(evs, ms').
     bind_result (push_each u8 cs ms') (\<lambda>(evs', ms''). Inr (evs @ evs', ms'')))"

definition push ::
    "utf8 \<Rightarrow> source_change \<Rightarrow> memory_source \<Rightarrow> ((nat \<times> change list) list \<times> memory_source) result" where
  "push u8 change ms = push_each u8 (split_change (ms_connections ms) change) ms"

end
