(* ===== verification/MemorySourceInv.thy ===== *)
theory MemorySourceInv
  imports MemorySource
begin

section \<open>The invariant of the in-memory source\<close>

text \<open>
  The abstract state of a \<open>MemorySource\<close> is the set of its rows. The invariant \<open>ms_inv\<close> says that every
  index is a valid B+ tree for its own ordering holding exactly those rows, that every ordering used
  includes the primary key, and that no connection is ahead of the push epoch. Creating an index,
  connecting, disconnecting and forking keep it.
\<close>

subsection \<open>Orderings that include the primary key\<close>

context utf8_order
begin

lemma field_cmp_zero: "field_cmp u8 k d a b = 0 \<longleftrightarrow> bound_cmp u8 (get_field a k) (get_field b k) = 0"
  by (simp add: field_cmp_def Let_def)

lemma bound_row_cmp_zero:
  "bound_row_cmp u8 srt a b = 0 \<longleftrightarrow> (\<forall>k \<in> fst ` set srt. bound_cmp u8 (get_field a k) (get_field b k) = 0)"
proof (induction srt)
  case (Cons kd srt)
  then show ?case
    by (cases kd; cases "bound_cmp u8 (get_field a (fst kd)) (get_field b (fst kd)) = 0") (simp_all add: field_cmp_zero)
qed simp

lemma bound_row_cmp_zero_mono:
  "fst ` set t \<subseteq> fst ` set s \<Longrightarrow> bound_row_cmp u8 s a b = 0 \<Longrightarrow> bound_row_cmp u8 t a b = 0"
  unfolding bound_row_cmp_zero by blast

end

definition pk_sort :: "string list \<Rightarrow> ordering" where
  "pk_sort pk = map (\<lambda>k. (k, Asc)) pk"

definition covers_pk :: "string list \<Rightarrow> ordering \<Rightarrow> bool" where
  "covers_pk pk srt \<longleftrightarrow> set pk \<subseteq> fst ` set srt"

lemma fst_pk_sort [simp]: "fst ` set (pk_sort pk) = set pk"
  by (force simp: pk_sort_def)

lemma covers_pk_pk_sort [simp]: "covers_pk pk (pk_sort pk)"
  by (simp add: covers_pk_def)

lemma assertOrderingIncludesPK_iff: "assertOrderingIncludesPK srt pk = Inr () \<longleftrightarrow> covers_pk pk srt"
  by (auto simp: assertOrderingIncludesPK_def covers_pk_def Let_def filter_empty_conv)

subsection \<open>Sorting with a comparator\<close>

context comparator
begin

lemma insert_stable_total:
  "\<exists>zs. insert_stable (\<lambda>a b. Inr (cmp a b)) x ys = Inr zs \<and> mset zs = add_mset x (mset ys) \<and>
     (sorted_le cmp ys \<longrightarrow> sorted_le cmp zs)"
proof (induction ys)
  case Nil
  then show ?case by (simp add: sorted_le_def)
next
  case (Cons y ys)
  then obtain zs where zs: "insert_stable (\<lambda>a b. Inr (cmp a b)) x ys = Inr zs" "mset zs = add_mset x (mset ys)"
    "sorted_le cmp ys \<Longrightarrow> sorted_le cmp zs" by blast
  show ?case
  proof (cases "cmp x y \<le> 0")
    case True
    then have "sorted_le cmp (y # ys) \<Longrightarrow> sorted_le cmp (x # y # ys)"
      using cmp_trans by (auto simp: sorted_le_def)
    with True show ?thesis by simp
  next
    case False
    then have "cmp y x \<le> 0" using cmp_le_sym [of y x] by simp
    moreover have "set zs = insert x (set ys)" using zs(2) by (metis set_mset_add_mset_insert set_mset_mset)
    ultimately have "sorted_le cmp (y # ys) \<Longrightarrow> sorted_le cmp (y # zs)" using zs(3) by (simp add: sorted_le_def)
    with False zs show ?thesis by simp
  qed
qed

lemma js_sort_total:
  "\<exists>ys. js_sort (\<lambda>a b. Inr (cmp a b)) xs = Inr ys \<and> mset ys = mset xs \<and> sorted_le cmp ys"
proof (induction xs)
  case Nil
  then show ?case by (simp add: sorted_le_def)
next
  case (Cons x xs)
  then obtain ys where "js_sort (\<lambda>a b. Inr (cmp a b)) xs = Inr ys" "mset ys = mset xs" "sorted_le cmp ys" by blast
  with insert_stable_total [of x ys] show ?case by auto
qed

lemma sorted_le_strict:
  assumes "sorted_le cmp xs" "distinct xs" "\<And>a b. a \<in> set xs \<Longrightarrow> b \<in> set xs \<Longrightarrow> cmp a b = 0 \<Longrightarrow> a = b"
  shows "sorted_cmp cmp xs"
  using assms
proof (induction xs)
  case (Cons x xs)
  have "cmp x y < 0" if "y \<in> set xs" for y
  proof -
    have "cmp x y \<le> 0" "x \<noteq> y" using Cons.prems(1,2) that by (auto simp: sorted_le_def)
    moreover have "cmp x y = 0 \<Longrightarrow> x = y" using Cons.prems(3) [of x y] that by simp
    ultimately show ?thesis by (auto simp: less_le)
  qed
  with Cons show ?case by (simp add: sorted_rules sorted_le_def)
qed simp

lemma sorted_cmp_le: "sorted_cmp cmp xs \<Longrightarrow> sorted_le cmp xs"
  by (auto simp: sorted_cmp_def sorted_le_def elim: sorted_wrt_mono_rel [rotated])

end

subsection \<open>The invariant\<close>

definition ms_rows :: "memory_source \<Rightarrow> row set" where
  "ms_rows ms = (case map_of (ms_indexes ms) (ms_primaryIndexSort ms) of
     None \<Rightarrow> {} | Some index \<Rightarrow> set (btree_elems (idx_data index)))"

definition index_ok :: "utf8 \<Rightarrow> string list \<Rightarrow> row set \<Rightarrow> ordering \<times> mem_index \<Rightarrow> bool" where
  "index_ok u8 pk rows = (\<lambda>(srt, index). covers_pk pk srt \<and>
     btree_inv (bound_row_cmp u8 srt) (idx_data index) \<and> set (btree_elems (idx_data index)) = rows)"

definition conn_ok :: "memory_source \<Rightarrow> connection \<Rightarrow> bool" where
  "conn_ok ms conn \<longleftrightarrow> covers_pk (ms_primaryKey ms) (conn_sort conn) \<and>
     conn_lastPushedEpoch conn \<le> ms_pushEpoch ms"

definition ms_inv :: "utf8 \<Rightarrow> memory_source \<Rightarrow> bool" where
  "ms_inv u8 ms \<longleftrightarrow> ms_primaryKey ms \<noteq> [] \<and> ms_primaryIndexSort ms = pk_sort (ms_primaryKey ms) \<and>
     ms_primaryIndexSort ms \<in> fst ` set (ms_indexes ms) \<and> distinct (map fst (ms_indexes ms)) \<and>
     (\<forall>si \<in> set (ms_indexes ms). index_ok u8 (ms_primaryKey ms) (ms_rows ms) si) \<and>
     (\<forall>c \<in> set (ms_connections ms). conn_ok ms c)"

text \<open>No two rows of the table agree on the primary key.\<close>

definition pk_unique :: "utf8 \<Rightarrow> string list \<Rightarrow> row set \<Rightarrow> bool" where
  "pk_unique u8 pk rows \<longleftrightarrow>
     (\<forall>a \<in> rows. \<forall>b \<in> rows. bound_row_cmp u8 (pk_sort pk) a b = 0 \<longrightarrow> a = b)"

definition same_but_indexes :: "memory_source \<Rightarrow> memory_source \<Rightarrow> bool" where
  "same_but_indexes ms ms' \<longleftrightarrow> ms' = ms\<lparr>ms_indexes := ms_indexes ms'\<rparr> \<and> ms_rows ms' = ms_rows ms"

context utf8_order
begin

lemma comparator_index: "comparator (bound_row_cmp u8 srt)"
  by (rule comparator_bound_row_cmp)

lemma ms_primary:
  assumes "ms_inv u8 ms"
  shows "\<exists>index. getPrimaryIndex ms = Inr index \<and>
    map_of (ms_indexes ms) (ms_primaryIndexSort ms) = Some index \<and>
    btree_inv (bound_row_cmp u8 (ms_primaryIndexSort ms)) (idx_data index) \<and>
    set (btree_elems (idx_data index)) = ms_rows ms"
proof -
  obtain index where m: "map_of (ms_indexes ms) (ms_primaryIndexSort ms) = Some index"
    using assms unfolding ms_inv_def by (metis map_of_eq_None_iff not_None_eq)
  then have "index_ok u8 (ms_primaryKey ms) (ms_rows ms) (ms_primaryIndexSort ms, index)"
    using assms map_of_SomeD [OF m] unfolding ms_inv_def by blast
  with m show ?thesis by (auto simp: getPrimaryIndex_def index_ok_def simp del: map_of_eq_Some_iff)
qed

lemma ms_inv_frame:
  assumes "ms_inv u8 ms" "ms_primaryKey ms' = ms_primaryKey ms" "ms_primaryIndexSort ms' = ms_primaryIndexSort ms"
    "ms_indexes ms' = ms_indexes ms" "\<forall>c \<in> set (ms_connections ms'). conn_ok ms' c"
  shows "ms_inv u8 ms' \<and> ms_rows ms' = ms_rows ms"
proof -
  have rows: "ms_rows ms' = ms_rows ms" by (simp add: ms_rows_def assms(3,4))
  show ?thesis using assms(1,5) unfolding ms_inv_def rows assms(2-4) by (elim conjE) simp
qed

lemma ms_pk_unique:
  assumes "ms_inv u8 ms"
  shows "pk_unique u8 (ms_primaryKey ms) (ms_rows ms)"
proof -
  obtain index :: mem_index where i: "btree_inv (bound_row_cmp u8 (ms_primaryIndexSort ms)) (idx_data index)"
    "set (btree_elems (idx_data index)) = ms_rows ms"
    using ms_primary [OF assms] by blast
  have pk: "ms_primaryIndexSort ms = pk_sort (ms_primaryKey ms)" using assms by (simp add: ms_inv_def)
  have "sorted_cmp (bound_row_cmp u8 (ms_primaryIndexSort ms)) (btree_elems (idx_data index))"
    using i(1) by (simp add: btree_inv_def)
  from comparator.sorted_cmp_inj [OF comparator_index this] show ?thesis
    unfolding pk_unique_def pk i(2) by blast
qed

lemma pk_unique_covers:
  "pk_unique u8 pk rows \<Longrightarrow> covers_pk pk srt \<Longrightarrow> a \<in> rows \<Longrightarrow> b \<in> rows \<Longrightarrow> bound_row_cmp u8 srt a b = 0 \<Longrightarrow> a = b"
  unfolding pk_unique_def covers_pk_def using bound_row_cmp_zero_mono [of "pk_sort pk" srt a b] by auto

lemma scan_all:
  assumes "btree_inv cmp t" "comparator cmp"
  shows "drained (scan_values cmp t None True (tsize t)) = Inr (btree_elems t)"
  using scan_values_spec [OF assms(2,1), of None True "tsize t"] assms(1) by (simp add: drained_def btree_inv_def)

text \<open>Putting an index that holds the rows into the map of indexes.\<close>

lemma ms_inv_put_index:
  assumes inv: "ms_inv u8 ms" and ok: "index_ok u8 (ms_primaryKey ms) (ms_rows ms) (srt, index)"
    and ms': "ms' = ms\<lparr>ms_indexes := AList.update srt index (ms_indexes ms)\<rparr>"
  shows "ms_inv u8 ms' \<and> ms_rows ms' = ms_rows ms"
proof -
  have rows: "ms_rows ms' = ms_rows ms"
    using ok by (auto simp: ms' ms_rows_def index_ok_def update_conv' simp del: map_of_eq_Some_iff)
  have "index_ok u8 (ms_primaryKey ms) (ms_rows ms) si" if "si \<in> set (ms_indexes ms')" for si
    using that ok inv set_update_subset [of srt index "ms_indexes ms"] by (auto simp: ms' ms_inv_def)
  moreover have "conn_ok ms' c" if "c \<in> set (ms_connections ms)" for c
    using that inv by (auto simp: ms' ms_inv_def conn_ok_def)
  ultimately show ?thesis
    using inv rows unfolding ms_inv_def ms' by (elim conjE) (simp add: dom_update distinct_update)
qed

lemma new_index_ok:
  assumes inv: "ms_inv u8 ms" and cov: "covers_pk (ms_primaryKey ms) srt"
    and rows: "mset rows = mset xs" "distinct xs" "set xs = ms_rows ms" "sorted_le (bound_row_cmp u8 srt) rows"
  shows "index_ok u8 (ms_primaryKey ms) (ms_rows ms) (srt, \<lparr>idx_data = fromSorted rows, idx_usedBy = us\<rparr>)"
proof -
  have set: "set rows = ms_rows ms" "distinct rows"
    using rows(1-3) by (metis set_mset_mset) (metis rows(1,2) mset_eq_imp_distinct_iff)
  have "sorted_cmp (bound_row_cmp u8 srt) rows"
    using comparator.sorted_le_strict [OF comparator_index rows(4) set(2)]
      pk_unique_covers [OF ms_pk_unique [OF inv] cov] set(1) by blast
  from fromSorted_spec [OF this] set(1) cov show ?thesis by (simp add: index_ok_def)
qed

lemma covers_pk_nonempty: "covers_pk pk srt \<Longrightarrow> pk \<noteq> [] \<Longrightarrow> \<exists>kd rest. srt = kd # rest"
  by (cases srt) (auto simp: covers_pk_def)

lemma index_comparator_eq: "covers_pk pk srt \<Longrightarrow> pk \<noteq> [] \<Longrightarrow> index_comparator u8 srt = Inr (bound_row_cmp u8 srt)"
  using covers_pk_nonempty by (fastforce simp: index_comparator_def)

lemma getOrCreateIndex_spec:
  assumes inv: "ms_inv u8 ms" and cov: "covers_pk (ms_primaryKey ms) srt"
  shows "\<exists>index ms'. getOrCreateIndex u8 srt input ms = Inr (index, ms') \<and>
    index_ok u8 (ms_primaryKey ms) (ms_rows ms) (srt, index) \<and>
    ms' = ms\<lparr>ms_indexes := ms_indexes ms'\<rparr> \<and> ms_rows ms' = ms_rows ms \<and> ms_inv u8 ms'"
proof (cases "map_of (ms_indexes ms) srt")
  case (Some index)
  define index' where "index' = index\<lparr>idx_usedBy := List.insert input (idx_usedBy index)\<rparr>"
  define ms' where "ms' = ms\<lparr>ms_indexes := AList.update srt index' (ms_indexes ms)\<rparr>"
  have "index_ok u8 (ms_primaryKey ms) (ms_rows ms) (srt, index)"
    using inv map_of_SomeD [OF Some] unfolding ms_inv_def by blast
  then have ok: "index_ok u8 (ms_primaryKey ms) (ms_rows ms) (srt, index')"
    by (simp add: index_ok_def index'_def)
  have "getOrCreateIndex u8 srt input ms = Inr (index', ms')"
    by (simp add: getOrCreateIndex_def Some index'_def ms'_def Let_def del: map_of_eq_Some_iff)
  with ok ms_inv_put_index [OF inv ok ms'_def] show ?thesis by (auto simp: ms'_def)
next
  case None
  obtain primary :: mem_index where p: "getPrimaryIndex ms = Inr primary"
    "btree_inv (bound_row_cmp u8 (ms_primaryIndexSort ms)) (idx_data primary)"
    "set (btree_elems (idx_data primary)) = ms_rows ms"
    using ms_primary [OF inv] by blast
  obtain rows where rows: "js_sort (\<lambda>a b. Inr (bound_row_cmp u8 srt a b)) (btree_elems (idx_data primary)) = Inr rows"
    "mset rows = mset (btree_elems (idx_data primary))" "sorted_le (bound_row_cmp u8 srt) rows"
    using comparator.js_sort_total [OF comparator_index] by blast
  have dist: "distinct (btree_elems (idx_data primary))"
    using comparator.sorted_cmp_distinct [OF comparator_index] p(2) by (auto simp: btree_inv_def)
  define index' where "index' = \<lparr>idx_data = fromSorted rows, idx_usedBy = [input]\<rparr>"
  define ms' where "ms' = ms\<lparr>ms_indexes := AList.update srt index' (ms_indexes ms)\<rparr>"
  have ok: "index_ok u8 (ms_primaryKey ms) (ms_rows ms) (srt, index')"
    unfolding index'_def by (rule new_index_ok [OF inv cov rows(2) dist p(3) rows(3)])
  have pk: "ms_primaryKey ms \<noteq> []" using inv by (simp add: ms_inv_def)
  have "getOrCreateIndex u8 srt input ms = Inr (index', ms')"
    using None p(1) rows(1) scan_all [OF p(2) comparator_index]
    by (simp add: getOrCreateIndex_def index_comparator_eq [OF cov pk] index'_def ms'_def Let_def)
  with ok ms_inv_put_index [OF inv ok ms'_def] show ?thesis by (auto simp: ms'_def)
qed

subsection \<open>The operations that are neither fetch nor push\<close>

lemma new_memory_source_inv:
  assumes "new_memory_source u8 table pk None = Inr ms"
  shows "ms_inv u8 ms \<and> ms_rows ms = {}"
proof -
  have pk: "pk \<noteq> []" using assms by (auto simp: new_memory_source_def index_comparator_def Let_def)
  with assms show ?thesis
    by (auto simp: btree_empty new_memory_source_def ms_inv_def ms_rows_def index_ok_def Let_def bind_result_eq_Inr
        pk_sort_def [symmetric])
qed

lemma connect_inv:
  assumes "ms_inv u8 ms" "connect u8 str ms srt fs keys = Inr (input, ms')"
  shows "ms_inv u8 ms' \<and> ms_rows ms' = ms_rows ms"
proof -
  define s where "s = (case srt of None \<Rightarrow> ms_primaryIndexSort ms | Some s \<Rightarrow> s)"
  obtain c where c: "ms_connections ms' = ms_connections ms @ [c]" "conn_sort c = s" "conn_lastPushedEpoch c = 0"
      "ms_primaryKey ms' = ms_primaryKey ms" "ms_primaryIndexSort ms' = ms_primaryIndexSort ms"
      "ms_indexes ms' = ms_indexes ms" "ms_pushEpoch ms' = ms_pushEpoch ms"
    and pk: "(if srt = None then Inr () else assertOrderingIncludesPK s (ms_primaryKey ms)) = Inr ()"
    using assms(2)
    by (auto simp: connect_def s_def Let_def bind_result_eq_Inr split: prod.splits option.splits)
  have "covers_pk (ms_primaryKey ms) s"
    using pk assms(1) by (auto simp: s_def assertOrderingIncludesPK_iff ms_inv_def split: if_splits option.splits)
  then have "conn_ok ms' c" using c by (simp add: conn_ok_def)
  moreover have "conn_ok ms' d" if "d \<in> set (ms_connections ms)" for d
    using that assms(1) c by (simp add: ms_inv_def conn_ok_def)
  ultimately show ?thesis by (intro ms_inv_frame [OF assms(1)]) (auto simp: c)
qed

lemma setOutput_inv: "ms_inv u8 ms \<Longrightarrow> ms_inv u8 (setOutput input out ms) \<and> ms_rows (setOutput input out ms) = ms_rows ms"
  by (rule ms_inv_frame, assumption) (auto simp: setOutput_def ms_inv_def conn_ok_def)

lemma find_index_some: "find_index P xs = Some i \<Longrightarrow> i < length xs \<and> P (xs ! i)"
  by (induction xs arbitrary: i) (auto split: if_splits)

lemma disconnect_inv:
  assumes "ms_inv u8 ms" "disconnect input ms = Inr ms'"
  shows "ms_inv u8 ms' \<and> ms_rows ms' = ms_rows ms"
proof -
  obtain i where ms': "ms' = ms\<lparr>ms_connections := remove_at i (ms_connections ms)\<rparr>"
    using assms(2) by (auto simp: disconnect_def split: option.splits)
  have "conn_ok ms' c" if "c \<in> set (ms_connections ms')" for c
  proof -
    have "c \<in> set (ms_connections ms)" using that set_remove_at_subset [of i "ms_connections ms"] by (auto simp: ms')
    with assms(1) show ?thesis by (auto simp: ms' ms_inv_def conn_ok_def)
  qed
  then show ?thesis by (intro ms_inv_frame [OF assms(1)]) (auto simp: ms')
qed

end

end
