(* ===== verification/FetchStages.thy ===== *)
theory FetchStages
  imports MemorySourceInv
begin

section \<open>What each stage of a fetch computes\<close>

text \<open>
  The generators of \<open>memory-source.ts\<close> as list functions: the scan, the overlay spliced into it, the
  start bound, the constraint and the filter. Each lemma is about one stage; \<open>stages_filter\<close> says when
  the stages together are one filter.
\<close>

subsection \<open>The scan\<close>

lemma rev_cmp_simps [simp]: "rev_cmp False cmp = cmp" "rev_cmp True cmp = (\<lambda>a b. cmp b a)"
  by (simp_all add: rev_cmp_def)

lemma comparator_rev_cmp: "comparator cmp \<Longrightarrow> comparator (rev_cmp r cmp)"
  by (cases r) (simp_all add: comparator.comparator_reversed)

lemma sorted_rev_cmp: "sorted_cmp cmp xs \<Longrightarrow> sorted_cmp (rev_cmp r cmp) (if r then rev xs else xs)"
  by (cases r) (auto simp: sorted_cmp_def sorted_wrt_rev)

lemma generateRows_spec:
  assumes cmp: "comparator (bound_row_cmp u8 srt)" and inv: "btree_inv (bound_row_cmp u8 srt) t"
  shows "generateRows u8 srt t start r = Inr (filter
    (\<lambda>x. case start of None \<Rightarrow> True | Some s \<Rightarrow> 0 \<le> rev_cmp r (bound_row_cmp u8 srt) x s)
    (if r then rev (btree_elems t) else btree_elems t))"
proof (cases r)
  case False
  have "tsize t = length (btree_elems t)" using inv by (simp add: btree_inv_def)
  then show ?thesis
    using scan_values_spec [OF cmp inv, of start True "tsize t"] False
    by (cases start) (simp_all add: generateRows_def drained_def)
next
  case True
  have n: "tsize t = length (btree_elems t)" using inv by (simp add: btree_inv_def)
  show ?thesis
  proof (cases "btree_elems t = []")
    case True
    with n have "scan_values_reversed (bound_row_cmp u8 srt) t start True (tsize t) = Some []"
      by (simp add: scan_values_reversed_def split: option.split)
    with True \<open>r\<close> show ?thesis by (simp add: generateRows_def drained_def)
  next
    case False
    note scan = scan_values_reversed_spec [OF cmp inv False refl, of start True "tsize t"]
    have "bound_row_cmp u8 srt x (last (btree_elems t)) \<le> 0" if "x \<in> set (btree_elems t)" for x
    proof -
      have "sorted_cmp (bound_row_cmp u8 srt) (butlast (btree_elems t) @ [last (btree_elems t)])"
        using inv False by (simp add: btree_inv_def)
      moreover have "x \<in> set (butlast (btree_elems t) @ [last (btree_elems t)])" using that False by simp
      ultimately show ?thesis
        using comparator.cmp_refl [OF cmp] by (auto simp: sorted_rules intro: less_imp_le)
    qed
    then have "filter (\<lambda>x. bound_row_cmp u8 srt x (last (btree_elems t)) \<le> 0) (btree_elems t) = btree_elems t"
      by (simp add: filter_id_conv)
    moreover have "take (length (btree_elems t)) (filter P (rev (btree_elems t))) = filter P (rev (btree_elems t))" for P
      by (metis length_filter_le length_rev take_all)
    ultimately show ?thesis
      using scan n \<open>r\<close> comparator.cmp_le_sym [OF cmp]
      by (cases start) (simp_all add: generateRows_def drained_def rev_filter)
  qed
qed

subsection \<open>The overlay\<close>

definition without :: "row cmp \<Rightarrow> row option \<Rightarrow> row list \<Rightarrow> row list" where
  "without cmp rm rows = (case rm of None \<Rightarrow> rows | Some q \<Rightarrow> filter (\<lambda>x. cmp q x \<noteq> 0) rows)"

definition spliced :: "row cmp \<Rightarrow> overlays \<Rightarrow> row list \<Rightarrow> row list" where
  "spliced cmp ov rows = (case fst ov of None \<Rightarrow> without cmp (snd ov) rows
     | Some a \<Rightarrow> filter (\<lambda>x. 0 \<le> cmp a x) (without cmp (snd ov) rows) @ a #
                filter (\<lambda>x. cmp a x < 0) (without cmp (snd ov) rows))"

lemma without_Cons [simp]:
  "without cmp rm (x # xs) = (if \<exists>q. rm = Some q \<and> cmp q x = 0 then without cmp rm xs else x # without cmp rm xs)"
  by (auto simp: without_def split: option.split)

lemma without_Nil [simp]: "without cmp rm [] = []"
  by (simp add: without_def split: option.split)

lemma without_None [simp]: "without cmp None xs = xs"
  by (simp add: without_def)

lemma set_without: "set (without cmp rm xs) = {x \<in> set xs. \<forall>q. rm = Some q \<longrightarrow> cmp q x \<noteq> 0}"
  by (auto simp: without_def split: option.split)

text \<open>The order of a stream of rows: a comparator on rows, as every index and connection has one.\<close>

locale row_order = comparator cmp for cmp :: "row cmp"
begin

lemma without_absent: "\<forall>x \<in> set xs. cmp q x \<noteq> 0 \<Longrightarrow> without cmp (Some q) xs = xs"
  by (simp add: without_def filter_id_conv)

lemma overlay_loop_yielded:
  assumes "sorted_cmp cmp rows"
  shows "overlay_loop (a, rm) cmp True rs rows =
    map (\<lambda>r. Node r []) (without cmp (if rs then None else rm) rows)"
  using assms
proof (induction rows arbitrary: rs)
  case Nil
  then show ?case by (simp split: option.split)
next
  case (Cons row rows)
  show ?case
  proof (cases "\<exists>q. \<not> rs \<and> rm = Some q \<and> cmp q row = 0")
    case True
    then obtain q where q: "\<not> rs" "rm = Some q" "cmp q row = 0" by blast
    have "cmp q x \<noteq> 0" if "x \<in> set rows" for x
      using Cons.prems that q(3) cmp_eq_less [of q row x] by (auto simp: sorted_rules)
    with q Cons show ?thesis by (simp add: Let_def without_absent sorted_rules)
  next
    case False
    with Cons show ?thesis by (auto simp: Let_def sorted_rules split: option.split)
  qed
qed

lemma overlay_loop_none:
  assumes "sorted_cmp cmp rows"
  shows "overlay_loop (None, rm) cmp ay rs rows =
    map (\<lambda>r. Node r []) (without cmp (if rs then None else rm) rows)"
  using assms
proof (induction rows arbitrary: ay rs)
  case Nil
  then show ?case by (simp split: option.split)
next
  case (Cons row rows)
  show ?case
  proof (cases "\<exists>q. \<not> rs \<and> rm = Some q \<and> cmp q row = 0")
    case True
    then obtain q where q: "\<not> rs" "rm = Some q" "cmp q row = 0" by blast
    have "cmp q x \<noteq> 0" if "x \<in> set rows" for x
      using Cons.prems that q(3) cmp_eq_less [of q row x] by (auto simp: sorted_rules)
    with q Cons show ?thesis by (simp add: Let_def without_absent sorted_rules)
  next
    case False
    with Cons show ?thesis by (auto simp: Let_def sorted_rules split: option.split)
  qed
qed

lemma overlay_loop_some:
  assumes "sorted_cmp cmp rows"
  shows "overlay_loop (Some a, rm) cmp False rs rows =
    map (\<lambda>r. Node r []) (spliced cmp (Some a, if rs then None else rm) rows)"
  using assms
proof (induction rows arbitrary: rs)
  case Nil
  then show ?case by (simp add: spliced_def)
next
  case (Cons row rows)
  have less: "\<forall>x \<in> set rows. cmp row x < 0" and sorted: "sorted_cmp cmp rows"
    using Cons.prems by (simp_all add: sorted_rules)
  define rm' where "rm' = (if rs then None else rm)"
  have skip: "cmp q x \<noteq> 0" if "cmp q row = 0" "x \<in> set rows" for q x
    using less that cmp_eq_less [of q row x] by auto
  show ?case
  proof (cases "cmp a row < 0")
    case True
    have after: "cmp a x < 0" if "x \<in> set (row # rows)" for x
      using that True less cmp_less_trans by auto
    have "spliced cmp (Some a, rm') (row # rows) = a # without cmp rm' (row # rows)"
    proof -
      have "\<forall>x \<in> set (without cmp rm' (row # rows)). cmp a x < 0"
        using after by (auto simp: set_without split: if_splits)
      then have "filter (\<lambda>x. 0 \<le> cmp a x) (without cmp rm' (row # rows)) = []"
        "filter (\<lambda>x. cmp a x < 0) (without cmp rm' (row # rows)) = without cmp rm' (row # rows)"
        by (auto simp: filter_empty_conv filter_id_conv simp del: without_Cons)
      then show ?thesis by (simp add: spliced_def del: without_Cons)
    qed
    moreover have "overlay_loop (Some a, rm) cmp False rs (row # rows) =
        Node a [] # overlay_loop (Some a, rm) cmp True rs (row # rows)"
      using True by (simp add: Let_def)
    ultimately show ?thesis
      using overlay_loop_yielded [OF Cons.prems, of "Some a" rm rs] by (simp only: rm'_def list.map)
  next
    case False
    show ?thesis
    proof (cases "\<exists>q. rm' = Some q \<and> cmp q row = 0")
      case True
      then obtain q where q: "\<not> rs" "rm = Some q" "cmp q row = 0" by (auto simp: rm'_def split: if_splits)
      then have "without cmp rm' rows = rows" using skip by (simp add: rm'_def without_absent)
      then have "spliced cmp (Some a, rm') (row # rows) = spliced cmp (Some a, None) rows"
        using True by (auto simp: spliced_def)
      moreover have "overlay_loop (Some a, rm) cmp False rs (row # rows) = overlay_loop (Some a, rm) cmp False True rows"
        using q \<open>\<not> cmp a row < 0\<close> by (simp add: Let_def)
      ultimately show ?thesis using Cons.IH [OF sorted, of True] by (simp add: rm'_def)
    next
      case f2: False
      then have "spliced cmp (Some a, rm') (row # rows) = row # spliced cmp (Some a, rm') rows"
        using False by (auto simp: spliced_def)
      moreover have "overlay_loop (Some a, rm) cmp False rs (row # rows) =
          Node row [] # overlay_loop (Some a, rm) cmp False rs rows"
        using f2 False by (cases rm) (auto simp: Let_def rm'_def)
      ultimately show ?thesis using Cons.IH [OF sorted, of rs] by (simp add: rm'_def)
    qed
  qed
qed

lemma generateWithOverlayInner_spec:
  "sorted_cmp cmp rows \<Longrightarrow> generateWithOverlayInner rows ov cmp = map (\<lambda>r. Node r []) (spliced cmp ov rows)"
  by (cases ov; cases "fst ov")
    (auto simp: generateWithOverlayInner_def overlay_loop_some overlay_loop_none, simp add: spliced_def)

lemma set_spliced: "set (spliced cmp ov rows) = set (without cmp (snd ov) rows) \<union> set_option (fst ov)"
  by (auto simp: spliced_def split: option.splits)

lemma sorted_le_without: "sorted_cmp cmp rows \<Longrightarrow> sorted_cmp cmp (without cmp rm rows)"
  by (auto simp: without_def sorted_cmp_filter split: option.split)

lemma sorted_le_spliced:
  assumes "sorted_cmp cmp rows"
  shows "sorted_le cmp (spliced cmp ov rows)"
proof (cases "fst ov")
  case None
  with assms show ?thesis by (simp add: spliced_def sorted_cmp_le sorted_le_without)
next
  case (Some a)
  let ?w = "without cmp (snd ov) rows"
  have w: "sorted_le cmp ?w" using assms by (simp add: sorted_cmp_le sorted_le_without)
  have "cmp x y \<le> 0" if "0 \<le> cmp a x" "cmp a y < 0" for x y
    using that cmp_trans [of x a y] cmp_le_sym [of x a] by auto
  then have "sorted_le cmp (filter (\<lambda>x. 0 \<le> cmp a x) ?w @ a # filter (\<lambda>x. cmp a x < 0) ?w)"
    using w by (auto simp: sorted_le_def sorted_wrt_append sorted_wrt_filter cmp_le_sym)
  with Some show ?thesis by (simp add: spliced_def)
qed

text \<open>Nothing after the added row compares equal to it.\<close>

lemma spliced_after:
  assumes "sorted_cmp cmp rows" "\<forall>a. fst ov = Some a \<longrightarrow> a \<notin> set (without cmp (snd ov) rows)"
  shows "sorted_wrt (\<lambda>x y. cmp x y \<le> 0 \<and> (fst ov = Some x \<longrightarrow> cmp x y < 0)) (spliced cmp ov rows)"
proof (cases "fst ov")
  case None
  with sorted_le_spliced [OF assms(1), of ov] show ?thesis by (simp add: sorted_le_def)
next
  case (Some a)
  let ?w = "without cmp (snd ov) rows"
  have w: "sorted_le cmp ?w" using assms(1) by (simp add: sorted_cmp_le sorted_le_without)
  have "cmp x y \<le> 0" if "0 \<le> cmp a x" "cmp a y < 0" for x y
    using that cmp_trans [of x a y] cmp_le_sym [of x a] by auto
  moreover have "sorted_wrt (\<lambda>x y. cmp x y \<le> 0 \<and> (fst ov = Some x \<longrightarrow> cmp x y < 0)) (filter P ?w)" for P
    by (rule sorted_wrt_mono_rel [OF _ sorted_wrt_filter [OF w [unfolded sorted_le_def]]])
      (use assms(2) in auto)
  ultimately show ?thesis using assms(2) Some by (auto simp: spliced_def sorted_wrt_append cmp_le_sym)
qed

lemma distinct_spliced:
  assumes "sorted_cmp cmp rows" "\<forall>a. fst ov = Some a \<longrightarrow> a \<notin> set (without cmp (snd ov) rows)"
  shows "distinct (spliced cmp ov rows)"
proof -
  have "distinct (without cmp (snd ov) rows)" using assms(1) by (simp add: sorted_cmp_distinct sorted_le_without)
  with assms(2) show ?thesis by (auto simp: spliced_def split: option.split)
qed

end

interpretation index_order: row_order "bound_row_cmp utf8_lex srt"
  by (rule row_order.intro, rule bytes.comparator_bound_row_cmp)

subsection \<open>Start, constraint and filter\<close>

lemma start_loop_started: "skipYields (start_loop cmp s True (map Item nodes)) = nodes"
  by (induction nodes) (auto simp: Let_def)

lemma generateWithStart_spec:
  "skipYields (generateWithStart (map Item nodes) start cmp) =
   (case start of None \<Rightarrow> nodes | Some s \<Rightarrow> dropWhile (\<lambda>n. \<not> start_reached cmp s (node_row n)) nodes)"
proof -
  have "skipYields (start_loop cmp s False (map Item nodes)) = dropWhile (\<lambda>n. \<not> start_reached cmp s (node_row n)) nodes"
    for s by (induction nodes) (auto simp: Let_def start_loop_started)
  then show ?thesis by (simp add: generateWithStart_def split: option.split)
qed

definition matches :: "constraint option \<Rightarrow> row \<Rightarrow> bool" where
  "matches constraint r \<longleftrightarrow> (case constraint of None \<Rightarrow> True | Some c \<Rightarrow> constraintMatchesRow c r)"

definition after_start :: "row cmp \<Rightarrow> start option \<Rightarrow> row \<Rightarrow> bool" where
  "after_start cmp start r \<longleftrightarrow> (case start of None \<Rightarrow> True | Some s \<Rightarrow> start_reached cmp s r)"

definition passes :: "row_predicate option \<Rightarrow> row \<Rightarrow> bool" where
  "passes p r \<longleftrightarrow> (case p of None \<Rightarrow> True | Some f \<Rightarrow> f r = Inr True)"

definition decides :: "row_predicate option \<Rightarrow> row \<Rightarrow> bool" where
  "decides p r \<longleftrightarrow> (case p of None \<Rightarrow> True | Some f \<Rightarrow> (\<exists>b. f r = Inr b))"

lemma generateWithConstraint_spec:
  "generateWithConstraint nodes constraint = takeWhile (\<lambda>n. matches constraint (node_row n)) nodes"
  by (induction nodes) (auto simp: matches_def split: option.split)

lemma generateWithFilter_spec:
  "\<forall>n \<in> set nodes. decides (Some f) (node_row n) \<Longrightarrow>
   generateWithFilter nodes f = Inr (filter (\<lambda>n. passes (Some f) (node_row n)) nodes)"
  by (induction nodes) (auto simp: decides_def passes_def)

lemma dropWhile_start:
  "dropWhile (\<lambda>r. \<not> after_start cmp start r) rows =
   (case start of None \<Rightarrow> rows | Some s \<Rightarrow> dropWhile (\<lambda>r. \<not> start_reached cmp s r) rows)"
  by (cases rows) (auto simp: after_start_def split: option.split)

text \<open>When matching rows come first and are in the order of the start bound, the stages are one filter.\<close>

lemma takeWhile_filter: "sorted_wrt (\<lambda>a b. m b \<longrightarrow> m a) xs \<Longrightarrow> takeWhile m xs = filter m xs"
  by (induction xs) (auto simp: filter_empty_conv)

lemma stages_filter:
  assumes "sorted_wrt (\<lambda>a b. m b \<longrightarrow> m a) rows" "sorted_wrt (\<lambda>a b. m a \<and> m b \<and> p b \<and> s a \<longrightarrow> s b) rows"
  shows "filter p (takeWhile m (dropWhile (\<lambda>r. \<not> s r) rows)) = filter (\<lambda>r. m r \<and> s r \<and> p r) rows"
  using assms
proof (induction rows)
  case (Cons x xs)
  show ?case
  proof (cases "s x")
    case True
    have "filter p (filter m (x # xs)) = filter (\<lambda>r. m r \<and> s r \<and> p r) (x # xs)"
    proof (cases "m x")
      case m: True
      then have "\<forall>y \<in> set (x # xs). m y \<and> p y \<longrightarrow> s y" using True Cons.prems(2) by auto
      then show ?thesis unfolding filter_filter by (intro filter_cong) auto
    next
      case False
      then have "\<forall>y \<in> set (x # xs). \<not> m y" using Cons.prems(1) by auto
      with False show ?thesis unfolding filter_filter by (intro filter_cong) auto
    qed
    moreover have "dropWhile (\<lambda>r. \<not> s r) (x # xs) = x # xs" using True by simp
    moreover have "takeWhile m (x # xs) = filter m (x # xs)" by (rule takeWhile_filter [OF Cons.prems(1)])
    ultimately show ?thesis by (simp only:)
  next
    case False
    with Cons show ?thesis by simp
  qed
qed simp

end
