(* ===== verification/MemorySourceFetch.thy ===== *)
theory MemorySourceFetch
  imports FetchStages
begin

section \<open>A fetch returns the visible rows (memory-source.ts)\<close>

text \<open>
  The rows a connection sees are those of the table, with the change being pushed applied when the
  connection has been pushed it already (\<open>visible\<close>). A fetch returns, in the order of the
  connection, exactly those of them that match the constraint and the filter and are at or after the
  start bound, whatever index it scans and wherever the overlay is spliced in. Rows have no symbols in them
  (\<open>plain_row\<close>), objects no duplicate keys.
\<close>

fun apply_source_change :: "source_change \<Rightarrow> row set \<Rightarrow> row set" where
  "apply_source_change (SourceAdd r) S = insert r S"
| "apply_source_change (SourceRemove r) S = S - {r}"
| "apply_source_change (SourceEdit n r) S = insert n (S - {r})"

text \<open>The contract of a pushed change: add a new key, remove or edit a row of the table, keep keys unique.\<close>

fun change_ok :: "utf8 \<Rightarrow> string list \<Rightarrow> row set \<Rightarrow> source_change \<Rightarrow> bool" where
  "change_ok u8 pk S (SourceAdd r) \<longleftrightarrow> plain_row r \<and> (\<forall>s \<in> S. bound_row_cmp u8 (pk_sort pk) s r \<noteq> 0)"
| "change_ok u8 pk S (SourceRemove r) \<longleftrightarrow> r \<in> S"
| "change_ok u8 pk S (SourceEdit n r) \<longleftrightarrow>
     plain_row n \<and> r \<in> S \<and> (\<forall>s \<in> S - {r}. bound_row_cmp u8 (pk_sort pk) s n \<noteq> 0)"

definition pending :: "memory_source \<Rightarrow> connection \<Rightarrow> source_change option" where
  "pending ms conn = map_option snd (overlay_to_apply (ms_overlay ms) (conn_lastPushedEpoch conn))"

definition visible :: "memory_source \<Rightarrow> connection \<Rightarrow> row set" where
  "visible ms conn = (case pending ms conn of None \<Rightarrow> ms_rows ms | Some ch \<Rightarrow> apply_source_change ch (ms_rows ms))"

definition pending_overlays :: "memory_source \<Rightarrow> connection \<Rightarrow> overlays" where
  "pending_overlays ms conn = (case pending ms conn of None \<Rightarrow> (None, None) | Some ch \<Rightarrow> overlays_of ch)"

definition wanted :: "row cmp \<Rightarrow> fetch_request \<Rightarrow> connection \<Rightarrow> row \<Rightarrow> bool" where
  "wanted cmp req conn r \<longleftrightarrow> matches (req_constraint req) r \<and> after_start cmp (req_start req) r \<and>
     passes (map_option snd (conn_filters conn)) r"

subsection \<open>The scan bound\<close>

lemma map_of_foldl_update:
  assumes "\<And>k d d'. (k, d) \<in> set srt \<Longrightarrow> (k, d') \<in> set srt \<Longrightarrow> f k d = f k d'" "(k, d) \<in> set srt"
  shows "map_of (foldl (\<lambda>s (k, d). AList.update k (f k d) s) init srt) k = Some (f k d)"
  using assms
proof (induction srt rule: rev_induct)
  case (snoc kd srt)
  obtain k0 d0 where kd: "kd = (k0, d0)" by (cases kd)
  show ?case
  proof (cases "k = k0")
    case True
    have "f k d0 = f k d" by (rule snoc.prems(1)) (use snoc.prems(2) kd True in auto)
    with True show ?thesis by (simp add: kd update_conv' del: map_of_eq_Some_iff)
  next
    case False
    then have kds: "(k, d) \<in> set srt" using snoc.prems(2) kd by simp
    have "map_of (foldl (\<lambda>s (k, d). AList.update k (f k d) s) init srt) k = Some (f k d)"
      by (rule snoc.IH [OF _ kds]) (rule snoc.prems(1); simp)
    with False show ?thesis by (simp add: kd update_conv' del: map_of_eq_Some_iff)
  qed
qed simp

lemma scan_start_field:
  assumes "distinct (map fst rest)" "(k, d) \<in> set (pk_sort (map fst c) @ rest)"
  shows "get_field (scan_start c (pk_sort (map fst c) @ rest) r) k =
    (if has_key c k then get_field c k else bound_value r d)"
proof -
  let ?f = "\<lambda>k d. if has_key c k then get_field c k else bound_value r d"
  have "?f k d = ?f k d'"
    if m: "(k, d) \<in> set (pk_sort (map fst c) @ rest)" "(k, d') \<in> set (pk_sort (map fst c) @ rest)" for k d d'
  proof -
    show "?f k d = ?f k d'"
    proof (cases "has_key c k")
      case False
      then have "(k, d) \<in> set rest" "(k, d') \<in> set rest" using m by (auto simp: has_key_def pk_sort_def)
      then have "d = d'" using assms(1) by (metis eq_key_imp_eq_value)
      then show ?thesis by simp
    qed simp
  qed
  from map_of_foldl_update [of "pk_sort (map fst c) @ rest" ?f k d "[]", OF this assms(2)] show ?thesis
    by (simp add: scan_start_def get_field_def del: map_of_eq_Some_iff)
qed

context utf8_order
begin

abbreviation index_cmp :: "ordering \<Rightarrow> row cmp" where
  "index_cmp srt \<equiv> bound_row_cmp u8 srt"

lemma bound_cmp_extreme:
  assumes "bound_class v = 0"
  shows "bound_cmp u8 v (JSymbol MinValue) = 1" "bound_cmp u8 v (JSymbol MaxValue) = -1"
    "bound_cmp u8 (JSymbol MinValue) v = -1" "bound_cmp u8 (JSymbol MaxValue) v = 1"
  using assms by (simp_all add: bound_cmp_def)

lemma bound_row_cmp_keys:
  "\<forall>k \<in> fst ` set srt. get_field a k = get_field a' k \<Longrightarrow> index_cmp srt x a = index_cmp srt x a'"
  "\<forall>k \<in> fst ` set srt. get_field a k = get_field a' k \<Longrightarrow> index_cmp srt a x = index_cmp srt a' x"
  by (induction srt) (auto simp: field_cmp_def split: prod.splits)

text \<open>Beyond the constraint's columns the bound is below (in reverse, above) every row.\<close>

lemma rest_after_bound:
  assumes "plain_row x"
    and "\<forall>(k, d) \<in> set rest. bound_cmp u8 (get_field x k) (get_field s k) = 0 \<or> get_field s k = bound_value r d"
  shows "0 \<le> rev_cmp r (index_cmp rest) x s"
  using assms(2)
proof (induction rest)
  case Nil
  then show ?case by (cases r) auto
next
  case (Cons kd rest)
  obtain k d where kd: "kd = (k, d)" by (cases kd)
  have IH: "0 \<le> rev_cmp r (index_cmp rest) x s" using Cons by auto
  have pl: "bound_class (get_field x k) = 0" by (rule plain_bound_class [OF assms(1)])
  consider "bound_cmp u8 (get_field x k) (get_field s k) = 0" | "get_field s k = bound_value r d"
    using Cons.prems kd by auto
  then show ?case
  proof cases
    case 1
    then have "field_cmp u8 k d x s = 0" "field_cmp u8 k d s x = 0"
      using comparator.cmp_zero_sym [OF comparator_bound_cmp] by (auto simp: field_cmp_zero)
    with IH show ?thesis by (cases r) (auto simp: kd)
  next
    case 2
    then show ?thesis
      using bound_cmp_extreme [OF pl] by (cases r; cases d) (auto simp: kd field_cmp_def bound_value_def)
  qed
qed

lemma rev_cmp_append:
  "rev_cmp r (index_cmp (s @ t)) a b =
     (if rev_cmp r (index_cmp s) a b \<noteq> 0 then rev_cmp r (index_cmp s) a b else rev_cmp r (index_cmp t) a b)"
  by (cases r) (simp_all add: bound_row_cmp_append)

lemma scan_start_sign:
  assumes "plain_row x" "distinct (map fst rest)"
  shows "0 \<le> rev_cmp r (index_cmp (pk_sort (map fst c) @ rest)) x (scan_start c (pk_sort (map fst c) @ rest) r) \<longleftrightarrow>
    0 \<le> rev_cmp r (index_cmp (pk_sort (map fst c))) x c"
proof -
  let ?ck = "pk_sort (map fst c)"
  let ?S = "scan_start c (?ck @ rest) r"
  have S: "get_field ?S k = (if has_key c k then get_field c k else bound_value r d)" if "(k, d) \<in> set (?ck @ rest)" for k d
    by (rule scan_start_field [OF assms(2) that])
  have "\<forall>k \<in> fst ` set ?ck. get_field ?S k = get_field c k"
    using S by (force simp: has_key_def pk_sort_def)
  then have "index_cmp ?ck x ?S = index_cmp ?ck x c" "index_cmp ?ck ?S x = index_cmp ?ck c x"
    by (rule bound_row_cmp_keys)+
  then have eq: "rev_cmp r (index_cmp ?ck) x ?S = rev_cmp r (index_cmp ?ck) x c"
    by (cases r) simp_all
  have "0 \<le> rev_cmp r (index_cmp rest) x ?S" if "rev_cmp r (index_cmp ?ck) x ?S = 0"
  proof (rule rest_after_bound [OF assms(1)], clarify)
    fix k d
    assume kd: "(k, d) \<in> set rest" and ne: "get_field ?S k \<noteq> bound_value r d"
    then have "has_key c k" using S [of k d] by (auto split: if_splits)
    then have "k \<in> fst ` set ?ck" by (simp add: has_key_def)
    moreover have "index_cmp ?ck x ?S = 0"
      using that comparator.cmp_zero_sym [OF comparator_index] by (cases r) auto
    ultimately show "bound_cmp u8 (get_field x k) (get_field ?S k) = 0" unfolding bound_row_cmp_zero by blast
  qed
  then show ?thesis using eq by (simp add: rev_cmp_append)
qed

subsection \<open>Rows that match a constraint\<close>

lemma match_zero:
  assumes "constraintMatchesRow c x" "distinct (map fst c)"
  shows "index_cmp (pk_sort (map fst c)) x c = 0"
  unfolding bound_row_cmp_zero
proof
  fix k
  assume "k \<in> fst ` set (pk_sort (map fst c))"
  then obtain v where kv: "(k, v) \<in> set c" by auto
  then have "get_field x k = v" "get_field c k = v"
    using assms by (auto simp: constraintMatchesRow_iff get_field_in valuesEqual_iff)
  then show "bound_cmp u8 (get_field x k) (get_field c k) = 0"
    using comparator.cmp_refl [OF comparator_bound_cmp] by simp
qed

lemma match_class:
  assumes "constraintMatchesRow c b" "index_cmp (pk_sort (map fst c)) a b = 0" "plain_row a" "plain_row b"
  shows "constraintMatchesRow c a"
  unfolding constraintMatchesRow_iff
proof clarify
  fix k v
  assume kv: "(k, v) \<in> set c"
  then have b: "get_field b k = v" "normalizeUndefined v \<noteq> JNull"
    using assms(1) by (auto simp: constraintMatchesRow_iff valuesEqual_iff)
  have "k \<in> fst ` set (pk_sort (map fst c))" using kv by force
  then have "bound_cmp u8 (get_field a k) (get_field b k) = 0"
    using assms(2) unfolding bound_row_cmp_zero by blast
  then have "value_cmp u8 (get_field a k) (get_field b k) = 0"
    by (simp add: bound_cmp_values plain_bound_class assms(3,4))
  then have "normalizeUndefined (get_field a k) = normalizeUndefined v"
    using b(1) value_cmp_zero by simp
  with b show "valuesEqual (get_field a k) v"
    by (cases v; cases "get_field a k") (auto simp: valuesEqual_iff normalizeUndefined_def)
qed

lemma conn_cmp_bound:
  "plain_row a \<Longrightarrow> plain_row b \<Longrightarrow>
   rev_cmp r (index_cmp (conn_sort conn)) a b = rev_cmp r (conn_compareRows u8 conn) a b"
  by (cases r) (simp_all add: conn_compareRows_def bound_row_cmp_plain)

end

subsection \<open>The overlays that are kept\<close>

definition kept :: "row cmp \<Rightarrow> fetch_request \<Rightarrow> connection \<Rightarrow> row \<Rightarrow> bool" where
  "kept cmp req conn r \<longleftrightarrow> (case req_start req of None \<Rightarrow> True | Some s \<Rightarrow> \<not> cmp r (fst s) < 0) \<and>
     matches (req_constraint req) r \<and> passes (map_option snd (conn_filters conn)) r"

lemma keep_if_keep_if: "keep_if P (keep_if Q r) = keep_if (\<lambda>x. Q x \<and> P x) r"
  by (simp add: keep_if_def split: option.split)

lemma keep_if_True: "keep_if (\<lambda>x. True) r = r"
  by (simp add: keep_if_def split: option.split)

lemma filter_overlays:
  assumes "\<forall>r \<in> set_option (fst ov) \<union> set_option (snd ov). decides (Some p) r"
  shows "overlaysForFilterPredicate ov p = Inr (keep_if (passes (Some p)) (fst ov), keep_if (passes (Some p)) (snd ov))"
  using assms by (cases ov; cases "fst ov"; cases "snd ov")
    (auto simp: overlaysForFilterPredicate_def keep_if_def passes_def decides_def Let_def)

lemma set_keep_if: "set_option (keep_if P r) \<subseteq> set_option r"
  by (auto simp: keep_if_def split: option.splits if_splits)

lemma apply_multi_None: "applyMultiConstraintsToOverlays ov None = ov"
  by (simp add: applyMultiConstraintsToOverlays_def)

lemma computeOverlays_spec:
  assumes "\<forall>r \<in> set_option (fst (pending_overlays ms conn)) \<union> set_option (snd (pending_overlays ms conn)).
      decides (map_option snd (conn_filters conn)) r"
  shows "computeOverlays (map_option fst (req_start req)) (req_constraint req)
      (overlay_to_apply (ms_overlay ms) (conn_lastPushedEpoch conn)) cmp (map_option snd (conn_filters conn)) None =
    Inr (keep_if (kept cmp req conn) (fst (pending_overlays ms conn)), keep_if (kept cmp req conn) (snd (pending_overlays ms conn)))"
proof -
  define ov0 where "ov0 = pending_overlays ms conn"
  define ov1 where "ov1 = (case map_option fst (req_start req) of None \<Rightarrow> ov0 | Some s \<Rightarrow> overlaysForStartAt ov0 s cmp)"
  define ov2 where "ov2 = (case req_constraint req of None \<Rightarrow> ov1 | Some c \<Rightarrow> overlaysForConstraint ov1 c)"
  define P1 where "P1 = (\<lambda>r. case req_start req of None \<Rightarrow> True | Some s \<Rightarrow> \<not> cmp r (fst s) < 0)"
  have 0: "(case overlay_to_apply (ms_overlay ms) (conn_lastPushedEpoch conn) of None \<Rightarrow> (None, None)
      | Some (_, change) \<Rightarrow> overlays_of change) = ov0"
    by (auto simp: ov0_def pending_overlays_def pending_def split: option.split)
  have 1: "ov1 = (keep_if P1 (fst ov0), keep_if P1 (snd ov0))"
    by (auto simp: ov1_def P1_def overlaysForStartAt_def keep_if_True Let_def split: option.split)
  have 2: "ov2 = (keep_if (\<lambda>r. P1 r \<and> matches (req_constraint req) r) (fst ov0),
      keep_if (\<lambda>r. P1 r \<and> matches (req_constraint req) r) (snd ov0))"
    by (auto simp: ov2_def 1 overlaysForConstraint_def matches_def keep_if_keep_if Let_def split: option.split)
  have eq: "computeOverlays (map_option fst (req_start req)) (req_constraint req)
      (overlay_to_apply (ms_overlay ms) (conn_lastPushedEpoch conn)) cmp (map_option snd (conn_filters conn)) None =
      (case map_option snd (conn_filters conn) of None \<Rightarrow> Inr ov2 | Some p \<Rightarrow> overlaysForFilterPredicate ov2 p)"
    unfolding computeOverlays_def 0 Let_def apply_multi_None ov2_def ov1_def by simp
  show ?thesis
  proof (cases "map_option snd (conn_filters conn)")
    case None
    then show ?thesis unfolding eq by (simp add: 2 ov0_def kept_def [abs_def] P1_def passes_def)
  next
    case (Some p)
    have "\<forall>r \<in> set_option (fst ov2) \<union> set_option (snd ov2). decides (Some p) r"
      using assms set_keep_if unfolding 2 Some ov0_def fst_conv snd_conv by blast
    from filter_overlays [OF this] show ?thesis
      unfolding eq [unfolded Some] Some by (simp add: 2 ov0_def kept_def [abs_def] P1_def keep_if_keep_if conj_assoc Some)
  qed
qed

subsection \<open>The rows of a fetch\<close>

text \<open>
  \<open>stream_ok\<close>: the rows \<open>L\<close> after the overlay, with what the later stages need of their order, and
  \<open>overlay_rows\<close>: what the splice computes from the storage rows \<open>R\<close>.
\<close>

definition stream_ok :: "row cmp \<Rightarrow> fetch_request \<Rightarrow> connection \<Rightarrow> row list \<Rightarrow> bool" where
  "stream_ok cmp req conn L \<longleftrightarrow>
     sorted_wrt (\<lambda>a b. matches (req_constraint req) b \<longrightarrow> matches (req_constraint req) a) L \<and>
     sorted_wrt (\<lambda>a b. matches (req_constraint req) a \<and> matches (req_constraint req) b \<and>
       passes (map_option snd (conn_filters conn)) b \<and> after_start cmp (req_start req) a \<longrightarrow> after_start cmp (req_start req) b) L \<and>
     sorted_wrt (\<lambda>a b. wanted cmp req conn a \<and> wanted cmp req conn b \<longrightarrow> cmp a b \<le> 0) L"

definition kept_overlays :: "row cmp \<Rightarrow> fetch_request \<Rightarrow> connection \<Rightarrow> memory_source \<Rightarrow> overlays" where
  "kept_overlays cmp req conn ms =
     (keep_if (kept cmp req conn) (fst (pending_overlays ms conn)), keep_if (kept cmp req conn) (snd (pending_overlays ms conn)))"

text \<open>What the pairs of the stream have to satisfy, in one condition.\<close>

definition pair_ok :: "row cmp \<Rightarrow> fetch_request \<Rightarrow> connection \<Rightarrow> row \<Rightarrow> row \<Rightarrow> bool" where
  "pair_ok cmp req conn a b \<longleftrightarrow>
     (matches (req_constraint req) b \<longrightarrow> matches (req_constraint req) a) \<and>
     (matches (req_constraint req) a \<and> matches (req_constraint req) b \<and> passes (map_option snd (conn_filters conn)) b \<and>
       after_start cmp (req_start req) a \<longrightarrow> after_start cmp (req_start req) b) \<and>
     (wanted cmp req conn a \<and> wanted cmp req conn b \<longrightarrow> cmp a b \<le> 0)"

text \<open>A pending edit that a pinned fetch meets: it keeps the match, and the start bound includes its row.\<close>

definition edit_safe :: "fetch_request \<Rightarrow> row \<Rightarrow> row \<Rightarrow> bool" where
  "edit_safe req n x \<longleftrightarrow> (matches (req_constraint req) n \<longleftrightarrow> matches (req_constraint req) x) \<and>
     (\<forall>s. req_start req \<noteq> Some (s, After))"

lemma wanted_kept: "(\<And>s. cmp r s < 0 \<Longrightarrow> \<not> 0 \<le> cmp r s) \<Longrightarrow> wanted cmp req conn r \<Longrightarrow> kept cmp req conn r"
  by (auto simp: wanted_def kept_def after_start_def start_reached_def split: option.splits if_splits)

lemma stages_rows:
  assumes "stream_ok cmp req conn L" "\<forall>r \<in> set L. decides (map_option snd (conn_filters conn)) r"
  defines "stages \<equiv> generateWithConstraint (skipYields (generateWithStart (map Item (map (\<lambda>r. Node r []) L))
      (req_start req) cmp)) (req_constraint req)"
  shows "(case conn_filters conn of None \<Rightarrow> Inr stages | Some (c, p) \<Rightarrow> generateWithFilter stages p) =
    Inr (map (\<lambda>r. Node r []) (filter (wanted cmp req conn) L))"
proof -
  let ?m = "matches (req_constraint req)" and ?s = "after_start cmp (req_start req)"
    and ?p = "passes (map_option snd (conn_filters conn))" and ?N = "\<lambda>r. Node r []"
  have comp: "(\<lambda>n. P (node_row n)) \<circ> ?N = P" for P by (simp add: fun_eq_iff)
  have "skipYields (generateWithStart (map Item (map ?N L)) (req_start req) cmp) = map ?N (dropWhile (\<lambda>r. \<not> ?s r) L)"
    unfolding generateWithStart_spec dropWhile_start by (simp add: dropWhile_map comp comp_def split: option.split)
  then have stages: "stages = map ?N (takeWhile ?m (dropWhile (\<lambda>r. \<not> ?s r) L))"
    by (simp add: stages_def generateWithConstraint_spec takeWhile_map comp comp_def)
  have "filter ?p (takeWhile ?m (dropWhile (\<lambda>r. \<not> ?s r) L)) = filter (\<lambda>r. ?m r \<and> ?s r \<and> ?p r) L"
    using assms(1) by (intro stages_filter) (simp_all add: stream_ok_def)
  then have final: "filter ?p (takeWhile ?m (dropWhile (\<lambda>r. \<not> ?s r) L)) = filter (wanted cmp req conn) L"
    by (simp add: wanted_def [abs_def])
  show ?thesis
  proof (cases "conn_filters conn")
    case None
    then have "filter ?p xs = xs" for xs by (simp add: passes_def)
    with final None stages show ?thesis by simp
  next
    case (Some cp)
    obtain c p where cp: "cp = (c, p)" by (cases cp)
    have "\<forall>n \<in> set stages. decides (Some p) (node_row n)"
      using assms(2) by (auto simp: stages Some cp dest!: set_takeWhileD set_dropWhileD)
    from generateWithFilter_spec [OF this] final show ?thesis
      by (simp add: Some cp stages filter_map comp comp_def)
  qed
qed

context utf8_order
begin

lemma row_order_rev: "row_order (rev_cmp r (index_cmp srt))"
  by (rule row_order.intro) (rule comparator_rev_cmp [OF comparator_index])

lemma comparator_conn: "comparator (rev_cmp r (conn_compareRows u8 conn))"
  unfolding conn_compareRows_def by (rule comparator_rev_cmp [OF comparator_row_cmp])

lemma rev_zero: "rev_cmp r (index_cmp srt) a b = 0 \<longleftrightarrow> index_cmp srt a b = 0"
  using comparator.cmp_zero_sym [OF comparator_index] by (cases r) auto

lemma wanted_is_kept:
  "wanted (rev_cmp r (conn_compareRows u8 conn)) req conn x \<Longrightarrow> kept (rev_cmp r (conn_compareRows u8 conn)) req conn x"
  by (rule wanted_kept) auto

lemma pending_cases:
  assumes "\<forall>ch. pending ms conn = Some ch \<longrightarrow> change_ok u8 (ms_primaryKey ms) (ms_rows ms) ch"
  obtains "pending ms conn = None" "pending_overlays ms conn = (None, None)" "visible ms conn = ms_rows ms"
    | r where "pending ms conn = Some (SourceAdd r)" "pending_overlays ms conn = (Some r, None)"
        "visible ms conn = insert r (ms_rows ms)" "plain_row r"
        "\<forall>s \<in> ms_rows ms. index_cmp (pk_sort (ms_primaryKey ms)) s r \<noteq> 0"
    | r where "pending ms conn = Some (SourceRemove r)" "pending_overlays ms conn = (None, Some r)"
        "visible ms conn = ms_rows ms - {r}" "r \<in> ms_rows ms"
    | n r where "pending ms conn = Some (SourceEdit n r)" "pending_overlays ms conn = (Some n, Some r)"
        "visible ms conn = insert n (ms_rows ms - {r})" "plain_row n" "r \<in> ms_rows ms"
        "\<forall>s \<in> ms_rows ms - {r}. index_cmp (pk_sort (ms_primaryKey ms)) s n \<noteq> 0"
proof (cases "pending ms conn")
  case None
  then show thesis using that(1) by (simp add: pending_overlays_def visible_def)
next
  case (Some ch)
  with assms that(2-4) show thesis
    by (cases ch) (simp_all add: pending_overlays_def visible_def)
qed

text \<open>The added row clashes with no storage row but the one it replaces.\<close>

lemma added_row:
  assumes "\<forall>ch. pending ms conn = Some ch \<longrightarrow> change_ok u8 (ms_primaryKey ms) (ms_rows ms) ch"
    and "fst (pending_overlays ms conn) = Some n" and "x \<in> ms_rows ms"
    and "index_cmp (pk_sort (ms_primaryKey ms)) x n = 0"
  shows "pending ms conn = Some (SourceEdit n x) \<and> snd (pending_overlays ms conn) = Some x"
  by (rule pending_cases [OF assms(1)]) (use assms(2-4) in auto)

lemma covers_zero: "covers_pk pk srt \<Longrightarrow> index_cmp srt a b = 0 \<Longrightarrow> index_cmp (pk_sort pk) a b = 0"
  unfolding covers_pk_def using bound_row_cmp_zero_mono [of "pk_sort pk" srt] by simp

lemma visible_unique:
  assumes ch: "\<forall>ch. pending ms conn = Some ch \<longrightarrow> change_ok u8 (ms_primaryKey ms) (ms_rows ms) ch"
    and unique: "pk_unique u8 (ms_primaryKey ms) (ms_rows ms)"
  shows "pk_unique u8 (ms_primaryKey ms) (visible ms conn)"
proof (rule pending_cases [OF ch])
  note sym = comparator.cmp_zero_sym [OF comparator_index]
  fix r
  assume "visible ms conn = insert r (ms_rows ms)" "\<forall>s \<in> ms_rows ms. index_cmp (pk_sort (ms_primaryKey ms)) s r \<noteq> 0"
  with unique sym show ?thesis unfolding pk_unique_def by (metis insert_iff)
next
  note sym = comparator.cmp_zero_sym [OF comparator_index]
  fix n r
  assume "visible ms conn = insert n (ms_rows ms - {r})"
    "\<forall>s \<in> ms_rows ms - {r}. index_cmp (pk_sort (ms_primaryKey ms)) s n \<noteq> 0"
  with unique sym show ?thesis unfolding pk_unique_def by (metis DiffD1 insert_iff)
qed (use unique in \<open>auto simp: pk_unique_def\<close>)

lemma spliced_rows:
  fixes r conn req ms
  defines "cmp \<equiv> rev_cmp r (conn_compareRows u8 conn)"
  assumes unique: "pk_unique u8 (ms_primaryKey ms) (ms_rows ms)"
    and ch: "\<forall>ch. pending ms conn = Some ch \<longrightarrow> change_ok u8 (ms_primaryKey ms) (ms_rows ms) ch"
    and cov: "covers_pk (ms_primaryKey ms) srt"
    and R: "sorted_cmp (rev_cmp r (index_cmp srt)) R" "set R \<subseteq> ms_rows ms"
      "\<forall>x \<in> ms_rows ms. wanted cmp req conn x \<longrightarrow> x \<in> set R"
    and L: "L = spliced (rev_cmp r (index_cmp srt)) (kept_overlays cmp req conn ms) R"
  shows "{x \<in> set L. wanted cmp req conn x} = {x \<in> visible ms conn. wanted cmp req conn x}"
    and "\<forall>a. fst (kept_overlays cmp req conn ms) = Some a \<longrightarrow>
      a \<notin> set (without (rev_cmp r (index_cmp srt)) (snd (kept_overlays cmp req conn ms)) R)"
    and "set L \<subseteq> set R \<union> set_option (fst (kept_overlays cmp req conn ms))"
proof -
  let ?C = "rev_cmp r (index_cmp srt)" and ?ov = "kept_overlays cmp req conn ms" and ?W = "wanted cmp req conn"
  have kept: "?W x \<Longrightarrow> kept cmp req conn x" for x unfolding cmp_def by (rule wanted_is_kept)
  have Crefl: "?C x x = 0" for x by (rule comparator.cmp_refl [OF comparator_rev_cmp [OF comparator_index]])
  have Czero: "?C a b = 0 \<Longrightarrow> index_cmp (pk_sort (ms_primaryKey ms)) a b = 0" for a b
    using covers_zero [OF cov] rev_zero by blast
  have same: "a = b" if "?C a b = 0" "a \<in> ms_rows ms" "b \<in> ms_rows ms" for a b
    using unique Czero [OF that(1)] that(2,3) unfolding pk_unique_def by blast
  have setL: "set L = {x \<in> set R. \<forall>q. snd ?ov = Some q \<longrightarrow> ?C q x \<noteq> 0} \<union> set_option (fst ?ov)"
    unfolding L row_order.set_spliced [OF row_order_rev] set_without ..
  then show "set L \<subseteq> set R \<union> set_option (fst ?ov)" by auto
  have pkrefl: "index_cmp (pk_sort (ms_primaryKey ms)) x x = 0" for x by (rule comparator.cmp_refl [OF comparator_index])
  show "\<forall>a. fst ?ov = Some a \<longrightarrow> a \<notin> set (without ?C (snd ?ov) R)"
  proof (intro allI impI notI)
    fix a
    assume a: "fst ?ov = Some a" "a \<in> set (without ?C (snd ?ov) R)"
    then have p: "fst (pending_overlays ms conn) = Some a" "kept cmp req conn a"
      by (auto simp: kept_overlays_def keep_if_def split: option.splits if_splits)
    have "a \<in> set R" "\<forall>q. snd ?ov = Some q \<longrightarrow> ?C q a \<noteq> 0" using a(2) by (auto simp: set_without)
    moreover from this R(2) have "snd (pending_overlays ms conn) = Some a"
      using added_row [OF ch p(1) _ pkrefl] by blast
    then have "snd ?ov = Some a" using p(2) by (simp add: kept_overlays_def keep_if_def)
    ultimately show False using Crefl by blast
  qed
  have mem: "x \<in> set R \<and> (\<forall>q. snd ?ov = Some q \<longrightarrow> ?C q x \<noteq> 0) \<longleftrightarrow> x \<in> ms_rows ms \<and> snd (pending_overlays ms conn) \<noteq> Some x"
    if W: "?W x" and sub: "\<forall>q. snd (pending_overlays ms conn) = Some q \<longrightarrow> q \<in> ms_rows ms" for x
  proof
    assume x: "x \<in> set R \<and> (\<forall>q. snd ?ov = Some q \<longrightarrow> ?C q x \<noteq> 0)"
    have "snd (pending_overlays ms conn) \<noteq> Some x"
    proof
      assume "snd (pending_overlays ms conn) = Some x"
      then have "snd ?ov = Some x" using kept [OF W] by (simp add: kept_overlays_def keep_if_def)
      with x Crefl show False by blast
    qed
    with x R(2) show "x \<in> ms_rows ms \<and> snd (pending_overlays ms conn) \<noteq> Some x" by blast
  next
    assume x: "x \<in> ms_rows ms \<and> snd (pending_overlays ms conn) \<noteq> Some x"
    have "?C q x \<noteq> 0" if "snd ?ov = Some q" for q
    proof
      assume z: "?C q x = 0"
      have "snd (pending_overlays ms conn) = Some q"
        using that by (auto simp: kept_overlays_def keep_if_def split: option.splits if_splits)
      with sub same [OF z] x show False by blast
    qed
    with x R(3) W show "x \<in> set R \<and> (\<forall>q. snd ?ov = Some q \<longrightarrow> ?C q x \<noteq> 0)" by blast
  qed
  have add: "x \<in> set_option (fst ?ov) \<longleftrightarrow> fst (pending_overlays ms conn) = Some x" if "?W x" for x
    using kept [OF that] by (auto simp: kept_overlays_def keep_if_def split: option.splits)
  have sub: "\<forall>q. snd (pending_overlays ms conn) = Some q \<longrightarrow> q \<in> ms_rows ms"
    by (rule pending_cases [OF ch]) auto
  have vis: "visible ms conn = {x \<in> ms_rows ms. snd (pending_overlays ms conn) \<noteq> Some x} \<union> set_option (fst (pending_overlays ms conn))"
    by (rule pending_cases [OF ch]) auto
  have "x \<in> set L \<longleftrightarrow> x \<in> visible ms conn" if W: "?W x" for x
    unfolding setL vis using mem [OF W sub] add [OF W] by auto
  then show "{x \<in> set L. ?W x} = {x \<in> visible ms conn. ?W x}" by blast
qed

subsection \<open>The order of the stream under each kind of index\<close>

lemma after_start_mono:
  assumes "comparator cmp" "cmp a b \<le> 0" "after_start cmp start a"
  shows "after_start cmp start b"
proof (cases start)
  case (Some s)
  note c = comparator.cmp_trans [OF assms(1)] comparator.cmp_le_sym [OF assms(1)]
    comparator.cmp_less_le_trans [OF assms(1)] comparator.cmp_pos [OF assms(1)]
  show ?thesis
  proof (cases "snd s = At")
    case True
    then have "cmp (fst s) a \<le> 0" using assms(3) Some c(2) by (simp add: after_start_def start_reached_def)
    then have "cmp (fst s) b \<le> 0" using assms(2) c(1) by blast
    with True Some c(2) show ?thesis by (simp add: after_start_def start_reached_def)
  next
    case False
    then have "cmp (fst s) a < 0" using assms(3) Some c(4) by (simp add: after_start_def start_reached_def)
    then have "cmp (fst s) b < 0" using assms(2) c(3) by blast
    with False Some c(4) show ?thesis by (simp add: after_start_def start_reached_def)
  qed
qed (simp add: after_start_def)

lemma stream_okI:
  assumes "sorted_wrt P L" "\<And>a b. a \<in> set L \<Longrightarrow> b \<in> set L \<Longrightarrow> P a b \<Longrightarrow> pair_ok cmp req conn a b"
  shows "stream_ok cmp req conn L"
proof -
  have "sorted_wrt (pair_ok cmp req conn) L" by (rule sorted_wrt_mono_rel [OF assms(2) assms(1)])
  then show ?thesis
    unfolding stream_ok_def pair_ok_def by (auto elim!: sorted_wrt_mono_rel [rotated])
qed

lemma pair_ok_refl: "comparator cmp \<Longrightarrow> pair_ok cmp req conn a a"
  by (simp add: pair_ok_def comparator.cmp_refl)

lemma pair_ok_le:
  "comparator cmp \<Longrightarrow> cmp a b \<le> 0 \<Longrightarrow> (matches (req_constraint req) b \<longrightarrow> matches (req_constraint req) a) \<Longrightarrow>
   pair_ok cmp req conn a b"
  using after_start_mono by (auto simp: pair_ok_def)

text \<open>Before a matching row of an index that leads with the constraint there are only matching rows.\<close>

lemma before_match:
  assumes "0 \<le> rev_cmp r (index_cmp (pk_sort (map fst c))) a c"
    and "index_cmp (pk_sort (map fst c)) b c = 0"
    and "rev_cmp r (index_cmp (pk_sort (map fst c) @ rest)) a b \<le> 0"
  shows "index_cmp (pk_sort (map fst c)) a b = 0" "rev_cmp r (index_cmp rest) a b \<le> 0"
    "rev_cmp r (index_cmp (pk_sort (map fst c) @ rest)) a b = rev_cmp r (index_cmp rest) a b"
proof -
  let ?K = "rev_cmp r (index_cmp (pk_sort (map fst c)))"
  have K: "comparator ?K" by (rule comparator_rev_cmp [OF comparator_index])
  have "?K a b \<le> 0" using assms(3) by (simp add: rev_cmp_append split: if_splits)
  moreover have bc: "?K b c = 0" using assms(2) rev_zero by simp
  ultimately have "?K a c \<le> 0" using comparator.cmp_trans [OF K, of a b c] by simp
  with assms(1) have "?K a c = 0" by simp
  then have ab: "?K a b = 0"
    using comparator.cmp_eq_trans [OF K, of a c b] comparator.cmp_zero_sym [OF K, of b c] bc by simp
  then show "index_cmp (pk_sort (map fst c)) a b = 0" using rev_zero by simp
  show "rev_cmp r (index_cmp (pk_sort (map fst c) @ rest)) a b = rev_cmp r (index_cmp rest) a b"
    using ab by (simp add: rev_cmp_append)
  with assms(3) show "rev_cmp r (index_cmp rest) a b \<le> 0" by simp
qed

lemma pairs_unconstrained:
  assumes "req_constraint req = None" "plain_row a" "plain_row b"
    and "rev_cmp r (index_cmp (conn_sort conn)) a b \<le> 0"
  shows "pair_ok (rev_cmp r (conn_compareRows u8 conn)) req conn a b"
  using assms by (intro pair_ok_le comparator_conn) (simp_all add: conn_cmp_bound matches_def)

lemma pairs_constrained:
  assumes c: "req_constraint req = Some c" "distinct (map fst c)"
    and plain: "plain_row a" "plain_row b"
    and K: "0 \<le> rev_cmp r (index_cmp (pk_sort (map fst c))) a c"
    and ab: "rev_cmp r (index_cmp (pk_sort (map fst c) @ conn_sort conn)) a b \<le> 0"
  shows "pair_ok (rev_cmp r (conn_compareRows u8 conn)) req conn a b"
proof (cases "constraintMatchesRow c b")
  case True
  note m = before_match [OF K match_zero [OF True c(2)] ab]
  have "constraintMatchesRow c a" by (rule match_class [OF True m(1) plain])
  with m(2) plain c(1) show ?thesis
    by (intro pair_ok_le comparator_conn) (simp_all add: conn_cmp_bound matches_def)
next
  case False
  with c(1) show ?thesis by (simp add: pair_ok_def matches_def wanted_def)
qed

lemma kept_after_start:
  "kept cmp req conn n \<Longrightarrow> \<forall>s. req_start req \<noteq> Some (s, After) \<Longrightarrow> after_start cmp (req_start req) n"
proof (cases "req_start req")
  case (Some s)
  moreover assume "kept cmp req conn n" "\<forall>s. req_start req \<noteq> Some (s, After)"
  ultimately show ?thesis by (cases s; cases "snd s") (auto simp: kept_def after_start_def start_reached_def)
qed (simp add: after_start_def)

lemma pairs_same_key:
  assumes cmp: "comparator cmp"
    and same: "wanted cmp req conn a \<Longrightarrow> wanted cmp req conn b \<Longrightarrow> a = b"
    and new: "kept cmp req conn b" and safe: "edit_safe req b a"
  shows "pair_ok cmp req conn a b"
proof -
  have "matches (req_constraint req) a" "matches (req_constraint req) b"
    using new safe by (simp_all add: kept_def edit_safe_def)
  moreover have "after_start cmp (req_start req) b"
    using new safe by (intro kept_after_start [of cmp req conn]) (simp_all add: edit_safe_def)
  moreover have "wanted cmp req conn a \<and> wanted cmp req conn b \<longrightarrow> cmp a b \<le> 0"
    using same comparator.cmp_refl [OF cmp] by fastforce
  ultimately show ?thesis by (simp add: pair_ok_def)
qed

end

end
