(* ===== verification/FetchCorrect.thy ===== *)
theory FetchCorrect
  imports MemorySourceFetch
begin

section \<open>Correctness of a fetch (memory-source.ts)\<close>

text \<open>
  The lemmas of the stages put together: \<open>fetch_one_spec\<close> for a fetch with at most one constraint,
  \<open>fetch_multi_spec\<close> for the merge of the fetches of a multi-row constraint.
\<close>

subsection \<open>Reading the primary key off a filter\<close>

lemma createPredicate_members:
  "createPredicate u8 str (And cs) = Inr p \<Longrightarrow> c \<in> set cs \<Longrightarrow> \<exists>q. createPredicate u8 str c = Inr q"
  by (auto simp: bind_result_eq_Inr traverse_eq_Inr list_all2_conv_all_nth in_set_conv_nth)

lemma pulled_literal:
  "createPredicate u8 str c = Inr p \<Longrightarrow> Simple op l r \<in> set (pullSimpleAndComponents c) \<Longrightarrow> \<exists>v. r = PLiteral v"
proof (induction c arbitrary: p rule: pullSimpleAndComponents.induct)
  case (1 cs)
  then obtain d where d: "d \<in> set cs" "Simple op l r \<in> set (pullSimpleAndComponents d)" by auto
  then obtain q where "createPredicate u8 str d = Inr q" using createPredicate_members [OF "1.prems"(1)] by blast
  with "1.IH" d show ?case by blast
next
  case (2 op' l' r')
  then show ?case by (auto simp: createSimplePredicate_def split: value_position.splits)
next
  case (3 c)
  then show ?case by (auto simp: bind_result_eq_Inr)
qed auto

lemma collect_pk_returns:
  "\<forall>op l r. Simple op l r \<in> set cs \<longrightarrow> (\<exists>v. r = PLiteral v) \<Longrightarrow> \<exists>ret'. collect_pk primary cs ret = Inr ret'"
proof (induction cs arbitrary: ret)
  case (Cons c cs)
  have IH: "\<exists>ret'. collect_pk primary cs ret = Inr ret'" for ret using Cons by auto
  show ?case
  proof (cases c)
    case (Simple op l r)
    then obtain v where "r = PLiteral v" using Cons.prems by (metis list.set_intros(1))
    with IH Simple show ?thesis by (auto simp: extractColumn_def split: value_position.split)
  qed (use IH in auto)
qed simp

lemma pk_filters_return:
  assumes "createPredicate u8 str cond = Inr p"
  shows "\<exists>c. primaryKeyConstraintFromFilters (Some cond) primary = Inr c"
proof -
  have "\<exists>ret'. collect_pk primary (pullSimpleAndComponents cond) [] = Inr ret'"
    using collect_pk_returns pulled_literal [OF assms] by blast
  then show ?thesis by (auto simp: primaryKeyConstraintFromFilters_def Let_def)
qed

lemma set_sort_strings: "set (sort_strings ss) = set ss"
proof -
  have ins: "set (insert_string s ts) = insert s (set ts)" for s ts by (induction ts) auto
  show ?thesis by (induction ss) (simp_all add: sort_strings_def ins)
qed

lemma matches_pk_keys: "constraintMatchesPrimaryKey c pk \<Longrightarrow> fst ` set c = set pk"
  unfolding constraintMatchesPrimaryKey_def keyMatchesPrimaryKey_def
  by (metis list.set_map set_sort_strings)

subsection \<open>What a fetch expects\<close>

definition pinned :: "string list \<Rightarrow> fetch_request \<Rightarrow> connection \<Rightarrow> bool" where
  "pinned pk req conn \<longleftrightarrow>
     (\<exists>c. primaryKeyConstraintFromFilters (map_option fst (conn_filters conn)) pk = Inr (Some c)) \<or>
     (\<exists>c. req_constraint req = Some c \<and> constraintMatchesPrimaryKey c pk)"

definition filter_ok :: "utf8 \<Rightarrow> (literal_value \<Rightarrow> string) \<Rightarrow> memory_source \<Rightarrow> connection \<Rightarrow> bool" where
  "filter_ok u8 str ms conn \<longleftrightarrow> (\<forall>cond p. conn_filters conn = Some (cond, p) \<longrightarrow>
     createPredicate u8 str cond = Inr p \<and> (\<forall>x \<in> ms_rows ms \<union> visible ms conn. \<exists>b. p x = Inr b))"

text \<open>
  The contract of a fetch: well-formed orderings, rows and requests, a filter that decides every row, a
  pending change that respects the contract of \<open>push\<close>, and, when the fetch is pinned to a primary key,
  \<open>edit_safe\<close> for a pending edit.
\<close>

definition fetch_pre ::
    "utf8 \<Rightarrow> (literal_value \<Rightarrow> string) \<Rightarrow> memory_source \<Rightarrow> connection \<Rightarrow> fetch_request \<Rightarrow> bool" where
  "fetch_pre u8 str ms conn req \<longleftrightarrow>
     distinct (ms_primaryKey ms) \<and> conn_ok ms conn \<and> distinct (map fst (conn_sort conn)) \<and>
     (\<forall>x \<in> ms_rows ms. plain_row x) \<and> (\<forall>s. req_start req = Some s \<longrightarrow> plain_row (fst s)) \<and>
     (\<forall>c. req_constraint req = Some c \<longrightarrow> distinct (map fst c)) \<and> filter_ok u8 str ms conn \<and>
     (\<forall>ch. pending ms conn = Some ch \<longrightarrow> change_ok u8 (ms_primaryKey ms) (ms_rows ms) ch) \<and>
     (\<forall>n x. pending ms conn = Some (SourceEdit n x) \<and> pinned (ms_primaryKey ms) req conn \<longrightarrow> edit_safe req n x)"

context utf8_order
begin

text \<open>The fetch from the storage rows on, given the order of the pairs.\<close>

lemma fetch_rows:
  fixes r conn req ms srt R
  defines "cmp \<equiv> rev_cmp r (conn_compareRows u8 conn)" and "C \<equiv> rev_cmp r (index_cmp srt)"
  defines "L \<equiv> spliced C (kept_overlays cmp req conn ms) R"
  assumes inv: "ms_inv u8 ms" and pre: "fetch_pre u8 str ms conn req" and cov: "covers_pk (ms_primaryKey ms) srt"
    and R: "sorted_cmp C R" "set R \<subseteq> ms_rows ms" "\<forall>x \<in> ms_rows ms. wanted cmp req conn x \<longrightarrow> x \<in> set R"
    and pairs: "\<And>a b. a \<in> set L \<Longrightarrow> b \<in> set L \<Longrightarrow> C a b \<le> 0 \<Longrightarrow>
      (fst (kept_overlays cmp req conn ms) = Some a \<Longrightarrow> C a b < 0) \<Longrightarrow> pair_ok cmp req conn a b"
  shows "stream_ok cmp req conn L \<and> (\<forall>x \<in> set L. decides (map_option snd (conn_filters conn)) x) \<and>
    sorted_cmp cmp (filter (wanted cmp req conn) L) \<and>
    set (filter (wanted cmp req conn) L) = {x \<in> visible ms conn. wanted cmp req conn x}"
proof -
  have ch: "\<forall>ch. pending ms conn = Some ch \<longrightarrow> change_ok u8 (ms_primaryKey ms) (ms_rows ms) ch"
    and plain: "\<forall>x \<in> ms_rows ms. plain_row x" and conn: "conn_ok ms conn"
    using pre by (simp_all add: fetch_pre_def)
  note unique = ms_pk_unique [OF inv]
  note sp = spliced_rows [of ms conn srt r R req L, OF unique ch cov, folded cmp_def C_def, OF R meta_eq_to_obj_eq [OF L_def]]
  have C: "comparator cmp" unfolding cmp_def by (rule comparator_conn)
  have row: "row_order C" unfolding C_def by (rule row_order_rev)
  have ok: "stream_ok cmp req conn L"
  proof (rule stream_okI)
    show "sorted_wrt (\<lambda>x y. C x y \<le> 0 \<and> (fst (kept_overlays cmp req conn ms) = Some x \<longrightarrow> C x y < 0)) L"
      unfolding L_def by (rule row_order.spliced_after [OF row R(1)]) (rule sp(2))
  qed (rule pairs; blast)
  have sub: "set L \<subseteq> ms_rows ms \<union> set_option (fst (pending_overlays ms conn))"
    using sp(3) R(2) set_keep_if by (fastforce simp: kept_overlays_def)
  have added: "set_option (fst (pending_overlays ms conn)) \<subseteq> visible ms conn"
    "\<forall>x \<in> set_option (fst (pending_overlays ms conn)). plain_row x"
    by (rule pending_cases [OF ch]; auto)+
  have dec: "\<forall>x \<in> set L. decides (map_option snd (conn_filters conn)) x"
  proof
    fix x
    assume "x \<in> set L"
    then have "x \<in> ms_rows ms \<union> visible ms conn" using sub added(1) by blast
    then show "decides (map_option snd (conn_filters conn)) x"
      using pre unfolding fetch_pre_def filter_ok_def by (cases "conn_filters conn") (auto simp: decides_def)
  qed
  have set: "set (filter (wanted cmp req conn) L) = {x \<in> visible ms conn. wanted cmp req conn x}"
    using sp(1) by auto
  have eq: "a = b" if "a \<in> visible ms conn" "b \<in> visible ms conn" "a \<in> set L" "b \<in> set L" "cmp a b = 0" for a b
  proof -
    have "plain_row a" "plain_row b" using that(3,4) sub plain added(2) by blast+
    with that(5) have "index_cmp (conn_sort conn) a b = 0"
      using rev_zero [of r "conn_sort conn" a b] by (simp add: cmp_def flip: conn_cmp_bound)
    then have "index_cmp (pk_sort (ms_primaryKey ms)) a b = 0"
      using conn covers_zero by (auto simp: conn_ok_def)
    with visible_unique [OF ch unique] that(1,2) show ?thesis unfolding pk_unique_def by blast
  qed
  have "distinct L" unfolding L_def by (rule row_order.distinct_spliced [OF row R(1) sp(2)])
  moreover have "sorted_le cmp (filter (wanted cmp req conn) L)"
    unfolding sorted_le_def
    by (rule sorted_wrt_mono_rel [OF _ sorted_wrt_filter [OF conjunct2 [OF conjunct2 [OF ok [unfolded stream_ok_def]]]]])
      auto
  ultimately have "sorted_cmp cmp (filter (wanted cmp req conn) L)"
    using eq set by (intro comparator.sorted_le_strict [OF C]) auto
  with ok dec set show ?thesis by blast
qed

text \<open>How the fetch runs, given its index and storage rows.\<close>

lemma fetch_one_runs:
  fixes r conn req ms
  defines "cmp \<equiv> rev_cmp (req_reverse req) (conn_compareRows u8 conn)"
  assumes pre: "fetch_pre u8 str ms conn req"
    and pk: "primaryKeyConstraintFromFilters (map_option fst (conn_filters conn)) (ms_primaryKey ms) = Inr pkc"
    and c: "c = (case pkc of Some c \<Rightarrow> Some c | None \<Rightarrow> req_constraint req)"
    and srt: "srt = index_sort (ms_primaryKey ms) c (conn_sort conn)"
    and index: "getOrCreateIndex u8 srt (conn_input conn) ms = Inr (index, ms')"
    and rows: "generateRows u8 srt (idx_data index)
        (case c of Some c \<Rightarrow> Some (scan_start c srt (req_reverse req)) | None \<Rightarrow> map_option fst (req_start req))
        (req_reverse req) = Inr rows"
    and R: "R = (if pkc \<noteq> None then once rows else rows)" "sorted_cmp (rev_cmp (req_reverse req) (index_cmp srt)) R"
    and L: "L = spliced (rev_cmp (req_reverse req) (index_cmp srt)) (kept_overlays cmp req conn ms) R"
    and ok: "stream_ok cmp req conn L" "\<forall>x \<in> set L. decides (map_option snd (conn_filters conn)) x"
  shows "fetch_one u8 req conn ms = Inr (map (\<lambda>r. Node r []) (filter (wanted cmp req conn) L), ms')"
proof -
  let ?N = "\<lambda>r. Node r []"
  define stages where "stages = generateWithConstraint (skipYields (generateWithStart (map Item (map ?N L))
      (req_start req) cmp)) (req_constraint req)"
  have st: "(case conn_filters conn of None \<Rightarrow> Inr stages | Some (c, p) \<Rightarrow> generateWithFilter stages p) =
      Inr (map ?N (filter (wanted cmp req conn) L))"
    unfolding stages_def by (rule stages_rows [OF ok])
  have dec: "\<forall>x \<in> set_option (fst (pending_overlays ms conn)) \<union> set_option (snd (pending_overlays ms conn)).
      decides (map_option snd (conn_filters conn)) x"
  proof
    fix x
    assume x: "x \<in> set_option (fst (pending_overlays ms conn)) \<union> set_option (snd (pending_overlays ms conn))"
    have ch: "\<forall>ch. pending ms conn = Some ch \<longrightarrow> change_ok u8 (ms_primaryKey ms) (ms_rows ms) ch"
      using pre by (simp add: fetch_pre_def)
    have "x \<in> ms_rows ms \<union> visible ms conn" by (rule pending_cases [OF ch]) (use x in auto)
    then show "decides (map_option snd (conn_filters conn)) x"
      using pre unfolding fetch_pre_def filter_ok_def by (cases "conn_filters conn") (auto simp: decides_def)
  qed
  have overlay: "generateWithOverlay (map_option fst (req_start req)) R (req_constraint req) (ms_overlay ms)
      (conn_lastPushedEpoch conn) (rev_cmp (req_reverse req) (index_cmp srt)) cmp (map_option snd (conn_filters conn)) None =
      Inr (map ?N L)"
    using row_order.generateWithOverlayInner_spec [OF row_order_rev R(2)]
    by (simp add: generateWithOverlay_def computeOverlays_spec [OF dec] L kept_overlays_def)
  show ?thesis
  proof (cases "overlay_to_apply (ms_overlay ms) (conn_lastPushedEpoch conn) = None \<and> req_start req = None \<and> conn_filters conn = None")
    case True
    then have "pkc = None" using pk by (simp add: primaryKeyConstraintFromFilters_def)
    moreover have "kept_overlays cmp req conn ms = (None, None)"
      using True by (simp add: kept_overlays_def pending_overlays_def pending_def keep_if_def)
    ultimately have "L = rows" by (simp add: L R(1) spliced_def)
    moreover have "skipYields (generateWithStart (map Item (map ?N L)) (req_start req) cmp) = map ?N L"
      using True unfolding generateWithStart_spec by simp
    ultimately have "generateWithConstraint (map ?N rows) (req_constraint req) = map ?N (filter (wanted cmp req conn) L)"
      using st True by (simp only: stages_def) simp
    then show ?thesis
      using True pk rows index by (cases pkc; cases "req_constraint req") (simp_all add: fetch_one_def Let_def c srt)
  next
    case False
    have "fetch_one u8 req conn ms = (case conn_filters conn of None \<Rightarrow> Inr (stages, ms')
        | Some (_, predicate) \<Rightarrow> bind_result (generateWithFilter stages predicate) (\<lambda>nodes. Inr (nodes, ms')))"
      using overlay [unfolded R(1)] pk rows index
      by (cases pkc; cases "req_constraint req"; cases "conn_filters conn")
        (use False in \<open>(simp add: fetch_one_def Let_def c srt cmp_def stages_def split_beta del: not_None_eq; blast?)+\<close>)
    with st show ?thesis by (auto split: option.splits prod.splits)
  qed
qed

subsection \<open>The three kinds of scan\<close>

lemma index_sort_cases:
  obtains "c = None" "index_sort pk c srt = srt"
    | d where "c = Some d" "index_sort pk c srt = pk_sort (map fst d) @ srt"
    | d where "c = Some d" "index_sort pk c srt = pk_sort (map fst d) @ []" "constraintMatchesPrimaryKey d pk"
proof (cases c)
  case None
  then show thesis using that(1) by (simp add: index_sort_def)
next
  case (Some d)
  have "map (\<lambda>(key, _). (key, Asc)) d = pk_sort (map fst d)" by (auto simp: pk_sort_def)
  with Some show thesis using that(2,3) by (cases "1 < length pk \<or> \<not> constraintMatchesPrimaryKey d pk") (auto simp: index_sort_def)
qed

lemma index_sort_covers: "covers_pk pk srt \<Longrightarrow> covers_pk pk (index_sort pk c srt)"
  by (rule index_sort_cases [of c pk srt])
    (use matches_pk_keys in \<open>auto simp: covers_pk_def pk_sort_def image_Un image_image\<close>)

lemma scanned_rows:
  assumes "index_ok u8 pk rows (srt, index)"
  shows "\<exists>scanned. generateRows u8 srt (idx_data index) start r = Inr scanned \<and>
    sorted_cmp (rev_cmp r (index_cmp srt)) scanned \<and>
    set scanned = {x \<in> rows. case start of None \<Rightarrow> True | Some s \<Rightarrow> 0 \<le> rev_cmp r (index_cmp srt) x s}"
proof -
  have inv: "btree_inv (index_cmp srt) (idx_data index)" "set (btree_elems (idx_data index)) = rows"
    using assms by (auto simp: index_ok_def)
  have "sorted_cmp (rev_cmp r (index_cmp srt)) (if r then rev (btree_elems (idx_data index)) else btree_elems (idx_data index))"
    by (rule sorted_rev_cmp) (use inv in \<open>simp add: btree_inv_def\<close>)
  from sorted_cmp_filter [OF this] show ?thesis
    using generateRows_spec [OF comparator_index inv(1), of start r] inv(2) by auto
qed

lemma wanted_after:
  "wanted cmp req conn x \<Longrightarrow> req_start req = Some s \<Longrightarrow> 0 \<le> cmp x (fst s)"
  by (auto simp: wanted_def after_start_def start_reached_def split: if_splits)

lemma fetch_unconstrained:
  fixes conn req ms r
  defines "cmp \<equiv> rev_cmp r (conn_compareRows u8 conn)" and "C \<equiv> rev_cmp r (index_cmp (conn_sort conn))"
  assumes pre: "fetch_pre u8 str ms conn req" and none: "req_constraint req = None"
    and R: "set R = {x \<in> ms_rows ms. case map_option fst (req_start req) of None \<Rightarrow> True | Some s \<Rightarrow> 0 \<le> C x s}"
  shows "\<forall>x \<in> ms_rows ms. wanted cmp req conn x \<longrightarrow> x \<in> set R"
    and "plain_row a \<Longrightarrow> plain_row b \<Longrightarrow> C a b \<le> 0 \<Longrightarrow> pair_ok cmp req conn a b"
proof -
  have plain: "\<forall>x \<in> ms_rows ms. plain_row x" "\<forall>s. req_start req = Some s \<longrightarrow> plain_row (fst s)"
    using pre by (simp_all add: fetch_pre_def)
  show "\<forall>x \<in> ms_rows ms. wanted cmp req conn x \<longrightarrow> x \<in> set R"
  proof (intro ballI impI)
    fix x
    assume x: "x \<in> ms_rows ms" "wanted cmp req conn x"
    have "0 \<le> C x (fst s)" if "req_start req = Some s" for s
      using wanted_after [OF x(2) that] plain x(1) that by (simp add: C_def cmp_def conn_cmp_bound)
    with x(1) show "x \<in> set R" unfolding R by (cases "req_start req") auto
  qed
  show "plain_row a \<Longrightarrow> plain_row b \<Longrightarrow> C a b \<le> 0 \<Longrightarrow> pair_ok cmp req conn a b"
    unfolding C_def cmp_def by (rule pairs_unconstrained [OF none])
qed

text \<open>Two wanted rows with one key are one row.\<close>

lemma wanted_same:
  assumes inv: "ms_inv u8 ms" and pre: "fetch_pre u8 str ms conn req"
    and "a \<in> visible ms conn" "b \<in> visible ms conn"
    and "index_cmp (pk_sort (ms_primaryKey ms)) a b = 0"
  shows "a = b"
  using visible_unique [OF _ ms_pk_unique [OF inv], of conn] pre assms(3-5)
  unfolding pk_unique_def fetch_pre_def by blast

lemma edit_is_safe:
  "fetch_pre u8 str ms conn req \<Longrightarrow> pinned (ms_primaryKey ms) req conn \<Longrightarrow>
   pending ms conn = Some (SourceEdit n x) \<Longrightarrow> edit_safe req n x"
  by (simp add: fetch_pre_def)

lemma pk_of_columns:
  "fst ` set d = set pk \<Longrightarrow> index_cmp (pk_sort (map fst d)) a b = 0 \<Longrightarrow> index_cmp (pk_sort pk) a b = 0"
  by (rule bound_row_cmp_zero_mono [of _ "pk_sort (map fst d)"]) simp_all

text \<open>
  The pairs of a stream with at most one key per match: two storage rows, the added row after the row it
  edits, or the added row before a storage row.
\<close>

lemma pairs_one_key:
  fixes conn req ms r rest d
  defines "cmp \<equiv> rev_cmp r (conn_compareRows u8 conn)" and "srt \<equiv> pk_sort (map fst d) @ rest"
  defines "ov \<equiv> kept_overlays cmp req conn ms"
  assumes inv: "ms_inv u8 ms" and pre: "fetch_pre u8 str ms conn req" and pin: "pinned (ms_primaryKey ms) req conn"
    and keys: "fst ` set d = set (ms_primaryKey ms)" and rest: "rest = [] \<or> rest = conn_sort conn"
    and vis: "wanted cmp req conn a \<Longrightarrow> a \<in> visible ms conn" "wanted cmp req conn b \<Longrightarrow> b \<in> visible ms conn"
    and mem: "a \<in> ms_rows ms \<or> fst ov = Some a" "b \<in> ms_rows ms \<or> fst ov = Some b"
    and zero: "index_cmp (pk_sort (map fst d)) a b = 0"
    and after: "rev_cmp r (index_cmp srt) a b \<le> 0" "fst ov = Some a \<Longrightarrow> rev_cmp r (index_cmp srt) a b < 0"
  shows "pair_ok cmp req conn a b"
proof -
  have cmp: "comparator cmp" unfolding cmp_def by (rule comparator_conn)
  have ch: "\<forall>ch. pending ms conn = Some ch \<longrightarrow> change_ok u8 (ms_primaryKey ms) (ms_rows ms) ch"
    and plain: "\<forall>x \<in> ms_rows ms. plain_row x" using pre by (simp_all add: fetch_pre_def)
  have pk: "index_cmp (pk_sort (ms_primaryKey ms)) a b = 0" by (rule pk_of_columns [OF keys zero])
  have added: "fst (pending_overlays ms conn) = Some x \<and> kept cmp req conn x" if "fst ov = Some x" for x
    using that by (auto simp: ov_def kept_overlays_def keep_if_def split: option.splits if_splits)
  have plain_added: "plain_row x" if "fst ov = Some x" for x
    by (rule pending_cases [OF ch]) (use added [OF that] in auto)
  consider "fst ov = Some a" "fst ov = Some b" | "fst ov = Some a" "fst ov \<noteq> Some b" "b \<in> ms_rows ms"
    | "a \<in> ms_rows ms" "fst ov = Some b" | "a \<in> ms_rows ms" "b \<in> ms_rows ms"
    using mem by blast
  then show ?thesis
  proof cases
    case 1
    then have "a = b" by simp
    then show ?thesis by (simp add: pair_ok_refl [OF cmp])
  next
    case 2
    have less: "rev_cmp r (index_cmp rest) a b < 0"
      using after(2) [OF 2(1)] zero rev_zero by (simp add: srt_def rev_cmp_append split: if_splits)
    then have "rest = conn_sort conn" using rest by (cases r) auto
    then have "cmp a b < 0" using less plain plain_added 2 by (simp add: cmp_def conn_cmp_bound)
    moreover have "matches (req_constraint req) a" using added [OF 2(1)] by (simp add: kept_def)
    ultimately show ?thesis by (intro pair_ok_le [OF cmp]) simp_all
  next
    case 3
    have "pending ms conn = Some (SourceEdit b a)"
      using added_row [OF ch conjunct1 [OF added [OF 3(2)]] 3(1) pk] by simp
    then have "edit_safe req b a" by (rule edit_is_safe [OF pre pin])
    with added [OF 3(2)] show ?thesis
      using wanted_same [OF inv pre _ _ pk] vis by (intro pairs_same_key [OF cmp]) auto
  next
    case 4
    then have "a = b" using ms_pk_unique [OF inv] pk unfolding pk_unique_def by blast
    then show ?thesis by (simp add: pair_ok_refl [OF cmp])
  qed
qed

lemma fetch_constrained:
  fixes conn req ms r rest d R
  defines "cmp \<equiv> rev_cmp r (conn_compareRows u8 conn)" and "srt \<equiv> pk_sort (map fst d) @ rest"
  defines "ov \<equiv> kept_overlays cmp req conn ms"
  assumes inv: "ms_inv u8 ms" and pre: "fetch_pre u8 str ms conn req" and d: "req_constraint req = Some d"
    and rest: "rest = conn_sort conn \<or> (rest = [] \<and> constraintMatchesPrimaryKey d (ms_primaryKey ms))"
    and R: "set R = {x \<in> ms_rows ms. 0 \<le> rev_cmp r (index_cmp srt) x (scan_start d srt r)}"
  shows "\<forall>x \<in> ms_rows ms. wanted cmp req conn x \<longrightarrow> x \<in> set R"
    and "(wanted cmp req conn a \<Longrightarrow> a \<in> visible ms conn) \<Longrightarrow> (wanted cmp req conn b \<Longrightarrow> b \<in> visible ms conn) \<Longrightarrow>
      a \<in> set R \<or> fst ov = Some a \<Longrightarrow> b \<in> set R \<or> fst ov = Some b \<Longrightarrow>
      rev_cmp r (index_cmp srt) a b \<le> 0 \<Longrightarrow> (fst ov = Some a \<Longrightarrow> rev_cmp r (index_cmp srt) a b < 0) \<Longrightarrow>
      pair_ok cmp req conn a b"
proof -
  let ?K = "rev_cmp r (index_cmp (pk_sort (map fst d)))"
  have ch: "\<forall>ch. pending ms conn = Some ch \<longrightarrow> change_ok u8 (ms_primaryKey ms) (ms_rows ms) ch"
    and plain: "\<forall>x \<in> ms_rows ms. plain_row x" and dist: "distinct (map fst d)" "distinct (map fst rest)"
    using pre d rest by (auto simp: fetch_pre_def)
  have inR: "x \<in> set R \<longleftrightarrow> 0 \<le> ?K x d" if "x \<in> ms_rows ms" for x
    using that plain scan_start_sign [OF _ dist(2)] unfolding R srt_def by blast
  have K0: "?K x d = 0" if "matches (req_constraint req) x" for x
    using match_zero [OF _ dist(1)] that rev_zero by (simp add: d matches_def)
  show "\<forall>x \<in> ms_rows ms. wanted cmp req conn x \<longrightarrow> x \<in> set R"
    using inR K0 by (simp add: wanted_def)
  have added: "fst (pending_overlays ms conn) = Some x \<and> kept cmp req conn x" if "fst ov = Some x" for x
    using that by (auto simp: ov_def kept_overlays_def keep_if_def split: option.splits if_splits)
  have plain_added: "plain_row x" if "fst ov = Some x" for x
    by (rule pending_cases [OF ch]) (use added [OF that] in auto)
  assume vis: "wanted cmp req conn a \<Longrightarrow> a \<in> visible ms conn" "wanted cmp req conn b \<Longrightarrow> b \<in> visible ms conn"
    and mem: "a \<in> set R \<or> fst ov = Some a" "b \<in> set R \<or> fst ov = Some b"
    and ab: "rev_cmp r (index_cmp srt) a b \<le> 0" "fst ov = Some a \<Longrightarrow> rev_cmp r (index_cmp srt) a b < 0"
  have mem': "a \<in> ms_rows ms \<or> fst ov = Some a" "b \<in> ms_rows ms \<or> fst ov = Some b" using mem R by blast+
  have Ka: "0 \<le> ?K a d" using mem(1) R inR K0 added by (auto simp: kept_def)
  have pl: "plain_row a" "plain_row b" using mem' plain plain_added by blast+
  show "pair_ok cmp req conn a b"
  proof (cases "rest = conn_sort conn")
    case True
    then show ?thesis
      using pairs_constrained [OF d dist(1) pl Ka] ab(1) by (simp add: cmp_def srt_def)
  next
    case False
    then have pin: "constraintMatchesPrimaryKey d (ms_primaryKey ms)" "rest = []" using rest by auto
    show ?thesis
    proof (cases "matches (req_constraint req) b")
      case True
      then have "index_cmp (pk_sort (map fst d)) a b = 0"
        using before_match(1) [OF Ka match_zero [OF _ dist(1)] ab(1) [unfolded srt_def]] by (simp add: d matches_def)
      from pairs_one_key [where r = r and a = a and b = b, OF inv pre _ matches_pk_keys [OF pin(1)] disjI1 [OF pin(2)],
          folded cmp_def, folded srt_def, folded ov_def, OF _ vis mem' this ab]
      show ?thesis using d pin(1) by (auto simp: pinned_def)
    qed (simp add: pair_ok_def wanted_def)
  qed
qed

lemma passes_pk:
  assumes "fetch_pre u8 str ms conn req"
    and "primaryKeyConstraintFromFilters (map_option fst (conn_filters conn)) pk = Inr (Some d)"
    and "passes (map_option snd (conn_filters conn)) x"
  shows "constraintMatchesRow d x"
proof -
  obtain cond p where cp: "conn_filters conn = Some (cond, p)"
    using assms(2) by (cases "conn_filters conn") (auto simp: primaryKeyConstraintFromFilters_def)
  then have "createPredicate u8 str cond = Inr p" using assms(1) by (simp add: fetch_pre_def filter_ok_def)
  then have "run_predicate u8 str cond x = Inr True" using assms(3) cp by (simp add: run_predicate_def passes_def)
  with assms(2) cp show ?thesis using pk_constraint_sound by simp
qed

lemma fetch_pinned:
  fixes conn req ms r rest d scanned
  defines "cmp \<equiv> rev_cmp r (conn_compareRows u8 conn)" and "srt \<equiv> pk_sort (map fst d) @ rest"
  defines "ov \<equiv> kept_overlays cmp req conn ms"
  assumes inv: "ms_inv u8 ms" and pre: "fetch_pre u8 str ms conn req"
    and d: "primaryKeyConstraintFromFilters (map_option fst (conn_filters conn)) (ms_primaryKey ms) = Inr (Some d)"
    and rest: "rest = [] \<or> rest = conn_sort conn"
    and scanned: "sorted_cmp (rev_cmp r (index_cmp srt)) scanned"
      "set scanned = {x \<in> ms_rows ms. 0 \<le> rev_cmp r (index_cmp srt) x (scan_start d srt r)}"
  shows "\<forall>x \<in> ms_rows ms. wanted cmp req conn x \<longrightarrow> x \<in> set (once scanned)"
    and "(wanted cmp req conn a \<Longrightarrow> a \<in> visible ms conn) \<Longrightarrow> (wanted cmp req conn b \<Longrightarrow> b \<in> visible ms conn) \<Longrightarrow>
      a \<in> set (once scanned) \<or> fst ov = Some a \<Longrightarrow> b \<in> set (once scanned) \<or> fst ov = Some b \<Longrightarrow>
      rev_cmp r (index_cmp srt) a b \<le> 0 \<Longrightarrow> (fst ov = Some a \<Longrightarrow> rev_cmp r (index_cmp srt) a b < 0) \<Longrightarrow>
      pair_ok cmp req conn a b"
proof -
  let ?K = "rev_cmp r (index_cmp (pk_sort (map fst d)))" and ?p = "passes (map_option snd (conn_filters conn))"
  have cmp: "comparator cmp" unfolding cmp_def by (rule comparator_conn)
  have plain: "\<forall>x \<in> ms_rows ms. plain_row x" and dist: "distinct (ms_primaryKey ms)" "distinct (map fst rest)"
    using pre rest by (auto simp: fetch_pre_def)
  have keys: "distinct (map fst d)" "fst ` set d = set (ms_primaryKey ms)"
    using pk_constraint_keys [OF d dist(1)] by auto
  have p0: "index_cmp (pk_sort (map fst d)) x d = 0" if "?p x" for x
    by (rule match_zero [OF passes_pk [OF pre d that] keys(1)])
  have sub: "x \<in> ms_rows ms \<and> 0 \<le> ?K x d" if "x \<in> set scanned" for x
    using that plain scan_start_sign [OF _ dist(2)] unfolding scanned(2) srt_def by blast
  have once_sub: "x \<in> set scanned" if "x \<in> set (once scanned)" for x
    using that by (cases scanned) (auto simp: once_def)
  have same: "x = y" if "x \<in> ms_rows ms" "y \<in> ms_rows ms" "index_cmp (pk_sort (map fst d)) x y = 0" for x y
    using ms_pk_unique [OF inv] pk_of_columns [OF keys(2) that(3)] that(1,2) unfolding pk_unique_def by blast
  show "\<forall>x \<in> ms_rows ms. wanted cmp req conn x \<longrightarrow> x \<in> set (once scanned)"
  proof (intro ballI impI)
    fix x
    assume x: "x \<in> ms_rows ms" "wanted cmp req conn x"
    then have x0: "index_cmp (pk_sort (map fst d)) x d = 0" using p0 by (simp add: wanted_def)
    then have "0 \<le> ?K x d" using rev_zero [of r "pk_sort (map fst d)" x d] by simp
    then have xs: "x \<in> set scanned"
      using x(1) plain scan_start_sign [OF _ dist(2)] unfolding scanned(2) srt_def by blast
    obtain y ys where ys: "scanned = y # ys" using xs by (cases scanned) auto
    show "x \<in> set (once scanned)"
    proof (cases "x = y")
      case False
      then have "rev_cmp r (index_cmp srt) y x \<le> 0" using scanned(1) xs ys by (auto simp: sorted_rules)
      moreover have y: "y \<in> ms_rows ms" "0 \<le> ?K y d" using sub [of y] ys by auto
      ultimately have "index_cmp (pk_sort (map fst d)) y x = 0"
        using before_match(1) [OF y(2) x0] by (simp add: srt_def)
      with same [OF y(1) x(1)] False show ?thesis by simp
    qed (simp add: ys once_def)
  qed
  have added: "fst (pending_overlays ms conn) = Some x \<and> kept cmp req conn x" if "fst ov = Some x" for x
    using that by (auto simp: ov_def kept_overlays_def keep_if_def split: option.splits if_splits)
  have pin: "pinned (ms_primaryKey ms) req conn" using d by (auto simp: pinned_def)
  assume vis: "wanted cmp req conn a \<Longrightarrow> a \<in> visible ms conn" "wanted cmp req conn b \<Longrightarrow> b \<in> visible ms conn"
    and mem: "a \<in> set (once scanned) \<or> fst ov = Some a" "b \<in> set (once scanned) \<or> fst ov = Some b"
    and ab: "rev_cmp r (index_cmp srt) a b \<le> 0" "fst ov = Some a \<Longrightarrow> rev_cmp r (index_cmp srt) a b < 0"
  have mem': "a \<in> ms_rows ms \<or> fst ov = Some a" "b \<in> ms_rows ms \<or> fst ov = Some b"
    using mem sub once_sub by blast+
  have Ka: "0 \<le> ?K a d"
  proof (cases "fst ov = Some a")
    case True
    then have "?K a d = 0" using p0 [of a] added rev_zero by (simp add: kept_def)
    then show ?thesis by simp
  qed (use mem(1) sub once_sub in blast)
  show "pair_ok cmp req conn a b"
  proof (cases "?p b")
    case True
    then have "index_cmp (pk_sort (map fst d)) a b = 0"
      using before_match(1) [OF Ka p0 ab(1) [unfolded srt_def]] by simp
    from pairs_one_key [where r = r and a = a and b = b, OF inv pre pin keys(2) rest,
        folded cmp_def, folded srt_def, folded ov_def, OF vis mem' this ab]
    show ?thesis .
  next
    case np: False
    then have b: "b \<in> set (once scanned)" using mem(2) added by (auto simp: kept_def)
    show ?thesis
    proof (cases "fst ov = Some a")
      case True
      then have "matches (req_constraint req) a" using added by (auto simp: kept_def)
      with np show ?thesis by (simp add: pair_ok_def wanted_def)
    next
      case False
      then have "a = b" using mem(1) b by (cases scanned) (auto simp: once_def)
      then show ?thesis by (simp add: pair_ok_refl [OF cmp])
    qed
  qed
qed

subsection \<open>A fetch with at most one constraint\<close>

text \<open>The fetch once its storage rows have the rows that are wanted and its pairs are in order.\<close>

lemma fetch_one_finish:
  fixes conn req ms srt
  defines "cmp \<equiv> rev_cmp (req_reverse req) (conn_compareRows u8 conn)" and "C \<equiv> rev_cmp (req_reverse req) (index_cmp srt)"
  assumes inv: "ms_inv u8 ms" and pre: "fetch_pre u8 str ms conn req"
    and pk: "primaryKeyConstraintFromFilters (map_option fst (conn_filters conn)) (ms_primaryKey ms) = Inr pkc"
    and c: "c = (case pkc of Some c \<Rightarrow> Some c | None \<Rightarrow> req_constraint req)"
    and srt: "srt = index_sort (ms_primaryKey ms) c (conn_sort conn)"
    and index: "getOrCreateIndex u8 srt (conn_input conn) ms = Inr (index, ms')"
    and rows: "generateRows u8 srt (idx_data index)
        (case c of Some c \<Rightarrow> Some (scan_start c srt (req_reverse req)) | None \<Rightarrow> map_option fst (req_start req))
        (req_reverse req) = Inr rows" "sorted_cmp C rows" "set rows \<subseteq> ms_rows ms"
    and R: "R = (if pkc \<noteq> None then once rows else rows)"
    and wanted: "\<forall>x \<in> ms_rows ms. wanted cmp req conn x \<longrightarrow> x \<in> set R"
    and pairs: "\<And>a b. (wanted cmp req conn a \<Longrightarrow> a \<in> visible ms conn) \<Longrightarrow> (wanted cmp req conn b \<Longrightarrow> b \<in> visible ms conn) \<Longrightarrow>
      a \<in> set R \<or> fst (kept_overlays cmp req conn ms) = Some a \<Longrightarrow>
      b \<in> set R \<or> fst (kept_overlays cmp req conn ms) = Some b \<Longrightarrow>
      C a b \<le> 0 \<Longrightarrow> (fst (kept_overlays cmp req conn ms) = Some a \<Longrightarrow> C a b < 0) \<Longrightarrow> pair_ok cmp req conn a b"
  shows "\<exists>out. fetch_one u8 req conn ms = Inr (map (\<lambda>r. Node r []) out, ms') \<and> sorted_cmp cmp out \<and>
    set out = {x \<in> visible ms conn. wanted cmp req conn x}"
proof -
  define L where "L = spliced C (kept_overlays cmp req conn ms) R"
  have once: "set R \<subseteq> set rows" "sorted_cmp C R"
    using rows(2) by (cases rows; auto simp: R once_def sorted_rules)+
  have cov: "covers_pk (ms_primaryKey ms) srt"
    using pre index_sort_covers unfolding srt fetch_pre_def conn_ok_def by blast
  have ch: "\<forall>ch. pending ms conn = Some ch \<longrightarrow> change_ok u8 (ms_primaryKey ms) (ms_rows ms) ch"
    using pre by (simp add: fetch_pre_def)
  have sub: "set R \<subseteq> ms_rows ms" using once(1) rows(3) by blast
  note sp = spliced_rows [where conn = conn and req = req and r = "req_reverse req",
      OF ms_pk_unique [OF inv] ch cov, folded cmp_def C_def, OF once(2) sub wanted L_def]
  note fr = fetch_rows [where conn = conn and req = req and ms = ms and srt = srt and R = R and r = "req_reverse req",
      folded cmp_def C_def, folded L_def, OF inv pre cov once(2) sub wanted]
  have fr: "stream_ok cmp req conn L \<and> (\<forall>x \<in> set L. decides (map_option snd (conn_filters conn)) x) \<and>
      sorted_cmp cmp (filter (wanted cmp req conn) L) \<and>
      set (filter (wanted cmp req conn) L) = {x \<in> visible ms conn. wanted cmp req conn x}"
  proof (rule fr)
    fix a b
    assume m: "a \<in> set L" "b \<in> set L" and ab: "C a b \<le> 0" "fst (kept_overlays cmp req conn ms) = Some a \<Longrightarrow> C a b < 0"
    show "pair_ok cmp req conn a b"
    proof (rule pairs)
      show "wanted cmp req conn a \<Longrightarrow> a \<in> visible ms conn" "wanted cmp req conn b \<Longrightarrow> b \<in> visible ms conn"
        using m sp(1) by blast+
      show "a \<in> set R \<or> fst (kept_overlays cmp req conn ms) = Some a"
        "b \<in> set R \<or> fst (kept_overlays cmp req conn ms) = Some b"
        using subsetD [OF sp(3) m(1)] subsetD [OF sp(3) m(2)] by auto
    qed (use ab in blast)+
  qed
  have "fetch_one u8 req conn ms = Inr (map (\<lambda>r. Node r []) (filter (wanted cmp req conn) L), ms')"
    unfolding cmp_def
    by (rule fetch_one_runs [OF pre pk c srt index rows(1) R once(2) [unfolded C_def] L_def [unfolded C_def cmp_def]])
      (use fr [unfolded cmp_def] in blast)+
  with fr show ?thesis by blast
qed

lemma member_plain:
  assumes "fetch_pre u8 str ms conn req" "set R \<subseteq> ms_rows ms" "a \<in> set R \<or> fst (kept_overlays cmp req conn ms) = Some a"
  shows "plain_row a"
proof (cases "a \<in> set R")
  case True
  with assms(1,2) show ?thesis by (auto simp: fetch_pre_def)
next
  case False
  then have a: "fst (pending_overlays ms conn) = Some a"
    using assms(3) by (auto simp: kept_overlays_def keep_if_def split: option.splits if_splits)
  have ch: "\<forall>ch. pending ms conn = Some ch \<longrightarrow> change_ok u8 (ms_primaryKey ms) (ms_rows ms) ch"
    using assms(1) by (simp add: fetch_pre_def)
  show ?thesis by (rule pending_cases [OF ch]) (use a in auto)
qed

lemma fetch_one_spec:
  fixes conn req ms
  defines "cmp \<equiv> rev_cmp (req_reverse req) (conn_compareRows u8 conn)"
  assumes inv: "ms_inv u8 ms" and pre: "fetch_pre u8 str ms conn req"
  shows "\<exists>out ms'. fetch_one u8 req conn ms = Inr (map (\<lambda>r. Node r []) out, ms') \<and> sorted_cmp cmp out \<and>
    set out = {x \<in> visible ms conn. wanted cmp req conn x} \<and>
    ms_inv u8 ms' \<and> ms_rows ms' = ms_rows ms \<and> ms' = ms\<lparr>ms_indexes := ms_indexes ms'\<rparr>"
proof -
  let ?r = "req_reverse req"
  obtain pkc where pk: "primaryKeyConstraintFromFilters (map_option fst (conn_filters conn)) (ms_primaryKey ms) = Inr pkc"
  proof (cases "conn_filters conn")
    case None
    then show thesis using that by (simp add: primaryKeyConstraintFromFilters_def)
  next
    case (Some cp)
    then have "createPredicate u8 str (fst cp) = Inr (snd cp)" using pre by (cases cp) (simp add: fetch_pre_def filter_ok_def)
    from pk_filters_return [OF this] that Some show thesis by auto
  qed
  define c where "c = (case pkc of Some c \<Rightarrow> Some c | None \<Rightarrow> req_constraint req)"
  define srt where "srt = index_sort (ms_primaryKey ms) c (conn_sort conn)"
  have cov: "covers_pk (ms_primaryKey ms) srt"
    using pre index_sort_covers unfolding srt_def fetch_pre_def conn_ok_def by blast
  obtain index ms' where index: "getOrCreateIndex u8 srt (conn_input conn) ms = Inr (index, ms')"
    "index_ok u8 (ms_primaryKey ms) (ms_rows ms) (srt, index)"
    "ms' = ms\<lparr>ms_indexes := ms_indexes ms'\<rparr>" "ms_rows ms' = ms_rows ms" "ms_inv u8 ms'"
    using getOrCreateIndex_spec [OF inv cov] by blast
  define start where "start = (case c of Some c \<Rightarrow> Some (scan_start c srt ?r) | None \<Rightarrow> map_option fst (req_start req))"
  obtain rows where rows: "generateRows u8 srt (idx_data index) start ?r = Inr rows"
    "sorted_cmp (rev_cmp ?r (index_cmp srt)) rows"
    "set rows = {x \<in> ms_rows ms. case start of None \<Rightarrow> True | Some s \<Rightarrow> 0 \<le> rev_cmp ?r (index_cmp srt) x s}"
    using scanned_rows [OF index(2)] by blast
  have sub: "set rows \<subseteq> ms_rows ms" using rows(3) by blast
  note finish = fetch_one_finish [OF inv pre pk c_def srt_def index(1) rows(1) [unfolded start_def] rows(2) sub refl, folded cmp_def]
  have "\<exists>out. fetch_one u8 req conn ms = Inr (map (\<lambda>r. Node r []) out, ms') \<and> sorted_cmp cmp out \<and>
      set out = {x \<in> visible ms conn. wanted cmp req conn x}"
  proof (cases pkc)
    case None
    show ?thesis
    proof (rule index_sort_cases [of c "ms_primaryKey ms" "conn_sort conn"])
      assume n: "c = None" "index_sort (ms_primaryKey ms) c (conn_sort conn) = conn_sort conn"
      then have none: "req_constraint req = None" using None by (simp add: c_def)
      have s: "srt = conn_sort conn" and st: "start = map_option fst (req_start req)"
        using n by (simp_all add: srt_def start_def)
      note un = fetch_unconstrained [OF pre none rows(3) [unfolded s st], folded cmp_def, folded s]
      show ?thesis
      proof (rule finish)
        show "\<forall>x \<in> ms_rows ms. wanted cmp req conn x \<longrightarrow> x \<in> set (if pkc \<noteq> None then once rows else rows)"
          using un(1) None by simp
        fix a b
        assume "a \<in> set (if pkc \<noteq> None then once rows else rows) \<or> fst (kept_overlays cmp req conn ms) = Some a"
          "b \<in> set (if pkc \<noteq> None then once rows else rows) \<or> fst (kept_overlays cmp req conn ms) = Some b"
          and ab: "rev_cmp ?r (index_cmp srt) a b \<le> 0"
        then have "plain_row a" "plain_row b" using member_plain [OF pre sub] None by simp_all
        then show "pair_ok cmp req conn a b" using un(2) ab by blast
      qed
    next
      fix d
      assume n: "c = Some d" "index_sort (ms_primaryKey ms) c (conn_sort conn) = pk_sort (map fst d) @ conn_sort conn"
      then have d: "req_constraint req = Some d" using None by (simp add: c_def)
      have s: "srt = pk_sort (map fst d) @ conn_sort conn" and st: "start = Some (scan_start d srt ?r)"
        using n by (simp_all add: srt_def start_def)
      note co = fetch_constrained [OF inv pre d disjI1 [OF refl] rows(3) [unfolded st option.case s], folded s, folded cmp_def]
      show ?thesis by (rule finish) (use co None in simp_all)
    next
      fix d
      assume n: "c = Some d" "index_sort (ms_primaryKey ms) c (conn_sort conn) = pk_sort (map fst d) @ []"
        "constraintMatchesPrimaryKey d (ms_primaryKey ms)"
      then have d: "req_constraint req = Some d" using None by (simp add: c_def)
      have s: "srt = pk_sort (map fst d) @ []" and st: "start = Some (scan_start d srt ?r)"
        using n by (simp_all add: srt_def start_def)
      note co = fetch_constrained [OF inv pre d disjI2 [OF conjI [OF refl n(3)]] rows(3) [unfolded st option.case s],
          folded s, folded cmp_def]
      show ?thesis by (rule finish) (use co None in simp_all)
    qed
  next
    case (Some d)
    then have cd: "c = Some d" by (simp add: c_def)
    obtain rest where rest: "srt = pk_sort (map fst d) @ rest" "rest = [] \<or> rest = conn_sort conn"
      using index_sort_cases [of c "ms_primaryKey ms" "conn_sort conn"] unfolding srt_def cd by blast
    have st: "start = Some (scan_start d srt ?r)" using cd by (simp add: start_def)
    note pn = fetch_pinned [OF inv pre pk [unfolded Some] rest(2), folded rest(1),
        OF rows(2) rows(3) [unfolded st option.case], folded cmp_def]
    show ?thesis by (rule finish) (use pn Some in simp_all)
  qed
  with index(3-5) show ?thesis by blast
qed

end

end
