(* ===== verification/FetchMulti.thy ===== *)
theory FetchMulti
  imports FetchCorrect
begin

section \<open>Fetches with multi-row constraints (fetchMulti of memory-source.ts)\<close>

text \<open>
  A multi-row constraint is fetched entry by entry, the streams merged and the rows of the remaining
  multi-row constraints filtered out. \<open>multi_ok\<close> is the contract of \<open>operator.ts\<close>: the entries share their
  columns, are unique and compatible with the constraint of the request.
\<close>

subsection \<open>The contract of a multi-row constraint\<close>

definition entry_ok :: "constraint option \<Rightarrow> constraint \<Rightarrow> bool" where
  "entry_ok base c \<longleftrightarrow> distinct (map fst c) \<and>
     (case base of None \<Rightarrow> True | Some b \<Rightarrow> distinct (map fst b) \<and> constraintsAreCompatible b c)"

definition multi_ok :: "constraint option \<Rightarrow> constraint list \<Rightarrow> bool" where
  "multi_ok base mc \<longleftrightarrow> (\<forall>c \<in> set mc. entry_ok base c) \<and>
     sorted_wrt (\<lambda>c d. fst ` set c = fst ` set d \<and> set c \<noteq> set d) mc"

definition merged :: "constraint option \<Rightarrow> constraint \<Rightarrow> constraint" where
  "merged base c = (case base of Some b \<Rightarrow> spread b c | None \<Rightarrow> c)"

definition sub_request :: "fetch_request \<Rightarrow> constraint \<Rightarrow> fetch_request" where
  "sub_request req c = req\<lparr>req_constraint := Some (merged (req_constraint req) c), req_multi := None\<rparr>"

lemma match_map_of:
  "distinct (map fst c) \<Longrightarrow> constraintMatchesRow c x \<longleftrightarrow> (\<forall>k v. map_of c k = Some v \<longrightarrow> valuesEqual (get_field x k) v)"
  unfolding constraintMatchesRow_iff by (auto dest: map_of_SomeD simp: map_of_is_SomeI)

lemma merged_distinct: "entry_ok base c \<Longrightarrow> distinct (map fst (merged base c))"
  by (auto simp: merged_def entry_ok_def distinct_spread split: option.splits)

lemma merged_match:
  assumes "entry_ok base c"
  shows "constraintMatchesRow (merged base c) x \<longleftrightarrow> matches base x \<and> constraintMatchesRow c x"
proof (cases base)
  case None
  then show ?thesis by (simp add: merged_def matches_def)
next
  case (Some b)
  then have d: "distinct (map fst b)" "distinct (map fst c)" "constraintsAreCompatible b c"
    using assms by (simp_all add: entry_ok_def)
  have shared: "v = w" if "map_of b k = Some v" "map_of c k = Some w" for k v w
  proof -
    have kv: "(k, v) \<in> set b" "(k, w) \<in> set c" using that by (auto dest: map_of_SomeD)
    then have "has_key c k" "get_field c k = w" using d(2) by (force simp: has_key_def get_field_in)+
    with d(3) kv(1) show ?thesis by (auto simp: constraintsAreCompatible_def list_all_iff valuesEqual_iff)
  qed
  have "constraintMatchesRow (spread b c) x \<longleftrightarrow>
      (\<forall>k v. (map_of b ++ map_of c) k = Some v \<longrightarrow> valuesEqual (get_field x k) v)"
    using match_map_of [OF distinct_spread [OF d(1)]] map_of_spread [OF d(2)] by simp
  also have "\<dots> \<longleftrightarrow> (\<forall>k v. map_of b k = Some v \<longrightarrow> valuesEqual (get_field x k) v) \<and>
      (\<forall>k v. map_of c k = Some v \<longrightarrow> valuesEqual (get_field x k) v)"
    using shared by (auto simp: map_add_Some_iff) (metis not_None_eq)
  finally show ?thesis using Some match_map_of [OF d(1)] match_map_of [OF d(2)] by (simp add: merged_def matches_def)
qed

lemma entries_exclusive:
  assumes "fst ` set c = fst ` set d" "set c \<noteq> set d" "distinct (map fst c)" "distinct (map fst d)"
  shows "\<not> (constraintMatchesRow c x \<and> constraintMatchesRow d x)"
proof
  assume m: "constraintMatchesRow c x \<and> constraintMatchesRow d x"
  have sub: "set c \<subseteq> set d"
    if "fst ` set c = fst ` set d" "constraintMatchesRow c x" "constraintMatchesRow d x" for c d :: constraint
  proof
    fix kv
    assume kv: "kv \<in> set c"
    obtain k v where e: "kv = (k, v)" by (cases kv)
    have "k \<in> fst ` set d" using kv e that(1) by force
    then obtain w where w: "(k, w) \<in> set d" by force
    have "get_field x k = v" "get_field x k = w"
      using bspec [OF that(2) [unfolded constraintMatchesRow_iff] kv]
        bspec [OF that(3) [unfolded constraintMatchesRow_iff] w] e by (simp_all add: valuesEqual_iff)
    with w e show "kv \<in> set d" by simp
  qed
  from sub [OF assms(1)] sub [OF assms(1) [symmetric]] m assms(2) show False by blast
qed

lemma matches_all_iff: "matches_all mcs x \<longleftrightarrow> (\<forall>mc \<in> set mcs. \<exists>c \<in> set mc. constraintMatchesRow c x)"
  by (simp add: matches_all_def list_all_iff list_ex_iff)

subsection \<open>One fetch per entry\<close>

text \<open>A fetch may create an index; nothing its contract speaks of changes.\<close>

lemma fetch_pre_frame:
  assumes "ms' = ms\<lparr>ms_indexes := ms_indexes ms'\<rparr>" "ms_rows ms' = ms_rows ms"
  shows "fetch_pre u8 str ms' conn req = fetch_pre u8 str ms conn req" "visible ms' conn = visible ms conn"
proof -
  have f: "ms_primaryKey ms' = ms_primaryKey ms" "ms_pushEpoch ms' = ms_pushEpoch ms" "ms_overlay ms' = ms_overlay ms"
    by (subst assms(1), simp)+
  have p: "pending ms' conn = pending ms conn" unfolding pending_def f ..
  show v: "visible ms' conn = visible ms conn" unfolding visible_def p assms(2) ..
  show "fetch_pre u8 str ms' conn req = fetch_pre u8 str ms conn req"
    unfolding fetch_pre_def filter_ok_def conn_ok_def f p v assms(2) ..
qed

lemma wanted_sub:
  "entry_ok (req_constraint req) c \<Longrightarrow>
   wanted cmp (sub_request req c) conn x \<longleftrightarrow> wanted cmp req conn x \<and> constraintMatchesRow c x"
  using merged_match [of "req_constraint req" c x] by (auto simp: wanted_def sub_request_def matches_def)

context utf8_order
begin

lemma fetch_each_spec:
  fixes conn req
  defines "cmp \<equiv> rev_cmp (req_reverse req) (conn_compareRows u8 conn)"
  assumes "ms_inv u8 ms" "\<forall>c \<in> set cs. entry_ok (req_constraint req) c \<and> fetch_pre u8 str ms conn (sub_request req c)"
  shows "\<exists>outs ms'. fetch_each u8 req conn cs ms = Inr (map (\<lambda>out. map Item (map (\<lambda>r. Node r []) out)) outs, ms') \<and>
    (\<forall>out \<in> set outs. sorted_cmp cmp out) \<and>
    (sorted_wrt (\<lambda>c d. fst ` set c = fst ` set d \<and> set c \<noteq> set d) cs \<longrightarrow> distinct (concat outs)) \<and>
    set (concat outs) = {x \<in> visible ms conn. wanted cmp req conn x \<and> (\<exists>c \<in> set cs. constraintMatchesRow c x)} \<and>
    ms_inv u8 ms' \<and> ms_rows ms' = ms_rows ms \<and> ms' = ms\<lparr>ms_indexes := ms_indexes ms'\<rparr>"
  using assms(2-)
proof (induction cs arbitrary: ms)
  case Nil
  then show ?case by (intro exI [of _ "[]"] exI [of _ ms]) simp
next
  case (Cons c cs)
  have c: "entry_ok (req_constraint req) c" "fetch_pre u8 str ms conn (sub_request req c)" using Cons.prems(2) by auto
  obtain out ms1 where one: "fetch_one u8 (sub_request req c) conn ms = Inr (map (\<lambda>r. Node r []) out, ms1)"
    "sorted_cmp cmp out" "set out = {x \<in> visible ms conn. wanted cmp (sub_request req c) conn x}"
    "ms_inv u8 ms1" "ms_rows ms1 = ms_rows ms" "ms1 = ms\<lparr>ms_indexes := ms_indexes ms1\<rparr>"
    using fetch_one_spec [OF Cons.prems(1) c(2)] by (auto simp: sub_request_def cmp_def)
  note frame = fetch_pre_frame [OF one(6,5)]
  obtain outs ms2 where each: "fetch_each u8 req conn cs ms1 = Inr (map (\<lambda>out. map Item (map (\<lambda>r. Node r []) out)) outs, ms2)"
    "\<forall>out \<in> set outs. sorted_cmp cmp out"
    "sorted_wrt (\<lambda>c d. fst ` set c = fst ` set d \<and> set c \<noteq> set d) cs \<longrightarrow> distinct (concat outs)"
    "set (concat outs) = {x \<in> visible ms conn. wanted cmp req conn x \<and> (\<exists>c \<in> set cs. constraintMatchesRow c x)}"
    "ms_inv u8 ms2" "ms_rows ms2 = ms_rows ms" "ms2 = ms1\<lparr>ms_indexes := ms_indexes ms2\<rparr>"
    using Cons.IH [OF one(4)] Cons.prems(2) frame one(5) by auto
  have run: "fetch_each u8 req conn (c # cs) ms = Inr (map (\<lambda>out. map Item (map (\<lambda>r. Node r []) out)) (out # outs), ms2)"
    using one(1) each(1) by (simp add: sub_request_def merged_def)
  have out: "set out = {x \<in> visible ms conn. wanted cmp req conn x \<and> constraintMatchesRow c x}"
    using one(3) wanted_sub [OF c(1)] by auto
  have "distinct (concat (out # outs))"
    if "sorted_wrt (\<lambda>c d. fst ` set c = fst ` set d \<and> set c \<noteq> set d) (c # cs)"
  proof -
    have "set out \<inter> set (concat outs) = {}"
    proof -
      have "\<not> (constraintMatchesRow c x \<and> constraintMatchesRow d x)" if "d \<in> set cs" for x d
        using that \<open>sorted_wrt _ (c # cs)\<close> Cons.prems(2)
        by (intro entries_exclusive) (auto simp: entry_ok_def)
      then show ?thesis unfolding out each(4) by blast
    qed
    moreover have "distinct out"
      using comparator.sorted_cmp_distinct [OF comparator_conn] one(2) by (auto simp: cmp_def)
    ultimately show ?thesis using each(3) that by simp
  qed
  moreover have "ms2 = ms\<lparr>ms_indexes := ms_indexes ms2\<rparr>" by (subst each(7), subst one(6)) simp
  moreover have "set (concat (out # outs)) = {x \<in> visible ms conn. wanted cmp req conn x \<and> (\<exists>d \<in> set (c # cs). constraintMatchesRow d x)}"
    using out each(4) by auto
  ultimately show ?case
    using run one(2) each(2,5,6) by (intro exI [of _ "out # outs"] exI [of _ ms2]) simp
qed

lemma filter_items_map: "filter_items P (map (\<lambda>x. Item (f x)) xs) = map (\<lambda>x. Item (f x)) (filter (\<lambda>x. P (f x)) xs)"
  by (simp add: filter_items_def filter_map comp_def)

lemma items_of_merge:
  assumes "mset its = mset (concat (map (\<lambda>out. map Item (f out)) outs))"
  shows "its = map Item (skipYields its)"
proof -
  have "Yield \<notin> set its" using mset_eq_setD [OF assms] by auto
  then show ?thesis by (induction its rule: skipYields.induct) auto
qed

lemma visible_same:
  assumes inv: "ms_inv u8 ms" and pre: "fetch_pre u8 str ms conn req" and ab: "a \<in> visible ms conn" "b \<in> visible ms conn"
    and zero: "rev_cmp r (conn_compareRows u8 conn) a b = 0"
  shows "a = b"
proof -
  have ch: "\<forall>ch. pending ms conn = Some ch \<longrightarrow> change_ok u8 (ms_primaryKey ms) (ms_rows ms) ch"
    and plain: "\<forall>x \<in> ms_rows ms. plain_row x" and conn: "covers_pk (ms_primaryKey ms) (conn_sort conn)"
    using pre by (simp_all add: fetch_pre_def conn_ok_def)
  have "\<forall>x \<in> visible ms conn. plain_row x" by (rule pending_cases [OF ch]) (use plain in auto)
  with ab have "plain_row a" "plain_row b" by blast+
  with zero have "index_cmp (conn_sort conn) a b = 0"
    using rev_zero [of r "conn_sort conn" a b] by (simp flip: conn_cmp_bound)
  then have "index_cmp (pk_sort (ms_primaryKey ms)) a b = 0" by (rule covers_zero [OF conn])
  from wanted_same [OF inv pre ab this] show ?thesis .
qed

text \<open>The merge of the streams, filtered by the other multi-row constraints.\<close>

lemma fetch_multi_spec:
  fixes conn req ms multi
  defines "cmp \<equiv> rev_cmp (req_reverse req) (conn_compareRows u8 conn)" and "mcs \<equiv> filter (\<lambda>mc. 0 < length mc) multi"
  assumes inv: "ms_inv u8 ms" and ne: "mcs = primary # others"
    and ok: "multi_ok (req_constraint req) primary"
    and pre: "\<forall>c \<in> set primary. fetch_pre u8 str ms conn (sub_request req c)"
  shows "\<exists>out ms'. fetchMulti u8 req multi conn ms = Inr (map Item (map (\<lambda>r. Node r []) out), ms') \<and>
    sorted_cmp cmp out \<and> set out = {x \<in> visible ms conn. wanted cmp req conn x \<and> matches_all mcs x} \<and>
    ms_inv u8 ms' \<and> ms_rows ms' = ms_rows ms \<and> ms' = ms\<lparr>ms_indexes := ms_indexes ms'\<rparr>"
proof -
  let ?N = "\<lambda>r. Node r []" and ?ncmp = "\<lambda>a b. cmp (node_row a) (node_row b)"
  have C: "comparator cmp" unfolding cmp_def by (rule comparator_conn)
  have NC: "comparator ?ncmp" by (rule comparator_key [OF C])
  obtain outs ms' where each: "fetch_each u8 req conn primary ms = Inr (map (\<lambda>out. map Item (map ?N out)) outs, ms')"
    "\<forall>out \<in> set outs. sorted_cmp cmp out" "distinct (concat outs)"
    "set (concat outs) = {x \<in> visible ms conn. wanted cmp req conn x \<and> (\<exists>c \<in> set primary. constraintMatchesRow c x)}"
    "ms_inv u8 ms'" "ms_rows ms' = ms_rows ms" "ms' = ms\<lparr>ms_indexes := ms_indexes ms'\<rparr>"
    using fetch_each_spec [OF inv, of primary req str conn] ok pre by (auto simp: multi_ok_def cmp_def)
  define streams where "streams = map (\<lambda>out. map Item (map ?N out)) outs"
  obtain its unclosed where m: "mergeSortedStreams streams ?ncmp = (its, unclosed)" by force
  have "\<forall>s \<in> set streams. sorted_le ?ncmp (skipYields s)"
    using each(2) comparator.sorted_cmp_le [OF C]
    by (auto simp: streams_def sorted_le_def sorted_wrt_map simp del: map_map)
  note ms = comparator.merge_spec [OF NC this m]
  define rows where "rows = map node_row (skipYields its)"
  have nodes: "skipYields its = map ?N rows"
  proof -
    have "?N (node_row n) = n" if "n \<in> set (skipYields its)" for n
    proof -
      have "Item n \<in> set (concat streams)"
        using that mset_eq_setD [OF conjunct1 [OF conjunct2 [OF ms]]] by (simp add: set_skipYields)
      then show ?thesis by (auto simp: streams_def)
    qed
    then have "map (\<lambda>n. ?N (node_row n)) (skipYields its) = skipYields its" by (rule map_idI)
    then show ?thesis by (simp add: rows_def comp_def)
  qed
  have its: "its = map Item (map ?N rows)"
    using items_of_merge [of its "map ?N" outs] ms nodes by (simp add: streams_def)
  have "mset (map Item (map ?N rows)) = mset (map Item (map ?N (concat outs)))"
    using ms unfolding its by (simp add: streams_def map_concat comp_def)
  then have "image_mset (\<lambda>it. node_row (hd (skipYields [it]))) (mset (map Item (map ?N rows))) =
      image_mset (\<lambda>it. node_row (hd (skipYields [it]))) (mset (map Item (map ?N (concat outs))))" by (rule arg_cong)
  then have mset: "mset rows = mset (concat outs)" by (simp add: image_mset.compositionality comp_def)
  have "distinct rows" using each(3) mset by (metis mset_eq_imp_distinct_iff)
  have set: "set rows = {x \<in> visible ms conn. wanted cmp req conn x \<and> (\<exists>c \<in> set primary. constraintMatchesRow c x)}"
    using each(4) mset_eq_setD [OF mset] by simp
  have "sorted_le cmp rows" using ms nodes by (simp add: sorted_le_def sorted_wrt_map)
  moreover have "a = b" if "a \<in> set rows" "b \<in> set rows" "cmp a b = 0" for a b
  proof -
    have "primary \<in> set mcs" using ne by simp
    then have "primary \<noteq> []" by (auto simp: mcs_def)
    then have "fetch_pre u8 str ms conn (sub_request req (hd primary))" using pre by simp
    from visible_same [OF inv this _ _ that(3) [unfolded cmp_def]] that(1,2) set show ?thesis by blast
  qed
  ultimately have sorted: "sorted_cmp cmp rows"
    using \<open>distinct rows\<close> by (intro comparator.sorted_le_strict [OF C])
  define out where "out = filter (\<lambda>x. matches_all others x) rows"
  have "fetchMulti u8 req multi conn ms = Inr (map Item (map ?N out), ms')"
    using each(1) ne m its unfolding mcs_def cmp_def
    by (simp add: fetchMulti_def Let_def streams_def filter_items_map out_def filter_map comp_def matches_all_def)
  moreover have "sorted_cmp cmp out" unfolding out_def by (rule sorted_cmp_filter [OF sorted])
  moreover have "set out = {x \<in> visible ms conn. wanted cmp req conn x \<and> matches_all mcs x}"
    by (auto simp: out_def set ne matches_all_iff)
  ultimately show ?thesis using each(5-7) by blast
qed

end

end
