(* ===== verification/MemorySourcePush.thy ===== *)
theory MemorySourcePush
  imports FetchMulti
begin

section \<open>Pushing a change (memory-source.ts)\<close>

text \<open>
  \<open>genPush\<close> is a generator: between two of its steps the outputs it has pushed to, or anyone else, may
  fetch, connect, disconnect or set an output. \<open>ms_step\<close> is the step relation of a source under such
  callers; the phase \<open>Pushing\<close> holds the local variables of the generator (the change, the position in the
  live array of connections and the changes still to come of a split edit). The invariant \<open>state_inv\<close> holds
  in every reachable state, no assertion of the source fails in one, and the rows of a source change only
  when a push ends.
\<close>

subsection \<open>Writing a change to the indexes\<close>

context utf8_order
begin

lemma change_pk:
  assumes "pk_unique u8 pk rows" "covers_pk pk srt" "index_cmp srt a b = 0" "a \<in> rows" "b \<in> rows"
  shows "a = b"
  using pk_unique_covers [OF assms(1,2,4,5,3)] .

lemma write_index_spec:
  assumes unique: "pk_unique u8 pk rows" and ok: "index_ok u8 pk rows (srt, index)" and ch: "change_ok u8 pk rows ch"
  shows "\<exists>d. write_index (index_cmp srt) ch (idx_data index) = Inr d \<and>
    index_ok u8 pk (apply_source_change ch rows) (srt, index\<lparr>idx_data := d\<rparr>)"
proof -
  let ?c = "index_cmp srt"
  have cov: "covers_pk pk srt" and inv: "btree_inv ?c (idx_data index)" and el: "set (btree_elems (idx_data index)) = rows"
    using ok by (simp_all add: index_ok_def)
  note C = comparator_index [of srt]
  have refl: "?c r r = 0" for r by (rule comparator.cmp_refl [OF C])
  have del: "\<exists>d. btree_delete ?c r (idx_data index) = Inr (True, d) \<and> btree_inv ?c d \<and> set (btree_elems d) = rows - {r}"
    if r: "r \<in> rows" for r
  proof -
    obtain d where d: "btree_delete ?c r (idx_data index) = Inr (mem_sorted ?c r (btree_elems (idx_data index)), d)"
      "btree_inv ?c d" "btree_elems d = del_sorted ?c r (btree_elems (idx_data index))"
      using bt.remove_law [OF C inv, of r] by blast
    moreover have "mem_sorted ?c r (btree_elems (idx_data index))" using r refl by (auto simp: mem_sorted_iff el)
    moreover have "{k \<in> rows. ?c k r \<noteq> 0} = rows - {r}" using change_pk [OF unique cov _ _ r] refl by auto
    ultimately show ?thesis by (simp add: set_del_sorted el)
  qed
  have add: "btree_inv ?c (btree_add ?c r t) \<and> set (btree_elems (btree_add ?c r t)) = insert r (set (btree_elems t))"
    if "btree_inv ?c t" "\<forall>k \<in> set (btree_elems t). ?c k r \<noteq> 0" for r t
    using that bt.add_inv [OF C that(1)] bt.add_elements [OF C that(1)] by (auto simp: set_ins_sorted)
  have nz: "?c s r \<noteq> 0" if "index_cmp (pk_sort pk) s r \<noteq> 0" for s r using covers_zero [OF cov] that by blast
  show ?thesis
  proof (cases ch)
    case (SourceAdd r)
    then have "\<forall>k \<in> set (btree_elems (idx_data index)). ?c k r \<noteq> 0" using ch nz el by auto
    from add [OF inv this] SourceAdd cov el show ?thesis by (simp add: write_index_def index_ok_def)
  next
    case (SourceRemove r)
    with ch del [of r] cov show ?thesis by (auto simp: write_index_def index_ok_def)
  next
    case (SourceEdit n r)
    then obtain d where d: "btree_delete ?c r (idx_data index) = Inr (True, d)" "btree_inv ?c d"
      "set (btree_elems d) = rows - {r}" using ch del [of r] by auto
    have "\<forall>k \<in> set (btree_elems d). ?c k n \<noteq> 0" using ch SourceEdit nz d(3) by auto
    from add [OF d(2) this] SourceEdit d cov show ?thesis by (simp add: write_index_def index_ok_def)
  qed
qed

lemma map_of_map_values: "map_of (map (\<lambda>(k, v). (k, h k v)) xs) k = map_option (h k) (map_of xs k)"
  by (induction xs) (auto simp del: map_of_eq_Some_iff)

lemma writeChange_spec:
  assumes inv: "ms_inv u8 ms" and ch: "change_ok u8 (ms_primaryKey ms) (ms_rows ms) ch"
  shows "\<exists>ms'. writeChange u8 ch ms = Inr ms' \<and> ms_inv u8 ms' \<and>
    ms_rows ms' = apply_source_change ch (ms_rows ms) \<and> ms' = ms\<lparr>ms_indexes := ms_indexes ms'\<rparr>"
proof -
  let ?pk = "ms_primaryKey ms"
  define h where "h = (\<lambda>srt (index :: mem_index). index\<lparr>idx_data := projr (write_index (index_cmp srt) ch (idx_data index))\<rparr>)"
  define ms' where "ms' = ms\<lparr>ms_indexes := map (\<lambda>(srt, index). (srt, h srt index)) (ms_indexes ms)\<rparr>"
  have new: "write_index (index_cmp srt) ch (idx_data index) = Inr (idx_data (h srt index)) \<and>
      index_ok u8 ?pk (apply_source_change ch (ms_rows ms)) (srt, h srt index)"
    if "(srt, index) \<in> set (ms_indexes ms)" for srt index
  proof -
    have "index_ok u8 ?pk (ms_rows ms) (srt, index)" using inv that unfolding ms_inv_def by blast
    from write_index_spec [OF ms_pk_unique [OF inv] this ch] show ?thesis by (auto simp: h_def)
  qed
  have run: "writeChange u8 ch ms = Inr ms'"
  proof -
    have "traverse (\<lambda>(srt, index). bind_result (write_index (index_cmp srt) ch (idx_data index))
        (\<lambda>d. Inr (srt, index\<lparr>idx_data := d\<rparr>))) (ms_indexes ms) = Inr (map (\<lambda>(srt, index). (srt, h srt index)) (ms_indexes ms))"
    proof (rule traverse_Inr, clarify)
      fix srt index
      assume "(srt, index) \<in> set (ms_indexes ms)"
      then obtain d where "write_index (index_cmp srt) ch (idx_data index) = Inr d" using new by blast
      then show "bind_result (write_index (index_cmp srt) ch (idx_data index)) (\<lambda>d. Inr (srt, index\<lparr>idx_data := d\<rparr>)) =
          Inr (srt, h srt index)" by (simp add: h_def)
    qed
    then show ?thesis by (simp add: writeChange_def ms'_def)
  qed
  obtain p :: mem_index where p: "map_of (ms_indexes ms) (ms_primaryIndexSort ms) = Some p"
    using ms_primary [OF inv] by blast
  have rows: "ms_rows ms' = apply_source_change ch (ms_rows ms)"
  proof -
    have "ms_rows ms' = set (btree_elems (idx_data (h (ms_primaryIndexSort ms) p)))"
      unfolding ms_rows_def ms'_def by (simp add: map_of_map_values p del: map_of_eq_Some_iff)
    with new [OF map_of_SomeD [OF p]] show ?thesis by (simp add: index_ok_def)
  qed
  have keys: "map fst (ms_indexes ms') = map fst (ms_indexes ms)" by (auto simp: ms'_def)
  have "index_ok u8 ?pk (ms_rows ms') si" if "si \<in> set (ms_indexes ms')" for si
    using that new unfolding rows by (auto simp: ms'_def)
  moreover have "ms_primaryIndexSort ms \<in> fst ` set (ms_indexes ms')"
    using inv keys unfolding ms_inv_def by (metis list.set_map)
  moreover have "conn_ok ms' c" if "c \<in> set (ms_connections ms)" for c
    using that inv by (auto simp: ms'_def ms_inv_def conn_ok_def)
  moreover have "distinct (map fst (ms_indexes ms'))" unfolding keys using inv by (simp add: ms_inv_def)
  moreover have "ms_primaryKey ms' = ?pk" "ms_primaryIndexSort ms' = ms_primaryIndexSort ms"
    "ms_connections ms' = ms_connections ms" by (simp_all add: ms'_def)
  ultimately have "ms_inv u8 ms'"
    using inv unfolding ms_inv_def by simp
  with run rows show ?thesis by (auto simp: ms'_def)
qed

lemma row_exists_spec:
  assumes "ms_inv u8 ms"
  shows "row_exists u8 ms r = Inr (\<exists>s \<in> ms_rows ms. index_cmp (pk_sort (ms_primaryKey ms)) s r = 0)"
proof -
  obtain p :: mem_index where p: "getPrimaryIndex ms = Inr p" "btree_inv (index_cmp (ms_primaryIndexSort ms)) (idx_data p)"
    "set (btree_elems (idx_data p)) = ms_rows ms" using ms_primary [OF assms] by blast
  have "ms_primaryIndexSort ms = pk_sort (ms_primaryKey ms)" using assms by (simp add: ms_inv_def)
  with p show ?thesis using bt.has_law [OF comparator_index p(2), of r] by (simp add: row_exists_def mem_sorted_iff)
qed

end

subsection \<open>The steps of a source\<close>

datatype phase = Idle | Pushing source_change nat "source_change list"

datatype ms_event =
    EvFetch "node item list"
  | EvConnect nat
  | EvDisconnect nat
  | EvOutput nat
  | EvBegin source_change
  | EvDeliver "(nat \<times> change list) list"
  | EvCommit source_change

text \<open>The caller's side of the contract is in the premises: it only pushes changes that are \<open>change_ok\<close>.\<close>

inductive ms_step ::
    "utf8 \<Rightarrow> (literal_value \<Rightarrow> string) \<Rightarrow> memory_source \<times> phase \<Rightarrow> ms_event \<Rightarrow> memory_source \<times> phase \<Rightarrow> bool"
  for u8 str where
  StepFetch: "conn \<in> set (ms_connections ms) \<Longrightarrow> fetch u8 req conn ms = Inr (nodes, ms') \<Longrightarrow>
    ms_step u8 str (ms, ph) (EvFetch nodes) (ms', ph)"
| StepConnect: "connect u8 str ms srt filters keys = Inr (input, ms') \<Longrightarrow>
    ms_step u8 str (ms, ph) (EvConnect (si_input input)) (ms', ph)"
| StepDisconnect: "disconnect input ms = Inr ms' \<Longrightarrow> ms_step u8 str (ms, ph) (EvDisconnect input) (ms', ph)"
| StepOutput: "ms_step u8 str (ms, ph) (EvOutput input) (setOutput input out ms, ph)"
| StepBegin: "change_ok u8 (ms_primaryKey ms) (ms_rows ms) change \<Longrightarrow>
    split_change (ms_connections ms) change = c # later \<Longrightarrow> push_begin u8 c ms = Inr ms' \<Longrightarrow>
    ms_step u8 str (ms, Idle) (EvBegin change) (ms', Pushing c 0 later)"
| StepDeliver: "i < length (ms_connections ms) \<Longrightarrow> push_deliver i c ms = Inr (evs, ms') \<Longrightarrow>
    ms_step u8 str (ms, Pushing c i later) (EvDeliver evs) (ms', Pushing c (i + 1) later)"
| StepCommit: "length (ms_connections ms) \<le> i \<Longrightarrow> push_finish u8 c ms = Inr ms' \<Longrightarrow>
    ms_step u8 str (ms, Pushing c i []) (EvCommit c) (ms', Idle)"
| StepNext: "length (ms_connections ms) \<le> i \<Longrightarrow> push_finish u8 c ms = Inr ms1 \<Longrightarrow>
    push_begin u8 c' ms1 = Inr ms' \<Longrightarrow>
    ms_step u8 str (ms, Pushing c i (c' # later)) (EvCommit c) (ms', Pushing c' 0 later)"

inductive_cases ms_step_inversion: "ms_step u8 str (ms, ph) ev (ms', ph')"

lemmas ms_step_cases = ms_step_inversion
  [consumes 1, case_names StepFetch StepConnect StepDisconnect StepOutput StepBegin StepDeliver StepCommit StepNext]

inductive ms_reachable ::
    "utf8 \<Rightarrow> (literal_value \<Rightarrow> string) \<Rightarrow> memory_source \<Rightarrow> phase \<Rightarrow> bool"
  for u8 str where
  ReachInit: "new_memory_source u8 table pk None = Inr ms \<Longrightarrow> ms_reachable u8 str ms Idle"
| ReachStep: "ms_reachable u8 str ms ph \<Longrightarrow> ms_step u8 str (ms, ph) ev (ms', ph') \<Longrightarrow> ms_reachable u8 str ms' ph'"

subsection \<open>The invariant\<close>

fun changes_ok :: "utf8 \<Rightarrow> string list \<Rightarrow> row set \<Rightarrow> source_change list \<Rightarrow> bool" where
  "changes_ok u8 pk S [] \<longleftrightarrow> True"
| "changes_ok u8 pk S (c # cs) \<longleftrightarrow> change_ok u8 pk S c \<and> changes_ok u8 pk (apply_source_change c S) cs"

definition filters_wf :: "utf8 \<Rightarrow> (literal_value \<Rightarrow> string) \<Rightarrow> memory_source \<Rightarrow> bool" where
  "filters_wf u8 str ms \<longleftrightarrow> (\<forall>conn \<in> set (ms_connections ms). \<forall>cond p.
     conn_filters conn = Some (cond, p) \<longrightarrow> createPredicate u8 str cond = Inr p)"

definition phase_ok :: "utf8 \<Rightarrow> memory_source \<Rightarrow> phase \<Rightarrow> bool" where
  "phase_ok u8 ms ph = (case ph of
     Idle \<Rightarrow> ms_overlay ms = None
   | Pushing c i later \<Rightarrow> changes_ok u8 (ms_primaryKey ms) (ms_rows ms) (c # later) \<and>
       (ms_overlay ms = None \<or> ms_overlay ms = Some (ms_pushEpoch ms, c)) \<and>
       (\<forall>conn \<in> set (ms_connections ms). conn_lastPushedEpoch conn = ms_pushEpoch ms \<longrightarrow>
          ms_overlay ms = Some (ms_pushEpoch ms, c)) \<and> 0 < ms_pushEpoch ms \<and>
       (\<forall>conn \<in> set (drop i (ms_connections ms)). conn_lastPushedEpoch conn \<noteq> ms_pushEpoch ms))"

definition state_inv :: "utf8 \<Rightarrow> (literal_value \<Rightarrow> string) \<Rightarrow> memory_source \<Rightarrow> phase \<Rightarrow> bool" where
  "state_inv u8 str ms ph \<longleftrightarrow> ms_inv u8 ms \<and> (\<forall>x \<in> ms_rows ms. plain_row x) \<and> filters_wf u8 str ms \<and> phase_ok u8 ms ph"

lemma phase_ok_simps:
  "phase_ok u8 ms Idle \<longleftrightarrow> ms_overlay ms = None"
  "phase_ok u8 ms (Pushing c i later) \<longleftrightarrow> changes_ok u8 (ms_primaryKey ms) (ms_rows ms) (c # later) \<and>
     (ms_overlay ms = None \<or> ms_overlay ms = Some (ms_pushEpoch ms, c)) \<and>
     (\<forall>conn \<in> set (ms_connections ms). conn_lastPushedEpoch conn = ms_pushEpoch ms \<longrightarrow>
        ms_overlay ms = Some (ms_pushEpoch ms, c)) \<and> 0 < ms_pushEpoch ms \<and>
     (\<forall>conn \<in> set (drop i (ms_connections ms)). conn_lastPushedEpoch conn \<noteq> ms_pushEpoch ms)"
  by (simp_all add: phase_ok_def del: changes_ok.simps)

lemma phase_ok_frame:
  assumes "phase_ok u8 ms ph" "ms_rows ms' = ms_rows ms" "ms_primaryKey ms' = ms_primaryKey ms"
    "ms_overlay ms' = ms_overlay ms" "ms_pushEpoch ms' = ms_pushEpoch ms"
    "\<And>i conn. conn \<in> set (drop i (ms_connections ms')) \<Longrightarrow> conn_lastPushedEpoch conn = 0 \<or>
       (\<exists>old \<in> set (drop i (ms_connections ms)). conn_lastPushedEpoch conn = conn_lastPushedEpoch old)"
  shows "phase_ok u8 ms' ph"
proof (cases ph)
  case Idle
  with assms show ?thesis by (simp add: phase_ok_simps)
next
  case (Pushing c i later)
  have all: "\<exists>old \<in> set (drop j (ms_connections ms)). conn_lastPushedEpoch conn = conn_lastPushedEpoch old"
    if "conn \<in> set (drop j (ms_connections ms'))" "conn_lastPushedEpoch conn = ms_pushEpoch ms" "0 < ms_pushEpoch ms" for conn j
    using assms(6) [OF that(1)] that(2,3) by auto
  have "\<forall>conn \<in> set (ms_connections ms'). conn_lastPushedEpoch conn = ms_pushEpoch ms \<longrightarrow>
      ms_overlay ms = Some (ms_pushEpoch ms, c)"
    using assms(1) all [of _ 0] unfolding Pushing phase_ok_simps by (metis drop_0)
  moreover have "\<forall>conn \<in> set (drop i (ms_connections ms')). conn_lastPushedEpoch conn \<noteq> ms_pushEpoch ms"
    using assms(1) all [of _ i] unfolding Pushing phase_ok_simps by metis
  ultimately show ?thesis using assms(1-5) by (simp add: Pushing phase_ok_simps del: changes_ok.simps)
qed

lemma set_drop_remove_at: "set (drop i (remove_at j xs)) \<subseteq> set (drop i xs)"
proof (induction xs arbitrary: i j)
  case (Cons x xs)
  show ?case
  proof (cases j)
    case 0
    then show ?thesis using set_drop_subset_set_drop [of i "Suc i" "x # xs"] by (simp add: remove_at_def)
  next
    case (Suc k)
    have "remove_at j (x # xs) = x # remove_at k xs" by (simp add: Suc remove_at_def)
    then show ?thesis using Cons.IH [of "i - 1" k] set_remove_at_subset [of k xs] by (cases i) auto
  qed
qed (simp add: remove_at_def)

lemma changes_ok_split:
  "change_ok u8 pk S change \<Longrightarrow> split_change conns change = c # later \<Longrightarrow> changes_ok u8 pk S (c # later)"
  by (cases change) (auto simp: split_change_def split: if_splits)

lemma change_plain: "change_ok u8 pk S c \<Longrightarrow> \<forall>x \<in> S. plain_row x \<Longrightarrow> \<forall>x \<in> apply_source_change c S. plain_row x"
  by (cases c) auto

context utf8_order
begin

lemma fetch_one_keeps:
  assumes inv: "ms_inv u8 ms" and conn: "conn_ok ms conn" and run: "fetch_one u8 req conn ms = Inr (nodes, ms')"
  shows "ms_inv u8 ms' \<and> ms_rows ms' = ms_rows ms \<and> ms' = ms\<lparr>ms_indexes := ms_indexes ms'\<rparr>"
proof -
  obtain c index where g: "getOrCreateIndex u8 (index_sort (ms_primaryKey ms) c (conn_sort conn)) (conn_input conn) ms = Inr (index, ms')"
    using run by (auto simp: fetch_one_def Let_def bind_result_eq_Inr split: if_splits option.splits prod.splits)
  have "covers_pk (ms_primaryKey ms) (index_sort (ms_primaryKey ms) c (conn_sort conn))"
    using conn index_sort_covers by (simp add: conn_ok_def)
  from getOrCreateIndex_spec [OF inv this, of "conn_input conn"] g show ?thesis by auto
qed

lemma fetch_each_keeps:
  "ms_inv u8 ms \<Longrightarrow> conn_ok ms conn \<Longrightarrow> fetch_each u8 req conn cs ms = Inr (outs, ms') \<Longrightarrow>
   ms_inv u8 ms' \<and> ms_rows ms' = ms_rows ms \<and> ms' = ms\<lparr>ms_indexes := ms_indexes ms'\<rparr>"
proof (induction cs arbitrary: ms outs)
  case (Cons c cs)
  obtain r nodes ms1 outs1 where one: "fetch_one u8 r conn ms = Inr (nodes, ms1)"
    and rest: "fetch_each u8 req conn cs ms1 = Inr (outs1, ms')"
    using Cons.prems(3) by (auto simp: Let_def bind_result_eq_Inr split: prod.splits)
  note k = fetch_one_keeps [OF Cons.prems(1,2) one]
  have "conn_ok ms1 conn" using Cons.prems(2) by (subst conjunct2 [OF conjunct2 [OF k]]) (simp add: conn_ok_def)
  note IH = Cons.IH [OF conjunct1 [OF k] this rest]
  have "ms' = ms\<lparr>ms_indexes := ms_indexes ms'\<rparr>"
    by (subst conjunct2 [OF conjunct2 [OF IH]], subst conjunct2 [OF conjunct2 [OF k]]) simp
  with IH k show ?case by simp
qed simp

lemma fetch_keeps:
  assumes inv: "ms_inv u8 ms" and conn: "conn \<in> set (ms_connections ms)" and run: "fetch u8 req conn ms = Inr (nodes, ms')"
  shows "ms_inv u8 ms' \<and> ms_rows ms' = ms_rows ms \<and> ms' = ms\<lparr>ms_indexes := ms_indexes ms'\<rparr>"
proof -
  have c: "conn_ok ms conn" using inv conn by (simp add: ms_inv_def)
  consider nodes1 where "fetch_one u8 req conn ms = Inr (nodes1, ms')"
    | primary outs where "fetch_each u8 req conn primary ms = Inr (outs, ms')"
    using run by (auto simp: fetch_def fetchMulti_def Let_def bind_result_eq_Inr split: option.splits if_splits prod.splits list.splits)
  then show ?thesis using fetch_one_keeps [OF inv c] fetch_each_keeps [OF inv c] by cases blast+
qed

lemma push_begin_eq: "push_begin u8 c ms = Inr ms' \<Longrightarrow> ms' = ms\<lparr>ms_pushEpoch := ms_pushEpoch ms + 1\<rparr>"
  by (cases c) (auto simp: push_begin_def Let_def bind_result_eq_Inr split: if_splits)

lemma begin_frame:
  assumes "ms_inv u8 ms" "ms' = ms\<lparr>ms_pushEpoch := ms_pushEpoch ms + 1\<rparr>"
  shows "ms_inv u8 ms' \<and> ms_rows ms' = ms_rows ms"
  by (rule ms_inv_frame [OF assms(1)]) (use assms in \<open>auto simp: ms_inv_def conn_ok_def\<close>)

lemma push_begin_ok:
  assumes inv: "ms_inv u8 ms" and ch: "change_ok u8 (ms_primaryKey ms) (ms_rows ms) c"
  shows "push_begin u8 c ms = Inr (ms\<lparr>ms_pushEpoch := ms_pushEpoch ms + 1\<rparr>)"
proof -
  let ?ms = "ms\<lparr>ms_pushEpoch := ms_pushEpoch ms + 1\<rparr>"
  have b: "ms_inv u8 ?ms \<and> ms_rows ?ms = ms_rows ms" by (rule begin_frame [OF inv refl])
  have refl: "index_cmp (pk_sort (ms_primaryKey ms)) r r = 0" for r by (rule comparator.cmp_refl [OF comparator_index])
  have ex: "row_exists u8 ?ms r = Inr (\<exists>s \<in> ms_rows ms. index_cmp (pk_sort (ms_primaryKey ms)) s r = 0)" for r
    using row_exists_spec [OF conjunct1 [OF b], of r] b by simp
  show ?thesis
  proof (cases c)
    case (SourceAdd r)
    then have "\<not> (\<exists>s \<in> ms_rows ms. index_cmp (pk_sort (ms_primaryKey ms)) s r = 0)" using ch by auto
    with SourceAdd ex [of r] show ?thesis by (simp add: push_begin_def Let_def)
  next
    case (SourceRemove r)
    then have "\<exists>s \<in> ms_rows ms. index_cmp (pk_sort (ms_primaryKey ms)) s r = 0" using ch refl by auto
    with SourceRemove ex [of r] show ?thesis by (simp add: push_begin_def Let_def)
  next
    case (SourceEdit n r)
    then have "\<exists>s \<in> ms_rows ms. index_cmp (pk_sort (ms_primaryKey ms)) s r = 0" using ch refl by auto
    with SourceEdit ex [of r] show ?thesis by (simp add: push_begin_def Let_def)
  qed
qed

lemma push_finish_ok:
  assumes inv: "ms_inv u8 ms" and ch: "change_ok u8 (ms_primaryKey ms) (ms_rows ms) c"
  shows "\<exists>ms'. push_finish u8 c ms = Inr ms' \<and> ms_inv u8 ms' \<and> ms_rows ms' = apply_source_change c (ms_rows ms) \<and>
    ms' = ms\<lparr>ms_overlay := None, ms_indexes := ms_indexes ms'\<rparr>"
proof -
  let ?ms = "ms\<lparr>ms_overlay := None\<rparr>"
  have b: "ms_inv u8 ?ms \<and> ms_rows ?ms = ms_rows ms"
    using inv by (intro ms_inv_frame [OF inv]) (auto simp: ms_inv_def conn_ok_def)
  then have "change_ok u8 (ms_primaryKey ?ms) (ms_rows ?ms) c" using ch by simp
  from writeChange_spec [OF conjunct1 [OF b] this] b show ?thesis by (auto simp: push_finish_def)
qed

lemma deliver_frame:
  assumes inv: "ms_inv u8 ms" and i: "i < length (ms_connections ms)" and run: "push_deliver i c ms = Inr (evs, ms')"
  shows "ms_inv u8 ms' \<and> ms_rows ms' = ms_rows ms \<and>
    (ms' = ms \<or> (ms_overlay ms' = Some (ms_pushEpoch ms, c) \<and> ms' = ms\<lparr>ms_connections :=
       (ms_connections ms)[i := (ms_connections ms ! i)\<lparr>conn_lastPushedEpoch := ms_pushEpoch ms\<rparr>],
       ms_overlay := Some (ms_pushEpoch ms, c)\<rparr>))"
proof (cases "conn_output (ms_connections ms ! i)")
  case None
  with assms show ?thesis by (simp add: push_deliver_def Let_def)
next
  case (Some out)
  define ms2 where "ms2 = ms\<lparr>ms_connections :=
      (ms_connections ms)[i := (ms_connections ms ! i)\<lparr>conn_lastPushedEpoch := ms_pushEpoch ms\<rparr>],
      ms_overlay := Some (ms_pushEpoch ms, c)\<rparr>"
  have eq: "ms' = ms2" using run Some by (auto simp: push_deliver_def Let_def ms2_def bind_result_eq_Inr)
  have "conn_ok ms (ms_connections ms ! i)" using inv i by (simp add: ms_inv_def)
  then have "conn_ok ms2 ((ms_connections ms ! i)\<lparr>conn_lastPushedEpoch := ms_pushEpoch ms\<rparr>)"
    by (simp add: conn_ok_def ms2_def)
  moreover have "conn_ok ms2 d" if "d \<in> set (ms_connections ms)" for d
    using that inv by (auto simp: ms2_def ms_inv_def conn_ok_def)
  ultimately have "\<forall>d \<in> set (ms_connections ms2). conn_ok ms2 d"
    using set_update_subset_insert [of "ms_connections ms" i] by (fastforce simp: ms2_def)
  then have "ms_inv u8 ms2 \<and> ms_rows ms2 = ms_rows ms" by (intro ms_inv_frame [OF inv]) (simp_all add: ms2_def)
  then show ?thesis unfolding eq by (simp add: ms2_def)
qed

lemma changes_head: "changes_ok u8 pk S (c # cs) \<Longrightarrow> change_ok u8 pk S c"
  by simp

text \<open>Every step keeps the invariant, and only the commit of a change changes the rows.\<close>

lemma step_inv:
  assumes inv: "state_inv u8 str ms ph" and step: "ms_step u8 str (ms, ph) ev (ms', ph')"
  shows "state_inv u8 str ms' ph' \<and>
    ms_rows ms' = (case ev of EvCommit c \<Rightarrow> apply_source_change c (ms_rows ms) | _ \<Rightarrow> ms_rows ms)"
proof -
  have ms: "ms_inv u8 ms" and plain: "\<forall>x \<in> ms_rows ms. plain_row x" and wf: "filters_wf u8 str ms" and ok: "phase_ok u8 ms ph"
    using inv by (simp_all add: state_inv_def)
  from step show ?thesis
  proof (cases rule: ms_step_cases)
    case (StepFetch conn req nodes)
    note k = fetch_keeps [OF ms StepFetch(3,4)]
    have f: "ms_overlay ms' = ms_overlay ms" "ms_connections ms' = ms_connections ms" "ms_primaryKey ms' = ms_primaryKey ms"
      "ms_pushEpoch ms' = ms_pushEpoch ms" by (subst conjunct2 [OF conjunct2 [OF k]], simp)+
    have "filters_wf u8 str ms'" using wf unfolding filters_wf_def f .
    moreover have "phase_ok u8 ms' ph" by (rule phase_ok_frame [OF ok]) (use k f in auto)
    ultimately show ?thesis using k plain StepFetch by (simp add: state_inv_def)
  next
    case (StepConnect srt filters keys input)
    note k = connect_inv [OF ms StepConnect(3)]
    obtain c where c: "ms_connections ms' = ms_connections ms @ [c]" "conn_lastPushedEpoch c = 0"
        "ms_primaryKey ms' = ms_primaryKey ms" "ms_overlay ms' = ms_overlay ms" "ms_pushEpoch ms' = ms_pushEpoch ms"
        "\<forall>cond p. conn_filters c = Some (cond, p) \<longrightarrow> createPredicate u8 str cond = Inr p"
      using StepConnect(3)
      by (auto simp: connect_def Let_def bind_result_eq_Inr traverse_option_def split: prod.splits option.splits)
    have "filters_wf u8 str ms'" using wf c(6) by (auto simp: filters_wf_def c(1))
    moreover have "phase_ok u8 ms' ph" by (rule phase_ok_frame [OF ok]) (use k c in \<open>auto dest: in_set_dropD\<close>)
    ultimately show ?thesis using k plain StepConnect by (simp add: state_inv_def)
  next
    case (StepDisconnect input)
    note k = disconnect_inv [OF ms StepDisconnect(3)]
    obtain j where j: "ms' = ms\<lparr>ms_connections := remove_at j (ms_connections ms)\<rparr>"
      using StepDisconnect(3) by (auto simp: disconnect_def split: option.splits)
    have sub: "c \<in> set (ms_connections ms)" if "c \<in> set (ms_connections ms')" for c
      using that set_remove_at_subset [of j "ms_connections ms"] by (auto simp: j)
    have f: "ms_overlay ms' = ms_overlay ms" "ms_primaryKey ms' = ms_primaryKey ms" "ms_pushEpoch ms' = ms_pushEpoch ms"
      by (simp_all add: j)
    have "filters_wf u8 str ms'" using wf sub by (auto simp: filters_wf_def)
    moreover have "phase_ok u8 ms' ph"
      by (rule phase_ok_frame [OF ok]) (use k set_drop_remove_at [of _ j "ms_connections ms"] in \<open>auto simp: j\<close>)
    ultimately show ?thesis using k plain StepDisconnect by (simp add: state_inv_def)
  next
    case (StepOutput input out)
    note k = setOutput_inv [OF ms, of input out]
    have "filters_wf u8 str ms'" using wf by (auto simp: filters_wf_def StepOutput setOutput_def)
    moreover have "phase_ok u8 ms' ph"
      by (rule phase_ok_frame [OF ok]) (use k in \<open>auto simp: StepOutput setOutput_def drop_map split: if_splits\<close>)
    ultimately show ?thesis using k plain StepOutput by (simp add: state_inv_def)
  next
    case (StepBegin change c later)
    have m: "ms' = ms\<lparr>ms_pushEpoch := ms_pushEpoch ms + 1\<rparr>" by (rule push_begin_eq [OF StepBegin(6)])
    note k = begin_frame [OF ms m]
    have "conn_lastPushedEpoch d \<le> ms_pushEpoch ms" if "d \<in> set (ms_connections ms)" for d
      using that ms by (simp add: ms_inv_def conn_ok_def)
    then have "phase_ok u8 ms' (Pushing c 0 later)"
      using ok k changes_ok_split [OF StepBegin(4,5)] by (fastforce simp: StepBegin m phase_ok_simps simp del: changes_ok.simps)
    moreover have "filters_wf u8 str ms'" using wf by (simp add: filters_wf_def m)
    ultimately show ?thesis using k plain StepBegin by (simp add: state_inv_def)
  next
    case (StepDeliver i c evs later)
    note k = deliver_frame [OF ms StepDeliver(4,5)]
    have f: "ms_primaryKey ms' = ms_primaryKey ms" "ms_pushEpoch ms' = ms_pushEpoch ms"
      using k by (auto simp: disj_imp)
    have conns: "\<exists>old \<in> set (ms_connections ms). conn_filters d = conn_filters old" if "d \<in> set (ms_connections ms')" for d
    proof (cases "ms' = ms")
      case False
      with k have "ms_connections ms' = (ms_connections ms)
          [i := (ms_connections ms ! i)\<lparr>conn_lastPushedEpoch := ms_pushEpoch ms\<rparr>]" by auto
      then have "d \<in> insert ((ms_connections ms ! i)\<lparr>conn_lastPushedEpoch := ms_pushEpoch ms\<rparr>) (set (ms_connections ms))"
        using that set_update_subset_insert by fastforce
      then show ?thesis using nth_mem [OF StepDeliver(4)] by auto
    qed (use that in auto)
    have "filters_wf u8 str ms'" using wf unfolding filters_wf_def by (metis conns)
    moreover have "phase_ok u8 ms' ph'"
      using ok k set_drop_subset_set_drop [of i "i + 1" "ms_connections ms"] unfolding StepDeliver
      by (auto simp: phase_ok_simps simp del: changes_ok.simps)
    ultimately show ?thesis using k plain StepDeliver by (simp add: state_inv_def)
  next
    case (StepCommit i c)
    have ch: "change_ok u8 (ms_primaryKey ms) (ms_rows ms) c" using ok by (simp add: StepCommit phase_ok_simps)
    have k: "ms_inv u8 ms' \<and> ms_rows ms' = apply_source_change c (ms_rows ms) \<and>
        ms' = ms\<lparr>ms_overlay := None, ms_indexes := ms_indexes ms'\<rparr>"
      using push_finish_ok [OF ms ch] StepCommit by auto
    have f: "ms_overlay ms' = None" "ms_connections ms' = ms_connections ms" by (subst conjunct2 [OF conjunct2 [OF k]], simp)+
    have "filters_wf u8 str ms'" using wf by (simp add: filters_wf_def f)
    moreover have "\<forall>x \<in> ms_rows ms'. plain_row x" using change_plain [OF ch plain] k by simp
    ultimately show ?thesis using k f StepCommit by (simp add: state_inv_def phase_ok_simps)
  next
    case (StepNext i c ms1 c' later)
    have chs: "changes_ok u8 (ms_primaryKey ms) (ms_rows ms) (c # c' # later)"
      using ok by (simp add: StepNext phase_ok_simps)
    then have ch: "change_ok u8 (ms_primaryKey ms) (ms_rows ms) c" by simp
    have k: "ms_inv u8 ms1 \<and> ms_rows ms1 = apply_source_change c (ms_rows ms) \<and>
        ms1 = ms\<lparr>ms_overlay := None, ms_indexes := ms_indexes ms1\<rparr>"
      using push_finish_ok [OF ms ch] StepNext by auto
    have f: "ms_overlay ms1 = None" "ms_connections ms1 = ms_connections ms" "ms_primaryKey ms1 = ms_primaryKey ms"
      "ms_pushEpoch ms1 = ms_pushEpoch ms"
      by (subst conjunct2 [OF conjunct2 [OF k]], simp)+
    have m: "ms' = ms1\<lparr>ms_pushEpoch := ms_pushEpoch ms1 + 1\<rparr>" by (rule push_begin_eq) (rule StepNext)
    note k1 = begin_frame [OF conjunct1 [OF k] m]
    have le: "conn_lastPushedEpoch d \<le> ms_pushEpoch ms" if "d \<in> set (ms_connections ms)" for d
      using that ms by (simp add: ms_inv_def conn_ok_def)
    have "filters_wf u8 str ms'" using wf by (simp add: filters_wf_def m f)
    moreover have "\<forall>x \<in> ms_rows ms'. plain_row x" using change_plain [OF ch plain] k k1 by simp
    moreover have "phase_ok u8 ms' ph'"
      using chs k k1 le by (fastforce simp: StepNext m f phase_ok_simps)
    ultimately show ?thesis using k k1 StepNext by (simp add: state_inv_def)
  qed
qed

end

end
