(* ===== verification/MemorySourceProps.thy ===== *)
theory MemorySourceProps
  imports MemorySourcePush
begin

section \<open>Properties of the in-memory source (memory-source.ts)\<close>

text \<open>
  The properties of \<open>MemorySource\<close>, over its reachable states: the invariant, the refinement of a set of
  rows, that no assertion of the source fails, that what is pushed to an output is exactly the change of
  what its connection sees, and that a fetch returns what its connection sees.
\<close>

definition shown :: "memory_source \<Rightarrow> connection \<Rightarrow> row set" where
  "shown ms conn = passing (map_option snd (conn_filters conn)) (visible ms conn)"

definition decides_change :: "connection \<Rightarrow> source_change \<Rightarrow> bool" where
  "decides_change conn c \<longleftrightarrow> (\<exists>pushes. filterPush (output_change c) (map_option snd (conn_filters conn)) = Inr pushes)"

definition conn_events :: "source_change \<Rightarrow> connection \<Rightarrow> (nat \<times> change list) list" where
  "conn_events c conn = (case conn_output conn of None \<Rightarrow> []
     | Some out \<Rightarrow> [(out, projr (filterPush (output_change c) (map_option snd (conn_filters conn))))])"

definition forget_epoch :: "connection \<Rightarrow> connection" where
  "forget_epoch conn = conn\<lparr>conn_lastPushedEpoch := 0\<rparr>"

lemma visible_cases:
  "ms_overlay ms = None \<Longrightarrow> visible ms conn = ms_rows ms"
  "ms_overlay ms = Some (e, c) \<Longrightarrow> conn_lastPushedEpoch conn < e \<Longrightarrow> visible ms conn = ms_rows ms"
  "ms_overlay ms = Some (e, c) \<Longrightarrow> e \<le> conn_lastPushedEpoch conn \<Longrightarrow> visible ms conn = apply_source_change c (ms_rows ms)"
  by (simp_all add: visible_def pending_def overlay_to_apply_def)

context utf8_order
begin

lemma inv_init: "new_memory_source u8 table pk None = Inr ms \<Longrightarrow> state_inv u8 str ms Idle"
  using new_memory_source_inv [of table pk ms]
  by (auto simp: state_inv_def phase_ok_simps filters_wf_def new_memory_source_def Let_def bind_result_eq_Inr)

lemma reachable_state_inv: "ms_reachable u8 str ms ph \<Longrightarrow> state_inv u8 str ms ph"
  by (induction rule: ms_reachable.induct) (use inv_init step_inv in blast)+

lemma pushing_visible:
  assumes "state_inv u8 str ms (Pushing c i later)" "conn \<in> set (ms_connections ms)"
  shows "visible ms conn = (if conn_lastPushedEpoch conn = ms_pushEpoch ms
    then apply_source_change c (ms_rows ms) else ms_rows ms)"
proof -
  have "conn_lastPushedEpoch conn \<le> ms_pushEpoch ms" using assms by (simp add: state_inv_def ms_inv_def conn_ok_def)
  then show ?thesis using assms unfolding state_inv_def phase_ok_simps
    by (auto simp: visible_cases simp del: changes_ok.simps dest: le_neq_implies_less)
qed

lemma source_push_ok: "change_ok u8 pk S c \<Longrightarrow> push_ok (output_change c) S"
  using comparator.cmp_refl [OF comparator_index] by (cases c) auto

lemma apply_output_change: "apply_push (output_change c) S = apply_source_change c S"
  by (cases c) auto

lemma deliver_spec:
  assumes inv: "state_inv u8 str ms (Pushing c i later)" and i: "i < length (ms_connections ms)"
    and run: "push_deliver i c ms = Inr (evs, ms')"
  shows "case conn_output (ms_connections ms ! i) of
      None \<Rightarrow> evs = [] \<and> ms' = ms
    | Some out \<Rightarrow> \<exists>pushes. evs = [(out, pushes)] \<and> pushes_ok pushes (shown ms (ms_connections ms ! i)) \<and>
        apply_pushes pushes (shown ms (ms_connections ms ! i)) = shown ms' (ms_connections ms' ! i)"
proof (cases "conn_output (ms_connections ms ! i)")
  case None
  with run show ?thesis by (simp add: push_deliver_def Let_def)
next
  case (Some out)
  let ?conn = "ms_connections ms ! i"
  let ?p = "map_option snd (conn_filters ?conn)"
  obtain pushes where p: "filterPush (output_change c) ?p = Inr pushes" "evs = [(out, pushes)]"
    and ms': "ms' = ms\<lparr>ms_connections := (ms_connections ms)[i := ?conn\<lparr>conn_lastPushedEpoch := ms_pushEpoch ms\<rparr>],
        ms_overlay := Some (ms_pushEpoch ms, c)\<rparr>"
    using run Some by (auto simp: push_deliver_def Let_def bind_result_eq_Inr)
  have "change_ok u8 (ms_primaryKey ms) (ms_rows ms) c" using inv by (simp add: state_inv_def phase_ok_simps)
  then have ok: "push_ok (output_change c) (ms_rows ms)" by (rule source_push_ok)
  have "?conn \<in> set (drop i (ms_connections ms))" using i by (metis Cons_nth_drop_Suc list.set_intros(1))
  then have "conn_lastPushedEpoch ?conn \<noteq> ms_pushEpoch ms"
    using inv unfolding state_inv_def phase_ok_simps by blast
  then have old: "visible ms ?conn = ms_rows ms" using pushing_visible [OF inv] i by simp
  have rows: "ms_rows ms' = ms_rows ms" using deliver_frame [OF _ i run] inv by (simp add: state_inv_def)
  have new: "ms_connections ms' ! i = ?conn\<lparr>conn_lastPushedEpoch := ms_pushEpoch ms\<rparr>" using i by (simp add: ms')
  have "visible ms' (ms_connections ms' ! i) = apply_source_change c (ms_rows ms)"
    unfolding rows [symmetric] by (rule visible_cases(3) [of ms' "ms_pushEpoch ms"]) (simp_all add: ms' i)
  with filterPush_spec [OF p(1) ok] p(2) old Some show ?thesis
    by (simp add: shown_def new apply_output_change)
qed

lemma deliver_others:
  assumes inv: "state_inv u8 str ms (Pushing c i later)" and i: "i < length (ms_connections ms)"
    and run: "push_deliver i c ms = Inr (evs, ms')" and j: "j < length (ms_connections ms)" "j \<noteq> i"
  shows "ms_connections ms' ! j = ms_connections ms ! j \<and> shown ms' (ms_connections ms' ! j) = shown ms (ms_connections ms ! j)"
proof -
  have ms: "ms_inv u8 ms" using inv by (simp add: state_inv_def)
  note k = deliver_frame [OF ms i run]
  let ?conn = "ms_connections ms ! j"
  have le: "conn_lastPushedEpoch ?conn \<le> ms_pushEpoch ms" using ms j by (simp add: ms_inv_def conn_ok_def)
  have eq: "ms_connections ms' ! j = ?conn" using k j by auto
  have "visible ms' ?conn = visible ms ?conn"
  proof (cases "ms' = ms")
    case False
    with k have ov: "ms_overlay ms' = Some (ms_pushEpoch ms, c)" and rows: "ms_rows ms' = ms_rows ms" by auto
    show ?thesis
    proof (cases "conn_lastPushedEpoch ?conn = ms_pushEpoch ms")
      case True
      then show ?thesis using pushing_visible [OF inv, of ?conn] visible_cases(3) [OF ov, of ?conn] j rows by simp
    next
      case False
      with le have "conn_lastPushedEpoch ?conn < ms_pushEpoch ms" by simp
      then show ?thesis using pushing_visible [OF inv, of ?conn] visible_cases(2) [OF ov, of ?conn] j rows False by simp
    qed
  qed simp
  with eq show ?thesis by (simp add: shown_def)
qed

lemma commit_spec:
  assumes inv: "state_inv u8 str ms ph" and step: "ms_step u8 str (ms, ph) (EvCommit c) (ms', ph')"
  shows "ms_rows ms' = apply_source_change c (ms_rows ms) \<and> ms_connections ms' = ms_connections ms \<and>
    (\<forall>conn \<in> set (ms_connections ms). visible ms' conn = ms_rows ms' \<and>
      visible ms conn = (if conn_lastPushedEpoch conn = ms_pushEpoch ms then ms_rows ms' else ms_rows ms))"
proof -
  note rows = conjunct2 [OF step_inv [OF inv step], simplified]
  have "ms_overlay ms' = None \<and> ms_connections ms' = ms_connections ms \<and> (\<exists>i later. ph = Pushing c i later)"
    using step
  proof (cases rule: ms_step_cases)
    case (StepCommit i c1)
    then have "change_ok u8 (ms_primaryKey ms) (ms_rows ms) c1" and "ms_inv u8 ms"
      using inv by (simp_all add: state_inv_def phase_ok_simps)
    from push_finish_ok [OF this(2,1)] StepCommit obtain d where "ms' = ms\<lparr>ms_overlay := None, ms_indexes := d\<rparr>" by auto
    with StepCommit show ?thesis by simp
  next
    case (StepNext i c1 ms1 c' later)
    then have "change_ok u8 (ms_primaryKey ms) (ms_rows ms) c1" and "ms_inv u8 ms"
      using inv by (simp_all add: state_inv_def phase_ok_simps)
    from push_finish_ok [OF this(2,1)] StepNext obtain d where "ms1 = ms\<lparr>ms_overlay := None, ms_indexes := d\<rparr>" by auto
    moreover have "ms' = ms1\<lparr>ms_pushEpoch := ms_pushEpoch ms1 + 1\<rparr>" by (rule push_begin_eq) (rule StepNext)
    ultimately show ?thesis using StepNext by simp
  qed simp_all
  then obtain i later where ph: "ph = Pushing c i later" and ov: "ms_overlay ms' = None" "ms_connections ms' = ms_connections ms" by blast
  show ?thesis
    using rows pushing_visible [OF inv [unfolded ph]] ov(2) visible_cases(1) [OF ov(1)] by simp
qed

subsection \<open>A push returns\<close>

lemma map_update_same: "f y = f (xs ! i) \<Longrightarrow> map f (xs[i := y]) = map f xs"
  by (cases "i < length xs") (simp_all add: map_update list_update_same_conv list_update_beyond not_less)

lemma deliver_proceeds:
  "decides_change (ms_connections ms ! i) c \<Longrightarrow>
   \<exists>ms'. push_deliver i c ms = Inr (conn_events c (ms_connections ms ! i), ms') \<and>
     map forget_epoch (ms_connections ms') = map forget_epoch (ms_connections ms) \<and>
     drop (Suc i) (ms_connections ms') = drop (Suc i) (ms_connections ms)"
  by (auto simp: push_deliver_def Let_def decides_change_def conn_events_def
      forget_epoch_def map_update_same split: option.splits)

lemma finish_proceeds:
  assumes inv: "state_inv u8 str ms (Pushing c i later)"
  shows "\<exists>ms'. push_finish u8 c ms = Inr ms' \<and> ms_rows ms' = apply_source_change c (ms_rows ms) \<and>
    ms_connections ms' = ms_connections ms \<and>
    (\<forall>c' cs. later = c' # cs \<longrightarrow> push_begin u8 c' ms' = Inr (ms'\<lparr>ms_pushEpoch := ms_pushEpoch ms' + 1\<rparr>))"
proof -
  have ms: "ms_inv u8 ms" and chs: "changes_ok u8 (ms_primaryKey ms) (ms_rows ms) (c # later)"
    using inv by (simp_all add: state_inv_def phase_ok_simps)
  obtain ms' where k: "push_finish u8 c ms = Inr ms'" "ms_inv u8 ms'" "ms_rows ms' = apply_source_change c (ms_rows ms)"
    "ms' = ms\<lparr>ms_overlay := None, ms_indexes := ms_indexes ms'\<rparr>"
    using push_finish_ok [OF ms changes_head [OF chs]] by blast
  have f: "ms_connections ms' = ms_connections ms" "ms_primaryKey ms' = ms_primaryKey ms" by (subst k(4), simp)+
  have "push_begin u8 c' ms' = Inr (ms'\<lparr>ms_pushEpoch := ms_pushEpoch ms' + 1\<rparr>)" if "later = c' # cs" for c' cs
    by (rule push_begin_ok [OF k(2)]) (use chs that f k(3) in simp)
  with k f show ?thesis by blast
qed

lemma begin_proceeds:
  assumes inv: "state_inv u8 str ms Idle" and ch: "change_ok u8 (ms_primaryKey ms) (ms_rows ms) change"
  shows "\<exists>c later. split_change (ms_connections ms) change = c # later \<and>
    push_begin u8 c ms = Inr (ms\<lparr>ms_pushEpoch := ms_pushEpoch ms + 1\<rparr>)"
proof -
  obtain c later where s: "split_change (ms_connections ms) change = c # later"
    by (cases "split_change (ms_connections ms) change") (auto simp: split_change_def split: source_change.splits if_splits)
  have ms: "ms_inv u8 ms" using inv by (simp add: state_inv_def)
  from s push_begin_ok [OF ms changes_head [OF changes_ok_split [OF ch s]]] show ?thesis by blast
qed

lemma deliver_all_spec:
  "ms_reachable u8 str ms (Pushing c i later) \<Longrightarrow> i \<le> length (ms_connections ms) \<Longrightarrow>
   \<forall>conn \<in> set (drop i (ms_connections ms)). decides_change conn c \<Longrightarrow>
   \<exists>ms'. deliver_all [i..<length (ms_connections ms)] c ms = Inr (concat (map (conn_events c) (drop i (ms_connections ms))), ms') \<and>
     ms_reachable u8 str ms' (Pushing c (length (ms_connections ms)) later) \<and> ms_rows ms' = ms_rows ms \<and>
     map forget_epoch (ms_connections ms') = map forget_epoch (ms_connections ms)"
proof (induction "length (ms_connections ms) - i" arbitrary: ms i)
  case 0
  then show ?case by auto
next
  case (Suc n)
  then have i: "i < length (ms_connections ms)" by simp
  let ?conn = "ms_connections ms ! i"
  have split: "drop i (ms_connections ms) = ?conn # drop (Suc i) (ms_connections ms)" using i by (simp add: Cons_nth_drop_Suc)
  obtain ms1 where d: "push_deliver i c ms = Inr (conn_events c ?conn, ms1)"
    "map forget_epoch (ms_connections ms1) = map forget_epoch (ms_connections ms)"
    "drop (Suc i) (ms_connections ms1) = drop (Suc i) (ms_connections ms)"
    using deliver_proceeds [of ms i c] Suc.prems(3) split by auto
  have len: "length (ms_connections ms1) = length (ms_connections ms)" using d(2) by (metis length_map)
  have step: "ms_step u8 str (ms, Pushing c i later) (EvDeliver (conn_events c ?conn)) (ms1, Pushing c (i + 1) later)"
    by (rule StepDeliver [OF i d(1)])
  have r1: "ms_reachable u8 str ms1 (Pushing c (Suc i) later)"
    using ReachStep [OF Suc.prems(1) step] by simp
  have rows: "ms_rows ms1 = ms_rows ms"
    using step_inv [OF reachable_state_inv [OF Suc.prems(1)] step] by simp
  have "n = length (ms_connections ms1) - Suc i" using Suc.hyps(2) len by simp
  from Suc.hyps(1) [OF this r1] i len Suc.prems(3) split d(3) obtain ms' where ms':
    "deliver_all [Suc i..<length (ms_connections ms1)] c ms1 = Inr (concat (map (conn_events c) (drop (Suc i) (ms_connections ms1))), ms')"
    "ms_reachable u8 str ms' (Pushing c (length (ms_connections ms1)) later)" "ms_rows ms' = ms_rows ms1"
    "map forget_epoch (ms_connections ms') = map forget_epoch (ms_connections ms1)"
    by auto
  have "[i..<length (ms_connections ms)] = i # [Suc i..<length (ms_connections ms1)]" using i len by (simp add: upt_conv_Cons)
  with d ms' split rows len show ?case by simp
qed

lemma forgets_same:
  assumes "map forget_epoch cs = map forget_epoch ds"
  shows "map (conn_events c) cs = map (conn_events c) ds" "(\<forall>x \<in> set cs. decides_change x c) \<longleftrightarrow> (\<forall>x \<in> set ds. decides_change x c)"
proof -
  have e: "conn_events c (forget_epoch x) = conn_events c x" "decides_change (forget_epoch x) c = decides_change x c" for x
    by (simp_all add: conn_events_def decides_change_def forget_epoch_def split: option.split)
  from arg_cong [OF assms, of "map (conn_events c)"] show "map (conn_events c) cs = map (conn_events c) ds" by (simp add: comp_def e)
  have "(\<forall>x \<in> set (map forget_epoch cs). decides_change x c) \<longleftrightarrow> (\<forall>x \<in> set (map forget_epoch ds). decides_change x c)"
    unfolding assms ..
  then show "(\<forall>x \<in> set cs. decides_change x c) \<longleftrightarrow> (\<forall>x \<in> set ds. decides_change x c)" by (simp add: e)
qed

lemma push_rest:
  "ms_reachable u8 str ms (Pushing c 0 later) \<Longrightarrow>
   \<forall>d \<in> set (c # later). \<forall>conn \<in> set (ms_connections ms). decides_change conn d \<Longrightarrow>
   \<exists>evs ms2 ms3 evs' ms'. deliver_all [0..<length (ms_connections ms)] c ms = Inr (evs, ms2) \<and>
     push_finish u8 c ms2 = Inr ms3 \<and> push_each u8 later ms3 = Inr (evs', ms') \<and>
     evs @ evs' = concat (map (\<lambda>d. concat (map (conn_events d) (ms_connections ms))) (c # later)) \<and>
     ms_reachable u8 str ms' Idle \<and> ms_rows ms' = fold apply_source_change (c # later) (ms_rows ms) \<and>
     map forget_epoch (ms_connections ms') = map forget_epoch (ms_connections ms)"
proof (induction later arbitrary: c ms)
  case Nil
  obtain ms2 where d: "deliver_all [0..<length (ms_connections ms)] c ms = Inr (concat (map (conn_events c) (ms_connections ms)), ms2)"
    "ms_reachable u8 str ms2 (Pushing c (length (ms_connections ms)) [])" "ms_rows ms2 = ms_rows ms"
    "map forget_epoch (ms_connections ms2) = map forget_epoch (ms_connections ms)"
    using deliver_all_spec [OF Nil.prems(1)] Nil.prems(2) by auto
  obtain ms3 where f: "push_finish u8 c ms2 = Inr ms3" "ms_rows ms3 = apply_source_change c (ms_rows ms2)"
    "ms_connections ms3 = ms_connections ms2" using finish_proceeds [OF reachable_state_inv [OF d(2)]] by blast
  have len: "length (ms_connections ms2) \<le> length (ms_connections ms)" using d(4) by (metis length_map order_refl)
  have "ms_reachable u8 str ms3 Idle" by (rule ReachStep [OF d(2) StepCommit [OF len f(1)]])
  with d f show ?case by simp
next
  case (Cons c' later)
  obtain ms2 where d: "deliver_all [0..<length (ms_connections ms)] c ms = Inr (concat (map (conn_events c) (ms_connections ms)), ms2)"
    "ms_reachable u8 str ms2 (Pushing c (length (ms_connections ms)) (c' # later))" "ms_rows ms2 = ms_rows ms"
    "map forget_epoch (ms_connections ms2) = map forget_epoch (ms_connections ms)"
    using deliver_all_spec [OF Cons.prems(1)] Cons.prems(2) by auto
  obtain ms3 where f: "push_finish u8 c ms2 = Inr ms3" "ms_rows ms3 = apply_source_change c (ms_rows ms2)"
    "ms_connections ms3 = ms_connections ms2"
    "push_begin u8 c' ms3 = Inr (ms3\<lparr>ms_pushEpoch := ms_pushEpoch ms3 + 1\<rparr>)"
    using finish_proceeds [OF reachable_state_inv [OF d(2)]] by blast
  let ?ms4 = "ms3\<lparr>ms_pushEpoch := ms_pushEpoch ms3 + 1\<rparr>"
  have len: "length (ms_connections ms2) \<le> length (ms_connections ms)" using d(4) by (metis length_map order_refl)
  have r4: "ms_reachable u8 str ?ms4 (Pushing c' 0 later)" by (rule ReachStep [OF d(2) StepNext [OF len f(1,4)]])
  have rows4: "ms_rows ?ms4 = apply_source_change c (ms_rows ms)" using f(2) d(3) by (simp add: ms_rows_def)
  have same: "map forget_epoch (ms_connections ?ms4) = map forget_epoch (ms_connections ms)" using f(3) d(4) by simp
  have "\<forall>d \<in> set (c' # later). \<forall>conn \<in> set (ms_connections ?ms4). decides_change conn d"
    using Cons.prems(2) forgets_same(2) [OF same] by (metis list.set_intros(2))
  from Cons.IH [OF r4 this] obtain evs ms5 ms6 evs' ms' where IH:
    "deliver_all [0..<length (ms_connections ?ms4)] c' ?ms4 = Inr (evs, ms5)" "push_finish u8 c' ms5 = Inr ms6"
    "push_each u8 later ms6 = Inr (evs', ms')"
    "evs @ evs' = concat (map (\<lambda>d. concat (map (conn_events d) (ms_connections ?ms4))) (c' # later))"
    "ms_reachable u8 str ms' Idle" "ms_rows ms' = fold apply_source_change (c' # later) (ms_rows ?ms4)"
    "map forget_epoch (ms_connections ms') = map forget_epoch (ms_connections ?ms4)" by blast
  have "push_each u8 (c' # later) ms3 = Inr (evs @ evs', ms')"
    using f(4) IH(1-3) by (simp add: pushAndWrite_def)
  moreover have "evs @ evs' = concat (map (\<lambda>d. concat (map (conn_events d) (ms_connections ms))) (c' # later))"
    unfolding IH(4) forgets_same(1) [OF same] ..
  ultimately show ?case using d(1) f(1) IH(5-7) rows4 same by (simp del: push_each.simps)
qed

lemma push_spec:
  assumes r: "ms_reachable u8 str ms Idle" and ch: "change_ok u8 (ms_primaryKey ms) (ms_rows ms) change"
    and dec: "\<forall>d \<in> set (split_change (ms_connections ms) change). \<forall>conn \<in> set (ms_connections ms). decides_change conn d"
  shows "\<exists>ms'. push u8 change ms = Inr (concat (map (\<lambda>d. concat (map (conn_events d) (ms_connections ms)))
      (split_change (ms_connections ms) change)), ms') \<and>
    ms_reachable u8 str ms' Idle \<and> ms_rows ms' = apply_source_change change (ms_rows ms)"
proof -
  obtain c later where s: "split_change (ms_connections ms) change = c # later"
    and b: "push_begin u8 c ms = Inr (ms\<lparr>ms_pushEpoch := ms_pushEpoch ms + 1\<rparr>)"
    using begin_proceeds [OF reachable_state_inv [OF r] ch] by blast
  let ?ms1 = "ms\<lparr>ms_pushEpoch := ms_pushEpoch ms + 1\<rparr>"
  have r1: "ms_reachable u8 str ?ms1 (Pushing c 0 later)" by (rule ReachStep [OF r StepBegin [OF ch s b]])
  obtain evs ms2 ms3 evs' ms' where k: "deliver_all [0..<length (ms_connections ms)] c ?ms1 = Inr (evs, ms2)"
     "push_finish u8 c ms2 = Inr ms3" "push_each u8 later ms3 = Inr (evs', ms')"
     "evs @ evs' = concat (map (\<lambda>d. concat (map (conn_events d) (ms_connections ms))) (c # later))"
     "ms_reachable u8 str ms' Idle" "ms_rows ms' = fold apply_source_change (c # later) (ms_rows ?ms1)"
    using push_rest [OF r1] dec unfolding s by auto
  have "fold apply_source_change (c # later) S = apply_source_change change S" for S
    using s by (cases change) (auto simp: split_change_def split: if_splits)
  then have rows: "ms_rows ms' = apply_source_change change (ms_rows ms)" using k(6) by (simp add: ms_rows_def)
  have "push u8 change ms = Inr (evs @ evs', ms')" using b k(1-3) by (simp add: push_def s pushAndWrite_def)
  with k(4,5) rows show ?thesis unfolding s by auto
qed

subsection \<open>What a fetch expects in a reachable state\<close>

end

definition request_ok :: "memory_source \<Rightarrow> connection \<Rightarrow> fetch_request \<Rightarrow> bool" where
  "request_ok ms conn req \<longleftrightarrow> distinct (ms_primaryKey ms) \<and> distinct (map fst (conn_sort conn)) \<and>
     (\<forall>s. req_start req = Some s \<longrightarrow> plain_row (fst s)) \<and>
     (\<forall>c. req_constraint req = Some c \<longrightarrow> distinct (map fst c)) \<and>
     (\<forall>cond p. conn_filters conn = Some (cond, p) \<longrightarrow> (\<forall>x \<in> ms_rows ms \<union> visible ms conn. \<exists>b. p x = Inr b)) \<and>
     (\<forall>n x. pending ms conn = Some (SourceEdit n x) \<and> pinned (ms_primaryKey ms) req conn \<longrightarrow> edit_safe req n x)"

context utf8_order
begin

lemma pending_change_ok:
  assumes inv: "state_inv u8 str ms ph" and p: "pending ms conn = Some ch"
  shows "change_ok u8 (ms_primaryKey ms) (ms_rows ms) ch"
proof (cases ph)
  case Idle
  with inv p show ?thesis by (simp add: state_inv_def phase_ok_simps pending_def overlay_to_apply_def)
next
  case (Pushing c i later)
  have "ms_overlay ms = None \<or> ms_overlay ms = Some (ms_pushEpoch ms, c)"
    using inv by (simp add: Pushing state_inv_def phase_ok_simps)
  with p have "ch = c" by (auto simp: pending_def overlay_to_apply_def split: if_splits)
  with inv show ?thesis by (simp add: Pushing state_inv_def phase_ok_simps)
qed

lemma request_fetch_pre:
  assumes inv: "state_inv u8 str ms ph" and conn: "conn \<in> set (ms_connections ms)" and req: "request_ok ms conn req"
  shows "fetch_pre u8 str ms conn req"
proof -
  have "change_ok u8 (ms_primaryKey ms) (ms_rows ms) ch" if "pending ms conn = Some ch" for ch
    by (rule pending_change_ok [OF inv that])
  with assms show ?thesis
    unfolding fetch_pre_def request_ok_def filter_ok_def state_inv_def filters_wf_def ms_inv_def by blast
qed

end

end
