(* ===== verification/MemorySourceClaims.thy ===== *)
theory MemorySourceClaims
  imports MemorySourceProps
begin

section \<open>The claims about the in-memory source\<close>

text \<open>
  The invariant, the refinement to a set of rows, what a push delivers and that it never fails, each over the
  reachable states of \<open>MemorySourcePush\<close>. Their witnesses are states of one sample run.
\<close>

subsection \<open>A sample run\<close>

text \<open>One connection in descending order of the key; a row is pushed and committed, a second one is under way.\<close>

definition sample_row :: "nat \<Rightarrow> nat \<Rightarrow> row" where
  "sample_row i f = [(''id'', JNum (of_nat i)), (''foo'', JNum (of_nat f))]"

definition run0 :: memory_source where
  "run0 = projr (new_memory_source utf8_lex ''issue'' [''id''] None)"
definition run1 :: memory_source where
  "run1 = setOutput 0 77 (snd (projr (connect utf8_lex sample_str run0 (Some [(''id'', Desc)]) None None)))"
definition run2 :: memory_source where
  "run2 = projr (push_begin utf8_lex (SourceAdd (sample_row 1 1)) run1)"
definition run3 :: memory_source where
  "run3 = snd (projr (push_deliver 0 (SourceAdd (sample_row 1 1)) run2))"
definition run4 :: memory_source where
  "run4 = projr (push_finish utf8_lex (SourceAdd (sample_row 1 1)) run3)"
definition run5 :: memory_source where
  "run5 = projr (push_begin utf8_lex (SourceAdd (sample_row 2 1)) run4)"
definition run6 :: memory_source where
  "run6 = snd (projr (push_deliver 0 (SourceAdd (sample_row 2 1)) run5))"

lemma Inr_projr: "\<not> isl x \<Longrightarrow> x = Inr (projr x)"
  by (cases x) simp_all

lemma Inr_snd_projr: "\<not> isl x \<Longrightarrow> x = Inr (fst (projr x), snd (projr x))"
  by (cases x) simp_all

lemma run_ok:
  "\<not> isl (new_memory_source utf8_lex ''issue'' [''id''] None)"
  "\<not> isl (connect utf8_lex sample_str run0 (Some [(''id'', Desc)]) None None)"
  "\<not> isl (push_begin utf8_lex (SourceAdd (sample_row 1 1)) run1)"
  "\<not> isl (push_deliver 0 (SourceAdd (sample_row 1 1)) run2)"
  "\<not> isl (push_finish utf8_lex (SourceAdd (sample_row 1 1)) run3)"
  "\<not> isl (push_begin utf8_lex (SourceAdd (sample_row 2 1)) run4)"
  "\<not> isl (push_deliver 0 (SourceAdd (sample_row 2 1)) run5)"
  by code_simp+

lemma run_rows:
  "ms_rows run1 = {}" "ms_rows run4 = {sample_row 1 1}" "ms_rows run6 = {sample_row 1 1}"
  "ms_primaryKey run1 = [''id'']" "ms_primaryKey run4 = [''id'']" "ms_primaryKey run6 = [''id'']"
  by code_simp+

lemma one_connection:
  assumes "length cs = 1" "conn_input (cs ! 0) = 0" "conn_output (cs ! 0) = Some 77" "conn_sort (cs ! 0) = [(''id'', Desc)]"
    "Option.is_none (conn_splitEditKeys (cs ! 0))" "Option.is_none (conn_filters (cs ! 0))" "conn_lastPushedEpoch (cs ! 0) = e"
  shows "cs = [\<lparr>conn_input = 0, conn_output = Some 77, conn_sort = [(''id'', Desc)],
     conn_splitEditKeys = None, conn_filters = None, conn_lastPushedEpoch = e\<rparr>]"
  using assms by (cases cs) (auto simp: Option.is_none_def intro!: connection.equality)

lemma run_connections:
  "ms_connections run1 = [\<lparr>conn_input = 0, conn_output = Some 77, conn_sort = [(''id'', Desc)],
     conn_splitEditKeys = None, conn_filters = None, conn_lastPushedEpoch = 0\<rparr>]"
  "ms_connections run4 = [\<lparr>conn_input = 0, conn_output = Some 77, conn_sort = [(''id'', Desc)],
     conn_splitEditKeys = None, conn_filters = None, conn_lastPushedEpoch = 1\<rparr>]"
  "ms_connections run5 = [\<lparr>conn_input = 0, conn_output = Some 77, conn_sort = [(''id'', Desc)],
     conn_splitEditKeys = None, conn_filters = None, conn_lastPushedEpoch = 1\<rparr>]"
  "ms_connections run6 = [\<lparr>conn_input = 0, conn_output = Some 77, conn_sort = [(''id'', Desc)],
     conn_splitEditKeys = None, conn_filters = None, conn_lastPushedEpoch = 2\<rparr>]"
  by (rule one_connection; code_simp)+

lemma run6_overlay: "ms_overlay run6 = Some (2, SourceAdd (sample_row 2 1))"
  by code_simp

lemma sample_plain: "plain_row (sample_row i f)"
  by (simp add: sample_row_def plain_row_def get_field_def)

lemma run1_reachable: "ms_reachable utf8_lex sample_str run1 Idle"
proof -
  have "ms_reachable utf8_lex sample_str run0 Idle"
    unfolding run0_def by (rule ReachInit [OF Inr_projr [OF run_ok(1)]])
  from ReachStep [OF this StepConnect [OF Inr_snd_projr [OF run_ok(2)]]]
  have "ms_reachable utf8_lex sample_str (snd (projr (connect utf8_lex sample_str run0 (Some [(''id'', Desc)]) None None))) Idle" .
  from ReachStep [OF this StepOutput [of _ _ _ _ 0 77]] show ?thesis unfolding run1_def .
qed

lemma change1_ok: "change_ok utf8_lex (ms_primaryKey run1) (ms_rows run1) (SourceAdd (sample_row 1 1))"
  using run_rows sample_plain by simp

lemma run4_reachable: "ms_reachable utf8_lex sample_str run4 Idle"
proof -
  have "split_change (ms_connections run1) (SourceAdd (sample_row 1 1)) = [SourceAdd (sample_row 1 1)]"
    by (simp add: split_change_def)
  from ReachStep [OF run1_reachable StepBegin [OF change1_ok this Inr_projr [OF run_ok(3)]], folded run2_def]
  have 2: "ms_reachable utf8_lex sample_str run2 (Pushing (SourceAdd (sample_row 1 1)) 0 [])" .
  have "0 < length (ms_connections run2)" by code_simp
  from ReachStep [OF 2 StepDeliver [OF this Inr_snd_projr [OF run_ok(4)]], folded run3_def]
  have 3: "ms_reachable utf8_lex sample_str run3 (Pushing (SourceAdd (sample_row 1 1)) (0 + 1) [])" .
  have "length (ms_connections run3) \<le> 0 + 1" by code_simp
  from ReachStep [OF 3 StepCommit [OF this Inr_projr [OF run_ok(5)]], folded run4_def] show ?thesis .
qed

lemma change2_ok: "change_ok utf8_lex (ms_primaryKey run4) (ms_rows run4) (SourceAdd (sample_row 2 1))"
proof -
  have "bound_row_cmp utf8_lex (pk_sort [''id'']) (sample_row 1 1) (sample_row 2 1) \<noteq> 0" by code_simp
  then show ?thesis using run_rows sample_plain by simp
qed

lemma run5_reachable: "ms_reachable utf8_lex sample_str run5 (Pushing (SourceAdd (sample_row 2 1)) 0 [])"
proof -
  have "split_change (ms_connections run4) (SourceAdd (sample_row 2 1)) = [SourceAdd (sample_row 2 1)]"
    by (simp add: split_change_def)
  from ReachStep [OF run4_reachable StepBegin [OF change2_ok this Inr_projr [OF run_ok(6)]], folded run5_def]
  show ?thesis .
qed

lemma deliver2: "push_deliver 0 (SourceAdd (sample_row 2 1)) run5 = Inr ([(77, [CAdd (Node (sample_row 2 1) [])])], run6)"
proof -
  have "fst (projr (push_deliver 0 (SourceAdd (sample_row 2 1)) run5)) = [(77, [CAdd (Node (sample_row 2 1) [])])]"
    by (simp add: push_deliver_def Let_def run_connections)
  with Inr_snd_projr [OF run_ok(7)] show ?thesis unfolding run6_def by metis
qed

lemma run6_reachable: "ms_reachable utf8_lex sample_str run6 (Pushing (SourceAdd (sample_row 2 1)) 1 [])"
proof -
  have "0 < length (ms_connections run5)" by (simp add: run_connections)
  from ReachStep [OF run5_reachable StepDeliver [OF this deliver2]] show ?thesis by simp
qed

subsection \<open>The invariant\<close>

text \<open>C17: In every state a \<open>MemorySource\<close> reaches, in the middle of a push too and whatever is fetched,
  connected or disconnected between its steps, every index is a valid B+ tree in its own order with
  exactly the rows of the primary index, every index and connection order includes the primary key,
  no connection is ahead of the push epoch, only a change under way is overlaid, and no connection
  still to be pushed already sees it.\<close>

theorem memory_source_invariant:
  assumes "utf8_order u8" and "ms_reachable u8 str ms ph"
  shows "state_inv u8 str ms ph"
  by (rule utf8_order.reachable_state_inv [OF assms])

theorem memory_source_invariant_witness:
  "state_inv utf8_lex sample_str run6 (Pushing (SourceAdd (sample_row 2 1)) 1 [])"
  by (rule memory_source_invariant [OF bytes.utf8_order_axioms run6_reachable])

text \<open>C18: A \<open>MemorySource\<close> implements a set of rows: a step changes the rows exactly when it is the end of
  a push, and then by the change that was pushed; a fetch (which may build an index), connecting,
  disconnecting, setting an output and pushing to an output leave them as they are.\<close>

theorem memory_source_refines_rows:
  assumes "utf8_order u8" and "ms_reachable u8 str ms ph" and "ms_step u8 str (ms, ph) ev (ms', ph')"
  shows "ms_rows ms' = (case ev of EvCommit c \<Rightarrow> apply_source_change c (ms_rows ms) | _ \<Rightarrow> ms_rows ms)"
  using utf8_order.step_inv [OF assms(1) utf8_order.reachable_state_inv [OF assms(1,2)] assms(3)] by blast

theorem memory_source_refines_rows_witness: "ms_rows (projr (push_finish utf8_lex (SourceAdd (sample_row 2 1)) run6)) =
    {sample_row 1 1, sample_row 2 1}"
proof -
  have "\<not> isl (push_finish utf8_lex (SourceAdd (sample_row 2 1)) run6)" by code_simp
  moreover have "length (ms_connections run6) \<le> 1" by (simp add: run_connections)
  ultimately have "ms_step utf8_lex sample_str (run6, Pushing (SourceAdd (sample_row 2 1)) 1 [])
      (EvCommit (SourceAdd (sample_row 2 1))) (projr (push_finish utf8_lex (SourceAdd (sample_row 2 1)) run6), Idle)"
    by (intro StepCommit Inr_projr)
  from memory_source_refines_rows [OF bytes.utf8_order_axioms run6_reachable this] show ?thesis
    by (auto simp: run_rows)
qed

subsection \<open>Pushing\<close>

text \<open>C20: No assertion of a push fails. From a reachable state, a change that respects the contract can
  begin; each connection whose filter decides the change can be pushed; when all are done the change is
  written to every index (no delete misses its row), and the second half of a split edit can begin.\<close>

theorem push_never_fails:
  assumes "utf8_order u8" and "ms_reachable u8 str ms ph"
  shows "case ph of
      Idle \<Rightarrow> (\<forall>change. change_ok u8 (ms_primaryKey ms) (ms_rows ms) change \<longrightarrow>
        (\<exists>c later ms'. split_change (ms_connections ms) change = c # later \<and> push_begin u8 c ms = Inr ms'))
    | Pushing c i later \<Rightarrow>
        (i < length (ms_connections ms) \<and> decides_change (ms_connections ms ! i) c \<longrightarrow>
           (\<exists>evs ms'. push_deliver i c ms = Inr (evs, ms'))) \<and>
        (\<exists>ms'. push_finish u8 c ms = Inr ms' \<and>
           (\<forall>c' cs. later = c' # cs \<longrightarrow> (\<exists>ms2. push_begin u8 c' ms' = Inr ms2)))"
proof (cases ph)
  case Idle
  with utf8_order.begin_proceeds [OF assms(1)] utf8_order.reachable_state_inv [OF assms] show ?thesis by fastforce
next
  case (Pushing c i later)
  note inv = utf8_order.reachable_state_inv [OF assms, unfolded Pushing]
  from utf8_order.finish_proceeds [OF assms(1) inv] utf8_order.deliver_proceeds [OF assms(1), of ms i c]
  show ?thesis by (auto simp: Pushing)
qed

theorem push_never_fails_witness:
  "\<exists>evs ms'. push_deliver 0 (SourceAdd (sample_row 2 1)) run5 = Inr (evs, ms')"
proof -
  have "decides_change (ms_connections run5 ! 0) (SourceAdd (sample_row 2 1))"
    by (simp add: decides_change_def run_connections)
  with push_never_fails [OF bytes.utf8_order_axioms run5_reachable] show ?thesis by (simp add: run_connections)
qed

text \<open>C19: What is pushed to the output of a connection is exactly the change of what the connection sees:
  the pushes keep the contract of \<open>Output.push\<close> with respect to the rows that the connection shows (those
  of its filter, with the change only after it was pushed), and after them a consumer holds what the
  connection shows then. No other connection sees anything of the change.\<close>

theorem push_delivers_visible_change:
  assumes "utf8_order u8" and "ms_reachable u8 str ms (Pushing c i later)"
    and "i < length (ms_connections ms)" and "push_deliver i c ms = Inr (evs, ms')"
  shows "(case conn_output (ms_connections ms ! i) of
        None \<Rightarrow> evs = [] \<and> ms' = ms
      | Some out \<Rightarrow> \<exists>pushes. evs = [(out, pushes)] \<and> pushes_ok pushes (shown ms (ms_connections ms ! i)) \<and>
          apply_pushes pushes (shown ms (ms_connections ms ! i)) = shown ms' (ms_connections ms' ! i)) \<and>
    (\<forall>j < length (ms_connections ms). j \<noteq> i \<longrightarrow>
       shown ms' (ms_connections ms' ! j) = shown ms (ms_connections ms ! j))"
  using utf8_order.deliver_spec [OF assms(1) utf8_order.reachable_state_inv [OF assms(1,2)] assms(3,4)]
    utf8_order.deliver_others [OF assms(1) utf8_order.reachable_state_inv [OF assms(1,2)] assms(3,4)] by blast

theorem push_delivers_visible_change_witness:
  "pushes_ok [CAdd (Node (sample_row 2 1) [])] (shown run5 (ms_connections run5 ! 0)) \<and>
   insert (sample_row 2 1) (shown run5 (ms_connections run5 ! 0)) = shown run6 (ms_connections run6 ! 0)"
  using push_delivers_visible_change [OF bytes.utf8_order_axioms run5_reachable _ deliver2]
  by (simp add: run_connections)

text \<open>C21: A change becomes visible to a connection when it is pushed to it and not again when the push
  ends: at the end of a push every connection that was pushed sees what it saw before, the others see
  the new rows for the first time.\<close>

theorem push_commit_isolation:
  assumes "utf8_order u8" and "ms_reachable u8 str ms ph" and "ms_step u8 str (ms, ph) (EvCommit c) (ms', ph')"
    and "conn \<in> set (ms_connections ms)"
  shows "conn \<in> set (ms_connections ms') \<and> visible ms' conn = ms_rows ms' \<and>
    visible ms conn = (if conn_lastPushedEpoch conn = ms_pushEpoch ms then ms_rows ms' else ms_rows ms)"
  using utf8_order.commit_spec [OF assms(1) utf8_order.reachable_state_inv [OF assms(1,2)] assms(3)] assms(4) by simp

theorem push_commit_isolation_witness:
  "visible run6 (ms_connections run6 ! 0) = ms_rows (projr (push_finish utf8_lex (SourceAdd (sample_row 2 1)) run6))"
proof -
  have "\<not> isl (push_finish utf8_lex (SourceAdd (sample_row 2 1)) run6)" by code_simp
  moreover have "length (ms_connections run6) \<le> 1" by (simp add: run_connections)
  ultimately have "ms_step utf8_lex sample_str (run6, Pushing (SourceAdd (sample_row 2 1)) 1 [])
      (EvCommit (SourceAdd (sample_row 2 1))) (projr (push_finish utf8_lex (SourceAdd (sample_row 2 1)) run6), Idle)"
    by (intro StepCommit Inr_projr)
  moreover have "ms_connections run6 ! 0 \<in> set (ms_connections run6)" by (rule nth_mem) (simp add: run_connections)
  moreover have "conn_lastPushedEpoch (ms_connections run6 ! 0) = ms_pushEpoch run6" by code_simp
  ultimately show ?thesis
    using push_commit_isolation [OF bytes.utf8_order_axioms run6_reachable] by (metis (no_types, lifting))
qed

text \<open>C22: A push that nothing interrupts returns: in an idle reachable state, a change that respects the
  contract and that every filter decides is pushed to the outputs in the order of the connections, an
  edit that changes a split key as a remove and an add, and afterwards the source is idle and reachable
  again with the changed rows.\<close>

theorem push_returns:
  assumes "utf8_order u8" and "ms_reachable u8 str ms Idle"
    and "change_ok u8 (ms_primaryKey ms) (ms_rows ms) change"
    and "\<forall>d \<in> set (split_change (ms_connections ms) change). \<forall>conn \<in> set (ms_connections ms). decides_change conn d"
  shows "\<exists>ms'. push u8 change ms = Inr (concat (map (\<lambda>d. concat (map (conn_events d) (ms_connections ms)))
      (split_change (ms_connections ms) change)), ms') \<and>
    ms_reachable u8 str ms' Idle \<and> ms_rows ms' = apply_source_change change (ms_rows ms)"
  by (rule utf8_order.push_spec [OF assms])

theorem push_returns_witness:
  "\<exists>ms'. push utf8_lex (SourceAdd (sample_row 2 1)) run4 = Inr ([(77, [CAdd (Node (sample_row 2 1) [])])], ms') \<and>
     ms_rows ms' = {sample_row 1 1, sample_row 2 1}"
proof -
  have "\<forall>d \<in> set (split_change (ms_connections run4) (SourceAdd (sample_row 2 1))).
      \<forall>conn \<in> set (ms_connections run4). decides_change conn d"
    by (simp add: split_change_def run_connections decides_change_def)
  from push_returns [OF bytes.utf8_order_axioms run4_reachable change2_ok this] show ?thesis
    by (auto simp: split_change_def run_connections conn_events_def run_rows insert_commute)
qed

end
