(* ===== verification/MemoryFetchClaims.thy ===== *)
theory MemoryFetchClaims
  imports MemorySourceClaims
begin

section \<open>The claims about fetching from the in-memory source\<close>

text \<open>
  A fetch in a reachable state, also in the middle of a push, returns what its connection sees:
  \<open>fetch_correct\<close> without, \<open>fetchMulti_correct\<close> with multi-row constraints. Of an edit that is being pushed to a
  connection pinned to a primary key, \<open>request_ok\<close> excludes two kinds of request: those for a constraint that tells the old row from the
  new (\<open>constrained_fetch_loses_row\<close> shows what goes wrong), and those that start after a row.
\<close>

definition sample_request :: fetch_request where
  "sample_request = \<lparr>req_constraint = None, req_multi = None, req_start = Some (sample_row 2 1, At), req_reverse = True\<rparr>"

definition multi_request :: fetch_request where
  "multi_request = \<lparr>req_constraint = None, req_multi = Some [[[(''foo'', JNum 1)], [(''foo'', JNum 2)]]],
     req_start = None, req_reverse = False\<rparr>"

lemma run6_visible: "visible run6 (ms_connections run6 ! 0) = {sample_row 1 1, sample_row 2 1}"
  using visible_cases(3) [OF run6_overlay, of "ms_connections run6 ! 0"] by (auto simp: run_connections run_rows)

lemma run6_pending: "pending run6 (ms_connections run6 ! 0) = Some (SourceAdd (sample_row 2 1))"
  by (simp add: pending_def overlay_to_apply_def run6_overlay run_connections)

lemma run6_request_ok:
  assumes "req_start req = None \<or> (\<exists>s b. req_start req = Some (s, b) \<and> plain_row s)"
    "case req_constraint req of None \<Rightarrow> True | Some c \<Rightarrow> distinct (map fst c)"
  shows "request_ok run6 (ms_connections run6 ! 0) req"
  using assms run6_pending by (auto simp: request_ok_def run_rows run_connections)

text \<open>C1: In every reachable state, in the middle of a push too, a fetch on a connection returns, strictly
  sorted in the connection's order (reversed if asked), exactly the rows that the connection sees which
  match the constraint and the filter and are at or after the start; it does not fail and leaves the
  rows of the source unchanged, whatever index it scans or builds. While an edit is being pushed to a connection
  pinned to a primary key, the constraint must not tell the old row from the new and the start must not be after a row (\<open>request_ok\<close>).\<close>

theorem fetch_correct:
  assumes "utf8_order u8" and "ms_reachable u8 str ms ph" and "conn \<in> set (ms_connections ms)"
    and "request_ok ms conn req" and "req_multi req = None"
  shows "\<exists>out ms'. fetch u8 req conn ms = Inr (map Item (map (\<lambda>r. Node r []) out), ms') \<and>
    sorted_cmp (rev_cmp (req_reverse req) (conn_compareRows u8 conn)) out \<and>
    set out = {x \<in> visible ms conn. wanted (rev_cmp (req_reverse req) (conn_compareRows u8 conn)) req conn x} \<and>
    ms_rows ms' = ms_rows ms"
proof -
  note inv = utf8_order.reachable_state_inv [OF assms(1,2)]
  then have "ms_inv u8 ms" by (simp add: state_inv_def)
  from utf8_order.fetch_one_spec [OF assms(1) this utf8_order.request_fetch_pre [OF assms(1) inv assms(3,4)]]
  show ?thesis by (auto simp: fetch_def assms(5))
qed

theorem fetch_correct_witness:
  "\<exists>out ms'. fetch utf8_lex sample_request (ms_connections run6 ! 0) run6 =
     Inr (map Item (map (\<lambda>r. Node r []) out), ms') \<and> set out = {sample_row 2 1}"
proof -
  let ?conn = "ms_connections run6 ! 0" and ?cmp = "rev_cmp (req_reverse sample_request) (conn_compareRows utf8_lex (ms_connections run6 ! 0))"
  have conn: "?conn \<in> set (ms_connections run6)" by (simp add: run_connections)
  have ok: "request_ok run6 ?conn sample_request" by (rule run6_request_ok) (simp_all add: sample_request_def sample_plain)
  have "req_multi sample_request = None" by (simp add: sample_request_def)
  moreover have "?cmp (sample_row 1 1) (sample_row 2 1) < 0" "?cmp (sample_row 2 1) (sample_row 2 1) = 0" by code_simp+
  then have "{x \<in> visible run6 ?conn. wanted ?cmp sample_request ?conn x} = {sample_row 2 1}"
    unfolding run6_visible by (auto simp: wanted_def matches_def after_start_def passes_def start_reached_def run_connections sample_request_def)
  ultimately show ?thesis
    using fetch_correct [OF bytes.utf8_order_axioms run6_reachable conn ok] by auto
qed

text \<open>C23: The same for a fetch with multi-row constraints whose entries keep their contract (the first
  non-empty one with the same columns in all entries, pairwise different and compatible with the
  constraint of the request): the merge of the fetches of the entries, filtered by the others, returns
  every visible row that matches an entry of each multi-row constraint, once and in order.\<close>

theorem fetchMulti_correct:
  assumes "utf8_order u8" and "ms_reachable u8 str ms ph" and "conn \<in> set (ms_connections ms)"
    and "req_multi req = Some multi" and "filter (\<lambda>mc. 0 < length mc) multi = primary # others"
    and "multi_ok (req_constraint req) primary"
    and "\<forall>c \<in> set primary. request_ok ms conn (sub_request req c)"
  shows "\<exists>out ms'. fetch u8 req conn ms = Inr (map Item (map (\<lambda>r. Node r []) out), ms') \<and>
    sorted_cmp (rev_cmp (req_reverse req) (conn_compareRows u8 conn)) out \<and>
    set out = {x \<in> visible ms conn. wanted (rev_cmp (req_reverse req) (conn_compareRows u8 conn)) req conn x \<and>
      matches_all (primary # others) x} \<and>
    ms_rows ms' = ms_rows ms"
proof -
  note inv = utf8_order.reachable_state_inv [OF assms(1,2)]
  then have ms: "ms_inv u8 ms" by (simp add: state_inv_def)
  have "\<forall>c \<in> set primary. fetch_pre u8 str ms conn (sub_request req c)"
    using utf8_order.request_fetch_pre [OF assms(1) inv assms(3)] assms(7) by blast
  note spec = utf8_order.fetch_multi_spec [OF assms(1) ms assms(5,6) this]
  have "list_ex (\<lambda>mc. 0 < length mc) multi"
    unfolding list_ex_iff using assms(5) by (metis (lifting) filter_False list.distinct(1))
  with spec show ?thesis unfolding assms(5) by (auto simp: fetch_def assms(4))
qed

theorem fetchMulti_correct_witness:
  "\<exists>out ms'. fetch utf8_lex multi_request (ms_connections run6 ! 0) run6 =
     Inr (map Item (map (\<lambda>r. Node r []) out), ms') \<and> set out = {sample_row 1 1, sample_row 2 1}"
proof -
  let ?conn = "ms_connections run6 ! 0" and ?cmp = "rev_cmp (req_reverse multi_request) (conn_compareRows utf8_lex (ms_connections run6 ! 0))"
  let ?mc = "[[(''foo'', JNum 1)], [(''foo'', JNum 2)]]"
  have conn: "?conn \<in> set (ms_connections run6)" by (simp add: run_connections)
  have multi: "req_multi multi_request = Some [?mc]" by (simp add: multi_request_def)
  have ne: "filter (\<lambda>mc. 0 < length mc) [?mc] = ?mc # []" by simp
  have ok: "multi_ok (req_constraint multi_request) ?mc"
    by (auto simp: multi_ok_def entry_ok_def multi_request_def)
  have req: "\<forall>c \<in> set ?mc. request_ok run6 ?conn (sub_request multi_request c)"
    by (auto intro!: run6_request_ok simp: sub_request_def merged_def multi_request_def)
  have "{x \<in> visible run6 ?conn. wanted ?cmp multi_request ?conn x \<and> matches_all [?mc] x} = {sample_row 1 1, sample_row 2 1}"
    unfolding run6_visible by (auto simp: wanted_def matches_def after_start_def passes_def run_connections multi_request_def
      matches_all_def constraintMatchesRow_iff sample_row_def get_field_def valuesEqual_iff normalizeUndefined_def)
  with fetchMulti_correct [OF bytes.utf8_order_axioms run6_reachable conn multi ne ok req] show ?thesis by auto
qed

subsection \<open>A constrained fetch that loses a row\<close>

definition pinned_filter :: condition where
  "pinned_filter = Simple OpEq (PColumn ''id'') (PLiteral (LScalar (JNum 4)))"

definition lost_change :: source_change where
  "lost_change = SourceEdit (sample_row 4 0) (sample_row 4 1)"

definition lost_source :: memory_source where
  "lost_source = snd (projr (push_deliver 0 lost_change (projr (push_begin utf8_lex lost_change
     (setOutput 0 77 (snd (projr (connect utf8_lex sample_str
       (snd (projr (push utf8_lex (SourceAdd (sample_row 4 1)) run0)))
       (Some [(''id'', Desc)]) (Some pinned_filter) None))))))))"

definition rows_of :: "(node item list \<times> memory_source) result \<Rightarrow> row list" where
  "rows_of r = map node_row (skipYields (fst (projr r)))"

text \<open>A fetch by a connection whose filter pins the primary key can lose a row in the middle of a
  push: with the filter \<open>id = 4\<close>, while an edit of that row from \<open>foo = 1\<close> to \<open>foo = 0\<close> is being pushed, the
  connection sees the new row, but a fetch of it constrained to \<open>foo = 0\<close> returns nothing, since the
  scan stops at the old row, which is still in the index and does not match the constraint.\<close>

theorem constrained_fetch_loses_row:
  "rows_of (fetch utf8_lex (sample_request\<lparr>req_start := None\<rparr>)
     (ms_connections lost_source ! 0) lost_source) = [sample_row 4 0] \<and>
   rows_of (fetch utf8_lex (sample_request\<lparr>req_start := None, req_constraint := Some [(''foo'', JNum 0)]\<rparr>)
     (ms_connections lost_source ! 0) lost_source) = [] \<and>
   constraintMatchesRow [(''foo'', JNum 0)] (sample_row 4 0)"
  by code_simp

end
