(* ===== verification/Operators.thy ===== *)
theory Operators
  imports FetchStages
begin

section \<open>The interface between operators, and Skip (zql/src/ivm: operator.ts, skip.ts)\<close>

text \<open>
  An operator of a pipeline reads its input through \<open>fetch\<close> and is told of changes through \<open>push\<close>. The
  locale \<open>pipeline_input\<close> is the contract of \<open>Input.fetch\<close>: for a request in \<open>ok\<close> it returns, in the order
  of the schema, exactly the rows of the input that match the constraint and are at or after the start.
  \<open>Skip\<close> turns an input that keeps the contract into one that does, for the rows from its bound on.
\<close>

subsection \<open>The contract of an input\<close>

definition requested :: "row cmp \<Rightarrow> fetch_request \<Rightarrow> row \<Rightarrow> bool" where
  "requested cmp req r \<longleftrightarrow> matches (req_constraint req) r \<and> after_start (rev_cmp (req_reverse req) cmp) (req_start req) r"

definition rows_of_items :: "node item list \<Rightarrow> row list" where
  "rows_of_items items = map node_row (skipYields items)"

lemma rows_of_items_simps [simp]:
  "rows_of_items [] = []" "rows_of_items (Yield # items) = rows_of_items items"
  "rows_of_items (Item n # items) = node_row n # rows_of_items items"
  by (simp_all add: rows_of_items_def)

locale pipeline_input = comparator cmp for cmp :: "row cmp" +
  fixes input :: "fetch_request \<Rightarrow> node item list result"
    and rows :: "row set"
    and ok :: "fetch_request \<Rightarrow> bool"
  assumes fetch_rows: "ok req \<Longrightarrow> \<exists>items. input req = Inr items \<and>
    sorted_cmp (rev_cmp (req_reverse req) cmp) (rows_of_items items) \<and>
    set (rows_of_items items) = {r \<in> rows. requested cmp req r}"
begin

lemma fetch_obtain:
  assumes "ok req"
  obtains items where "input req = Inr items" "sorted_cmp (rev_cmp (req_reverse req) cmp) (rows_of_items items)"
    "set (rows_of_items items) = {r \<in> rows. requested cmp req r}"
  using fetch_rows [OF assms] by blast

end

subsection \<open>Skip\<close>

record skip_bound =
  bound_row :: row
  bound_exclusive :: bool

definition new_skip :: "ordering option \<Rightarrow> skip_bound \<Rightarrow> skip_bound result" where
  "new_skip srt b = (case srt of None \<Rightarrow> Inl (AssertionFailed ''Skip requires sorted input'') | Some _ \<Rightarrow> Inr b)"

definition shouldBePresent :: "row cmp \<Rightarrow> skip_bound \<Rightarrow> row \<Rightarrow> bool" where
  "shouldBePresent compare b r =
     (let c = compare (bound_row b) r in c < 0 \<or> (c = 0 \<and> \<not> bound_exclusive b))"

datatype skip_start = Empty | StartAt "start option"

definition bound_start :: "skip_bound \<Rightarrow> start" where
  "bound_start b = (bound_row b, if bound_exclusive b then After else At)"

definition getStart :: "row cmp \<Rightarrow> skip_bound \<Rightarrow> fetch_request \<Rightarrow> skip_start" where
  "getStart compare b req = (case req_start req of
     None \<Rightarrow> if req_reverse req then StartAt None else StartAt (Some (bound_start b))
   | Some start \<Rightarrow>
       (let c = compare (bound_row b) (fst start) in
        if \<not> req_reverse req then
          if 0 < c then StartAt (Some (bound_start b))
          else if c = 0 then
            (if bound_exclusive b \<or> snd start = After then StartAt (Some (bound_row b, After))
             else StartAt (Some (bound_start b)))
          else StartAt (Some start)
        else
          if 0 < c then Empty
          else if c = 0 then
            (if \<not> bound_exclusive b \<and> snd start = At then StartAt (Some (bound_start b)) else Empty)
          else StartAt (Some start)))"

fun while_present :: "(row \<Rightarrow> bool) \<Rightarrow> node item list \<Rightarrow> node item list" where
  "while_present P [] = []"
| "while_present P (Yield # nodes) = Yield # while_present P nodes"
| "while_present P (Item node # nodes) = (if \<not> P (node_row node) then [] else Item node # while_present P nodes)"

definition skip_fetch ::
    "row cmp \<Rightarrow> skip_bound \<Rightarrow> (fetch_request \<Rightarrow> node item list result) \<Rightarrow> fetch_request \<Rightarrow> node item list result" where
  "skip_fetch compare b input req = (case getStart compare b req of
     Empty \<Rightarrow> Inr []
   | StartAt start \<Rightarrow> bind_result (input (req\<lparr>req_start := start\<rparr>)) (\<lambda>nodes.
       Inr (if \<not> req_reverse req then nodes else while_present (shouldBePresent compare b) nodes)))"

fun skip_push :: "row cmp \<Rightarrow> skip_bound \<Rightarrow> change \<Rightarrow> change list result" where
  "skip_push compare b (CEdit node oldNode) =
     maybeSplitAndPushEditChange node oldNode (\<lambda>r. Inr (shouldBePresent compare b r))"
| "skip_push compare b (CAdd node) = Inr (if shouldBePresent compare b (node_row node) then [CAdd node] else [])"
| "skip_push compare b (CRemove node) = Inr (if shouldBePresent compare b (node_row node) then [CRemove node] else [])"
| "skip_push compare b (CChild node rel c) =
     Inr (if shouldBePresent compare b (node_row node) then [CChild node rel c] else [])"

lemma skip_push_filter: "skip_push compare b c = filterPush c (Some (\<lambda>r. Inr (shouldBePresent compare b r)))"
  by (cases c) simp_all

text \<open>A request whose start is replaced by the bound, or dropped, must still be one the input answers.\<close>

locale skip_input = pipeline_input +
  fixes b :: skip_bound
  assumes ok_bound: "ok req \<Longrightarrow> ok (req\<lparr>req_start := Some (bound_row b, basis)\<rparr>)"
    and ok_none: "ok req \<Longrightarrow> ok (req\<lparr>req_start := None\<rparr>)"
begin

abbreviation present :: "row \<Rightarrow> bool" where
  "present \<equiv> shouldBePresent cmp b"

lemma while_present_rows: "rows_of_items (while_present P items) = takeWhile P (rows_of_items items)"
  by (induction P items rule: while_present.induct) (auto simp: rows_of_items_def)

lemma present_up: "present r \<Longrightarrow> cmp r s \<le> 0 \<Longrightarrow> present s"
  unfolding shouldBePresent_def Let_def
  by (metis cmp_less_le_trans cmp_trans le_less order_refl)

lemma takeWhile_present:
  "sorted_cmp (\<lambda>x y. cmp y x) rs \<Longrightarrow> takeWhile present rs = filter present rs"
proof (induction rs)
  case (Cons r rs)
  show ?case
  proof (cases "present r")
    case True
    with Cons show ?thesis by (simp add: sorted_rules)
  next
    case False
    have "\<not> present s" if "s \<in> set rs" for s
      using False present_up [of s r] Cons.prems that by (auto simp: sorted_rules)
    with False show ?thesis by (simp add: filter_empty_conv)
  qed
qed simp

lemma present_start: "present r \<longleftrightarrow> start_reached cmp (bound_start b) r"
  unfolding shouldBePresent_def start_reached_def bound_start_def Let_def
  using cmp_anti [of "bound_row b" r] cmp_zero_sym [of "bound_row b" r] by (auto simp: le_less)

lemma reached_mono:
  assumes "start_reached cmp (s, basis) r" "cmp t s < 0 \<or> (cmp t s = 0 \<and> (basis = After \<or> basis' = At))"
  shows "start_reached cmp (t, basis') r"
  using assms cmp_less_le_trans [of t s r] cmp_trans [of t s r] cmp_le_less_trans [of t s r]
  by (auto simp: start_reached_def cmp_pos cmp_le_sym [symmetric] less_imp_le split: if_splits)

lemma start_present:
  assumes "getStart cmp b req = StartAt start" "\<not> req_reverse req"
  shows "after_start cmp start r \<longleftrightarrow> present r \<and> after_start cmp (req_start req) r"
proof (cases "req_start req")
  case None
  with assms show ?thesis by (auto simp: getStart_def after_start_def present_start)
next
  case (Some st)
  obtain s basis where st: "st = (s, basis)" by (cases st)
  consider "0 < cmp (bound_row b) s" | "cmp (bound_row b) s = 0" | "cmp (bound_row b) s < 0" by linarith
  then show ?thesis
  proof cases
    case 1
    have "present r \<Longrightarrow> start_reached cmp (s, basis) r"
      unfolding present_start bound_start_def by (rule reached_mono [rotated]) (use 1 in \<open>auto simp: cmp_pos\<close>)
    with 1 assms show ?thesis by (auto simp: getStart_def Some st after_start_def present_start)
  next
    case 2
    then have "cmp s (bound_row b) = 0" by (simp add: cmp_zero_sym)
    with 2 assms show ?thesis
      using reached_mono [of s basis r "bound_row b"] reached_mono [of "bound_row b" _ r s]
      by (cases basis; cases "bound_exclusive b")
        (auto simp: getStart_def Some st after_start_def present_start bound_start_def)
  next
    case 3
    have "start_reached cmp (s, basis) r \<Longrightarrow> present r"
      unfolding present_start bound_start_def by (rule reached_mono [rotated]) (use 3 in auto)
    with 3 assms show ?thesis by (auto simp: getStart_def Some st after_start_def)
  qed
qed

lemma start_reverse:
  assumes "req_reverse req"
  shows "case getStart cmp b req of
      Empty \<Rightarrow> \<not> (present r \<and> after_start (\<lambda>x y. cmp y x) (req_start req) r)
    | StartAt start \<Rightarrow> present r \<longrightarrow>
        (after_start (\<lambda>x y. cmp y x) start r \<longleftrightarrow> after_start (\<lambda>x y. cmp y x) (req_start req) r)"
proof (cases "req_start req")
  case None
  with assms show ?thesis by (simp add: getStart_def after_start_def)
next
  case (Some st)
  obtain s basis where st: "st = (s, basis)" by (cases st)
  have rev: "comparator (\<lambda>x y. cmp y x)" by (rule comparator_reversed)
  consider "0 < cmp (bound_row b) s" | "cmp (bound_row b) s = 0" | "cmp (bound_row b) s < 0" by linarith
  then show ?thesis
  proof cases
    case 1
    have "\<not> (present r \<and> start_reached (\<lambda>x y. cmp y x) (s, basis) r)"
    proof
      assume "present r \<and> start_reached (\<lambda>x y. cmp y x) (s, basis) r"
      then have "cmp (bound_row b) r \<le> 0" "cmp r s \<le> 0"
        using cmp_le_sym [of r s] by (auto simp: shouldBePresent_def Let_def start_reached_def split: if_splits)
      from cmp_trans [OF this] 1 show False by simp
    qed
    with 1 assms show ?thesis by (simp add: getStart_def Some st after_start_def)
  next
    case 2
    have bs: "cmp s r = cmp s r" by simp
    have eq: "cmp (bound_row b) r < 0 \<longleftrightarrow> cmp s r < 0" "0 < cmp (bound_row b) r \<longleftrightarrow> 0 < cmp s r"
      using 2 by (metis cmp_eq_less cmp_zero_sym, metis cmp_less_eq cmp_pos)
    with 2 assms show ?thesis
      by (auto simp: getStart_def Some st after_start_def shouldBePresent_def start_reached_def bound_start_def Let_def
          split: if_splits)
  next
    case 3
    with assms show ?thesis by (simp add: getStart_def Some st after_start_def)
  qed
qed

text \<open>\<open>Skip\<close> is again an input, of the rows from the bound on.\<close>

lemma getStart_ok:
  assumes "ok req" "getStart cmp b req = StartAt start"
  shows "ok (req\<lparr>req_start := start\<rparr>)"
proof -
  consider "start = None" | basis where "start = Some (bound_row b, basis)" | "start = req_start req"
    using assms(2) by (auto simp: getStart_def bound_start_def Let_def split: option.splits if_splits)
  then show ?thesis using assms(1) ok_bound ok_none by cases auto
qed

lemma skip_fetch_rows:
  assumes req: "ok req"
  shows "\<exists>items. skip_fetch cmp b input req = Inr items \<and>
    sorted_cmp (rev_cmp (req_reverse req) cmp) (rows_of_items items) \<and>
    set (rows_of_items items) = {r \<in> {r \<in> rows. present r}. requested cmp req r}"
proof (cases "getStart cmp b req")
  case Empty
  then have rev: "req_reverse req" by (auto simp: getStart_def Let_def split: option.splits if_splits)
  have "{r \<in> {r \<in> rows. present r}. requested cmp req r} = {}"
    using start_reverse [OF rev] Empty rev by (auto simp: requested_def)
  with Empty show ?thesis by (simp add: skip_fetch_def rows_of_items_def)
next
  case (StartAt start)
  obtain items where items: "input (req\<lparr>req_start := start\<rparr>) = Inr items"
    "sorted_cmp (rev_cmp (req_reverse req) cmp) (rows_of_items items)"
    "set (rows_of_items items) = {r \<in> rows. requested cmp (req\<lparr>req_start := start\<rparr>) r}"
    by (rule fetch_obtain [OF getStart_ok [OF req StartAt]]) simp
  show ?thesis
  proof (cases "req_reverse req")
    case False
    have "{r \<in> rows. requested cmp (req\<lparr>req_start := start\<rparr>) r} = {r \<in> {r \<in> rows. present r}. requested cmp req r}"
      using start_present [OF StartAt False] False by (auto simp: requested_def)
    with items StartAt False show ?thesis by (simp add: skip_fetch_def)
  next
    case True
    have rs: "rows_of_items (while_present present items) = filter present (rows_of_items items)"
      using takeWhile_present items(2) True by (simp add: while_present_rows)
    have "{r \<in> {r \<in> rows. requested cmp (req\<lparr>req_start := start\<rparr>) r}. present r} =
        {r \<in> {r \<in> rows. present r}. requested cmp req r}"
      using start_reverse [OF True] StartAt True by (auto simp: requested_def)
    then show ?thesis
      using items sorted_cmp_filter [OF items(2)] StartAt True by (simp add: skip_fetch_def rs)
  qed
qed

end

sublocale skip_input \<subseteq> out: pipeline_input cmp "skip_fetch cmp b input" "{r \<in> rows. present r}" ok
  by unfold_locales (rule skip_fetch_rows)

end
