(* ===== verification/Take.thy ===== *)
theory Take
  imports Operators
begin

section \<open>Take: limit queries (zql/src/ivm/take.ts)\<close>

text \<open>
  \<open>Take\<close> lets the first \<open>limit\<close> rows of its input pass, of each partition when it has a partition key. It
  stores per partition how many rows it has taken and the last of them (the bound), and the greatest of
  the bounds. \<open>tk_hidden\<close> is the field \<open>#rowHiddenFromFetch\<close>. A push gives the changes pushed to the
  output, each with the state of the operator at that time, which a fetch by the output would see; the
  markers \<open>'yield'\<close> of the input's streams are dropped from pushes. \<open>input\<close> is the input's fetch, which
  already reflects the change being pushed. \<open>JSON.stringify\<close> of the values of a partition is modelled by
  the list of the values, with undefined as null.
\<close>

record take_state =
  ts_size :: int
  ts_bound :: "row option"

type_synonym take_key = "js_value list"

record take_storage =
  tk_states :: "(take_key \<times> take_state) list"
  tk_maxBound :: "row option"
  tk_hidden :: "row option"

record take_conf =
  tc_limit :: int
  tc_partition :: "string list option"
  tc_compare :: "row cmp"

type_synonym input_fetch = "fetch_request \<Rightarrow> node item list result"
type_synonym take_events = "(change \<times> take_storage) list"

definition getTakeStateKey :: "string list option \<Rightarrow> row option \<Rightarrow> take_key" where
  "getTakeStateKey partitionKey rowOrConstraint = (case (partitionKey, rowOrConstraint) of
     (Some keys, Some r) \<Rightarrow> map (\<lambda>key. normalizeUndefined (get_field r key)) keys
   | _ \<Rightarrow> [])"

definition constraintMatchesPartitionKey :: "constraint option \<Rightarrow> string list option \<Rightarrow> bool" where
  "constraintMatchesPartitionKey constraint partitionKey = (case (constraint, partitionKey) of
     (Some c, Some keys) \<Rightarrow> length keys = length c \<and> list_all (\<lambda>key. has_key c key) keys
   | (None, None) \<Rightarrow> True
   | _ \<Rightarrow> False)"

fun makePartitionKeyComparator :: "utf8 \<Rightarrow> string list \<Rightarrow> row \<Rightarrow> row \<Rightarrow> number result" where
  "makePartitionKeyComparator u8 [] a b = Inr 0"
| "makePartitionKeyComparator u8 (key # keys) a b =
     bind_result (compareValues u8 (get_field a key) (get_field b key)) (\<lambda>cmp.
       if cmp \<noteq> 0 then Inr cmp else makePartitionKeyComparator u8 keys a b)"

definition new_take :: "ordering option \<Rightarrow> string list \<Rightarrow> int \<Rightarrow> take_storage result" where
  "new_take srt primaryKey limit =
     (if limit < 0 then Inl (AssertionFailed ''Limit must be non-negative'')
      else case srt of
        None \<Rightarrow> Inl (AssertionFailed ''Take requires sorted input'')
      | Some s \<Rightarrow> bind_result (assertOrderingIncludesPK s primaryKey) (\<lambda>_.
          Inr \<lparr>tk_states = [], tk_maxBound = None, tk_hidden = None\<rparr>))"

definition setTakeState ::
    "take_conf \<Rightarrow> take_key \<Rightarrow> int \<Rightarrow> row option \<Rightarrow> row option \<Rightarrow> take_storage \<Rightarrow> take_storage" where
  "setTakeState conf takeStateKey n bound maxBound st =
     (let st' = st\<lparr>tk_states := AList.update takeStateKey \<lparr>ts_size = n, ts_bound = bound\<rparr> (tk_states st)\<rparr>
      in case bound of
           None \<Rightarrow> st'
         | Some b \<Rightarrow>
             if (case maxBound of None \<Rightarrow> True | Some m \<Rightarrow> 0 < tc_compare conf b m) then st'\<lparr>tk_maxBound := Some b\<rparr>
             else st')"

subsection \<open>Fetch\<close>

fun upto_bound :: "row cmp \<Rightarrow> row \<Rightarrow> row option \<Rightarrow> node item list \<Rightarrow> node item list" where
  "upto_bound compare bound hidden [] = []"
| "upto_bound compare bound hidden (Yield # nodes) = Yield # upto_bound compare bound hidden nodes"
| "upto_bound compare bound hidden (Item n # nodes) =
     (if compare bound (node_row n) < 0 then []
      else if (case hidden of None \<Rightarrow> False | Some h \<Rightarrow> compare h (node_row n) = 0)
      then upto_bound compare bound hidden nodes
      else Item n # upto_bound compare bound hidden nodes)"

fun upto_maxBound :: "take_conf \<Rightarrow> take_storage \<Rightarrow> row \<Rightarrow> node item list \<Rightarrow> node item list" where
  "upto_maxBound conf st maxBound [] = []"
| "upto_maxBound conf st maxBound (Yield # nodes) = Yield # upto_maxBound conf st maxBound nodes"
| "upto_maxBound conf st maxBound (Item n # nodes) =
     (if 0 < tc_compare conf (node_row n) maxBound then []
      else
        (let takeState = map_of (tk_states st) (getTakeStateKey (tc_partition conf) (Some (node_row n)));
             rest = upto_maxBound conf st maxBound nodes
         in if (case takeState of None \<Rightarrow> False | Some ts \<Rightarrow>
                 (case ts_bound ts of None \<Rightarrow> False | Some b \<Rightarrow> 0 \<le> tc_compare conf b (node_row n)))
            then Item n # rest else rest))"

fun initial_loop :: "int \<Rightarrow> node item list \<Rightarrow> int \<Rightarrow> row option \<Rightarrow> node item list \<times> int \<times> row option" where
  "initial_loop limit [] n bound = ([], n, bound)"
| "initial_loop limit (Yield # nodes) n bound =
     (case initial_loop limit nodes n bound of (out, r) \<Rightarrow> (Yield # out, r))"
| "initial_loop limit (Item nd # nodes) n bound =
     (let n' = n + 1; bound' = Some (node_row nd) in
      if n' = limit then ([Item nd], n', bound')
      else (case initial_loop limit nodes n' bound' of (out, r) \<Rightarrow> (Item nd # out, r)))"

definition initialFetch ::
    "take_conf \<Rightarrow> input_fetch \<Rightarrow> fetch_request \<Rightarrow> take_storage \<Rightarrow> (node item list \<times> take_storage) result" where
  "initialFetch conf input req st =
     (if req_start req \<noteq> None then Inl (AssertionFailed ''Start should be undefined'')
      else if req_reverse req then Inl (AssertionFailed ''Reverse should be false'')
      else if tc_limit conf = 0 then Inr ([], st)
      else if \<not> constraintMatchesPartitionKey (req_constraint req) (tc_partition conf)
      then Inl (AssertionFailed ''Constraint should match partition key'')
      else
        (let takeStateKey = getTakeStateKey (tc_partition conf) (req_constraint req) in
         if map_of (tk_states st) takeStateKey \<noteq> None then Inl (AssertionFailed ''Take state should be undefined'')
         else bind_result (input req) (\<lambda>nodes.
           (case initial_loop (tc_limit conf) nodes 0 None of (out, n, bound) \<Rightarrow>
              Inr (out, setTakeState conf takeStateKey n bound (tk_maxBound st) st)))))"

definition take_fetch ::
    "take_conf \<Rightarrow> input_fetch \<Rightarrow> fetch_request \<Rightarrow> take_storage \<Rightarrow> (node item list \<times> take_storage) result" where
  "take_fetch conf input req st =
     (if tc_partition conf = None \<or>
         (req_constraint req \<noteq> None \<and> constraintMatchesPartitionKey (req_constraint req) (tc_partition conf))
      then (case map_of (tk_states st) (getTakeStateKey (tc_partition conf) (req_constraint req)) of
              None \<Rightarrow> initialFetch conf input req st
            | Some takeState \<Rightarrow>
                (case ts_bound takeState of
                   None \<Rightarrow> Inr ([], st)
                 | Some bound \<Rightarrow> bind_result (input req) (\<lambda>nodes.
                     Inr (upto_bound (tc_compare conf) bound (tk_hidden st) nodes, st))))
      else (case tk_maxBound st of
              None \<Rightarrow> Inr ([], st)
            | Some maxBound \<Rightarrow> bind_result (input req) (\<lambda>nodes. Inr (upto_maxBound conf st maxBound nodes, st))))"

subsection \<open>Push\<close>

definition getStateAndConstraint ::
    "take_conf \<Rightarrow> row \<Rightarrow> take_storage \<Rightarrow> take_state option \<times> take_key \<times> row option \<times> constraint option" where
  "getStateAndConstraint conf r st =
     (let takeStateKey = getTakeStateKey (tc_partition conf) (Some r) in
      case map_of (tk_states st) takeStateKey of
        None \<Rightarrow> (None, takeStateKey, None, None)
      | Some takeState \<Rightarrow> (Some takeState, takeStateKey, tk_maxBound st,
          map_option (map (\<lambda>key. (key, get_field r key))) (tc_partition conf)))"

definition take_req :: "row \<Rightarrow> basis \<Rightarrow> constraint option \<Rightarrow> bool \<Rightarrow> fetch_request" where
  "take_req r b constraint reverse =
     \<lparr>req_constraint = constraint, req_multi = None, req_start = Some (r, b), req_reverse = reverse\<rparr>"

definition nth_node :: "nat \<Rightarrow> node item list \<Rightarrow> node option" where
  "nth_node i items = (let nodes = skipYields items in if i < length nodes then Some (nodes ! i) else None)"

definition found :: "string \<Rightarrow> node option \<Rightarrow> node result" where
  "found message nd = (case nd of None \<Rightarrow> Inl (AssertionFailed message) | Some n \<Rightarrow> Inr n)"

definition pushWithRowHiddenFromFetch :: "row \<Rightarrow> change \<Rightarrow> take_storage \<Rightarrow> take_events \<times> take_storage" where
  "pushWithRowHiddenFromFetch r change st = ([(change, st\<lparr>tk_hidden := Some r\<rparr>)], st\<lparr>tk_hidden := None\<rparr>)"

text \<open>\<open>push\<close> of an add whose partition has a state.\<close>

definition take_push_add ::
    "take_conf \<Rightarrow> input_fetch \<Rightarrow> node \<Rightarrow> take_state \<Rightarrow> take_key \<Rightarrow> row option \<Rightarrow> constraint option \<Rightarrow> take_storage \<Rightarrow>
     (take_events \<times> take_storage) result" where
  "take_push_add conf input nd takeState takeStateKey maxBound constraint st =
     (let compareRows = tc_compare conf; r = node_row nd in
      if ts_size takeState < tc_limit conf then
        (let bound = (case ts_bound takeState of
               None \<Rightarrow> r | Some b \<Rightarrow> if compareRows b r < 0 then r else b);
             st' = setTakeState conf takeStateKey (ts_size takeState + 1) (Some bound) maxBound st
         in Inr ([(CAdd nd, st')], st'))
      else (case ts_bound takeState of
              None \<Rightarrow> Inr ([], st)
            | Some b \<Rightarrow>
                if 0 \<le> compareRows r b then Inr ([], st)
                else
                  bind_result
                    (if tc_limit conf = 1
                     then bind_result (input (take_req b At constraint False)) (\<lambda>nodes. Inr (nth_node 0 nodes, None))
                     else bind_result (input (take_req b At constraint True)) (\<lambda>nodes.
                       Inr (nth_node 0 nodes, nth_node 1 nodes)))
                    (\<lambda>(boundNode, beforeBoundNode).
                  bind_result (found ''Take: boundNode must be found during fetch'' boundNode) (\<lambda>bn.
                    let bound = (case beforeBoundNode of
                          None \<Rightarrow> r | Some before \<Rightarrow> if 0 < compareRows r (node_row before) then r else node_row before);
                        st1 = setTakeState conf takeStateKey (ts_size takeState) (Some bound) maxBound st;
                        (evs, st2) = pushWithRowHiddenFromFetch r (CRemove bn) st1
                    in Inr (evs @ [(CAdd nd, st2)], st2)))))"

text \<open>The search for the new bound after a remove: the flag says whether the row is after the bound.\<close>

fun remove_scan :: "row cmp \<Rightarrow> row \<Rightarrow> node list \<Rightarrow> (node \<times> bool) option \<Rightarrow> (node \<times> bool) option" where
  "remove_scan compare bound [] newBound = newBound"
| "remove_scan compare bound (n # nodes) newBound =
     (if 0 < compare (node_row n) bound then Some (n, True) else remove_scan compare bound nodes (Some (n, False)))"

definition take_push_remove ::
    "take_conf \<Rightarrow> input_fetch \<Rightarrow> node \<Rightarrow> take_state \<Rightarrow> take_key \<Rightarrow> row option \<Rightarrow> constraint option \<Rightarrow> take_storage \<Rightarrow>
     (take_events \<times> take_storage) result" where
  "take_push_remove conf input nd takeState takeStateKey maxBound constraint st =
     (let compareRows = tc_compare conf in
      case ts_bound takeState of
        None \<Rightarrow> Inr ([], st)
      | Some b \<Rightarrow>
          if 0 < compareRows (node_row nd) b then Inr ([], st)
          else
            bind_result (input (take_req b After constraint True)) (\<lambda>before.
            let newBound = map_option (\<lambda>n. (n, 0 < compareRows (node_row n) b)) (nth_node 0 before) in
            bind_result
              (if (case newBound of None \<Rightarrow> False | Some (_, p) \<Rightarrow> p) then Inr newBound
               else bind_result (input (take_req b At constraint False)) (\<lambda>nodes.
                 Inr (remove_scan compareRows b (skipYields nodes) newBound)))
              (\<lambda>newBound.
            case newBound of
              Some (n, True) \<Rightarrow>
                (let st' = setTakeState conf takeStateKey (ts_size takeState) (Some (node_row n)) maxBound st
                 in Inr ([(CRemove nd, st), (CAdd n, st')], st'))
            | _ \<Rightarrow>
                (let st' = setTakeState conf takeStateKey (ts_size takeState - 1)
                       (map_option (\<lambda>(n, _). node_row n) newBound) maxBound st
                 in Inr ([(CRemove nd, st')], st')))))"

definition replaceBoundAndForwardChange ::
    "take_conf \<Rightarrow> change \<Rightarrow> row \<Rightarrow> take_state \<Rightarrow> take_key \<Rightarrow> row option \<Rightarrow> take_storage \<Rightarrow> take_events \<times> take_storage" where
  "replaceBoundAndForwardChange conf change r takeState takeStateKey maxBound st =
     (let st' = setTakeState conf takeStateKey (ts_size takeState) (Some r) maxBound st in ([(change, st')], st'))"

text \<open>\<open>pushEditChange\<close> when the edited row was the bound, after the bound and before it.\<close>

definition edit_at_bound ::
    "take_conf \<Rightarrow> input_fetch \<Rightarrow> node \<Rightarrow> node \<Rightarrow> row \<Rightarrow> take_state \<Rightarrow> take_key \<Rightarrow> row option \<Rightarrow> constraint option \<Rightarrow>
     take_storage \<Rightarrow> (take_events \<times> take_storage) result" where
  "edit_at_bound conf input nd old b takeState takeStateKey maxBound constraint st =
     (let compareRows = tc_compare conf; r = node_row nd; newCmp = compareRows r b;
          replace = replaceBoundAndForwardChange conf (CEdit nd old) r takeState takeStateKey maxBound st
      in if newCmp = 0 then Inr ([(CEdit nd old, st)], st)
         else if newCmp < 0 then
           if tc_limit conf = 1 then Inr replace
           else
             bind_result (input (take_req b After constraint True)) (\<lambda>nodes.
             bind_result (found ''Take: beforeBoundNode must be found during fetch'' (nth_node 0 nodes)) (\<lambda>before.
               let st' = setTakeState conf takeStateKey (ts_size takeState) (Some (node_row before)) maxBound st
               in Inr ([(CEdit nd old, st')], st')))
         else
           bind_result (input (take_req b At constraint False)) (\<lambda>nodes.
           bind_result (found ''Take: newBoundNode must be found during fetch'' (nth_node 0 nodes)) (\<lambda>newBound.
             if compareRows (node_row newBound) r = 0 then Inr replace
             else
               (let st1 = setTakeState conf takeStateKey (ts_size takeState) (Some (node_row newBound)) maxBound st;
                    (evs, st2) = pushWithRowHiddenFromFetch (node_row newBound) (CRemove old) st1
                in Inr (evs @ [(CAdd newBound, st2)], st2)))))"

definition edit_after_bound ::
    "take_conf \<Rightarrow> input_fetch \<Rightarrow> node \<Rightarrow> node \<Rightarrow> row \<Rightarrow> take_state \<Rightarrow> take_key \<Rightarrow> row option \<Rightarrow> constraint option \<Rightarrow>
     take_storage \<Rightarrow> (take_events \<times> take_storage) result" where
  "edit_after_bound conf input nd old b takeState takeStateKey maxBound constraint st =
     (let compareRows = tc_compare conf; r = node_row nd; newCmp = compareRows r b
      in if newCmp = 0 then Inl (AssertionFailed ''Invalid state. Row has duplicate primary key'')
         else if 0 < newCmp then Inr ([], st)
         else
           bind_result (input (take_req b At constraint True)) (\<lambda>nodes.
           bind_result (found ''Take: oldBoundNode must be found during fetch'' (nth_node 0 nodes)) (\<lambda>oldBound.
           bind_result (found ''Take: newBoundNode must be found during fetch'' (nth_node 1 nodes)) (\<lambda>newBound.
             let st1 = setTakeState conf takeStateKey (ts_size takeState) (Some (node_row newBound)) maxBound st;
                 (evs, st2) = pushWithRowHiddenFromFetch r (CRemove oldBound) st1
             in Inr (evs @ [(CAdd nd, st2)], st2)))))"

definition edit_before_bound ::
    "take_conf \<Rightarrow> input_fetch \<Rightarrow> node \<Rightarrow> node \<Rightarrow> row \<Rightarrow> take_state \<Rightarrow> take_key \<Rightarrow> row option \<Rightarrow> constraint option \<Rightarrow>
     take_storage \<Rightarrow> (take_events \<times> take_storage) result" where
  "edit_before_bound conf input nd old b takeState takeStateKey maxBound constraint st =
     (let compareRows = tc_compare conf; r = node_row nd; newCmp = compareRows r b
      in if newCmp = 0 then Inl (AssertionFailed ''Invalid state. Row has duplicate primary key'')
         else if newCmp < 0 then Inr ([(CEdit nd old, st)], st)
         else
           bind_result (input (take_req b After constraint False)) (\<lambda>nodes.
           bind_result (found ''Take: afterBoundNode must be found during fetch'' (nth_node 0 nodes)) (\<lambda>after.
             if compareRows (node_row after) r = 0
             then Inr (replaceBoundAndForwardChange conf (CEdit nd old) r takeState takeStateKey maxBound st)
             else
               (let st' = setTakeState conf takeStateKey (ts_size takeState) (Some (node_row after)) maxBound st
                in Inr ([(CRemove old, st), (CAdd after, st')], st')))))"

definition pushEditChange ::
    "utf8 \<Rightarrow> take_conf \<Rightarrow> input_fetch \<Rightarrow> node \<Rightarrow> node \<Rightarrow> take_storage \<Rightarrow> (take_events \<times> take_storage) result" where
  "pushEditChange u8 conf input nd old st =
     bind_result
       (case tc_partition conf of
          None \<Rightarrow> Inr ()
        | Some keys \<Rightarrow> bind_result (makePartitionKeyComparator u8 keys (node_row old) (node_row nd)) (\<lambda>c.
            if c = 0 then Inr () else Inl (AssertionFailed ''Unexpected change of partition key'')))
       (\<lambda>_.
     case getStateAndConstraint conf (node_row old) st of (takeState, takeStateKey, maxBound, constraint) \<Rightarrow>
     (case takeState of
        None \<Rightarrow> Inr ([], st)
      | Some ts \<Rightarrow>
          (case ts_bound ts of
             None \<Rightarrow> Inl (AssertionFailed ''Bound should be set'')
           | Some b \<Rightarrow>
               (let oldCmp = tc_compare conf (node_row old) b
                in if oldCmp = 0 then edit_at_bound conf input nd old b ts takeStateKey maxBound constraint st
                   else if 0 < oldCmp then edit_after_bound conf input nd old b ts takeStateKey maxBound constraint st
                   else edit_before_bound conf input nd old b ts takeStateKey maxBound constraint st))))"

definition take_push ::
    "utf8 \<Rightarrow> take_conf \<Rightarrow> input_fetch \<Rightarrow> change \<Rightarrow> take_storage \<Rightarrow> (take_events \<times> take_storage) result" where
  "take_push u8 conf input change st = (case change of
     CEdit nd old \<Rightarrow> pushEditChange u8 conf input nd old st
   | CAdd nd \<Rightarrow>
       (case getStateAndConstraint conf (node_row nd) st of (takeState, takeStateKey, maxBound, constraint) \<Rightarrow>
          (case takeState of None \<Rightarrow> Inr ([], st)
           | Some ts \<Rightarrow> take_push_add conf input nd ts takeStateKey maxBound constraint st))
   | CRemove nd \<Rightarrow>
       (case getStateAndConstraint conf (node_row nd) st of (takeState, takeStateKey, maxBound, constraint) \<Rightarrow>
          (case takeState of None \<Rightarrow> Inr ([], st)
           | Some ts \<Rightarrow> take_push_remove conf input nd ts takeStateKey maxBound constraint st))
   | CChild nd rel c \<Rightarrow>
       (case getStateAndConstraint conf (node_row nd) st of (takeState, takeStateKey, maxBound, constraint) \<Rightarrow>
          (case takeState of None \<Rightarrow> Inr ([], st)
           | Some ts \<Rightarrow>
               (case ts_bound ts of
                  None \<Rightarrow> Inr ([], st)
                | Some b \<Rightarrow>
                    if tc_compare conf (node_row nd) b \<le> 0 then Inr ([(CChild nd rel c, st)], st) else Inr ([], st)))))"

end
