(* ===== verification/TakeOrder.thy ===== *)
theory TakeOrder
  imports Take
begin

section \<open>The first rows of a set (for take.ts)\<close>

text \<open>
  The rows a \<open>Take\<close> lets pass are those at or before its bound. \<open>bound_ok\<close> relates the stored size and
  bound to the rows of a partition; the lemmas say how they change when a row is added, removed or
  edited, one for each branch of the code.
\<close>

definition below :: "'k cmp \<Rightarrow> 'k \<Rightarrow> 'k set \<Rightarrow> 'k set" where
  "below cmp b A = {x \<in> A. cmp x b \<le> 0}"

definition uniq :: "'k cmp \<Rightarrow> 'k set \<Rightarrow> bool" where
  "uniq cmp A \<longleftrightarrow> (\<forall>x \<in> A. \<forall>y \<in> A. cmp x y = 0 \<longrightarrow> x = y)"

definition bound_ok :: "'k cmp \<Rightarrow> int \<Rightarrow> int \<Rightarrow> 'k \<Rightarrow> 'k set \<Rightarrow> bool" where
  "bound_ok cmp limit n b A \<longleftrightarrow> finite A \<and> (\<exists>x \<in> A. cmp x b = 0) \<and> n = int (card (below cmp b A)) \<and> n \<le> limit \<and>
     (n < limit \<longrightarrow> (\<forall>x \<in> A. cmp x b \<le> 0))"

definition least :: "'k cmp \<Rightarrow> 'k set \<Rightarrow> 'k \<Rightarrow> bool" where
  "least C A x \<longleftrightarrow> x \<in> A \<and> (\<forall>y \<in> A. C x y \<le> 0)"

lemma uniqD: "uniq cmp A \<Longrightarrow> x \<in> A \<Longrightarrow> y \<in> A \<Longrightarrow> cmp x y = 0 \<Longrightarrow> x = y"
  by (simp add: uniq_def)

lemma uniq_mono: "uniq cmp A \<Longrightarrow> B \<subseteq> A \<Longrightarrow> uniq cmp B"
  by (auto simp: uniq_def)

lemma finite_below [simp]: "finite A \<Longrightarrow> finite (below cmp b A)"
  by (simp add: below_def)

lemma nth_node_0:
  assumes "sorted_cmp C (rows_of_items items)" "set (rows_of_items items) = A" "comparator C"
  shows "(nth_node 0 items = None \<and> A = {}) \<or> (\<exists>n. nth_node 0 items = Some n \<and> least C A (node_row n))"
proof (cases "skipYields items")
  case Nil
  with assms(2) show ?thesis by (simp add: nth_node_def rows_of_items_def)
next
  case (Cons n ns)
  then have "least C A (node_row n)"
    using assms(1,2) comparator.cmp_refl [OF assms(3)] by (auto simp: rows_of_items_def least_def sorted_rules less_imp_le)
  with Cons show ?thesis by (simp add: nth_node_def)
qed

lemma nth_node_1:
  assumes "sorted_cmp C (rows_of_items items)" "set (rows_of_items items) = A" "comparator C"
    "nth_node 0 items = Some n"
  shows "(nth_node 1 items = None \<and> A = {node_row n}) \<or>
    (\<exists>m. nth_node 1 items = Some m \<and> least C (A - {node_row n}) (node_row m))"
proof (cases "skipYields items")
  case Nil
  with assms(4) show ?thesis by (simp add: nth_node_def)
next
  case (Cons n' ns)
  then have n: "n' = n" using assms(4) by (simp add: nth_node_def)
  show ?thesis
  proof (cases ns)
    case Nil
    with Cons n assms(2) show ?thesis by (simp add: nth_node_def rows_of_items_def)
  next
    case (Cons m ms)
    have rs: "rows_of_items items = node_row n # node_row m # map node_row ms"
      using \<open>skipYields items = n' # ns\<close> Cons n by (simp add: rows_of_items_def)
    have "least C (A - {node_row n}) (node_row m)"
      using assms(1,2) comparator.cmp_refl [OF assms(3)] unfolding rs
      by (auto simp: least_def sorted_rules less_imp_le)
    with \<open>skipYields items = n' # ns\<close> Cons show ?thesis by (simp add: nth_node_def)
  qed
qed

lemma card_replace:
  assumes "finite T" "q \<in> T" "m \<notin> T - {q}"
  shows "card (insert m (T - {q})) = card T"
  using assms card.remove [OF assms(1,2)] by simp

context comparator
begin

lemma below_iff: "x \<in> below cmp b A \<longleftrightarrow> x \<in> A \<and> cmp x b \<le> 0"
  by (simp add: below_def)

text \<open>The rows at or before the greatest row before \<open>b\<close>, and at or before the least row after \<open>b\<close>.\<close>

lemma below_greatest:
  assumes "least (\<lambda>x y. cmp y x) {x \<in> A. cmp x b < 0} g"
  shows "below cmp g A = {x \<in> A. cmp x b < 0}"
  using assms cmp_le_less_trans by (auto simp: below_def least_def)

lemma below_least:
  assumes "least cmp {x \<in> A. 0 < cmp x b} s" "uniq cmp A"
  shows "below cmp s A = insert s (below cmp b A)"
proof
  show "below cmp s A \<subseteq> insert s (below cmp b A)"
  proof
    fix x
    assume "x \<in> below cmp s A"
    then have x: "x \<in> A" "cmp x s \<le> 0" by (simp_all add: below_iff)
    show "x \<in> insert s (below cmp b A)"
    proof (cases "cmp x b \<le> 0")
      case False
      then have "cmp s x \<le> 0" using assms(1) x(1) by (simp add: least_def)
      then have "cmp x s = 0" using x(2) cmp_le_sym [of s x] by simp
      then have "x = s" using assms x(1) by (auto simp: least_def uniq_def)
      then show ?thesis by simp
    qed (use x in \<open>simp add: below_iff\<close>)
  qed
  have "cmp b s \<le> 0" using assms(1) cmp_pos [of s b] by (simp add: least_def)
  then show "insert s (below cmp b A) \<subseteq> below cmp s A"
    using assms(1) cmp_trans by (auto simp: below_iff least_def)
qed

lemma rep_only: "uniq cmp A \<Longrightarrow> x \<in> A \<Longrightarrow> cmp x b = 0 \<Longrightarrow> y \<in> A \<Longrightarrow> cmp y b = 0 \<Longrightarrow> y = x"
  using cmp_eq_trans [of y b x] cmp_zero_sym [of x b] by (simp add: uniq_def)

lemma strictly_below:
  assumes "uniq cmp A" "x \<in> A" "cmp x b = 0"
  shows "{y \<in> A. cmp y b < 0} = below cmp b A - {x}"
proof (rule set_eqI)
  fix y
  show "y \<in> {y \<in> A. cmp y b < 0} \<longleftrightarrow> y \<in> below cmp b A - {x}"
  proof (cases "y = x")
    case False
    then have "y \<in> A \<Longrightarrow> cmp y b \<noteq> 0" using rep_only [OF assms] by blast
    with False show ?thesis by (auto simp: below_iff)
  qed (simp add: assms(3))
qed

subsection \<open>Adding a row\<close>

lemma add_room:
  assumes ok: "bound_ok cmp limit n b A" and "n < limit" "r \<notin> A" and u: "uniq cmp (insert r A)"
  defines "b' \<equiv> (if cmp b r < 0 then r else b)"
  shows "bound_ok cmp limit (n + 1) b' (insert r A) \<and> below cmp b' (insert r A) = insert r (below cmp b A)"
proof -
  have all: "\<forall>x \<in> A. cmp x b \<le> 0" using ok \<open>n < limit\<close> by (simp add: bound_ok_def)
  have le: "cmp r b' \<le> 0" "cmp b b' \<le> 0"
    using cmp_le_sym [of r b] by (auto simp: b'_def)
  have all': "\<forall>x \<in> insert r A. cmp x b' \<le> 0" using all le cmp_trans by blast
  have "below cmp b' (insert r A) = insert r A" "below cmp b A = A" using all all' by (auto simp: below_def)
  moreover have "\<exists>x \<in> insert r A. cmp x b' = 0" using ok by (auto simp: b'_def bound_ok_def)
  ultimately show ?thesis using ok assms(2,3) all' by (simp add: bound_ok_def)
qed

lemma add_after:
  assumes ok: "bound_ok cmp limit n b A" and "n = limit" "0 \<le> cmp r b" "r \<notin> A" and u: "uniq cmp (insert r A)"
  shows "bound_ok cmp limit n b (insert r A) \<and> below cmp b (insert r A) = below cmp b A"
proof -
  have "cmp r b \<noteq> 0" using ok u rep_only [OF u, of _ b r] \<open>r \<notin> A\<close> by (auto simp: bound_ok_def)
  then have "below cmp b (insert r A) = below cmp b A" using assms(3) by (auto simp: below_def)
  with ok assms(2) show ?thesis by (auto simp: bound_ok_def)
qed

lemma add_full:
  assumes ok: "bound_ok cmp limit n b A" and n: "n = limit" and r: "cmp r b < 0" "r \<notin> A" and u: "uniq cmp (insert r A)"
    and x: "x \<in> A" "cmp x b = 0" and b': "cmp b' b < 0" "below cmp b' (insert r A) = {y \<in> insert r A. cmp y b < 0}"
      "\<exists>y \<in> insert r A. cmp y b' = 0"
  shows "bound_ok cmp limit n b' (insert r A) \<and> below cmp b' (insert r A) = insert r (below cmp b A - {x})"
proof -
  have "{y \<in> insert r A. cmp y b < 0} = below cmp b (insert r A) - {x}"
    using u x by (intro strictly_below) auto
  also have "\<dots> = insert r (below cmp b A - {x})" using r x by (auto simp: below_def)
  finally have eq: "below cmp b' (insert r A) = insert r (below cmp b A - {x})" using b'(2) by simp
  have fin: "finite A" using ok by (simp add: bound_ok_def)
  have "x \<in> below cmp b A" using x by (simp add: below_iff)
  then have "card (insert r (below cmp b A - {x})) = card (below cmp b A)"
    using fin r by (intro card_replace) (simp_all add: below_iff)
  with ok n eq b'(3) show ?thesis by (auto simp: bound_ok_def)
qed

lemma limit_one:
  assumes ok: "bound_ok cmp 1 n b A" "x \<in> A" "cmp x b = 0"
  shows "below cmp b A = {x}"
proof -
  have "x \<in> below cmp b A" using assms by (simp add: below_iff)
  moreover have fin: "finite (below cmp b A)" and "card (below cmp b A) \<le> Suc 0" using ok by (auto simp: bound_ok_def)
  then have "\<forall>y \<in> below cmp b A. \<forall>z \<in> below cmp b A. y = z" using card_le_Suc0_iff_eq [OF fin] by blast
  ultimately show ?thesis by blast
qed

subsection \<open>Removing a row\<close>

lemma remove_after:
  assumes ok: "bound_ok cmp limit n b A" and r: "r \<in> A" "0 < cmp r b"
  shows "bound_ok cmp limit n b (A - {r}) \<and> below cmp b (A - {r}) = below cmp b A"
proof -
  have "below cmp b (A - {r}) = below cmp b A" using r by (auto simp: below_def)
  with ok r show ?thesis by (auto simp: bound_ok_def)
qed

lemma full_if_after: "bound_ok cmp limit n b A \<Longrightarrow> x \<in> A \<Longrightarrow> 0 < cmp x b \<Longrightarrow> n = limit"
  by (force simp: bound_ok_def)

lemma card_below_remove:
  "finite A \<Longrightarrow> r \<in> A \<Longrightarrow> cmp r b \<le> 0 \<Longrightarrow> int (card (below cmp b A - {r})) = int (card (below cmp b A)) - 1"
  using card_Suc_Diff1 [of "below cmp b A" r] by (simp add: below_iff)

lemma remove_refill:
  assumes ok: "bound_ok cmp limit n b A" and r: "r \<in> A" "cmp r b \<le> 0" and u: "uniq cmp A"
    and s: "least cmp {x \<in> A - {r}. 0 < cmp x b} s"
  shows "bound_ok cmp limit n s (A - {r}) \<and> below cmp s (A - {r}) = insert s (below cmp b A - {r})"
proof -
  have s': "s \<in> A" "s \<noteq> r" "0 < cmp s b" using s by (auto simp: least_def)
  have "below cmp s (A - {r}) = insert s (below cmp b (A - {r}))"
    by (rule below_least [OF s uniq_mono [OF u]]) auto
  also have "\<dots> = insert s (below cmp b A - {r})" by (auto simp: below_def)
  finally have eq: "below cmp s (A - {r}) = insert s (below cmp b A - {r})" .
  have fin: "finite A" using ok by (simp add: bound_ok_def)
  have "s \<notin> below cmp b A - {r}" using s' by (simp add: below_iff)
  then have "int (card (insert s (below cmp b A - {r}))) = int (card (below cmp b A))"
    using fin card_below_remove [OF fin r] by simp
  moreover have "n = limit" by (rule full_if_after [OF ok s'(1,3)])
  moreover have "\<exists>x \<in> A - {r}. cmp x s = 0" using s' by (intro bexI [of _ s]) auto
  ultimately show ?thesis using ok eq by (simp add: bound_ok_def)
qed

lemma remove_shrink:
  assumes ok: "bound_ok cmp limit n b A" and r: "r \<in> A" "cmp r b \<le> 0"
    and none: "\<forall>x \<in> A - {r}. cmp x b \<le> 0"
  shows "below cmp b A = A" "int (card (A - {r})) = n - 1"
    "g \<in> A - {r} \<Longrightarrow> \<forall>x \<in> A - {r}. cmp x g \<le> 0 \<Longrightarrow> bound_ok cmp limit (n - 1) g (A - {r}) \<and> below cmp g (A - {r}) = A - {r}"
proof -
  have fin: "finite A" using ok by (simp add: bound_ok_def)
  show all: "below cmp b A = A" using none r by (auto simp: below_def)
  show c: "int (card (A - {r})) = n - 1" using card_below_remove [OF fin r] ok by (simp add: all bound_ok_def)
  assume g: "g \<in> A - {r}" "\<forall>x \<in> A - {r}. cmp x g \<le> 0"
  then have "below cmp g (A - {r}) = A - {r}" by (auto simp: below_def)
  moreover have "\<exists>x \<in> A - {r}. cmp x g = 0" using g(1) cmp_refl by blast
  moreover have "n \<le> limit" using ok by (simp add: bound_ok_def)
  ultimately show "bound_ok cmp limit (n - 1) g (A - {r}) \<and> below cmp g (A - {r}) = A - {r}"
    using g(2) fin c by (simp add: bound_ok_def)
qed

subsection \<open>Editing a row\<close>

text \<open>The generic step: the new bound takes in exactly the old rows with \<open>q\<close> replaced by \<open>m\<close>.\<close>

lemma edit_step:
  assumes ok: "bound_ok cmp limit n b A" and A': "A' = insert m (A - {q})" and T: "below cmp b' A' = insert t (below cmp b A - {p})"
    and p: "p \<in> below cmp b A" "t \<notin> below cmp b A - {p}" and rep: "\<exists>x \<in> A'. cmp x b' = 0"
    and room: "n < limit \<Longrightarrow> \<forall>x \<in> A'. cmp x b' \<le> 0"
  shows "bound_ok cmp limit n b' A'"
proof -
  have fin: "finite A" using ok by (simp add: bound_ok_def)
  have "card (insert t (below cmp b A - {p})) = card (below cmp b A)" by (rule card_replace [OF _ p]) (simp add: fin)
  with T rep room ok A' show ?thesis by (simp add: bound_ok_def)
qed

end

end
