(* ===== verification/TakeStep.thy ===== *)
theory TakeStep
  imports TakeOrder
begin

section \<open>Each push of a Take (take.ts)\<close>

text \<open>
  \<open>shown_by\<close> is what a fetch of a partition returns in a state of the operator, \<open>events_ok\<close> that a sequence
  of pushes takes a consumer from one set of rows to another such that every push keeps the contract of
  \<open>Output.push\<close>, the consumer never holds more than \<open>limit\<close> rows, and a fetch during each push returns
  just what the consumer holds after it. There is one lemma for each kind of push.
\<close>

definition state_ok :: "take_conf \<Rightarrow> row set \<Rightarrow> take_state \<Rightarrow> bool" where
  "state_ok conf P ts \<longleftrightarrow> (case ts_bound ts of
     None \<Rightarrow> P = {} \<and> ts_size ts = 0
   | Some b \<Rightarrow> bound_ok (tc_compare conf) (tc_limit conf) (ts_size ts) b P \<and> plain_row b)"

definition shown_by :: "take_conf \<Rightarrow> take_key \<Rightarrow> row set \<Rightarrow> take_storage \<Rightarrow> row set" where
  "shown_by conf k P st = (case map_of (tk_states st) k of
     None \<Rightarrow> {}
   | Some ts \<Rightarrow> (case ts_bound ts of
       None \<Rightarrow> {}
     | Some b \<Rightarrow> {x \<in> below (tc_compare conf) b P.
         case tk_hidden st of None \<Rightarrow> True | Some h \<Rightarrow> tc_compare conf h x \<noteq> 0}))"

fun events_ok :: "take_conf \<Rightarrow> take_key \<Rightarrow> row set \<Rightarrow> row set \<Rightarrow> take_events \<Rightarrow> row set \<Rightarrow> bool" where
  "events_ok conf k P T [] T' \<longleftrightarrow> T = T'"
| "events_ok conf k P T ((c, st) # evs) T' \<longleftrightarrow>
     push_ok c T \<and> int (card (apply_push c T)) \<le> tc_limit conf \<and> shown_by conf k P st = apply_push c T \<and>
     events_ok conf k P (apply_push c T) evs T'"

definition max_ok :: "take_conf \<Rightarrow> take_storage \<Rightarrow> bool" where
  "max_ok conf st \<longleftrightarrow> (\<forall>k ts b. map_of (tk_states st) k = Some ts \<and> ts_bound ts = Some b \<longrightarrow>
     (\<exists>m. tk_maxBound st = Some m \<and> tc_compare conf b m \<le> 0))"

definition outcome ::
    "take_conf \<Rightarrow> take_key \<Rightarrow> row set \<Rightarrow> row set \<Rightarrow> take_storage \<Rightarrow> take_events \<Rightarrow> take_storage \<Rightarrow> bool" where
  "outcome conf k P P' st evs st' \<longleftrightarrow>
     tk_hidden st' = None \<and> (max_ok conf st \<longrightarrow> max_ok conf st') \<and>
     (\<exists>ts'. map_of (tk_states st') = (map_of (tk_states st))(k \<mapsto> ts') \<and> state_ok conf P' ts') \<and>
     events_ok conf k P' (shown_by conf k P st) evs (shown_by conf k P' st')"

subsection \<open>The state\<close>

lemma set_state_simps:
  "map_of (tk_states (setTakeState conf k n bd m st)) = (map_of (tk_states st))(k \<mapsto> \<lparr>ts_size = n, ts_bound = bd\<rparr>)"
  "tk_hidden (setTakeState conf k n bd m st) = tk_hidden st"
  by (auto simp: setTakeState_def Let_def update_conv' split: option.split simp del: map_of_eq_Some_iff)

lemma set_state_max:
  assumes C: "comparator (tc_compare conf)" and max: "max_ok conf st"
  shows "max_ok conf (setTakeState conf k n bd (tk_maxBound st) st)"
proof -
  let ?st = "setTakeState conf k n bd (tk_maxBound st) st" and ?c = "tc_compare conf"
  have grows: "\<exists>m'. tk_maxBound ?st = Some m' \<and> ?c b m' \<le> 0" if "tk_maxBound st = Some m" "?c b m \<le> 0" for b m
    using that comparator.cmp_le_less_trans [OF C, of b m] comparator.cmp_pos [OF C]
    by (auto simp: setTakeState_def Let_def less_imp_le split: option.split)
  have new: "\<exists>m'. tk_maxBound ?st = Some m' \<and> ?c b m' \<le> 0" if "bd = Some b" for b
    using that comparator.cmp_refl [OF C] by (auto simp: setTakeState_def Let_def not_less split: option.split)
  show ?thesis
    unfolding max_ok_def
  proof (intro allI impI, elim conjE)
    fix k' ts b
    assume ts: "map_of (tk_states ?st) k' = Some ts" "ts_bound ts = Some b"
    show "\<exists>m. tk_maxBound ?st = Some m \<and> ?c b m \<le> 0"
    proof (cases "k' = k")
      case True
      with ts new show ?thesis by (auto simp: set_state_simps simp del: map_of_eq_Some_iff)
    next
      case False
      then have "map_of (tk_states st) k' = Some ts" using ts(1) by (simp add: set_state_simps del: map_of_eq_Some_iff)
      then obtain m where "tk_maxBound st = Some m" "?c b m \<le> 0" using max ts(2) unfolding max_ok_def by blast
      then show ?thesis by (rule grows)
    qed
  qed
qed

lemma shown_by_set:
  "shown_by conf k P (setTakeState conf k n (Some b) m st\<lparr>tk_hidden := h\<rparr>) =
     {x \<in> below (tc_compare conf) b P. case h of None \<Rightarrow> True | Some h \<Rightarrow> tc_compare conf h x \<noteq> 0}"
  "tk_hidden st = None \<Longrightarrow> shown_by conf k P (setTakeState conf k n (Some b) m st) = below (tc_compare conf) b P"
  "shown_by conf k P (setTakeState conf k n None m st) = {}"
  by (simp_all add: shown_by_def set_state_simps del: map_of_eq_Some_iff)

lemma shown_by_state:
  "map_of (tk_states st) k = Some ts \<Longrightarrow> ts_bound ts = Some b \<Longrightarrow> tk_hidden st = None \<Longrightarrow>
   shown_by conf k P st = below (tc_compare conf) b P"
  by (simp add: shown_by_def del: map_of_eq_Some_iff)

lemma bound_ok_card: "bound_ok cmp limit n b A \<Longrightarrow> int (card (below cmp b A)) \<le> limit"
  by (simp add: bound_ok_def)


subsection \<open>Outcomes\<close>

lemma hidden_None: "tk_hidden st = None \<Longrightarrow> st\<lparr>tk_hidden := None\<rparr> = st"
  by (cases st) simp

text \<open>What is known of the partition before a push.\<close>

definition held ::
    "take_conf \<Rightarrow> take_key \<Rightarrow> row set \<Rightarrow> take_storage \<Rightarrow> take_state \<Rightarrow> row \<Rightarrow> bool" where
  "held conf k P st ts b \<longleftrightarrow> comparator (tc_compare conf) \<and> map_of (tk_states st) k = Some ts \<and> ts_bound ts = Some b \<and>
     tk_hidden st = None \<and> bound_ok (tc_compare conf) (tc_limit conf) (ts_size ts) b P \<and> plain_row b"

lemma held_shown: "held conf k P st ts b \<Longrightarrow> shown_by conf k A st = below (tc_compare conf) b A"
  by (simp add: held_def shown_by_state)

lemma outcome_same:
  assumes h: "held conf k P st ts b" and ok: "bound_ok (tc_compare conf) (tc_limit conf) (ts_size ts) b P'"
    and T: "below (tc_compare conf) b P' = T'"
    and evs: "(evs = [] \<and> T' = below (tc_compare conf) b P) \<or>
      (\<exists>c. evs = [(c, st)] \<and> push_ok c (below (tc_compare conf) b P) \<and> apply_push c (below (tc_compare conf) b P) = T')"
  shows "outcome conf k P P' st evs st"
proof -
  have "map_of (tk_states st) = (map_of (tk_states st))(k \<mapsto> ts)" using h by (auto simp: held_def fun_upd_idem)
  moreover have "state_ok conf P' ts" using h ok by (simp add: held_def state_ok_def)
  moreover have "events_ok conf k P' (shown_by conf k P st) evs (shown_by conf k P' st)"
    using evs T bound_ok_card [OF ok] by (auto simp: held_shown [OF h])
  ultimately show ?thesis using h unfolding outcome_def held_def by blast
qed

lemma outcome_set:
  assumes h: "held conf k P st ts b" and ok: "bound_ok (tc_compare conf) (tc_limit conf) n b' P'" and pl: "plain_row b'"
    and st': "st' = setTakeState conf k n (Some b') (tk_maxBound st) st"
    and evs: "events_ok conf k P' (below (tc_compare conf) b P) evs (below (tc_compare conf) b' P')"
  shows "outcome conf k P P' st evs st'"
proof -
  have hid: "tk_hidden st = None" and C: "comparator (tc_compare conf)" using h by (simp_all add: held_def)
  have "state_ok conf P' \<lparr>ts_size = n, ts_bound = Some b'\<rparr>" using ok pl by (simp add: state_ok_def)
  moreover have "shown_by conf k P' st' = below (tc_compare conf) b' P'" unfolding st' by (rule shown_by_set(2) [OF hid])
  ultimately show ?thesis
    using evs set_state_max [OF C] hid unfolding outcome_def st' held_shown [OF h] set_state_simps by auto
qed

lemma events_one:
  assumes hid: "tk_hidden st = None" and st': "st' = setTakeState conf k n (Some b') m st"
    and ok: "bound_ok (tc_compare conf) (tc_limit conf) n b' P'"
    and push: "push_ok c T" "apply_push c T = below (tc_compare conf) b' P'"
  shows "events_ok conf k P' T [(c, st')] (below (tc_compare conf) b' P')"
  using push bound_ok_card [OF ok] by (simp add: st' shown_by_set(2) [OF hid])

lemma events_two:
  assumes st: "shown_by conf k P' st1 = T - {node_row x}" and hid: "tk_hidden st = None"
    and st': "st' = setTakeState conf k n (Some b') m st" and ok: "bound_ok (tc_compare conf) (tc_limit conf) n b' P'"
    and T: "finite T" "int (card T) \<le> tc_limit conf" "node_row x \<in> T" "node_row y \<notin> T - {node_row x}"
    and new: "insert (node_row y) (T - {node_row x}) = below (tc_compare conf) b' P'"
  shows "events_ok conf k P' T [(CRemove x, st1), (CAdd y, st')] (below (tc_compare conf) b' P')"
proof -
  have "int (card (T - {node_row x})) \<le> tc_limit conf" using T(1,2) card_mono [of T "T - {node_row x}"] by auto
  then show ?thesis
    using assms bound_ok_card [OF ok] shown_by_set(2) [OF hid, of conf k P' n b' m] by simp
qed

lemma hidden_shown:
  assumes "uniq (tc_compare conf) P'" "r \<in> P'" "comparator (tc_compare conf)"
  shows "shown_by conf k P' (setTakeState conf k n (Some b') m st\<lparr>tk_hidden := Some r\<rparr>) =
    below (tc_compare conf) b' P' - {r}"
  using assms comparator.cmp_refl [OF assms(3), of r]
  by (auto simp: shown_by_set(1) uniq_def below_def)

lemma held_finite:
  assumes "held conf k P st ts b"
  shows "finite (below (tc_compare conf) b P)" "int (card (below (tc_compare conf) b P)) \<le> tc_limit conf"
  using assms by (auto simp: held_def bound_ok_def)

end
