(* ===== verification/TakePush.thy ===== *)
theory TakePush
  imports TakeStep
begin

section \<open>The pushes of a Take (take.ts)\<close>

text \<open>
  \<open>take_step\<close> fixes the input after the change and the constraint of the partition, whose rows are \<open>part\<close>;
  its lemmas are the outcomes of each branch of \<open>push\<close>.
\<close>

locale take_step = pipeline_input "tc_compare conf" input rows ok for conf :: take_conf and input rows ok +
  fixes constraint :: "constraint option"
  assumes req_ok: "plain_row b \<Longrightarrow> ok (take_req b basis constraint rv)"
begin

abbreviation cmp :: "row cmp" where
  "cmp \<equiv> tc_compare conf"

definition part :: "row set" where
  "part = {x \<in> rows. matches constraint x}"

lemma C: "comparator cmp" and CR: "comparator (\<lambda>x y. cmp y x)"
  by (rule comparator_axioms, rule comparator_reversed)

lemma fetch_nodes:
  assumes "plain_row b"
  obtains items where "input (take_req b basis constraint rv) = Inr items"
    "sorted_cmp (rev_cmp rv cmp) (rows_of_items items)"
    "set (rows_of_items items) = {x \<in> part. start_reached (rev_cmp rv cmp) (b, basis) x}"
proof -
  obtain items where "input (take_req b basis constraint rv) = Inr items"
    "sorted_cmp (rev_cmp rv cmp) (rows_of_items items)"
    "set (rows_of_items items) = {r \<in> rows. requested cmp (take_req b basis constraint rv) r}"
    by (rule fetch_obtain [OF req_ok [OF assms]]) (simp add: take_req_def)
  moreover have "{r \<in> rows. requested cmp (take_req b basis constraint rv) r} =
      {x \<in> part. start_reached (rev_cmp rv cmp) (b, basis) x}"
    by (auto simp: requested_def part_def after_start_def take_req_def)
  ultimately show thesis using that by simp
qed

lemma start_sets:
  "{x \<in> A. start_reached cmp (b, At) x} = {x \<in> A. 0 \<le> cmp x b}"
  "{x \<in> A. start_reached cmp (b, After) x} = {x \<in> A. 0 < cmp x b}"
  "{x \<in> A. start_reached (\<lambda>x y. cmp y x) (b, At) x} = below cmp b A"
  "{x \<in> A. start_reached (\<lambda>x y. cmp y x) (b, After) x} = {x \<in> A. cmp x b < 0}"
  using cmp_le_sym cmp_anti by (auto simp: start_reached_def below_def)

text \<open>The row at the bound, and the row before it, as the fetches of the code find them.\<close>

lemma bound_forward:
  assumes "plain_row b" "uniq cmp part" "x \<in> part" "cmp x b = 0"
  shows "\<exists>nodes n. input (take_req b At constraint False) = Inr nodes \<and> nth_node 0 nodes = Some n \<and> node_row n = x"
proof -
  obtain nodes where nodes: "input (take_req b At constraint False) = Inr nodes" "sorted_cmp cmp (rows_of_items nodes)"
    "set (rows_of_items nodes) = {y \<in> part. 0 \<le> cmp y b}"
    by (rule fetch_nodes [OF assms(1), of At False]) (simp add: start_sets)
  from nth_node_0 [OF nodes(2,3) C] assms(3,4) obtain n where n: "nth_node 0 nodes = Some n"
    "least cmp {y \<in> part. 0 \<le> cmp y b} (node_row n)" by force
  then have "cmp (node_row n) b \<le> 0" using assms(3,4) cmp_trans [of "node_row n" x b] by (simp add: least_def)
  with n(2) have "node_row n \<in> part" "cmp (node_row n) b = 0" by (simp_all add: least_def)
  then have "node_row n = x" by (rule rep_only [OF assms(2-4)])
  with nodes(1) n(1) show ?thesis by blast
qed

lemma bound_backward:
  assumes "plain_row b" "uniq cmp part" "x \<in> part" "cmp x b = 0"
  shows "\<exists>nodes n. input (take_req b At constraint True) = Inr nodes \<and> nth_node 0 nodes = Some n \<and> node_row n = x \<and>
    ((nth_node 1 nodes = None \<and> {y \<in> part. cmp y b < 0} = {}) \<or>
     (\<exists>m. nth_node 1 nodes = Some m \<and> least (\<lambda>x y. cmp y x) {y \<in> part. cmp y b < 0} (node_row m)))"
proof -
  obtain nodes where nodes: "input (take_req b At constraint True) = Inr nodes" "sorted_cmp (\<lambda>x y. cmp y x) (rows_of_items nodes)"
    "set (rows_of_items nodes) = below cmp b part"
    by (rule fetch_nodes [OF assms(1), of At True]) (simp add: start_sets)
  have xb: "x \<in> below cmp b part" using assms(3,4) by (simp add: below_iff)
  from nth_node_0 [OF nodes(2,3) CR] xb obtain n where n: "nth_node 0 nodes = Some n"
    "least (\<lambda>x y. cmp y x) (below cmp b part) (node_row n)" by blast
  have "cmp x (node_row n) \<le> 0" using n(2) xb by (simp add: least_def)
  then have "0 \<le> cmp (node_row n) b" using cmp_zero_sym [of x b] assms(4) cmp_trans [of b x "node_row n"] cmp_le_sym by simp
  with n(2) have "node_row n \<in> part" "cmp (node_row n) b = 0" by (simp_all add: least_def below_iff)
  then have nx: "node_row n = x" by (rule rep_only [OF assms(2-4)])
  have "{y \<in> part. cmp y b < 0} = below cmp b part - {x}" by (rule strictly_below [OF assms(2-4)])
  with nth_node_1 [OF nodes(2,3) CR n(1)] nx
  have "(nth_node 1 nodes = None \<and> {y \<in> part. cmp y b < 0} = {}) \<or>
     (\<exists>m. nth_node 1 nodes = Some m \<and> least (\<lambda>x y. cmp y x) {y \<in> part. cmp y b < 0} (node_row m))" by auto
  with nodes(1) n(1) nx show ?thesis by blast
qed

lemma before_bound:
  assumes "plain_row b"
  shows "\<exists>nodes. input (take_req b After constraint True) = Inr nodes \<and>
    ((nth_node 0 nodes = None \<and> {y \<in> part. cmp y b < 0} = {}) \<or>
     (\<exists>m. nth_node 0 nodes = Some m \<and> least (\<lambda>x y. cmp y x) {y \<in> part. cmp y b < 0} (node_row m)))"
proof -
  obtain nodes where nodes: "input (take_req b After constraint True) = Inr nodes" "sorted_cmp (\<lambda>x y. cmp y x) (rows_of_items nodes)"
    "set (rows_of_items nodes) = {y \<in> part. cmp y b < 0}"
    by (rule fetch_nodes [OF assms(1), of After True]) (simp add: start_sets)
  with nth_node_0 [OF nodes(2,3) CR] show ?thesis by blast
qed

lemma after_bound:
  assumes "plain_row b"
  shows "\<exists>nodes. input (take_req b After constraint False) = Inr nodes \<and>
    ((nth_node 0 nodes = None \<and> {y \<in> part. 0 < cmp y b} = {}) \<or>
     (\<exists>m. nth_node 0 nodes = Some m \<and> least cmp {y \<in> part. 0 < cmp y b} (node_row m)))"
proof -
  obtain nodes where nodes: "input (take_req b After constraint False) = Inr nodes" "sorted_cmp cmp (rows_of_items nodes)"
    "set (rows_of_items nodes) = {y \<in> part. 0 < cmp y b}"
    by (rule fetch_nodes [OF assms(1), of After False]) (simp add: start_sets)
  with nth_node_0 [OF nodes(2,3) C] show ?thesis by blast
qed

subsection \<open>Add\<close>

text \<open>
  A full partition: the row at the bound (\<open>x\<close>) and the one before it are fetched, and the new bound is the
  last of the rows before the old one.
\<close>

lemma add_before_bound:
  assumes h: "held conf k P st ts b" and full: "ts_size ts = tc_limit conf" and lt: "cmp (node_row nd) b < 0"
    and x: "x \<in> P" "cmp x b = 0" and r: "node_row nd \<notin> P" and P': "part = insert (node_row nd) P" and u: "uniq cmp part"
  obtains bn b' st1 where "take_push_add conf input nd ts k (tk_maxBound st) constraint st =
        Inr ([(CRemove bn, st1\<lparr>tk_hidden := Some (node_row nd)\<rparr>), (CAdd nd, st1\<lparr>tk_hidden := None\<rparr>)], st1\<lparr>tk_hidden := None\<rparr>)"
      "st1 = setTakeState conf k (ts_size ts) (Some b') (tk_maxBound st) st" "node_row bn = x" "cmp b' b < 0"
      "below cmp b' part = {y \<in> part. cmp y b < 0}" "b' \<in> part"
proof -
  let ?r = "node_row nd" and ?n = "ts_size ts"
  have bd: "ts_bound ts = Some b" and ok: "bound_ok cmp (tc_limit conf) ?n b P" and pl: "plain_row b"
    using h by (simp_all add: held_def)
  define go where "go = (\<lambda>(boundNode, beforeBoundNode).
    bind_result (found ''Take: boundNode must be found during fetch'' boundNode) (\<lambda>bn.
      let bound = (case beforeBoundNode of
            None \<Rightarrow> ?r | Some before \<Rightarrow> if 0 < cmp ?r (node_row before) then ?r else node_row before);
          st1 = setTakeState conf k ?n (Some bound) (tk_maxBound st) st;
          (evs, st2) = pushWithRowHiddenFromFetch ?r (CRemove bn) st1
      in Inr (evs @ [(CAdd nd, st2)], st2)))"
  have run: "take_push_add conf input nd ts k (tk_maxBound st) constraint st = bind_result
      (if tc_limit conf = 1
       then bind_result (input (take_req b At constraint False)) (\<lambda>nodes. Inr (nth_node 0 nodes, None))
       else bind_result (input (take_req b At constraint True)) (\<lambda>nodes. Inr (nth_node 0 nodes, nth_node 1 nodes))) go"
    using full lt by (simp add: take_push_add_def Let_def bd go_def)
  have xp: "x \<in> part" and xr: "?r \<in> part" and rb: "?r \<in> {y \<in> part. cmp y b < 0}" using x P' lt by simp_all
  show thesis
  proof (cases "tc_limit conf = 1")
    case True
    obtain nodes n where f: "input (take_req b At constraint False) = Inr nodes" "nth_node 0 nodes = Some n" "node_row n = x"
      using bound_forward [OF pl u xp x(2)] by blast
    have T: "below cmp b P = {x}" using limit_one [of ?n b P x] ok True x by simp
    have none: "\<not> cmp y b < 0" if "y \<in> P" for y
    proof
      assume "cmp y b < 0"
      then have "y = x" using T that by (metis below_iff less_imp_le singletonD)
      with x \<open>cmp y b < 0\<close> show False by simp
    qed
    have "y = ?r" if "y \<in> part" "cmp y ?r \<le> 0" for y
      using that none [of y] cmp_le_less_trans [OF that(2) lt] P' by auto
    then have "below cmp ?r part = {?r}" using rb cmp_refl [of ?r] by (auto simp: below_iff)
    moreover have "{y \<in> part. cmp y b < 0} = {?r}" using none rb P' by auto
    ultimately show thesis
      using that [of n _ ?r, OF _ refl f(3)] run f True lt xr by (simp add: go_def found_def pushWithRowHiddenFromFetch_def Let_def)
  next
    case False
    obtain nodes n m where f: "input (take_req b At constraint True) = Inr nodes" "nth_node 0 nodes = Some n" "node_row n = x"
      "nth_node 1 nodes = Some m" "least (\<lambda>x y. cmp y x) {y \<in> part. cmp y b < 0} (node_row m)"
      using bound_backward [OF pl u xp x(2)] rb by blast
    have "\<not> 0 < cmp ?r (node_row m)" using f(5) rb by (simp add: least_def not_less)
    moreover have "cmp (node_row m) b < 0" "node_row m \<in> part" using f(5) by (simp_all add: least_def)
    ultimately show thesis
      using that [of n _ "node_row m"] run f False below_greatest [OF f(5)]
      by (simp add: go_def found_def pushWithRowHiddenFromFetch_def Let_def)
  qed
qed

lemma push_add_full:
  assumes h: "held conf k P st ts b" and full: "ts_size ts = tc_limit conf" and lt: "cmp (node_row nd) b < 0"
    and r: "node_row nd \<notin> P" and P': "part = insert (node_row nd) P" and u: "uniq cmp part" and plain: "\<forall>x \<in> part. plain_row x"
  shows "\<exists>evs st'. take_push_add conf input nd ts k (tk_maxBound st) constraint st = Inr (evs, st') \<and>
    outcome conf k P part st evs st'"
proof -
  let ?r = "node_row nd" and ?n = "ts_size ts"
  have hid: "tk_hidden st = None" and ok: "bound_ok cmp (tc_limit conf) ?n b P" using h by (simp_all add: held_def)
  obtain x where x: "x \<in> P" "cmp x b = 0" using ok by (auto simp: bound_ok_def)
  obtain bn b' st1 where k: "take_push_add conf input nd ts k (tk_maxBound st) constraint st =
        Inr ([(CRemove bn, st1\<lparr>tk_hidden := Some ?r\<rparr>), (CAdd nd, st1\<lparr>tk_hidden := None\<rparr>)], st1\<lparr>tk_hidden := None\<rparr>)"
      "st1 = setTakeState conf k ?n (Some b') (tk_maxBound st) st" "node_row bn = x" "cmp b' b < 0"
      "below cmp b' part = {y \<in> part. cmp y b < 0}" "b' \<in> part"
    by (rule add_before_bound [OF h full lt x r P' u])
  have st1: "st1\<lparr>tk_hidden := None\<rparr> = st1" by (rule hidden_None) (simp add: k(2) set_state_simps hid)
  have ins: "insert ?r P = part" and rp: "?r \<in> part" using P' by simp_all
  have f: "bound_ok cmp (tc_limit conf) ?n b' part \<and> below cmp b' part = insert ?r (below cmp b P - {x})"
    using add_full [OF ok full lt r u [unfolded P'] x k(4), unfolded ins] k(5,6) cmp_refl by blast
  have rT: "?r \<notin> below cmp b P - {node_row bn}" using r by (simp add: below_iff)
  have "outcome conf k P part st [(CRemove bn, st1\<lparr>tk_hidden := Some ?r\<rparr>), (CAdd nd, st1)] st1"
  proof (rule outcome_set [OF h conjunct1 [OF f] _ k(2)])
    show "plain_row b'" using plain k(6) by blast
    show "events_ok conf k part (below cmp b P) [(CRemove bn, st1\<lparr>tk_hidden := Some ?r\<rparr>), (CAdd nd, st1)] (below cmp b' part)"
    proof (rule events_two [OF _ hid k(2) conjunct1 [OF f] held_finite [OF h] _ rT])
      have "shown_by conf k part (st1\<lparr>tk_hidden := Some ?r\<rparr>) = below cmp b' part - {?r}"
        unfolding k(2) by (rule hidden_shown [OF u rp C])
      then show "shown_by conf k part (st1\<lparr>tk_hidden := Some ?r\<rparr>) = below cmp b P - {node_row bn}"
        using f rT k(3) by auto
      show "node_row bn \<in> below cmp b P" using x k(3) by (simp add: below_iff)
      show "insert ?r (below cmp b P - {node_row bn}) = below cmp b' part" using f k(3) by simp
    qed
  qed
  with k(1) st1 show ?thesis by auto
qed

lemma push_add:
  assumes h: "held conf k P st ts b" and r: "node_row nd \<notin> P" "plain_row (node_row nd)"
    and P': "part = insert (node_row nd) P" and u: "uniq cmp part" and plain: "\<forall>x \<in> part. plain_row x"
  shows "\<exists>evs st'. take_push_add conf input nd ts k (tk_maxBound st) constraint st = Inr (evs, st') \<and>
    outcome conf k P part st evs st'"
proof -
  let ?r = "node_row nd" and ?n = "ts_size ts"
  have bd: "ts_bound ts = Some b" and hid: "tk_hidden st = None" and ok: "bound_ok cmp (tc_limit conf) ?n b P" and pl: "plain_row b"
    using h by (simp_all add: held_def)
  consider "?n < tc_limit conf" | "?n = tc_limit conf" "0 \<le> cmp ?r b" | "?n = tc_limit conf" "cmp ?r b < 0"
    using ok by (fastforce simp: bound_ok_def)
  then show ?thesis
  proof cases
    case 1
    define b' where "b' = (if cmp b ?r < 0 then ?r else b)"
    define st' where "st' = setTakeState conf k (?n + 1) (Some b') (tk_maxBound st) st"
    have run: "take_push_add conf input nd ts k (tk_maxBound st) constraint st = Inr ([(CAdd nd, st')], st')"
      using 1 by (simp add: take_push_add_def Let_def bd st'_def b'_def)
    note k = add_room [OF ok 1 r(1) u [unfolded P'], folded b'_def P']
    have "outcome conf k P part st [(CAdd nd, st')] st'"
    proof (rule outcome_set [OF h conjunct1 [OF k] _ st'_def])
      show "plain_row b'" using r pl by (simp add: b'_def)
      show "events_ok conf k part (below cmp b P) [(CAdd nd, st')] (below cmp b' part)"
        by (rule events_one [OF hid st'_def conjunct1 [OF k]]) (use k r in \<open>auto simp: below_def\<close>)
    qed
    with run show ?thesis by blast
  next
    case 2
    note k = add_after [OF ok 2 r(1) u [unfolded P'], folded P']
    have "take_push_add conf input nd ts k (tk_maxBound st) constraint st = Inr ([], st)"
      using 2 by (simp add: take_push_add_def Let_def bd)
    moreover have "outcome conf k P part st [] st" by (rule outcome_same [OF h conjunct1 [OF k] conjunct2 [OF k]]) simp
    ultimately show ?thesis by blast
  next
    case 3
    from push_add_full [OF h 3 r(1) P' u plain] show ?thesis .
  qed
qed

text \<open>The first row of a partition that was empty.\<close>

lemma push_add_empty:
  assumes st: "map_of (tk_states st) k = Some ts" "ts_bound ts = None" "ts_size ts = 0" "tk_hidden st = None"
    and lim: "0 < tc_limit conf" and pl: "plain_row (node_row nd)" and P': "part = {node_row nd}"
  shows "\<exists>evs st'. take_push_add conf input nd ts k (tk_maxBound st) constraint st = Inr (evs, st') \<and>
    outcome conf k {} part st evs st'"
proof -
  let ?r = "node_row nd"
  define st' where "st' = setTakeState conf k 1 (Some ?r) (tk_maxBound st) st"
  have run: "take_push_add conf input nd ts k (tk_maxBound st) constraint st = Inr ([(CAdd nd, st')], st')"
    using lim st by (simp add: take_push_add_def Let_def st'_def)
  have B: "below cmp ?r part = {?r}" by (auto simp: P' below_def)
  have ok: "bound_ok cmp (tc_limit conf) 1 ?r part" using lim by (simp add: bound_ok_def B) (simp add: P')
  have sh: "shown_by conf k {} st = {}" using st by (simp add: shown_by_def)
  have "events_ok conf k part {} [(CAdd nd, st')] (below cmp ?r part)"
    by (rule events_one [OF st(4) st'_def ok]) (simp_all add: B)
  moreover have sh': "shown_by conf k part st' = below cmp ?r part" unfolding st'_def by (rule shown_by_set(2) [OF st(4)])
  moreover have "state_ok conf part \<lparr>ts_size = 1, ts_bound = Some ?r\<rparr>" using ok pl by (simp add: state_ok_def)
  moreover have "max_ok conf st \<longrightarrow> max_ok conf st'" using set_state_max [OF C] by (simp add: st'_def)
  moreover have m: "map_of (tk_states st') = (map_of (tk_states st))(k \<mapsto> \<lparr>ts_size = 1, ts_bound = Some ?r\<rparr>)" "tk_hidden st' = None"
    by (simp_all add: st'_def set_state_simps st(4))
  ultimately have "outcome conf k {} part st [(CAdd nd, st')] st'"
    unfolding outcome_def sh sh' using m by blast
  with run show ?thesis by blast
qed

subsection \<open>Remove\<close>

lemma remove_scan_spec:
  "sorted_cmp cmp (map node_row ns) \<Longrightarrow> \<forall>n \<in> set ns. 0 \<le> cmp (node_row n) b \<Longrightarrow>
   (\<exists>n. remove_scan cmp b ns init = Some (n, True) \<and> least cmp {x \<in> node_row ` set ns. 0 < cmp x b} (node_row n)) \<or>
   ((\<forall>n \<in> set ns. cmp (node_row n) b = 0) \<and>
    ((ns = [] \<and> remove_scan cmp b ns init = init) \<or> (\<exists>n \<in> set ns. remove_scan cmp b ns init = Some (n, False))))"
proof (induction ns arbitrary: init)
  case (Cons n ns)
  show ?case
  proof (cases "0 < cmp (node_row n) b")
    case True
    have "\<forall>m \<in> set ns. cmp (node_row n) (node_row m) \<le> 0" using Cons.prems(1) by (simp add: sorted_rules less_imp_le)
    with True have "least cmp {x \<in> node_row ` set (n # ns). 0 < cmp x b} (node_row n)" unfolding least_def by auto
    with True show ?thesis by simp
  next
    case False
    then have n: "cmp (node_row n) b = 0" using Cons.prems(2) by simp
    have eq: "{x \<in> node_row ` set (n # ns). 0 < cmp x b} = {x \<in> node_row ` set ns. 0 < cmp x b}"
      "remove_scan cmp b (n # ns) init = remove_scan cmp b ns (Some (n, False))" using n by auto
    have "sorted_cmp cmp (map node_row ns)" "\<forall>n \<in> set ns. 0 \<le> cmp (node_row n) b"
      using Cons.prems by (simp_all add: sorted_rules)
    from Cons.IH [OF this, of "Some (n, False)"] n show ?thesis unfolding eq by auto
  qed
qed simp

text \<open>
  The search of the code: the first row after the bound if there is one, else the last of the rows left,
  if there is one. \<open>removed\<close> is what the code does with its result.
\<close>

definition removed :: "node \<Rightarrow> take_state \<Rightarrow> take_key \<Rightarrow> take_storage \<Rightarrow> (node \<times> bool) option \<Rightarrow> take_events \<times> take_storage" where
  "removed nd ts k st newBound = (case newBound of
     Some (n, True) \<Rightarrow>
       (let st' = setTakeState conf k (ts_size ts) (Some (node_row n)) (tk_maxBound st) st
        in ([(CRemove nd, st), (CAdd n, st')], st'))
   | _ \<Rightarrow>
       (let st' = setTakeState conf k (ts_size ts - 1) (map_option (\<lambda>(n, _). node_row n) newBound) (tk_maxBound st) st
        in ([(CRemove nd, st')], st')))"

lemma scan_cases:
  assumes init: "(init = None \<and> {y \<in> part. cmp y b < 0} = {}) \<or>
       (\<exists>m. init = Some (m, False) \<and> least (\<lambda>x y. cmp y x) {y \<in> part. cmp y b < 0} (node_row m))"
    and nodes: "sorted_cmp cmp (rows_of_items nodes)" "set (rows_of_items nodes) = {y \<in> part. 0 \<le> cmp y b}"
  obtains (refill) n where "remove_scan cmp b (skipYields nodes) init = Some (n, True)" "least cmp {y \<in> part. 0 < cmp y b} (node_row n)"
    | (keep) n where "remove_scan cmp b (skipYields nodes) init = Some (n, False)" "node_row n \<in> part"
        "\<forall>y \<in> part. cmp y b \<le> 0" "\<forall>y \<in> part. cmp y (node_row n) \<le> 0"
    | (empty) "remove_scan cmp b (skipYields nodes) init = None" "part = {}"
proof -
  have rows: "node_row ` set (skipYields nodes) = {y \<in> part. 0 \<le> cmp y b}"
    using nodes(2) by (simp add: rows_of_items_def)
  have all0: "\<forall>n \<in> set (skipYields nodes). 0 \<le> cmp (node_row n) b" using rows by blast
  have pos: "{x \<in> node_row ` set (skipYields nodes). 0 < cmp x b} = {y \<in> part. 0 < cmp y b}" unfolding rows by auto
  from remove_scan_spec [OF nodes(1) [unfolded rows_of_items_def] all0, of init]
  consider n where "remove_scan cmp b (skipYields nodes) init = Some (n, True)" "least cmp {y \<in> part. 0 < cmp y b} (node_row n)"
    | n where "\<forall>n \<in> set (skipYields nodes). cmp (node_row n) b = 0" "n \<in> set (skipYields nodes)"
        "remove_scan cmp b (skipYields nodes) init = Some (n, False)"
    | "skipYields nodes = []" "remove_scan cmp b (skipYields nodes) init = init"
    unfolding pos by blast
  then show thesis
  proof cases
    case (2 n)
    then have n: "node_row n \<in> part" "cmp (node_row n) b = 0" using rows by blast+
    have le: "cmp y b \<le> 0" if "y \<in> part" for y
    proof (rule ccontr)
      assume "\<not> cmp y b \<le> 0"
      then have "y \<in> node_row ` set (skipYields nodes)" using that unfolding rows by simp
      with 2(1) \<open>\<not> cmp y b \<le> 0\<close> show False by auto
    qed
    moreover have "cmp b (node_row n) \<le> 0" using n(2) cmp_zero_sym [of b "node_row n"] by simp
    ultimately show thesis using keep [OF 2(3) n(1)] cmp_trans by blast
  next
    case 3
    then have lt: "cmp y b < 0" if "y \<in> part" for y using rows that by (force simp: not_less)
    then have eq: "{y \<in> part. cmp y b < 0} = part" by auto
    from init [unfolded eq] show thesis
      using 3 empty keep lt unfolding least_def by (metis less_imp_le)
  qed (use refill in blast)
qed

lemma remove_search:
  assumes h: "held conf k P st ts b" and rb: "\<not> 0 < cmp (node_row nd) b"
  obtains (refill) n where "take_push_remove conf input nd ts k (tk_maxBound st) constraint st = Inr (removed nd ts k st (Some (n, True)))"
      "least cmp {y \<in> part. 0 < cmp y b} (node_row n)"
    | (keep) n where "take_push_remove conf input nd ts k (tk_maxBound st) constraint st = Inr (removed nd ts k st (Some (n, False)))"
      "node_row n \<in> part" "\<forall>y \<in> part. cmp y b \<le> 0" "\<forall>y \<in> part. cmp y (node_row n) \<le> 0"
    | (empty) "take_push_remove conf input nd ts k (tk_maxBound st) constraint st = Inr (removed nd ts k st None)" "part = {}"
proof -
  have bd: "ts_bound ts = Some b" and pl: "plain_row b" using h by (simp_all add: held_def)
  obtain before where before: "input (take_req b After constraint True) = Inr before"
    "(nth_node 0 before = None \<and> {y \<in> part. cmp y b < 0} = {}) \<or>
     (\<exists>m. nth_node 0 before = Some m \<and> least (\<lambda>x y. cmp y x) {y \<in> part. cmp y b < 0} (node_row m))"
    using before_bound [OF pl] by blast
  define init where "init = map_option (\<lambda>n. (n, 0 < cmp (node_row n) b)) (nth_node 0 before)"
  have neg: "\<not> 0 < cmp (node_row m) b" if "least (\<lambda>x y. cmp y x) {y \<in> part. cmp y b < 0} (node_row m)" for m
    using that by (simp add: least_def)
  have init: "(init = None \<and> {y \<in> part. cmp y b < 0} = {}) \<or>
     (\<exists>m. init = Some (m, False) \<and> least (\<lambda>x y. cmp y x) {y \<in> part. cmp y b < 0} (node_row m))"
    using before(2)
  proof
    assume "\<exists>m. nth_node 0 before = Some m \<and> least (\<lambda>x y. cmp y x) {y \<in> part. cmp y b < 0} (node_row m)"
    then show ?thesis using neg unfolding init_def by force
  qed (simp add: init_def)
  obtain nodes where nodes: "input (take_req b At constraint False) = Inr nodes" "sorted_cmp cmp (rows_of_items nodes)"
    "set (rows_of_items nodes) = {y \<in> part. 0 \<le> cmp y b}"
    by (rule fetch_nodes [OF pl, of At False]) (simp add: start_sets)
  have cond: "\<not> (case init of None \<Rightarrow> False | Some (_, p) \<Rightarrow> p)" using init by auto
  define fin :: "(node \<times> bool) option \<Rightarrow> (take_events \<times> take_storage) result" where "fin = (\<lambda>newBound. case newBound of
            Some (n, True) \<Rightarrow>
              (let st' = setTakeState conf k (ts_size ts) (Some (node_row n)) (tk_maxBound st) st
               in Inr ([(CRemove nd, st), (CAdd n, st')], st'))
          | _ \<Rightarrow>
              (let st' = setTakeState conf k (ts_size ts - 1) (map_option (\<lambda>(n, _). node_row n) newBound) (tk_maxBound st) st
               in Inr ([(CRemove nd, st')], st')))"
  have fin: "fin newBound = Inr (removed nd ts k st newBound)" for newBound
    by (auto simp: fin_def removed_def Let_def split: option.split bool.split)
  have "take_push_remove conf input nd ts k (tk_maxBound st) constraint st = bind_result
      (if (case init of None \<Rightarrow> False | Some (_, p) \<Rightarrow> p) then Inr init
       else bind_result (input (take_req b At constraint False)) (\<lambda>nodes.
         Inr (remove_scan cmp b (skipYields nodes) init))) fin"
    using rb before(1) by (simp add: take_push_remove_def Let_def bd init_def fin_def)
  then have "take_push_remove conf input nd ts k (tk_maxBound st) constraint st =
      Inr (removed nd ts k st (remove_scan cmp b (skipYields nodes) init))" using cond nodes(1) by (simp add: fin)
  then show thesis by (cases rule: scan_cases [OF init nodes(2,3)]) (use that in auto)
qed

lemma push_remove_last:
  assumes h: "held conf k P st ts b" and P: "P = {node_row nd}" and P': "part = {}" and rb: "cmp (node_row nd) b \<le> 0"
    and st': "st' = setTakeState conf k (ts_size ts - 1) None (tk_maxBound st) st"
  shows "outcome conf k P part st [(CRemove nd, st')] st'"
proof -
  have hid: "tk_hidden st = None" and ok: "bound_ok cmp (tc_limit conf) (ts_size ts) b P" using h by (simp_all add: held_def)
  have T: "below cmp b P = {node_row nd}" using rb by (auto simp: below_def P)
  have n0: "ts_size ts - 1 = 0" using ok by (simp add: bound_ok_def T)
  have state: "state_ok conf part \<lparr>ts_size = 0, ts_bound = None\<rparr>" using P' by (simp add: state_ok_def)
  have "shown_by conf k part st' = {}" unfolding st' by (rule shown_by_set(3))
  moreover have "max_ok conf st \<longrightarrow> max_ok conf st'" using set_state_max [OF C] by (simp add: st')
  moreover have "events_ok conf k part {node_row nd} [(CRemove nd, st')] {}"
    using calculation(1) h by (simp add: held_def bound_ok_def)
  moreover have "tk_hidden st' = None" "map_of (tk_states st') = (map_of (tk_states st))(k \<mapsto> \<lparr>ts_size = 0, ts_bound = None\<rparr>)"
    by (simp_all add: st' set_state_simps hid n0)
  ultimately show ?thesis unfolding outcome_def held_shown [OF h] T using state by metis
qed

lemma push_remove:
  assumes h: "held conf k P st ts b" and r: "node_row nd \<in> P"
    and P': "part = P - {node_row nd}" and u: "uniq cmp P" and plain: "\<forall>x \<in> part. plain_row x"
  shows "\<exists>evs st'. take_push_remove conf input nd ts k (tk_maxBound st) constraint st = Inr (evs, st') \<and>
    outcome conf k P part st evs st'"
proof -
  let ?r = "node_row nd" and ?n = "ts_size ts"
  have bd: "ts_bound ts = Some b" and hid: "tk_hidden st = None" and ok: "bound_ok cmp (tc_limit conf) ?n b P"
    using h by (simp_all add: held_def)
  show ?thesis
  proof (cases "0 < cmp ?r b")
    case True
    note k = remove_after [OF ok r True, folded P']
    have "take_push_remove conf input nd ts k (tk_maxBound st) constraint st = Inr ([], st)"
      using True by (simp add: take_push_remove_def Let_def bd)
    moreover have "outcome conf k P part st [] st" by (rule outcome_same [OF h conjunct1 [OF k] conjunct2 [OF k]]) simp
    ultimately show ?thesis by blast
  next
    case False
    then have rb: "cmp ?r b \<le> 0" by simp
    show ?thesis
    proof (cases rule: remove_search [OF h False, case_names refill keep empty])
      case (refill n)
      define st' where "st' = setTakeState conf k ?n (Some (node_row n)) (tk_maxBound st) st"
      note f = remove_refill [OF ok r rb u refill(2) [unfolded P'], folded P']
      have np: "node_row n \<in> part" "0 < cmp (node_row n) b" using refill(2) by (simp_all add: least_def)
      then have nT: "node_row n \<notin> below cmp b P - {?r}" by (simp add: below_iff)
      have old: "shown_by conf k part st = below cmp b P - {?r}" unfolding held_shown [OF h] P' by (auto simp: below_def)
      have "outcome conf k P part st [(CRemove nd, st), (CAdd n, st')] st'"
      proof (rule outcome_set [OF h conjunct1 [OF f] _ st'_def])
        show "plain_row (node_row n)" using plain np(1) by blast
        show "events_ok conf k part (below cmp b P) [(CRemove nd, st), (CAdd n, st')] (below cmp (node_row n) part)"
          by (rule events_two [OF old hid st'_def conjunct1 [OF f] held_finite [OF h] _ nT])
            (use f r rb in \<open>auto simp: below_iff\<close>)
      qed
      with refill(1) show ?thesis by (simp add: st'_def removed_def Let_def)
    next
      case (keep n)
      define st' where "st' = setTakeState conf k (?n - 1) (Some (node_row n)) (tk_maxBound st) st"
      note sh = remove_shrink [OF ok r rb, folded P', OF keep(3)]
      note f = sh(3) [OF keep(2,4)]
      have "outcome conf k P part st [(CRemove nd, st')] st'"
      proof (rule outcome_set [OF h conjunct1 [OF f] _ st'_def])
        show "plain_row (node_row n)" using plain keep(2) by blast
        show "events_ok conf k part (below cmp b P) [(CRemove nd, st')] (below cmp (node_row n) part)"
          by (rule events_one [OF hid st'_def conjunct1 [OF f]]) (use r f P' in \<open>simp_all add: sh(1)\<close>)
      qed
      with keep(1) show ?thesis by (simp add: st'_def removed_def Let_def)
    next
      case empty
      define st' where "st' = setTakeState conf k (?n - 1) None (tk_maxBound st) st"
      have "P = {?r}" using empty(2) P' r by auto
      from push_remove_last [OF h this empty(2) rb st'_def] empty(1) show ?thesis by (simp add: st'_def removed_def Let_def)
    qed
  qed
qed

end

subsection \<open>Edit\<close>

text \<open>
  An edit of a row of the partition. \<open>take_edit\<close> holds what is known before it; \<open>replaced_ok\<close>, \<open>kept_ok\<close> and
  \<open>swapped_ok\<close> are the three ways it ends: the new row becomes the bound, the bound stays, or one row leaves
  the output and another comes in.
\<close>

locale take_edit = take_step conf input rows ok constraint for conf input rows ok constraint +
  fixes P :: "row set" and k :: take_key and st :: take_storage and ts :: take_state and b :: row and nd old :: node
  assumes h: "held conf k P st ts b" and old_in: "node_row old \<in> P"
    and new_row: "node_row nd = node_row old \<or> node_row nd \<notin> P" "plain_row (node_row nd)"
    and P': "part = insert (node_row nd) (P - {node_row old})" and u: "uniq cmp P" and u': "uniq cmp part"
    and plain: "\<forall>x \<in> part. plain_row x"
begin

abbreviation newr :: row where "newr \<equiv> node_row nd"
abbreviation oldr :: row where "oldr \<equiv> node_row old"
abbreviation cnt :: int where "cnt \<equiv> ts_size ts"
abbreviation taken :: "row set" where "taken \<equiv> below cmp b P"
abbreviation ends :: "(take_events \<times> take_storage) result \<Rightarrow> bool" where
  "ends r \<equiv> \<exists>evs st'. r = Inr (evs, st') \<and> outcome conf k P part st evs st'"

lemma before: "ts_bound ts = Some b" "tk_hidden st = None" "bound_ok cmp (tc_limit conf) cnt b P" "plain_row b"
  using h by (simp_all add: held_def)

lemma new_in: "newr \<in> part"
  using P' by simp

lemma new_out: "oldr = x \<or> oldr \<notin> taken \<Longrightarrow> newr \<notin> taken - {x}"
  using new_row(1) by (auto simp: below_iff)

lemma in_part: "y \<in> part \<Longrightarrow> y = newr \<or> (y \<in> P \<and> y \<noteq> oldr)"
  using P' by blast

lemma low: "below cmp b part = (if cmp newr b \<le> 0 then insert newr (taken - {oldr}) else taken - {oldr})"
  unfolding P' by (auto simp: below_def)

lemma member_bound: "y \<in> A \<Longrightarrow> \<exists>x \<in> A. cmp x y = 0"
  using cmp_refl by blast

lemmas step = edit_step [OF before(3) P']

lemma replaced_ok:
  assumes q: "oldr \<in> taken" and T': "below cmp newr part = insert newr (taken - {oldr})"
    and room: "cnt < tc_limit conf \<Longrightarrow> \<forall>x \<in> part. cmp x newr \<le> 0"
  shows "ends (Inr (replaceBoundAndForwardChange conf (CEdit nd old) newr ts k (tk_maxBound st) st))"
proof -
  define st' where "st' = setTakeState conf k cnt (Some newr) (tk_maxBound st) st"
  have ok': "bound_ok cmp (tc_limit conf) cnt newr part"
    by (rule step [OF T' q new_out member_bound [OF new_in] room]) simp_all
  have "outcome conf k P part st [(CEdit nd old, st')] st'"
  proof (rule outcome_set [OF h ok' new_row(2) st'_def])
    show "events_ok conf k part taken [(CEdit nd old, st')] (below cmp newr part)"
      by (rule events_one [OF before(2) st'_def ok']) (use q new_row T' in \<open>auto simp: below_iff\<close>)
  qed
  then show ?thesis by (simp add: replaceBoundAndForwardChange_def st'_def Let_def)
qed

lemma kept_ok:
  assumes q: "oldr \<in> taken" and mb: "cmp newr b \<le> 0" and r: "\<exists>x \<in> part. cmp x b = 0"
  shows "outcome conf k P part st [(CEdit nd old, st)] st"
proof -
  have T': "below cmp b part = insert newr (taken - {oldr})" using low mb by simp
  have ok': "bound_ok cmp (tc_limit conf) cnt b part"
  proof (rule step [OF T' q new_out r])
    assume "cnt < tc_limit conf"
    then show "\<forall>x \<in> part. cmp x b \<le> 0" using before(3) mb in_part by (auto simp: bound_ok_def)
  qed simp
  show ?thesis by (rule outcome_same [OF h ok' refl]) (use q new_row T' in \<open>auto simp: below_iff\<close>)
qed

lemma swapped_ok:
  assumes x: "node_row x \<in> taken" and y: "node_row y \<notin> taken - {node_row x}" "node_row y \<in> part"
    and T': "below cmp b' part = insert (node_row y) (taken - {node_row x})" and b': "b' \<in> part" and full: "cnt = tc_limit conf"
    and st': "st' = setTakeState conf k cnt (Some b') (tk_maxBound st) st"
    and st1: "st1 = st'\<lparr>tk_hidden := Some (node_row y)\<rparr> \<or> (st1 = st \<and> below cmp b part = taken - {node_row x})"
  shows "outcome conf k P part st [(CRemove x, st1), (CAdd y, st')] st'"
proof -
  have ok': "bound_ok cmp (tc_limit conf) cnt b' part"
    by (rule step [OF T' x y(1) member_bound [OF b']]) (use full in simp)
  have shown: "shown_by conf k part st1 = taken - {node_row x}"
    using st1
  proof
    assume "st1 = st'\<lparr>tk_hidden := Some (node_row y)\<rparr>"
    then have "shown_by conf k part st1 = below cmp b' part - {node_row y}"
      unfolding st' by (simp add: hidden_shown [OF u' y(2) C])
    then show ?thesis using T' y(1) by auto
  qed (simp add: held_shown [OF h])
  show ?thesis
  proof (rule outcome_set [OF h ok' _ st'])
    show "plain_row b'" using plain b' by blast
    show "events_ok conf k part taken [(CRemove x, st1), (CAdd y, st')] (below cmp b' part)"
      by (rule events_two [OF shown before(2) st' ok' held_finite [OF h] x y(1)]) (simp add: T')
  qed
qed

text \<open>The new row is after the bound and the first there, or another row is.\<close>

lemma above_bound:
  assumes mb: "0 < cmp newr b" and s: "least cmp {y \<in> part. 0 < cmp y b} newr"
  shows "below cmp newr part = insert newr (taken - {oldr})" "cnt < tc_limit conf \<Longrightarrow> \<forall>x \<in> part. cmp x newr \<le> 0"
proof -
  show "below cmp newr part = insert newr (taken - {oldr})" using below_least [OF s u'] low mb by simp
  assume "cnt < tc_limit conf"
  then have "cmp y b \<le> 0" if "y \<in> P" for y using before(3) that by (simp add: bound_ok_def)
  moreover have "cmp b newr \<le> 0" using mb cmp_pos [of newr b] by simp
  ultimately show "\<forall>x \<in> part. cmp x newr \<le> 0" using in_part cmp_trans cmp_refl [of newr] by (metis order_refl)
qed

lemma later_row:
  assumes "least cmp {y \<in> part. 0 < cmp y b} (node_row s')" "cmp (node_row s') newr \<noteq> 0"
  shows "node_row s' \<in> part" "node_row s' \<notin> taken" "cnt = tc_limit conf"
proof -
  have sp: "node_row s' \<in> part" "0 < cmp (node_row s') b" using assms(1) by (simp_all add: least_def)
  have "node_row s' \<noteq> newr" using assms(2) cmp_refl [of newr] by auto
  then have "node_row s' \<in> P" using in_part [OF sp(1)] by simp
  then show "node_row s' \<in> part" "node_row s' \<notin> taken" "cnt = tc_limit conf"
    using sp full_if_after [OF before(3) _ sp(2)] by (simp_all add: below_iff)
qed

lemma first_after:
  assumes "least cmp {y \<in> part. 0 < cmp y b} (node_row s')" "cmp (node_row s') newr = 0"
  shows "node_row s' = newr"
  using u' new_in assms by (simp add: uniq_def least_def)

text \<open>What the row found after the bound leads to, for a row that was taken and goes after the bound.\<close>

lemma moved_after:
  assumes q: "oldr \<in> taken" and mb: "0 < cmp newr b" and s: "least cmp {y \<in> part. 0 < cmp y b} (node_row s')"
  shows "cmp (node_row s') newr = 0 \<Longrightarrow> ends (Inr (replaceBoundAndForwardChange conf (CEdit nd old) newr ts k (tk_maxBound st) st))"
    and "cmp (node_row s') newr \<noteq> 0 \<Longrightarrow> st' = setTakeState conf k cnt (Some (node_row s')) (tk_maxBound st) st \<Longrightarrow>
      st1 = st'\<lparr>tk_hidden := Some (node_row s')\<rparr> \<or> st1 = st \<Longrightarrow>
      outcome conf k P part st [(CRemove old, st1), (CAdd s', st')] st'"
proof -
  assume eq: "cmp (node_row s') newr = 0"
  show "ends (Inr (replaceBoundAndForwardChange conf (CEdit nd old) newr ts k (tk_maxBound st) st))"
    by (rule replaced_ok [OF q above_bound [OF mb]]) (use s first_after [OF s eq] in simp_all)
next
  assume ne: "cmp (node_row s') newr \<noteq> 0" and st': "st' = setTakeState conf k cnt (Some (node_row s')) (tk_maxBound st) st"
    and st1: "st1 = st'\<lparr>tk_hidden := Some (node_row s')\<rparr> \<or> st1 = st"
  have T': "below cmp (node_row s') part = insert (node_row s') (taken - {oldr})" using below_least [OF s u'] low mb by simp
  note l = later_row [OF s ne]
  show "outcome conf k P part st [(CRemove old, st1), (CAdd s', st')] st'"
    by (rule swapped_ok [OF q _ l(1) T' l(1,3) st']) (use l st1 low mb in auto)
qed

lemma hidden_gone:
  "st' = setTakeState conf k cnt (Some b') (tk_maxBound st) st \<Longrightarrow> st'\<lparr>tk_hidden := None\<rparr> = st'"
  by (rule hidden_None) (simp add: set_state_simps before(2))

text \<open>The edited row was the bound: it stays there, goes before it or after it.\<close>

lemma at_bound_before:
  assumes q0: "cmp oldr b = 0" and lt: "cmp newr b < 0"
  shows "ends (edit_at_bound conf input nd old b ts k (tk_maxBound st) constraint st)"
proof -
  have q: "oldr \<in> taken" using old_in q0 by (simp add: below_iff)
  have rest: "cmp y b < 0" if "y \<in> P" "y \<noteq> oldr" "cmp y b \<le> 0" for y
    using rep_only [OF u old_in q0 that(1)] that(2,3) by (auto simp: le_less)
  have eq: "{y \<in> part. cmp y b < 0} = insert newr (taken - {oldr})"
    using rest lt unfolding P' by (auto simp: below_def less_imp_le)
  show ?thesis
  proof (cases "tc_limit conf = 1")
    case True
    have T: "taken = {oldr}" using limit_one [of cnt b P oldr] before(3) True old_in q0 by simp
    have "below cmp newr part = insert newr (taken - {oldr})"
      using cmp_le_less_trans [OF _ lt] eq T new_in cmp_refl [of newr] by (auto simp: below_def)
    moreover have "cnt = tc_limit conf" using before(3) True by (simp add: bound_ok_def T)
    ultimately have "ends (Inr (replaceBoundAndForwardChange conf (CEdit nd old) newr ts k (tk_maxBound st) st))"
      using q by (intro replaced_ok) simp_all
    with lt True show ?thesis by (simp add: edit_at_bound_def Let_def)
  next
    case False
    obtain nodes g where f: "input (take_req b After constraint True) = Inr nodes" "nth_node 0 nodes = Some g"
      "least (\<lambda>x y. cmp y x) {y \<in> part. cmp y b < 0} (node_row g)"
      using before_bound [OF before(4)] eq by blast
    define st' where "st' = setTakeState conf k cnt (Some (node_row g)) (tk_maxBound st) st"
    have gp: "node_row g \<in> part" using f(3) by (simp add: least_def)
    have T': "below cmp (node_row g) part = insert newr (taken - {oldr})" using below_greatest [OF f(3)] eq by simp
    have ok': "bound_ok cmp (tc_limit conf) cnt (node_row g) part"
    proof (rule step [OF T' q new_out member_bound [OF gp]])
      assume "cnt < tc_limit conf"
      then have "cmp y b < 0" if "y \<in> part" for y
        using in_part [OF that] lt rest [of y] before(3) by (auto simp: bound_ok_def)
      then show "\<forall>x \<in> part. cmp x (node_row g) \<le> 0" using f(3) by (simp add: least_def)
    qed simp
    have "outcome conf k P part st [(CEdit nd old, st')] st'"
    proof (rule outcome_set [OF h ok' _ st'_def])
      show "plain_row (node_row g)" using plain gp by blast
      show "events_ok conf k part taken [(CEdit nd old, st')] (below cmp (node_row g) part)"
        by (rule events_one [OF before(2) st'_def ok']) (use q new_row T' in \<open>auto simp: below_iff\<close>)
    qed
    with lt False f(1,2) show ?thesis by (simp add: edit_at_bound_def Let_def found_def st'_def)
  qed
qed

lemma at_bound:
  assumes q0: "cmp oldr b = 0"
  shows "ends (edit_at_bound conf input nd old b ts k (tk_maxBound st) constraint st)"
proof -
  have q: "oldr \<in> taken" using old_in q0 by (simp add: below_iff)
  consider "cmp newr b = 0" | "cmp newr b < 0" | "0 < cmp newr b" by linarith
  then show ?thesis
  proof cases
    case 1
    have "outcome conf k P part st [(CEdit nd old, st)] st" by (rule kept_ok [OF q]) (use 1 new_in in auto)
    with 1 show ?thesis by (simp add: edit_at_bound_def Let_def)
  next
    case 2
    with q0 show ?thesis by (rule at_bound_before)
  next
    case 3
    obtain nodes where nodes: "input (take_req b At constraint False) = Inr nodes" "sorted_cmp cmp (rows_of_items nodes)"
      "set (rows_of_items nodes) = {y \<in> part. 0 \<le> cmp y b}"
      by (rule fetch_nodes [OF before(4), of At False]) (simp add: start_sets)
    have "{y \<in> part. 0 \<le> cmp y b} = {y \<in> part. 0 < cmp y b}"
      using in_part 3 rep_only [OF u old_in q0] by (auto simp: le_less)
    with nth_node_0 [OF nodes(2,3) C] new_in 3 obtain s' where s': "nth_node 0 nodes = Some s'"
      "least cmp {y \<in> part. 0 < cmp y b} (node_row s')" by auto
    define st' where "st' = setTakeState conf k cnt (Some (node_row s')) (tk_maxBound st) st"
    show ?thesis
    proof (cases "cmp (node_row s') newr = 0")
      case True
      from moved_after(1) [OF q 3 s'(2) True] 3 True nodes(1) s'(1) show ?thesis
        by (simp add: edit_at_bound_def Let_def found_def)
    next
      case False
      have "outcome conf k P part st [(CRemove old, st'\<lparr>tk_hidden := Some (node_row s')\<rparr>), (CAdd s', st')] st'"
        by (rule moved_after(2) [OF q 3 s'(2) False st'_def]) simp
      with 3 False nodes(1) s'(1) hidden_gone [OF st'_def] show ?thesis
        by (simp add: edit_at_bound_def Let_def found_def pushWithRowHiddenFromFetch_def flip: st'_def)
    qed
  qed
qed

text \<open>The edited row was not the bound, which is in the partition still.\<close>

lemma bound_stays:
  assumes "cmp oldr b \<noteq> 0"
  obtains x where "x \<in> P" "x \<in> part" "cmp x b = 0" "cmp newr b \<noteq> 0"
proof -
  obtain x where x: "x \<in> P" "cmp x b = 0" using before(3) by (auto simp: bound_ok_def)
  have ne: "x \<noteq> oldr" using x assms by auto
  then have xp: "x \<in> part" using x P' by simp
  have "cmp newr b \<noteq> 0" using rep_only [OF u' xp x(2) new_in] new_row(1) x ne by auto
  then show thesis by (rule that [OF x(1) xp x(2)])
qed

lemma after_bound_edit:
  assumes q1: "0 < cmp oldr b"
  shows "ends (edit_after_bound conf input nd old b ts k (tk_maxBound st) constraint st)"
proof -
  have qT: "oldr \<notin> taken" using q1 by (simp add: below_iff)
  obtain x where x: "x \<in> P" "x \<in> part" "cmp x b = 0" and ne: "cmp newr b \<noteq> 0"
    by (rule bound_stays) (use q1 in simp)
  have full: "cnt = tc_limit conf" by (rule full_if_after [OF before(3) old_in q1])
  show ?thesis
  proof (cases "0 < cmp newr b")
    case True
    have T': "below cmp b part = taken" using low True qT by simp
    have "bound_ok cmp (tc_limit conf) cnt b part"
      using before(3) full x T' unfolding bound_ok_def P' by auto
    from outcome_same [OF h this T'] have "outcome conf k P part st [] st" by simp
    with True show ?thesis by (simp add: edit_after_bound_def Let_def)
  next
    case False
    then have mb: "cmp newr b < 0" using ne by simp
    obtain nodes n g where f: "input (take_req b At constraint True) = Inr nodes" "nth_node 0 nodes = Some n" "node_row n = x"
      "nth_node 1 nodes = Some g" "least (\<lambda>x y. cmp y x) {y \<in> part. cmp y b < 0} (node_row g)"
      using bound_backward [OF before(4) u' x(2,3)] new_in mb by blast
    define st' where "st' = setTakeState conf k cnt (Some (node_row g)) (tk_maxBound st) st"
    have gp: "node_row g \<in> part" using f(5) by (simp add: least_def)
    have mx: "newr \<noteq> x" using mb x by auto
    have "below cmp (node_row g) part = below cmp b part - {x}"
      unfolding below_greatest [OF f(5)] by (rule strictly_below [OF u' x(2,3)])
    then have T': "below cmp (node_row g) part = insert newr (taken - {x})" using low mb qT mx by auto
    have "outcome conf k P part st [(CRemove n, st'\<lparr>tk_hidden := Some newr\<rparr>), (CAdd nd, st')] st'"
      by (rule swapped_ok [OF _ _ new_in _ gp full st'_def]) (use f(3) x T' new_out [of x] qT in \<open>auto simp: below_iff\<close>)
    with mb f(1,2,4) hidden_gone [OF st'_def] show ?thesis
      by (simp add: edit_after_bound_def Let_def found_def pushWithRowHiddenFromFetch_def flip: st'_def)
  qed
qed

lemma before_bound_edit:
  assumes q2: "cmp oldr b < 0"
  shows "ends (edit_before_bound conf input nd old b ts k (tk_maxBound st) constraint st)"
proof -
  have q: "oldr \<in> taken" using old_in q2 by (simp add: below_iff)
  obtain x where x: "x \<in> P" "x \<in> part" "cmp x b = 0" and ne: "cmp newr b \<noteq> 0"
    by (rule bound_stays) (use q2 in simp)
  show ?thesis
  proof (cases "cmp newr b < 0")
    case True
    have "outcome conf k P part st [(CEdit nd old, st)] st" by (rule kept_ok [OF q]) (use True x in auto)
    with True show ?thesis by (simp add: edit_before_bound_def Let_def)
  next
    case False
    then have mb: "0 < cmp newr b" using ne by simp
    obtain nodes s' where f: "input (take_req b After constraint False) = Inr nodes" "nth_node 0 nodes = Some s'"
      "least cmp {y \<in> part. 0 < cmp y b} (node_row s')"
      using after_bound [OF before(4)] new_in mb by blast
    define st' where "st' = setTakeState conf k cnt (Some (node_row s')) (tk_maxBound st) st"
    show ?thesis
    proof (cases "cmp (node_row s') newr = 0")
      case True
      from moved_after(1) [OF q mb f(3) True] mb True f(1,2) show ?thesis
        by (simp add: edit_before_bound_def Let_def found_def)
    next
      case False
      have "outcome conf k P part st [(CRemove old, st), (CAdd s', st')] st'"
        by (rule moved_after(2) [OF q mb f(3) False st'_def]) simp
      with mb False f(1,2) show ?thesis by (simp add: edit_before_bound_def Let_def found_def flip: st'_def)
    qed
  qed
qed

end

end
