(* ===== verification/TakeCorrect.thy ===== *)
theory TakeCorrect
  imports TakePush
begin

section \<open>Correctness of Take (take.ts)\<close>

text \<open>
  The invariant of the operator over all its partitions, and its three operations: the fetch that
  hydrates a partition, the fetches after it, and a push.
\<close>

definition part_of :: "take_conf \<Rightarrow> take_key \<Rightarrow> row set \<Rightarrow> row set" where
  "part_of conf k S = {x \<in> S. getTakeStateKey (tc_partition conf) (Some x) = k}"

definition take_inv :: "take_conf \<Rightarrow> row set \<Rightarrow> take_storage \<Rightarrow> bool" where
  "take_inv conf S st \<longleftrightarrow> tk_hidden st = None \<and> max_ok conf st \<and>
     (\<forall>k ts. map_of (tk_states st) k = Some ts \<longrightarrow> 0 < tc_limit conf \<and> state_ok conf (part_of conf k S) ts)"

lemma new_take_inv: "new_take srt primaryKey limit = Inr st \<Longrightarrow> take_inv conf S st"
  by (auto simp: new_take_def take_inv_def max_ok_def bind_result_eq_Inr split: if_splits option.splits)

text \<open>A row whose partition columns are not null, the only ones a constraint can match.\<close>

definition keyed :: "take_conf \<Rightarrow> row \<Rightarrow> bool" where
  "keyed conf r \<longleftrightarrow> (\<forall>keys. tc_partition conf = Some keys \<longrightarrow>
     (\<forall>key \<in> set keys. normalizeUndefined (get_field r key) \<noteq> JNull))"

definition row_constraint :: "take_conf \<Rightarrow> row \<Rightarrow> constraint option" where
  "row_constraint conf r = map_option (map (\<lambda>key. (key, get_field r key))) (tc_partition conf)"

fun changed_row :: "change \<Rightarrow> row" where
  "changed_row (CAdd n) = node_row n"
| "changed_row (CRemove n) = node_row n"
| "changed_row (CChild n rel c) = node_row n"
| "changed_row (CEdit n old) = node_row old"

text \<open>The contract of a push: an edit stays in its partition, the new rows are plain.\<close>

fun push_fits :: "take_conf \<Rightarrow> change \<Rightarrow> bool" where
  "push_fits conf (CAdd n) \<longleftrightarrow> plain_row (node_row n) \<and> keyed conf (node_row n)"
| "push_fits conf (CRemove n) \<longleftrightarrow> keyed conf (node_row n)"
| "push_fits conf (CChild n rel c) \<longleftrightarrow> keyed conf (node_row n)"
| "push_fits conf (CEdit n old) \<longleftrightarrow> plain_row (node_row n) \<and> keyed conf (node_row old) \<and>
     getTakeStateKey (tc_partition conf) (Some (node_row n)) = getTakeStateKey (tc_partition conf) (Some (node_row old))"

lemma valuesEqual_normal:
  "normalizeUndefined b \<noteq> JNull \<Longrightarrow> valuesEqual a b \<longleftrightarrow> normalizeUndefined a = normalizeUndefined b"
  by (cases a; cases b) (auto simp: valuesEqual_def normalizeUndefined_def)

lemma row_constraint_part:
  assumes "keyed conf r"
  shows "{x \<in> S. matches (row_constraint conf r) x} = part_of conf (getTakeStateKey (tc_partition conf) (Some r)) S"
proof (cases "tc_partition conf")
  case None
  then show ?thesis by (simp add: matches_def row_constraint_def part_of_def getTakeStateKey_def)
next
  case (Some keys)
  have "matches (row_constraint conf r) x \<longleftrightarrow>
      getTakeStateKey (tc_partition conf) (Some x) = getTakeStateKey (tc_partition conf) (Some r)" for x
    using assms valuesEqual_normal
    by (auto simp: Some matches_def row_constraint_def getTakeStateKey_def constraintMatchesRow_iff keyed_def)
  then show ?thesis by (simp add: part_of_def)
qed

lemma partition_unchanged:
  assumes "keyed conf a" "getTakeStateKey (tc_partition conf) (Some b) = getTakeStateKey (tc_partition conf) (Some a)"
    "tc_partition conf = Some keys"
  shows "makePartitionKeyComparator u8 keys a b = Inr 0"
proof -
  have eq: "\<forall>key \<in> set keys. normalizeUndefined (get_field b key) = normalizeUndefined (get_field a key)"
    using assms(2) by (simp add: getTakeStateKey_def assms(3))
  then show ?thesis by (induction keys) (auto simp: compareValues_def Let_def)
qed

subsection \<open>Push\<close>

lemma state_cases:
  assumes "state_ok conf P ts" "map_of (tk_states st) k = Some ts" "tk_hidden st = None" "comparator (tc_compare conf)"
  obtains b where "held conf k P st ts b" | "ts_bound ts = None" "P = {}" "ts_size ts = 0"
  using assms by (cases "ts_bound ts") (auto simp: state_ok_def held_def)

text \<open>What \<open>push\<close> does in a partition that has no state, and in one that has.\<close>

lemma push_state:
  "getStateAndConstraint conf r st = (let k = getTakeStateKey (tc_partition conf) (Some r) in
     (map_of (tk_states st) k, k, if map_of (tk_states st) k = None then None else tk_maxBound st,
      if map_of (tk_states st) k = None then None else row_constraint conf r))"
  by (simp add: getStateAndConstraint_def Let_def row_constraint_def split: option.split)

lemma push_edit_guard:
  assumes "push_fits conf (CEdit n old)"
  shows "(case tc_partition conf of
       None \<Rightarrow> Inr ()
     | Some keys \<Rightarrow> bind_result (makePartitionKeyComparator u8 keys (node_row old) (node_row n)) (\<lambda>c.
         if c = 0 then Inr () else Inl (AssertionFailed ''Unexpected change of partition key''))) = Inr ()"
proof (cases "tc_partition conf")
  case (Some keys)
  then have "makePartitionKeyComparator u8 keys (node_row old) (node_row n) = Inr 0"
    using assms partition_unchanged [of conf "node_row old" "node_row n"] by simp
  then show ?thesis by (simp add: Some)
qed simp

lemma push_not_hydrated:
  assumes "push_fits conf change"
    "map_of (tk_states st) (getTakeStateKey (tc_partition conf) (Some (changed_row change))) = None"
  shows "take_push u8 conf input change st = Inr ([], st)"
proof (cases change)
  case (CEdit n old)
  with assms show ?thesis by (simp add: take_push_def pushEditChange_def push_edit_guard push_state Let_def del: push_fits.simps)
qed (use assms in \<open>simp_all add: take_push_def push_state Let_def\<close>)

lemma push_hydrated:
  assumes "push_fits conf change" "k = getTakeStateKey (tc_partition conf) (Some (changed_row change))"
    "map_of (tk_states st) k = Some ts" "con = row_constraint conf (changed_row change)"
  shows "take_push u8 conf input change st = (case change of
     CAdd n \<Rightarrow> take_push_add conf input n ts k (tk_maxBound st) con st
   | CRemove n \<Rightarrow> take_push_remove conf input n ts k (tk_maxBound st) con st
   | CChild n rel c \<Rightarrow> (case ts_bound ts of
        None \<Rightarrow> Inr ([], st)
      | Some b \<Rightarrow> if tc_compare conf (node_row n) b \<le> 0 then Inr ([(CChild n rel c, st)], st) else Inr ([], st))
   | CEdit n old \<Rightarrow> (case ts_bound ts of
        None \<Rightarrow> Inl (AssertionFailed ''Bound should be set'')
      | Some b \<Rightarrow>
          (let oldCmp = tc_compare conf (node_row old) b
           in if oldCmp = 0 then edit_at_bound conf input n old b ts k (tk_maxBound st) con st
              else if 0 < oldCmp then edit_after_bound conf input n old b ts k (tk_maxBound st) con st
              else edit_before_bound conf input n old b ts k (tk_maxBound st) con st)))"
proof (cases change)
  case (CEdit n old)
  have "getStateAndConstraint conf (node_row old) st = (Some ts, k, tk_maxBound st, con)"
    using assms CEdit by (simp add: push_state Let_def)
  with assms(1) show ?thesis by (simp add: CEdit take_push_def pushEditChange_def push_edit_guard del: push_fits.simps)
qed (use assms in \<open>simp_all add: take_push_def push_state Let_def\<close>)

lemma take_push_step:
  assumes input: "pipeline_input (tc_compare conf) input S' ok" and inv: "take_inv conf S st"
    and S': "S' = apply_push change S" and push: "push_ok change S" and fits: "push_fits conf change"
    and u: "uniq (tc_compare conf) S" "uniq (tc_compare conf) S'" and plain: "\<forall>x \<in> S'. plain_row x"
    and req: "\<And>b basis rv. plain_row b \<Longrightarrow> ok (take_req b basis (row_constraint conf (changed_row change)) rv)"
    and k: "k = getTakeStateKey (tc_partition conf) (Some (changed_row change))"
    and Some: "map_of (tk_states st) k = Some ts"
  shows "\<exists>evs st'. take_push u8 conf input change st = Inr (evs, st') \<and>
    outcome conf k (part_of conf k S) (part_of conf k S') st evs st'"
proof -
  define con where "con = row_constraint conf (changed_row change)"
  let ?P = "part_of conf k S" and ?P' = "part_of conf k S'"
  have TS: "take_step conf input S' ok con"
    by (rule take_step.intro [OF input]) (unfold_locales, unfold con_def, rule req)
  have C: "comparator (tc_compare conf)" using input by (simp add: pipeline_input_def)
  have keyed: "keyed conf (changed_row change)" using fits by (cases change) simp_all
  have part: "take_step.part S' con = ?P'"
    unfolding take_step.part_def [OF TS] k unfolding con_def by (rule row_constraint_part [OF keyed])
  have hid: "tk_hidden st = None" using inv by (simp add: take_inv_def)
  have u2: "uniq (tc_compare conf) ?P" "uniq (tc_compare conf) ?P'"
    using u by (auto simp: part_of_def intro: uniq_mono)
  have plain': "\<forall>x \<in> ?P'. plain_row x" using plain by (simp add: part_of_def)
  note run = push_hydrated [OF fits k Some con_def, of u8 input]
  have ok: "0 < tc_limit conf" "state_ok conf ?P ts" using inv Some by (auto simp: take_inv_def)
  show ?thesis
    using ok(2) Some hid C
  proof (cases rule: state_cases)
    case h: (1 b)
    then have b: "ts_bound ts = Some b" "bound_ok (tc_compare conf) (tc_limit conf) (ts_size ts) b ?P" by (simp_all add: held_def)
    show ?thesis
    proof (cases change)
      case (CAdd n)
      have "?P' = insert (node_row n) ?P" "node_row n \<notin> ?P" "plain_row (node_row n)"
        using CAdd S' push fits k by (auto simp: part_of_def)
      from take_step.push_add [OF TS h this(2,3), unfolded part, OF this(1) u2(2) plain'] show ?thesis unfolding run by (simp add: CAdd)
    next
      case (CRemove n)
      have "?P' = ?P - {node_row n}" "node_row n \<in> ?P" using CRemove S' push k by (auto simp: part_of_def)
      from take_step.push_remove [OF TS h this(2), unfolded part, OF this(1) u2(1) plain'] show ?thesis unfolding run by (simp add: CRemove)
    next
      case (CChild n rel c)
      have P': "?P' = ?P" and r: "node_row n \<in> ?P" using CChild S' push k by (auto simp: part_of_def)
      let ?evs = "if tc_compare conf (node_row n) b \<le> 0 then [(CChild n rel c, st)] else []"
      have "outcome conf k ?P ?P' st ?evs st"
        unfolding P' by (rule outcome_same [OF h b(2) refl]) (use r in \<open>auto simp: below_def\<close>)
      then show ?thesis unfolding run by (simp add: CChild b(1) split: if_splits)
    next
      case (CEdit n old)
      have keys: "getTakeStateKey (tc_partition conf) (Some (node_row n)) = k"
        "getTakeStateKey (tc_partition conf) (Some (node_row old)) = k" using CEdit fits k by simp_all
      have "?P' = insert (node_row n) (?P - {node_row old})" "node_row old \<in> ?P"
        "node_row n = node_row old \<or> node_row n \<notin> ?P" "plain_row (node_row n)"
        using CEdit S' push fits keys by (auto simp: part_of_def)
      then have TE: "take_edit conf input S' ok con ?P k st ts b n old"
        by (intro take_edit.intro TS take_edit_axioms.intro h) (use u2 plain' in \<open>simp_all add: part\<close>)
      consider "tc_compare conf (node_row old) b = 0" | "0 < tc_compare conf (node_row old) b"
        | "tc_compare conf (node_row old) b < 0" by linarith
      then show ?thesis
        unfolding run using take_edit.at_bound [OF TE] take_edit.after_bound_edit [OF TE] take_edit.before_bound_edit [OF TE]
        by cases (simp_all add: CEdit b(1) part Let_def)
    qed
  next
    case empty: 2
    obtain n where n: "change = CAdd n"
      using push empty(2) S' k fits by (cases change) (auto simp: part_of_def)
    have "?P' = {node_row n}" "plain_row (node_row n)" using n S' empty(2) fits k by (auto simp: part_of_def)
    from take_step.push_add_empty [OF TS Some empty(1,3) hid ok(1) this(2), unfolded part, OF this(1)] show ?thesis
      unfolding run by (simp add: n empty(2))
  qed
qed

lemma outcome_inv:
  assumes out: "outcome conf k (part_of conf k S) (part_of conf k S') st evs st'" and inv: "take_inv conf S st"
    and k: "map_of (tk_states st) k \<noteq> None" and others: "\<And>k'. k' \<noteq> k \<Longrightarrow> part_of conf k' S' = part_of conf k' S"
  shows "take_inv conf S' st' \<and> (\<forall>k'. k' \<noteq> k \<longrightarrow>
    shown_by conf k' (part_of conf k' S') st' = shown_by conf k' (part_of conf k' S) st)"
proof -
  obtain ts' where st': "tk_hidden st' = None" "max_ok conf st'" "state_ok conf (part_of conf k S') ts'"
    and map: "map_of (tk_states st') = (map_of (tk_states st))(k \<mapsto> ts')"
    using out inv by (auto simp: outcome_def take_inv_def)
  have lim: "0 < tc_limit conf" using inv k by (auto simp: take_inv_def)
  have "0 < tc_limit conf \<and> state_ok conf (part_of conf k' S') ts" if "map_of (tk_states st') k' = Some ts" for k' ts
    using that st'(3) lim others [of k'] inv by (cases "k' = k") (auto simp: map take_inv_def simp del: map_of_eq_Some_iff)
  moreover have "shown_by conf k' (part_of conf k' S') st' = shown_by conf k' (part_of conf k' S) st" if "k' \<noteq> k" for k'
  proof -
    have h: "tk_hidden st' = tk_hidden st" using st'(1) inv by (simp add: take_inv_def)
    show ?thesis unfolding shown_by_def map others [OF that] h using that by simp
  qed
  ultimately show ?thesis using st'(1,2) by (simp add: take_inv_def)
qed


lemma part_of_others:
  assumes "push_fits conf change" "k' \<noteq> getTakeStateKey (tc_partition conf) (Some (changed_row change))"
  shows "part_of conf k' (apply_push change S) = part_of conf k' S"
  using assms by (cases change) (auto simp: part_of_def)

lemma take_push_spec:
  assumes input: "pipeline_input (tc_compare conf) input (apply_push change S) ok" and inv: "take_inv conf S st"
    and push: "push_ok change S" and fits: "push_fits conf change"
    and u: "uniq (tc_compare conf) S" "uniq (tc_compare conf) (apply_push change S)"
    and plain: "\<forall>x \<in> apply_push change S. plain_row x"
    and req: "\<forall>b basis rv. plain_row b \<longrightarrow> ok (take_req b basis (row_constraint conf (changed_row change)) rv)"
    and k: "k = getTakeStateKey (tc_partition conf) (Some (changed_row change))"
  shows "\<exists>evs st'. take_push u8 conf input change st = Inr (evs, st') \<and> take_inv conf (apply_push change S) st' \<and>
    events_ok conf k (part_of conf k (apply_push change S)) (shown_by conf k (part_of conf k S) st) evs
      (shown_by conf k (part_of conf k (apply_push change S)) st') \<and>
    (map_of (tk_states st') k = None \<longleftrightarrow> map_of (tk_states st) k = None) \<and>
    (\<forall>k'. k' \<noteq> k \<longrightarrow> shown_by conf k' (part_of conf k' (apply_push change S)) st' =
      shown_by conf k' (part_of conf k' S) st)"
proof -
  let ?S' = "apply_push change S"
  have others: "k' \<noteq> k \<Longrightarrow> part_of conf k' ?S' = part_of conf k' S" for k'
    using part_of_others [OF fits] k by simp
  show ?thesis
  proof (cases "map_of (tk_states st) k")
    case none: None
    have run: "take_push u8 conf input change st = Inr ([], st)" using push_not_hydrated [OF fits] none k by simp
    have "take_inv conf ?S' st"
      unfolding take_inv_def
    proof (intro conjI allI impI)
      fix k' ts
      assume ts: "map_of (tk_states st) k' = Some ts"
      with none have "k' \<noteq> k" by auto
      with ts inv show "0 < tc_limit conf" "state_ok conf (part_of conf k' ?S') ts" by (auto simp: others take_inv_def)
    qed (use inv in \<open>simp_all add: take_inv_def\<close>)
    moreover have "shown_by conf k A st = {}" for A using none by (simp add: shown_by_def)
    ultimately show ?thesis using run none others by simp
  next
    case (Some ts)
    obtain evs st' where run: "take_push u8 conf input change st = Inr (evs, st')"
      and "outcome conf k (part_of conf k S) (part_of conf k ?S') st evs st'"
      using take_push_step [OF input inv refl push fits u plain _ k Some, of u8] req by blast
    then have ok: "map_of (tk_states st) k \<noteq> None \<and> outcome conf k (part_of conf k S) (part_of conf k ?S') st evs st'"
      using Some by simp
    with outcome_inv [OF _ inv _ others] have inv': "take_inv conf ?S' st'" "\<forall>k'. k' \<noteq> k \<longrightarrow>
      shown_by conf k' (part_of conf k' ?S') st' = shown_by conf k' (part_of conf k' S) st" by blast+
    have k': "map_of (tk_states st') k = None \<longleftrightarrow> map_of (tk_states st) k = None"
      using ok by (auto simp: outcome_def simp del: map_of_eq_Some_iff)
    have "events_ok conf k (part_of conf k ?S') (shown_by conf k (part_of conf k S) st) evs (shown_by conf k (part_of conf k ?S') st')"
      using ok by (simp add: outcome_def)
    then show ?thesis using run inv' k' by (intro exI [of _ evs] exI [of _ st']) simp
  qed
qed

text \<open>The invariant says what a hydrated partition shows: the first \<open>limit\<close> of its rows.\<close>

definition first_set :: "row cmp \<Rightarrow> int \<Rightarrow> row set \<Rightarrow> row set \<Rightarrow> bool" where
  "first_set cmp n A B \<longleftrightarrow> B \<subseteq> A \<and> int (card B) = min n (int (card A)) \<and> (\<forall>x \<in> B. \<forall>y \<in> A - B. cmp x y < 0)"

lemma bound_ok_first:
  assumes "comparator cmp" "bound_ok cmp n m b A"
  shows "first_set cmp n A (below cmp b A)"
proof -
  have fin: "finite A" and card: "int (card (below cmp b A)) \<le> n" using assms(2) by (simp_all add: bound_ok_def)
  have "int (card (below cmp b A)) = min n (int (card A))"
  proof (cases "m < n")
    case True
    then have "below cmp b A = A" using assms(2) by (auto simp: bound_ok_def below_def)
    with card show ?thesis by simp
  next
    case False
    then have "int (card (below cmp b A)) = n" using assms(2) card by (simp add: bound_ok_def)
    moreover have "card (below cmp b A) \<le> card A" by (rule card_mono [OF fin]) (auto simp: below_def)
    ultimately show ?thesis by simp
  qed
  moreover have "cmp x y < 0" if "x \<in> below cmp b A" "y \<in> A - below cmp b A" for x y
  proof -
    have "cmp b y < 0" using that(2) comparator.cmp_pos [OF assms(1), of y b] by (auto simp: below_def)
    moreover have "cmp x b \<le> 0" using that(1) by (simp add: below_def)
    ultimately show ?thesis by (rule comparator.cmp_le_less_trans [OF assms(1), rotated])
  qed
  ultimately show ?thesis by (auto simp: first_set_def below_def)
qed

lemma take_inv_first:
  assumes C: "comparator (tc_compare conf)" and inv: "take_inv conf S st" and k: "map_of (tk_states st) k \<noteq> None"
  shows "first_set (tc_compare conf) (tc_limit conf) (part_of conf k S) (shown_by conf k (part_of conf k S) st)"
proof -
  obtain ts where ts: "map_of (tk_states st) k = Some ts" using k by blast
  have st: "state_ok conf (part_of conf k S) ts" "0 < tc_limit conf" "tk_hidden st = None"
    using inv ts by (auto simp: take_inv_def)
  show ?thesis
  proof (cases "ts_bound ts")
    case None
    with st ts show ?thesis by (simp add: state_ok_def shown_by_def first_set_def)
  next
    case (Some b)
    then have "bound_ok (tc_compare conf) (tc_limit conf) (ts_size ts) b (part_of conf k S)" using st(1) by (simp add: state_ok_def)
    from bound_ok_first [OF C this] show ?thesis by (simp add: shown_by_state [OF ts Some st(3)])
  qed
qed

subsection \<open>Fetch\<close>

text \<open>A request for one partition.\<close>

definition part_request :: "take_conf \<Rightarrow> fetch_request \<Rightarrow> bool" where
  "part_request conf req \<longleftrightarrow> constraintMatchesPartitionKey (req_constraint req) (tc_partition conf) \<and>
     (\<forall>c keys. req_constraint req = Some c \<and> tc_partition conf = Some keys \<longrightarrow>
        distinct (map fst c) \<and> distinct keys \<and> (\<forall>key \<in> set keys. normalizeUndefined (get_field c key) \<noteq> JNull))"

definition request_key :: "take_conf \<Rightarrow> fetch_request \<Rightarrow> take_key" where
  "request_key conf req = getTakeStateKey (tc_partition conf) (req_constraint req)"

lemma constraint_keys:
  assumes "length keys = length c" "list_all (has_key c) keys" "distinct (map fst c)" "distinct keys"
  shows "fst ` set c = set keys"
proof -
  have "set keys \<subseteq> fst ` set c" using assms(2) by (auto simp: list_all_iff has_key_def)
  moreover have "card (fst ` set c) = card (set keys)"
    using distinct_card [OF assms(3)] distinct_card [OF assms(4)] assms(1) by simp
  ultimately show ?thesis by (metis card_subset_eq finite_imageI finite_set)
qed

lemma part_request_rows:
  assumes "part_request conf req"
  shows "{x \<in> S. matches (req_constraint req) x} = part_of conf (request_key conf req) S"
proof (cases "tc_partition conf")
  case None
  with assms show ?thesis
    by (auto simp: part_request_def constraintMatchesPartitionKey_def part_of_def request_key_def getTakeStateKey_def matches_def
        split: option.splits)
next
  case (Some keys)
  with assms obtain c where c: "req_constraint req = Some c" "length keys = length c" "list_all (has_key c) keys"
    "distinct (map fst c)" "distinct keys" "\<forall>key \<in> set keys. normalizeUndefined (get_field c key) \<noteq> JNull"
    by (auto simp: part_request_def constraintMatchesPartitionKey_def split: option.splits)
  note ck = constraint_keys [OF c(2-5)]
  have "constraintMatchesRow c x \<longleftrightarrow> (\<forall>key \<in> set keys. valuesEqual (get_field x key) (get_field c key))" for x
    unfolding constraintMatchesRow_iff using c(4) ck by (force simp: get_field_in)
  then have "matches (Some c) x \<longleftrightarrow> getTakeStateKey (Some keys) (Some x) = getTakeStateKey (Some keys) (Some c)" for x
    using c(6) valuesEqual_normal by (auto simp: matches_def getTakeStateKey_def)
  then show ?thesis by (simp add: part_of_def request_key_def Some c(1))
qed

lemma initial_loop_spec:
  "n < limit \<Longrightarrow> initial_loop limit items n bd = (out, n', bd') \<Longrightarrow>
   rows_of_items out = take (nat (limit - n)) (rows_of_items items) \<and> n' = n + int (length (rows_of_items out)) \<and>
   bd' = (if rows_of_items out = [] then bd else Some (last (rows_of_items out)))"
proof (induction limit items n bd arbitrary: out n' bd' rule: initial_loop.induct)
  case (3 limit nd nodes n bd)
  show ?case
  proof (cases "n + 1 = limit")
    case True
    then have "nat (limit - n) = 1" by simp
    with True "3.prems" show ?thesis by auto
  next
    case False
    then have lt: "n + 1 < limit" using "3.prems" by simp
    obtain out1 where out1: "initial_loop limit nodes (n + 1) (Some (node_row nd)) = (out1, n', bd')" "out = Item nd # out1"
      using "3.prems" False by (auto split: prod.splits)
    note IH = "3.IH" [OF refl refl False lt out1(1)]
    have "nat (limit - n) = Suc (nat (limit - (n + 1)))" using lt by simp
    with IH out1(2) show ?thesis by (cases "rows_of_items out1 = []") simp_all
  qed
qed (auto split: prod.splits)

definition first_rows :: "row cmp \<Rightarrow> int \<Rightarrow> row set \<Rightarrow> row list \<Rightarrow> bool" where
  "first_rows cmp n A rs \<longleftrightarrow> sorted_cmp cmp rs \<and> set rs \<subseteq> A \<and> int (length rs) = min n (int (card A)) \<and>
     (\<forall>x \<in> set rs. \<forall>y \<in> A - set rs. cmp x y < 0)"


text \<open>The fetch that hydrates a partition returns its first rows and records them.\<close>

lemma initial_fetch_spec:
  assumes input: "pipeline_input (tc_compare conf) input S ok" and inv: "take_inv conf S st"
    and req: "ok req" "part_request conf req" "req_start req = None" "\<not> req_reverse req" "req_multi req = None"
    and k: "k = request_key conf req" "map_of (tk_states st) k = None" and lim: "0 < tc_limit conf"
    and plain: "\<forall>x \<in> S. plain_row x"
  shows "\<exists>out st'. take_fetch conf input req st = Inr (out, st') \<and> take_inv conf S st' \<and>
    first_rows (tc_compare conf) (tc_limit conf) (part_of conf k S) (rows_of_items out) \<and>
    set (rows_of_items out) = shown_by conf k (part_of conf k S) st'"
proof -
  let ?c = "tc_compare conf" and ?P = "part_of conf k S" and ?lim = "tc_limit conf"
  have C: "comparator ?c" using input by (simp add: pipeline_input_def)
  obtain items where items: "input req = Inr items" "sorted_cmp ?c (rows_of_items items)"
    "set (rows_of_items items) = {r \<in> S. requested ?c req r}"
    using pipeline_input.fetch_obtain [OF input req(1)] req(4) by auto
  have P: "set (rows_of_items items) = ?P"
    unfolding items(3) k(1) part_request_rows [OF req(2), symmetric] using req(3) by (auto simp: requested_def after_start_def)
  obtain out n bd where loop: "initial_loop ?lim items 0 None = (out, n, bd)" by (metis prod_cases3)
  define L where "L = rows_of_items items"
  define R where "R = rows_of_items out"
  note spec = initial_loop_spec [OF lim loop, folded L_def R_def]
  then have R: "R = take (nat ?lim) L" and n: "n = int (length R)" and bd: "bd = (if R = [] then None else Some (last R))" by simp_all
  define st' where "st' = setTakeState conf k n bd (tk_maxBound st) st"
  have part: "tc_partition conf = None \<or> (req_constraint req \<noteq> None \<and> constraintMatchesPartitionKey (req_constraint req) (tc_partition conf))"
    using req(2) by (auto simp: part_request_def constraintMatchesPartitionKey_def split: option.splits)
  have run: "take_fetch conf input req st = Inr (out, st')"
    using part req k lim loop items(1)
    by (simp add: take_fetch_def initialFetch_def request_key_def [symmetric] part_request_def st'_def Let_def)
  have L: "sorted_cmp ?c L" "set L = ?P" using items(2) P by (simp_all add: L_def)
  have split: "L = R @ drop (nat ?lim) L" by (simp add: R)
  have before: "\<forall>x \<in> set R. \<forall>y \<in> set (drop (nat ?lim) L). ?c x y < 0" and sR: "sorted_cmp ?c R"
    using L(1) split by (metis sorted_cmp_append)+
  have dist: "distinct L" by (rule comparator.sorted_cmp_distinct [OF C L(1)])
  have card: "card ?P = length L" using distinct_card [OF dist] L(2) by simp
  have cardR: "card (set R) = length R" using dist unfolding R by (intro distinct_card) simp
  have "?P - set R = set (drop (nat ?lim) L)"
  proof -
    have "distinct (R @ drop (nat ?lim) L)" using dist by (simp add: R)
    moreover have "?P = set R \<union> set (drop (nat ?lim) L)" using L(2) split by (metis set_append)
    ultimately show ?thesis by auto
  qed
  then have first: "first_rows ?c ?lim ?P R"
    using sR before lim L(2) set_take_subset [of "nat ?lim" L] by (auto simp: first_rows_def card R)
  have hid: "tk_hidden st = None" using inv by (simp add: take_inv_def)
  have sh: "shown_by conf k ?P st' = set R" and ok: "state_ok conf ?P \<lparr>ts_size = n, ts_bound = bd\<rparr>"
  proof -
    consider (empty) "R = []" "L = []" | (some) b where "R \<noteq> []" "b = last R" "bd = Some b"
      using bd lim by (cases "R = []") (auto simp: R)
    then have "shown_by conf k ?P st' = set R \<and> state_ok conf ?P \<lparr>ts_size = n, ts_bound = bd\<rparr>"
    proof cases
      case empty
      then show ?thesis using L(2) by (simp add: st'_def bd n shown_by_set(3) state_ok_def)
    next
      case (some b)
      have bR: "b \<in> set R" using some by simp
      have "R = butlast R @ [b]" using some by simp
      then have le: "?c x b \<le> 0" if "x \<in> set R" for x
        using sR that comparator.cmp_refl [OF C, of b]
        by (metis Un_iff empty_iff insert_iff less_imp_le list.set(1,2) order_refl set_append sorted_cmp_append)
      have B: "below ?c b ?P = set R"
      proof (rule set_eqI)
        fix x
        have "x \<in> set (drop (nat ?lim) L) \<Longrightarrow> \<not> ?c x b \<le> 0"
          using before bR comparator.cmp_anti [OF C, of b x] by auto
        moreover have "x \<in> ?P \<longleftrightarrow> x \<in> set R \<or> x \<in> set (drop (nat ?lim) L)"
          using L(2) split by (metis Un_iff set_append)
        ultimately show "x \<in> below ?c b ?P \<longleftrightarrow> x \<in> set R" using le by (auto simp: below_def)
      qed
      have "n < ?lim \<Longrightarrow> L = R" using n by (simp add: R)
      then have "bound_ok ?c ?lim n b ?P"
        using L(2) B bR le cardR n R lim comparator.cmp_refl [OF C, of b] split
        by (auto simp: bound_ok_def simp flip: L(2) intro!: bexI [of _ b] dest: in_set_takeD)
      moreover have "plain_row b" using bR R L(2) plain by (auto simp: part_of_def dest: in_set_takeD)
      ultimately show ?thesis using B hid by (simp add: st'_def some(3) shown_by_set(2) state_ok_def)
    qed
    then show "shown_by conf k ?P st' = set R" "state_ok conf ?P \<lparr>ts_size = n, ts_bound = bd\<rparr>" by simp_all
  qed
  have "max_ok conf st'" using set_state_max [OF C] inv by (simp add: st'_def take_inv_def)
  then have "take_inv conf S st'"
    using ok inv lim hid by (auto simp: take_inv_def st'_def set_state_simps simp del: map_of_eq_Some_iff)
  then show ?thesis using run first sh by (auto simp: R_def)
qed


lemma takeWhile_sorted:
  assumes "sorted_wrt (\<lambda>x y. P y \<longrightarrow> P x) xs"
  shows "takeWhile P xs = filter P xs"
  using assms by (induction xs) (auto simp: filter_empty_conv)

lemma upto_bound_rows:
  "rows_of_items (upto_bound cmp b hidden items) =
     filter (\<lambda>x. case hidden of None \<Rightarrow> True | Some h \<Rightarrow> cmp h x \<noteq> 0) (takeWhile (\<lambda>x. \<not> cmp b x < 0) (rows_of_items items))"
  by (induction cmp b hidden items rule: upto_bound.induct) (auto split: option.split)

lemma hydrated_fetch_spec:
  assumes input: "pipeline_input (tc_compare conf) input S ok" and req: "ok req" "part_request conf req" "\<not> req_reverse req"
    and k: "k = request_key conf req" and ts: "map_of (tk_states st) k = Some ts"
  shows "\<exists>out. take_fetch conf input req st = Inr (out, st) \<and> sorted_cmp (tc_compare conf) (rows_of_items out) \<and>
    set (rows_of_items out) = {x \<in> shown_by conf k (part_of conf k S) st. after_start (tc_compare conf) (req_start req) x}"
proof -
  let ?c = "tc_compare conf" and ?P = "part_of conf k S"
  have C: "comparator ?c" using input by (simp add: pipeline_input_def)
  have part: "tc_partition conf = None \<or> (req_constraint req \<noteq> None \<and> constraintMatchesPartitionKey (req_constraint req) (tc_partition conf))"
    using req(2) by (auto simp: part_request_def constraintMatchesPartitionKey_def split: option.splits)
  show ?thesis
  proof (cases "ts_bound ts")
    case None
    with part ts show ?thesis by (simp add: take_fetch_def request_key_def [symmetric] k [symmetric] shown_by_def)
  next
    case (Some b)
    obtain items where items: "input req = Inr items" "sorted_cmp ?c (rows_of_items items)"
      "set (rows_of_items items) = {r \<in> S. requested ?c req r}"
      using pipeline_input.fetch_obtain [OF input req(1)] req(3) by auto
    have P: "set (rows_of_items items) = {x \<in> ?P. after_start ?c (req_start req) x}"
      unfolding items(3) k part_request_rows [OF req(2), symmetric] using req(3) by (auto simp: requested_def)
    have "sorted_wrt (\<lambda>x y. \<not> ?c b y < 0 \<longrightarrow> \<not> ?c b x < 0) (rows_of_items items)"
      using items(2) unfolding sorted_cmp_def
      by (rule sorted_wrt_mono_rel [rotated]) (use comparator.cmp_less_trans [OF C] in blast)
    then have rows: "rows_of_items (upto_bound ?c b (tk_hidden st) items) =
        filter (\<lambda>x. case tk_hidden st of None \<Rightarrow> True | Some h \<Rightarrow> ?c h x \<noteq> 0) (filter (\<lambda>x. \<not> ?c b x < 0) (rows_of_items items))"
      by (simp add: upto_bound_rows takeWhile_sorted)
    have "take_fetch conf input req st = Inr (upto_bound ?c b (tk_hidden st) items, st)"
      using part ts Some items(1) by (simp add: take_fetch_def request_key_def [symmetric] k [symmetric])
    moreover have "set (rows_of_items (upto_bound ?c b (tk_hidden st) items)) =
        {x \<in> shown_by conf k ?P st. after_start ?c (req_start req) x}"
      using ts Some P comparator.cmp_le_sym [OF C] unfolding rows by (auto simp: shown_by_def below_def not_less)
    moreover have "sorted_cmp ?c (rows_of_items (upto_bound ?c b (tk_hidden st) items))"
      unfolding rows by (intro sorted_cmp_filter items(2))
    ultimately show ?thesis by blast
  qed
qed

text \<open>A fetch across partitions returns what is shown of each.\<close>

definition shown_anywhere :: "take_conf \<Rightarrow> row set \<Rightarrow> take_storage \<Rightarrow> row \<Rightarrow> bool" where
  "shown_anywhere conf S st x \<longleftrightarrow> (let k = getTakeStateKey (tc_partition conf) (Some x) in x \<in> shown_by conf k (part_of conf k S) st)"

lemma shown_anywhere_iff:
  assumes "comparator (tc_compare conf)" "x \<in> S" "tk_hidden st = None"
  shows "shown_anywhere conf S st x \<longleftrightarrow>
    (case map_of (tk_states st) (getTakeStateKey (tc_partition conf) (Some x)) of
       None \<Rightarrow> False
     | Some ts \<Rightarrow> (case ts_bound ts of None \<Rightarrow> False | Some b \<Rightarrow> 0 \<le> tc_compare conf b x))"
  using assms(2,3) comparator.cmp_le_sym [OF assms(1)]
  by (auto simp: shown_anywhere_def shown_by_def below_def part_of_def Let_def split: option.split)

lemma upto_maxBound_rows:
  assumes "comparator (tc_compare conf)" "set (rows_of_items items) \<subseteq> S" "tk_hidden st = None"
  shows "rows_of_items (upto_maxBound conf st m items) =
     filter (shown_anywhere conf S st) (takeWhile (\<lambda>x. \<not> 0 < tc_compare conf x m) (rows_of_items items))"
  using assms(2)
proof (induction items)
  case (Cons it items)
  show ?case
  proof (cases it)
    case (Item n)
    with Cons have "node_row n \<in> S" by simp
    note sh = shown_anywhere_iff [OF assms(1) this assms(3)]
    show ?thesis using Cons by (simp add: Item sh Let_def)
  qed (use Cons in simp)
qed simp

lemma shown_max:
  assumes "comparator (tc_compare conf)" "max_ok conf st" "x \<in> S" "tk_hidden st = None" "shown_anywhere conf S st x"
  shows "\<exists>m. tk_maxBound st = Some m \<and> \<not> 0 < tc_compare conf x m"
proof -
  obtain ts b where "map_of (tk_states st) (getTakeStateKey (tc_partition conf) (Some x)) = Some ts" "ts_bound ts = Some b"
    and b: "0 \<le> tc_compare conf b x"
    using assms(5) shown_anywhere_iff [OF assms(1,3,4)] by (auto split: option.splits)
  then obtain m where m: "tk_maxBound st = Some m" "tc_compare conf b m \<le> 0" using assms(2) unfolding max_ok_def by blast
  have "tc_compare conf x b \<le> 0" using b comparator.cmp_le_sym [OF assms(1)] by simp
  from comparator.cmp_trans [OF assms(1) this m(2)] m(1) show ?thesis by simp
qed

lemma fetch_across_spec:
  assumes input: "pipeline_input (tc_compare conf) input S ok" and inv: "take_inv conf S st" and req: "ok req" "\<not> req_reverse req"
    and across: "tc_partition conf \<noteq> None" "\<not> constraintMatchesPartitionKey (req_constraint req) (tc_partition conf)"
  shows "\<exists>out. take_fetch conf input req st = Inr (out, st) \<and> sorted_cmp (tc_compare conf) (rows_of_items out) \<and>
    set (rows_of_items out) = {x \<in> S. requested (tc_compare conf) req x \<and> shown_anywhere conf S st x}"
proof -
  let ?c = "tc_compare conf"
  have C: "comparator ?c" using input by (simp add: pipeline_input_def)
  have hid: "tk_hidden st = None" and max: "max_ok conf st" using inv by (simp_all add: take_inv_def)
  obtain items where items: "input req = Inr items" "sorted_cmp ?c (rows_of_items items)"
    "set (rows_of_items items) = {r \<in> S. requested ?c req r}"
    using pipeline_input.fetch_obtain [OF input req(1)] req(2) by auto
  show ?thesis
  proof (cases "tk_maxBound st")
    case None
    then have "\<not> shown_anywhere conf S st x" if "x \<in> S" for x using shown_max [OF C max that hid] by auto
    with None across show ?thesis by (auto simp: take_fetch_def)
  next
    case (Some m)
    have "sorted_wrt (\<lambda>x y. \<not> 0 < ?c y m \<longrightarrow> \<not> 0 < ?c x m) (rows_of_items items)"
      using items(2) unfolding sorted_cmp_def
    proof (rule sorted_wrt_mono_rel [rotated])
      fix x y
      assume "?c x y < 0"
      then show "\<not> 0 < ?c y m \<longrightarrow> \<not> 0 < ?c x m" using comparator.cmp_trans [OF C, of x y m] by (simp add: not_less)
    qed
    moreover have "set (rows_of_items items) \<subseteq> S" using items(3) by auto
    ultimately have rows: "rows_of_items (upto_maxBound conf st m items) =
        filter (shown_anywhere conf S st) (filter (\<lambda>x. \<not> 0 < ?c x m) (rows_of_items items))"
      using upto_maxBound_rows [OF C _ hid] by (simp add: takeWhile_sorted)
    have "take_fetch conf input req st = Inr (upto_maxBound conf st m items, st)"
      using across Some items(1) by (cases "tc_partition conf") (simp_all add: take_fetch_def)
    moreover have "set (rows_of_items (upto_maxBound conf st m items)) = {x \<in> S. requested ?c req x \<and> shown_anywhere conf S st x}"
      using items(3) shown_max [OF C max _ hid] Some unfolding rows by fastforce
    moreover have "sorted_cmp ?c (rows_of_items (upto_maxBound conf st m items))"
      unfolding rows by (intro sorted_cmp_filter items(2))
    ultimately show ?thesis by blast
  qed
qed

end
