(* ===== verification/Pipeline.thy ===== *)
theory Pipeline
  imports TakeCorrect MemoryFetchClaims
begin

section \<open>Pipelines over the in-memory source\<close>

text \<open>
  A connection of a \<open>MemorySource\<close> in a reachable state is an input in the sense of \<open>pipeline_input\<close>, so
  the operators can be put on it: the source, a \<open>Skip\<close> and a \<open>Take\<close> make up a query with a start and a
  limit. \<open>pipe_pushes\<close> runs what the source pushes to its output through the two operators.
\<close>

definition memory_fetch :: "utf8 \<Rightarrow> memory_source \<Rightarrow> connection \<Rightarrow> fetch_request \<Rightarrow> node item list result" where
  "memory_fetch u8 ms conn req = bind_result (fetch u8 req conn ms) (\<lambda>(nodes, _). Inr nodes)"

lemma skipYields_items: "skipYields (map (\<lambda>x. Item (f x)) xs) = map f xs"
  by (induction xs) auto

locale memory_input = utf8_order u8 for u8 +
  fixes str :: "literal_value \<Rightarrow> string" and ms :: memory_source and ph :: phase and conn :: connection
  assumes reached: "ms_reachable u8 str ms ph" and connected: "conn \<in> set (ms_connections ms)"
begin

lemma memory_fetch_rows:
  assumes "request_ok ms conn req" "req_multi req = None"
  shows "\<exists>items. memory_fetch u8 ms conn req = Inr items \<and>
    sorted_cmp (rev_cmp (req_reverse req) (conn_compareRows u8 conn)) (rows_of_items items) \<and>
    set (rows_of_items items) = {r \<in> shown ms conn. requested (conn_compareRows u8 conn) req r}"
proof -
  note inv = reachable_state_inv [OF reached]
  then have "ms_inv u8 ms" by (simp add: state_inv_def)
  from fetch_one_spec [OF this request_fetch_pre [OF inv connected assms(1)]] obtain out ms' where
    "fetch_one u8 req conn ms = Inr (map (\<lambda>r. Node r []) out, ms')"
    "sorted_cmp (rev_cmp (req_reverse req) (conn_compareRows u8 conn)) out"
    "set out = {x \<in> visible ms conn. wanted (rev_cmp (req_reverse req) (conn_compareRows u8 conn)) req conn x}" by blast
  moreover have "{x \<in> visible ms conn. wanted (rev_cmp (req_reverse req) (conn_compareRows u8 conn)) req conn x} =
      {r \<in> shown ms conn. requested (conn_compareRows u8 conn) req r}"
    by (auto simp: wanted_def requested_def shown_def passing_def passes_def)
  ultimately show ?thesis
    by (simp add: memory_fetch_def fetch_def assms(2) rows_of_items_def comp_def skipYields_items
        image_image)
qed

lemma uniq_shown: "uniq (conn_compareRows u8 conn) (shown ms conn)"
proof -
  note inv = reachable_state_inv [OF reached]
  then have ms: "ms_inv u8 ms" by (simp add: state_inv_def)
  have ch: "\<forall>ch. pending ms conn = Some ch \<longrightarrow> change_ok u8 (ms_primaryKey ms) (ms_rows ms) ch"
    using pending_change_ok [OF inv] by blast
  have plain: "\<forall>x \<in> visible ms conn. plain_row x"
    by (rule pending_cases [OF ch]) (use inv in \<open>auto simp: state_inv_def\<close>)
  have cov: "covers_pk (ms_primaryKey ms) (conn_sort conn)" using ms connected by (simp add: ms_inv_def conn_ok_def)
  have pk: "pk_unique u8 (ms_primaryKey ms) (visible ms conn)" by (rule visible_unique [OF ch ms_pk_unique [OF ms]])
  have "a = b" if "a \<in> visible ms conn" "b \<in> visible ms conn" "conn_compareRows u8 conn a b = 0" for a b
  proof -
    have "index_cmp (conn_sort conn) a b = 0" using conn_cmp_bound [of a b False conn] that plain by simp
    from covers_zero [OF cov this] pk that show ?thesis unfolding pk_unique_def by blast
  qed
  then show ?thesis by (auto simp: uniq_def shown_def passing_def)
qed

lemma plain_shown: "\<forall>x \<in> shown ms conn. plain_row x"
proof -
  note inv = reachable_state_inv [OF reached]
  have ch: "\<forall>ch. pending ms conn = Some ch \<longrightarrow> change_ok u8 (ms_primaryKey ms) (ms_rows ms) ch"
    using pending_change_ok [OF inv] by blast
  have "\<forall>x \<in> visible ms conn. plain_row x"
    by (rule pending_cases [OF ch]) (use inv in \<open>auto simp: state_inv_def\<close>)
  then show ?thesis by (simp add: shown_def passing_def)
qed

end

sublocale memory_input \<subseteq> source: pipeline_input "conn_compareRows u8 conn" "memory_fetch u8 ms conn" "shown ms conn"
    "\<lambda>req. request_ok ms conn req \<and> req_multi req = None"
proof -
  have "comparator (conn_compareRows u8 conn)" using comparator_conn [of False conn] by simp
  then show "pipeline_input (conn_compareRows u8 conn) (memory_fetch u8 ms conn) (shown ms conn)
      (\<lambda>req. request_ok ms conn req \<and> req_multi req = None)"
    by (intro pipeline_input.intro pipeline_input_axioms.intro memory_fetch_rows) auto
qed

subsection \<open>Source, Skip and Take\<close>

fun take_pushes ::
    "utf8 \<Rightarrow> take_conf \<Rightarrow> input_fetch \<Rightarrow> change list \<Rightarrow> take_storage \<Rightarrow> (take_events \<times> take_storage) result" where
  "take_pushes u8 conf input [] st = Inr ([], st)"
| "take_pushes u8 conf input (c # cs) st =
     bind_result (take_push u8 conf input c st) (\<lambda>(evs, st').
     bind_result (take_pushes u8 conf input cs st') (\<lambda>(evs', st''). Inr (evs @ evs', st'')))"

fun pipe_pushes ::
    "utf8 \<Rightarrow> take_conf \<Rightarrow> skip_bound \<Rightarrow> input_fetch \<Rightarrow> change list \<Rightarrow> take_storage \<Rightarrow> (take_events \<times> take_storage) result" where
  "pipe_pushes u8 conf b input [] st = Inr ([], st)"
| "pipe_pushes u8 conf b input (c # cs) st =
     bind_result (skip_push (tc_compare conf) b c) (\<lambda>skipped.
     bind_result (take_pushes u8 conf (skip_fetch (tc_compare conf) b input) skipped st) (\<lambda>(evs, st').
     bind_result (pipe_pushes u8 conf b input cs st') (\<lambda>(evs', st''). Inr (evs @ evs', st''))))"

lemma filterPush_at_most_one: "filterPush c p = Inr cs \<Longrightarrow> cs = [] \<or> (\<exists>d. cs = [d])"
  by (cases "(c, p)" rule: filterPush.cases) (auto simp: bind_result_eq_Inr split: if_splits)

lemma skip_push_returns: "\<exists>cs. skip_push cmp b c = Inr cs"
  by (cases c) auto


text \<open>The scans a pipeline makes of a connection: without a constraint, from any row.\<close>

definition scan_request :: "start option \<Rightarrow> bool \<Rightarrow> fetch_request" where
  "scan_request s rv = \<lparr>req_constraint = None, req_multi = None, req_start = s, req_reverse = rv\<rparr>"

definition scans_ok :: "memory_source \<Rightarrow> connection \<Rightarrow> bool" where
  "scans_ok ms conn \<longleftrightarrow> (\<forall>s rv. (\<forall>r. s = Some r \<longrightarrow> plain_row (fst r)) \<longrightarrow> request_ok ms conn (scan_request s rv))"

definition scan_like :: "fetch_request \<Rightarrow> bool" where
  "scan_like req \<longleftrightarrow> (\<exists>s rv. req = scan_request s rv \<and> (\<forall>r. s = Some r \<longrightarrow> plain_row (fst r)))"

context memory_input
begin

lemma scan_input:
  assumes "scans_ok ms conn"
  shows "pipeline_input (conn_compareRows u8 conn) (memory_fetch u8 ms conn) (shown ms conn) scan_like"
proof (rule pipeline_input.intro [OF source.comparator_axioms], rule pipeline_input_axioms.intro)
  fix req
  assume "scan_like req"
  then obtain s rv where req: "req = scan_request s rv" "\<forall>r. s = Some r \<longrightarrow> plain_row (fst r)"
    unfolding scan_like_def by blast
  have "request_ok ms conn req" using assms req unfolding scans_ok_def by blast
  moreover have "req_multi req = None" by (simp add: req(1) scan_request_def)
  ultimately show "\<exists>items. memory_fetch u8 ms conn req = Inr items \<and>
      sorted_cmp (rev_cmp (req_reverse req) (conn_compareRows u8 conn)) (rows_of_items items) \<and>
      set (rows_of_items items) = {r \<in> shown ms conn. requested (conn_compareRows u8 conn) req r}"
    by (rule memory_fetch_rows)
qed

lemma scan_skip:
  assumes "scans_ok ms conn" "plain_row (bound_row b)"
  shows "skip_input (conn_compareRows u8 conn) (memory_fetch u8 ms conn) (shown ms conn) scan_like b"
  by (rule skip_input.intro [OF scan_input [OF assms(1)]], unfold_locales)
    (use assms(2) in \<open>auto simp: scan_like_def scan_request_def\<close>)

lemma scan_skipped:
  assumes "scans_ok ms conn" "plain_row (bound_row b)"
  shows "pipeline_input (conn_compareRows u8 conn) (skip_fetch (conn_compareRows u8 conn) b (memory_fetch u8 ms conn))
    {r \<in> shown ms conn. shouldBePresent (conn_compareRows u8 conn) b r} scan_like"
  using skip_input.skip_fetch_rows [OF scan_skip [OF assms]] scan_input [OF assms(1)]
  by (simp add: pipeline_input_def pipeline_input_axioms_def)

end

lemma take_push_scan:
  assumes input: "pipeline_input (tc_compare conf) input (apply_push d S) scan_like" and inv: "take_inv conf S st"
    and conf: "tc_partition conf = None" and push: "push_ok d S"
    and u: "uniq (tc_compare conf) S" "uniq (tc_compare conf) (apply_push d S)" and plain: "\<forall>x \<in> apply_push d S. plain_row x"
  shows "\<exists>evs st'. take_push u8 conf input d st = Inr (evs, st') \<and> take_inv conf (apply_push d S) st' \<and>
    (map_of (tk_states st') [] = None \<longleftrightarrow> map_of (tk_states st) [] = None) \<and>
    events_ok conf [] (apply_push d S) (shown_by conf [] S st) evs (shown_by conf [] (apply_push d S) st')"
proof -
  have all: "part_of conf [] A = A" for A by (simp add: part_of_def getTakeStateKey_def conf)
  have fits: "push_fits conf d" using plain by (cases d) (simp_all add: keyed_def getTakeStateKey_def conf)
  have req: "\<forall>b basis rv. plain_row b \<longrightarrow> scan_like (take_req b basis (row_constraint conf (changed_row d)) rv)"
    by (auto simp: scan_like_def scan_request_def take_req_def row_constraint_def conf)
  have k: "[] = getTakeStateKey (tc_partition conf) (Some (changed_row d))" by (simp add: getTakeStateKey_def conf)
  from take_push_spec [OF input inv push fits u plain req k, of u8] show ?thesis
    unfolding all by (elim exE conjE) (intro exI conjI)
qed

lemma pipe_push_one:
  assumes input: "pipeline_input (tc_compare conf) (skip_fetch (tc_compare conf) b input)
      {r \<in> apply_push d A. shouldBePresent (tc_compare conf) b r} scan_like"
    and inv: "take_inv conf {r \<in> A. shouldBePresent (tc_compare conf) b r} st"
    and conf: "tc_partition conf = None" and push: "push_ok d A"
    and u: "uniq (tc_compare conf) A" "uniq (tc_compare conf) (apply_push d A)" and plain: "\<forall>x \<in> apply_push d A. plain_row x"
  shows "\<exists>evs st'. pipe_pushes u8 conf b input [d] st = Inr (evs, st') \<and>
    take_inv conf {r \<in> apply_push d A. shouldBePresent (tc_compare conf) b r} st' \<and>
    (map_of (tk_states st') [] = None \<longleftrightarrow> map_of (tk_states st) [] = None) \<and>
    events_ok conf [] {r \<in> apply_push d A. shouldBePresent (tc_compare conf) b r}
      (shown_by conf [] {r \<in> A. shouldBePresent (tc_compare conf) b r} st) evs
      (shown_by conf [] {r \<in> apply_push d A. shouldBePresent (tc_compare conf) b r} st')"
proof -
  let ?p = "Some (\<lambda>r. Inr (shouldBePresent (tc_compare conf) b r)) :: row_predicate option"
  have pass: "passing ?p X = {r \<in> X. shouldBePresent (tc_compare conf) b r}" for X by (simp add: passing_def)
  obtain cs where cs: "skip_push (tc_compare conf) b d = Inr cs" using skip_push_returns by blast
  then have f: "filterPush d ?p = Inr cs" by (simp add: skip_push_filter)
  note spec = filterPush_spec [OF f push, unfolded pass]
  from filterPush_at_most_one [OF f] show ?thesis
  proof
    assume "cs = []"
    with cs spec inv show ?thesis by simp
  next
    assume "\<exists>e. cs = [e]"
    then obtain e where e: "cs = [e]" by blast
    let ?S = "{r \<in> A. shouldBePresent (tc_compare conf) b r}" and ?S' = "{r \<in> apply_push d A. shouldBePresent (tc_compare conf) b r}"
    have S': "?S' = apply_push e ?S" and pe: "push_ok e ?S" using spec by (simp_all add: e)
    have u': "uniq (tc_compare conf) ?S" "uniq (tc_compare conf) (apply_push e ?S)"
      using u by (auto simp flip: S' intro: uniq_mono)
    have pl: "\<forall>x \<in> apply_push e ?S. plain_row x" using plain by (simp flip: S')
    from take_push_scan [OF input [unfolded S'] inv conf pe u' pl, of u8] cs show ?thesis
      unfolding S' by (auto simp: e)
  qed
qed

lemma pipeline_step:
  assumes u8: "utf8_order u8" and r: "ms_reachable u8 str ms (Pushing c i later)" and i: "i < length (ms_connections ms)"
    and run: "push_deliver i c ms = Inr ([(out, pushes)], ms')" and out: "conn_output (ms_connections ms ! i) \<noteq> None"
    and conf: "tc_compare conf = conn_compareRows u8 (ms_connections ms ! i)" "tc_partition conf = None"
    and scans: "scans_ok ms' (ms_connections ms' ! i)" and b: "plain_row (bound_row b)"
    and inv: "take_inv conf {r \<in> shown ms (ms_connections ms ! i). shouldBePresent (tc_compare conf) b r} st"
  shows "\<exists>evs st'. pipe_pushes u8 conf b (memory_fetch u8 ms' (ms_connections ms' ! i)) pushes st = Inr (evs, st') \<and>
    take_inv conf {r \<in> shown ms' (ms_connections ms' ! i). shouldBePresent (tc_compare conf) b r} st' \<and>
    (map_of (tk_states st') [] = None \<longleftrightarrow> map_of (tk_states st) [] = None) \<and>
    events_ok conf [] {r \<in> shown ms' (ms_connections ms' ! i). shouldBePresent (tc_compare conf) b r}
      (shown_by conf [] {r \<in> shown ms (ms_connections ms ! i). shouldBePresent (tc_compare conf) b r} st) evs
      (shown_by conf [] {r \<in> shown ms' (ms_connections ms' ! i). shouldBePresent (tc_compare conf) b r} st')"
proof -
  let ?conn = "ms_connections ms ! i" and ?conn' = "ms_connections ms' ! i"
  note ms_inv = utf8_order.reachable_state_inv [OF u8 r]
  have r': "ms_reachable u8 str ms' (Pushing c (i + 1) later)" by (rule ReachStep [OF r StepDeliver [OF i run]])
  have frame: "length (ms_connections ms') = length (ms_connections ms)" "conn_sort ?conn' = conn_sort ?conn"
    using utf8_order.deliver_frame [OF u8 _ i run] ms_inv i by (auto simp: state_inv_def)
  have M: "memory_input u8 str ms (Pushing c i later) ?conn"
    using u8 r i by (simp add: memory_input_def memory_input_axioms_def)
  have M': "memory_input u8 str ms' (Pushing c (i + 1) later) ?conn'"
    using u8 r' i frame(1) by (simp add: memory_input_def memory_input_axioms_def)
  have cmp: "conn_compareRows u8 ?conn' = tc_compare conf" using conf(1) frame(2) by (simp add: conn_compareRows_def)
  have push: "pushes_ok pushes (shown ms ?conn)" "apply_pushes pushes (shown ms ?conn) = shown ms' ?conn'"
    using utf8_order.deliver_spec [OF u8 ms_inv i run] out by auto
  have "filterPush (output_change c) (map_option snd (conn_filters ?conn)) = Inr pushes"
    using run out by (auto simp: push_deliver_def Let_def bind_result_eq_Inr)
  from filterPush_at_most_one [OF this] show ?thesis
  proof
    assume "pushes = []"
    with push(2) inv show ?thesis by simp
  next
    assume "\<exists>d. pushes = [d]"
    then obtain d where d: "pushes = [d]" by blast
    have S': "shown ms' ?conn' = apply_push d (shown ms ?conn)" and pd: "push_ok d (shown ms ?conn)" using push by (simp_all add: d)
    have input: "pipeline_input (tc_compare conf) (skip_fetch (tc_compare conf) b (memory_fetch u8 ms' ?conn'))
        {r \<in> apply_push d (shown ms ?conn). shouldBePresent (tc_compare conf) b r} scan_like"
      using memory_input.scan_skipped [OF M' scans b] unfolding cmp S' .
    have u: "uniq (tc_compare conf) (shown ms ?conn)" "uniq (tc_compare conf) (apply_push d (shown ms ?conn))"
      using memory_input.uniq_shown [OF M] memory_input.uniq_shown [OF M'] conf(1) unfolding cmp S' by simp_all
    have plain: "\<forall>x \<in> apply_push d (shown ms ?conn). plain_row x"
      using memory_input.plain_shown [OF M'] unfolding S' .
    from pipe_push_one [OF input inv conf(2) pd u plain, of u8] show ?thesis unfolding d S' .
  qed
qed

end
