(* ===== verification/PipelineClaims.thy ===== *)
theory PipelineClaims
  imports Pipeline
begin

section \<open>The claims about Skip, Take and pipelines of them\<close>

text \<open>
  Fetches and pushes through \<open>Skip\<close>, \<open>Take\<close> and both on a source: each claim is a lemma of the locale of its
  operator, written out over the definitions. The locales are interpreted on a sample pipeline.
\<close>

subsection \<open>A sample pipeline\<close>

text \<open>
  The source of the sample run, in the middle of the push of its second row, under a \<open>Skip\<close> that starts
  after row 3 (the order is descending) and a \<open>Take\<close> of one row, hydrated before the push.
\<close>

definition sample_conn :: connection where
  "sample_conn = ms_connections run6 ! 0"

definition sample_bound :: skip_bound where
  "sample_bound = \<lparr>bound_row = sample_row 3 1, bound_exclusive = True\<rparr>"

definition sample_conf :: take_conf where
  "sample_conf = \<lparr>tc_limit = 1, tc_partition = None, tc_compare = conn_compareRows utf8_lex sample_conn\<rparr>"

definition sample_take :: take_storage where
  "sample_take = \<lparr>tk_states = [([], \<lparr>ts_size = 1, ts_bound = Some (sample_row 1 1)\<rparr>)],
     tk_maxBound = Some (sample_row 1 1), tk_hidden = None\<rparr>"

definition no_take :: take_storage where
  "no_take = \<lparr>tk_states = [], tk_maxBound = None, tk_hidden = None\<rparr>"

lemma sample_conn_eq: "sample_conn = \<lparr>conn_input = 0, conn_output = Some 77, conn_sort = [(''id'', Desc)],
     conn_splitEditKeys = None, conn_filters = None, conn_lastPushedEpoch = 2\<rparr>"
  by (simp add: sample_conn_def run_connections)

lemma sample_member: "sample_conn \<in> set (ms_connections run6)"
  by (simp add: sample_conn_def run_connections)

lemma sample_shown: "shown run6 sample_conn = {sample_row 1 1, sample_row 2 1}"
  using run6_visible by (auto simp: sample_conn_def shown_def passing_def run_connections)

lemma sample_shown5: "shown run5 (ms_connections run5 ! 0) = {sample_row 1 1}"
proof -
  have "Option.is_none (ms_overlay run5)" "ms_rows run5 = {sample_row 1 1}" by code_simp+
  then have "visible run5 (ms_connections run5 ! 0) = {sample_row 1 1}"
    by (simp add: visible_def pending_def overlay_to_apply_def Option.is_none_def)
  then show ?thesis by (simp add: shown_def passing_def run_connections)
qed

lemma sample_compare:
  "conn_compareRows utf8_lex (ms_connections run5 ! 0) = conn_compareRows utf8_lex sample_conn"
  by (simp add: conn_compareRows_def sample_conn_eq run_connections)

lemma sample_signs:
  "conn_compareRows utf8_lex sample_conn (sample_row 1 1) (sample_row 1 1) = 0"
  "conn_compareRows utf8_lex sample_conn (sample_row 2 1) (sample_row 2 1) = 0"
  "conn_compareRows utf8_lex sample_conn (sample_row 2 1) (sample_row 1 1) < 0"
  "0 < conn_compareRows utf8_lex sample_conn (sample_row 1 1) (sample_row 2 1)"
  "conn_compareRows utf8_lex sample_conn (sample_row 3 1) (sample_row 1 1) < 0"
  "conn_compareRows utf8_lex sample_conn (sample_row 3 1) (sample_row 2 1) < 0"
  by code_simp+

lemma sample_scans: "scans_ok run6 sample_conn"
proof -
  have "request_ok run6 sample_conn (scan_request s rv)" if "\<forall>r. s = Some r \<longrightarrow> plain_row (fst r)" for s rv
    unfolding sample_conn_def
    by (rule run6_request_ok) (use that in \<open>auto simp: scan_request_def intro: option.exhaust [of s]\<close>)
  then show ?thesis by (simp add: scans_ok_def)
qed

interpretation sample_source: memory_input utf8_lex sample_str run6 "Pushing (SourceAdd (sample_row 2 1)) 1 []" sample_conn
  by unfold_locales (use run6_reachable sample_member in auto)

interpretation sample_skip: skip_input "conn_compareRows utf8_lex sample_conn" "memory_fetch utf8_lex run6 sample_conn"
    "shown run6 sample_conn" scan_like sample_bound
  by (rule sample_source.scan_skip [OF sample_scans]) (simp add: sample_bound_def sample_plain)

interpretation sample_step: take_step sample_conf
    "skip_fetch (conn_compareRows utf8_lex sample_conn) sample_bound (memory_fetch utf8_lex run6 sample_conn)"
    "{r \<in> shown run6 sample_conn. shouldBePresent (conn_compareRows utf8_lex sample_conn) sample_bound r}" scan_like None
proof -
  have c: "tc_compare sample_conf = conn_compareRows utf8_lex sample_conn" by (simp add: sample_conf_def)
  show "take_step sample_conf
      (skip_fetch (conn_compareRows utf8_lex sample_conn) sample_bound (memory_fetch utf8_lex run6 sample_conn))
      {r \<in> shown run6 sample_conn. shouldBePresent (conn_compareRows utf8_lex sample_conn) sample_bound r} scan_like None"
    unfolding take_step_def take_step_axioms_def c
    using sample_skip.out.pipeline_input_axioms by (auto simp: scan_like_def scan_request_def take_req_def)
qed

text \<open>An edit that moved row 4 to row 2, when row 4 was the one taken.\<close>

definition edited_take :: take_storage where
  "edited_take = \<lparr>tk_states = [([], \<lparr>ts_size = 1, ts_bound = Some (sample_row 4 1)\<rparr>)],
     tk_maxBound = Some (sample_row 4 1), tk_hidden = None\<rparr>"

lemma sample_order:
  "conn_compareRows utf8_lex sample_conn (sample_row i f) (sample_row j g) = of_nat j - of_nat i"
  by (simp add: sample_conn_eq conn_compareRows_def sample_row_def get_field_def Let_def)

lemma sample_present:
  "shouldBePresent (conn_compareRows utf8_lex sample_conn) sample_bound (sample_row 1 1)"
  "shouldBePresent (conn_compareRows utf8_lex sample_conn) sample_bound (sample_row 2 1)"
  using sample_signs by (simp_all add: shouldBePresent_def sample_bound_def)

lemma one_row_ok:
  assumes "cmp r r = 0" "0 < limit"
  shows "bound_ok cmp limit 1 r {r}"
proof -
  have "below cmp r {r} = {r}" using assms(1) by (auto simp: below_def)
  with assms show ?thesis by (simp add: bound_ok_def)
qed

interpretation sample_edit: take_edit sample_conf
    "skip_fetch (conn_compareRows utf8_lex sample_conn) sample_bound (memory_fetch utf8_lex run6 sample_conn)"
    "{r \<in> shown run6 sample_conn. shouldBePresent (conn_compareRows utf8_lex sample_conn) sample_bound r}" scan_like None
    "{sample_row 1 1, sample_row 4 1}" "[]" edited_take "\<lparr>ts_size = 1, ts_bound = Some (sample_row 4 1)\<rparr>" "sample_row 4 1"
    "Node (sample_row 2 1) []" "Node (sample_row 4 1) []"
proof -
  let ?c = "conn_compareRows utf8_lex sample_conn"
  have c: "tc_compare sample_conf = ?c" "tc_limit sample_conf = 1" by (simp_all add: sample_conf_def)
  have rows: "{r \<in> shown run6 sample_conn. shouldBePresent ?c sample_bound r} = {sample_row 1 1, sample_row 2 1}"
    using sample_present by (auto simp: sample_shown)
  have part: "sample_step.part = {sample_row 1 1, sample_row 2 1}"
    by (rule trans [OF sample_step.part_def]) (simp only: rows matches_def option.case simp_thms Collect_mem_eq)
  have ne: "i \<noteq> j \<Longrightarrow> sample_row i 1 \<noteq> sample_row j 1" for i j by (simp add: sample_row_def)
  have below: "below ?c (sample_row 4 1) {sample_row 1 1, sample_row 4 1} = {sample_row 4 1}"
    by (auto simp: below_def sample_order)
  have "held sample_conf [] {sample_row 1 1, sample_row 4 1} edited_take \<lparr>ts_size = 1, ts_bound = Some (sample_row 4 1)\<rparr> (sample_row 4 1)"
    unfolding held_def bound_ok_def c below using sample_source.source.comparator_axioms
    by (simp add: edited_take_def sample_plain sample_order)
  moreover have "uniq ?c {sample_row 1 1, sample_row 4 1}" "uniq ?c {sample_row 1 1, sample_row 2 1}"
    by (auto simp: uniq_def sample_order)
  ultimately have "take_edit_axioms sample_conf
      {r \<in> shown run6 sample_conn. shouldBePresent ?c sample_bound r} None
      {sample_row 1 1, sample_row 4 1} [] edited_take \<lparr>ts_size = 1, ts_bound = Some (sample_row 4 1)\<rparr> (sample_row 4 1)
      (Node (sample_row 2 1) []) (Node (sample_row 4 1) [])"
    using ne by (auto simp: take_edit_axioms_def part c sample_plain)
  then show "take_edit sample_conf (skip_fetch ?c sample_bound (memory_fetch utf8_lex run6 sample_conn))
      {r \<in> shown run6 sample_conn. shouldBePresent ?c sample_bound r} scan_like None
      {sample_row 1 1, sample_row 4 1} [] edited_take \<lparr>ts_size = 1, ts_bound = Some (sample_row 4 1)\<rparr> (sample_row 4 1)
      (Node (sample_row 2 1) []) (Node (sample_row 4 1) [])"
    by (rule take_edit.intro [OF sample_step.take_step_axioms])
qed

lemma sample_take_inv: "take_inv sample_conf {sample_row 1 1} sample_take"
  using one_row_ok [of "conn_compareRows utf8_lex sample_conn" "sample_row 1 1" 1] sample_signs(1)
  by (auto simp: take_inv_def max_ok_def state_ok_def part_of_def getTakeStateKey_def sample_take_def sample_conf_def
      sample_plain split: if_splits)

lemma sample_input: "pipeline_input (tc_compare sample_conf) (memory_fetch utf8_lex run6 sample_conn) (shown run6 sample_conn) scan_like"
  using sample_source.scan_input [OF sample_scans] by (simp add: sample_conf_def)

lemma no_take_inv: "take_inv conf S no_take"
  by (simp add: take_inv_def max_ok_def no_take_def)

text \<open>A partitioned \<open>Take\<close> over the same source, before the push and after it with two rows taken.\<close>

definition sample_parts :: take_conf where
  "sample_parts = sample_conf\<lparr>tc_limit := 2, tc_partition := Some [''foo'']\<rparr>"

definition parts_take :: take_storage where
  "parts_take = \<lparr>tk_states = [([JNum 1], \<lparr>ts_size = 2, ts_bound = Some (sample_row 1 1)\<rparr>)],
     tk_maxBound = Some (sample_row 1 1), tk_hidden = None\<rparr>"

lemma part_key: "getTakeStateKey (Some [''foo'']) (Some (sample_row i f)) = [JNum (of_nat f)]"
  by (simp add: getTakeStateKey_def sample_row_def get_field_def normalizeUndefined_def)

lemma parts_scan: "pipeline_input (tc_compare sample_parts) (memory_fetch utf8_lex run6 sample_conn) (shown run6 sample_conn) scan_like"
  using sample_input by (simp add: sample_parts_def)

lemma parts_inv: "take_inv sample_parts {sample_row 1 1, sample_row 2 1} parts_take"
proof -
  let ?c = "conn_compareRows utf8_lex sample_conn"
  have "sample_row 1 1 \<noteq> sample_row 2 1" by (simp add: sample_row_def)
  moreover have "below ?c (sample_row 1 1) {sample_row 1 1, sample_row 2 1} = {sample_row 1 1, sample_row 2 1}"
    using sample_signs by (auto simp: below_def)
  ultimately have "bound_ok ?c 2 2 (sample_row 1 1) {sample_row 1 1, sample_row 2 1}"
    using sample_signs(1) by (simp add: bound_ok_def)
  moreover have "part_of sample_parts [JNum 1] {sample_row 1 1, sample_row 2 1} = {sample_row 1 1, sample_row 2 1}"
    using part_key by (auto simp: part_of_def sample_parts_def)
  ultimately show ?thesis
    using sample_signs(1) by (auto simp: take_inv_def max_ok_def state_ok_def parts_take_def sample_parts_def sample_conf_def
        sample_plain split: if_splits)
qed

definition sample_one :: take_conf where
  "sample_one = sample_parts\<lparr>tc_limit := 1\<rparr>"

definition one_take :: take_storage where
  "one_take = \<lparr>tk_states = [([JNum 1], \<lparr>ts_size = 1, ts_bound = Some (sample_row 1 1)\<rparr>)],
     tk_maxBound = Some (sample_row 1 1), tk_hidden = None\<rparr>"

lemma one_inv: "take_inv sample_one {sample_row 1 1} one_take"
proof -
  have "part_of sample_one [JNum 1] {sample_row 1 1} = {sample_row 1 1}"
    using part_key by (auto simp: part_of_def sample_one_def sample_parts_def)
  then show ?thesis
    using one_row_ok [of "conn_compareRows utf8_lex sample_conn" "sample_row 1 1" 1] sample_signs(1)
    by (auto simp: take_inv_def max_ok_def state_ok_def one_take_def sample_one_def sample_parts_def sample_conf_def
        sample_plain split: if_splits)
qed

subsection \<open>Skip\<close>

text \<open>C25: A fetch through a Skip over an input that keeps the contract of Input.fetch returns, in the
  order of the schema or reversed, exactly the rows of the input that are at or after the bound (after it
  when the bound is exclusive) and that the request asks for, for every combination of direction and start.\<close>

theorem skip_fetch_correct:
  assumes "skip_input cmp input rows ok b" and "ok req"
  shows "\<exists>items. skip_fetch cmp b input req = Inr items \<and>
    sorted_cmp (rev_cmp (req_reverse req) cmp) (rows_of_items items) \<and>
    set (rows_of_items items) = {r \<in> rows. shouldBePresent cmp b r \<and> requested cmp req r}"
proof -
  have "{r \<in> {r \<in> rows. shouldBePresent cmp b r}. requested cmp req r} =
      {r \<in> rows. shouldBePresent cmp b r \<and> requested cmp req r}" by blast
  with skip_input.skip_fetch_rows [OF assms] show ?thesis by simp
qed

theorem skip_fetch_correct_witness:
  "\<exists>items. skip_fetch (conn_compareRows utf8_lex sample_conn) sample_bound (memory_fetch utf8_lex run6 sample_conn)
     (scan_request (Some (sample_row 2 1, After)) False) = Inr items \<and> set (rows_of_items items) = {sample_row 1 1}"
proof -
  let ?c = "conn_compareRows utf8_lex sample_conn" and ?req = "scan_request (Some (sample_row 2 1, After)) False"
  have "scan_like ?req" by (auto simp: scan_like_def scan_request_def sample_plain)
  from skip_fetch_correct [OF sample_skip.skip_input_axioms this] obtain items where
    items: "skip_fetch ?c sample_bound (memory_fetch utf8_lex run6 sample_conn) ?req = Inr items"
      "set (rows_of_items items) = {r \<in> shown run6 sample_conn. shouldBePresent ?c sample_bound r \<and> requested ?c ?req r}"
    by blast
  have "requested ?c ?req (sample_row 1 1)" "\<not> requested ?c ?req (sample_row 2 1)"
    using sample_signs by (simp_all add: requested_def scan_request_def matches_def after_start_def start_reached_def)
  then have "{r \<in> shown run6 sample_conn. shouldBePresent ?c sample_bound r \<and> requested ?c ?req r} = {sample_row 1 1}"
    using sample_present by (auto simp: sample_shown)
  with items show ?thesis by auto
qed

text \<open>A push through a Skip never fails; when the change keeps the contract of Output.push for the rows of
  the input, what the output is pushed keeps it for the rows from the bound on, and takes them from what
  they were before the change to what they are after it: an edit across the bound becomes an add or a remove.\<close>

theorem skip_push_correct:
  assumes "push_ok c A"
  shows "\<exists>cs. skip_push cmp b c = Inr cs \<and> pushes_ok cs {r \<in> A. shouldBePresent cmp b r} \<and>
    apply_pushes cs {r \<in> A. shouldBePresent cmp b r} = {r \<in> apply_push c A. shouldBePresent cmp b r}"
proof -
  obtain cs where cs: "skip_push cmp b c = Inr cs" using skip_push_returns by blast
  then have "filterPush c (Some (\<lambda>r. Inr (shouldBePresent cmp b r))) = Inr cs" by (simp add: skip_push_filter)
  from filterPush_spec [OF this assms] cs show ?thesis by (simp add: passing_def)
qed

theorem skip_push_correct_witness:
  "skip_push (conn_compareRows utf8_lex sample_conn) sample_bound
     (CEdit (Node (sample_row 2 1) []) (Node (sample_row 4 1) [])) = Inr [CAdd (Node (sample_row 2 1) [])] \<and>
   apply_pushes [CAdd (Node (sample_row 2 1) [])] {} = {sample_row 2 1}"
proof -
  let ?c = "conn_compareRows utf8_lex sample_conn" and ?e = "CEdit (Node (sample_row 2 1) []) (Node (sample_row 4 1) [])"
  have "push_ok ?e {sample_row 4 1}" by simp
  from skip_push_correct [OF this, of ?c sample_bound] obtain cs where cs: "skip_push ?c sample_bound ?e = Inr cs"
    "apply_pushes cs {r \<in> {sample_row 4 1}. shouldBePresent ?c sample_bound r} =
       {r \<in> apply_push ?e {sample_row 4 1}. shouldBePresent ?c sample_bound r}" by blast
  have "skip_push ?c sample_bound ?e = Inr [CAdd (Node (sample_row 2 1) [])]" by code_simp
  with cs(1) have "cs = [CAdd (Node (sample_row 2 1) [])]" by simp
  moreover have "\<not> shouldBePresent ?c sample_bound (sample_row 4 1)" by code_simp
  ultimately show ?thesis using cs sample_present(2) by (auto simp: conj_disj_distribR)
qed

subsection \<open>Take\<close>

text \<open>The first fetch of a partition returns its first limit rows in the order of the schema (all of
  them when there are fewer) and records their number and the last of them, which keeps the invariant.\<close>

theorem take_initial_fetch_correct:
  assumes "pipeline_input (tc_compare conf) input S ok" and "take_inv conf S st"
    and "ok req" and "part_request conf req" and "req_start req = None" and "\<not> req_reverse req" and "req_multi req = None"
    and "k = request_key conf req" and "map_of (tk_states st) k = None" and "0 < tc_limit conf" and "\<forall>x \<in> S. plain_row x"
  shows "\<exists>out st'. take_fetch conf input req st = Inr (out, st') \<and> take_inv conf S st' \<and>
    first_rows (tc_compare conf) (tc_limit conf) (part_of conf k S) (rows_of_items out) \<and>
    set (rows_of_items out) = shown_by conf k (part_of conf k S) st'"
  by (rule initial_fetch_spec [OF assms])

theorem take_initial_fetch_correct_witness:
  "\<exists>out st'. take_fetch sample_conf (memory_fetch utf8_lex run6 sample_conn) (scan_request None False) no_take = Inr (out, st') \<and>
     first_rows (conn_compareRows utf8_lex sample_conn) 1 {sample_row 1 1, sample_row 2 1} (rows_of_items out)"
proof -
  let ?req = "scan_request None False"
  have "scan_like ?req" by (auto simp: scan_like_def scan_request_def)
  moreover have "part_request sample_conf ?req"
    by (simp add: part_request_def constraintMatchesPartitionKey_def scan_request_def sample_conf_def)
  moreover have "part_of sample_conf (request_key sample_conf ?req) S = S" for S
    by (simp add: part_of_def request_key_def getTakeStateKey_def sample_conf_def)
  ultimately show ?thesis
    using take_initial_fetch_correct [OF sample_input no_take_inv, of ?req "request_key sample_conf ?req"]
      sample_source.plain_shown by (auto simp: scan_request_def no_take_def sample_conf_def sample_shown)
qed

text \<open>C24: A later fetch of a partition returns, in order, exactly the rows the operator shows of it (those of
  the input up to the bound, without a row hidden during a push) at or after the start, and changes nothing.\<close>

theorem take_fetch_correct:
  assumes "pipeline_input (tc_compare conf) input S ok" and "ok req" and "part_request conf req" and "\<not> req_reverse req"
    and "k = request_key conf req" and "map_of (tk_states st) k = Some ts"
  shows "\<exists>out. take_fetch conf input req st = Inr (out, st) \<and> sorted_cmp (tc_compare conf) (rows_of_items out) \<and>
    set (rows_of_items out) = {x \<in> shown_by conf k (part_of conf k S) st. after_start (tc_compare conf) (req_start req) x}"
  by (rule hydrated_fetch_spec [OF assms])

theorem take_fetch_correct_witness:
  "\<exists>out. take_fetch sample_conf (memory_fetch utf8_lex run6 sample_conn) (scan_request None False)
     (sample_take\<lparr>tk_hidden := Some (sample_row 2 1)\<rparr>) = Inr (out, sample_take\<lparr>tk_hidden := Some (sample_row 2 1)\<rparr>) \<and>
     set (rows_of_items out) = {sample_row 1 1}"
proof -
  let ?req = "scan_request None False" and ?st = "sample_take\<lparr>tk_hidden := Some (sample_row 2 1)\<rparr>"
  have "scan_like ?req" by (auto simp: scan_like_def scan_request_def)
  moreover have "part_request sample_conf ?req"
    by (simp add: part_request_def constraintMatchesPartitionKey_def scan_request_def sample_conf_def)
  moreover have k: "request_key sample_conf ?req = []" "part_of sample_conf [] S = S" for S
    by (simp_all add: part_of_def request_key_def getTakeStateKey_def sample_conf_def)
  moreover have "map_of (tk_states ?st) [] = Some \<lparr>ts_size = 1, ts_bound = Some (sample_row 1 1)\<rparr>" by (simp add: sample_take_def)
  ultimately obtain out where "take_fetch sample_conf (memory_fetch utf8_lex run6 sample_conn) ?req ?st = Inr (out, ?st)"
    "set (rows_of_items out) = {x \<in> shown_by sample_conf [] (shown run6 sample_conn) ?st.
       after_start (tc_compare sample_conf) (req_start ?req) x}"
    using take_fetch_correct [OF sample_input, of ?req "[]" ?st] by (auto simp: scan_request_def)
  moreover have "shown_by sample_conf [] (shown run6 sample_conn) ?st = {sample_row 1 1}"
    using sample_signs by (auto simp: shown_by_def sample_take_def below_def sample_shown sample_conf_def)
  ultimately show ?thesis by (auto simp: after_start_def scan_request_def)
qed

text \<open>A fetch across partitions, possible only when the operator has a partition key, returns in order
  exactly the rows the operator shows of each partition that match the request: stopping at the greatest
  bound loses none, because no bound is after it.\<close>

theorem take_fetch_across_correct:
  assumes "pipeline_input (tc_compare conf) input S ok" and "take_inv conf S st" and "ok req" and "\<not> req_reverse req"
    and "tc_partition conf \<noteq> None" and "\<not> constraintMatchesPartitionKey (req_constraint req) (tc_partition conf)"
  shows "\<exists>out. take_fetch conf input req st = Inr (out, st) \<and> sorted_cmp (tc_compare conf) (rows_of_items out) \<and>
    set (rows_of_items out) = {x \<in> S. requested (tc_compare conf) req x \<and> shown_anywhere conf S st x}"
  by (rule fetch_across_spec [OF assms])

theorem take_fetch_across_correct_witness:
  "\<exists>out. take_fetch sample_parts (memory_fetch utf8_lex run6 sample_conn) (scan_request None False) parts_take = Inr (out, parts_take) \<and>
     set (rows_of_items out) = {sample_row 1 1, sample_row 2 1}"
proof -
  let ?req = "scan_request None False"
  have "scan_like ?req" by (auto simp: scan_like_def scan_request_def)
  moreover have "\<not> constraintMatchesPartitionKey (req_constraint ?req) (tc_partition sample_parts)"
    by (simp add: constraintMatchesPartitionKey_def scan_request_def sample_parts_def)
  moreover have "take_inv sample_parts (shown run6 sample_conn) parts_take" unfolding sample_shown by (rule parts_inv)
  ultimately obtain out where "take_fetch sample_parts (memory_fetch utf8_lex run6 sample_conn) ?req parts_take = Inr (out, parts_take)"
    "set (rows_of_items out) = {x \<in> shown run6 sample_conn. requested (tc_compare sample_parts) ?req x \<and>
       shown_anywhere sample_parts (shown run6 sample_conn) parts_take x}"
    using take_fetch_across_correct [OF parts_scan, of parts_take ?req] by (auto simp: scan_request_def sample_parts_def)
  moreover have "{x \<in> shown run6 sample_conn. requested (tc_compare sample_parts) ?req x \<and>
       shown_anywhere sample_parts (shown run6 sample_conn) parts_take x} = {sample_row 1 1, sample_row 2 1}"
    using sample_signs by (auto simp: sample_shown requested_def matches_def after_start_def scan_request_def shown_anywhere_def
        part_key Let_def shown_by_def parts_take_def below_def part_of_def sample_parts_def
        sample_conf_def less_imp_le)
  ultimately show ?thesis by blast
qed

text \<open>C3: A push through a Take over an input that already has the change returns; it keeps the invariant; its
  pushes keep the contract of Output.push and take the output from the rows the partition showed before to
  those it shows after, never more than limit on the way, and a fetch of the partition in the middle of
  each push returns what the output holds after it; the other partitions show the same rows as before, and
  a hydrated partition shows its first limit rows again.\<close>

theorem take_push_correct:
  assumes "pipeline_input (tc_compare conf) input (apply_push change S) ok" and "take_inv conf S st"
    and "push_ok change S" and "push_fits conf change"
    and "uniq (tc_compare conf) S" and "uniq (tc_compare conf) (apply_push change S)" and "\<forall>x \<in> apply_push change S. plain_row x"
    and "\<forall>b basis rv. plain_row b \<longrightarrow> ok (take_req b basis (row_constraint conf (changed_row change)) rv)"
    and "k = getTakeStateKey (tc_partition conf) (Some (changed_row change))"
  shows "\<exists>evs st'. take_push u8 conf input change st = Inr (evs, st') \<and> take_inv conf (apply_push change S) st' \<and>
    events_ok conf k (part_of conf k (apply_push change S)) (shown_by conf k (part_of conf k S) st) evs
      (shown_by conf k (part_of conf k (apply_push change S)) st') \<and>
    (\<forall>k'. k' \<noteq> k \<longrightarrow> shown_by conf k' (part_of conf k' (apply_push change S)) st' = shown_by conf k' (part_of conf k' S) st) \<and>
    (map_of (tk_states st) k \<noteq> None \<longrightarrow> first_set (tc_compare conf) (tc_limit conf) (part_of conf k (apply_push change S))
       (shown_by conf k (part_of conf k (apply_push change S)) st'))"
proof -
  have C: "comparator (tc_compare conf)" using assms(1) by (simp add: pipeline_input_def)
  from take_push_spec [OF assms, of u8] obtain evs st' where "take_push u8 conf input change st = Inr (evs, st')"
    and inv: "take_inv conf (apply_push change S) st'"
    and "events_ok conf k (part_of conf k (apply_push change S)) (shown_by conf k (part_of conf k S) st) evs
      (shown_by conf k (part_of conf k (apply_push change S)) st')"
    and k: "map_of (tk_states st') k = None \<longleftrightarrow> map_of (tk_states st) k = None"
    and "\<forall>k'. k' \<noteq> k \<longrightarrow> shown_by conf k' (part_of conf k' (apply_push change S)) st' = shown_by conf k' (part_of conf k' S) st"
    by (elim exE conjE)
  moreover have "map_of (tk_states st) k \<noteq> None \<Longrightarrow> first_set (tc_compare conf) (tc_limit conf)
      (part_of conf k (apply_push change S)) (shown_by conf k (part_of conf k (apply_push change S)) st')"
    by (rule take_inv_first [OF C inv]) (simp only: k not_False_eq_True)
  ultimately show ?thesis by (intro exI [of _ evs] exI [of _ st']) simp
qed

theorem take_push_correct_witness:
  "\<exists>evs st'. take_push utf8_lex sample_one (memory_fetch utf8_lex run6 sample_conn) (CAdd (Node (sample_row 2 1) [])) one_take =
     Inr (evs, st') \<and> first_set (tc_compare sample_one) 1 {sample_row 1 1, sample_row 2 1}
       (shown_by sample_one [JNum 1] {sample_row 1 1, sample_row 2 1} st')"
proof -
  let ?d = "CAdd (Node (sample_row 2 1) [])" and ?S = "{sample_row 1 1}" and ?S' = "{sample_row 2 1, sample_row 1 1}"
  let ?ok = "\<lambda>req. request_ok run6 sample_conn req \<and> req_multi req = None"
  have ap: "apply_push ?d ?S = ?S'" by simp
  have input: "pipeline_input (tc_compare sample_one) (memory_fetch utf8_lex run6 sample_conn) (apply_push ?d ?S) ?ok"
    using sample_source.source.pipeline_input_axioms
    by (simp add: sample_one_def sample_parts_def sample_conf_def sample_shown insert_commute)
  have push: "push_ok ?d ?S" "push_fits sample_one ?d" using sample_plain [of 2 1]
    by (simp_all add: sample_row_def keyed_def sample_one_def sample_parts_def get_field_def normalizeUndefined_def)
  have u: "uniq (tc_compare sample_one) ?S" "uniq (tc_compare sample_one) (apply_push ?d ?S)"
    "\<forall>x \<in> apply_push ?d ?S. plain_row x"
    using sample_signs by (auto simp: uniq_def sample_one_def sample_parts_def sample_conf_def sample_plain)
  have req: "\<forall>b basis rv. plain_row b \<longrightarrow> ?ok (take_req b basis (row_constraint sample_one (changed_row ?d)) rv)"
    unfolding sample_conn_def
    by (auto intro!: run6_request_ok simp: take_req_def row_constraint_def sample_one_def sample_parts_def)
  have k: "[JNum 1] = getTakeStateKey (tc_partition sample_one) (Some (changed_row ?d))"
    by (simp add: part_key sample_one_def sample_parts_def)
  have parts: "part_of sample_one [JNum 1] ?S' = ?S'" by (auto simp: part_of_def part_key sample_one_def sample_parts_def)
  have lim: "tc_limit sample_one = 1" "map_of (tk_states one_take) [JNum 1] \<noteq> None" by (simp_all add: sample_one_def one_take_def)
  from take_push_correct [OF input one_inv push u req k, of utf8_lex] show ?thesis
    unfolding ap parts lim(1) using lim(2) by (simp add: insert_commute) blast
qed

subsection \<open>A source under a Skip and a Take\<close>

text \<open>C2: In a reachable state of the source, in the middle of a push, delivering the change to a connection
  whose pipeline is a Skip and an unpartitioned Take runs through both operators without failing, with the
  fetches they make of the source during the push: the Take keeps its invariant, and what it pushes takes
  its output, one change at a time and never beyond the limit, from what it showed of the rows that the
  connection saw from the bound on to what it shows of those that the connection sees now, which are the
  first limit of them once the Take is hydrated.\<close>

theorem pipeline_correct:
  assumes "utf8_order u8" and "ms_reachable u8 str ms (Pushing c i later)" and "i < length (ms_connections ms)"
    and "push_deliver i c ms = Inr ([(out, pushes)], ms')" and "conn_output (ms_connections ms ! i) \<noteq> None"
    and "tc_compare conf = conn_compareRows u8 (ms_connections ms ! i)" and "tc_partition conf = None"
    and "scans_ok ms' (ms_connections ms' ! i)" and "plain_row (bound_row b)"
    and "S = {r \<in> shown ms (ms_connections ms ! i). shouldBePresent (tc_compare conf) b r}"
    and "S' = {r \<in> shown ms' (ms_connections ms' ! i). shouldBePresent (tc_compare conf) b r}"
    and "take_inv conf S st"
  shows "\<exists>evs st'. pipe_pushes u8 conf b (memory_fetch u8 ms' (ms_connections ms' ! i)) pushes st = Inr (evs, st') \<and>
    take_inv conf S' st' \<and> events_ok conf [] S' (shown_by conf [] S st) evs (shown_by conf [] S' st') \<and>
    (map_of (tk_states st) [] \<noteq> None \<longrightarrow> first_set (tc_compare conf) (tc_limit conf) S' (shown_by conf [] S' st'))"
proof -
  from pipeline_step [OF assms(1-9), of st, folded assms(10,11), OF assms(12)] obtain evs st' where
    run: "pipe_pushes u8 conf b (memory_fetch u8 ms' (ms_connections ms' ! i)) pushes st = Inr (evs, st')"
    and inv: "take_inv conf S' st'" and k: "map_of (tk_states st') [] = None \<longleftrightarrow> map_of (tk_states st) [] = None"
    and ev: "events_ok conf [] S' (shown_by conf [] S st) evs (shown_by conf [] S' st')"
    by (elim exE conjE)
  have C: "comparator (tc_compare conf)" unfolding assms(6) using utf8_order.comparator_conn [OF assms(1), of False] by simp
  have "part_of conf [] S' = S'" by (simp add: part_of_def getTakeStateKey_def assms(7))
  then have "map_of (tk_states st) [] \<noteq> None \<Longrightarrow> first_set (tc_compare conf) (tc_limit conf) S' (shown_by conf [] S' st')"
    using take_inv_first [OF C inv, of "[]"] by (simp only: k [symmetric]) simp
  with run inv ev show ?thesis by (intro exI [of _ evs] exI [of _ st']) simp
qed

theorem pipeline_correct_witness:
  "\<exists>evs st'. pipe_pushes utf8_lex sample_conf sample_bound (memory_fetch utf8_lex run6 (ms_connections run6 ! 0))
     [CAdd (Node (sample_row 2 1) [])] sample_take = Inr (evs, st') \<and>
   take_inv sample_conf {sample_row 1 1, sample_row 2 1} st' \<and>
   events_ok sample_conf [] {sample_row 1 1, sample_row 2 1} {sample_row 1 1} evs
     (shown_by sample_conf [] {sample_row 1 1, sample_row 2 1} st')"
proof -
  have c: "tc_compare sample_conf = conn_compareRows utf8_lex sample_conn" by (simp add: sample_conf_def)
  have S: "{sample_row 1 1} = {r \<in> shown run5 (ms_connections run5 ! 0). shouldBePresent (tc_compare sample_conf) sample_bound r}"
    using sample_present by (auto simp: sample_shown5 c)
  have S': "{sample_row 1 1, sample_row 2 1} =
      {r \<in> shown run6 (ms_connections run6 ! 0). shouldBePresent (tc_compare sample_conf) sample_bound r}"
    using sample_present by (auto simp: sample_shown c simp flip: sample_conn_def)
  have "shown_by sample_conf [] {sample_row 1 1} sample_take = {sample_row 1 1}"
    using sample_signs(1) by (auto simp: shown_by_def sample_take_def below_def sample_conf_def)
  note facts = this
  have pre: "0 < length (ms_connections run5)" "conn_output (ms_connections run5 ! 0) \<noteq> None"
    "tc_compare sample_conf = conn_compareRows utf8_lex (ms_connections run5 ! 0)" "tc_partition sample_conf = None"
    "scans_ok run6 (ms_connections run6 ! 0)" "plain_row (bound_row sample_bound)"
    using sample_scans by (simp_all add: run_connections sample_bound_def sample_plain sample_conf_def
        sample_conn_eq conn_compareRows_def)
  from pipeline_correct [OF bytes.utf8_order_axioms run5_reachable pre(1) deliver2 pre(2-6) S S' sample_take_inv, unfolded facts]
  show ?thesis by (elim exE conjE) (intro exI conjI)
qed

end
