(* ===== verification/Join.thy ===== *)
theory Join
  imports Operators
begin

section \<open>Join (zql/src/ivm/join.ts, join-utils.ts)\<close>

text \<open>
  \<open>Join\<close> adds to every node of its parent input a relationship: the nodes of its child input whose key
  matches. While a change of a child is pushed to the output, once for each matching parent, the parents
  after the one being pushed must still show the children from before the change: \<open>join_overlay\<close> undoes it.
  \<open>jn_change\<close> and \<open>jn_position\<close> are the fields \<open>#inprogressChildChange\<close> and
  \<open>#inprogressChildChangePosition\<close>. A relationship is a function in the code, called when the node is
  read; here it is the list it returns when the node is built, so an assertion that it would fail when it
  is read is an error of the fetch. Of a \<open>SourceSchema\<close> the model has the fields that the code reads.
\<close>

datatype source_schema =
  Schema (sc_compareRows: "row cmp") (sc_primaryKey: "string list") (sc_sort: "ordering option")
    (sc_relationships: "(string \<times> source_schema) list") (sc_isHidden: bool)

type_synonym node_input = "fetch_request \<Rightarrow> node item list result"

subsection \<open>Keys\<close>

text \<open>\<open>key[i]\<close> of a key that is too short is undefined, and reading that column reads the column \<open>'undefined'\<close>.\<close>

fun first_key :: "string list \<Rightarrow> string" where
  "first_key [] = ''undefined''"
| "first_key (k # ks) = k"

fun rowEqualsForCompoundKey :: "utf8 \<Rightarrow> row \<Rightarrow> row \<Rightarrow> string list \<Rightarrow> bool result" where
  "rowEqualsForCompoundKey u8 a b [] = Inr True"
| "rowEqualsForCompoundKey u8 a b (k # ks) =
     bind_result (compareValues u8 (get_field a k) (get_field b k)) (\<lambda>c.
       if c \<noteq> 0 then Inr False else rowEqualsForCompoundKey u8 a b ks)"

fun isJoinMatch :: "row \<Rightarrow> string list \<Rightarrow> row \<Rightarrow> string list \<Rightarrow> bool" where
  "isJoinMatch parentRow [] child childKey = True"
| "isJoinMatch parentRow (k # parentKey) child childKey =
     (if \<not> valuesEqual (get_field parentRow k) (get_field child (first_key childKey)) then False
      else isJoinMatch parentRow parentKey child (tl childKey))"

fun join_constraint_loop :: "row \<Rightarrow> string list \<Rightarrow> string list \<Rightarrow> constraint \<Rightarrow> constraint option" where
  "join_constraint_loop sourceRow sourceKey [] c = Some c"
| "join_constraint_loop sourceRow sourceKey (t # targetKey) c =
     (let v = get_field sourceRow (first_key sourceKey) in
      if v = JNull then None
      else join_constraint_loop sourceRow (tl sourceKey) targetKey (AList.update t v c))"

definition buildJoinConstraint :: "row \<Rightarrow> string list \<Rightarrow> string list \<Rightarrow> constraint option" where
  "buildJoinConstraint sourceRow sourceKey targetKey = join_constraint_loop sourceRow sourceKey targetKey []"

subsection \<open>The overlay that undoes a change\<close>

definition yield_then :: "'a list \<Rightarrow> 'a list result \<Rightarrow> 'a list result" where
  "yield_then xs rest = bind_result rest (\<lambda>ys. Inr (xs @ ys))"

lemma yield_then_cong [fundef_cong]: "xs = xs' \<Longrightarrow> r = r' \<Longrightarrow> yield_then xs r = yield_then xs' r'"
  by simp

lemma yield_then_simps [simp]: "yield_then xs (Inr ys) = Inr (xs @ ys)" "yield_then xs (Inl e) = Inl e"
  by (simp_all add: yield_then_def)

text \<open>The flags are \<open>applied\<close>, \<open>editOldApplied\<close> and \<open>editNewApplied\<close>.\<close>

fun join_overlay ::
    "change \<Rightarrow> source_schema \<Rightarrow> bool \<Rightarrow> bool \<Rightarrow> bool \<Rightarrow> node item list \<Rightarrow> node item list result" where
  "join_overlay overlay schema applied editOld editNew [] =
     (if applied then Inr []
      else case overlay of
          CRemove n \<Rightarrow> Inr [Item n]
        | CEdit n old \<Rightarrow>
            if editNew then Inr [Item old]
            else Inl (AssertionFailed ''edit overlay: new node must be applied before old node'')
        | _ \<Rightarrow> Inl (AssertionFailed ''overlayGenerator: overlay was never applied to any fetched node''))"
| "join_overlay overlay schema applied editOld editNew (Yield # nodes) =
     yield_then [Yield] (join_overlay overlay schema applied editOld editNew nodes)"
| "join_overlay overlay schema applied editOld editNew (Item node # nodes) =
     (if applied then yield_then [Item node] (join_overlay overlay schema True editOld editNew nodes)
      else case overlay of
          CAdd n \<Rightarrow>
            if sc_compareRows schema (node_row n) (node_row node) = 0
            then join_overlay overlay schema True editOld editNew nodes
            else yield_then [Item node] (join_overlay overlay schema False editOld editNew nodes)
        | CRemove n \<Rightarrow>
            if sc_compareRows schema (node_row n) (node_row node) < 0
            then yield_then [Item n, Item node] (join_overlay overlay schema True editOld editNew nodes)
            else yield_then [Item node] (join_overlay overlay schema False editOld editNew nodes)
        | CEdit n old \<Rightarrow>
            (let yieldOld = \<not> editOld \<and> sc_compareRows schema (node_row old) (node_row node) < 0;
                 suppress = \<not> editNew \<and> sc_compareRows schema (node_row n) (node_row node) = 0
             in yield_then ((if yieldOld then [Item old] else []) @ (if suppress then [] else [Item node]))
                  (join_overlay overlay schema ((yieldOld \<and> editNew) \<or> (suppress \<and> (editOld \<or> yieldOld)))
                     (editOld \<or> yieldOld) (editNew \<or> suppress) nodes))
        | CChild n rel c \<Rightarrow>
            if sc_compareRows schema (node_row n) (node_row node) = 0 then
              (case (map_of (relationships node) rel, map_of (sc_relationships schema) rel) of
                 (Some stream, Some childSchema) \<Rightarrow>
                   bind_result (join_overlay c childSchema False False False stream) (\<lambda>stream'.
                     yield_then [Item (Node (node_row node) (AList.update rel stream' (relationships node)))]
                       (join_overlay overlay schema True editOld editNew nodes))
               | _ \<Rightarrow> Inl (IllegalState ''relationship''))
            else yield_then [Item node] (join_overlay overlay schema False editOld editNew nodes))"

definition join_generateWithOverlay :: "node item list \<Rightarrow> change \<Rightarrow> source_schema \<Rightarrow> node item list result" where
  "join_generateWithOverlay stream overlay schema = join_overlay overlay schema False False False stream"

text \<open>The stream of an input without an order: the old row goes first.\<close>

fun unordered_loop ::
    "utf8 \<Rightarrow> change \<Rightarrow> source_schema \<Rightarrow> bool \<Rightarrow> node item list \<Rightarrow> node item list result" where
  "unordered_loop u8 overlay schema suppressed [] =
     (if suppressed \<or> (case overlay of CRemove _ \<Rightarrow> True | _ \<Rightarrow> False) then Inr []
      else Inl (AssertionFailed ''overlayGenerator: overlay was never applied to any fetched node''))"
| "unordered_loop u8 overlay schema suppressed (Yield # nodes) =
     yield_then [Yield] (unordered_loop u8 overlay schema suppressed nodes)"
| "unordered_loop u8 overlay schema suppressed (Item node # nodes) =
     (if suppressed then yield_then [Item node] (unordered_loop u8 overlay schema True nodes)
      else case overlay of
          CRemove n \<Rightarrow> yield_then [Item node] (unordered_loop u8 overlay schema False nodes)
        | CAdd n \<Rightarrow>
            bind_result (rowEqualsForCompoundKey u8 (node_row n) (node_row node) (sc_primaryKey schema)) (\<lambda>same.
              if same then unordered_loop u8 overlay schema True nodes
              else yield_then [Item node] (unordered_loop u8 overlay schema False nodes))
        | CEdit n old \<Rightarrow>
            bind_result (rowEqualsForCompoundKey u8 (node_row n) (node_row node) (sc_primaryKey schema)) (\<lambda>same.
              if same then unordered_loop u8 overlay schema True nodes
              else yield_then [Item node] (unordered_loop u8 overlay schema False nodes))
        | CChild n rel c \<Rightarrow>
            bind_result (rowEqualsForCompoundKey u8 (node_row n) (node_row node) (sc_primaryKey schema)) (\<lambda>same.
              if same then
                (case (map_of (relationships node) rel, map_of (sc_relationships schema) rel) of
                   (Some stream, Some childSchema) \<Rightarrow>
                     bind_result (join_generateWithOverlay stream c childSchema) (\<lambda>stream'.
                       yield_then [Item (Node (node_row node) (AList.update rel stream' (relationships node)))]
                         (unordered_loop u8 overlay schema True nodes))
                 | _ \<Rightarrow> Inl (IllegalState ''relationship''))
              else yield_then [Item node] (unordered_loop u8 overlay schema False nodes)))"

definition join_generateWithOverlayUnordered ::
    "utf8 \<Rightarrow> node item list \<Rightarrow> change \<Rightarrow> source_schema \<Rightarrow> node item list result" where
  "join_generateWithOverlayUnordered u8 stream overlay schema =
     yield_then (case overlay of CRemove n \<Rightarrow> [Item n] | CEdit n old \<Rightarrow> [Item old] | _ \<Rightarrow> [])
       (unordered_loop u8 overlay schema False stream)"

subsection \<open>The operator\<close>

record join_conf =
  jn_parentKey :: "string list"
  jn_childKey :: "string list"
  jn_relationshipName :: string
  jn_compareRows :: "row cmp"
  jn_childSchema :: source_schema

record join_state =
  jn_change :: "change option"
  jn_position :: "row option"

text \<open>\<open>{...childSchema, isHidden: hidden}\<close>.\<close>

definition hidden_schema :: "bool \<Rightarrow> source_schema \<Rightarrow> source_schema" where
  "hidden_schema hidden sc = Schema (sc_compareRows sc) (sc_primaryKey sc) (sc_sort sc) (sc_relationships sc) hidden"

definition new_join ::
    "bool \<Rightarrow> string list \<Rightarrow> string list \<Rightarrow> string \<Rightarrow> bool \<Rightarrow> source_schema \<Rightarrow> source_schema \<Rightarrow> (source_schema \<times> join_conf \<times> join_state) result"
    where
  "new_join same parentKey childKey relationshipName hidden parentSchema childSchema =
     (if same then Inl (AssertionFailed ''Parent and child must be different operators'')
      else if length parentKey \<noteq> length childKey
      then Inl (AssertionFailed ''The parentKey and childKey keys must have same length'')
      else Inr (Schema (sc_compareRows parentSchema) (sc_primaryKey parentSchema) (sc_sort parentSchema)
                  (AList.update relationshipName (hidden_schema hidden childSchema) (sc_relationships parentSchema)) (sc_isHidden parentSchema),
                \<lparr>jn_parentKey = parentKey, jn_childKey = childKey, jn_relationshipName = relationshipName,
                 jn_compareRows = sc_compareRows parentSchema, jn_childSchema = childSchema\<rparr>,
                \<lparr>jn_change = None, jn_position = None\<rparr>))"

text \<open>\<open>change[ChangeIndex.NODE].row\<close>.\<close>

fun change_row :: "change \<Rightarrow> row" where
  "change_row (CAdd n) = node_row n"
| "change_row (CRemove n) = node_row n"
| "change_row (CChild n rel c) = node_row n"
| "change_row (CEdit n old) = node_row n"

definition join_request :: "constraint \<Rightarrow> fetch_request" where
  "join_request c = \<lparr>req_constraint = Some c, req_multi = None, req_start = None, req_reverse = False\<rparr>"

definition childStream :: "utf8 \<Rightarrow> join_conf \<Rightarrow> node_input \<Rightarrow> join_state \<Rightarrow> row \<Rightarrow> node item list result" where
  "childStream u8 conf child st r =
     bind_result
       (case buildJoinConstraint r (jn_parentKey conf) (jn_childKey conf) of
          None \<Rightarrow> Inr [] | Some c \<Rightarrow> child (join_request c))
       (\<lambda>stream. case jn_change st of
          None \<Rightarrow> Inr stream
        | Some change \<Rightarrow>
            if isJoinMatch r (jn_parentKey conf) (change_row change) (jn_childKey conf) \<and>
               (case jn_position st of None \<Rightarrow> False | Some p \<Rightarrow> 0 < jn_compareRows conf r p)
            then (if sc_sort (jn_childSchema conf) = None
                  then join_generateWithOverlayUnordered u8 stream change (jn_childSchema conf)
                  else join_generateWithOverlay stream change (jn_childSchema conf))
            else Inr stream)"

definition processParentNode :: "utf8 \<Rightarrow> join_conf \<Rightarrow> node_input \<Rightarrow> join_state \<Rightarrow> node \<Rightarrow> node result" where
  "processParentNode u8 conf child st nd =
     bind_result (childStream u8 conf child st (node_row nd)) (\<lambda>stream.
       Inr (Node (node_row nd) (AList.update (jn_relationshipName conf) stream (relationships nd))))"

fun traverse_items :: "('a \<Rightarrow> 'b result) \<Rightarrow> 'a item list \<Rightarrow> 'b item list result" where
  "traverse_items f [] = Inr []"
| "traverse_items f (Yield # items) = yield_then [Yield] (traverse_items f items)"
| "traverse_items f (Item a # items) = bind_result (f a) (\<lambda>b. yield_then [Item b] (traverse_items f items))"

definition join_fetch ::
    "utf8 \<Rightarrow> join_conf \<Rightarrow> node_input \<Rightarrow> node_input \<Rightarrow> join_state \<Rightarrow> fetch_request \<Rightarrow> node item list result" where
  "join_fetch u8 conf parentIn child st req =
     bind_result (parentIn req) (traverse_items (processParentNode u8 conf child st))"

fun join_pushParent :: "utf8 \<Rightarrow> join_conf \<Rightarrow> node_input \<Rightarrow> join_state \<Rightarrow> change \<Rightarrow> change result" where
  "join_pushParent u8 conf child st (CAdd n) =
     bind_result (processParentNode u8 conf child st n) (\<lambda>n'. Inr (CAdd n'))"
| "join_pushParent u8 conf child st (CRemove n) =
     bind_result (processParentNode u8 conf child st n) (\<lambda>n'. Inr (CRemove n'))"
| "join_pushParent u8 conf child st (CChild n rel c) =
     bind_result (processParentNode u8 conf child st n) (\<lambda>n'. Inr (CChild n' rel c))"
| "join_pushParent u8 conf child st (CEdit n old) =
     bind_result (rowEqualsForCompoundKey u8 (node_row old) (node_row n) (jn_parentKey conf)) (\<lambda>same.
       if \<not> same then Inl (AssertionFailed ''Parent edit must not change relationship.'')
       else bind_result (processParentNode u8 conf child st n) (\<lambda>n'.
            bind_result (processParentNode u8 conf child st old) (\<lambda>old'. Inr (CEdit n' old'))))"

type_synonym join_events = "(change \<times> join_state) list"

fun push_parents :: "utf8 \<Rightarrow> join_conf \<Rightarrow> node_input \<Rightarrow> change \<Rightarrow> node item list \<Rightarrow> join_events result" where
  "push_parents u8 conf child change [] = Inr []"
| "push_parents u8 conf child change (Yield # nodes) = push_parents u8 conf child change nodes"
| "push_parents u8 conf child change (Item nd # nodes) =
     (let st = \<lparr>jn_change = Some change, jn_position = Some (node_row nd)\<rparr> in
      bind_result (processParentNode u8 conf child st nd) (\<lambda>n.
        yield_then [(CChild n (jn_relationshipName conf) change, st)] (push_parents u8 conf child change nodes)))"

definition pushChildChange ::
    "utf8 \<Rightarrow> join_conf \<Rightarrow> node_input \<Rightarrow> node_input \<Rightarrow> row \<Rightarrow> change \<Rightarrow> (join_events \<times> join_state) result" where
  "pushChildChange u8 conf parentIn child childRow change =
     bind_result
       (case buildJoinConstraint childRow (jn_childKey conf) (jn_parentKey conf) of
          None \<Rightarrow> Inr []
        | Some c \<Rightarrow> bind_result (parentIn (join_request c)) (push_parents u8 conf child change))
       (\<lambda>evs. Inr (evs, \<lparr>jn_change = None,
          jn_position = (if evs = [] then None else jn_position (snd (last evs)))\<rparr>))"

fun join_pushChild ::
    "utf8 \<Rightarrow> join_conf \<Rightarrow> node_input \<Rightarrow> node_input \<Rightarrow> change \<Rightarrow> (join_events \<times> join_state) result" where
  "join_pushChild u8 conf parentIn child (CEdit n old) =
     bind_result (rowEqualsForCompoundKey u8 (node_row old) (node_row n) (jn_childKey conf)) (\<lambda>same.
       if \<not> same then Inl (AssertionFailed ''Child edit must not change relationship.'')
       else pushChildChange u8 conf parentIn child (node_row n) (CEdit n old))"
| "join_pushChild u8 conf parentIn child change = pushChildChange u8 conf parentIn child (change_row change) change"

end
