(* ===== verification/JoinCorrect.thy ===== *)
theory JoinCorrect
  imports Join TakeOrder
begin

section \<open>Correctness of Join (zql/src/ivm/join.ts)\<close>

text \<open>
  The overlay of a join undoes a change of the child: on the nodes after the change it gives those from
  before it. With it a fetch during the push of a child shows, for every parent that was not pushed yet,
  the children from before, so that each push of \<open>Join\<close> changes the children of the one parent it is for.
\<close>

subsection \<open>The overlay\<close>

lemma join_overlay_applied: "join_overlay overlay schema True editOld editNew items = Inr items"
proof (induction items)
  case (Cons it items)
  then show ?case by (cases it) simp_all
qed simp

lemma del_sorted_Cons:
  "del_sorted cmp x (y # ys) = (if cmp y x = 0 then del_sorted cmp x ys else y # del_sorted cmp x ys)"
  by (simp add: del_sorted_def)

lemma ins_sorted_first: "\<forall>k \<in> set ys. 0 < cmp k x \<Longrightarrow> ins_sorted cmp x ys = x # ys"
  using ins_sorted_append [of "[]" cmp x ys "[]"] by (simp add: ins_sorted_def)

lemma ins_sorted_later: "cmp y x < 0 \<Longrightarrow> ins_sorted cmp x (y # ys) = y # ins_sorted cmp x ys"
  by (simp add: ins_sorted_def)

lemma rows_of_items_append [simp]: "rows_of_items (xs @ ys) = rows_of_items xs @ rows_of_items ys"
  by (simp add: rows_of_items_def)

context comparator
begin

lemma above_all:
  assumes "sorted_cmp cmp (y # ys)" "cmp x y \<le> 0"
  shows "\<forall>k \<in> set ys. 0 < cmp k x"
  using assms cmp_le_less_trans [of x y] by (auto simp: sorted_rules cmp_pos)

lemma del_sorted_above: "\<forall>k \<in> set ys. 0 < cmp k x \<Longrightarrow> del_sorted cmp x ys = ys"
  by (auto simp: del_sorted_def filter_id_conv)

end

text \<open>A change that is not one of a relationship.\<close>

definition row_change :: "change \<Rightarrow> bool" where
  "row_change ch \<longleftrightarrow> (case ch of CChild _ _ _ \<Rightarrow> False | _ \<Rightarrow> True)"

locale join_schema = comparator "sc_compareRows schema" for schema :: source_schema
begin

abbreviation cmp :: "row cmp" where
  "cmp \<equiv> sc_compareRows schema"

lemma overlay_add:
  assumes "sorted_cmp cmp (rows_of_items items)" "\<exists>x \<in> set (rows_of_items items). cmp x (node_row n) = 0"
  shows "\<exists>out. join_overlay (CAdd n) schema False eo en items = Inr out \<and>
    rows_of_items out = del_sorted cmp (node_row n) (rows_of_items items)"
  using assms
proof (induction items)
  case (Cons it items)
  show ?case
  proof (cases it)
    case (Item nd)
    show ?thesis
    proof (cases "cmp (node_row nd) (node_row n) = 0")
      case True
      then have "cmp (node_row n) (node_row nd) = 0" by (simp add: cmp_zero_sym)
      moreover from this have "\<forall>k \<in> set (rows_of_items items). 0 < cmp k (node_row n)"
        using above_all [of "node_row nd" "rows_of_items items" "node_row n"] Cons.prems(1) by (simp add: Item)
      ultimately show ?thesis using True by (simp add: Item join_overlay_applied del_sorted_Cons del_sorted_above)
    next
      case False
      then have "cmp (node_row n) (node_row nd) \<noteq> 0" by (simp add: cmp_zero_sym)
      with Cons False show ?thesis by (auto simp: Item sorted_rules del_sorted_Cons)
    qed
  qed (use Cons in auto)
qed simp

lemma overlay_remove:
  assumes "sorted_cmp cmp (rows_of_items items)" "\<forall>x \<in> set (rows_of_items items). cmp (node_row n) x \<noteq> 0"
  shows "\<exists>out. join_overlay (CRemove n) schema False eo en items = Inr out \<and>
    rows_of_items out = ins_sorted cmp (node_row n) (rows_of_items items)"
  using assms
proof (induction items)
  case (Cons it items)
  show ?case
  proof (cases it)
    case (Item nd)
    show ?thesis
    proof (cases "cmp (node_row n) (node_row nd) < 0")
      case True
      then have "\<forall>k \<in> set (rows_of_items (it # items)). 0 < cmp k (node_row n)"
        using above_all [of "node_row nd" "rows_of_items items" "node_row n"] Cons.prems(1) by (simp add: Item cmp_pos)
      with True show ?thesis by (simp add: Item join_overlay_applied ins_sorted_first)
    next
      case False
      then have "cmp (node_row nd) (node_row n) < 0" using Cons.prems(2) by (simp add: Item cmp_anti [of "node_row nd"])
      with Cons False show ?thesis by (auto simp: Item sorted_rules ins_sorted_later)
    qed
  qed (use Cons in auto)
qed (simp add: ins_sorted_def)

text \<open>An edit: when the new row was suppressed already, when the old one was yielded already, and from the start.\<close>

lemma overlay_edit_as_remove:
  "join_overlay (CEdit n old) schema False False True items = join_overlay (CRemove old) schema False eo en items"
proof (induction items)
  case (Cons it items)
  then show ?case by (cases it) (simp_all add: join_overlay_applied)
qed simp

lemma overlay_edit_as_add:
  "join_overlay (CAdd n) schema False eo en items = Inr out \<Longrightarrow>
   join_overlay (CEdit n old) schema False True False items = Inr out"
proof (induction items arbitrary: out)
  case (Cons it items)
  then show ?case by (cases it) (auto simp: join_overlay_applied yield_then_def bind_result_eq_Inr split: if_splits)
qed simp

lemma overlay_edit:
  assumes "sorted_cmp cmp (rows_of_items items)" "\<exists>x \<in> set (rows_of_items items). cmp x (node_row n) = 0"
    and "\<forall>x \<in> set (rows_of_items items). cmp x (node_row n) \<noteq> 0 \<longrightarrow> cmp (node_row old) x \<noteq> 0"
  shows "\<exists>out. join_overlay (CEdit n old) schema False False False items = Inr out \<and>
    rows_of_items out = ins_sorted cmp (node_row old) (del_sorted cmp (node_row n) (rows_of_items items))"
  using assms
proof (induction items)
  case (Cons it items)
  show ?case
  proof (cases it)
    case (Item nd)
    let ?o = "node_row old" and ?n = "node_row n" and ?x = "node_row nd" and ?rs = "rows_of_items items"
    have srt: "sorted_cmp cmp (?x # ?rs)" "sorted_cmp cmp ?rs" using Cons.prems(1) by (simp_all add: Item sorted_rules)
    have above: "cmp y ?x \<le> 0 \<Longrightarrow> \<forall>k \<in> set ?rs. 0 < cmp k y" for y using above_all [OF srt(1)] .
    have pos: "0 < cmp k l \<Longrightarrow> cmp k l \<noteq> 0" for k l by simp
    consider (both) "cmp ?o ?x < 0" "cmp ?n ?x = 0" | (old) "cmp ?o ?x < 0" "cmp ?n ?x \<noteq> 0"
      | (new) "\<not> cmp ?o ?x < 0" "cmp ?n ?x = 0" | (none) "\<not> cmp ?o ?x < 0" "cmp ?n ?x \<noteq> 0" by blast
    then show ?thesis
    proof cases
      case both
      then show ?thesis using above [of ?o] above [of ?n]
        by (simp add: Item join_overlay_applied del_sorted_Cons del_sorted_above ins_sorted_first cmp_zero_sym [of ?x])
    next
      case old
      then have "\<exists>x \<in> set ?rs. cmp x ?n = 0" using Cons.prems(2) cmp_zero_sym [of ?x] by (auto simp: Item)
      from overlay_add [OF srt(2) this] obtain out where out: "join_overlay (CAdd n) schema False True False items = Inr out"
        "rows_of_items out = del_sorted cmp ?n ?rs" by blast
      have "\<forall>k \<in> set (?x # del_sorted cmp ?n ?rs). 0 < cmp k ?o"
        using above [of ?o] old(1) by (auto simp: set_del_sorted cmp_pos)
      then have "ins_sorted cmp ?o (?x # del_sorted cmp ?n ?rs) = ?o # ?x # del_sorted cmp ?n ?rs" by (rule ins_sorted_first)
      then show ?thesis using old out(2) overlay_edit_as_add [OF out(1)]
        by (simp add: Item del_sorted_Cons cmp_zero_sym [of ?x])
    next
      case new
      have "\<forall>k \<in> set ?rs. cmp ?o k \<noteq> 0"
        using Cons.prems(3) above [of ?n] new(2) by (auto simp: Item dest: pos)
      from overlay_remove [OF srt(2) this] obtain out where out: "join_overlay (CRemove old) schema False False False items = Inr out"
        "rows_of_items out = ins_sorted cmp ?o ?rs" by blast
      then show ?thesis using new overlay_edit_as_remove [of n old items False False] above [of ?n]
        by (simp add: Item del_sorted_Cons del_sorted_above cmp_zero_sym [of ?x])
    next
      case none
      then have "cmp ?x ?n \<noteq> 0" "cmp ?x ?o < 0"
        using Cons.prems(3) cmp_zero_sym [of ?x] by (auto simp: Item cmp_anti [of ?x])
      with Cons none show ?thesis by (auto simp: Item sorted_rules del_sorted_Cons ins_sorted_later)
    qed
  qed (use Cons in auto)
qed simp

text \<open>On the nodes after a change of rows the overlay gives the nodes from before it.\<close>

lemma overlay_undoes:
  assumes items: "sorted_cmp cmp (rows_of_items items)" "set (rows_of_items items) = apply_push ch S"
    and push: "push_ok ch S" "row_change ch" and u: "uniq cmp S" "uniq cmp (apply_push ch S)"
  shows "\<exists>out. join_generateWithOverlay items ch schema = Inr out \<and> sorted_cmp cmp (rows_of_items out) \<and>
    set (rows_of_items out) = S"
proof (cases ch)
  case (CAdd n)
  have "\<exists>x \<in> set (rows_of_items items). cmp x (node_row n) = 0" using items(2) by (auto simp: CAdd)
  from overlay_add [OF items(1) this] obtain out where "join_overlay (CAdd n) schema False False False items = Inr out"
    "rows_of_items out = del_sorted cmp (node_row n) (rows_of_items items)" by blast
  moreover have "set (del_sorted cmp (node_row n) (rows_of_items items)) = S"
    using push(1) uniqD [OF u(2), of _ "node_row n"] by (auto simp: CAdd set_del_sorted items(2))
  ultimately show ?thesis using sorted_del_sorted [OF items(1)] by (simp add: join_generateWithOverlay_def CAdd)
next
  case (CRemove n)
  have "\<forall>x \<in> set (rows_of_items items). cmp (node_row n) x \<noteq> 0"
    using push(1) uniqD [OF u(1), of "node_row n"] by (auto simp: CRemove items(2))
  from overlay_remove [OF items(1) this] obtain out where out: "join_overlay (CRemove n) schema False False False items = Inr out"
    "rows_of_items out = ins_sorted cmp (node_row n) (rows_of_items items)" by blast
  moreover have "set (ins_sorted cmp (node_row n) (rows_of_items items)) = S"
    using push(1) uniqD [OF u(1), of _ "node_row n"] by (auto simp: CRemove set_ins_sorted items(2))
  ultimately show ?thesis using sorted_ins_sorted [OF items(1)] by (simp add: join_generateWithOverlay_def CRemove)
next
  case (CEdit n old)
  have one: "\<exists>x \<in> set (rows_of_items items). cmp x (node_row n) = 0" using items(2) by (auto simp: CEdit)
  have "\<forall>x \<in> set (rows_of_items items). cmp x (node_row n) \<noteq> 0 \<longrightarrow> cmp (node_row old) x \<noteq> 0"
    using push(1) uniqD [OF u(1), of "node_row old"] by (auto simp: CEdit items(2))
  from overlay_edit [OF items(1) one this] obtain out where out: "join_overlay (CEdit n old) schema False False False items = Inr out"
    "rows_of_items out = ins_sorted cmp (node_row old) (del_sorted cmp (node_row n) (rows_of_items items))" by blast
  have "x \<in> S" if "x \<in> apply_push ch S" "cmp x (node_row n) \<noteq> 0" for x using that by (auto simp: CEdit)
  moreover have "x = node_row old \<or> (x \<in> apply_push ch S \<and> cmp x (node_row n) \<noteq> 0 \<and> cmp x (node_row old) \<noteq> 0)" if "x \<in> S" for x
    using that push(1) uniqD [OF u(1), of x "node_row old"] uniqD [OF u(2), of x "node_row n"] by (auto simp: CEdit)
  ultimately have "set (rows_of_items out) = S"
    using push(1) by (auto simp: out(2) set_ins_sorted set_del_sorted items(2) CEdit)
  moreover have "sorted_cmp cmp (rows_of_items out)"
    unfolding out(2) by (rule sorted_ins_sorted [OF sorted_del_sorted [OF items(1)]])
  ultimately show ?thesis using out(1) by (simp add: join_generateWithOverlay_def CEdit)
next
  case (CChild n rel c)
  with push(2) show ?thesis by (simp add: row_change_def)
qed

text \<open>A change of a relationship is undone in the one node it is about.\<close>

lemma overlay_child:
  assumes "skipYields items = xs @ nd # ys" "\<forall>x \<in> set xs. cmp (node_row n) (node_row x) \<noteq> 0" "cmp (node_row n) (node_row nd) = 0"
    and rel: "map_of (relationships nd) rel = Some stream" "map_of (sc_relationships schema) rel = Some childSchema"
      "join_generateWithOverlay stream c childSchema = Inr stream'"
  shows "\<exists>out. join_overlay (CChild n rel c) schema False eo en items = Inr out \<and>
    skipYields out = xs @ Node (node_row nd) (AList.update rel stream' (relationships nd)) # ys"
  using assms(1,2)
proof (induction items arbitrary: xs)
  case outer: (Cons it items)
  show ?case
  proof (cases it)
    case (Item m)
    show ?thesis
    proof (cases xs)
      case Nil
      with outer.prems Item have "m = nd" "skipYields items = ys" by simp_all
      with assms(3) rel Nil show ?thesis by (simp add: Item join_overlay_applied join_generateWithOverlay_def)
    next
      case (Cons x xs')
      with outer.prems Item have m: "m = x" "skipYields items = xs' @ nd # ys" "\<forall>x \<in> set xs'. cmp (node_row n) (node_row x) \<noteq> 0"
        "cmp (node_row n) (node_row m) \<noteq> 0" by simp_all
      from outer.IH [OF m(2,3)] m(1,4) show ?thesis by (auto simp: Item Cons)
    qed
  qed (use outer in auto)
qed simp

end

text \<open>Without an order the old row comes first.\<close>

lemma unordered_loop_rest: "unordered_loop u8 ch schema True items = Inr items"
proof (induction items)
  case (Cons it items)
  then show ?case by (cases it) simp_all
qed simp

lemma unordered_loop_rows:
  assumes "\<forall>x \<in> set (rows_of_items items). rowEqualsForCompoundKey u8 (node_row n) x (sc_primaryKey schema) = Inr (x = node_row n)"
    "node_row n \<in> set (rows_of_items items)" "ch = CAdd n \<or> ch = CEdit n old"
  shows "\<exists>out. unordered_loop u8 ch schema False items = Inr out \<and> rows_of_items out = remove1 (node_row n) (rows_of_items items)"
  using assms(1,2)
proof (induction items)
  case (Cons it items)
  show ?case
  proof (cases it)
    case (Item m)
    show ?thesis
    proof (cases "node_row m = node_row n")
      case True
      with assms(3) Cons.prems show ?thesis by (auto simp: Item unordered_loop_rest)
    next
      case False
      with assms(3) Cons show ?thesis by (auto simp: Item)
    qed
  qed (use Cons in auto)
qed simp

lemma unordered_loop_remove: "unordered_loop u8 (CRemove n) schema False items = Inr items"
proof (induction items)
  case (Cons it items)
  then show ?case by (cases it) simp_all
qed simp

lemma overlay_undoes_unordered:
  assumes key: "\<forall>x \<in> set (rows_of_items items). rowEqualsForCompoundKey u8 (change_row ch) x (sc_primaryKey schema) = Inr (x = change_row ch)"
    and items: "distinct (rows_of_items items)" "set (rows_of_items items) = apply_push ch S" and push: "push_ok ch S" "row_change ch"
  shows "\<exists>out. join_generateWithOverlayUnordered u8 items ch schema = Inr out \<and> distinct (rows_of_items out) \<and>
    set (rows_of_items out) = S"
proof (cases ch)
  case (CAdd n)
  with unordered_loop_rows [of items u8 n schema ch n] key items obtain out where
    "unordered_loop u8 ch schema False items = Inr out" "rows_of_items out = remove1 (node_row n) (rows_of_items items)" by auto
  with CAdd items push show ?thesis by (simp add: join_generateWithOverlayUnordered_def)
next
  case (CEdit n old)
  with unordered_loop_rows [of items u8 n schema ch old] key items obtain out where
    "unordered_loop u8 ch schema False items = Inr out" "rows_of_items out = remove1 (node_row n) (rows_of_items items)" by auto
  with CEdit items push show ?thesis by (auto simp: join_generateWithOverlayUnordered_def)
next
  case (CRemove n)
  with items push show ?thesis by (auto simp: join_generateWithOverlayUnordered_def unordered_loop_remove)
qed (use push in \<open>simp add: row_change_def\<close>)

subsection \<open>Keys\<close>

lemma valuesEqual_sym: "valuesEqual a b = valuesEqual b a"
  by (auto simp: valuesEqual_def)

lemma valuesEqual_null [simp]: "\<not> valuesEqual JNull b" "\<not> valuesEqual a JNull"
  by (simp_all add: valuesEqual_def)

lemma isJoinMatch_zip:
  "length pk = length ck \<Longrightarrow> isJoinMatch r pk x ck \<longleftrightarrow> list_all (\<lambda>(p, c). valuesEqual (get_field r p) (get_field x c)) (zip pk ck)"
proof (induction pk arbitrary: ck)
  case (Cons p pk)
  then show ?case by (cases ck) auto
qed simp

lemma update_fresh: "k \<notin> fst ` set c \<Longrightarrow> AList.update k v c = c @ [(k, v)]"
  by (induction c) auto

lemma join_constraint_loop_zip:
  "length sk = length tk \<Longrightarrow> distinct tk \<Longrightarrow> set tk \<inter> fst ` set c = {} \<Longrightarrow>
   join_constraint_loop r sk tk c =
     (if \<exists>s \<in> set sk. get_field r s = JNull then None else Some (c @ zip tk (map (get_field r) sk)))"
proof (induction tk arbitrary: sk c)
  case (Cons t tk)
  then obtain s sk' where sk: "sk = s # sk'" "length sk' = length tk" by (cases sk) auto
  with Cons show ?case by (simp add: update_fresh Let_def)
qed simp

lemma buildJoinConstraint_zip:
  "length sk = length tk \<Longrightarrow> distinct tk \<Longrightarrow> buildJoinConstraint r sk tk =
     (if \<exists>s \<in> set sk. get_field r s = JNull then None else Some (zip tk (map (get_field r) sk)))"
  by (simp add: buildJoinConstraint_def join_constraint_loop_zip)

lemma join_constraint_None:
  assumes "length sk = length tk" "distinct tk" "buildJoinConstraint r sk tk = None"
  shows "\<not> isJoinMatch r sk x tk"
proof -
  obtain s where "s \<in> set sk" "get_field r s = JNull"
    using assms by (auto simp: buildJoinConstraint_zip split: if_splits)
  then obtain t where "(s, t) \<in> set (zip sk tk)" "get_field r s = JNull" using assms(1) by (metis in_set_impl_in_set_zip1)
  then show ?thesis by (force simp: isJoinMatch_zip [OF assms(1)] list_all_iff)
qed

lemma join_constraint_Some:
  assumes "length sk = length tk" "distinct tk" "buildJoinConstraint r sk tk = Some c"
  shows "distinct (map fst c) \<and> (constraintMatchesRow c x \<longleftrightarrow> isJoinMatch r sk x tk)"
proof -
  have c: "c = zip tk (map (get_field r) sk)" using assms by (auto simp: buildJoinConstraint_zip split: if_splits)
  have "list_all (\<lambda>(k, v). valuesEqual (get_field x k) v) (zip tk (map (get_field r) sk)) \<longleftrightarrow>
      list_all (\<lambda>(p, c). valuesEqual (get_field r p) (get_field x c)) (zip sk tk)"
    using assms(1) by (induction sk tk rule: list_induct2) (auto simp: valuesEqual_sym)
  then show ?thesis
    using assms(1,2) by (simp add: c constraintMatchesRow_def isJoinMatch_zip [OF assms(1)])
qed

lemma isJoinMatch_sym: "length pk = length ck \<Longrightarrow> isJoinMatch r pk x ck \<longleftrightarrow> isJoinMatch x ck r pk"
  by (simp add: isJoinMatch_zip, induction pk ck rule: list_induct2) (auto simp: valuesEqual_sym)

context utf8_order
begin

lemma compareValues_same: "compareValues u8 a b = Inr 0 \<Longrightarrow> normalizeUndefined a = normalizeUndefined b"
  by (cases a; cases b) (auto simp: compareValues_def normalizeUndefined_def Let_def u8_zero split: if_splits)

lemma rowEquals_fields:
  "rowEqualsForCompoundKey u8 a b ks = Inr True \<Longrightarrow> k \<in> set ks \<Longrightarrow>
   normalizeUndefined (get_field a k) = normalizeUndefined (get_field b k)"
  by (induction ks) (auto simp: bind_result_eq_Inr split: if_splits dest: compareValues_same)

lemma rowEquals_match:
  assumes "rowEqualsForCompoundKey u8 a b ck = Inr True" "length pk = length ck"
  shows "isJoinMatch r pk a ck \<longleftrightarrow> isJoinMatch r pk b ck"
proof -
  have norm: "normalizeUndefined v = normalizeUndefined w \<Longrightarrow> valuesEqual u v = valuesEqual u w" for u v w
    by (cases v; cases w) (auto simp: normalizeUndefined_def valuesEqual_def)
  have "valuesEqual u (get_field a c) \<longleftrightarrow> valuesEqual u (get_field b c)" if "c \<in> set ck" for u c
    using norm rowEquals_fields [OF assms(1) that] by blast
  then have "list_all (\<lambda>(p, c). valuesEqual (get_field r p) (get_field a c)) (zip pk ck) \<longleftrightarrow>
      list_all (\<lambda>(p, c). valuesEqual (get_field r p) (get_field b c)) (zip pk ck)"
    by (intro list.pred_cong refl) (auto dest: set_zip_rightD)
  then show ?thesis by (simp add: isJoinMatch_zip assms(2))
qed

end

subsection \<open>The children of a parent\<close>

definition children :: "join_conf \<Rightarrow> row set \<Rightarrow> row \<Rightarrow> row set" where
  "children conf C r = {x \<in> C. isJoinMatch r (jn_parentKey conf) x (jn_childKey conf)}"

definition node_joined :: "join_conf \<Rightarrow> row set \<Rightarrow> node \<Rightarrow> bool" where
  "node_joined conf C n \<longleftrightarrow> (\<exists>items. map_of (relationships n) (jn_relationshipName conf) = Some items \<and>
     sorted_cmp (sc_compareRows (jn_childSchema conf)) (rows_of_items items) \<and>
     set (rows_of_items items) = children conf C (node_row n))"

text \<open>Which children a parent row shows in a state, those from before the change (\<open>B\<close>) or from after it (\<open>C\<close>).\<close>

definition seen_children :: "join_conf \<Rightarrow> join_state \<Rightarrow> row set \<Rightarrow> row set \<Rightarrow> row \<Rightarrow> row set" where
  "seen_children conf st B C r = (case (jn_change st, jn_position st) of
     (Some _, Some p) \<Rightarrow> if 0 < jn_compareRows conf r p then B else C
   | _ \<Rightarrow> C)"

definition change_fits :: "utf8 \<Rightarrow> join_conf \<Rightarrow> change \<Rightarrow> row set \<Rightarrow> row set \<Rightarrow> bool" where
  "change_fits u8 conf ch B C \<longleftrightarrow> C = apply_push ch B \<and> push_ok ch B \<and> row_change ch \<and>
     uniq (sc_compareRows (jn_childSchema conf)) B \<and> uniq (sc_compareRows (jn_childSchema conf)) C \<and>
     (case ch of CEdit n old \<Rightarrow> rowEqualsForCompoundKey u8 (node_row old) (node_row n) (jn_childKey conf) = Inr True
      | _ \<Rightarrow> True)"

context utf8_order
begin

lemma children_push:
  assumes "change_fits u8 conf ch B C" "length (jn_parentKey conf) = length (jn_childKey conf)"
  shows "isJoinMatch r (jn_parentKey conf) (change_row ch) (jn_childKey conf) \<Longrightarrow>
      children conf C r = apply_push ch (children conf B r) \<and> push_ok ch (children conf B r)"
    and "\<not> isJoinMatch r (jn_parentKey conf) (change_row ch) (jn_childKey conf) \<Longrightarrow> children conf C r = children conf B r"
proof -
  have edit: "isJoinMatch r (jn_parentKey conf) (node_row old) (jn_childKey conf) \<longleftrightarrow>
      isJoinMatch r (jn_parentKey conf) (node_row n) (jn_childKey conf)" if "ch = CEdit n old" for n old
    using assms that by (intro rowEquals_match) (simp_all add: change_fits_def)
  show "isJoinMatch r (jn_parentKey conf) (change_row ch) (jn_childKey conf) \<Longrightarrow>
      children conf C r = apply_push ch (children conf B r) \<and> push_ok ch (children conf B r)"
    using assms(1) edit by (cases ch) (auto simp: change_fits_def children_def row_change_def)
  show "\<not> isJoinMatch r (jn_parentKey conf) (change_row ch) (jn_childKey conf) \<Longrightarrow> children conf C r = children conf B r"
    using assms(1) edit by (cases ch) (auto simp: change_fits_def children_def row_change_def)
qed

end

lemma traverse_items_spec:
  assumes "\<forall>n \<in> set (skipYields items). \<exists>m. f n = Inr m \<and> Q n m"
  shows "\<exists>out. traverse_items f items = Inr out \<and> list_all2 Q (skipYields items) (skipYields out)"
  using assms
proof (induction items)
  case (Cons it items)
  show ?case
  proof (cases it)
    case (Item n)
    with Cons obtain out m where "traverse_items f items = Inr out" "list_all2 Q (skipYields items) (skipYields out)"
      "f n = Inr m" "Q n m" by auto
    then show ?thesis by (simp add: Item)
  qed (use Cons in auto)
qed simp

subsection \<open>The operator\<close>

text \<open>
  The contract of the inputs of a join, which is that of \<open>pipeline_input\<close> for the requests it makes: by the
  parent key of the parent and by the child key of the child.
\<close>

definition resting :: join_state where
  "resting = \<lparr>jn_change = None, jn_position = None\<rparr>"

definition join_keys :: "join_conf \<Rightarrow> bool" where
  "join_keys conf \<longleftrightarrow> length (jn_parentKey conf) = length (jn_childKey conf) \<and>
     distinct (jn_parentKey conf) \<and> distinct (jn_childKey conf) \<and> sc_sort (jn_childSchema conf) \<noteq> None"

locale join_inputs = utf8_order u8 +
    parents: pipeline_input "jn_compareRows conf" parentIn P okp +
    kids: pipeline_input "sc_compareRows (jn_childSchema conf)" childIn C okc
  for u8 :: utf8 and conf :: join_conf and parentIn P okp childIn C okc +
  assumes keys: "join_keys conf"
    and okp_join: "distinct (map fst c) \<Longrightarrow> okp (join_request c)"
    and okc_join: "distinct (map fst c) \<Longrightarrow> okc (join_request c)"
begin

lemma key_facts: "length (jn_parentKey conf) = length (jn_childKey conf)" "distinct (jn_parentKey conf)"
    "distinct (jn_childKey conf)" "sc_sort (jn_childSchema conf) \<noteq> None"
  using keys by (simp_all add: join_keys_def)

lemma fetch_children:
  "\<exists>items. (case buildJoinConstraint r (jn_parentKey conf) (jn_childKey conf) of
      None \<Rightarrow> Inr [] | Some c \<Rightarrow> childIn (join_request c)) = Inr items \<and>
    sorted_cmp (sc_compareRows (jn_childSchema conf)) (rows_of_items items) \<and>
    set (rows_of_items items) = children conf C r"
proof (cases "buildJoinConstraint r (jn_parentKey conf) (jn_childKey conf)")
  case None
  from join_constraint_None [OF key_facts(1,3) None] show ?thesis by (simp add: None children_def)
next
  case (Some c)
  note c = join_constraint_Some [OF key_facts(1,3) Some]
  obtain items where "childIn (join_request c) = Inr items"
    "sorted_cmp (sc_compareRows (jn_childSchema conf)) (rows_of_items items)"
    "set (rows_of_items items) = {x \<in> C. requested (sc_compareRows (jn_childSchema conf)) (join_request c) x}"
    using kids.fetch_obtain [OF okc_join, of c] c by (auto simp: join_request_def)
  then show ?thesis using c by (simp add: Some children_def requested_def join_request_def matches_def after_start_def)
qed

lemma childStream_spec:
  assumes "\<forall>ch. jn_change st = Some ch \<longrightarrow> change_fits u8 conf ch B C"
  shows "\<exists>items. childStream u8 conf childIn st r = Inr items \<and>
    sorted_cmp (sc_compareRows (jn_childSchema conf)) (rows_of_items items) \<and>
    set (rows_of_items items) = children conf (seen_children conf st B C r) r"
proof -
  obtain items where items: "(case buildJoinConstraint r (jn_parentKey conf) (jn_childKey conf) of
      None \<Rightarrow> Inr [] | Some c \<Rightarrow> childIn (join_request c)) = Inr items"
    "sorted_cmp (sc_compareRows (jn_childSchema conf)) (rows_of_items items)"
    "set (rows_of_items items) = children conf C r" using fetch_children by blast
  show ?thesis
  proof (cases "jn_change st")
    case None
    with items show ?thesis by (simp add: childStream_def seen_children_def)
  next
    case (Some ch)
    with assms have fits: "change_fits u8 conf ch B C" by blast
    let ?match = "isJoinMatch r (jn_parentKey conf) (change_row ch) (jn_childKey conf)"
    let ?later = "case jn_position st of None \<Rightarrow> False | Some p \<Rightarrow> 0 < jn_compareRows conf r p"
    show ?thesis
    proof (cases "?match \<and> ?later")
      case True
      have push: "children conf C r = apply_push ch (children conf B r)" "push_ok ch (children conf B r)"
        using children_push(1) [OF fits key_facts(1)] True by simp_all
      have u: "uniq (sc_compareRows (jn_childSchema conf)) (children conf B r)"
        "uniq (sc_compareRows (jn_childSchema conf)) (apply_push ch (children conf B r))"
        unfolding push(1) [symmetric] using fits by (auto simp: change_fits_def children_def intro: uniq_mono)
      have "join_schema (jn_childSchema conf)" by (simp add: join_schema_def kids.comparator_axioms)
      from join_schema.overlay_undoes [OF this items(2) items(3) [unfolded push(1)] push(2) _ u] obtain out where
        "join_generateWithOverlay items ch (jn_childSchema conf) = Inr out"
        "sorted_cmp (sc_compareRows (jn_childSchema conf)) (rows_of_items out)" "set (rows_of_items out) = children conf B r"
        using fits by (auto simp: change_fits_def)
      moreover have "seen_children conf st B C r = B" using True by (auto simp: seen_children_def Some split: option.splits)
      moreover obtain srt where "sc_sort (jn_childSchema conf) = Some srt" using key_facts(4) by blast
      ultimately show ?thesis using True by (simp add: childStream_def items(1) Some)
    next
      case False
      then have "children conf (seen_children conf st B C r) r = children conf C r"
        using children_push(2) [OF fits key_facts(1)] by (auto simp: seen_children_def Some split: option.splits)
      with False items show ?thesis by (auto simp: childStream_def Some)
    qed
  qed
qed

lemma processParentNode_spec:
  assumes "\<forall>ch. jn_change st = Some ch \<longrightarrow> change_fits u8 conf ch B C"
  shows "\<exists>m. processParentNode u8 conf childIn st n = Inr m \<and> node_row m = node_row n \<and>
    node_joined conf (seen_children conf st B C (node_row n)) m"
proof -
  obtain items where "childStream u8 conf childIn st (node_row n) = Inr items"
    "sorted_cmp (sc_compareRows (jn_childSchema conf)) (rows_of_items items)"
    "set (rows_of_items items) = children conf (seen_children conf st B C (node_row n)) (node_row n)"
    using childStream_spec [OF assms] by blast
  then show ?thesis by (simp add: processParentNode_def node_joined_def update_conv')
qed

lemma same_rows: "list_all2 (\<lambda>n m. node_row m = node_row n \<and> Q m) xs ys \<Longrightarrow> map node_row ys = map node_row xs \<and> (\<forall>m \<in> set ys. Q m)"
  by (induction rule: list_all2_induct) auto

lemma join_fetch_spec:
  assumes st: "\<forall>ch. jn_change st = Some ch \<longrightarrow> change_fits u8 conf ch B C" and req: "okp req"
  shows "\<exists>out. join_fetch u8 conf parentIn childIn st req = Inr out \<and>
    sorted_cmp (rev_cmp (req_reverse req) (jn_compareRows conf)) (rows_of_items out) \<and>
    set (rows_of_items out) = {r \<in> P. requested (jn_compareRows conf) req r} \<and>
    (\<forall>n \<in> set (skipYields out). node_joined conf (seen_children conf st B C (node_row n)) n)"
proof -
  obtain items where items: "parentIn req = Inr items"
    "sorted_cmp (rev_cmp (req_reverse req) (jn_compareRows conf)) (rows_of_items items)"
    "set (rows_of_items items) = {r \<in> P. requested (jn_compareRows conf) req r}" by (rule parents.fetch_obtain [OF req])
  let ?Q = "\<lambda>n m. node_row m = node_row n \<and> node_joined conf (seen_children conf st B C (node_row m)) m"
  have "\<exists>m. processParentNode u8 conf childIn st n = Inr m \<and> ?Q n m" for n
    using processParentNode_spec [OF st, of n] by auto
  then obtain out where out: "traverse_items (processParentNode u8 conf childIn st) items = Inr out"
    "list_all2 ?Q (skipYields items) (skipYields out)"
    using traverse_items_spec [of items "processParentNode u8 conf childIn st" ?Q] by blast
  from same_rows [OF out(2)] have "rows_of_items out = rows_of_items items"
    "\<forall>n \<in> set (skipYields out). node_joined conf (seen_children conf st B C (node_row n)) n" by (simp_all add: rows_of_items_def)
  with items out(1) show ?thesis by (simp add: join_fetch_def)
qed

text \<open>The pushes of a child change: one for each matching parent, in order, at its position.\<close>

definition child_push :: "change \<Rightarrow> node \<Rightarrow> change \<times> join_state \<Rightarrow> bool" where
  "child_push ch n ev \<longleftrightarrow> (\<exists>m. ev = (CChild m (jn_relationshipName conf) ch,
       \<lparr>jn_change = Some ch, jn_position = Some (node_row n)\<rparr>) \<and> node_row m = node_row n \<and> node_joined conf C m)"

lemma push_parents_spec:
  assumes "change_fits u8 conf ch B C"
  shows "\<exists>evs. push_parents u8 conf childIn ch items = Inr evs \<and> list_all2 (child_push ch) (skipYields items) evs"
proof (induction items)
  case (Cons it items)
  show ?case
  proof (cases it)
    case (Item n)
    let ?st = "\<lparr>jn_change = Some ch, jn_position = Some (node_row n)\<rparr>"
    have "\<forall>c. jn_change ?st = Some c \<longrightarrow> change_fits u8 conf c B C" using assms by simp
    from processParentNode_spec [OF this, of n] obtain m where "processParentNode u8 conf childIn ?st n = Inr m"
      "node_row m = node_row n" "node_joined conf C m" by (auto simp: seen_children_def)
    with Cons show ?thesis by (auto simp: Item child_push_def)
  qed (use Cons in simp)
qed simp

lemma last_position: "list_all2 (child_push ch) ns evs \<Longrightarrow> evs \<noteq> [] \<Longrightarrow> jn_position (snd (last evs)) = Some (node_row (last ns))"
  by (induction rule: list_all2_induct) (auto simp: child_push_def)

lemma join_pushChild_spec:
  assumes fits: "change_fits u8 conf ch B C"
  shows "\<exists>ns evs st. join_pushChild u8 conf parentIn childIn ch = Inr (evs, st) \<and> list_all2 (child_push ch) ns evs \<and>
    sorted_cmp (jn_compareRows conf) (map node_row ns) \<and>
    set (map node_row ns) = {r \<in> P. isJoinMatch r (jn_parentKey conf) (change_row ch) (jn_childKey conf)} \<and>
    jn_change st = None"
proof -
  have push: "join_pushChild u8 conf parentIn childIn ch = pushChildChange u8 conf parentIn childIn (change_row ch) ch"
    using fits by (cases ch) (auto simp: change_fits_def row_change_def)
  have sym: "isJoinMatch r (jn_parentKey conf) (change_row ch) (jn_childKey conf) \<longleftrightarrow>
      isJoinMatch (change_row ch) (jn_childKey conf) r (jn_parentKey conf)" for r
    by (rule isJoinMatch_sym [OF key_facts(1)])
  show ?thesis
  proof (cases "buildJoinConstraint (change_row ch) (jn_childKey conf) (jn_parentKey conf)")
    case None
    from join_constraint_None [OF key_facts(1) [symmetric] key_facts(2) None] show ?thesis
      by (intro exI [of _ "[]"]) (simp add: push pushChildChange_def None sym)
  next
    case (Some c)
    note c = join_constraint_Some [OF key_facts(1) [symmetric] key_facts(2) Some]
    obtain items where items: "parentIn (join_request c) = Inr items" "sorted_cmp (jn_compareRows conf) (rows_of_items items)"
      "set (rows_of_items items) = {r \<in> P. requested (jn_compareRows conf) (join_request c) r}"
      using parents.fetch_obtain [OF okp_join, of c] c by (auto simp: join_request_def)
    obtain evs where evs: "push_parents u8 conf childIn ch items = Inr evs" "list_all2 (child_push ch) (skipYields items) evs"
      using push_parents_spec [OF fits] by blast
    have "set (rows_of_items items) = {r \<in> P. isJoinMatch r (jn_parentKey conf) (change_row ch) (jn_childKey conf)}"
      using c by (simp add: items(3) sym requested_def join_request_def matches_def after_start_def)
    with evs items(1,2) show ?thesis
      by (intro exI [of _ "skipYields items"] exI [of _ evs]) (simp add: push pushChildChange_def Some rows_of_items_def)
  qed
qed

text \<open>The pushes of a parent change: the same change with the children added to its nodes.\<close>

lemma join_pushParent_spec:
  assumes "case ch of CEdit n old \<Rightarrow> rowEqualsForCompoundKey u8 (node_row old) (node_row n) (jn_parentKey conf) = Inr True | _ \<Rightarrow> True"
  shows "\<exists>ch'. join_pushParent u8 conf childIn resting ch = Inr ch' \<and>
    (\<forall>S. apply_push ch' S = apply_push ch S \<and> (push_ok ch' S \<longleftrightarrow> push_ok ch S)) \<and>
    (case ch' of CAdd n \<Rightarrow> node_joined conf C n | CRemove n \<Rightarrow> node_joined conf C n
     | CChild n rel c \<Rightarrow> node_joined conf C n | CEdit n old \<Rightarrow> node_joined conf C n \<and> node_joined conf C old)"
proof -
  have "\<exists>m. processParentNode u8 conf childIn resting n = Inr m \<and> node_row m = node_row n \<and> node_joined conf C m" for n
    using processParentNode_spec [of resting "{}" n] by (simp add: resting_def seen_children_def)
  then obtain f where f: "processParentNode u8 conf childIn resting n = Inr (f n)" "node_row (f n) = node_row n"
    "node_joined conf C (f n)" for n by metis
  show ?thesis using assms by (cases ch) (auto simp: f)
qed

end

text \<open>At rest, a join is again an input with the rows of its parent.\<close>

sublocale join_inputs \<subseteq> joined: pipeline_input "jn_compareRows conf" "join_fetch u8 conf parentIn childIn resting" P okp
proof
  fix req
  assume "okp req"
  then show "\<exists>items. join_fetch u8 conf parentIn childIn resting req = Inr items \<and>
      sorted_cmp (rev_cmp (req_reverse req) (jn_compareRows conf)) (rows_of_items items) \<and>
      set (rows_of_items items) = {r \<in> P. requested (jn_compareRows conf) req r}"
    using join_fetch_spec [of resting "{}" req] by (auto simp: resting_def)
qed

end
