(* ===== verification/JoinClaims.thy ===== *)
theory JoinClaims
  imports JoinCorrect PipelineClaims
begin

section \<open>The claims about Join\<close>

text \<open>
  A sample: a join of the two rows of the sample run with themselves by the column \<open>foo\<close>, the second row
  having just been added to the child; then the claims.
\<close>

definition join_ok :: "fetch_request \<Rightarrow> bool" where
  "join_ok req \<longleftrightarrow> request_ok run6 sample_conn req \<and> req_multi req = None"

definition sample_schema :: source_schema where
  "sample_schema = Schema (conn_compareRows utf8_lex sample_conn) [''id''] (Some [(''id'', Desc)]) [] False"

definition sample_join :: join_conf where
  "sample_join = \<lparr>jn_parentKey = [''foo''], jn_childKey = [''foo''], jn_relationshipName = ''children'',
     jn_compareRows = conn_compareRows utf8_lex sample_conn, jn_childSchema = sample_schema\<rparr>"

definition sample_change :: change where
  "sample_change = CAdd (Node (sample_row 2 1) [])"

interpretation schema: join_schema sample_schema
  by (simp add: join_schema_def sample_schema_def sample_source.source.comparator_axioms)

interpretation join: join_inputs utf8_lex sample_join "memory_fetch utf8_lex run6 sample_conn" "shown run6 sample_conn" join_ok
    "memory_fetch utf8_lex run6 sample_conn" "shown run6 sample_conn" join_ok
proof -
  have input: "pipeline_input (conn_compareRows utf8_lex sample_conn) (memory_fetch utf8_lex run6 sample_conn) (shown run6 sample_conn) join_ok"
    using sample_source.source.pipeline_input_axioms by (simp add: join_ok_def [abs_def])
  have "join_ok (join_request c)" if "distinct (map fst c)" for c
    unfolding join_ok_def sample_conn_def using that by (auto intro!: run6_request_ok simp: join_request_def)
  with input show "join_inputs utf8_lex sample_join (memory_fetch utf8_lex run6 sample_conn) (shown run6 sample_conn) join_ok
      (memory_fetch utf8_lex run6 sample_conn) (shown run6 sample_conn) join_ok"
    by (simp add: join_inputs_def join_inputs_axioms_def join_keys_def sample_join_def sample_schema_def bytes.utf8_order_axioms)
qed

lemma sample_fits: "change_fits utf8_lex sample_join sample_change {sample_row 1 1} (shown run6 sample_conn)"
proof -
  have "uniq (conn_compareRows utf8_lex sample_conn) {sample_row 1 1, sample_row 2 1}"
    using sample_signs by (auto simp: uniq_def)
  moreover have "sample_row 2 1 \<noteq> sample_row 1 1" by (simp add: sample_row_def)
  ultimately show ?thesis
    using uniq_mono [of _ "{sample_row 1 1, sample_row 2 1}" "{sample_row 1 1}"]
    by (auto simp: change_fits_def sample_change_def sample_shown row_change_def sample_join_def sample_schema_def)
qed

lemma sample_foo: "get_field (sample_row i f) ''foo'' = JNum (of_nat f)"
  by (simp add: sample_row_def get_field_def)

text \<open>C5: A fetch through a Join returns, in order, the rows its parent input returns, and in the relationship
  of each, in the order of the child, the rows of the child input whose key matches; in the middle of the
  push of an added, removed or edited child row, the parents after the one being pushed show the matching children from before
  the change, the others those from after it, and no assertion fails.\<close>

theorem join_fetch_correct:
  assumes "join_inputs u8 conf parentIn P okp childIn C okc" and "okp req"
    and "\<forall>ch. jn_change st = Some ch \<longrightarrow> change_fits u8 conf ch B C"
  shows "\<exists>out. join_fetch u8 conf parentIn childIn st req = Inr out \<and>
    sorted_cmp (rev_cmp (req_reverse req) (jn_compareRows conf)) (rows_of_items out) \<and>
    set (rows_of_items out) = {r \<in> P. requested (jn_compareRows conf) req r} \<and>
    (\<forall>n \<in> set (skipYields out). node_joined conf (seen_children conf st B C (node_row n)) n)"
  by (rule join_inputs.join_fetch_spec [OF assms(1,3,2)])

theorem join_fetch_correct_witness:
  "\<exists>out. join_fetch utf8_lex sample_join (memory_fetch utf8_lex run6 sample_conn) (memory_fetch utf8_lex run6 sample_conn)
     \<lparr>jn_change = Some sample_change, jn_position = Some (sample_row 2 1)\<rparr> (scan_request None False) = Inr out \<and>
   set (rows_of_items out) = {sample_row 1 1, sample_row 2 1} \<and>
   (\<forall>n \<in> set (skipYields out). node_row n = sample_row 1 1 \<longrightarrow> node_joined sample_join {sample_row 1 1} n)"
proof -
  let ?st = "\<lparr>jn_change = Some sample_change, jn_position = Some (sample_row 2 1)\<rparr>" and ?req = "scan_request None False"
  have st: "\<forall>ch. jn_change ?st = Some ch \<longrightarrow> change_fits utf8_lex sample_join ch {sample_row 1 1} (shown run6 sample_conn)"
    using sample_fits by simp
  have "join_ok ?req" using sample_scans by (simp add: join_ok_def scans_ok_def scan_request_def)
  from join_fetch_correct [OF join.join_inputs_axioms this st] obtain out where out:
    "join_fetch utf8_lex sample_join (memory_fetch utf8_lex run6 sample_conn) (memory_fetch utf8_lex run6 sample_conn) ?st ?req = Inr out"
    "set (rows_of_items out) = {r \<in> shown run6 sample_conn. requested (jn_compareRows sample_join) ?req r}"
    "\<forall>n \<in> set (skipYields out). node_joined sample_join
       (seen_children sample_join ?st {sample_row 1 1} (shown run6 sample_conn) (node_row n)) n" by blast
  moreover have "seen_children sample_join ?st {sample_row 1 1} (shown run6 sample_conn) (sample_row 1 1) = {sample_row 1 1}"
    using sample_signs by (simp add: seen_children_def sample_join_def)
  moreover have "{r \<in> shown run6 sample_conn. requested (jn_compareRows sample_join) ?req r} = {sample_row 1 1, sample_row 2 1}"
    by (auto simp: sample_shown requested_def scan_request_def matches_def after_start_def)
  ultimately show ?thesis by metis
qed

text \<open>C4: A push of an added, removed or edited child row through a Join pushes to the output one change of the relationship for
  each parent row whose key matches the changed row, in the order of the parents, with the parent's
  children from after the change; a fetch during the push of one of them returns a consistent tree: the
  parents up to it with their children from after the change, the later ones with those from before.\<close>

theorem join_push_child_correct:
  assumes "join_inputs u8 conf parentIn P okp childIn C okc" and "change_fits u8 conf ch B C"
  shows "\<exists>evs st rs. join_pushChild u8 conf parentIn childIn ch = Inr (evs, st) \<and> jn_change st = None \<and>
    sorted_cmp (jn_compareRows conf) rs \<and> length rs = length evs \<and>
    set rs = {r \<in> P. isJoinMatch r (jn_parentKey conf) (change_row ch) (jn_childKey conf)} \<and>
    (\<forall>i < length evs.
       (\<exists>m. fst (evs ! i) = CChild m (jn_relationshipName conf) ch \<and> node_row m = rs ! i \<and> node_joined conf C m) \<and>
       (\<forall>req. okp req \<longrightarrow> (\<exists>out. join_fetch u8 conf parentIn childIn (snd (evs ! i)) req = Inr out \<and>
          set (rows_of_items out) = {r \<in> P. requested (jn_compareRows conf) req r} \<and>
          (\<forall>n \<in> set (skipYields out).
             node_joined conf (if 0 < jn_compareRows conf (node_row n) (rs ! i) then B else C) n))))"
proof -
  obtain ns evs st where run: "join_pushChild u8 conf parentIn childIn ch = Inr (evs, st)" "jn_change st = None"
    and each: "list_all2 (join_inputs.child_push conf C ch) ns evs"
    and rs: "sorted_cmp (jn_compareRows conf) (map node_row ns)"
      "set (map node_row ns) = {r \<in> P. isJoinMatch r (jn_parentKey conf) (change_row ch) (jn_childKey conf)}"
    using join_inputs.join_pushChild_spec [OF assms] by metis
  have one: "(\<exists>m. fst (evs ! i) = CChild m (jn_relationshipName conf) ch \<and> node_row m = map node_row ns ! i \<and> node_joined conf C m) \<and>
      snd (evs ! i) = \<lparr>jn_change = Some ch, jn_position = Some (map node_row ns ! i)\<rparr>" if "i < length evs" for i
    using list_all2_nthD2 [OF each that] list_all2_lengthD [OF each] that
    by (auto simp: join_inputs.child_push_def [OF assms(1)])
  have "\<exists>out. join_fetch u8 conf parentIn childIn (snd (evs ! i)) req = Inr out \<and>
      set (rows_of_items out) = {r \<in> P. requested (jn_compareRows conf) req r} \<and>
      (\<forall>n \<in> set (skipYields out). node_joined conf (if 0 < jn_compareRows conf (node_row n) (map node_row ns ! i) then B else C) n)"
    if "i < length evs" "okp req" for i req
  proof -
    have "\<forall>c. jn_change (snd (evs ! i)) = Some c \<longrightarrow> change_fits u8 conf c B C" using one [OF that(1)] assms(2) by simp
    from join_inputs.join_fetch_spec [OF assms(1) this that(2)] obtain out where
      "join_fetch u8 conf parentIn childIn (snd (evs ! i)) req = Inr out"
      "set (rows_of_items out) = {r \<in> P. requested (jn_compareRows conf) req r}"
      "\<forall>n \<in> set (skipYields out). node_joined conf (seen_children conf (snd (evs ! i)) B C (node_row n)) n" by blast
    moreover have "seen_children conf (snd (evs ! i)) B C r = (if 0 < jn_compareRows conf r (map node_row ns ! i) then B else C)" for r
      using one [OF that(1)] by (simp add: seen_children_def)
    ultimately show ?thesis by (intro exI [of _ out]) simp
  qed
  with run one rs list_all2_lengthD [OF each] show ?thesis
    by (intro exI [of _ evs] exI [of _ st] exI [of _ "map node_row ns"]) simp
qed

theorem join_push_child_correct_witness:
  "\<exists>evs st. join_pushChild utf8_lex sample_join (memory_fetch utf8_lex run6 sample_conn) (memory_fetch utf8_lex run6 sample_conn)
     sample_change = Inr (evs, st) \<and> length evs = 2"
proof -
  obtain evs st rs where *: "join_pushChild utf8_lex sample_join (memory_fetch utf8_lex run6 sample_conn)
      (memory_fetch utf8_lex run6 sample_conn) sample_change = Inr (evs, st)"
    "sorted_cmp (jn_compareRows sample_join) rs" "length rs = length evs"
    "set rs = {r \<in> shown run6 sample_conn. isJoinMatch r (jn_parentKey sample_join) (change_row sample_change) (jn_childKey sample_join)}"
    using join_push_child_correct [OF join.join_inputs_axioms sample_fits] by metis
  have "set rs = {sample_row 1 1, sample_row 2 1}"
    unfolding *(4) by (auto simp: sample_shown sample_join_def sample_change_def sample_foo valuesEqual_def)
  moreover have "distinct rs" using *(2) join.parents.sorted_cmp_distinct by blast
  ultimately have "length rs = 2" using distinct_card [of rs] by (simp add: sample_row_def)
  with * show ?thesis by auto
qed

text \<open>C16: A push of a parent change through a Join pushes the same change of rows, with the relationship added
  to its nodes; it keeps the contract of Output.push exactly when the change it was given does.\<close>

theorem join_push_parent_correct:
  assumes "join_inputs u8 conf parentIn P okp childIn C okc"
    and "case ch of CEdit n old \<Rightarrow> rowEqualsForCompoundKey u8 (node_row old) (node_row n) (jn_parentKey conf) = Inr True | _ \<Rightarrow> True"
  shows "\<exists>ch'. join_pushParent u8 conf childIn resting ch = Inr ch' \<and>
    (\<forall>S. apply_push ch' S = apply_push ch S \<and> (push_ok ch' S \<longleftrightarrow> push_ok ch S)) \<and>
    (case ch' of CAdd n \<Rightarrow> node_joined conf C n | CRemove n \<Rightarrow> node_joined conf C n
     | CChild n rel c \<Rightarrow> node_joined conf C n | CEdit n old \<Rightarrow> node_joined conf C n \<and> node_joined conf C old)"
  by (rule join_inputs.join_pushParent_spec [OF assms])

theorem join_push_parent_correct_witness:
  "\<exists>ch'. join_pushParent utf8_lex sample_join (memory_fetch utf8_lex run6 sample_conn) resting sample_change = Inr ch' \<and>
     apply_push ch' {} = {sample_row 2 1}"
proof -
  have "case sample_change of CEdit n old \<Rightarrow> rowEqualsForCompoundKey utf8_lex (node_row old) (node_row n) (jn_parentKey sample_join) = Inr True
      | _ \<Rightarrow> True" by (simp add: sample_change_def)
  from join_push_parent_correct [OF join.join_inputs_axioms this] show ?thesis by (auto simp: sample_change_def)
qed

end
