(* ===== verification/PushAccumulated.thy ===== *)
theory PushAccumulated
  imports Join
begin

section \<open>Merging the changes of the branches of an OR (zql/src/ivm/push-accumulated.ts)\<close>

text \<open>
  The branches of an \<open>OR\<close> each turn a change into at most one change; \<open>pushAccumulatedChanges\<close> makes one of
  them. A \<open>Map\<close> from types to changes is an association list in insertion order. \<open>mergeRelationships\<close> and
  \<open>addEmptyRelationships\<close> are parameters of the code; the two that a union uses are modelled too.
\<close>

datatype change_type = ADD | REMOVE | CHILD | EDIT

fun type_of_change :: "change \<Rightarrow> change_type" where
  "type_of_change (CAdd n) = ADD"
| "type_of_change (CRemove n) = REMOVE"
| "type_of_change (CChild n rel c) = CHILD"
| "type_of_change (CEdit n old) = EDIT"

fun change_node :: "change \<Rightarrow> node" where
  "change_node (CAdd n) = n"
| "change_node (CRemove n) = n"
| "change_node (CChild n rel c) = n"
| "change_node (CEdit n old) = n"

type_synonym candidates = "(change_type \<times> change) list"

fun collapse_changes ::
    "(change \<Rightarrow> change \<Rightarrow> change result) \<Rightarrow> change_type \<Rightarrow> change list \<Rightarrow> candidates \<Rightarrow> candidates result" where
  "collapse_changes merge fanOutType [] cands = Inr cands"
| "collapse_changes merge fanOutType (c # cs) cands =
     (if fanOutType = CHILD \<and> type_of_change c \<noteq> CHILD \<and> map_of cands (type_of_change c) \<noteq> None
      then Inl (AssertionFailed ''Fan-in:child expected at most one of a type when fan-out is of type child'')
      else bind_result (case map_of cands (type_of_change c) of None \<Rightarrow> Inr c | Some existing \<Rightarrow> merge existing c)
        (\<lambda>merged. collapse_changes merge fanOutType cs (AList.update (type_of_change c) merged cands)))"

text \<open>\<open>must(addChange ?? removeChange)\<close>.\<close>

definition add_or_remove :: "candidates \<Rightarrow> change result" where
  "add_or_remove cands = (case map_of cands ADD of
     Some c \<Rightarrow> Inr c
   | None \<Rightarrow> (case map_of cands REMOVE of Some c \<Rightarrow> Inr c | None \<Rightarrow> Inl (IllegalState ''must'')))"

fun push_candidates ::
    "(change \<Rightarrow> change \<Rightarrow> change result) \<Rightarrow> (change \<Rightarrow> change) \<Rightarrow> candidates \<Rightarrow> change_type \<Rightarrow> change list result" where
  "push_candidates merge addEmpty cands REMOVE =
     (case map_of cands REMOVE of
        Some c \<Rightarrow> if map fst cands = [REMOVE] then Inr [addEmpty c]
          else Inl (AssertionFailed ''Fan-in:remove expected all removes'')
      | None \<Rightarrow> Inl (AssertionFailed ''Fan-in:remove expected all removes''))"
| "push_candidates merge addEmpty cands ADD =
     (case map_of cands ADD of
        Some c \<Rightarrow> if map fst cands = [ADD] then Inr [addEmpty c]
          else Inl (AssertionFailed ''Fan-in:add expected all adds'')
      | None \<Rightarrow> Inl (AssertionFailed ''Fan-in:add expected all adds''))"
| "push_candidates merge addEmpty cands EDIT =
     (if \<not> list_all (\<lambda>t. t = ADD \<or> t = REMOVE \<or> t = EDIT) (map fst cands)
      then Inl (AssertionFailed ''Fan-in:edit expected all adds, removes, or edits'')
      else case map_of cands EDIT of
        Some editChange \<Rightarrow>
          bind_result (case map_of cands ADD of None \<Rightarrow> Inr editChange | Some c \<Rightarrow> merge editChange c) (\<lambda>e1.
          bind_result (case map_of cands REMOVE of None \<Rightarrow> Inr e1 | Some c \<Rightarrow> merge e1 c) (\<lambda>e2. Inr [addEmpty e2]))
      | None \<Rightarrow> (case (map_of cands ADD, map_of cands REMOVE) of
          (Some addChange, Some removeChange) \<Rightarrow>
            Inr [addEmpty (CEdit (change_node addChange) (change_node removeChange))]
        | _ \<Rightarrow> bind_result (add_or_remove cands) (\<lambda>c. Inr [addEmpty c])))"
| "push_candidates merge addEmpty cands CHILD =
     (if \<not> list_all (\<lambda>t. t = ADD \<or> t = REMOVE \<or> t = CHILD) (map fst cands)
      then Inl (AssertionFailed ''Fan-in:child expected all adds, removes, or children'')
      else if 2 < length cands
      then Inl (AssertionFailed ''Fan-in:child expected at most 2 types on a child change from fan-out'')
      else case map_of cands CHILD of
        Some c \<Rightarrow> Inr [c]
      | None \<Rightarrow>
          if map_of cands ADD \<noteq> None \<and> map_of cands REMOVE \<noteq> None
          then Inl (AssertionFailed ''Fan-in:child expected either add or remove, not both'')
          else bind_result (add_or_remove cands) (\<lambda>c. Inr [addEmpty c]))"

definition pushAccumulatedChanges ::
    "(change \<Rightarrow> change \<Rightarrow> change result) \<Rightarrow> (change \<Rightarrow> change) \<Rightarrow> change list \<Rightarrow> change_type \<Rightarrow> change list result" where
  "pushAccumulatedChanges merge addEmpty accumulated fanOutType =
     (if accumulated = [] then Inr []
      else bind_result (collapse_changes merge fanOutType accumulated []) (\<lambda>cands.
        push_candidates merge addEmpty cands fanOutType))"

subsection \<open>Merging relationships\<close>

definition merge_node :: "node \<Rightarrow> node \<Rightarrow> node" where
  "merge_node l r = Node (node_row l) (spread (relationships r) (relationships l))"

fun mergeRelationships :: "change \<Rightarrow> change \<Rightarrow> change result" where
  "mergeRelationships (CAdd l) (CAdd r) = Inr (CAdd (merge_node l r))"
| "mergeRelationships (CRemove l) (CRemove r) = Inr (CRemove (merge_node l r))"
| "mergeRelationships (CEdit l lold) (CEdit r rold) = Inr (CEdit (merge_node l r) (merge_node lold rold))"
| "mergeRelationships (CChild l rel c) (CChild r _ _) = Inr (CChild (merge_node l r) rel c)"
| "mergeRelationships (CEdit l lold) (CAdd r) = Inr (CEdit (merge_node l r) lold)"
| "mergeRelationships (CEdit l lold) (CRemove r) = Inr (CEdit l (merge_node lold r))"
| "mergeRelationships (CEdit l lold) (CChild r _ _) = Inl (IllegalState ''unreachable'')"
| "mergeRelationships _ _ = Inl (AssertionFailed ''mergeRelationships: when types differ, left.type must be edit'')"

definition mergeEmpty :: "(string \<times> node item list) list \<Rightarrow> string list \<Rightarrow> (string \<times> node item list) list" where
  "mergeEmpty rels names =
     foldl (\<lambda>rs name. if map_of rs name = None then AList.update name [] rs else rs) rels names"

fun makeAddEmptyRelationships :: "source_schema \<Rightarrow> change \<Rightarrow> change" where
  "makeAddEmptyRelationships schema c =
     (let names = map fst (sc_relationships schema);
          fill = (\<lambda>n. Node (node_row n) (mergeEmpty (relationships n) names)) in
      if names = [] then c
      else case c of
        CAdd n \<Rightarrow> CAdd (fill n)
      | CRemove n \<Rightarrow> CRemove (fill n)
      | CEdit n old \<Rightarrow> CEdit (fill n) (fill old)
      | CChild n rel cc \<Rightarrow> CChild n rel cc)"

end
