(* ===== verification/FilterGraph.thy ===== *)
theory FilterGraph
  imports PushAccumulated RowPredicate
begin

section \<open>Filter graphs (zql/src/ivm: filter.ts, exists.ts, fan-out.ts, fan-in.ts, filter-operators.ts, push-accumulated.ts)\<close>

text \<open>
  The \<open>where\<close> clause of a query is a graph of filter operators between a \<open>FilterStart\<close> and a \<open>FilterEnd\<close>. A
  chain of operators is a list in the order in which a node passes them; a \<open>FanOut\<close> with its \<open>FanIn\<close> is one
  element, \<open>FanOp\<close>, that holds its branches. An \<open>Exists\<close> keeps a cache and the flag \<open>#inPush\<close>; the number in
  \<open>ExistsOp\<close> is the identity of the object, the key of its fields in the state. A push gives the changes that
  reach the output of the graph, each with the state at that time, which a fetch by the output would see.
  \<open>'yield'\<close> markers from reading a relationship are left out.
\<close>

subsection \<open>Operators and their state\<close>

record exists_conf =
  ex_relationshipName :: string
  ex_not :: bool
  ex_parentJoinKey :: "string list"
  ex_noSizeReuse :: bool

datatype filter_op =
    FilterOp row_predicate
  | ExistsOp nat exists_conf
  | FanOp "filter_op list list"

record exists_state =
  ex_cache :: "(js_value list \<times> bool) list"
  ex_inPush :: bool

type_synonym filter_state = "nat \<Rightarrow> exists_state"

definition new_exists :: "source_schema \<Rightarrow> string \<Rightarrow> string list \<Rightarrow> exists_op \<Rightarrow> exists_conf result" where
  "new_exists schema relationshipName parentJoinKey eop =
     (if map_of (sc_relationships schema) relationshipName = None
      then Inl (AssertionFailed ''Input schema missing relationship'')
      else Inr \<lparr>ex_relationshipName = relationshipName, ex_not = (eop = NOT_EXISTS),
        ex_parentJoinKey = parentJoinKey, ex_noSizeReuse = (parentJoinKey = sc_primaryKey schema)\<rparr>)"

definition getCacheKey :: "node \<Rightarrow> string list \<Rightarrow> js_value list" where
  "getCacheKey nd def = map (\<lambda>key. normalizeUndefined (get_field (node_row nd) key)) def"

definition fetchSize :: "exists_conf \<Rightarrow> node \<Rightarrow> nat result" where
  "fetchSize e nd = (case map_of (relationships nd) (ex_relationshipName e) of
     None \<Rightarrow> Inl (AssertionFailed ''Exists: relationship not found on node'')
   | Some stream \<Rightarrow> Inr (length (skipYields stream)))"

definition fetchExists :: "exists_conf \<Rightarrow> node \<Rightarrow> bool result" where
  "fetchExists e nd = bind_result (fetchSize e nd) (\<lambda>sz. Inr (0 < sz))"

definition exists_test :: "exists_conf \<Rightarrow> node \<Rightarrow> bool option \<Rightarrow> bool result" where
  "exists_test e nd exst =
     bind_result (case exst of Some b \<Rightarrow> Inr b | None \<Rightarrow> fetchExists e nd) (\<lambda>b.
       Inr (if ex_not e then \<not> b else b))"

text \<open>The first half of \<open>Exists.filter\<close>: the cached answer, or the one that is computed and cached.\<close>

definition exists_lookup :: "nat \<Rightarrow> exists_conf \<Rightarrow> filter_state \<Rightarrow> node \<Rightarrow> (bool option \<times> filter_state) result" where
  "exists_lookup i e st nd =
     (if \<not> ex_noSizeReuse e \<and> \<not> ex_inPush (st i) then
        (let key = getCacheKey nd (ex_parentJoinKey e) in
         case map_of (ex_cache (st i)) key of
           Some b \<Rightarrow> Inr (Some b, st)
         | None \<Rightarrow> bind_result (fetchExists e nd) (\<lambda>b.
             Inr (Some b, st(i := (st i)\<lparr>ex_cache := AList.update key b (ex_cache (st i))\<rparr>))))
      else Inr (None, st))"

subsection \<open>Filtering a node\<close>

fun op_size :: "filter_op \<Rightarrow> nat" where
  "op_size (FilterOp p) = 1"
| "op_size (ExistsOp i e) = 1"
| "op_size (FanOp bs) = Suc (sum_list (map (\<lambda>b. Suc (sum_list (map op_size b))) bs))"

abbreviation chain_size :: "filter_op list \<Rightarrow> nat" where
  "chain_size ops \<equiv> sum_list (map op_size ops)"

abbreviation branches_size :: "filter_op list list \<Rightarrow> nat" where
  "branches_size bs \<equiv> sum_list (map (\<lambda>b. Suc (chain_size b)) bs)"

text \<open>
  Every branch of a \<open>FanOut\<close> ends in the \<open>FanIn\<close>, which asks the operators after it: \<open>rest\<close> is asked once for
  each branch, up to the first that answers yes.
\<close>

function (sequential) chain_filter :: "filter_op list \<Rightarrow> filter_state \<Rightarrow> node \<Rightarrow> (bool \<times> filter_state) result"
  and fan_filter :: "filter_op list list \<Rightarrow> filter_op list \<Rightarrow> filter_state \<Rightarrow> node \<Rightarrow> (bool \<times> filter_state) result" where
  "chain_filter [] st nd = Inr (True, st)"
| "chain_filter (FilterOp p # rest) st nd =
     bind_result (p (node_row nd)) (\<lambda>b. if \<not> b then Inr (False, st) else chain_filter rest st nd)"
| "chain_filter (ExistsOp i e # rest) st nd =
     bind_result (exists_lookup i e st nd) (\<lambda>(exst, st').
     bind_result (exists_test e nd exst) (\<lambda>b. if \<not> b then Inr (False, st') else chain_filter rest st' nd))"
| "chain_filter (FanOp bs # rest) st nd = fan_filter bs rest st nd"
| "fan_filter [] rest st nd = Inr (False, st)"
| "fan_filter (b # bs) rest st nd =
     bind_result (chain_filter (b @ rest) st nd) (\<lambda>(res, st'). if res then Inr (True, st') else fan_filter bs rest st' nd)"
  by pat_completeness auto
termination
  by (relation "measure (\<lambda>x. case x of Inl (ops, _, _) \<Rightarrow> chain_size ops
      | Inr (bs, rest, _, _) \<Rightarrow> branches_size bs + chain_size rest)") auto

function (sequential) chain_endFilter :: "filter_op list \<Rightarrow> filter_state \<Rightarrow> filter_state" where
  "chain_endFilter [] st = st"
| "chain_endFilter (FilterOp p # rest) st = chain_endFilter rest st"
| "chain_endFilter (ExistsOp i e # rest) st = chain_endFilter rest (st(i := (st i)\<lparr>ex_cache := []\<rparr>))"
| "chain_endFilter (FanOp [] # rest) st = st"
| "chain_endFilter (FanOp (b # bs) # rest) st = chain_endFilter (FanOp bs # rest) (chain_endFilter (b @ rest) st)"
  by pat_completeness auto
termination
  by (relation "measure (\<lambda>(ops, _). chain_size ops)") auto

text \<open>\<open>FilterStart.fetch\<close>.\<close>

fun filter_nodes :: "filter_op list \<Rightarrow> filter_state \<Rightarrow> node item list \<Rightarrow> (node item list \<times> filter_state) result" where
  "filter_nodes ops st [] = Inr ([], st)"
| "filter_nodes ops st (Yield # nodes) =
     bind_result (filter_nodes ops st nodes) (\<lambda>(out, st'). Inr (Yield # out, st'))"
| "filter_nodes ops st (Item nd # nodes) =
     bind_result (chain_filter ops st nd) (\<lambda>(b, st').
     bind_result (filter_nodes ops st' nodes) (\<lambda>(out, st''). Inr (if b then Item nd # out else out, st'')))"

definition filter_fetch ::
    "filter_op list \<Rightarrow> node_input \<Rightarrow> filter_state \<Rightarrow> fetch_request \<Rightarrow> (node item list \<times> filter_state) result" where
  "filter_fetch ops input st req =
     bind_result (input req) (\<lambda>nodes. bind_result (filter_nodes ops st nodes) (\<lambda>(out, st').
       Inr (out, chain_endFilter ops st')))"

subsection \<open>Pushing a change\<close>

definition exists_pushWithFilter :: "exists_conf \<Rightarrow> change \<Rightarrow> bool option \<Rightarrow> change list result" where
  "exists_pushWithFilter e c exst =
     bind_result (exists_test e (change_node c) exst) (\<lambda>b. Inr (if b then [c] else []))"

text \<open>\<open>{...node.relationships, [this.#relationshipName]: () => nodes}\<close>.\<close>

definition with_relationship :: "exists_conf \<Rightarrow> node \<Rightarrow> node item list \<Rightarrow> node" where
  "with_relationship e nd stream = Node (node_row nd) (AList.update (ex_relationshipName e) stream (relationships nd))"

fun exists_push :: "exists_conf \<Rightarrow> change \<Rightarrow> change list result" where
  "exists_push e (CChild nd rel c) =
     (if rel \<noteq> ex_relationshipName e then exists_pushWithFilter e (CChild nd rel c) None
      else case c of
        CAdd m \<Rightarrow> bind_result (fetchSize e nd) (\<lambda>sz.
          if sz = 1 then Inr [if ex_not e then CRemove (with_relationship e nd []) else CAdd nd]
          else exists_pushWithFilter e (CChild nd rel c) (Some (0 < sz)))
      | CRemove m \<Rightarrow> bind_result (fetchSize e nd) (\<lambda>sz.
          if sz = 0 then Inr [if ex_not e then CAdd nd else CRemove (with_relationship e nd [Item m])]
          else exists_pushWithFilter e (CChild nd rel c) (Some (0 < sz)))
      | _ \<Rightarrow> exists_pushWithFilter e (CChild nd rel c) None)"
| "exists_push e c = exists_pushWithFilter e c None"

text \<open>
  The state with a change is the one in which the output is pushed: the \<open>Exists\<close> operators of the chain are in
  their push, those inside the branches of a \<open>FanOut\<close> have returned from theirs, because a \<open>FanIn\<close> only pushes
  after all branches are done. \<open>#accumulatedPushes\<close> is empty between pushes and local here.
\<close>

type_synonym filter_events = "(change \<times> filter_state) list"

text \<open>What the \<open>FanIn\<close> makes of the changes that its branches, its inputs, pushed to it.\<close>

definition fanOutDonePushingToAllBranches :: "filter_op list list \<Rightarrow> change list \<Rightarrow> change_type \<Rightarrow> change list result" where
  "fanOutDonePushingToAllBranches inputs accumulated fanOutChangeType =
     (if inputs = [] then
        if accumulated = [] then Inr []
        else Inl (AssertionFailed ''If there are no inputs then fan-in should not receive any pushes.'')
      else pushAccumulatedChanges (\<lambda>existing incoming. Inr existing) (\<lambda>c. c) accumulated fanOutChangeType)"

function (sequential) chain_push :: "filter_op list \<Rightarrow> filter_state \<Rightarrow> change \<Rightarrow> filter_events result"
  and push_each_change :: "filter_op list \<Rightarrow> filter_state \<Rightarrow> change list \<Rightarrow> filter_events result"
  and push_branches :: "filter_op list list \<Rightarrow> filter_state \<Rightarrow> change \<Rightarrow> change list result" where
  "chain_push [] st c = Inr [(c, st)]"
| "chain_push (FilterOp p # rest) st c =
     bind_result (filterPush c (Some p)) (\<lambda>cs. push_each_change rest st cs)"
| "chain_push (ExistsOp i e # rest) st c =
     (if ex_inPush (st i) then Inl (AssertionFailed ''Unexpected re-entrancy'')
      else bind_result (exists_push e c) (\<lambda>cs. push_each_change rest (st(i := (st i)\<lparr>ex_inPush := True\<rparr>)) cs))"
| "chain_push (FanOp bs # rest) st c =
     bind_result (push_branches bs st c) (\<lambda>accumulated.
     bind_result (fanOutDonePushingToAllBranches bs accumulated (type_of_change c)) (\<lambda>cs. push_each_change rest st cs))"
| "push_each_change ops st [] = Inr []"
| "push_each_change ops st (c # cs) =
     bind_result (chain_push ops st c) (\<lambda>evs. bind_result (push_each_change ops st cs) (\<lambda>evs'. Inr (evs @ evs')))"
| "push_branches [] st c = Inr []"
| "push_branches (b # bs) st c =
     bind_result (chain_push b st c) (\<lambda>evs. bind_result (push_branches bs st c) (\<lambda>cs. Inr (map fst evs @ cs)))"
  by pat_completeness auto
termination
  by (relation "measures [\<lambda>x. case x of Inl (ops, _, _) \<Rightarrow> 2 * chain_size ops
      | Inr (Inl (ops, _, _)) \<Rightarrow> 2 * chain_size ops + 1 | Inr (Inr (bs, _, _)) \<Rightarrow> 2 * branches_size bs,
      \<lambda>x. case x of Inr (Inl (_, _, cs)) \<Rightarrow> length cs | _ \<Rightarrow> 0]") auto

subsection \<open>Building the graph of a condition (zql/src/builder/builder.ts)\<close>

fun isNotAndDoesNotContainSubquery :: "condition \<Rightarrow> bool" where
  "isNotAndDoesNotContainSubquery (Correlated rel eop flp sc) = False"
| "isNotAndDoesNotContainSubquery (Simple op l r) = True"
| "isNotAndDoesNotContainSubquery (And cs) = list_all isNotAndDoesNotContainSubquery cs"
| "isNotAndDoesNotContainSubquery (Or cs) = list_all isNotAndDoesNotContainSubquery cs"

definition groupSubqueryConditions :: "condition list \<Rightarrow> condition list \<times> condition list" where
  "groupSubqueryConditions cs =
     (filter (\<lambda>c. \<not> isNotAndDoesNotContainSubquery c) cs, filter isNotAndDoesNotContainSubquery cs)"

definition applySimpleCondition ::
    "utf8 \<Rightarrow> (literal_value \<Rightarrow> string) \<Rightarrow> condition \<Rightarrow> filter_op list result" where
  "applySimpleCondition u8 str c = bind_result (createPredicate u8 str c) (\<lambda>p. Inr [FilterOp p])"

text \<open>The number is the identity of the next object.\<close>

definition applyCorrelatedSubqueryCondition ::
    "source_schema \<Rightarrow> correlated_subquery \<Rightarrow> exists_op \<Rightarrow> nat \<Rightarrow> (filter_op list \<times> nat) result" where
  "applyCorrelatedSubqueryCondition schema rel eop i =
     (if ast_limit (subquery rel) = Some 0 then Inr ([FilterOp (\<lambda>r. Inr (eop = NOT_EXISTS))], i)
      else case ast_alias (subquery rel) of
        None \<Rightarrow> Inl (IllegalState ''must'')
      | Some alias_name \<Rightarrow> bind_result (new_exists schema alias_name (parentField rel) eop) (\<lambda>e. Inr ([ExistsOp i e], Suc i)))"

lemma size_filter_list: "size_list f (filter P xs) \<le> size_list f xs"
  by (induction xs) auto

function (sequential) applyFilter ::
    "utf8 \<Rightarrow> (literal_value \<Rightarrow> string) \<Rightarrow> source_schema \<Rightarrow> condition \<Rightarrow> nat \<Rightarrow> (filter_op list \<times> nat) result"
  and applyAnd ::
    "utf8 \<Rightarrow> (literal_value \<Rightarrow> string) \<Rightarrow> source_schema \<Rightarrow> condition list \<Rightarrow> nat \<Rightarrow> (filter_op list \<times> nat) result"
  and applyBranches ::
    "utf8 \<Rightarrow> (literal_value \<Rightarrow> string) \<Rightarrow> source_schema \<Rightarrow> condition list \<Rightarrow> nat \<Rightarrow> (filter_op list list \<times> nat) result" where
  "applyFilter u8 str schema (And cs) i = applyAnd u8 str schema cs i"
| "applyFilter u8 str schema (Or cs) i =
     (case groupSubqueryConditions cs of (subqueryConditions, otherConditions) \<Rightarrow>
        if subqueryConditions = []
        then bind_result (createPredicate u8 str (Or otherConditions)) (\<lambda>p. Inr ([FilterOp p], i))
        else bind_result (applyBranches u8 str schema subqueryConditions i) (\<lambda>(branches, j).
          if otherConditions = [] then Inr ([FanOp branches], j)
          else bind_result (createPredicate u8 str (Or otherConditions)) (\<lambda>p. Inr ([FanOp (branches @ [[FilterOp p]])], j))))"
| "applyFilter u8 str schema (Correlated rel eop flp sc) i = applyCorrelatedSubqueryCondition schema rel eop i"
| "applyFilter u8 str schema c i = bind_result (applySimpleCondition u8 str c) (\<lambda>ops. Inr (ops, i))"
| "applyAnd u8 str schema [] i = Inr ([], i)"
| "applyAnd u8 str schema (c # cs) i =
     bind_result (applyFilter u8 str schema c i) (\<lambda>(ops, j).
     bind_result (applyAnd u8 str schema cs j) (\<lambda>(ops', k). Inr (ops @ ops', k)))"
| "applyBranches u8 str schema [] i = Inr ([], i)"
| "applyBranches u8 str schema (c # cs) i =
     bind_result (applyFilter u8 str schema c i) (\<lambda>(ops, j).
     bind_result (applyBranches u8 str schema cs j) (\<lambda>(bs, k). Inr (ops # bs, k)))"
  by pat_completeness auto
termination
  by (relation "measure (\<lambda>x. case x of Inl (_, _, _, c, _) \<Rightarrow> size c
      | Inr (Inl (_, _, _, cs, _)) \<Rightarrow> size_list size cs | Inr (Inr (_, _, _, cs, _)) \<Rightarrow> size_list size cs)")
    (auto simp: groupSubqueryConditions_def less_Suc_eq_le intro: size_filter_list)

end
