(* ===== verification/FilterGraphCorrect.thy ===== *)
theory FilterGraphCorrect
  imports FilterGraph
begin

section \<open>Correctness of filter graphs\<close>

text \<open>
  What a filter operator can tell of a node is its row and how many children each relationship has: the view
  of the node. A chain lets a node pass when every operator does (\<open>passes\<close>); a fetch keeps the nodes that
  pass.
\<close>

subsection \<open>Views of nodes and changes\<close>

type_synonym node_view = "row \<times> (string \<Rightarrow> nat option)"

definition sizes :: "node \<Rightarrow> string \<Rightarrow> nat option" where
  "sizes nd name = map_option (\<lambda>s. length (skipYields s)) (map_of (relationships nd) name)"

definition view_of :: "node \<Rightarrow> node_view" where
  "view_of nd = (node_row nd, sizes nd)"

fun undo_size :: "change \<Rightarrow> nat \<Rightarrow> nat" where
  "undo_size (CAdd n) k = k - 1"
| "undo_size (CRemove n) k = Suc k"
| "undo_size c k = k"

text \<open>The node of a change before and after it.\<close>

fun before :: "change \<Rightarrow> node_view option" where
  "before (CAdd n) = None"
| "before (CRemove n) = Some (view_of n)"
| "before (CEdit n old) = Some (view_of old)"
| "before (CChild n rel c) = Some (node_row n, (sizes n)(rel := map_option (undo_size c) (sizes n rel)))"

fun after :: "change \<Rightarrow> node_view option" where
  "after (CRemove n) = None"
| "after c = Some (view_of (change_node c))"

fun child_of :: "change \<Rightarrow> (string \<times> change) option" where
  "child_of (CChild n rel c) = Some (rel, c)"
| "child_of c = None"

definition same_change :: "change \<Rightarrow> change \<Rightarrow> bool" where
  "same_change c d \<longleftrightarrow> type_of_change c = type_of_change d \<and> before c = before d \<and> after c = after d \<and> child_of c = child_of d"

lemma same_change_refl [simp]: "same_change c c"
  by (simp add: same_change_def)

subsection \<open>What a chain lets pass\<close>

definition has_children :: "(string \<Rightarrow> nat option) \<Rightarrow> string \<Rightarrow> bool" where
  "has_children szs name = (case szs name of None \<Rightarrow> False | Some k \<Rightarrow> 0 < k)"

lemma has_children_Some: "szs name = Some k \<Longrightarrow> has_children szs name = (0 < k)"
  by (simp add: has_children_def)

fun passes :: "node_view \<Rightarrow> filter_op \<Rightarrow> bool" where
  "passes v (FilterOp p) = (p (fst v) = Inr True)"
| "passes v (ExistsOp i e) = (has_children (snd v) (ex_relationshipName e) \<noteq> ex_not e)"
| "passes v (FanOp bs) = list_ex (list_all (passes v)) bs"

text \<open>No predicate throws on the row and the relationships asked for are there.\<close>

fun readable :: "node_view \<Rightarrow> filter_op \<Rightarrow> bool" where
  "readable v (FilterOp p) = (\<not> isl (p (fst v)))"
| "readable v (ExistsOp i e) = (snd v (ex_relationshipName e) \<noteq> None)"
| "readable v (FanOp bs) = list_all (list_all (readable v)) bs"

fun exists_of :: "filter_op \<Rightarrow> (nat \<times> exists_conf) list" where
  "exists_of (FilterOp p) = []"
| "exists_of (ExistsOp i e) = [(i, e)]"
| "exists_of (FanOp bs) = concat (map (\<lambda>b. concat (map exists_of b)) bs)"

abbreviation exists_in :: "filter_op list \<Rightarrow> (nat \<times> exists_conf) list" where
  "exists_in ops \<equiv> concat (map exists_of ops)"

abbreviation names_in :: "filter_op list \<Rightarrow> string list" where
  "names_in ops \<equiv> map (\<lambda>ie. ex_relationshipName (snd ie)) (exists_in ops)"

abbreviation ids_in :: "filter_op list \<Rightarrow> nat list" where
  "ids_in ops \<equiv> map fst (exists_in ops)"

lemma passes_cong:
  assumes "fst v = fst w" "\<And>name. name \<in> set (names_in [x]) \<Longrightarrow> snd v name = snd w name"
  shows "passes v x = passes w x"
  using assms
proof (induction x)
  case (FanOp bs)
  have "passes v x = passes w x" if "b \<in> set bs" "x \<in> set b" for b x
  proof (rule FanOp.IH [OF that FanOp.prems(1)])
    fix name
    assume "name \<in> set (names_in [x])"
    with that show "snd v name = snd w name" by (intro FanOp.prems(2)) auto
  qed
  then show ?case by (auto simp: list_ex_iff list_all_iff)
qed (auto simp: has_children_def)

lemma chain_passes_cong:
  assumes "fst v = fst w" "\<And>name. name \<in> set (names_in ops) \<Longrightarrow> snd v name = snd w name"
  shows "list_all (passes v) ops = list_all (passes w) ops"
proof -
  have "passes v x = passes w x" if "x \<in> set ops" for x
    using assms that by (intro passes_cong) auto
  then show ?thesis by (simp add: list_all_iff)
qed

subsection \<open>Fetching\<close>

text \<open>
  An \<open>Exists\<close> that caches gives one answer to all nodes with the same key, so these must agree. \<open>exists\<close>
  operators that are in a push, or whose key is the primary key, do not cache.
\<close>

definition caching :: "filter_state \<Rightarrow> nat \<times> exists_conf \<Rightarrow> bool" where
  "caching st = (\<lambda>(i, e). \<not> ex_noSizeReuse e \<and> \<not> ex_inPush (st i))"

definition coherent :: "node set \<Rightarrow> exists_conf \<Rightarrow> bool" where
  "coherent nds e \<longleftrightarrow> (\<forall>a \<in> nds. \<forall>b \<in> nds. getCacheKey a (ex_parentJoinKey e) = getCacheKey b (ex_parentJoinKey e) \<longrightarrow>
     has_children (sizes a) (ex_relationshipName e) = has_children (sizes b) (ex_relationshipName e))"

definition cache_ok :: "(nat \<times> exists_conf) set \<Rightarrow> node set \<Rightarrow> filter_state \<Rightarrow> bool" where
  "cache_ok E nds st \<longleftrightarrow> (\<forall>(i, e) \<in> E. caching st (i, e) \<longrightarrow> coherent nds e \<and>
     (\<forall>nd \<in> nds. \<forall>b. map_of (ex_cache (st i)) (getCacheKey nd (ex_parentJoinKey e)) = Some b \<longrightarrow>
        b = has_children (sizes nd) (ex_relationshipName e)))"

definition one_conf :: "(nat \<times> exists_conf) set \<Rightarrow> bool" where
  "one_conf E \<longleftrightarrow> (\<forall>(i, e) \<in> E. \<forall>(j, f) \<in> E. i = j \<longrightarrow> e = f)"

lemma one_conf_distinct: "distinct (map fst l) \<Longrightarrow> one_conf (set l)"
  by (fastforce simp: one_conf_def dest: eq_key_imp_eq_value)

lemma fetchExists_sizes:
  "sizes nd (ex_relationshipName e) \<noteq> None \<Longrightarrow> fetchExists e nd = Inr (has_children (sizes nd) (ex_relationshipName e))"
  by (auto simp: fetchExists_def fetchSize_def sizes_def has_children_def)

lemma exists_lookup_spec:
  assumes E: "(i, e) \<in> E" "one_conf E" and nd: "nd \<in> nds" and ok: "cache_ok E nds st"
    and size: "sizes nd (ex_relationshipName e) \<noteq> None"
  obtains exst st' where "exists_lookup i e st nd = Inr (exst, st')"
    "exists_test e nd exst = Inr (passes (view_of nd) (ExistsOp i e))"
    "cache_ok E nds st'" "\<And>j. ex_inPush (st' j) = ex_inPush (st j)"
proof -
  let ?h = "has_children (sizes nd) (ex_relationshipName e)"
  have test: "exists_test e nd exst = Inr (passes (view_of nd) (ExistsOp i e))" if "exst = None \<or> exst = Some ?h" for exst
    using that by (auto simp: exists_test_def fetchExists_sizes [OF size] view_of_def)
  show ?thesis
  proof (cases "caching st (i, e)")
    case False
    then have "exists_lookup i e st nd = Inr (None, st)" by (auto simp: exists_lookup_def caching_def)
    then show ?thesis using test ok by (intro that) auto
  next
    case True
    let ?key = "getCacheKey nd (ex_parentJoinKey e)"
    show ?thesis
    proof (cases "map_of (ex_cache (st i)) ?key")
      case (Some b)
      then have "b = ?h" using True ok E(1) nd by (fastforce simp: cache_ok_def)
      moreover have "exists_lookup i e st nd = Inr (Some b, st)"
        using True Some by (simp add: exists_lookup_def caching_def Let_def)
      ultimately show ?thesis using test ok by (intro that) auto
    next
      case None
      let ?st = "st(i := (st i)\<lparr>ex_cache := AList.update ?key ?h (ex_cache (st i))\<rparr>)"
      have run: "exists_lookup i e st nd = Inr (Some ?h, ?st)"
        using True None by (simp add: exists_lookup_def caching_def Let_def fetchExists_sizes [OF size])
      have caching: "caching ?st = caching st" by (auto simp: caching_def fun_eq_iff)
      have "cache_ok E nds ?st"
        unfolding cache_ok_def caching
      proof (clarify)
        fix j f
        assume jf: "(j, f) \<in> E" "caching st (j, f)"
        then have co: "coherent nds f" and old: "\<And>x b. x \<in> nds \<Longrightarrow>
            map_of (ex_cache (st j)) (getCacheKey x (ex_parentJoinKey f)) = Some b \<Longrightarrow>
            b = has_children (sizes x) (ex_relationshipName f)"
          using ok by (fastforce simp: cache_ok_def)+
        have "b = has_children (sizes x) (ex_relationshipName f)"
          if x: "x \<in> nds" "map_of (ex_cache (?st j)) (getCacheKey x (ex_parentJoinKey f)) = Some b" for x b
        proof (cases "j = i \<and> getCacheKey x (ex_parentJoinKey f) = ?key")
          case hit: True
          with E jf(1) have "f = e" by (auto simp: one_conf_def)
          moreover have "b = ?h" using x(2) hit \<open>f = e\<close> by (simp add: update_conv')
          ultimately show ?thesis using co x(1) nd hit unfolding coherent_def by metis
        next
          case False
          then have "map_of (ex_cache (st j)) (getCacheKey x (ex_parentJoinKey f)) = Some b"
            using x(2) by (auto simp: update_conv' split: if_splits)
          from old [OF x(1) this] show ?thesis .
        qed
        with co show "coherent nds f \<and> (\<forall>x \<in> nds. \<forall>b. map_of (ex_cache (?st j)) (getCacheKey x (ex_parentJoinKey f)) = Some b \<longrightarrow>
            b = has_children (sizes x) (ex_relationshipName f))" by blast
      qed
      then show ?thesis using run test [of "Some ?h"] by (intro that [OF run]) auto
    qed
  qed
qed

lemma chain_filter_spec:
  assumes "one_conf E" "nd \<in> nds"
  shows "set (exists_in ops) \<subseteq> E \<Longrightarrow> list_all (readable (view_of nd)) ops \<Longrightarrow> cache_ok E nds st \<Longrightarrow>
      \<exists>st'. chain_filter ops st nd = Inr (list_all (passes (view_of nd)) ops, st') \<and> cache_ok E nds st' \<and>
        (\<forall>j. ex_inPush (st' j) = ex_inPush (st j))"
    and "(\<Union>b \<in> set bs. set (exists_in b)) \<union> set (exists_in rest) \<subseteq> E \<Longrightarrow>
      list_all (list_all (readable (view_of nd))) bs \<Longrightarrow> list_all (readable (view_of nd)) rest \<Longrightarrow> cache_ok E nds st \<Longrightarrow>
      \<exists>st'. fan_filter bs rest st nd =
          Inr (list_ex (list_all (passes (view_of nd))) bs \<and> list_all (passes (view_of nd)) rest, st') \<and>
        cache_ok E nds st' \<and> (\<forall>j. ex_inPush (st' j) = ex_inPush (st j))"
  using assms
proof (induction ops st nd and bs rest st nd rule: chain_filter_fan_filter.induct)
  case (2 p rest st nd)
  then obtain b where b: "p (node_row nd) = Inr b" by (cases "p (node_row nd)") (auto simp: view_of_def)
  show ?case
  proof (cases b)
    case True
    with 2 b show ?thesis by (simp add: view_of_def)
  next
    case False
    with 2 b show ?thesis by (simp add: view_of_def)
  qed
next
  case (3 i e rest st nd)
  have E: "(i, e) \<in> E" and rest: "set (exists_in rest) \<subseteq> E" and size: "sizes nd (ex_relationshipName e) \<noteq> None"
    and readable: "list_all (readable (view_of nd)) rest"
    using 3 by (auto simp: view_of_def)
  from exists_lookup_spec [OF E "3.prems"(4,5,3) size] obtain exst st' where
    run: "exists_lookup i e st nd = Inr (exst, st')" "exists_test e nd exst = Inr (passes (view_of nd) (ExistsOp i e))"
    and ok: "cache_ok E nds st'" and flags: "\<And>j. ex_inPush (st' j) = ex_inPush (st j)" by metis
  show ?case
  proof (cases "passes (view_of nd) (ExistsOp i e)")
    case False
    with run ok flags show ?thesis by simp
  next
    case True
    obtain st'' where "chain_filter rest st' nd = Inr (list_all (passes (view_of nd)) rest, st'')"
      "cache_ok E nds st''" "\<forall>j. ex_inPush (st'' j) = ex_inPush (st' j)"
      using "3.IH" [OF run(1) refl run(2) _ rest readable ok "3.prems"(4,5)] True by auto
    with run True flags show ?thesis by simp
  qed
next
  case (6 b bs rest st nd)
  obtain st' where one: "chain_filter (b @ rest) st nd = Inr (list_all (passes (view_of nd)) (b @ rest), st')"
    "cache_ok E nds st'" "\<forall>j. ex_inPush (st' j) = ex_inPush (st j)"
    using "6.IH"(1) "6.prems" by auto
  show ?case
  proof (cases "list_all (passes (view_of nd)) (b @ rest)")
    case True
    with one show ?thesis by auto
  next
    case False
    obtain st'' where "fan_filter bs rest st' nd =
        Inr (list_ex (list_all (passes (view_of nd))) bs \<and> list_all (passes (view_of nd)) rest, st'')"
      "cache_ok E nds st''" "\<forall>j. ex_inPush (st'' j) = ex_inPush (st' j)"
      using "6.IH"(2) [OF one(1) refl] False "6.prems" one(2) by auto
    with one False show ?thesis by auto
  qed
qed auto

definition keep_items :: "(node \<Rightarrow> bool) \<Rightarrow> node item list \<Rightarrow> node item list" where
  "keep_items P = filter (\<lambda>x. case x of Yield \<Rightarrow> True | Item nd \<Rightarrow> P nd)"

lemma keep_items_simps [simp]:
  "keep_items P [] = []" "keep_items P (Yield # xs) = Yield # keep_items P xs"
  "keep_items P (Item nd # xs) = (if P nd then Item nd # keep_items P xs else keep_items P xs)"
  by (simp_all add: keep_items_def)

lemma skipYields_keep [simp]: "skipYields (keep_items P xs) = filter P (skipYields xs)"
  by (induction xs rule: skipYields.induct) auto

lemma filter_nodes_spec:
  assumes "one_conf (set (exists_in ops))" "set (skipYields nodes) \<subseteq> nds"
    and "\<forall>nd \<in> set (skipYields nodes). list_all (readable (view_of nd)) ops" and "cache_ok (set (exists_in ops)) nds st"
  shows "\<exists>st'. filter_nodes ops st nodes = Inr (keep_items (\<lambda>nd. list_all (passes (view_of nd)) ops) nodes, st') \<and>
    (\<forall>j. ex_inPush (st' j) = ex_inPush (st j))"
  using assms
proof (induction ops st nodes rule: filter_nodes.induct)
  case (3 ops st nd nodes)
  let ?P = "\<lambda>nd. list_all (passes (view_of nd)) ops"
  obtain st1 where one: "chain_filter ops st nd = Inr (?P nd, st1)" "cache_ok (set (exists_in ops)) nds st1"
    "\<forall>j. ex_inPush (st1 j) = ex_inPush (st j)"
    using chain_filter_spec(1) [OF "3.prems"(1), of nd nds ops st] "3.prems" by auto
  obtain st2 where "filter_nodes ops st1 nodes = Inr (keep_items ?P nodes, st2)"
    "\<forall>j. ex_inPush (st2 j) = ex_inPush (st1 j)"
    using "3.IH" [OF one(1) refl "3.prems"(1) _ _ one(2)] "3.prems" by auto
  with one show ?case by simp
qed auto

text \<open>After a fetch the caches are empty.\<close>

fun fanned :: "filter_op \<Rightarrow> bool" where
  "fanned (FanOp bs) = (bs \<noteq> [] \<and> list_all (list_all fanned) bs)"
| "fanned x = True"

lemma chain_endFilter_spec:
  "list_all fanned ops \<Longrightarrow>
     chain_endFilter ops st i = (if i \<in> set (ids_in ops) then (st i)\<lparr>ex_cache := []\<rparr> else st i)"
proof (induction ops st rule: chain_endFilter.induct)
  case (5 b bs rest st)
  show ?case
  proof (cases "bs = []")
    case True
    with 5 show ?thesis by simp
  next
    case False
    with 5 show ?thesis by auto
  qed
qed auto

lemma filter_fetch_spec:
  assumes input: "input req = Inr nodes" and E: "distinct (ids_in ops)" and fan: "list_all fanned ops"
    and readable: "\<forall>nd \<in> set (skipYields nodes). list_all (readable (view_of nd)) ops"
    and co: "\<forall>ie \<in> set (exists_in ops). caching st ie \<longrightarrow> coherent (set (skipYields nodes)) (snd ie) \<and> ex_cache (st (fst ie)) = []"
  shows "\<exists>st'. filter_fetch ops input st req =
      Inr (keep_items (\<lambda>nd. list_all (passes (view_of nd)) ops) nodes, st') \<and>
    (\<forall>i. ex_inPush (st' i) = ex_inPush (st i)) \<and> (\<forall>i \<in> set (ids_in ops). ex_cache (st' i) = [])"
proof -
  have "cache_ok (set (exists_in ops)) (set (skipYields nodes)) st"
    unfolding cache_ok_def using co by fastforce
  from filter_nodes_spec [OF one_conf_distinct [OF E] subset_refl readable this] obtain st1 where
    "filter_nodes ops st nodes = Inr (keep_items (\<lambda>nd. list_all (passes (view_of nd)) ops) nodes, st1)"
    "\<forall>j. ex_inPush (st1 j) = ex_inPush (st j)" by blast
  then show ?thesis
    using input chain_endFilter_spec [OF fan, of st1] by (auto simp: filter_fetch_def)
qed

end
