(* ===== verification/FilterPush.thy ===== *)
theory FilterPush
  imports FilterGraphCorrect
begin

section \<open>Pushes through filter graphs\<close>

text \<open>
  What the branches of an \<open>OR\<close> make of a change, how \<open>pushAccumulatedChanges\<close> makes one change of it, and by
  induction on the graph what a chain makes of it: \<open>chain_push_spec\<close>.
\<close>

subsection \<open>A change seen through a filter\<close>

text \<open>
  \<open>turns P c cs\<close>: the changes \<open>cs\<close> are the change \<open>c\<close> as seen by an output that has the nodes for which \<open>P\<close>.
\<close>

definition held_before :: "(node_view \<Rightarrow> bool) \<Rightarrow> change \<Rightarrow> bool" where
  "held_before P c \<longleftrightarrow> (case before c of None \<Rightarrow> False | Some v \<Rightarrow> P v)"

definition held_after :: "(node_view \<Rightarrow> bool) \<Rightarrow> change \<Rightarrow> bool" where
  "held_after P c \<longleftrightarrow> (case after c of None \<Rightarrow> False | Some v \<Rightarrow> P v)"

definition turns :: "(node_view \<Rightarrow> bool) \<Rightarrow> change \<Rightarrow> change list \<Rightarrow> bool" where
  "turns P c cs \<longleftrightarrow>
     (if held_before P c \<and> held_after P c then \<exists>d. cs = [d] \<and> same_change c d
      else if held_before P c then \<exists>n. cs = [CRemove n] \<and> before c = Some (view_of n)
      else if held_after P c then \<exists>n. cs = [CAdd n] \<and> after c = Some (view_of n)
      else cs = [])"

lemma held_simps [simp]:
  "held_before P (CAdd n) \<longleftrightarrow> False" "held_after P (CAdd n) \<longleftrightarrow> P (view_of n)"
  "held_before P (CRemove n) \<longleftrightarrow> P (view_of n)" "held_after P (CRemove n) \<longleftrightarrow> False"
  "held_before P (CEdit n old) \<longleftrightarrow> P (view_of old)" "held_after P (CEdit n old) \<longleftrightarrow> P (view_of n)"
  "held_after P (CChild n rel c) \<longleftrightarrow> P (view_of n)"
  by (simp_all add: held_before_def held_after_def)

lemma same_change_held:
  assumes "same_change c d"
  shows "held_before P c = held_before P d" "held_after P c = held_after P d"
  using assms by (simp_all add: same_change_def held_before_def held_after_def)

lemma turns_cases:
  assumes "turns P c cs"
  obtains (both) d where "held_before P c" "held_after P c" "cs = [d]" "same_change c d"
  | (remove) n where "held_before P c" "\<not> held_after P c" "cs = [CRemove n]" "before c = Some (view_of n)"
  | (add) n where "\<not> held_before P c" "held_after P c" "cs = [CAdd n]" "after c = Some (view_of n)"
  | (none) "\<not> held_before P c" "\<not> held_after P c" "cs = []"
  using assms unfolding turns_def by (auto split: if_splits)

lemma turns_same:
  assumes "same_change c d" "turns P d cs"
  shows "turns P c cs"
  using assms(2)
proof (cases rule: turns_cases)
  case (both e)
  then have "same_change c e" using assms(1) unfolding same_change_def by simp
  with both show ?thesis unfolding turns_def same_change_held [OF assms(1)] by simp
qed (use assms(1) in \<open>simp_all add: turns_def same_change_held [OF assms(1)] same_change_def\<close>)

lemma turns_both:
  assumes "turns P c cs" "list_all2 (turns Q) cs dss"
  shows "turns (\<lambda>v. P v \<and> Q v) c (concat dss)"
  using assms(1)
proof (cases rule: turns_cases)
  case (both d)
  with assms(2) obtain ds where ds: "dss = [ds]" "turns Q d ds" by (auto simp: list_all2_Cons1)
  have "turns Q c ds" by (rule turns_same [OF both(4) ds(2)])
  with both(1,2) ds(1) show ?thesis
    by (auto simp: turns_def held_before_def held_after_def split: option.splits if_splits)
next
  case (remove n)
  with assms(2) obtain ds where ds: "dss = [ds]" "turns Q (CRemove n) ds" by (auto simp: list_all2_Cons1)
  with remove show ?thesis
    by (auto simp: turns_def held_before_def held_after_def same_change_def split: option.splits if_splits)
next
  case (add n)
  with assms(2) obtain ds where ds: "dss = [ds]" "turns Q (CAdd n) ds" by (auto simp: list_all2_Cons1)
  with add show ?thesis
    by (auto simp: turns_def held_before_def held_after_def split: option.splits if_splits)
next
  case none
  with assms(2) show ?thesis by (auto simp: turns_def held_before_def held_after_def split: option.splits)
qed

text \<open>
  The contract of a change: what it shows is readable, an edit does not change whether a relationship is empty
  (the source splits edits of the keys of relationships), and a child that is added is there.
\<close>

definition good :: "filter_op list \<Rightarrow> change \<Rightarrow> bool" where
  "good ops c \<longleftrightarrow> (\<forall>v. before c = Some v \<or> after c = Some v \<longrightarrow> list_all (readable v) ops) \<and>
     (type_of_change c = EDIT \<longrightarrow> (\<forall>name \<in> set (names_in ops).
        has_children (snd (the (before c))) name = has_children (snd (the (after c))) name)) \<and>
     (\<forall>rel m. child_of c = Some (rel, CAdd m) \<longrightarrow> snd (the (after c)) rel \<noteq> Some 0)"

lemma good_cong: "same_change c d \<Longrightarrow> good ops c = good ops d"
  by (simp add: good_def same_change_def)

lemma good_readable: "good ops c \<Longrightarrow> before c = Some v \<or> after c = Some v \<Longrightarrow> list_all (readable v) ops"
  unfolding good_def by blast

lemma good_mono:
  assumes "good ops c" "\<And>v. list_all (readable v) ops \<Longrightarrow> list_all (readable v) ops'" "set (names_in ops') \<subseteq> set (names_in ops)"
  shows "good ops' c"
  using assms unfolding good_def by blast

lemma good_Cons: "good (x # ops) c \<Longrightarrow> good ops c"
  by (erule good_mono) auto

lemma good_branch: "good (FanOp bs # ops) c \<Longrightarrow> b \<in> set bs \<Longrightarrow> good b c"
  by (erule good_mono) (auto simp: list_all_iff)

lemma good_one: "list_all (readable (view_of n)) ops \<Longrightarrow> good ops (CAdd n)" "list_all (readable (view_of n)) ops \<Longrightarrow> good ops (CRemove n)"
  by (simp_all add: good_def)

lemma good_turned:
  assumes "good ops c" "turns P c cs" "d \<in> set cs"
  shows "good ops d"
  using assms(2)
proof (cases rule: turns_cases)
  case (both e)
  with assms show ?thesis using good_cong by auto
next
  case (remove n)
  with assms(3) show ?thesis using good_readable [OF assms(1), of "view_of n"] by (auto intro!: good_one)
next
  case (add n)
  with assms(3) show ?thesis using good_readable [OF assms(1), of "view_of n"] by (auto intro!: good_one)
qed (use assms in simp)

lemma filterPush_turns:
  assumes "good (FilterOp p # ops) c"
  shows "\<exists>cs. filterPush c (Some p) = Inr cs \<and> turns (\<lambda>v. passes v (FilterOp p)) c cs"
proof -
  have p: "\<exists>b. p (fst v) = Inr b" if "before c = Some v \<or> after c = Some v" for v
    using good_readable [OF assms that] by (cases "p (fst v)") auto
  show ?thesis
  proof (cases c)
    case (CEdit n old)
    with p [of "view_of n"] p [of "view_of old"] obtain a b where "p (node_row n) = Inr a" "p (node_row old) = Inr b"
      by (auto simp: view_of_def)
    with CEdit show ?thesis by (auto simp: turns_def view_of_def)
  next
    case (CChild n rel d)
    with p [of "view_of n"] obtain a where "p (node_row n) = Inr a" by (auto simp: view_of_def)
    with CChild show ?thesis by (auto simp: turns_def view_of_def held_before_def)
  next
    case (CAdd n)
    with p [of "view_of n"] obtain a where "p (node_row n) = Inr a" by (auto simp: view_of_def)
    with CAdd show ?thesis by (auto simp: turns_def view_of_def)
  next
    case (CRemove n)
    with p [of "view_of n"] obtain a where "p (node_row n) = Inr a" by (auto simp: view_of_def)
    with CRemove show ?thesis by (auto simp: turns_def view_of_def)
  qed
qed

lemma sizes_with_relationship:
  "sizes (with_relationship e nd s) = (sizes nd)(ex_relationshipName e := Some (length (skipYields s)))"
  by (auto simp: sizes_def with_relationship_def update_conv' fun_eq_iff)

lemma fetchSize_sizes: "sizes nd (ex_relationshipName e) = Some k \<Longrightarrow> fetchSize e nd = Inr k"
  by (auto simp: fetchSize_def sizes_def)

lemma pushWithFilter_turns:
  assumes "sizes (change_node c) (ex_relationshipName e) = Some k" "exst = None \<or> exst = Some (0 < k)"
    and "after c = None \<or> after c = Some (view_of (change_node c))"
    and "after c = None \<Longrightarrow> before c = Some (view_of (change_node c))"
    and "before c = None \<or> after c = None \<or> held_before (\<lambda>v. passes v (ExistsOp i e)) c = held_after (\<lambda>v. passes v (ExistsOp i e)) c"
    and "before c = None \<Longrightarrow> type_of_change c = ADD" "after c = None \<Longrightarrow> type_of_change c = REMOVE"
  shows "\<exists>cs. exists_pushWithFilter e c exst = Inr cs \<and> turns (\<lambda>v. passes v (ExistsOp i e)) c cs"
proof -
  have test: "exists_test e (change_node c) exst = Inr (passes (view_of (change_node c)) (ExistsOp i e))"
    using assms(1,2) by (auto simp: exists_test_def fetchExists_def fetchSize_sizes view_of_def has_children_def)
  consider n where "c = CAdd n" | n where "c = CRemove n" | "before c \<noteq> None" "after c \<noteq> None"
    using assms(6,7) by (cases c) auto
  then show ?thesis
  proof cases
    case 3
    then have "held_before (\<lambda>v. passes v (ExistsOp i e)) c = passes (view_of (change_node c)) (ExistsOp i e)"
      "held_after (\<lambda>v. passes v (ExistsOp i e)) c = passes (view_of (change_node c)) (ExistsOp i e)"
      using assms(3,5) by (auto simp: held_after_def)
    with test show ?thesis by (auto simp: exists_pushWithFilter_def turns_def)
  qed (use test in \<open>auto simp: exists_pushWithFilter_def turns_def\<close>)
qed

lemma exists_push_turns:
  assumes "good (ExistsOp i e # ops) c"
  shows "\<exists>cs. exists_push e c = Inr cs \<and> turns (\<lambda>v. passes v (ExistsOp i e)) c cs"
proof -
  let ?name = "ex_relationshipName e"
  have "sizes (change_node c) ?name \<noteq> None"
    using good_readable [OF assms, of "view_of (change_node c)"] by (cases c) (auto simp: view_of_def)
  then obtain k where k: "sizes (change_node c) ?name = Some k" by auto
  have *: "\<exists>cs. exists_pushWithFilter e c exst = Inr cs \<and> turns (\<lambda>v. passes v (ExistsOp i e)) c cs"
    if "exst = None \<or> exst = Some (0 < k)"
      "type_of_change c = CHILD \<longrightarrow> held_before (\<lambda>v. passes v (ExistsOp i e)) c = held_after (\<lambda>v. passes v (ExistsOp i e)) c" for exst
  proof (rule pushWithFilter_turns [OF k that(1)])
    show "before c = None \<or> after c = None \<or>
      held_before (\<lambda>v. passes v (ExistsOp i e)) c = held_after (\<lambda>v. passes v (ExistsOp i e)) c"
      using assms that(2) by (cases c) (auto simp: good_def)
  qed (cases c; simp)+
  show ?thesis
  proof (cases c)
    case (CChild nd rel d)
    have k': "sizes nd ?name = Some k" using k CChild by simp
    show ?thesis
    proof (cases "rel = ?name")
      case False
      with CChild * [of None] show ?thesis by (simp add: held_before_def view_of_def has_children_def)
    next
      case rel: True
      show ?thesis
      proof (cases d)
        case (CAdd m)
        then have "k \<noteq> 0" using assms CChild k' rel by (auto simp: good_def view_of_def)
        show ?thesis
        proof (cases "k = 1")
          case True
          then show ?thesis
            using CChild CAdd rel k' fetchSize_sizes [OF k']
            by (auto simp: turns_def held_before_def view_of_def sizes_with_relationship has_children_def)
              (simp_all add: with_relationship_def)
        next
          case False
          with \<open>k \<noteq> 0\<close> show ?thesis
            using CChild CAdd rel k' fetchSize_sizes [OF k'] * [of "Some (0 < k)"] by (simp add: held_before_def view_of_def has_children_def)
        qed
      next
        case (CRemove m)
        show ?thesis
        proof (cases "k = 0")
          case True
          then show ?thesis
            using CChild CRemove rel k' fetchSize_sizes [OF k']
            by (auto simp: turns_def held_before_def view_of_def sizes_with_relationship has_children_def)
              (simp_all add: with_relationship_def)
        next
          case False
          then show ?thesis
            using CChild CRemove rel k' fetchSize_sizes [OF k'] * [of "Some (0 < k)"] by (simp add: held_before_def view_of_def has_children_def)
        qed
      qed (use CChild rel k' * [of None] in \<open>simp_all add: held_before_def view_of_def has_children_def\<close>)
    qed
  qed (use * [of None] in simp_all)
qed

subsection \<open>Merging the branches\<close>

text \<open>With \<open>identity\<close> as \<open>mergeRelationships\<close> the first change of each type is kept.\<close>

abbreviation keep_first :: "change \<Rightarrow> change \<Rightarrow> change result" where
  "keep_first \<equiv> \<lambda>existing incoming. Inr existing"

abbreviation type_found :: "change_type \<Rightarrow> change list \<Rightarrow> change option" where
  "type_found t cs \<equiv> find (\<lambda>d. type_of_change d = t) cs"

lemma collapse_first:
  assumes "T = CHILD \<Longrightarrow> length (filter (\<lambda>d. type_of_change d \<noteq> CHILD) cs) + length (filter (\<lambda>x. fst x \<noteq> CHILD) cands) \<le> 1"
    and "distinct (map fst cands)"
  shows "\<exists>r. collapse_changes keep_first T cs cands = Inr r \<and> distinct (map fst r) \<and>
    fst ` set r = fst ` set cands \<union> type_of_change ` set cs \<and>
    (\<forall>t. map_of r t = (case map_of cands t of Some c \<Rightarrow> Some c | None \<Rightarrow> type_found t cs))"
  using assms
proof (induction cs arbitrary: cands)
  case (Cons c cs)
  let ?t = "type_of_change c"
  define merged where "merged = (case map_of cands ?t of None \<Rightarrow> c | Some existing \<Rightarrow> existing)"
  let ?cands = "AList.update ?t merged cands"
  have guard: "\<not> (T = CHILD \<and> ?t \<noteq> CHILD \<and> map_of cands ?t \<noteq> None)"
  proof
    assume a: "T = CHILD \<and> ?t \<noteq> CHILD \<and> map_of cands ?t \<noteq> None"
    then obtain e where "(?t, e) \<in> set (filter (\<lambda>x. fst x \<noteq> CHILD) cands)" by (auto dest: map_of_SomeD)
    then have "filter (\<lambda>x. fst x \<noteq> CHILD) cands \<noteq> []" by force
    with a Cons.prems(1) show False by simp
  qed
  have count: "length (filter (\<lambda>d. type_of_change d \<noteq> CHILD) cs) + length (filter (\<lambda>x. fst x \<noteq> CHILD) ?cands) \<le> 1" if "T = CHILD"
  proof (cases "map_of cands ?t")
    case None
    then have "?cands = cands @ [(?t, merged)]" by (induction cands) auto
    with Cons.prems(1) [OF that] show ?thesis by auto
  next
    case (Some e)
    with guard that have "?t = CHILD" by simp
    then have "map fst (filter (\<lambda>x. fst x \<noteq> CHILD) ?cands) = map fst (filter (\<lambda>x. fst x \<noteq> CHILD) cands)"
      using Some by (induction cands) auto
    then have "length (filter (\<lambda>x. fst x \<noteq> CHILD) ?cands) = length (filter (\<lambda>x. fst x \<noteq> CHILD) cands)"
      using map_eq_imp_length_eq by blast
    with Cons.prems(1) [OF that] \<open>?t = CHILD\<close> show ?thesis by simp
  qed
  have "collapse_changes keep_first T (c # cs) cands = collapse_changes keep_first T cs ?cands"
    using guard by (auto simp: merged_def split: option.split)
  moreover obtain r where "collapse_changes keep_first T cs ?cands = Inr r" "distinct (map fst r)"
    "fst ` set r = fst ` set ?cands \<union> type_of_change ` set cs"
    "\<forall>t. map_of r t = (case map_of ?cands t of Some c \<Rightarrow> Some c | None \<Rightarrow> type_found t cs)"
    using Cons.IH [OF count distinct_update [OF Cons.prems(2)]] by blast
  ultimately show ?case
    by (auto simp: dom_update update_conv' merged_def split: option.split)
qed (auto split: option.split)

lemma single_element: "distinct xs \<Longrightarrow> set xs = {t} \<Longrightarrow> xs = [t]"
  by (cases xs; cases "tl xs") auto

definition any_of :: "(node_view \<Rightarrow> bool) list \<Rightarrow> node_view \<Rightarrow> bool" where
  "any_of Ps v \<longleftrightarrow> (\<exists>P \<in> set Ps. P v)"

lemma held_any:
  "held_before (any_of Ps) c \<longleftrightarrow> (\<exists>P \<in> set Ps. held_before P c)"
  "held_after (any_of Ps) c \<longleftrightarrow> (\<exists>P \<in> set Ps. held_after P c)"
  by (auto simp: held_before_def held_after_def any_of_def split: option.split)

text \<open>The changes of the branches, by the two questions whether a branch held the node before and after.\<close>

lemma branch_changes:
  assumes "list_all2 (\<lambda>P. turns P c) Ps css"
  shows "d \<in> set (concat css) \<Longrightarrow> (\<exists>P \<in> set Ps. held_before P c \<and> held_after P c \<and> same_change c d) \<or>
      (\<exists>P \<in> set Ps. \<exists>n. held_before P c \<and> \<not> held_after P c \<and> d = CRemove n \<and> before c = Some (view_of n)) \<or>
      (\<exists>P \<in> set Ps. \<exists>n. \<not> held_before P c \<and> held_after P c \<and> d = CAdd n \<and> after c = Some (view_of n))"
    and "P \<in> set Ps \<Longrightarrow> held_before P c \<Longrightarrow> held_after P c \<Longrightarrow> \<exists>d \<in> set (concat css). same_change c d"
    and "P \<in> set Ps \<Longrightarrow> held_before P c \<Longrightarrow> \<not> held_after P c \<Longrightarrow> \<exists>n. CRemove n \<in> set (concat css)"
    and "P \<in> set Ps \<Longrightarrow> \<not> held_before P c \<Longrightarrow> held_after P c \<Longrightarrow> \<exists>n. CAdd n \<in> set (concat css)"
proof -
  show "(\<exists>P \<in> set Ps. held_before P c \<and> held_after P c \<and> same_change c d) \<or>
      (\<exists>P \<in> set Ps. \<exists>n. held_before P c \<and> \<not> held_after P c \<and> d = CRemove n \<and> before c = Some (view_of n)) \<or>
      (\<exists>P \<in> set Ps. \<exists>n. \<not> held_before P c \<and> held_after P c \<and> d = CAdd n \<and> after c = Some (view_of n))"
    if "d \<in> set (concat css)"
  proof -
    from that obtain cs where "cs \<in> set css" "d \<in> set cs" by auto
    with assms obtain P where "P \<in> set Ps" "turns P c cs" by (metis in_set_conv_nth list_all2_conv_all_nth)
    with \<open>d \<in> set cs\<close> show ?thesis by (elim turns_cases) auto
  qed
  have elem: "\<exists>cs. set cs \<subseteq> set (concat css) \<and> turns P c cs" if "P \<in> set Ps" for P
  proof -
    from that obtain i where i: "i < length Ps" "Ps ! i = P" by (auto simp: in_set_conv_nth)
    with list_all2_nthD [OF assms this(1)] list_all2_lengthD [OF assms] have "turns P c (css ! i)" "css ! i \<in> set css" by auto
    then show ?thesis by auto
  qed
  show "\<exists>d \<in> set (concat css). same_change c d" if P: "P \<in> set Ps" "held_before P c" "held_after P c"
  proof -
    from elem [OF P(1)] obtain cs where "set cs \<subseteq> set (concat css)" "turns P c cs" by blast
    with P(2,3) show ?thesis by (elim turns_cases) (simp_all, blast)
  qed
  show "\<exists>n. CRemove n \<in> set (concat css)" if P: "P \<in> set Ps" "held_before P c" "\<not> held_after P c"
  proof -
    from elem [OF P(1)] obtain cs where "set cs \<subseteq> set (concat css)" "turns P c cs" by blast
    with P(2,3) show ?thesis by (elim turns_cases) (simp_all, blast)
  qed
  show "\<exists>n. CAdd n \<in> set (concat css)" if P: "P \<in> set Ps" "\<not> held_before P c" "held_after P c"
  proof -
    from elem [OF P(1)] obtain cs where "set cs \<subseteq> set (concat css)" "turns P c cs" by blast
    with P(2,3) show ?thesis by (elim turns_cases) (simp_all, blast)
  qed
qed

lemma branch_change_cases:
  assumes "list_all2 (\<lambda>P. turns P c) Ps css" "d \<in> set (concat css)"
  obtains (both) "same_change c d" "type_of_change d = type_of_change c" "held_before (any_of Ps) c" "held_after (any_of Ps) c"
    | (remove) n where "d = CRemove n" "before c = Some (view_of n)" "held_before (any_of Ps) c"
    | (add) n where "d = CAdd n" "after c = Some (view_of n)" "held_after (any_of Ps) c"
  using branch_changes(1) [OF assms]
proof (elim disjE bexE exE conjE)
  fix P assume "P \<in> set Ps" "held_before P c" "held_after P c" "same_change c d"
  then show thesis by (intro both) (auto simp: held_any same_change_def)
next
  fix P n assume "P \<in> set Ps" "held_before P c" "d = CRemove n" "before c = Some (view_of n)"
  then show thesis by (intro remove) (auto simp: held_any)
next
  fix P n assume "P \<in> set Ps" "held_after P c" "d = CAdd n" "after c = Some (view_of n)"
  then show thesis by (intro add) (auto simp: held_any)
qed

lemma few_changed:
  assumes "list_all2 (\<lambda>P. turns P c) Ps css" "type_of_change c = CHILD"
    and "sorted_wrt (\<lambda>P Q. held_before P c = held_after P c \<or> held_before Q c = held_after Q c) Ps"
  shows "length (filter (\<lambda>d. type_of_change d \<noteq> CHILD) (concat css)) \<le> 1"
  using assms(1,3)
proof (induction Ps css rule: list_all2_induct)
  case (Cons P Ps cs css)
  have same: "filter (\<lambda>d. type_of_change d \<noteq> CHILD) cs' = []" if "turns Q c cs'" "held_before Q c = held_after Q c" for Q cs'
    using that assms(2) by (elim turns_cases) (auto simp: same_change_def)
  show ?case
  proof (cases "held_before P c = held_after P c")
    case True
    with Cons same show ?thesis by auto
  next
    case False
    then have all: "\<forall>Q \<in> set Ps. held_before Q c = held_after Q c" using Cons.prems by auto
    have "filter (\<lambda>d. type_of_change d \<noteq> CHILD) cs' = []" if "cs' \<in> set css" for cs'
      using Cons.hyps(2) that all same by (metis in_set_conv_nth list_all2_conv_all_nth)
    then have "filter (\<lambda>d. type_of_change d \<noteq> CHILD) (concat css) = []" by (simp add: filter_concat)
    moreover have "length cs \<le> 1" using Cons.hyps(1) by (elim turns_cases) auto
    then have "length (filter (\<lambda>d. type_of_change d \<noteq> CHILD) cs) \<le> 1" by (rule le_trans [OF length_filter_le])
    ultimately show ?thesis by simp
  qed
qed simp

definition collapsed :: "change_type \<Rightarrow> change list \<Rightarrow> candidates \<Rightarrow> bool" where
  "collapsed T acc r \<longleftrightarrow> collapse_changes keep_first T acc [] = Inr r \<and> distinct (map fst r) \<and>
     fst ` set r = type_of_change ` set acc \<and>
     (\<forall>t d. map_of r t = Some d \<longrightarrow> d \<in> set acc \<and> type_of_change d = t) \<and>
     (\<forall>t. map_of r t = None \<longrightarrow> (\<forall>d \<in> set acc. type_of_change d \<noteq> t))"

lemma collapsed_candidates:
  assumes "list_all2 (\<lambda>P. turns P c) Ps css"
    and "type_of_change c = CHILD \<Longrightarrow>
      sorted_wrt (\<lambda>P Q. held_before P c = held_after P c \<or> held_before Q c = held_after Q c) Ps"
  shows "\<exists>r. collapsed (type_of_change c) (concat css) r"
proof -
  obtain r where r: "collapse_changes keep_first (type_of_change c) (concat css) [] = Inr r" "distinct (map fst r)"
    "fst ` set r = type_of_change ` set (concat css)" and "\<forall>t. map_of r t = type_found t (concat css)"
    using collapse_first [of "type_of_change c" "concat css" "[]"] few_changed [OF assms(1) _ assms(2)] by auto
  then have found: "map_of r t = type_found t (concat css)" for t by simp
  have "d \<in> set (concat css) \<and> type_of_change d = t" if "map_of r t = Some d" for t d
    using that nth_mem unfolding found find_Some_iff by metis
  moreover have "type_of_change d \<noteq> t" if "map_of r t = None" "d \<in> set (concat css)" for t d
    using that unfolding found find_None_iff by blast
  ultimately show ?thesis using r unfolding collapsed_def by blast
qed

lemma collapsed_push:
  "collapsed T acc r \<Longrightarrow> acc \<noteq> [] \<Longrightarrow>
     pushAccumulatedChanges keep_first (\<lambda>c. c) acc T = push_candidates keep_first (\<lambda>c. c) r T"
  by (simp add: collapsed_def pushAccumulatedChanges_def)

lemma collapsedD:
  assumes "collapsed T acc r"
  shows "map_of r t = Some d \<Longrightarrow> d \<in> set acc" "map_of r t = Some d \<Longrightarrow> type_of_change d = t"
    and "map_of r t = None \<Longrightarrow> d \<in> set acc \<Longrightarrow> type_of_change d \<noteq> t"
    and "distinct (map fst r)" "set (map fst r) = type_of_change ` set acc"
  using assms by (auto simp: collapsed_def)

lemma collapsed_single:
  assumes "collapsed T acc r" "acc \<noteq> []" "\<And>d. d \<in> set acc \<Longrightarrow> type_of_change d = t"
  shows "map fst r = [t] \<and> (\<exists>d. map_of r t = Some d \<and> d \<in> set acc)"
proof -
  have "type_of_change ` set acc = {t}" using assms(2,3) by (cases acc) force+
  then have "set (map fst r) = {t}" by (simp only: collapsedD(5) [OF assms(1)])
  then have keys: "map fst r = [t]" by (rule single_element [OF collapsedD(4) [OF assms(1)]])
  then obtain d where "map_of r t = Some d" by (cases r) auto
  with keys collapsedD(1) [OF assms(1) this] show ?thesis by blast
qed

lemma accumulated_add:
  assumes "list_all2 (\<lambda>P. turns P (CAdd n)) Ps css" "concat css \<noteq> []"
  shows "\<exists>ds. pushAccumulatedChanges keep_first (\<lambda>c. c) (concat css) ADD = Inr ds \<and> turns (any_of Ps) (CAdd n) ds"
proof -
  obtain r where r: "collapsed ADD (concat css) r" using collapsed_candidates [OF assms(1)] by auto
  have all: "\<exists>m. d = CAdd m \<and> view_of n = view_of m \<and> any_of Ps (view_of n)" if "d \<in> set (concat css)" for d
    using branch_change_cases [OF assms(1) that] by cases simp_all
  obtain d where d: "map fst r = [ADD]" "map_of r ADD = Some d" "d \<in> set (concat css)"
    using collapsed_single [OF r assms(2), of ADD] all by (metis type_of_change.simps)
  from all [OF d(3)] d(1,2) show ?thesis
    unfolding collapsed_push [OF r assms(2)] by (auto simp: turns_def)
qed

lemma accumulated_remove:
  assumes "list_all2 (\<lambda>P. turns P (CRemove n)) Ps css" "concat css \<noteq> []"
  shows "\<exists>ds. pushAccumulatedChanges keep_first (\<lambda>c. c) (concat css) REMOVE = Inr ds \<and> turns (any_of Ps) (CRemove n) ds"
proof -
  obtain r where r: "collapsed REMOVE (concat css) r" using collapsed_candidates [OF assms(1)] by auto
  have all: "\<exists>m. d = CRemove m \<and> view_of n = view_of m \<and> any_of Ps (view_of n)" if "d \<in> set (concat css)" for d
    using branch_change_cases [OF assms(1) that] by cases simp_all
  obtain d where d: "map fst r = [REMOVE]" "map_of r REMOVE = Some d" "d \<in> set (concat css)"
    using collapsed_single [OF r assms(2), of REMOVE] all by (metis type_of_change.simps)
  from all [OF d(3)] d(1,2) show ?thesis
    unfolding collapsed_push [OF r assms(2)] by (auto simp: turns_def)
qed

text \<open>The candidates of a change that has a node before and after it.\<close>

lemma candidate_facts:
  assumes css: "list_all2 (\<lambda>P. turns P c) Ps css" and r: "collapsed (type_of_change c) (concat css) r"
    and type: "type_of_change c \<noteq> ADD" "type_of_change c \<noteq> REMOVE"
  shows "map_of r (type_of_change c) = Some d \<Longrightarrow>
      same_change c d \<and> held_before (any_of Ps) c \<and> held_after (any_of Ps) c"
    and "map_of r ADD = Some d \<Longrightarrow> (\<exists>m. d = CAdd m \<and> after c = Some (view_of m)) \<and> held_after (any_of Ps) c"
    and "map_of r REMOVE = Some d \<Longrightarrow> (\<exists>m. d = CRemove m \<and> before c = Some (view_of m)) \<and> held_before (any_of Ps) c"
    and "map_of r (type_of_change c) = None \<Longrightarrow> map_of r ADD = None \<Longrightarrow> \<not> held_after (any_of Ps) c"
    and "map_of r (type_of_change c) = None \<Longrightarrow> map_of r REMOVE = None \<Longrightarrow> \<not> held_before (any_of Ps) c"
    and "t \<in> set (map fst r) \<Longrightarrow> t = ADD \<or> t = REMOVE \<or> t = type_of_change c"
proof -
  note fd = collapsedD(1,2) [OF r] and fn = collapsedD(3) [OF r]
  show "same_change c d \<and> held_before (any_of Ps) c \<and> held_after (any_of Ps) c" if "map_of r (type_of_change c) = Some d"
    using branch_change_cases [OF css fd(1) [OF that]] by cases (use fd(2) [OF that] type in auto)
  show "(\<exists>m. d = CAdd m \<and> after c = Some (view_of m)) \<and> held_after (any_of Ps) c" if "map_of r ADD = Some d"
    using branch_change_cases [OF css fd(1) [OF that]] by cases (use fd(2) [OF that] type in auto)
  show "(\<exists>m. d = CRemove m \<and> before c = Some (view_of m)) \<and> held_before (any_of Ps) c" if "map_of r REMOVE = Some d"
    using branch_change_cases [OF css fd(1) [OF that]] by cases (use fd(2) [OF that] type in auto)
  have one_side: "\<not> (held_before P c \<and> held_after P c)" if "map_of r (type_of_change c) = None" "P \<in> set Ps" for P
    using branch_changes(2) [OF css that(2)] fn [OF that(1)] by (metis same_change_def)
  show "\<not> held_after (any_of Ps) c" if "map_of r (type_of_change c) = None" "map_of r ADD = None"
    using branch_changes(4) [OF css] fn [OF that(2)] one_side [OF that(1)] unfolding held_any by (metis type_of_change.simps(1))
  show "\<not> held_before (any_of Ps) c" if "map_of r (type_of_change c) = None" "map_of r REMOVE = None"
    using branch_changes(3) [OF css] fn [OF that(2)] one_side [OF that(1)] unfolding held_any by (metis type_of_change.simps(2))
  show "t = ADD \<or> t = REMOVE \<or> t = type_of_change c" if "t \<in> set (map fst r)"
  proof -
    from that obtain d where "d \<in> set (concat css)" "t = type_of_change d" unfolding collapsedD(5) [OF r] by blast
    then show ?thesis using branch_change_cases [OF css] by (metis type_of_change.simps(1,2))
  qed
qed

lemma accumulated_edit:
  assumes css: "list_all2 (\<lambda>P. turns P (CEdit n old)) Ps css" and ne: "concat css \<noteq> []"
  shows "\<exists>ds. pushAccumulatedChanges keep_first (\<lambda>c. c) (concat css) EDIT = Inr ds \<and> turns (any_of Ps) (CEdit n old) ds"
proof -
  let ?c = "CEdit n old"
  obtain r where r: "collapsed EDIT (concat css) r" using collapsed_candidates [OF css] by auto
  note facts = candidate_facts [OF css, unfolded type_of_change.simps, OF r, simplified]
  have types: "list_all (\<lambda>t. t = ADD \<or> t = REMOVE \<or> t = EDIT) (map fst r)"
    unfolding list_all_iff using facts(6) by auto
  have some: "map_of r EDIT \<noteq> None \<or> map_of r ADD \<noteq> None \<or> map_of r REMOVE \<noteq> None"
  proof -
    obtain d where "d \<in> set (concat css)" using ne by (cases "concat css") auto
    from collapsedD(3) [OF r _ this] branch_change_cases [OF css this] show ?thesis by (metis type_of_change.simps)
  qed
  show ?thesis
    unfolding collapsed_push [OF r ne]
  proof (cases "map_of r EDIT")
    case (Some d)
    then have "push_candidates keep_first (\<lambda>c. c) r EDIT = Inr [d]" using types by (auto split: option.split)
    with facts(1) [OF Some] show "\<exists>ds. push_candidates keep_first (\<lambda>c. c) r EDIT = Inr ds \<and> turns (any_of Ps) ?c ds"
      by (simp add: turns_def)
  next
    case None
    show "\<exists>ds. push_candidates keep_first (\<lambda>c. c) r EDIT = Inr ds \<and> turns (any_of Ps) ?c ds"
    proof (cases "map_of r ADD")
      case nadd: None
      with some None obtain e where e: "map_of r REMOVE = Some e" by blast
      with None nadd types have "push_candidates keep_first (\<lambda>c. c) r EDIT = Inr [e]" by (simp add: add_or_remove_def)
      with facts(3) [OF e] facts(4) [OF None nadd] show ?thesis by (auto simp: turns_def)
    next
      case a: (Some e)
      show ?thesis
      proof (cases "map_of r REMOVE")
        case nrem: None
        with None a types have "push_candidates keep_first (\<lambda>c. c) r EDIT = Inr [e]" by (simp add: add_or_remove_def)
        with facts(2) [OF a] facts(5) [OF None nrem] show ?thesis by (auto simp: turns_def)
      next
        case (Some f)
        with None a types have "push_candidates keep_first (\<lambda>c. c) r EDIT = Inr [CEdit (change_node e) (change_node f)]" by simp
        with facts(2) [OF a] facts(3) [OF Some] show ?thesis by (auto simp: turns_def same_change_def)
      qed
    qed
  qed
qed

lemma accumulated_child:
  assumes css: "list_all2 (\<lambda>P. turns P (CChild n rel cc)) Ps css" and ne: "concat css \<noteq> []"
    and one: "sorted_wrt (\<lambda>P Q. held_before P (CChild n rel cc) = held_after P (CChild n rel cc) \<or>
      held_before Q (CChild n rel cc) = held_after Q (CChild n rel cc)) Ps"
  shows "\<exists>ds. pushAccumulatedChanges keep_first (\<lambda>c. c) (concat css) CHILD = Inr ds \<and> turns (any_of Ps) (CChild n rel cc) ds"
proof -
  let ?c = "CChild n rel cc"
  obtain r where r: "collapsed CHILD (concat css) r" using collapsed_candidates [OF css one] by auto
  note facts = candidate_facts [OF css, unfolded type_of_change.simps, OF r, simplified]
  have types: "list_all (\<lambda>t. t = ADD \<or> t = REMOVE \<or> t = CHILD) (map fst r)"
    unfolding list_all_iff using facts(6) by auto
  have few: "length (filter (\<lambda>d. type_of_change d \<noteq> CHILD) (concat css)) \<le> 1"
    by (rule few_changed [OF css _ one]) simp
  have not_both: "map_of r ADD = None \<or> map_of r REMOVE = None"
  proof (rule ccontr)
    assume "\<not> ?thesis"
    then obtain d e where de: "map_of r ADD = Some d" "map_of r REMOVE = Some e" by auto
    then have "d \<in> set (filter (\<lambda>d. type_of_change d \<noteq> CHILD) (concat css))"
      "e \<in> set (filter (\<lambda>d. type_of_change d \<noteq> CHILD) (concat css))"
      using collapsedD(1,2) [OF r] by fastforce+
    moreover have "d \<noteq> e" using collapsedD(2) [OF r de(1)] collapsedD(2) [OF r de(2)] by auto
    ultimately have "card {d, e} \<le> length (filter (\<lambda>d. type_of_change d \<noteq> CHILD) (concat css))"
      by (intro le_trans [OF card_mono card_length]) auto
    with few \<open>d \<noteq> e\<close> show False by simp
  qed
  have "length r \<le> 2"
  proof -
    have small: "card K \<le> 2" if K: "\<And>t. t \<in> K \<Longrightarrow> t = ADD \<or> t = REMOVE \<or> t = CHILD" "ADD \<notin> K \<or> REMOVE \<notin> K" for K
    proof -
      have "K \<subseteq> (if ADD \<in> K then {CHILD, ADD} else {CHILD, REMOVE})" using K(1) K(2) by (intro subsetI) (metis insert_iff)
      then have "card K \<le> card (if ADD \<in> K then {CHILD, ADD} else {CHILD, REMOVE})" by (rule card_mono [rotated]) simp
      then show ?thesis by (simp split: if_splits)
    qed
    have "card (set (map fst r)) \<le> 2"
      by (rule small) (use facts(6) not_both in \<open>auto simp: map_of_eq_None_iff\<close>)
    then show ?thesis using distinct_card [OF collapsedD(4) [OF r]] by simp
  qed
  obtain d where d: "d \<in> set (concat css)" using ne by (cases "concat css") auto
  have some: "map_of r CHILD \<noteq> None \<or> map_of r ADD \<noteq> None \<or> map_of r REMOVE \<noteq> None"
    using collapsedD(3) [OF r _ d] branch_change_cases [OF css d] by (metis type_of_change.simps)
  show ?thesis
    unfolding collapsed_push [OF r ne]
  proof (cases "map_of r CHILD")
    case (Some e)
    then have "push_candidates keep_first (\<lambda>c. c) r CHILD = Inr [e]" using types \<open>length r \<le> 2\<close> by simp
    with facts(1) [OF Some] show "\<exists>ds. push_candidates keep_first (\<lambda>c. c) r CHILD = Inr ds \<and> turns (any_of Ps) ?c ds"
      by (simp add: turns_def)
  next
    case None
    show "\<exists>ds. push_candidates keep_first (\<lambda>c. c) r CHILD = Inr ds \<and> turns (any_of Ps) ?c ds"
    proof (cases "map_of r ADD")
      case nadd: None
      with some None obtain e where e: "map_of r REMOVE = Some e" by blast
      with None nadd types \<open>length r \<le> 2\<close> have "push_candidates keep_first (\<lambda>c. c) r CHILD = Inr [e]"
        by (simp add: add_or_remove_def)
      with facts(3) [OF e] facts(4) [OF None nadd] show ?thesis by (auto simp: turns_def)
    next
      case a: (Some e)
      with not_both have nrem: "map_of r REMOVE = None" by simp
      with None a types \<open>length r \<le> 2\<close> have "push_candidates keep_first (\<lambda>c. c) r CHILD = Inr [e]"
        by (simp add: add_or_remove_def)
      with facts(2) [OF a] facts(5) [OF None nrem] show ?thesis by (auto simp: turns_def)
    qed
  qed
qed

lemma pushAccumulated_turns:
  assumes css: "list_all2 (\<lambda>P. turns P c) Ps css"
    and child: "type_of_change c = CHILD \<Longrightarrow>
      sorted_wrt (\<lambda>P Q. held_before P c = held_after P c \<or> held_before Q c = held_after Q c) Ps"
  shows "\<exists>ds. pushAccumulatedChanges keep_first (\<lambda>c. c) (concat css) (type_of_change c) = Inr ds \<and> turns (any_of Ps) c ds"
proof (cases "concat css = []")
  case True
  then have "\<not> held_before (any_of Ps) c \<and> \<not> held_after (any_of Ps) c"
    unfolding held_any using branch_changes(2-4) [OF css] by (metis empty_iff list.set(1))
  with True show ?thesis by (simp add: pushAccumulatedChanges_def turns_def)
next
  case False
  then show ?thesis
    using css child accumulated_add accumulated_remove accumulated_edit accumulated_child by (cases c) simp_all
qed

subsection \<open>Pushing through a chain\<close>

text \<open>The branches of a \<open>FanOut\<close> ask for different relationships, so a change of a child concerns one of them.\<close>

lemma branch_unconcerned:
  assumes "rel \<notin> set (names_in b)"
  shows "held_before (\<lambda>v. list_all (passes v) b) (CChild n rel cc) = held_after (\<lambda>v. list_all (passes v) b) (CChild n rel cc)"
proof -
  have "list_all (passes (node_row n, (sizes n)(rel := map_option (undo_size cc) (sizes n rel)))) b =
      list_all (passes (view_of n)) b"
  proof (rule chain_passes_cong)
    fix name assume "name \<in> set (names_in b)"
    with assms have "name \<noteq> rel" by blast
    then show "snd (node_row n, (sizes n)(rel := map_option (undo_size cc) (sizes n rel))) name = snd (view_of n) name"
      by (simp add: view_of_def)
  qed (simp add: view_of_def)
  then show ?thesis by (simp add: held_before_def)
qed

lemma branches_apart:
  assumes "distinct (concat (map names_in bs))"
  shows "sorted_wrt (\<lambda>P Q. held_before P (CChild n rel cc) = held_after P (CChild n rel cc) \<or>
    held_before Q (CChild n rel cc) = held_after Q (CChild n rel cc)) (map (\<lambda>b v. list_all (passes v) b) bs)"
  using assms
proof (induction bs)
  case (Cons b bs)
  show ?case
  proof (cases "rel \<in> set (names_in b)")
    case True
    with Cons.prems have "\<forall>b' \<in> set bs. rel \<notin> set (names_in b')" by auto
    with Cons branch_unconcerned show ?thesis by (auto simp del: held_simps)
  next
    case False
    with Cons branch_unconcerned [OF False] show ?thesis by (auto simp del: held_simps)
  qed
qed simp

fun in_push :: "filter_op list \<Rightarrow> filter_state \<Rightarrow> filter_state" where
  "in_push [] st = st"
| "in_push (ExistsOp i e # ops) st = in_push ops (st(i := (st i)\<lparr>ex_inPush := True\<rparr>))"
| "in_push (x # ops) st = in_push ops st"

definition idle :: "filter_op list \<Rightarrow> filter_state \<Rightarrow> bool" where
  "idle ops st \<longleftrightarrow> (\<forall>i \<in> set (ids_in ops). \<not> ex_inPush (st i))"

lemma turns_cong: "(\<And>v. P v = Q v) \<Longrightarrow> turns P c cs = turns Q c cs"
  by (rule arg_cong [of P Q "\<lambda>P. turns P c cs"]) (rule ext)

lemma in_FanOp:
  "names_in (FanOp bs # ops) = concat (map names_in bs) @ names_in ops"
  "ids_in (FanOp bs # ops) = concat (map ids_in bs) @ ids_in ops"
  by (induction bs) auto

lemma chain_push_spec:
  "good ops c \<Longrightarrow> distinct (names_in ops) \<Longrightarrow> distinct (ids_in ops) \<Longrightarrow> idle ops st \<Longrightarrow>
     \<exists>evs. chain_push ops st c = Inr evs \<and> turns (\<lambda>v. list_all (passes v) ops) c (map fst evs) \<and>
       (\<forall>ev \<in> set evs. snd ev = in_push ops st)"
  "\<forall>c \<in> set cs. good ops c \<Longrightarrow> distinct (names_in ops) \<Longrightarrow> distinct (ids_in ops) \<Longrightarrow> idle ops st \<Longrightarrow>
     \<exists>evs dss. push_each_change ops st cs = Inr evs \<and> map fst evs = concat dss \<and>
       list_all2 (turns (\<lambda>v. list_all (passes v) ops)) cs dss \<and> (\<forall>ev \<in> set evs. snd ev = in_push ops st)"
  "\<forall>b \<in> set bs. good b c \<and> distinct (names_in b) \<and> distinct (ids_in b) \<and> idle b st \<Longrightarrow>
     \<exists>css. push_branches bs st c = Inr (concat css) \<and> list_all2 (\<lambda>b. turns (\<lambda>v. list_all (passes v) b) c) bs css"
proof (induction ops st c and ops st cs and bs st c rule: chain_push_push_each_change_push_branches.induct)
  case (1 st c)
  show ?case by (cases c) (auto simp: turns_def held_before_def)
next
  case (2 p rest st c)
  from filterPush_turns [OF "2.prems"(1)] obtain cs where
    cs: "filterPush c (Some p) = Inr cs" "turns (\<lambda>v. passes v (FilterOp p)) c cs" by blast
  have "\<forall>d \<in> set cs. good rest d" using good_turned [OF good_Cons [OF "2.prems"(1)] cs(2)] by blast
  from "2.IH" [OF cs(1) this] "2.prems" obtain evs dss where
    "push_each_change rest st cs = Inr evs" "map fst evs = concat dss"
    "list_all2 (turns (\<lambda>v. list_all (passes v) rest)) cs dss" "\<forall>ev \<in> set evs. snd ev = in_push rest st"
    by (auto simp: idle_def)
  with cs turns_both [OF cs(2)] show ?case by simp
next
  case (3 i e rest st c)
  have idle: "\<not> ex_inPush (st i)" using "3.prems"(4) by (simp add: idle_def)
  let ?st = "st(i := (st i)\<lparr>ex_inPush := True\<rparr>)"
  from exists_push_turns [OF "3.prems"(1)] obtain cs where
    cs: "exists_push e c = Inr cs" "turns (\<lambda>v. passes v (ExistsOp i e)) c cs" by blast
  have good: "\<forall>d \<in> set cs. good rest d" using good_turned [OF good_Cons [OF "3.prems"(1)] cs(2)] by blast
  have distinct: "distinct (names_in rest)" "distinct (ids_in rest)" using "3.prems"(2,3) by simp_all
  have idle': "idle rest ?st" using "3.prems"(3,4) by (force simp: idle_def)
  obtain evs dss where
    "push_each_change rest ?st cs = Inr evs" "map fst evs = concat dss"
    "list_all2 (turns (\<lambda>v. list_all (passes v) rest)) cs dss" "\<forall>ev \<in> set evs. snd ev = in_push rest ?st"
    using "3.IH" [OF idle cs(1) good distinct idle'] by blast
  with cs idle turns_both [OF cs(2)] show ?case by simp
next
  case (4 bs rest st c)
  let ?P = "map (\<lambda>b v. list_all (passes v) b) bs"
  have names: "distinct (concat (map names_in bs))" using "4.prems"(2) unfolding in_FanOp(1) by simp
  have "distinct (names_in b) \<and> distinct (ids_in b) \<and> idle b st" if "b \<in> set bs" for b
  proof (intro conjI)
    show "distinct (names_in b)" using names that by (simp add: distinct_concat_iff)
    have "distinct (concat (map ids_in bs))" using "4.prems"(3) unfolding in_FanOp(2) by simp
    with that show "distinct (ids_in b)" by (simp add: distinct_concat_iff)
    show "idle b st" using "4.prems"(4) that unfolding idle_def in_FanOp(2) by auto
  qed
  then obtain css where css: "push_branches bs st c = Inr (concat css)"
    "list_all2 (\<lambda>b. turns (\<lambda>v. list_all (passes v) b) c) bs css"
    using "4.IH"(1) good_branch [OF "4.prems"(1)] by blast
  then have "list_all2 (\<lambda>P. turns P c) ?P css" by (simp add: list_all2_map1)
  moreover have "sorted_wrt (\<lambda>P Q. held_before P c = held_after P c \<or> held_before Q c = held_after Q c) ?P"
    if "type_of_change c = CHILD"
    using that branches_apart [OF names] by (cases c) (simp_all del: held_simps)
  ultimately obtain ds where ds: "pushAccumulatedChanges keep_first (\<lambda>c. c) (concat css) (type_of_change c) = Inr ds"
    "turns (any_of ?P) c ds"
    using pushAccumulated_turns by blast
  from css(2) have "bs = [] \<Longrightarrow> concat css = []" by simp
  with ds(1) have done_pushing: "fanOutDonePushingToAllBranches bs (concat css) (type_of_change c) = Inr ds"
    by (auto simp: fanOutDonePushingToAllBranches_def pushAccumulatedChanges_def)
  have "turns (\<lambda>v. passes v (FanOp bs)) c ds"
    using ds(2) by (rule turns_cong [THEN iffD1, rotated]) (auto simp: any_of_def list_ex_iff)
  note ds = done_pushing this
  have "\<forall>d \<in> set ds. good rest d" using good_turned [OF good_Cons [OF "4.prems"(1)] ds(2)] by blast
  moreover have "distinct (names_in rest)" "distinct (ids_in rest)" using "4.prems"(2,3) unfolding in_FanOp by simp_all
  moreover have "idle rest st" using "4.prems"(4) unfolding idle_def in_FanOp(2) by simp
  ultimately obtain evs dss where
    "push_each_change rest st ds = Inr evs" "map fst evs = concat dss"
    "list_all2 (turns (\<lambda>v. list_all (passes v) rest)) ds dss" "\<forall>ev \<in> set evs. snd ev = in_push rest st"
    using "4.IH"(2) [OF css(1) ds(1)] by blast
  with css ds turns_both [OF ds(2)] show ?case by simp
next
  case (6 ops st c cs)
  from "6.IH"(1) "6.prems" obtain evs where evs: "chain_push ops st c = Inr evs"
    "turns (\<lambda>v. list_all (passes v) ops) c (map fst evs)" "\<forall>ev \<in> set evs. snd ev = in_push ops st" by auto
  from "6.IH"(2) [OF evs(1)] "6.prems" obtain evs' dss where "push_each_change ops st cs = Inr evs'"
    "map fst evs' = concat dss" "list_all2 (turns (\<lambda>v. list_all (passes v) ops)) cs dss"
    "\<forall>ev \<in> set evs'. snd ev = in_push ops st" by auto
  with evs show ?case by (intro exI [of _ "evs @ evs'"] exI [of _ "map fst evs # dss"]) auto
next
  case (8 b bs st c)
  from "8.IH"(1) "8.prems" obtain evs where evs: "chain_push b st c = Inr evs"
    "turns (\<lambda>v. list_all (passes v) b) c (map fst evs)" by auto
  from "8.IH"(2) [OF evs(1)] "8.prems" obtain css where "push_branches bs st c = Inr (concat css)"
    "list_all2 (\<lambda>b. turns (\<lambda>v. list_all (passes v) b) c) bs css" by auto
  with evs show ?case by (intro exI [of _ "map fst evs # css"]) auto
qed auto

end
