(* ===== verification/FilterClaims.thy ===== *)
theory FilterClaims
  imports FilterPush JoinClaims
begin

section \<open>The claims about filter graphs\<close>

text \<open>
  The graph that \<open>applyFilter\<close> builds for a condition lets exactly the nodes pass that satisfy it; with that,
  what a fetch and a push through the graph do, and where the cache of \<open>Exists\<close> goes wrong.
\<close>

subsection \<open>The meaning of a condition\<close>

text \<open>A relationship with limit 0 is not joined: nothing exists in it.\<close>

fun cond_holds :: "utf8 \<Rightarrow> (literal_value \<Rightarrow> string) \<Rightarrow> condition \<Rightarrow> node_view \<Rightarrow> bool" where
  "cond_holds u8 str (And cs) v = list_all (\<lambda>c. cond_holds u8 str c v) cs"
| "cond_holds u8 str (Or cs) v = list_ex (\<lambda>c. cond_holds u8 str c v) cs"
| "cond_holds u8 str (Correlated rel eop flp sc) v =
     ((if ast_limit (subquery rel) = Some 0 then False
       else case ast_alias (subquery rel) of None \<Rightarrow> False | Some a \<Rightarrow> has_children (snd v) a) = (eop = EXISTS))"
| "cond_holds u8 str c v = (run_predicate u8 str c (fst v) = Inr True)"

text \<open>No comparison throws on the row.\<close>

fun comparable :: "utf8 \<Rightarrow> (literal_value \<Rightarrow> string) \<Rightarrow> row \<Rightarrow> condition \<Rightarrow> bool" where
  "comparable u8 str row (And cs) = list_all (comparable u8 str row) cs"
| "comparable u8 str row (Or cs) = list_all (comparable u8 str row) cs"
| "comparable u8 str row (Correlated rel eop flp sc) = True"
| "comparable u8 str row c = (\<not> isl (run_predicate u8 str c row))"

fun aliases :: "condition \<Rightarrow> string list" where
  "aliases (And cs) = concat (map aliases cs)"
| "aliases (Or cs) = concat (map aliases cs)"
| "aliases (Correlated rel eop flp sc) = (if ast_limit (subquery rel) = Some 0 then [] else
     case ast_alias (subquery rel) of None \<Rightarrow> [] | Some a \<Rightarrow> [a])"
| "aliases (Simple op l r) = []"

lemma no_subquery_aliases: "isNotAndDoesNotContainSubquery c \<Longrightarrow> aliases c = []"
  by (induction c rule: isNotAndDoesNotContainSubquery.induct) (auto simp: list_all_iff)

lemma all_predicates_holds:
  "list_all2 (\<lambda>c p. p row = Inr (h c)) cs ps \<Longrightarrow> all_predicates ps row = Inr (list_all h cs)"
  by (induction rule: list_all2_induct) auto

lemma any_predicate_holds:
  "list_all2 (\<lambda>c p. p row = Inr (h c)) cs ps \<Longrightarrow> any_predicate ps row = Inr (list_ex h cs)"
  by (induction rule: list_all2_induct) auto

lemma createPredicate_holds:
  "createPredicate u8 str c = Inr p \<Longrightarrow> isNotAndDoesNotContainSubquery c \<Longrightarrow> comparable u8 str (fst v) c \<Longrightarrow>
     p (fst v) = Inr (cond_holds u8 str c v)"
proof (induction c arbitrary: p rule: isNotAndDoesNotContainSubquery.induct)
  case (2 op l r)
  then obtain b where "p (fst v) = Inr b" by (cases "p (fst v)") (auto simp: run_predicate_def)
  with 2 show ?case by (simp add: run_predicate_def)
next
  case (3 cs)
  then obtain ps where ps: "list_all2 (\<lambda>c p. createPredicate u8 str c = Inr p) cs ps" "p = all_predicates ps"
    by (auto simp: bind_result_eq_Inr traverse_eq_Inr)
  have "list_all2 (\<lambda>c p. p (fst v) = Inr (cond_holds u8 str c v)) cs ps"
    using ps(1) by (rule list.rel_mono_strong) (use 3 in \<open>auto simp: list_all_iff\<close>)
  from all_predicates_holds [OF this] ps(2) show ?case by simp
next
  case (4 cs)
  then obtain ps where ps: "list_all2 (\<lambda>c p. createPredicate u8 str c = Inr p) cs ps" "p = any_predicate ps"
    by (auto simp: bind_result_eq_Inr traverse_eq_Inr)
  have "list_all2 (\<lambda>c p. p (fst v) = Inr (cond_holds u8 str c v)) cs ps"
    using ps(1) by (rule list.rel_mono_strong) (use 4 in \<open>auto simp: list_all_iff\<close>)
  from any_predicate_holds [OF this] ps(2) show ?case by simp
qed simp

lemma cond_holds_unfold_other:
  "(list_ex (\<lambda>c. cond_holds u8 str c v) (filter (\<lambda>c. \<not> isNotAndDoesNotContainSubquery c) cs) \<or>
    list_ex (\<lambda>c. cond_holds u8 str c v) (filter isNotAndDoesNotContainSubquery cs)) \<longleftrightarrow> list_ex (\<lambda>c. cond_holds u8 str c v) cs"
  by (auto simp: list_ex_iff)

lemma aliases_subqueries:
  "concat (map aliases (filter (\<lambda>c. \<not> isNotAndDoesNotContainSubquery c) cs)) = concat (map aliases cs)"
  by (induction cs) (auto simp: no_subquery_aliases)

text \<open>What \<open>applyFilter\<close> builds: the graph asks for the relationships of the condition, in its order.\<close>

definition built :: "utf8 \<Rightarrow> (literal_value \<Rightarrow> string) \<Rightarrow> condition \<Rightarrow> nat \<Rightarrow> filter_op list \<Rightarrow> nat \<Rightarrow> bool" where
  "built u8 str c i ops j \<longleftrightarrow> names_in ops = aliases c \<and> i \<le> j \<and> ids_in ops = [i..<j] \<and> list_all fanned ops \<and>
     (\<forall>v. comparable u8 str (fst v) c \<longrightarrow> list_all (passes v) ops = cond_holds u8 str c v \<and>
       ((\<forall>name \<in> set (aliases c). snd v name \<noteq> None) \<longrightarrow> list_all (readable v) ops))"

lemma built_filter:
  assumes "createPredicate u8 str c = Inr p" "isNotAndDoesNotContainSubquery c"
  shows "built u8 str c i [FilterOp p] i"
  using createPredicate_holds [OF assms] no_subquery_aliases [OF assms(2)] by (simp add: built_def)

lemma upt_join: "i \<le> k \<Longrightarrow> k \<le> j \<Longrightarrow> [i..<k] @ [k..<j] = [i..<j]"
  using upt_add_eq_append [of i k "j - k"] by simp

lemma applyFilter_built:
  "applyFilter u8 str schema c i = Inr (ops, j) \<Longrightarrow> built u8 str c i ops j"
  "applyAnd u8 str schema cs i = Inr (ops, j) \<Longrightarrow> built u8 str (And cs) i ops j"
  "applyBranches u8 str schema cs i = Inr (bs, j) \<Longrightarrow> i \<le> j \<and> concat (map ids_in bs) = [i..<j] \<and>
     (\<forall>b \<in> set bs. list_all fanned b) \<and> length bs = length cs \<and> concat (map names_in bs) = concat (map aliases cs) \<and>
     (\<forall>v. list_all (comparable u8 str (fst v)) cs \<longrightarrow> list_ex (list_all (passes v)) bs = list_ex (\<lambda>c. cond_holds u8 str c v) cs \<and>
       ((\<forall>name \<in> set (concat (map aliases cs)). snd v name \<noteq> None) \<longrightarrow> list_all (list_all (readable v)) bs))"
proof (induction u8 str schema c i and u8 str schema cs i and u8 str schema cs i
    arbitrary: ops j and ops j and bs j rule: applyFilter_applyAnd_applyBranches.induct)
  case (2 u8 str schema cs i)
  let ?sub = "filter (\<lambda>c. \<not> isNotAndDoesNotContainSubquery c) cs" and ?other = "filter isNotAndDoesNotContainSubquery cs"
  have group: "groupSubqueryConditions cs = (?sub, ?other)" by (simp add: groupSubqueryConditions_def)
  have plain: "isNotAndDoesNotContainSubquery (Or ?other)" by (simp add: list_all_iff)
  show ?case
  proof (cases "?sub = []")
    case True
    then have other: "?other = cs" by (simp add: filter_empty_conv filter_id_conv)
    with "2.prems" True obtain p where "createPredicate u8 str (Or cs) = Inr p" "ops = [FilterOp p]" "j = i"
      by (auto simp: group bind_result_eq_Inr simp del: createPredicate.simps)
    with built_filter [of u8 str "Or cs" p i] plain other show ?thesis by simp
  next
    case False
    with "2.prems" obtain bs k where bs: "applyBranches u8 str schema ?sub i = Inr (bs, k)"
      and rest: "(if ?other = [] then Inr ([FanOp bs], k)
        else bind_result (createPredicate u8 str (Or ?other)) (\<lambda>p. Inr ([FanOp (bs @ [[FilterOp p]])], k))) = Inr (ops, j)"
      by (auto simp: group bind_result_eq_Inr simp del: createPredicate.simps)
    note sub = "2.IH" [OF group [symmetric] False bs]
    then have "bs \<noteq> []" using False by auto
    show ?thesis
    proof (cases "?other = []")
      case True
      with rest have out: "ops = [FanOp bs]" "j = k" by simp_all
      have "?sub = cs" using True by (simp add: filter_empty_conv filter_id_conv)
      with sub \<open>bs \<noteq> []\<close> show ?thesis
        unfolding built_def out in_FanOp
        by (simp add: list_all_iff [of fanned] list_all_iff [of "list_all fanned"])
    next
      case False
      with rest obtain p where p: "createPredicate u8 str (Or ?other) = Inr p" and out: "ops = [FanOp (bs @ [[FilterOp p]])]" "j = k"
        by (auto simp: bind_result_eq_Inr simp del: createPredicate.simps)
      have holds: "p (fst v) = Inr (list_ex (\<lambda>c. cond_holds u8 str c v) ?other)" if "list_all (comparable u8 str (fst v)) cs" for v
        using createPredicate_holds [OF p plain, of v] that by (simp add: list_all_iff)
      have "list_all (comparable u8 str row) ?sub" if "list_all (comparable u8 str row) cs" for row
        using that by (simp add: list_all_iff)
      with sub \<open>bs \<noteq> []\<close> holds cond_holds_unfold_other [of u8 str _ cs] show ?thesis
        unfolding built_def out in_FanOp
        by (simp add: aliases_subqueries list_all_iff [of fanned] list_all_iff [of "list_all fanned"])
    qed
  qed
next
  case (3 u8 str schema rel eop flp sc i)
  show ?case
  proof (cases "ast_limit (subquery rel) = Some 0")
    case True
    with 3 show ?thesis by (cases eop) (auto simp: built_def applyCorrelatedSubqueryCondition_def)
  next
    case False
    with 3 obtain a e where a: "ast_alias (subquery rel) = Some a"
      and e: "new_exists schema a (parentField rel) eop = Inr e" and out: "ops = [ExistsOp i e]" "j = Suc i"
      by (auto simp: applyCorrelatedSubqueryCondition_def bind_result_eq_Inr split: option.splits)
    from e have "ex_relationshipName e = a" "ex_not e = (eop = NOT_EXISTS)"
      by (auto simp: new_exists_def split: if_splits)
    with False a out show ?thesis by (cases eop) (auto simp: built_def)
  qed
next
  case (4 u8 str schema op l r i)
  then show ?case
    using built_filter [of u8 str "Simple op l r" _ i]
    by (auto simp: applySimpleCondition_def bind_result_eq_Inr simp del: createPredicate.simps)
next
  case (6 u8 str schema c cs i)
  then obtain ops1 k ops2 where one: "applyFilter u8 str schema c i = Inr (ops1, k)"
    and two: "applyAnd u8 str schema cs k = Inr (ops2, j)" and out: "ops = ops1 @ ops2"
    by (auto simp: bind_result_eq_Inr)
  from "6.IH"(1) [OF one] "6.IH"(2) [OF one refl two] show ?case
    unfolding built_def out by (auto simp: upt_join ball_Un)
next
  case (8 u8 str schema c cs i)
  then obtain ops1 k bs2 where one: "applyFilter u8 str schema c i = Inr (ops1, k)"
    and two: "applyBranches u8 str schema cs k = Inr (bs2, j)" and out: "bs = ops1 # bs2"
    by (auto simp: bind_result_eq_Inr)
  from "8.IH"(1) [OF one] "8.IH"(2) [OF one refl two] show ?case
    unfolding built_def out by (auto simp: upt_join ball_Un)
qed (auto simp: built_def)

subsection \<open>Fetches and pushes\<close>

text \<open>C7: A fetch through the filter graph of a condition returns, in their order, the nodes of the input that
  satisfy the condition, provided no comparison throws on their rows and they have the relationships of the
  condition, and provided those nodes that an \<open>Exists\<close> would answer from its cache agree on the existence of
  children; no assertion fails and the caches are empty again at the end.\<close>

theorem filter_fetch_correct:
  assumes "applyFilter u8 str schema c i = Inr (ops, j)" and "input req = Inr nodes"
    and "\<forall>nd \<in> set (skipYields nodes). comparable u8 str (node_row nd) c \<and> (\<forall>name \<in> set (aliases c). sizes nd name \<noteq> None)"
    and "\<forall>ie \<in> set (exists_in ops). caching st ie \<longrightarrow> coherent (set (skipYields nodes)) (snd ie) \<and> ex_cache (st (fst ie)) = []"
  shows "\<exists>st'. filter_fetch ops input st req = Inr (keep_items (\<lambda>nd. cond_holds u8 str c (view_of nd)) nodes, st') \<and>
    (\<forall>k. ex_inPush (st' k) = ex_inPush (st k)) \<and> (\<forall>k. i \<le> k \<and> k < j \<longrightarrow> ex_cache (st' k) = [])"
proof -
  note built = applyFilter_built(1) [OF assms(1), unfolded built_def]
  have view: "list_all (passes (view_of nd)) ops = cond_holds u8 str c (view_of nd) \<and> list_all (readable (view_of nd)) ops"
    if "nd \<in> set (skipYields nodes)" for nd
    using built assms(3) that by (simp add: view_of_def)
  then have keep: "keep_items (\<lambda>nd. list_all (passes (view_of nd)) ops) nodes = keep_items (\<lambda>nd. cond_holds u8 str c (view_of nd)) nodes"
    by (induction nodes rule: skipYields.induct) auto
  have ids: "distinct (ids_in ops)" "set (ids_in ops) = {i..<j}" "list_all fanned ops" using built by simp_all
  have readable: "\<forall>nd \<in> set (skipYields nodes). list_all (readable (view_of nd)) ops" using view by blast
  from filter_fetch_spec [where input = input and req = req, OF assms(2) ids(1,3) readable assms(4)]
  obtain st' where "filter_fetch ops input st req = Inr (keep_items (\<lambda>nd. list_all (passes (view_of nd)) ops) nodes, st')"
    "\<forall>k. ex_inPush (st' k) = ex_inPush (st k)" "\<forall>k \<in> {i..<j}. ex_cache (st' k) = []"
    unfolding ids(2) by blast
  then show ?thesis unfolding keep by auto
qed

text \<open>C6: A push through the filter graph of a condition turns a change into what it is for an output that has
  the nodes that satisfy the condition: the change itself when the node satisfies it before and after, a
  removal or an addition when it does so only before or only after, else nothing. This holds however the
  branches of an \<open>OR\<close> split the change and whichever relationship gains its first or loses its last child;
  no assertion fails, and only the \<open>Exists\<close> operators outside an \<open>OR\<close> are in their push at that time.\<close>

theorem filter_push_correct:
  assumes "applyFilter u8 str schema c i = Inr (ops, j)" and "distinct (aliases c)" and "\<forall>k. \<not> ex_inPush (st k)"
    and "\<forall>v. before ch = Some v \<or> after ch = Some v \<longrightarrow>
      comparable u8 str (fst v) c \<and> (\<forall>name \<in> set (aliases c). snd v name \<noteq> None)"
    and "type_of_change ch = EDIT \<longrightarrow> (\<forall>name \<in> set (aliases c).
      has_children (snd (the (before ch))) name = has_children (snd (the (after ch))) name)"
    and "\<forall>rel m. child_of ch = Some (rel, CAdd m) \<longrightarrow> snd (the (after ch)) rel \<noteq> Some 0"
  shows "\<exists>evs. chain_push ops st ch = Inr evs \<and> turns (cond_holds u8 str c) ch (map fst evs) \<and>
    (\<forall>ev \<in> set evs. snd ev = in_push ops st)"
proof -
  note built = applyFilter_built(1) [OF assms(1), unfolded built_def]
  have "good ops ch" using assms(4-6) built unfolding good_def by auto
  moreover have "distinct (names_in ops)" "distinct (ids_in ops)" "idle ops st" using built assms(2,3) by (simp_all add: idle_def)
  ultimately obtain evs where evs: "chain_push ops st ch = Inr evs"
    "turns (\<lambda>v. list_all (passes v) ops) ch (map fst evs)" "\<forall>ev \<in> set evs. snd ev = in_push ops st"
    using chain_push_spec(1) by blast
  have "held_before (\<lambda>v. list_all (passes v) ops) ch = held_before (cond_holds u8 str c) ch"
    "held_after (\<lambda>v. list_all (passes v) ops) ch = held_after (cond_holds u8 str c) ch"
    using built assms(4) by (auto simp: held_before_def held_after_def split: option.split)
  with evs show ?thesis unfolding turns_def by auto
qed

subsection \<open>A sample\<close>

text \<open>The rows with children, or with the number 7: an \<open>OR\<close> whose first branch is an \<open>Exists\<close> on \<open>foo\<close>.\<close>

definition with_children :: condition where
  "with_children = Correlated (Subquery [''foo''] [''foo''] (AST None ''t'' (Some ''children'') None None None None None) None None)
     EXISTS None None"

definition or_seven :: condition where
  "or_seven = Or [with_children, Simple OpEq (PColumn ''id'') (PLiteral (LScalar (JNum 7)))]"

definition joined_schema :: source_schema where
  "joined_schema = Schema (conn_compareRows utf8_lex sample_conn) [''id''] (Some [(''id'', Desc)]) [(''children'', sample_schema)] False"

definition children_exist :: exists_conf where
  "children_exist = \<lparr>ex_relationshipName = ''children'', ex_not = False, ex_parentJoinKey = [''foo''], ex_noSizeReuse = False\<rparr>"

definition is_seven :: row_predicate where
  "is_seven = any_predicate [\<lambda>r. let lhs = get_field r ''id'' in
     if is_nullish lhs then Inr False else Inr (lhs = JNum 7)]"

definition at_rest :: filter_state where
  "at_rest = (\<lambda>_. \<lparr>ex_cache = [], ex_inPush = False\<rparr>)"

lemma sample_graph:
  "applyFilter utf8_lex sample_str joined_schema or_seven 0 = Inr ([FanOp [[ExistsOp 0 children_exist], [FilterOp is_seven]]], 1)"
  "applyFilter utf8_lex sample_str joined_schema with_children 0 = Inr ([ExistsOp 0 children_exist], 1)"
  by (simp_all add: or_seven_def with_children_def groupSubqueryConditions_def applyCorrelatedSubqueryCondition_def new_exists_def
      joined_schema_def children_exist_def is_seven_def createSimplePredicate_def literal_nullish_def is_nullish_def)

lemma sample_comparable: "comparable utf8_lex sample_str (sample_row i f) or_seven"
  by (simp add: or_seven_def with_children_def run_predicate_def createSimplePredicate_def literal_nullish_def is_nullish_def
      sample_row_def get_field_def)

definition parent_node :: "nat \<Rightarrow> node list \<Rightarrow> node" where
  "parent_node k kids = Node (sample_row k 1) [(''children'', map Item kids)]"

lemma parent_node_simps [simp]:
  "node_row (parent_node k kids) = sample_row k 1"
  "sizes (parent_node k kids) = [''children'' \<mapsto> length kids]"
  by (auto simp: parent_node_def sizes_def)

lemma sample_aliases: "aliases or_seven = [''children'']"
  by (simp add: or_seven_def with_children_def)

lemma sample_holds: "cond_holds utf8_lex sample_str or_seven (view_of (parent_node k kids)) \<longleftrightarrow> kids \<noteq> [] \<or> k = 7"
  by (auto simp: or_seven_def with_children_def run_predicate_def createSimplePredicate_def literal_nullish_def is_nullish_def
      sample_row_def get_field_def view_of_def has_children_def)

theorem filter_fetch_correct_witness:
  "\<exists>st'. filter_fetch [FanOp [[ExistsOp 0 children_exist], [FilterOp is_seven]]]
     (\<lambda>req. Inr [Item (parent_node 7 []), Yield, Item (parent_node 1 [])]) at_rest (scan_request None False) =
     Inr ([Item (parent_node 7 []), Yield], st') \<and> ex_cache (st' 0) = []"
proof -
  let ?nodes = "[Item (parent_node 7 []), Yield, Item (parent_node 1 [])]"
  have "\<forall>nd \<in> set (skipYields ?nodes). comparable utf8_lex sample_str (node_row nd) or_seven \<and>
      (\<forall>name \<in> set (aliases or_seven). sizes nd name \<noteq> None)"
    by (simp add: sample_comparable sample_aliases)
  moreover have "\<forall>ie \<in> set (exists_in [FanOp [[ExistsOp 0 children_exist], [FilterOp is_seven]]]). caching at_rest ie \<longrightarrow>
      coherent (set (skipYields ?nodes)) (snd ie) \<and> ex_cache (at_rest (fst ie)) = []"
    by (auto simp: coherent_def at_rest_def children_exist_def has_children_def)
  ultimately have "\<exists>st'. filter_fetch [FanOp [[ExistsOp 0 children_exist], [FilterOp is_seven]]] (\<lambda>req. Inr ?nodes) at_rest (scan_request None False) =
      Inr (keep_items (\<lambda>nd. cond_holds utf8_lex sample_str or_seven (view_of nd)) ?nodes, st') \<and>
      (\<forall>k. ex_inPush (st' k) = ex_inPush (at_rest k)) \<and> (\<forall>k. 0 \<le> k \<and> k < 1 \<longrightarrow> ex_cache (st' k) = [])"
    by (intro filter_fetch_correct [OF sample_graph(1) refl])
  then show ?thesis by (auto simp: sample_holds)
qed

theorem filter_push_correct_witness:
  "\<exists>n st. chain_push [FanOp [[ExistsOp 0 children_exist], [FilterOp is_seven]]] at_rest
     (CChild (parent_node 1 []) ''children'' (CRemove (Node (sample_row 5 1) []))) = Inr [(CRemove n, st)] \<and> node_row n = sample_row 1 1"
proof -
  let ?ch = "CChild (parent_node 1 []) ''children'' (CRemove (Node (sample_row 5 1) []))"
  have "\<forall>v. before ?ch = Some v \<or> after ?ch = Some v \<longrightarrow>
      comparable utf8_lex sample_str (fst v) or_seven \<and> (\<forall>name \<in> set (aliases or_seven). snd v name \<noteq> None)"
    by (auto simp: view_of_def sample_comparable sample_aliases)
  with filter_push_correct [OF sample_graph(1), of at_rest ?ch] obtain evs where
    evs: "chain_push [FanOp [[ExistsOp 0 children_exist], [FilterOp is_seven]]] at_rest ?ch = Inr evs"
    "turns (cond_holds utf8_lex sample_str or_seven) ?ch (map fst evs)"
    by (auto simp: sample_aliases at_rest_def)
  have "\<not> held_after (cond_holds utf8_lex sample_str or_seven) ?ch" by (simp add: sample_holds)
  moreover have "held_before (cond_holds utf8_lex sample_str or_seven) ?ch"
    by (simp add: held_before_def or_seven_def with_children_def has_children_def)
  ultimately obtain n where n: "map fst evs = [CRemove n]" "before ?ch = Some (view_of n)"
    using evs(2) by (auto simp: turns_def)
  then obtain st where "evs = [(CRemove n, st)]" by (cases evs) auto
  with evs n(2) show ?thesis by (auto simp: view_of_def)
qed

subsection \<open>Where the cache of Exists goes wrong\<close>

text \<open>
  Rows 2 and 1 (in this order) have the same key and one child, which is being removed. \<open>Join\<close> pushes one
  change for each; between the two, row 2 has no child any more and row 1 still has it.
\<close>

definition two_parents :: node_input where
  "two_parents = (\<lambda>req. Inr [Item (Node (sample_row 2 1) []), Item (Node (sample_row 1 1) [])])"

definition no_kids :: node_input where
  "no_kids = (\<lambda>req. Inr [])"

definition last_kid :: change where
  "last_kid = CRemove (Node (sample_row 5 1) [])"

definition at_parent :: "nat \<Rightarrow> join_state" where
  "at_parent k = \<lparr>jn_change = Some last_kid, jn_position = Some (sample_row k 1)\<rparr>"

lemma sample_join_fields:
  "jn_parentKey sample_join = [''foo'']" "jn_childKey sample_join = [''foo'']" "jn_relationshipName sample_join = ''children''"
  by (simp_all add: sample_join_def)

lemma between_children:
  "childStream utf8_lex sample_join no_kids (at_parent 2) (sample_row 2 1) = Inr []"
  "childStream utf8_lex sample_join no_kids (at_parent 2) (sample_row 1 1) = Inr [Item (Node (sample_row 5 1) [])]"
  "childStream utf8_lex sample_join no_kids (at_parent 1) (sample_row 1 1) = Inr []"
  using sample_signs
  by (simp_all add: childStream_def no_kids_def at_parent_def last_kid_def sample_join_def sample_schema_def sample_foo
      buildJoinConstraint_def valuesEqual_def join_generateWithOverlay_def)

lemma between_fetch:
  "join_fetch utf8_lex sample_join two_parents no_kids (at_parent 2) req =
     Inr [Item (parent_node 2 []), Item (parent_node 1 [Node (sample_row 5 1) []])]"
  by (simp add: join_fetch_def two_parents_def processParentNode_def between_children parent_node_def sample_join_fields del: One_nat_def)

lemma between_push:
  "join_pushChild utf8_lex sample_join two_parents no_kids last_kid =
     Inr ([(CChild (parent_node 2 []) ''children'' last_kid, at_parent 2),
           (CChild (parent_node 1 []) ''children'' last_kid, at_parent 1)], \<lparr>jn_change = None, jn_position = Some (sample_row 1 1)\<rparr>)"
proof -
  have "push_parents utf8_lex sample_join no_kids last_kid [Item (Node (sample_row 2 1) []), Item (Node (sample_row 1 1) [])] =
      Inr [(CChild (parent_node 2 []) ''children'' last_kid, at_parent 2), (CChild (parent_node 1 []) ''children'' last_kid, at_parent 1)]"
    using between_children by (simp add: processParentNode_def at_parent_def parent_node_def sample_join_fields del: One_nat_def)
  then show ?thesis
    by (simp add: last_kid_def pushChildChange_def two_parents_def buildJoinConstraint_def sample_join_fields sample_foo at_parent_def
        del: One_nat_def)
qed

text \<open>C15: The cache of \<open>Exists\<close> is used in the middle of a push when the operator stands in a branch of an
  \<open>OR\<close>: its own push has returned when the \<open>FanIn\<close> pushes, so \<open>#inPush\<close> is off, although the nodes of one
  key disagree then. When the last child of rows 2 and 1 is removed, the output is pushed the removal of row
  2; a fetch by the output at that time (as \<open>Take\<close> does to replace the row) returns nothing, although row 1
  still satisfies the condition, and then the output is pushed the removal of row 1. With the same
  \<open>Exists\<close> outside an \<open>OR\<close> the fetch returns row 1.\<close>

theorem exists_cache_loses_row:
  "\<exists>ev1 ev2 st. join_pushChild utf8_lex sample_join two_parents no_kids last_kid = Inr ([ev1, ev2], st) \<and>
     (\<exists>ops n1 st1 st1' n2 st2. applyFilter utf8_lex sample_str joined_schema or_seven 0 = Inr (ops, 1) \<and>
        chain_push ops at_rest (fst ev1) = Inr [(CRemove n1, st1)] \<and> node_row n1 = sample_row 2 1 \<and>
        filter_fetch ops (join_fetch utf8_lex sample_join two_parents no_kids (snd ev1)) st1 req = Inr ([], st1') \<and>
        chain_push ops at_rest (fst ev2) = Inr [(CRemove n2, st2)] \<and> node_row n2 = sample_row 1 1) \<and>
     (\<exists>ops n1 st1 st1' out. applyFilter utf8_lex sample_str joined_schema with_children 0 = Inr (ops, 1) \<and>
        chain_push ops at_rest (fst ev1) = Inr [(CRemove n1, st1)] \<and>
        filter_fetch ops (join_fetch utf8_lex sample_join two_parents no_kids (snd ev1)) st1 req = Inr (out, st1') \<and>
        rows_of_items out = [sample_row 1 1])"
proof -
  have seven: "is_seven (sample_row 2 1) = Inr False" "is_seven (sample_row 1 1) = Inr False"
    by (simp_all add: is_seven_def sample_row_def get_field_def is_nullish_def)
  have keys: "getCacheKey (parent_node k kids) [''foo''] = [JNum 1]" for k kids
    by (simp add: getCacheKey_def sample_foo normalizeUndefined_def)
  have size: "fetchSize children_exist (parent_node k kids) = Inr (length kids)" for k kids
    by (simp add: fetchSize_def children_exist_def parent_node_def)
  have ors: "\<exists>n. chain_push [FanOp [[ExistsOp 0 children_exist], [FilterOp is_seven]]] at_rest
        (CChild (parent_node k []) ''children'' last_kid) = Inr [(CRemove n, at_rest)] \<and> node_row n = sample_row k 1"
    if "is_seven (sample_row k 1) = Inr False" for k
    using that size [of k "[]"]
    by (simp add: last_kid_def at_rest_def fanOutDonePushingToAllBranches_def pushAccumulatedChanges_def add_or_remove_def) (simp add: children_exist_def with_relationship_def)
  have one: "\<exists>n st. chain_push [ExistsOp 0 children_exist] at_rest (CChild (parent_node 2 []) ''children'' last_kid) =
        Inr [(CRemove n, st)] \<and> st = (at_rest(0 := \<lparr>ex_cache = [], ex_inPush = True\<rparr>))"
    using size [of 2 "[]"] by (simp add: last_kid_def at_rest_def) (simp add: children_exist_def with_relationship_def)
  have lost: "\<exists>st. filter_fetch [FanOp [[ExistsOp 0 children_exist], [FilterOp is_seven]]]
      (join_fetch utf8_lex sample_join two_parents no_kids (at_parent 2)) at_rest req = Inr ([], st)"
    using seven keys size
    by (simp add: filter_fetch_def between_fetch exists_lookup_def at_rest_def fetchExists_def exists_test_def)
      (simp add: children_exist_def Let_def)
  have kept: "\<exists>out st. filter_fetch [ExistsOp 0 children_exist]
      (join_fetch utf8_lex sample_join two_parents no_kids (at_parent 2)) (at_rest(0 := \<lparr>ex_cache = [], ex_inPush = True\<rparr>)) req = Inr (out, st) \<and>
      rows_of_items out = [sample_row 1 1]"
    using size by (simp add: filter_fetch_def between_fetch exists_lookup_def at_rest_def fetchExists_def exists_test_def)
      (simp add: children_exist_def)
  obtain n1 n2 n3 where n: "chain_push [FanOp [[ExistsOp 0 children_exist], [FilterOp is_seven]]] at_rest
      (CChild (parent_node 2 []) ''children'' last_kid) = Inr [(CRemove n1, at_rest)]" "node_row n1 = sample_row 2 1"
    "chain_push [FanOp [[ExistsOp 0 children_exist], [FilterOp is_seven]]] at_rest
      (CChild (parent_node 1 []) ''children'' last_kid) = Inr [(CRemove n2, at_rest)]" "node_row n2 = sample_row 1 1"
    "chain_push [ExistsOp 0 children_exist] at_rest (CChild (parent_node 2 []) ''children'' last_kid) =
      Inr [(CRemove n3, at_rest(0 := \<lparr>ex_cache = [], ex_inPush = True\<rparr>))]"
    using ors [OF seven(1)] ors [OF seven(2)] one by blast
  from lost kept obtain st1 out st2 where f: "filter_fetch [FanOp [[ExistsOp 0 children_exist], [FilterOp is_seven]]]
      (join_fetch utf8_lex sample_join two_parents no_kids (at_parent 2)) at_rest req = Inr ([], st1)"
    "filter_fetch [ExistsOp 0 children_exist]
      (join_fetch utf8_lex sample_join two_parents no_kids (at_parent 2)) (at_rest(0 := \<lparr>ex_cache = [], ex_inPush = True\<rparr>)) req = Inr (out, st2)"
    "rows_of_items out = [sample_row 1 1]" by blast
  show ?thesis
    by (intro exI conjI, rule between_push, rule sample_graph, simp only: fst_conv, rule n, rule n, simp only: snd_conv, rule f,
        simp only: fst_conv, rule n, rule n, rule sample_graph, simp only: fst_conv, rule n, simp only: snd_conv, rule f, rule f)
qed

end
