(* ===== verification/Cap.thy ===== *)
theory Cap
  imports TakeCorrect
begin

section \<open>Cap: a limit without order (zql/src/ivm/cap.ts)\<close>

text \<open>
  \<open>Cap\<close> lets at most \<open>limit\<close> rows of each partition pass, whichever come first, and remembers their primary
  keys. It stands in the subquery of an \<open>EXISTS\<close>, where only the number of rows matters. As for \<open>Take\<close>, a push
  gives the changes for the output, each with the state at that time, and \<open>JSON.stringify\<close> of a list of values
  is the list, with undefined as null.
\<close>

type_synonym serialized = "js_value list"

record cap_state =
  cs_size :: int
  cs_pks :: "serialized list"

type_synonym cap_storage = "(serialized \<times> cap_state) list"
type_synonym cap_events = "(change \<times> cap_storage) list"

record cap_conf =
  cp_limit :: int
  cp_partition :: "string list option"
  cp_primaryKey :: "string list"

definition new_cap :: "int \<Rightarrow> string list option \<Rightarrow> string list \<Rightarrow> (cap_conf \<times> cap_storage) result" where
  "new_cap limit partitionKey primaryKey =
     (if limit < 0 then Inl (AssertionFailed ''Limit must be non-negative'')
      else Inr (\<lparr>cp_limit = limit, cp_partition = partitionKey, cp_primaryKey = primaryKey\<rparr>, []))"

definition getCapStateKey :: "string list option \<Rightarrow> row option \<Rightarrow> serialized" where
  "getCapStateKey partitionKey rowOrConstraint = JStr ''cap'' # (case (partitionKey, rowOrConstraint) of
     (Some keys, Some r) \<Rightarrow> map (\<lambda>key. normalizeUndefined (get_field r key)) keys
   | _ \<Rightarrow> [])"

definition serializePK :: "row \<Rightarrow> string list \<Rightarrow> serialized" where
  "serializePK r primaryKey = map (\<lambda>k. normalizeUndefined (get_field r k)) primaryKey"

definition deserializePKToConstraint :: "serialized \<Rightarrow> string list \<Rightarrow> constraint" where
  "deserializePKToConstraint pk primaryKey = foldl (\<lambda>c (k, v). AList.update k v c) [] (zip primaryKey pk)"

text \<open>The request \<open>{constraint}\<close>.\<close>

definition cap_req :: "constraint option \<Rightarrow> fetch_request" where
  "cap_req c = \<lparr>req_constraint = c, req_multi = None, req_start = None, req_reverse = False\<rparr>"

subsection \<open>Fetch\<close>

fun cap_loop :: "cap_conf \<Rightarrow> node item list \<Rightarrow> int \<Rightarrow> serialized list \<Rightarrow> node item list \<times> int \<times> serialized list" where
  "cap_loop conf [] n pks = ([], n, pks)"
| "cap_loop conf (Yield # nodes) n pks = (case cap_loop conf nodes n pks of (out, r) \<Rightarrow> (Yield # out, r))"
| "cap_loop conf (Item nd # nodes) n pks =
     (let pks' = pks @ [serializePK (node_row nd) (cp_primaryKey conf)]; n' = n + 1 in
      if n' = cp_limit conf then ([Item nd], n', pks')
      else (case cap_loop conf nodes n' pks' of (out, r) \<Rightarrow> (Item nd # out, r)))"

definition cap_initialFetch ::
    "cap_conf \<Rightarrow> input_fetch \<Rightarrow> fetch_request \<Rightarrow> cap_storage \<Rightarrow> (node item list \<times> cap_storage) result" where
  "cap_initialFetch conf input req st =
     (if cp_limit conf = 0 then Inr ([], st)
      else if \<not> constraintMatchesPartitionKey (req_constraint req) (cp_partition conf)
      then Inl (AssertionFailed ''Constraint should match partition key'')
      else
        (let capStateKey = getCapStateKey (cp_partition conf) (req_constraint req) in
         if map_of st capStateKey \<noteq> None then Inl (AssertionFailed ''Cap state should be undefined'')
         else bind_result (input req) (\<lambda>nodes.
           (case cap_loop conf nodes 0 [] of (out, n, pks) \<Rightarrow>
              Inr (out, AList.update capStateKey \<lparr>cs_size = n, cs_pks = pks\<rparr> st)))))"

fun fetch_pks :: "cap_conf \<Rightarrow> input_fetch \<Rightarrow> serialized list \<Rightarrow> node item list result" where
  "fetch_pks conf input [] = Inr []"
| "fetch_pks conf input (pk # pks) =
     bind_result (input (cap_req (Some (deserializePKToConstraint pk (cp_primaryKey conf))))) (\<lambda>nodes.
     bind_result (fetch_pks conf input pks) (\<lambda>rest. Inr (nodes @ rest)))"

definition cap_fetch ::
    "cap_conf \<Rightarrow> input_fetch \<Rightarrow> fetch_request \<Rightarrow> cap_storage \<Rightarrow> (node item list \<times> cap_storage) result" where
  "cap_fetch conf input req st =
     (if req_start req \<noteq> None then Inl (AssertionFailed ''Cap does not support start'')
      else if req_reverse req then Inl (AssertionFailed ''Cap does not support reverse'')
      else if cp_partition conf \<noteq> None \<and>
        \<not> (req_constraint req \<noteq> None \<and> constraintMatchesPartitionKey (req_constraint req) (cp_partition conf))
      then Inl (AssertionFailed ''Cap fetch: constraint must match partition key when partitioned'')
      else (case map_of st (getCapStateKey (cp_partition conf) (req_constraint req)) of
        None \<Rightarrow> cap_initialFetch conf input req st
      | Some capState \<Rightarrow>
          if cs_size capState = 0 then Inr ([], st)
          else bind_result (fetch_pks conf input (cs_pks capState)) (\<lambda>nodes. Inr (nodes, st))))"

subsection \<open>Push\<close>

text \<open>The constraint on the partition of a row, and the first row of the partition that is not in the set.\<close>

definition cap_partition_constraint :: "cap_conf \<Rightarrow> row \<Rightarrow> constraint option" where
  "cap_partition_constraint conf r = map_option (map (\<lambda>key. (key, get_field r key))) (cp_partition conf)"

definition first_outside :: "cap_conf \<Rightarrow> serialized list \<Rightarrow> node item list \<Rightarrow> node option" where
  "first_outside conf pks nodes = find (\<lambda>n. serializePK (node_row n) (cp_primaryKey conf) \<notin> set pks) (skipYields nodes)"

definition cap_push_remove ::
    "cap_conf \<Rightarrow> input_fetch \<Rightarrow> node \<Rightarrow> serialized \<Rightarrow> cap_state \<Rightarrow> cap_storage \<Rightarrow> (cap_events \<times> cap_storage) result" where
  "cap_push_remove conf input nd capStateKey capState st =
     (let pk = serializePK (node_row nd) (cp_primaryKey conf) in
      if pk \<notin> set (cs_pks capState) then Inr ([], st)
      else
        (let pks = remove1 pk (cs_pks capState); newSize = cs_size capState - 1;
             st1 = AList.update capStateKey \<lparr>cs_size = newSize, cs_pks = pks\<rparr> st in
         bind_result (input (cap_req (cap_partition_constraint conf (node_row nd)))) (\<lambda>nodes.
           case first_outside conf pks nodes of
             Some replacement \<Rightarrow>
               (let replacementPK = serializePK (node_row replacement) (cp_primaryKey conf);
                    st2 = AList.update capStateKey \<lparr>cs_size = newSize + 1, cs_pks = pks @ [replacementPK]\<rparr> st1
                in Inr ([(CRemove nd, st1), (CAdd replacement, st2)], st2))
           | None \<Rightarrow> Inr ([(CRemove nd, st1)], st1))))"

definition cap_pushEditChange ::
    "utf8 \<Rightarrow> cap_conf \<Rightarrow> node \<Rightarrow> node \<Rightarrow> cap_storage \<Rightarrow> (cap_events \<times> cap_storage) result" where
  "cap_pushEditChange u8 conf nd old st =
     bind_result
       (case cp_partition conf of
          None \<Rightarrow> Inr ()
        | Some keys \<Rightarrow> bind_result (makePartitionKeyComparator u8 keys (node_row old) (node_row nd)) (\<lambda>c.
            if c = 0 then Inr () else Inl (AssertionFailed ''Unexpected change of partition key'')))
       (\<lambda>_.
     let capStateKey = getCapStateKey (cp_partition conf) (Some (node_row old)) in
     case map_of st capStateKey of
       None \<Rightarrow> Inr ([], st)
     | Some capState \<Rightarrow>
         (let oldPK = serializePK (node_row old) (cp_primaryKey conf) in
          if oldPK \<in> set (cs_pks capState) then
            (let newPK = serializePK (node_row nd) (cp_primaryKey conf);
                 st' = (if oldPK \<noteq> newPK
                   then AList.update capStateKey \<lparr>cs_size = cs_size capState,
                     cs_pks = map (\<lambda>p. if p = oldPK then newPK else p) (cs_pks capState)\<rparr> st
                   else st)
             in Inr ([(CEdit nd old, st')], st'))
          else Inr ([], st)))"

definition cap_push ::
    "utf8 \<Rightarrow> cap_conf \<Rightarrow> input_fetch \<Rightarrow> change \<Rightarrow> cap_storage \<Rightarrow> (cap_events \<times> cap_storage) result" where
  "cap_push u8 conf input change st = (case change of
     CEdit nd old \<Rightarrow> cap_pushEditChange u8 conf nd old st
   | CAdd nd \<Rightarrow>
       (let capStateKey = getCapStateKey (cp_partition conf) (Some (node_row nd)) in
        case map_of st capStateKey of None \<Rightarrow> Inr ([], st) | Some capState \<Rightarrow>
          if cs_size capState < cp_limit conf then
            (let st' = AList.update capStateKey \<lparr>cs_size = cs_size capState + 1,
               cs_pks = cs_pks capState @ [serializePK (node_row nd) (cp_primaryKey conf)]\<rparr> st
             in Inr ([(CAdd nd, st')], st'))
          else Inr ([], st))
   | CRemove nd \<Rightarrow>
       (let capStateKey = getCapStateKey (cp_partition conf) (Some (node_row nd)) in
        case map_of st capStateKey of None \<Rightarrow> Inr ([], st) | Some capState \<Rightarrow>
          cap_push_remove conf input nd capStateKey capState st)
   | CChild nd rel c \<Rightarrow>
       (let capStateKey = getCapStateKey (cp_partition conf) (Some (node_row nd)) in
        case map_of st capStateKey of None \<Rightarrow> Inr ([], st) | Some capState \<Rightarrow>
          if serializePK (node_row nd) (cp_primaryKey conf) \<in> set (cs_pks capState)
          then Inr ([(CChild nd rel c, st)], st) else Inr ([], st)))"

end
