(* ===== verification/CapCorrect.thy ===== *)
theory CapCorrect
  imports Cap
begin

section \<open>Cap keeps as many rows as it may\<close>

text \<open>
  The rows of a partition whose keys are in its state are what \<open>Cap\<close> shows. The invariant is that they are rows
  of the input, each once, and as many as the limit allows. The input is any that keeps \<open>pipeline_input\<close> and answers
  requests for a constraint, and whose rows are told apart by a primary key without nulls.
\<close>

definition cap_key :: "cap_conf \<Rightarrow> row \<Rightarrow> serialized" where
  "cap_key conf r = getCapStateKey (cp_partition conf) (Some r)"

definition pk_of :: "cap_conf \<Rightarrow> row \<Rightarrow> serialized" where
  "pk_of conf r = serializePK r (cp_primaryKey conf)"

definition cap_part :: "cap_conf \<Rightarrow> serialized \<Rightarrow> row set \<Rightarrow> row set" where
  "cap_part conf k S = {x \<in> S. cap_key conf x = k}"

definition cap_shown :: "cap_conf \<Rightarrow> serialized \<Rightarrow> row set \<Rightarrow> cap_storage \<Rightarrow> row set" where
  "cap_shown conf k S st = (case map_of st k of None \<Rightarrow> {}
     | Some cs \<Rightarrow> {x \<in> cap_part conf k S. pk_of conf x \<in> set (cs_pks cs)})"

definition capped :: "cap_conf \<Rightarrow> row set \<Rightarrow> cap_state \<Rightarrow> bool" where
  "capped conf P cs \<longleftrightarrow> distinct (cs_pks cs) \<and> set (cs_pks cs) \<subseteq> pk_of conf ` P \<and> cs_size cs = int (length (cs_pks cs)) \<and>
     cs_size cs = min (cp_limit conf) (int (card P))"

definition cap_inv :: "cap_conf \<Rightarrow> row set \<Rightarrow> cap_storage \<Rightarrow> bool" where
  "cap_inv conf S st \<longleftrightarrow> (\<forall>k cs. map_of st k = Some cs \<longrightarrow> capped conf (cap_part conf k S) cs)"

text \<open>The rows are told apart by their keys.\<close>

definition identified :: "cap_conf \<Rightarrow> row set \<Rightarrow> bool" where
  "identified conf S \<longleftrightarrow> finite S \<and> inj_on (pk_of conf) S \<and> (\<forall>r \<in> S. JNull \<notin> set (pk_of conf r))"

text \<open>What a fetch relies on, also in the middle of a push.\<close>

definition consistent :: "cap_conf \<Rightarrow> serialized \<Rightarrow> row set \<Rightarrow> cap_storage \<Rightarrow> bool" where
  "consistent conf k S st \<longleftrightarrow> (\<forall>cs. map_of st k = Some cs \<longrightarrow> distinct (cs_pks cs) \<and>
     set (cs_pks cs) \<subseteq> pk_of conf ` cap_part conf k S \<and> cs_size cs = int (length (cs_pks cs)))"

lemma cap_inv_consistent: "cap_inv conf S st \<Longrightarrow> consistent conf k S st"
  by (auto simp: cap_inv_def consistent_def capped_def)

text \<open>What the output is told, one change after the other, each of which it could have fetched.\<close>

fun cap_events_ok :: "cap_conf \<Rightarrow> serialized \<Rightarrow> row set \<Rightarrow> row set \<Rightarrow> cap_events \<Rightarrow> row set \<Rightarrow> bool" where
  "cap_events_ok conf k S T [] T' \<longleftrightarrow> T = T'"
| "cap_events_ok conf k S T ((c, st) # evs) T' \<longleftrightarrow> push_ok c T \<and> consistent conf k S st \<and> cap_shown conf k S st = apply_push c T \<and>
     int (card (apply_push c T)) \<le> cp_limit conf \<and> cap_events_ok conf k S (apply_push c T) evs T'"

locale cap_input = pipeline_input cmp input rows ok
  for cmp :: "row cmp" and input rows ok +
  fixes conf :: cap_conf
  assumes ok_constraint: "(\<forall>d. c = Some d \<longrightarrow> distinct (map fst d)) \<Longrightarrow> ok (cap_req c)"
    and known_rows: "identified conf rows"
    and distinct_keys: "distinct (cp_primaryKey conf)" "\<And>keys. cp_partition conf = Some keys \<Longrightarrow> distinct keys"
begin

lemma cap_input_rows:
  assumes "\<forall>d. c = Some d \<longrightarrow> distinct (map fst d)"
  obtains items where "input (cap_req c) = Inr items" "distinct (rows_of_items items)"
    "set (rows_of_items items) = {r \<in> rows. matches c r}"
proof -
  from fetch_obtain [OF ok_constraint [OF assms]] obtain items where
    items: "input (cap_req c) = Inr items" "sorted_cmp (rev_cmp (req_reverse (cap_req c)) cmp) (rows_of_items items)"
    "set (rows_of_items items) = {r \<in> rows. requested cmp (cap_req c) r}" by blast
  have "sorted_cmp cmp (rows_of_items items)" using items(2) by (simp add: cap_req_def)
  then have "distinct (rows_of_items items)" by (rule sorted_cmp_distinct)
  with items(1,3) show ?thesis by (intro that) (auto simp: requested_def cap_req_def after_start_def)
qed

end

subsection \<open>Sets of keys\<close>

lemma shown_card:
  assumes "inj_on (pk_of conf) P" "set pks \<subseteq> pk_of conf ` P" "distinct pks"
  shows "card {x \<in> P. pk_of conf x \<in> set pks} = length pks"
proof -
  have "pk_of conf ` {x \<in> P. pk_of conf x \<in> set pks} = set pks" using assms(2) by auto
  moreover have "inj_on (pk_of conf) {x \<in> P. pk_of conf x \<in> set pks}" by (rule inj_on_subset [OF assms(1)]) auto
  ultimately show ?thesis using card_image [of "pk_of conf" "{x \<in> P. pk_of conf x \<in> set pks}"] distinct_card [OF assms(3)] by simp
qed

lemma part_simps [simp]:
  "cap_part conf k (insert r S) = (if cap_key conf r = k then insert r (cap_part conf k S) else cap_part conf k S)"
  "cap_part conf k (S - {r}) = cap_part conf k S - {r}" "finite S \<Longrightarrow> finite (cap_part conf k S)"
  by (auto simp: cap_part_def)

lemma identified_part: "identified conf S \<Longrightarrow> inj_on (pk_of conf) (cap_part conf k S) \<and> finite (cap_part conf k S)"
  by (auto simp: identified_def cap_part_def intro: inj_on_subset)

lemma capped_all:
  assumes "capped conf P cs" "inj_on (pk_of conf) P" "finite P" "cs_size cs < cp_limit conf"
  shows "{x \<in> P. pk_of conf x \<in> set (cs_pks cs)} = P"
proof (rule card_subset_eq [OF assms(3)])
  show "card {x \<in> P. pk_of conf x \<in> set (cs_pks cs)} = card P"
    using assms shown_card [OF assms(2), of "cs_pks cs"] by (simp add: capped_def min_def split: if_splits)
qed simp

text \<open>Storing the state of one partition.\<close>

lemma cap_inv_map:
  assumes "cap_inv conf S st" "\<And>l. l \<noteq> k \<Longrightarrow> cap_part conf l S' = cap_part conf l S" "capped conf (cap_part conf k S') cs"
    and "map_of st' = (map_of st)(k \<mapsto> cs)"
  shows "cap_inv conf S' st'"
  using assms(1,3) unfolding cap_inv_def assms(4) by (metis assms(2) fun_upd_apply option.inject)

lemma cap_inv_update:
  assumes "cap_inv conf S st" "\<And>l. l \<noteq> k \<Longrightarrow> cap_part conf l S' = cap_part conf l S" "capped conf (cap_part conf k S') cs"
  shows "cap_inv conf S' (AList.update k cs st)"
  by (rule cap_inv_map [OF assms(1) assms(2) assms(3)]) (simp_all add: update_conv')

lemma cap_inv_same:
  assumes "cap_inv conf S st" "\<And>l. l \<noteq> k \<Longrightarrow> cap_part conf l S' = cap_part conf l S"
    and "map_of st k = Some cs" "capped conf (cap_part conf k S') cs"
  shows "cap_inv conf S' st"
  using assms unfolding cap_inv_def by (metis option.inject)

lemma cap_shown_update: "cap_shown conf k S (AList.update k cs st) = {x \<in> cap_part conf k S. pk_of conf x \<in> set (cs_pks cs)}"
  by (simp add: cap_shown_def update_conv')

lemma cap_shown_state:
  "map_of st k = Some cs \<Longrightarrow> cap_shown conf k S st = {x \<in> cap_part conf k S. pk_of conf x \<in> set (cs_pks cs)}"
  by (simp add: cap_shown_def)

lemma cap_shown_size:
  assumes "cap_inv conf S st" "identified conf S" "map_of st k = Some cs"
  shows "int (card (cap_shown conf k S st)) = min (cp_limit conf) (int (card (cap_part conf k S)))"
proof -
  from assms(1,3) have "capped conf (cap_part conf k S) cs" by (simp add: cap_inv_def)
  with shown_card [of conf "cap_part conf k S" "cs_pks cs"] identified_part [OF assms(2), of k] show ?thesis
    by (simp add: cap_shown_state [OF assms(3)] capped_def)
qed

subsection \<open>The kinds of change\<close>

definition cap_outcome ::
    "cap_conf \<Rightarrow> serialized \<Rightarrow> row set \<Rightarrow> row set \<Rightarrow> cap_storage \<Rightarrow> cap_events \<Rightarrow> cap_storage \<Rightarrow> bool" where
  "cap_outcome conf k S S' st evs st' \<longleftrightarrow>
     cap_inv conf S' st' \<and> cap_events_ok conf k S' (cap_shown conf k S st) evs (cap_shown conf k S' st')"

lemma cap_limit_kept:
  assumes "capped conf P cs" "inj_on (pk_of conf) P"
  shows "int (card {x \<in> P. pk_of conf x \<in> set (cs_pks cs)}) \<le> cp_limit conf"
proof -
  have "cs_size cs \<le> cp_limit conf" using assms(1) unfolding capped_def by linarith
  then show ?thesis using assms(1) shown_card [OF assms(2), of "cs_pks cs"] by (simp add: capped_def)
qed

lemma cap_add:
  assumes inv: "cap_inv conf S st" and known: "identified conf (insert r S)" and new: "r \<notin> S" and r: "r = node_row nd"
    and k: "k = cap_key conf r" and cs: "map_of st k = Some cs"
  shows "cs_size cs < cp_limit conf \<Longrightarrow>
      st' = AList.update k \<lparr>cs_size = cs_size cs + 1, cs_pks = cs_pks cs @ [pk_of conf r]\<rparr> st \<Longrightarrow>
      cap_outcome conf k S (insert r S) st [(CAdd nd, st')] st'"
    and "\<not> cs_size cs < cp_limit conf \<Longrightarrow> cap_outcome conf k S (insert r S) st [] st"
proof -
  let ?P = "cap_part conf k S"
  have capped: "capped conf ?P cs" using inv cs by (simp add: cap_inv_def)
  have inj: "inj_on (pk_of conf) (insert r ?P)" and fin: "finite ?P" and rP: "r \<notin> ?P"
    using identified_part [OF known, of k] new k by (simp_all add: cap_part_def [of _ _ S, symmetric]) (simp add: cap_part_def)
  have fresh: "pk_of conf r \<notin> set (cs_pks cs)"
    using capped inj rP by (auto simp: capped_def inj_on_def)
  have card: "card (insert r ?P) = Suc (card ?P)" using fin rP by simp
  have part: "cap_part conf k (insert r S) = insert r ?P" "\<And>l. l \<noteq> k \<Longrightarrow> cap_part conf l (insert r S) = cap_part conf l S"
    using k by auto
  {
    assume less: "cs_size cs < cp_limit conf" and st': "st' = AList.update k \<lparr>cs_size = cs_size cs + 1, cs_pks = cs_pks cs @ [pk_of conf r]\<rparr> st"
    have capped': "capped conf (insert r ?P) \<lparr>cs_size = cs_size cs + 1, cs_pks = cs_pks cs @ [pk_of conf r]\<rparr>"
      using capped less fresh card by (auto simp: capped_def)
    have "{x \<in> insert r ?P. pk_of conf x \<in> set (cs_pks cs @ [pk_of conf r])} = insert r {x \<in> ?P. pk_of conf x \<in> set (cs_pks cs)}"
      using inj rP by (auto simp: inj_on_def)
    moreover have "cap_inv conf (insert r S) st'" unfolding st' by (rule cap_inv_update [OF inv part(2)]) (use capped' part(1) in simp_all)
    moreover note cap_limit_kept [OF capped' inj] part(1) rP
    ultimately show "cap_outcome conf k S (insert r S) st [(CAdd nd, st')] st'"
      by (simp add: cap_outcome_def st' cap_shown_update cap_shown_state [OF cs] cap_inv_consistent r)
  next
    assume full: "\<not> cs_size cs < cp_limit conf"
    have "capped conf (insert r ?P) cs" using capped full card by (auto simp: capped_def)
    then have "cap_inv conf (insert r S) st" by (intro cap_inv_same [OF inv part(2) cs]) (use part(1) in simp_all)
    moreover have "{x \<in> insert r ?P. pk_of conf x \<in> set (cs_pks cs)} = {x \<in> ?P. pk_of conf x \<in> set (cs_pks cs)}"
      using fresh by auto
    ultimately show "cap_outcome conf k S (insert r S) st [] st"
      using part(1) by (simp add: cap_outcome_def cap_shown_state [OF cs])
  }
qed

lemma cap_remove:
  assumes inv: "cap_inv conf S st" and known: "identified conf S" and old: "r \<in> S" and r: "r = node_row nd"
    and k: "k = cap_key conf r" and cs: "map_of st k = Some cs"
    and st1: "st1 = AList.update k \<lparr>cs_size = cs_size cs - 1, cs_pks = remove1 (pk_of conf r) (cs_pks cs)\<rparr> st"
  shows "pk_of conf r \<notin> set (cs_pks cs) \<Longrightarrow> cap_outcome conf k S (S - {r}) st [] st"
    and "pk_of conf r \<in> set (cs_pks cs) \<Longrightarrow> \<forall>x \<in> cap_part conf k (S - {r}). pk_of conf x \<in> set (remove1 (pk_of conf r) (cs_pks cs)) \<Longrightarrow>
      cap_outcome conf k S (S - {r}) st [(CRemove nd, st1)] st1"
    and "pk_of conf r \<in> set (cs_pks cs) \<Longrightarrow> q \<in> cap_part conf k (S - {r}) \<Longrightarrow>
      pk_of conf q \<notin> set (remove1 (pk_of conf r) (cs_pks cs)) \<Longrightarrow> q = node_row m \<Longrightarrow>
      st2 = AList.update k \<lparr>cs_size = cs_size cs - 1 + 1, cs_pks = remove1 (pk_of conf r) (cs_pks cs) @ [pk_of conf q]\<rparr> st1 \<Longrightarrow>
      cap_outcome conf k S (S - {r}) st [(CRemove nd, st1), (CAdd m, st2)] st2"
proof -
  let ?P = "cap_part conf k S" and ?pk = "pk_of conf"
  let ?T = "{x \<in> ?P. ?pk x \<in> set (cs_pks cs)}" and ?pks = "remove1 (?pk r) (cs_pks cs)"
  have capped: "capped conf ?P cs" using inv cs by (simp add: cap_inv_def)
  then have dist: "distinct (cs_pks cs)" and sub: "set (cs_pks cs) \<subseteq> ?pk ` ?P" and len: "cs_size cs = int (length (cs_pks cs))"
    and most: "cs_size cs = min (cp_limit conf) (int (card ?P))" by (simp_all add: capped_def)
  have inj: "inj_on ?pk ?P" and fin: "finite ?P" and rP: "r \<in> ?P"
    using identified_part [OF known, of k] old k by (auto simp: cap_part_def)
  have part: "cap_part conf k (S - {r}) = ?P - {r}" "\<And>l. l \<noteq> k \<Longrightarrow> cap_part conf l (S - {r}) = cap_part conf l S"
    using k by (auto simp: cap_part_def)
  have card: "int (card (?P - {r})) = int (card ?P) - 1" using fin rP card_gt_0_iff [of ?P] by auto
  have cardT: "int (card ?T) = cs_size cs" using shown_card [OF inj sub dist] len by simp
  have small: "int (card (?T - {r})) \<le> cp_limit conf"
    using card_mono [of ?T "?T - {r}"] fin cardT most by auto
  have pks: "set ?pks = set (cs_pks cs) - {?pk r}" "distinct ?pks" using dist by simp_all
  have T1: "{x \<in> ?P - {r}. ?pk x \<in> set ?pks} = ?T - {r}" using inj rP unfolding pks(1) by (auto simp: inj_on_def)
  have lenpks: "int (length ?pks) = cs_size cs - 1" if hit: "?pk r \<in> set (cs_pks cs)"
    using length_pos_if_in_set [OF hit] unfolding len length_remove1 if_P [OF hit] by linarith
  {
    assume out: "?pk r \<notin> set (cs_pks cs)"
    have "card ?T \<le> card (?P - {r})" by (rule card_mono) (use fin out in auto)
    then have "cs_size cs = min (cp_limit conf) (int (card (?P - {r})))" using most cardT card by simp
    moreover have "set (cs_pks cs) \<subseteq> ?pk ` (?P - {r})" using sub out by auto
    ultimately have "capped conf (?P - {r}) cs" using dist len by (simp add: capped_def)
    then have "cap_inv conf (S - {r}) st" by (intro cap_inv_same [OF inv part(2) cs]) (use part(1) in simp_all)
    moreover have "{x \<in> ?P - {r}. ?pk x \<in> set (cs_pks cs)} = ?T" using out by auto
    ultimately show "cap_outcome conf k S (S - {r}) st [] st"
      using part(1) by (simp add: cap_outcome_def cap_shown_state [OF cs])
  next
    assume hit: "?pk r \<in> set (cs_pks cs)"
      and all: "\<forall>x \<in> cap_part conf k (S - {r}). ?pk x \<in> set ?pks"
    then have "?P - {r} = ?T - {r}" using T1 part(1) by blast
    moreover have "int (card (?T - {r})) = int (card ?T) - 1" using fin rP hit card_gt_0_iff [of ?T] by auto
    ultimately have cardP: "int (card ?P) = cs_size cs" using card cardT by simp
    note lenpks = lenpks [OF hit]
    have capped': "capped conf (?P - {r}) \<lparr>cs_size = cs_size cs - 1, cs_pks = ?pks\<rparr>"
    proof -
      have "set ?pks \<subseteq> ?pk ` (?P - {r})" unfolding pks(1) using sub by auto
      moreover have "cs_size cs - 1 = min (cp_limit conf) (int (card (?P - {r})))" using most card cardP by linarith
      ultimately show ?thesis unfolding capped_def cap_state.simps using pks(2) lenpks by simp
    qed
    have "cap_inv conf (S - {r}) st1" unfolding st1 by (rule cap_inv_update [OF inv part(2)]) (use capped' part(1) in simp_all)
    with part(1) T1 small hit rP
    show "cap_outcome conf k S (S - {r}) st [(CRemove nd, st1)] st1"
      by (simp add: cap_outcome_def st1 cap_shown_update cap_shown_state [OF cs] cap_inv_consistent flip: r)
  next
    assume hit: "?pk r \<in> set (cs_pks cs)" and q: "q \<in> cap_part conf k (S - {r})" "?pk q \<notin> set ?pks" "q = node_row m"
      and st2: "st2 = AList.update k \<lparr>cs_size = cs_size cs - 1 + 1, cs_pks = ?pks @ [?pk q]\<rparr> st1"
    have qP: "q \<in> ?P" "q \<noteq> r" "?pk q \<notin> set (cs_pks cs)"
      using q(1,2) inj rP unfolding part(1) pks(1) by (auto simp: inj_on_def)
    have "card ?T \<le> card (?P - {q})" by (rule card_mono) (use fin qP in auto)
    also have "\<dots> < card ?P" using fin qP(1) by (rule card_Diff1_less)
    finally have full: "cs_size cs = cp_limit conf" "cs_size cs \<le> int (card (?P - {r}))" using most cardT card by auto
    have lenq: "int (length (?pks @ [?pk q])) = cs_size cs" using hit len length_pos_if_in_set [OF hit] by (simp add: length_remove1)
    have "set (?pks @ [?pk q]) \<subseteq> ?pk ` (?P - {r})" using pks(1) sub qP by auto
    then have capped': "capped conf (?P - {r}) \<lparr>cs_size = cs_size cs - 1 + 1, cs_pks = ?pks @ [?pk q]\<rparr>"
      using pks(2) q(2) lenq full by (simp add: capped_def)
    have inj': "inj_on ?pk (?P - {r})" by (rule inj_on_subset [OF inj]) auto
    have T2: "{x \<in> ?P - {r}. ?pk x \<in> set (?pks @ [?pk q])} = insert q (?T - {r})"
      using T1 inj' qP by (auto simp: inj_on_def)
    have "int (card (insert q (?T - {r}))) \<le> cp_limit conf"
      using cap_limit_kept [OF capped' inj'] T2 by simp
    moreover have "cap_inv conf (S - {r}) st2" unfolding st1 st2 update_last by (rule cap_inv_update [OF inv part(2)]) (use capped' part(1) in simp_all)
    moreover have "consistent conf k (S - {r}) st1"
      using pks sub lenpks [OF hit] unfolding consistent_def part(1) st1 by (auto simp: update_conv')
    moreover note part(1) T1 T2 small hit rP qP
    ultimately show "cap_outcome conf k S (S - {r}) st [(CRemove nd, st1), (CAdd m, st2)] st2"
      by (simp add: cap_outcome_def st1 st2 cap_shown_update cap_shown_state [OF cs] cap_inv_consistent flip: r q(3))
  }
qed

lemma cap_child:
  assumes inv: "cap_inv conf S st" and known: "identified conf S" and old: "r \<in> S" and r: "r = node_row nd"
    and k: "k = cap_key conf r" and cs: "map_of st k = Some cs"
  shows "cap_outcome conf k S S st (if pk_of conf r \<in> set (cs_pks cs) then [(CChild nd rel c, st)] else []) st"
proof -
  have "capped conf (cap_part conf k S) cs" using inv cs by (simp add: cap_inv_def)
  moreover have "r \<in> cap_part conf k S" using old k by (simp add: cap_part_def)
  moreover note cap_limit_kept [of conf "cap_part conf k S" cs] identified_part [OF known, of k] inv
  ultimately show ?thesis by (simp add: cap_outcome_def cap_shown_state [OF cs] cap_inv_consistent flip: r)
qed

lemma cap_edit:
  assumes inv: "cap_inv conf S st" and known: "identified conf S" "identified conf (insert n (S - {r}))"
    and edit: "r \<in> S" "n = r \<or> n \<notin> S" and nodes: "r = node_row od" "n = node_row nd"
    and k: "k = cap_key conf r" "cap_key conf n = k" and cs: "map_of st k = Some cs"
    and st': "map_of st' = (map_of st)(k \<mapsto> \<lparr>cs_size = cs_size cs,
      cs_pks = map (\<lambda>p. if p = pk_of conf r then pk_of conf n else p) (cs_pks cs)\<rparr>)"
  shows "pk_of conf r \<notin> set (cs_pks cs) \<Longrightarrow> cap_outcome conf k S (insert n (S - {r})) st [] st"
    and "pk_of conf r \<in> set (cs_pks cs) \<Longrightarrow> cap_outcome conf k S (insert n (S - {r})) st [(CEdit nd od, st')] st'"
proof -
  let ?P = "cap_part conf k S" and ?pk = "pk_of conf"
  let ?P' = "insert n (?P - {r})" and ?T = "{x \<in> ?P. ?pk x \<in> set (cs_pks cs)}"
  let ?pks = "map (\<lambda>p. if p = ?pk r then ?pk n else p) (cs_pks cs)"
  have capped: "capped conf ?P cs" using inv cs by (simp add: cap_inv_def)
  then have dist: "distinct (cs_pks cs)" and sub: "set (cs_pks cs) \<subseteq> ?pk ` ?P" by (simp_all add: capped_def)
  have part: "cap_part conf k (insert n (S - {r})) = ?P'" "\<And>l. l \<noteq> k \<Longrightarrow> cap_part conf l (insert n (S - {r})) = cap_part conf l S"
    using k by (auto simp: cap_part_def)
  have inj: "inj_on ?pk ?P" and inj': "inj_on ?pk ?P'" and fin: "finite ?P" and rP: "r \<in> ?P"
    using identified_part [OF known(1), of k] identified_part [OF known(2), of k] edit(1) k part(1) by (auto simp: cap_part_def)
  have nP: "n \<notin> ?P - {r}" using edit(2) by (auto simp: cap_part_def)
  have card: "card ?P' = card ?P" using fin rP nP card_Suc_Diff1 [of ?P r] by simp
  have others: "?pk n \<notin> ?pk ` (?P - {r})" using inj' nP by (auto simp: inj_on_def)
  {
    assume out: "?pk r \<notin> set (cs_pks cs)"
    then have sub': "set (cs_pks cs) \<subseteq> ?pk ` (?P - {r})" using sub by auto
    then have "capped conf ?P' cs" using capped card by (auto simp: capped_def)
    then have "cap_inv conf (insert n (S - {r})) st" by (intro cap_inv_same [OF inv part(2) cs]) (use part(1) in simp_all)
    moreover have "{x \<in> ?P'. ?pk x \<in> set (cs_pks cs)} = ?T" using out others sub' by auto
    ultimately show "cap_outcome conf k S (insert n (S - {r})) st [] st"
      using part(1) by (simp add: cap_outcome_def cap_shown_state [OF cs])
  next
    assume hit: "?pk r \<in> set (cs_pks cs)"
    have rest: "set (cs_pks cs) - {?pk r} \<subseteq> ?pk ` (?P - {r})" using sub by auto
    then have "?pk n \<notin> set (cs_pks cs) - {?pk r}" using others by auto
    then have dist': "distinct ?pks" using dist by (auto simp: distinct_map inj_on_def)
    have set': "set ?pks = insert (?pk n) (set (cs_pks cs) - {?pk r})" using hit by auto
    have capped': "capped conf ?P' \<lparr>cs_size = cs_size cs, cs_pks = ?pks\<rparr>"
      unfolding capped_def cap_state.simps set' using dist' rest capped card by (auto simp: capped_def)
    have shown: "{x \<in> ?P'. ?pk x \<in> set ?pks} = insert n (?T - {r})"
    proof -
      have other: "?pk x \<noteq> ?pk r \<and> ?pk x \<noteq> ?pk n" if "x \<in> ?P - {r}" for x
      proof
        show "?pk x \<noteq> ?pk r" using inj_onD [OF inj, of x r] that rP by auto
        show "?pk x \<noteq> ?pk n" using others imageI [OF that, of ?pk] by metis
      qed
      have "?pk x \<in> set ?pks \<longleftrightarrow> ?pk x \<in> set (cs_pks cs)" if "x \<in> ?P - {r}" for x
        using other [OF that] unfolding set' by simp
      then have "{x \<in> ?P - {r}. ?pk x \<in> set ?pks} = ?T - {r}" by blast
      moreover have "?pk n \<in> set ?pks" unfolding set' by simp
      ultimately show ?thesis by blast
    qed
    have "int (card (insert n (?T - {r}))) \<le> cp_limit conf"
      using cap_limit_kept [OF capped' inj'] shown by simp
    moreover have "cap_inv conf (insert n (S - {r})) st'"
      by (rule cap_inv_map [OF inv part(2) _ st']) (use capped' part(1) in simp_all)
    moreover have "cap_shown conf k (insert n (S - {r})) st' = insert n (?T - {r})"
      using shown part(1) by (simp add: cap_shown_def st')
    moreover have "r \<in> ?T" "n = r \<or> n \<notin> ?T" using hit rP nP by auto
    ultimately show "cap_outcome conf k S (insert n (S - {r})) st [(CEdit nd od, st')] st'"
      by (simp add: cap_outcome_def cap_shown_state [OF cs] cap_inv_consistent flip: nodes)
  }
qed

subsection \<open>Push\<close>

text \<open>An edit stays in its partition, and rows that are in no partition a constraint can ask for do not come.\<close>

abbreviation cap_as_take :: "cap_conf \<Rightarrow> take_conf" where
  "cap_as_take conf \<equiv> \<lparr>tc_limit = cp_limit conf, tc_partition = cp_partition conf, tc_compare = (\<lambda>_ _. 0)\<rparr>"

definition cap_fits :: "cap_conf \<Rightarrow> change \<Rightarrow> bool" where
  "cap_fits conf ch \<longleftrightarrow> keyed (cap_as_take conf) (changed_row ch) \<and>
     (\<forall>n old. ch = CEdit n old \<longrightarrow> cap_key conf (node_row n) = cap_key conf (node_row old))"

lemma cap_key_take: "getCapStateKey p r = JStr ''cap'' # getTakeStateKey p r"
  by (simp add: getCapStateKey_def getTakeStateKey_def)

lemma cap_partition_rows:
  assumes "keyed (cap_as_take conf) r"
  shows "{x \<in> S. matches (cap_partition_constraint conf r) x} = cap_part conf (cap_key conf r) S"
  using row_constraint_part [OF assms, of S]
  by (simp add: cap_partition_constraint_def row_constraint_def cap_part_def part_of_def cap_key_def cap_key_take)

lemma first_outside_cases:
  assumes "set (rows_of_items nodes) = P"
  obtains (none) "first_outside conf pks nodes = None" "\<forall>x \<in> P. pk_of conf x \<in> set pks"
  | (some) n where "first_outside conf pks nodes = Some n" "node_row n \<in> P" "pk_of conf (node_row n) \<notin> set pks"
proof (cases "first_outside conf pks nodes")
  case None
  with assms none show ?thesis by (auto simp: first_outside_def find_None_iff pk_of_def rows_of_items_def)
next
  case (Some n)
  then have "n \<in> set (skipYields nodes)" "pk_of conf (node_row n) \<notin> set pks"
    by (auto simp: first_outside_def find_Some_iff pk_of_def)
  with assms some [OF Some] show ?thesis by (auto simp: rows_of_items_def)
qed

lemma cap_edit_guard:
  assumes "cap_fits conf (CEdit n old)"
  shows "(case cp_partition conf of
       None \<Rightarrow> Inr ()
     | Some keys \<Rightarrow> bind_result (makePartitionKeyComparator u8 keys (node_row old) (node_row n)) (\<lambda>c.
         if c = 0 then Inr () else Inl (AssertionFailed ''Unexpected change of partition key''))) = Inr ()"
  using assms partition_unchanged [of "cap_as_take conf" "node_row old" "node_row n"]
  by (auto simp: cap_fits_def cap_key_def cap_key_take split: option.split)

lemma cap_parts_apart:
  assumes "cap_fits conf ch" "k = cap_key conf (changed_row ch)" "l \<noteq> k"
  shows "cap_part conf l (apply_push ch S) = cap_part conf l S"
proof (cases ch)
  case (CEdit n old)
  with assms show ?thesis by (auto simp: cap_fits_def cap_part_def)
qed (use assms in \<open>auto simp: cap_part_def\<close>)

lemma cap_push_spec:
  assumes input: "cap_input cmp input (apply_push ch S) ok conf" and known: "identified conf S"
    and inv: "cap_inv conf S st" and push: "push_ok ch S" and fits: "cap_fits conf ch" and k: "k = cap_key conf (changed_row ch)"
  shows "\<exists>evs st'. cap_push u8 conf input ch st = Inr (evs, st') \<and> cap_outcome conf k S (apply_push ch S) st evs st'"
proof (cases "map_of st k")
  case None
  have "cap_push u8 conf input ch st = Inr ([], st)"
    using None k cap_edit_guard [of conf _ _ u8] fits
    by (cases ch) (simp_all add: cap_push_def cap_pushEditChange_def Let_def flip: cap_key_def)
  moreover have "cap_inv conf (apply_push ch S) st"
    using inv cap_parts_apart [OF fits k] None unfolding cap_inv_def by (metis option.distinct(1))
  ultimately show ?thesis using None by (simp add: cap_outcome_def cap_shown_def)
next
  case (Some cs)
  have known': "identified conf (apply_push ch S)"
    using input by (simp add: cap_input_def cap_input_axioms_def)
  have keyed: "keyed (cap_as_take conf) (changed_row ch)" using fits by (simp add: cap_fits_def)
  show ?thesis
  proof (cases ch)
    case (CAdd nd)
    note add = cap_add [OF inv _ _ refl _ Some, of nd]
    show ?thesis
      using add known' push k Some by (cases "cs_size cs < cp_limit conf")
        (auto simp: CAdd cap_push_def Let_def pk_of_def simp flip: cap_key_def)
  next
    case (CChild nd rel c)
    from cap_child [OF inv known _ refl _ Some, of nd rel c] push k Some show ?thesis
      by (auto simp: CChild cap_push_def Let_def pk_of_def simp flip: cap_key_def split: if_splits)
  next
    case (CEdit nd old)
    define st' where "st' = (if pk_of conf (node_row old) \<noteq> pk_of conf (node_row nd)
      then AList.update k \<lparr>cs_size = cs_size cs,
        cs_pks = map (\<lambda>p. if p = pk_of conf (node_row old) then pk_of conf (node_row nd) else p) (cs_pks cs)\<rparr> st else st)"
    have "map_of st' = (map_of st)(k \<mapsto> \<lparr>cs_size = cs_size cs,
        cs_pks = map (\<lambda>p. if p = pk_of conf (node_row old) then pk_of conf (node_row nd) else p) (cs_pks cs)\<rparr>)"
    proof (cases "pk_of conf (node_row old) = pk_of conf (node_row nd)")
      case True
      then have "map (\<lambda>p. if p = pk_of conf (node_row old) then pk_of conf (node_row nd) else p) (cs_pks cs) = cs_pks cs"
        by (simp add: map_idI)
      with True Some show ?thesis by (auto simp: st'_def fun_upd_idem)
    qed (simp add: st'_def update_conv')
    from cap_edit [OF inv known _ _ _ refl refl _ _ Some this] known' push fits k
    have "pk_of conf (node_row old) \<notin> set (cs_pks cs) \<Longrightarrow> cap_outcome conf k S (apply_push ch S) st [] st"
      "pk_of conf (node_row old) \<in> set (cs_pks cs) \<Longrightarrow> cap_outcome conf k S (apply_push ch S) st [(CEdit nd old, st')] st'"
      by (simp_all add: CEdit cap_fits_def)
    then show ?thesis
      using cap_edit_guard [of conf nd old u8] fits k Some
      by (cases "pk_of conf (node_row old) \<in> set (cs_pks cs)")
        (auto simp: CEdit cap_push_def cap_pushEditChange_def Let_def st'_def simp flip: cap_key_def pk_of_def)
  next
    case (CRemove nd)
    let ?r = "node_row nd"
    note remove = cap_remove [OF inv known _ refl _ Some refl, of nd]
    have r: "?r \<in> S" "k = cap_key conf ?r" and S': "apply_push ch S = S - {?r}" using push k by (simp_all add: CRemove)
    show ?thesis
    proof (cases "pk_of conf ?r \<in> set (cs_pks cs)")
      case False
      with remove(1) r show ?thesis
        by (simp add: CRemove S' cap_push_def cap_push_remove_def Let_def Some [unfolded r(2)] flip: cap_key_def pk_of_def)
    next
      case True
      have "\<forall>d. cap_partition_constraint conf ?r = Some d \<longrightarrow> distinct (map fst d)"
        using input by (auto simp: cap_input_def cap_input_axioms_def cap_partition_constraint_def o_def)
      from cap_input.cap_input_rows [OF input this] obtain nodes where
        nodes: "input (cap_req (cap_partition_constraint conf ?r)) = Inr nodes"
        and rows: "set (rows_of_items nodes) = {x \<in> apply_push ch S. matches (cap_partition_constraint conf ?r) x}" by blast
      have rows: "set (rows_of_items nodes) = cap_part conf k (S - {?r})"
        unfolding rows S' r(2) by (rule cap_partition_rows) (use keyed in \<open>simp add: CRemove\<close>)
      note run = cap_push_def cap_push_remove_def CRemove Let_def Some [unfolded r(2)] nodes S'
      from rows show ?thesis
      proof (cases rule: first_outside_cases [where conf = conf and pks = "remove1 (pk_of conf ?r) (cs_pks cs)"])
        case none
        with remove(2) r True show ?thesis by (simp add: run flip: cap_key_def pk_of_def)
      next
        case (some n)
        from remove(3) [OF r True some(2,3) refl refl] r True some(1) show ?thesis
          by (simp add: run flip: cap_key_def pk_of_def)
      qed
    qed
  qed
qed

subsection \<open>Fetch\<close>

lemma deserialize_serialize:
  assumes "distinct (cp_primaryKey conf)"
  shows "deserializePKToConstraint (pk_of conf r) (cp_primaryKey conf) =
    map (\<lambda>k. (k, normalizeUndefined (get_field r k))) (cp_primaryKey conf)"
proof -
  have "zip (cp_primaryKey conf) (pk_of conf r) = map (\<lambda>k. (k, normalizeUndefined (get_field r k))) (cp_primaryKey conf)"
    by (simp add: pk_of_def serializePK_def zip_map2 zip_same_conv_map)
  with update_distinct [of "map (\<lambda>k. (k, normalizeUndefined (get_field r k))) (cp_primaryKey conf)" "[]"] assms show ?thesis
    by (simp add: deserializePKToConstraint_def o_def)
qed

lemma pk_constraint_matches:
  assumes "distinct (cp_primaryKey conf)" "JNull \<notin> set (pk_of conf r)"
  shows "matches (Some (deserializePKToConstraint (pk_of conf r) (cp_primaryKey conf))) x \<longleftrightarrow> pk_of conf x = pk_of conf r"
proof -
  have nn: "\<forall>k \<in> set (cp_primaryKey conf). normalizeUndefined (get_field r k) \<noteq> JNull"
    using assms(2) by (force simp: pk_of_def serializePK_def)
  have idem: "normalizeUndefined (normalizeUndefined v) = normalizeUndefined v" for v
    by (cases v) (simp_all add: normalizeUndefined_def)
  have "valuesEqual (get_field x k) (normalizeUndefined (get_field r k)) \<longleftrightarrow>
      normalizeUndefined (get_field x k) = normalizeUndefined (get_field r k)" if "k \<in> set (cp_primaryKey conf)" for k
    using nn that valuesEqual_normal [of "normalizeUndefined (get_field r k)"] by (simp add: idem)
  then show ?thesis
    unfolding deserialize_serialize [OF assms(1)]
    by (auto simp: matches_def constraintMatchesRow_iff pk_of_def serializePK_def)
qed

lemma distinct_one: "distinct xs \<Longrightarrow> set xs = {x} \<Longrightarrow> xs = [x]"
  by (cases xs; cases "tl xs") auto

context cap_input
begin

lemma fetch_pk:
  assumes "r \<in> rows"
  obtains items where "input (cap_req (Some (deserializePKToConstraint (pk_of conf r) (cp_primaryKey conf)))) = Inr items"
    "rows_of_items items = [r]"
proof -
  let ?c = "deserializePKToConstraint (pk_of conf r) (cp_primaryKey conf)"
  have nn: "JNull \<notin> set (pk_of conf r)" and inj: "inj_on (pk_of conf) rows" using known_rows assms by (auto simp: identified_def)
  have "\<forall>d. Some ?c = Some d \<longrightarrow> distinct (map fst d)"
    using distinct_keys(1) by (simp add: deserialize_serialize [OF distinct_keys(1)] o_def)
  from cap_input_rows [OF this] obtain items where
    items: "input (cap_req (Some ?c)) = Inr items" "distinct (rows_of_items items)"
    "set (rows_of_items items) = {x \<in> rows. matches (Some ?c) x}" by blast
  have "set (rows_of_items items) = {r}"
    unfolding items(3) pk_constraint_matches [OF distinct_keys(1) nn] using inj assms by (auto simp: inj_on_def)
  with items(2) have "rows_of_items items = [r]" by (rule distinct_one)
  with items(1) show ?thesis by (rule that)
qed

lemma fetch_pks_rows:
  "distinct pks \<Longrightarrow> set pks \<subseteq> pk_of conf ` rows \<Longrightarrow> \<exists>items. fetch_pks conf input pks = Inr items \<and>
     distinct (rows_of_items items) \<and> set (rows_of_items items) = {x \<in> rows. pk_of conf x \<in> set pks}"
proof (induction pks)
  case (Cons pk pks)
  then obtain r where r: "r \<in> rows" "pk = pk_of conf r" by auto
  from fetch_pk [OF r(1)] obtain items where one: "input (cap_req (Some (deserializePKToConstraint pk (cp_primaryKey conf)))) = Inr items"
    "rows_of_items items = [r]" by (metis r(2))
  from Cons obtain rest where rest: "fetch_pks conf input pks = Inr rest" "distinct (rows_of_items rest)"
    "set (rows_of_items rest) = {x \<in> rows. pk_of conf x \<in> set pks}" by auto
  have "{x \<in> rows. pk_of conf x \<in> set (pk # pks)} = insert r {x \<in> rows. pk_of conf x \<in> set pks}"
    using r known_rows by (auto simp: identified_def inj_on_def)
  moreover have "r \<notin> {x \<in> rows. pk_of conf x \<in> set pks}" using Cons.prems(1) r(2) by simp
  moreover have "rows_of_items (items @ rest) = r # rows_of_items rest" using one(2) by (simp add: rows_of_items_def)
  ultimately show ?case using one(1) rest by simp
qed simp

end

lemma cap_loop_spec:
  "n < cp_limit conf \<Longrightarrow> cap_loop conf items n pks = (out, n', pks') \<Longrightarrow>
     rows_of_items out = take (nat (cp_limit conf - n)) (rows_of_items items) \<and> n' = n + int (length (rows_of_items out)) \<and>
     pks' = pks @ map (pk_of conf) (rows_of_items out)"
proof (induction conf items n pks arbitrary: out n' pks' rule: cap_loop.induct)
  case (3 conf nd nodes n pks)
  show ?case
  proof (cases "n + 1 = cp_limit conf")
    case True
    then have "nat (cp_limit conf - n) = 1" by simp
    with True "3.prems" show ?thesis by (auto simp: Let_def pk_of_def)
  next
    case False
    then have lt: "n + 1 < cp_limit conf" using "3.prems" by simp
    obtain out1 where out1: "cap_loop conf nodes (n + 1) (pks @ [serializePK (node_row nd) (cp_primaryKey conf)]) = (out1, n', pks')"
      "out = Item nd # out1"
      using "3.prems" False by (auto simp: Let_def split: prod.splits)
    note IH = "3.IH" [OF refl refl False lt out1(1)]
    have "nat (cp_limit conf - n) = Suc (nat (cp_limit conf - (n + 1)))" using lt by simp
    with IH out1(2) show ?thesis by (simp add: pk_of_def)
  qed
qed (auto split: prod.splits)

definition cap_request :: "cap_conf \<Rightarrow> fetch_request \<Rightarrow> bool" where
  "cap_request conf req \<longleftrightarrow> req_start req = None \<and> \<not> req_reverse req \<and> req_multi req = None \<and> part_request (cap_as_take conf) req"

definition cap_request_key :: "cap_conf \<Rightarrow> fetch_request \<Rightarrow> serialized" where
  "cap_request_key conf req = getCapStateKey (cp_partition conf) (req_constraint req)"

lemma cap_request_rows:
  assumes "cap_request conf req"
  shows "{x \<in> S. matches (req_constraint req) x} = cap_part conf (cap_request_key conf req) S"
  using part_request_rows [of "cap_as_take conf" req S] assms
  by (simp add: cap_request_def part_of_def request_key_def cap_part_def cap_key_def cap_request_key_def cap_key_take)

lemma cap_request_guards:
  assumes "cap_request conf req"
  shows "req = cap_req (req_constraint req)" "\<forall>d. req_constraint req = Some d \<longrightarrow> distinct (map fst d)"
    "constraintMatchesPartitionKey (req_constraint req) (cp_partition conf)"
    "cp_partition conf = None \<or> (req_constraint req \<noteq> None \<and> constraintMatchesPartitionKey (req_constraint req) (cp_partition conf))"
  using assms by (auto simp: cap_request_def cap_req_def part_request_def constraintMatchesPartitionKey_def split: option.splits)

lemma cap_fetch_spec:
  assumes input: "cap_input cmp input S ok conf" and lim: "0 \<le> cp_limit conf" and req: "cap_request conf req"
    and k: "k = cap_request_key conf req" and now: "consistent conf k S st"
  shows "\<exists>out st'. cap_fetch conf input req st = Inr (out, st') \<and> distinct (rows_of_items out) \<and>
    set (rows_of_items out) = cap_shown conf k S st' \<and> (map_of st k \<noteq> None \<longrightarrow> st' = st) \<and> (cap_inv conf S st \<longrightarrow> cap_inv conf S st') \<and>
    (map_of st k = None \<longrightarrow> int (card (cap_shown conf k S st')) = min (cp_limit conf) (int (card (cap_part conf k S))))"
proof (cases "map_of st k")
  case (Some cs)
  have known: "inj_on (pk_of conf) (cap_part conf k S)" "inj_on (pk_of conf) S"
    using input identified_part by (auto simp: cap_input_def cap_input_axioms_def identified_def)
  have ok: "distinct (cs_pks cs)" "set (cs_pks cs) \<subseteq> pk_of conf ` cap_part conf k S" "cs_size cs = int (length (cs_pks cs))"
    using now Some by (simp_all add: consistent_def)
  then have "set (cs_pks cs) \<subseteq> pk_of conf ` S" by (auto simp: cap_part_def)
  from cap_input.fetch_pks_rows [OF input ok(1) this] obtain items where
    items: "fetch_pks conf input (cs_pks cs) = Inr items" "distinct (rows_of_items items)"
    "set (rows_of_items items) = {x \<in> S. pk_of conf x \<in> set (cs_pks cs)}" by blast
  have "{x \<in> S. pk_of conf x \<in> set (cs_pks cs)} = cap_shown conf k S st"
    using ok(2) known(2) unfolding cap_shown_state [OF Some] by (auto simp: cap_part_def inj_on_def)
  moreover have "cap_fetch conf input req st = Inr (if cs_size cs = 0 then [] else items, st)"
    using cap_request_guards [OF req] req Some k items(1)
    by (auto simp: cap_fetch_def cap_request_def simp flip: cap_request_key_def)
  moreover have "cs_size cs = 0 \<Longrightarrow> rows_of_items items = []" using items(3) ok(3) by simp
  ultimately show ?thesis using items(2,3) Some by (cases "cs_size cs = 0") auto
next
  case None
  show ?thesis
  proof (cases "cp_limit conf = 0")
    case True
    then have "cap_fetch conf input req st = Inr ([], st)"
      using cap_request_guards [OF req] req None k by (auto simp: cap_fetch_def cap_initialFetch_def cap_request_def simp flip: cap_request_key_def)
    with True None show ?thesis by (simp add: cap_shown_def)
  next
    case False
    then have pos: "0 < cp_limit conf" using lim by simp
    from cap_input.cap_input_rows [OF input cap_request_guards(2) [OF req]] obtain items where
      items: "input (cap_req (req_constraint req)) = Inr items" "distinct (rows_of_items items)"
      "set (rows_of_items items) = {x \<in> S. matches (req_constraint req) x}" by blast
    let ?P = "cap_part conf k S"
    have P: "set (rows_of_items items) = ?P" unfolding items(3) k by (rule cap_request_rows [OF req])
    have input_req: "input req = Inr items" using items(1) cap_request_guards(1) [OF req] by metis
    obtain out n pks where loop: "cap_loop conf items 0 [] = (out, n, pks)" by (metis prod_cases3)
    from cap_loop_spec [OF pos loop] have out: "rows_of_items out = take (nat (cp_limit conf)) (rows_of_items items)"
      "n = int (length (rows_of_items out))" "pks = map (pk_of conf) (rows_of_items out)" by simp_all
    define st' where "st' = AList.update k \<lparr>cs_size = n, cs_pks = pks\<rparr> st"
    have run: "cap_fetch conf input req st = Inr (out, st')"
      using cap_request_guards [OF req] req None k False input_req loop
      by (auto simp: cap_fetch_def cap_initialFetch_def cap_request_def Let_def st'_def simp flip: cap_request_key_def)
    have known: "inj_on (pk_of conf) ?P" "finite ?P"
      using input identified_part by (auto simp: cap_input_def cap_input_axioms_def)
    have sub: "set (rows_of_items out) \<subseteq> ?P" using out(1) P set_take_subset by metis
    have dist: "distinct (rows_of_items out)" using items(2) out(1) by simp
    have card: "card ?P = length (rows_of_items items)" using distinct_card [OF items(2)] P by simp
    have size: "n = min (cp_limit conf) (int (card ?P))" using out(1,2) card pos by auto
    have capped: "capped conf ?P \<lparr>cs_size = n, cs_pks = pks\<rparr>"
      using dist sub out(2,3) size inj_on_subset [OF known(1) sub] by (auto simp: capped_def distinct_map)
    have shown: "cap_shown conf k S st' = set (rows_of_items out)"
      using sub known(1) unfolding st'_def cap_shown_update by (auto simp: out(3) inj_on_def)
    have "int (card (cap_shown conf k S st')) = min (cp_limit conf) (int (card ?P))"
      using distinct_card [OF dist] size out(2) by (simp add: shown)
    moreover have "cap_inv conf S st \<longrightarrow> cap_inv conf S st'"
      unfolding st'_def using cap_inv_update [of conf S st k S] capped by blast
    ultimately show ?thesis using run dist shown None by auto
  qed
qed

end

