(* ===== verification/CapClaims.thy ===== *)
theory CapClaims
  imports CapCorrect JoinClaims
begin

section \<open>The claims about Cap\<close>

text \<open>
  A sample: at most two rows of each number \<open>foo\<close> of the sample run, the second row having just been added.
\<close>

definition sample_cap :: cap_conf where
  "sample_cap = \<lparr>cp_limit = 2, cp_partition = Some [''foo''], cp_primaryKey = [''id'']\<rparr>"

lemma sample_identified: "identified sample_cap {sample_row 1 1, sample_row 2 1}"
  by (auto simp: identified_def pk_of_def serializePK_def sample_cap_def sample_row_def get_field_def normalizeUndefined_def inj_on_def)

interpretation sample_cap: cap_input "conn_compareRows utf8_lex sample_conn" "memory_fetch utf8_lex run6 sample_conn"
    "shown run6 sample_conn" join_ok sample_cap
proof -
  have input: "pipeline_input (conn_compareRows utf8_lex sample_conn) (memory_fetch utf8_lex run6 sample_conn) (shown run6 sample_conn) join_ok"
    using sample_source.source.pipeline_input_axioms by (simp add: join_ok_def [abs_def])
  have "join_ok (cap_req c)" if "\<forall>d. c = Some d \<longrightarrow> distinct (map fst d)" for c
    unfolding join_ok_def sample_conn_def using that by (auto intro!: run6_request_ok simp: cap_req_def split: option.split)
  with input show "cap_input (conn_compareRows utf8_lex sample_conn) (memory_fetch utf8_lex run6 sample_conn)
      (shown run6 sample_conn) join_ok sample_cap"
    using sample_identified by (simp add: cap_input_def cap_input_axioms_def sample_shown insert_commute) (simp add: sample_cap_def)
qed

text \<open>C10: A push through a Cap keeps its state: of every partition that was fetched it shows as many rows as the limit
  allows, so the output of an \<open>EXISTS\<close> sees a row iff there is one and the limit is not 0. The changes
  pushed to the output keep its contract and never exceed the limit: when a shown row is removed, another takes its place if
  there is one, and what a fetch would return at each change is what the output has then. No assertion fails.\<close>

theorem cap_push_correct:
  assumes "cap_input cmp input (apply_push ch S) ok conf" and "identified conf S" and "cap_inv conf S st" and "push_ok ch S"
    and "cap_fits conf ch" and "k = cap_key conf (changed_row ch)"
  shows "\<exists>evs st'. cap_push u8 conf input ch st = Inr (evs, st') \<and> cap_inv conf (apply_push ch S) st' \<and>
    cap_events_ok conf k (apply_push ch S) (cap_shown conf k S st) evs (cap_shown conf k (apply_push ch S) st') \<and>
    (\<forall>l. map_of st' l \<noteq> None \<longrightarrow> int (card (cap_shown conf l (apply_push ch S) st')) =
       min (cp_limit conf) (int (card (cap_part conf l (apply_push ch S)))))"
proof -
  from cap_push_spec [OF assms, of u8] obtain evs st' where
    run: "cap_push u8 conf input ch st = Inr (evs, st')" "cap_outcome conf k S (apply_push ch S) st evs st'" by blast
  have "identified conf (apply_push ch S)" using assms(1) by (simp add: cap_input_def cap_input_axioms_def)
  with run cap_shown_size [of conf "apply_push ch S" st'] show ?thesis by (auto simp: cap_outcome_def)
qed

lemma sample_cap_key: "cap_key sample_cap (sample_row i f) = [JStr ''cap'', JNum (of_nat f)]"
  by (simp add: cap_key_def getCapStateKey_def sample_cap_def sample_foo normalizeUndefined_def)

lemma sample_pk: "pk_of sample_cap (sample_row i f) = [JNum (of_nat i)]"
  by (simp add: pk_of_def serializePK_def sample_cap_def sample_row_def get_field_def normalizeUndefined_def)

lemma cap_sample_parts:
  "cap_part sample_cap [JStr ''cap'', JNum 1] {sample_row 1 1} = {sample_row 1 1}"
  "cap_part sample_cap [JStr ''cap'', JNum 1] (shown run6 sample_conn) = {sample_row 1 1, sample_row 2 1}"
  by (auto simp: cap_part_def sample_cap_key sample_shown)

lemma sample_cap_inv:
  "cap_inv sample_cap {sample_row 1 1} [([JStr ''cap'', JNum 1], \<lparr>cs_size = 1, cs_pks = [[JNum 1]]\<rparr>)]"
proof -
  have "cp_limit sample_cap = 2" by (simp add: sample_cap_def)
  moreover have "capped sample_cap {sample_row 1 1} \<lparr>cs_size = 1, cs_pks = [[JNum 1]]\<rparr>"
    using calculation sample_pk [of 1 1] by (simp add: capped_def)
  ultimately show ?thesis using cap_sample_parts(1) by (simp add: cap_inv_def del: part_simps)
qed

theorem cap_push_correct_witness:
  "cap_push utf8_lex sample_cap (memory_fetch utf8_lex run6 sample_conn) sample_change
       [([JStr ''cap'', JNum 1], \<lparr>cs_size = 1, cs_pks = [[JNum 1]]\<rparr>)] =
     Inr ([(sample_change, [([JStr ''cap'', JNum 1], \<lparr>cs_size = 2, cs_pks = [[JNum 1], [JNum 2]]\<rparr>)])],
       [([JStr ''cap'', JNum 1], \<lparr>cs_size = 2, cs_pks = [[JNum 1], [JNum 2]]\<rparr>)]) \<and>
   card (cap_shown sample_cap [JStr ''cap'', JNum 1] (shown run6 sample_conn)
     [([JStr ''cap'', JNum 1], \<lparr>cs_size = 2, cs_pks = [[JNum 1], [JNum 2]]\<rparr>)]) = 2"
proof -
  let ?k = "[JStr ''cap'', JNum 1]" and ?st = "[([JStr ''cap'', JNum 1], \<lparr>cs_size = 1, cs_pks = [[JNum 1]]\<rparr>)]"
    and ?st' = "[([JStr ''cap'', JNum 1], \<lparr>cs_size = 2, cs_pks = [[JNum 1], [JNum 2]]\<rparr>)]"
  have run: "cap_push utf8_lex sample_cap (memory_fetch utf8_lex run6 sample_conn) sample_change ?st = Inr ([(sample_change, ?st')], ?st')"
    using sample_cap_key [of 2 1] sample_pk [of 2 1]
    by (simp add: cap_push_def sample_change_def cap_key_def pk_of_def Let_def) (simp add: sample_cap_def)
  have differ: "sample_row 2 1 \<noteq> sample_row 1 1" by (simp add: sample_row_def)
  have rows: "apply_push sample_change {sample_row 1 1} = shown run6 sample_conn"
    by (auto simp: sample_change_def sample_shown)
  have one: "identified sample_cap {sample_row 1 1}" using sample_identified by (auto simp: identified_def)
  have fits: "cap_fits sample_cap sample_change"
    by (simp add: cap_fits_def sample_change_def keyed_def sample_cap_def sample_foo normalizeUndefined_def)
  have at: "?k = cap_key sample_cap (changed_row sample_change)" by (simp add: sample_change_def sample_cap_key)
  have new: "push_ok sample_change {sample_row 1 1}" using differ by (simp add: sample_change_def)
  have "int (card (cap_shown sample_cap ?k (shown run6 sample_conn) ?st')) =
      min (cp_limit sample_cap) (int (card (cap_part sample_cap ?k (shown run6 sample_conn))))"
    using cap_push_correct [OF sample_cap.cap_input_axioms [folded rows] one sample_cap_inv new fits at, of utf8_lex]
    unfolding run rows by (elim exE conjE) simp
  then have "card (cap_shown sample_cap ?k (shown run6 sample_conn) ?st') = 2"
    using differ by (simp add: cap_sample_parts) (simp add: sample_cap_def)
  with run show ?thesis by simp
qed

text \<open>C11: A fetch through a Cap returns, each row once, exactly the rows of the partition its state shows; the first fetch of a
  partition decides them, and they are as many as the limit allows. A later fetch leaves the state as it is, even in the middle
  of a push, so an output that asks again sees the same rows. No assertion fails.\<close>

theorem cap_fetch_correct:
  assumes "cap_input cmp input S ok conf" and "0 \<le> cp_limit conf" and "cap_request conf req"
    and "k = cap_request_key conf req" and "consistent conf k S st"
  shows "\<exists>out st'. cap_fetch conf input req st = Inr (out, st') \<and> distinct (rows_of_items out) \<and>
    set (rows_of_items out) = cap_shown conf k S st' \<and> (map_of st k \<noteq> None \<longrightarrow> st' = st) \<and> (cap_inv conf S st \<longrightarrow> cap_inv conf S st') \<and>
    (map_of st k = None \<longrightarrow> int (card (cap_shown conf k S st')) = min (cp_limit conf) (int (card (cap_part conf k S))))"
  by (rule cap_fetch_spec [OF assms])

theorem cap_fetch_correct_witness:
  "\<exists>out st'. cap_fetch sample_cap (memory_fetch utf8_lex run6 sample_conn) (cap_req (Some [(''foo'', JNum 1)])) [] = Inr (out, st') \<and>
     set (rows_of_items out) = {sample_row 1 1, sample_row 2 1} \<and> distinct (rows_of_items out)"
proof -
  let ?req = "cap_req (Some [(''foo'', JNum 1)])" and ?k = "[JStr ''cap'', JNum 1]"
  have lim: "0 \<le> cp_limit sample_cap" by (simp add: sample_cap_def)
  have req: "cap_request sample_cap ?req"
    by (simp add: cap_request_def cap_req_def part_request_def constraintMatchesPartitionKey_def sample_cap_def
      has_key_def get_field_def normalizeUndefined_def)
  have k: "?k = cap_request_key sample_cap ?req"
    by (simp add: cap_request_key_def cap_req_def getCapStateKey_def sample_cap_def get_field_def normalizeUndefined_def)
  have now: "consistent sample_cap ?k (shown run6 sample_conn) []" by (simp add: consistent_def)
  from cap_fetch_correct [OF sample_cap.cap_input_axioms lim req k now] obtain out st' where
    run: "cap_fetch sample_cap (memory_fetch utf8_lex run6 sample_conn) ?req [] = Inr (out, st')" "distinct (rows_of_items out)"
    and out: "set (rows_of_items out) = cap_shown sample_cap ?k (shown run6 sample_conn) st'"
    and size: "int (card (cap_shown sample_cap ?k (shown run6 sample_conn) st')) = min (cp_limit sample_cap) (int (card {sample_row 1 1, sample_row 2 1}))"
    by (auto simp: cap_sample_parts)
  have "card {sample_row 1 1, sample_row 2 1} = 2" by (simp add: sample_row_def)
  with size have two: "card (cap_shown sample_cap ?k (shown run6 sample_conn) st') = card {sample_row 1 1, sample_row 2 1}"
    by (simp add: sample_cap_def)
  have "cap_shown sample_cap ?k (shown run6 sample_conn) st' \<subseteq> cap_part sample_cap ?k (shown run6 sample_conn)"
    by (auto simp: cap_shown_def split: option.split)
  then have "cap_shown sample_cap ?k (shown run6 sample_conn) st' = {sample_row 1 1, sample_row 2 1}"
    using two by (intro card_subset_eq) (simp_all add: cap_sample_parts)
  with run out show ?thesis by blast
qed

end
