(* ===== verification/Union.thy ===== *)
theory Union
  imports FilterPush MergeStreams
begin

section \<open>Unions of branches (zql/src/ivm: union-fan-in.ts, union-fan-out.ts)\<close>

text \<open>
  When a branch of an \<open>OR\<close> reads a join from the child's side, the branches are inputs in their own right: a
  \<open>UnionFanOut\<close> gives each of them the same rows and a \<open>UnionFanIn\<close> merges what they return, without duplicates. A
  change comes either through the fan-out, then the fan-in collects what the branches make of it, or from
  inside one branch, then the fan-in asks the others whether they have the row. The state of the fan-in is
  the record below; its inputs are functions from requests to streams and a branch of the fan-out is
  what it makes of a change. Which schemas belong together is decided by the identity of their parts, a parameter
  here.
\<close>

record union_state =
  us_started :: bool
  us_accumulated :: "change list"

definition new_union_state :: union_state where
  "new_union_state = \<lparr>us_started = False, us_accumulated = []\<rparr>"

subsection \<open>The schema\<close>

fun union_relationships ::
    "string list \<Rightarrow> (string \<times> source_schema) list \<Rightarrow> string list \<Rightarrow> (string \<times> source_schema) list \<Rightarrow>
     ((string \<times> source_schema) list \<times> string list) result" where
  "union_relationships fanOut rels seen [] = Inr (rels, seen)"
| "union_relationships fanOut rels seen ((relName, relSchema) # rest) =
     (if relName \<in> set fanOut then union_relationships fanOut rels seen rest
      else if relName \<in> set seen
      then Inl (AssertionFailed ''Relationship exists in multiple upstream inputs to union fan-in'')
      else union_relationships fanOut (AList.update relName relSchema rels) (relName # seen) rest)"

fun union_inputs ::
    "(source_schema \<Rightarrow> bool) \<Rightarrow> string list \<Rightarrow> (string \<times> source_schema) list \<Rightarrow> string list \<Rightarrow> source_schema list \<Rightarrow>
     (string \<times> source_schema) list result" where
  "union_inputs belongs fanOut rels seen [] = Inr rels"
| "union_inputs belongs fanOut rels seen (input # inputs) =
     (if \<not> belongs input then Inl (AssertionFailed ''mismatch in union fan-in'')
      else bind_result (union_relationships fanOut rels seen (sc_relationships input)) (\<lambda>(rels', seen').
        union_inputs belongs fanOut rels' seen' inputs))"

definition new_union_fan_in ::
    "(source_schema \<Rightarrow> source_schema \<Rightarrow> bool) \<Rightarrow> source_schema \<Rightarrow> source_schema list \<Rightarrow> source_schema result" where
  "new_union_fan_in belongs fanOut inputs =
     (if sc_sort fanOut = None then Inl (AssertionFailed ''UnionFanIn requires sorted input'')
      else bind_result (union_inputs (belongs fanOut) (map fst (sc_relationships fanOut)) (sc_relationships fanOut) [] inputs)
        (\<lambda>rels. Inr (Schema (sc_compareRows fanOut) (sc_primaryKey fanOut) (sc_sort fanOut) rels (sc_isHidden fanOut))))"

subsection \<open>Fetch\<close>

text \<open>The first value of each iterator, and the first of the least of the current values.\<close>

fun fetches_prime :: "'a item list list \<Rightarrow> 'a item list \<times> 'a item list list \<times> 'a option list" where
  "fetches_prime [] = ([], [], [])"
| "fetches_prime (it # its) = (case pullNext it of (n, v, rest) \<Rightarrow>
     case fetches_prime its of (out, its', current) \<Rightarrow> (replicate n Yield @ out, rest # its', v # current))"

definition first_min :: "'a cmp \<Rightarrow> 'a option list \<Rightarrow> ('a \<times> nat) option" where
  "first_min compare current = fold (\<lambda>(c, i) acc. case c of
       None \<Rightarrow> acc
     | Some x \<Rightarrow> (case acc of None \<Rightarrow> Some (x, i) | Some (m, j) \<Rightarrow> if compare x m < 0 then Some (x, i) else acc))
     (zip current [0..<length current]) None"

lemma first_min_spec:
  "case first_min compare current of
     None \<Rightarrow> (\<forall>c \<in> set current. c = None)
   | Some (m, i) \<Rightarrow> i < length current \<and> current ! i = Some m"
proof (induction current rule: rev_induct)
  case Nil
  then show ?case by (simp add: first_min_def)
next
  case (snoc c current)
  have "first_min compare (current @ [c]) = (case c of
       None \<Rightarrow> first_min compare current
     | Some x \<Rightarrow> (case first_min compare current of None \<Rightarrow> Some (x, length current)
         | Some (m, j) \<Rightarrow> if compare x m < 0 then Some (x, length current) else first_min compare current))"
    unfolding first_min_def by simp
  with snoc show ?case by (auto simp: nth_append split: option.splits if_splits)
qed

definition ahead :: "'a item list list \<Rightarrow> 'a option list \<Rightarrow> nat" where
  "ahead its current = sum_list (map length its) + length (filter (\<lambda>c. c \<noteq> None) current)"

lemma ahead_less:
  assumes "first_min compare current = Some (m, i)" "pullNext (stream_at its i) = (n, v, rest)"
  shows "ahead (its[i := rest]) (current[i := v]) < ahead its current"
proof -
  from first_min_spec [where compare = compare and current = current] assms(1) have i: "i < length current" "current ! i = Some m" by simp_all
  have count: "length (filter (\<lambda>c. c \<noteq> None) (current[i := v])) + 1 =
      length (filter (\<lambda>c. c \<noteq> None) current) + (if v = None then 0 else 1)"
    using i
  proof (induction current arbitrary: i)
    case (Cons c current)
    then show ?case by (cases i) auto
  qed simp
  from pull_shorter [OF assms(2)] count show ?thesis unfolding ahead_def by linarith
qed

function fetches_loop :: "'a cmp \<Rightarrow> 'a item list list \<Rightarrow> 'a option list \<Rightarrow> 'a option \<Rightarrow> 'a item list" where
  "fetches_loop compare its current lastNodeYielded = (case first_min compare current of
     None \<Rightarrow> []
   | Some (minNode, minIndex) \<Rightarrow>
       (case pullNext (stream_at its minIndex) of (n, v, rest) \<Rightarrow>
          replicate n Yield @
          (if (case lastNodeYielded of None \<Rightarrow> False | Some l \<Rightarrow> compare l minNode = 0)
           then fetches_loop compare (its[minIndex := rest]) (current[minIndex := v]) lastNodeYielded
           else Item minNode # fetches_loop compare (its[minIndex := rest]) (current[minIndex := v]) (Some minNode))))"
  by pat_completeness auto
termination
  by (relation "measure (\<lambda>(_, its, current, _). ahead its current)") (simp_all, (metis ahead_less)+)

declare fetches_loop.simps [simp del]

definition mergeFetches :: "'a item list list \<Rightarrow> 'a cmp \<Rightarrow> 'a item list" where
  "mergeFetches fetches compare =
     (case fetches_prime fetches of (out, its, current) \<Rightarrow> out @ fetches_loop compare its current None)"

definition node_cmp :: "row cmp \<Rightarrow> node cmp" where
  "node_cmp cmp l r = cmp (node_row l) (node_row r)"

fun fetch_all :: "node_input list \<Rightarrow> fetch_request \<Rightarrow> node item list list result" where
  "fetch_all [] req = Inr []"
| "fetch_all (input # inputs) req =
     bind_result (input req) (\<lambda>s. bind_result (fetch_all inputs req) (\<lambda>ss. Inr (s # ss)))"

definition union_fetch :: "row cmp \<Rightarrow> node_input list \<Rightarrow> node_input" where
  "union_fetch compareRows inputs req =
     bind_result (fetch_all inputs req) (\<lambda>iterables.
       Inr (mergeFetches iterables (node_cmp (rev_cmp (req_reverse req) compareRows))))"

subsection \<open>Push\<close>

text \<open>A change from inside the branch \<open>pusher\<close>; the inputs are numbered from \<open>i\<close> on.\<close>

definition key_request :: "string list \<Rightarrow> row \<Rightarrow> fetch_request" where
  "key_request primaryKey r =
     \<lparr>req_constraint = Some (foldl (\<lambda>c key. AList.update key (get_field r key) c) [] primaryKey),
      req_multi = None, req_start = None, req_reverse = False\<rparr>"

fun probe_inputs :: "string list \<Rightarrow> nat \<Rightarrow> node_input list \<Rightarrow> nat \<Rightarrow> row \<Rightarrow> bool \<Rightarrow> (bool \<times> bool) result" where
  "probe_inputs primaryKey i [] pusher r hadMatch = Inr (False, hadMatch)"
| "probe_inputs primaryKey i (input # inputs) pusher r hadMatch =
     (if i = pusher then probe_inputs primaryKey (i + 1) inputs pusher r True
      else bind_result (input (key_request primaryKey r)) (\<lambda>fetchResult.
        if skipYields fetchResult \<noteq> [] then Inr (True, hadMatch)
        else probe_inputs primaryKey (i + 1) inputs pusher r hadMatch))"

definition pushInternalChange :: "string list \<Rightarrow> node_input list \<Rightarrow> change \<Rightarrow> nat \<Rightarrow> change list result" where
  "pushInternalChange primaryKey inputs change pusher = (case change of
     CChild n rel c \<Rightarrow> Inr [change]
   | CEdit n old \<Rightarrow> Inl (AssertionFailed ''UnionFanIn: expected add or remove change type'')
   | _ \<Rightarrow> bind_result (probe_inputs primaryKey 0 inputs pusher (node_row (change_node change)) False)
       (\<lambda>(otherBranchHasRow, hadMatch).
         if otherBranchHasRow then Inr []
         else if \<not> hadMatch then Inl (AssertionFailed ''Pusher was not one of the inputs to union-fan-in!'')
         else Inr [change]))"

definition fan_in_push ::
    "string list \<Rightarrow> node_input list \<Rightarrow> change \<Rightarrow> nat \<Rightarrow> union_state \<Rightarrow> (change list \<times> union_state) result" where
  "fan_in_push primaryKey inputs change pusher st =
     (if \<not> us_started st
      then bind_result (pushInternalChange primaryKey inputs change pusher) (\<lambda>out. Inr (out, st))
      else Inr ([], st\<lparr>us_accumulated := us_accumulated st @ [change]\<rparr>))"

definition fanOutStartedPushing :: "union_state \<Rightarrow> union_state result" where
  "fanOutStartedPushing st =
     (if us_started st then Inl (AssertionFailed ''UnionFanIn: fanOutStartedPushing called while already pushing'')
      else Inr (st\<lparr>us_started := True\<rparr>))"

definition fanOutDonePushing ::
    "source_schema \<Rightarrow> node_input list \<Rightarrow> change_type \<Rightarrow> union_state \<Rightarrow> (change list \<times> union_state) result" where
  "fanOutDonePushing schema inputs fanOutChangeType st =
     (if \<not> us_started st then Inl (AssertionFailed ''UnionFanIn: fanOutDonePushing called without fanOutStartedPushing'')
      else
        (let st = st\<lparr>us_started := False\<rparr> in
         if inputs = [] then Inr ([], st)
         else if us_accumulated st = [] then Inr ([], st)
         else bind_result
           (pushAccumulatedChanges mergeRelationships (makeAddEmptyRelationships schema) (us_accumulated st) fanOutChangeType)
           (\<lambda>out. Inr (out, st\<lparr>us_accumulated := []\<rparr>))))"

text \<open>What the output \<open>i\<close> of the fan-out makes of the change reaches the fan-in from its input \<open>i\<close>.\<close>

fun fan_in_pushes ::
    "string list \<Rightarrow> node_input list \<Rightarrow> change list \<Rightarrow> nat \<Rightarrow> union_state \<Rightarrow> (change list \<times> union_state) result" where
  "fan_in_pushes primaryKey inputs [] pusher st = Inr ([], st)"
| "fan_in_pushes primaryKey inputs (c # cs) pusher st =
     bind_result (fan_in_push primaryKey inputs c pusher st) (\<lambda>(out, st1).
     bind_result (fan_in_pushes primaryKey inputs cs pusher st1) (\<lambda>(out', st2). Inr (out @ out', st2)))"

fun fan_out_pushes ::
    "string list \<Rightarrow> node_input list \<Rightarrow> nat \<Rightarrow> (change \<Rightarrow> change list result) list \<Rightarrow> change \<Rightarrow> union_state \<Rightarrow>
     (change list \<times> union_state) result" where
  "fan_out_pushes primaryKey inputs i [] change st = Inr ([], st)"
| "fan_out_pushes primaryKey inputs i (output # outputs) change st =
     bind_result (output change) (\<lambda>cs.
     bind_result (fan_in_pushes primaryKey inputs cs i st) (\<lambda>(out, st1).
     bind_result (fan_out_pushes primaryKey inputs (i + 1) outputs change st1) (\<lambda>(out', st2). Inr (out @ out', st2))))"

definition fan_out_push ::
    "source_schema \<Rightarrow> node_input list \<Rightarrow> (change \<Rightarrow> change list result) list \<Rightarrow> change \<Rightarrow> union_state \<Rightarrow>
     (change list \<times> union_state) result" where
  "fan_out_push schema inputs outputs change st =
     bind_result (fanOutStartedPushing st) (\<lambda>st1.
     bind_result (fan_out_pushes (sc_primaryKey schema) inputs 0 outputs change st1) (\<lambda>(out, st2).
     bind_result (fanOutDonePushing schema inputs (type_of_change change) st2) (\<lambda>(out', st3). Inr (out @ out', st3))))"

end
