(* ===== verification/UnionCorrect.thy ===== *)
theory UnionCorrect
  imports Union Operators TakeOrder
begin

section \<open>A union shows each row of its branches once\<close>

text \<open>
  First the merge without duplicates, then what \<open>pushAccumulatedChanges\<close> makes of changes whose nodes differ in the
  relationships of their branches, by a simulation: without those relationships it does what it does for the branches
  of a filter graph.
\<close>

subsection \<open>Merging\<close>

definition upcoming :: "'a item list list \<Rightarrow> 'a option list \<Rightarrow> nat \<Rightarrow> 'a list" where
  "upcoming its current i = (case current ! i of None \<Rightarrow> [] | Some x \<Rightarrow> [x]) @ skipYields (its ! i)"

definition merging :: "'a cmp \<Rightarrow> 'a item list list \<Rightarrow> 'a option list \<Rightarrow> 'a option \<Rightarrow> bool" where
  "merging compare its current given \<longleftrightarrow> length its = length current \<and>
     (\<forall>i < length its. sorted_cmp compare (upcoming its current i) \<and> (current ! i = None \<longrightarrow> skipYields (its ! i) = []) \<and>
       (\<forall>l. given = Some l \<longrightarrow> (\<forall>x \<in> set (upcoming its current i). compare l x \<le> 0)))"

definition from_first :: "'a cmp \<Rightarrow> 'a list list \<Rightarrow> 'a \<Rightarrow> bool" where
  "from_first compare xss y \<longleftrightarrow> (\<exists>i < length xss. y \<in> set (xss ! i) \<and> (\<forall>j < i. \<forall>x \<in> set (xss ! j). compare x y \<noteq> 0))"

definition merged_as :: "'a cmp \<Rightarrow> 'a list list \<Rightarrow> 'a option \<Rightarrow> 'a list \<Rightarrow> bool" where
  "merged_as compare xss given out \<longleftrightarrow> sorted_cmp compare out \<and>
     (\<forall>y \<in> set out. (\<forall>l. given = Some l \<longrightarrow> compare l y < 0) \<and> from_first compare xss y) \<and>
     (\<forall>xs \<in> set xss. \<forall>x \<in> set xs. (\<exists>l. given = Some l \<and> compare l x = 0) \<or> (\<exists>y \<in> set out. compare y x = 0))"

abbreviation upcomings :: "'a item list list \<Rightarrow> 'a option list \<Rightarrow> 'a list list" where
  "upcomings its current \<equiv> map (upcoming its current) [0..<length its]"

lemma upcoming_pulled:
  assumes "pullNext (its ! i) = (n, v, rest)" "i < length its" "length its = length current"
  shows "upcoming (its[i := rest]) (current[i := v]) j = (if j = i then skipYields (its ! i) else upcoming its current j)"
  using pullNext_eq [OF assms(1)] assms(2,3) by (auto simp: upcoming_def nth_list_update split: option.split)

context comparator
begin

lemma first_min_least:
  "first_min cmp current = Some (m, i) \<Longrightarrow> j < length current \<Longrightarrow> current ! j = Some x \<Longrightarrow>
     cmp m x \<le> 0 \<and> (j < i \<longrightarrow> cmp m x < 0)"
proof (induction current arbitrary: m i j x rule: rev_induct)
  case (snoc c current)
  have step: "first_min cmp (current @ [c]) = (case c of
       None \<Rightarrow> first_min cmp current
     | Some x \<Rightarrow> (case first_min cmp current of None \<Rightarrow> Some (x, length current)
         | Some (m, j) \<Rightarrow> if cmp x m < 0 then Some (x, length current) else first_min cmp current))"
    unfolding first_min_def by simp
  note old = first_min_spec [where compare = cmp and current = current]
  show ?case
  proof (cases "j < length current")
    case True
    then have x: "current ! j = Some x" using snoc.prems(3) by (simp add: nth_append)
    then have "first_min cmp current \<noteq> None" using old nth_mem [OF True] by (cases "first_min cmp current") auto
    then obtain m' i' where first: "first_min cmp current = Some (m', i')" by auto
    note IH = snoc.IH [OF first True x]
    show ?thesis
    proof (cases "\<exists>y. c = Some y \<and> cmp y m' < 0")
      case False
      then have "m = m' \<and> i = i'" using snoc.prems(1) first by (auto simp: step split: option.splits if_splits)
      with IH show ?thesis by simp
    next
      case less: True
      then have "cmp m m' < 0" "i = length current" using snoc.prems(1) first by (auto simp: step split: if_splits)
      with IH cmp_less_le_trans [of m m' x] show ?thesis by simp
    qed
  next
    case False
    then have j: "j = length current" "c = Some x" using snoc.prems(2,3) by (auto simp: nth_append split: if_splits)
    show ?thesis
    proof (cases "first_min cmp current")
      case None
      have "Some (m, i) = Some (x, length current)" unfolding snoc.prems(1) [symmetric] step by (simp add: None j(2))
      then show ?thesis by (simp add: j(1))
    next
      case (Some mi)
      obtain m' i' where mi: "mi = (m', i')" by (cases mi)
      have "i' < length current" using old Some mi by simp
      moreover have "Some (m, i) = (if cmp x m' < 0 then Some (x, length current) else Some (m', i'))"
        unfolding snoc.prems(1) [symmetric] step by (simp add: Some mi j(2))
      ultimately show ?thesis using cmp_le_sym [of m' x] by (auto simp: j(1) split: if_splits)
    qed
  qed
qed (simp add: first_min_def)

lemma fetches_loop_spec:
  "merging cmp its current given \<Longrightarrow> merged_as cmp (upcomings its current) given (skipYields (fetches_loop cmp its current given))"
proof (induction "ahead its current" arbitrary: its current given rule: less_induct)
  case less
  note inv = less.prems [unfolded merging_def]
  show ?case
  proof (cases "first_min cmp current")
    case None
    then have "\<forall>c \<in> set current. c = None" using first_min_spec [where compare = cmp and current = current] by simp
    then have "upcoming its current i = []" if "i < length its" for i
    proof -
      have "current ! i = None" using \<open>\<forall>c \<in> set current. c = None\<close> that inv by simp
      with that inv show ?thesis by (simp add: upcoming_def)
    qed
    with None show ?thesis by (simp add: fetches_loop.simps merged_as_def)
  next
    case (Some mi)
    then obtain m i where first: "first_min cmp current = Some (m, i)" by (cases mi) auto
    then have i: "i < length its" "current ! i = Some m"
      using inv first_min_spec [where compare = cmp and current = current] by simp_all
    obtain n v rest where pull: "pullNext (its ! i) = (n, v, rest)" by (metis prod_cases3)
    then have pull': "pullNext (stream_at its i) = (n, v, rest)" using i by (simp add: stream_at_def)
    let ?its = "its[i := rest]" and ?cur = "current[i := v]"
    note after = upcoming_pulled [OF pull i(1)]
    have here: "upcoming its current i = m # skipYields (its ! i)" using i by (simp add: upcoming_def)
    have head: "y = x \<or> cmp y x < 0" if "j < length its" "current ! j = Some y" "x \<in> set (upcoming its current j)" for j x y
    proof -
      have "upcoming its current j = y # skipYields (its ! j)" using that(2) by (simp add: upcoming_def)
      moreover have "sorted_cmp cmp (upcoming its current j)" using inv that(1) by blast
      ultimately show ?thesis using that(3) by (auto simp: sorted_rules)
    qed
    have least: "cmp m x \<le> 0" if "j < length its" "x \<in> set (upcoming its current j)" for j x
    proof (cases "current ! j")
      case None
      with that inv show ?thesis by (simp add: upcoming_def)
    next
      case (Some y)
      with that inv first_min_least [OF first, of j y] have "cmp m y \<le> 0" by simp
      moreover have "y = x \<or> cmp y x < 0" by (rule head [OF that(1) Some that(2)])
      ultimately show ?thesis using cmp_trans [of m y x] by auto
    qed
    have before: "cmp m x < 0" if "j < i" "x \<in> set (upcoming its current j)" for j x
    proof (cases "current ! j")
      case None
      with that inv i show ?thesis by (simp add: upcoming_def)
    next
      case (Some y)
      with that inv i first_min_least [OF first, of j y] have "cmp m y < 0" by simp
      moreover have "y = x \<or> cmp y x < 0" using that i by (intro head [OF _ Some]) simp_all
      ultimately show ?thesis using cmp_less_trans [of m y x] by auto
    qed
    have next_ok: "merging cmp ?its ?cur g" if "\<And>l. g = Some l \<Longrightarrow> cmp l m \<le> 0" for g
      unfolding merging_def
    proof (intro conjI allI impI ballI)
      show "length ?its = length ?cur" using inv by simp
      fix j assume j: "j < length ?its"
      show "sorted_cmp cmp (upcoming ?its ?cur j)"
        using inv j here i by (auto simp: after sorted_rules)
      show "?cur ! j = None \<Longrightarrow> skipYields (?its ! j) = []"
        using inv j i pullNext_eq [OF pull] by (auto simp: nth_list_update split: if_splits)
      show "cmp l x \<le> 0" if "g = Some l" "x \<in> set (upcoming ?its ?cur j)" for l x
      proof -
        have "x \<in> set (upcoming its current j)" using that(2) inv here by (auto simp: after split: if_splits)
        with least [of j x] j have "cmp m x \<le> 0" by simp
        with \<open>\<And>l. g = Some l \<Longrightarrow> cmp l m \<le> 0\<close> [OF that(1)] show ?thesis by (rule cmp_trans)
      qed
    qed
    have shrink: "ahead ?its ?cur < ahead its current" by (rule ahead_less [OF first pull'])
    have later: "from_first cmp (upcomings its current) y" if y: "from_first cmp (upcomings ?its ?cur) y" "cmp m y < 0" for y
    proof -
      from y(1) obtain j where j: "j < length its" "y \<in> set (upcoming ?its ?cur j)"
        "\<forall>k < j. \<forall>x \<in> set (upcoming ?its ?cur k). cmp x y \<noteq> 0"
        by (auto simp: from_first_def)
      have "y \<in> set (upcoming its current j)" using j(2) inv here by (auto simp: after split: if_splits)
      moreover have "cmp x y \<noteq> 0" if "k < j" "x \<in> set (upcoming its current k)" for k x
        using j(3) that inv here y(2) by (fastforce simp: after split: if_splits)
      ultimately show ?thesis using j(1) unfolding from_first_def by (intro exI [of _ j]) auto
    qed
    have kept: "x = m \<or> (\<exists>xs \<in> set (upcomings ?its ?cur). x \<in> set xs)" if "xs \<in> set (upcomings its current)" "x \<in> set xs" for xs x
      using that inv here i by (auto simp: after image_iff split: if_splits)
    show ?thesis
    proof (cases "\<exists>l. given = Some l \<and> cmp l m = 0")
      case True
      then obtain l where l: "given = Some l" "cmp l m = 0" by blast
      have eq: "skipYields (fetches_loop cmp its current given) = skipYields (fetches_loop cmp ?its ?cur given)"
        using l by (subst fetches_loop.simps) (simp add: first pull')
      have IH: "merged_as cmp (upcomings ?its ?cur) given (skipYields (fetches_loop cmp ?its ?cur given))"
        by (rule less.hyps [OF shrink next_ok]) (use l in auto)
      have less_m: "cmp m y < 0" if "cmp l y < 0" for y using that l(2) cmp_eq_less by blast
      show ?thesis
        unfolding eq merged_as_def
      proof (intro conjI ballI allI impI)
        show "sorted_cmp cmp (skipYields (fetches_loop cmp ?its ?cur given))" using IH by (simp add: merged_as_def)
        fix y assume "y \<in> set (skipYields (fetches_loop cmp ?its ?cur given))"
        with IH l have y: "cmp l y < 0" "from_first cmp (upcomings ?its ?cur) y" by (auto simp: merged_as_def)
        then show "cmp l' y < 0" if "given = Some l'" for l' using that l(1) by simp
        show "from_first cmp (upcomings its current) y" by (rule later [OF y(2) less_m [OF y(1)]])
      next
        fix xs x assume "xs \<in> set (upcomings its current)" "x \<in> set xs"
        from kept [OF this] IH l show "(\<exists>l. given = Some l \<and> cmp l x = 0) \<or>
            (\<exists>y \<in> set (skipYields (fetches_loop cmp ?its ?cur given)). cmp y x = 0)"
          unfolding merged_as_def by blast
      qed
    next
      case False
      let ?out = "skipYields (fetches_loop cmp ?its ?cur (Some m))"
      have eq: "skipYields (fetches_loop cmp its current given) = m # ?out"
        using False by (subst fetches_loop.simps) (auto simp: first pull' split: option.split)
      have IH: "merged_as cmp (upcomings ?its ?cur) (Some m) ?out"
        by (rule less.hyps [OF shrink next_ok]) auto
      have lm: "cmp l m < 0" if "given = Some l" for l
      proof -
        have "cmp l m \<le> 0" using inv i here that by auto
        with False that show ?thesis by (metis order_le_less)
      qed
      have out: "cmp m y < 0" "from_first cmp (upcomings its current) y" if "y \<in> set ?out" for y
        using IH later that by (auto simp: merged_as_def)
      have m: "from_first cmp (upcomings its current) m"
        unfolding from_first_def
      proof (intro exI [of _ i] conjI allI ballI impI)
        fix j x assume "j < i" "x \<in> set (upcomings its current ! j)"
        then have "cmp m x < 0" using before [of j x] i by simp
        then show "cmp x m \<noteq> 0" using cmp_zero_sym [of x m] by simp
      qed (use i here in auto)
      show ?thesis
        unfolding eq merged_as_def
      proof (intro conjI ballI allI impI)
        show "sorted_cmp cmp (m # ?out)" using IH out(1) by (simp add: merged_as_def sorted_rules)
        fix y assume "y \<in> set (m # ?out)"
        then show "cmp l y < 0" if "given = Some l" for l using lm [OF that] out(1) cmp_less_trans by auto
        show "from_first cmp (upcomings its current) y" using \<open>y \<in> set (m # ?out)\<close> m out(2) by auto
      next
        fix xs x assume "xs \<in> set (upcomings its current)" "x \<in> set xs"
        from kept [OF this] IH show "(\<exists>l. given = Some l \<and> cmp l x = 0) \<or> (\<exists>y \<in> set (m # ?out). cmp y x = 0)"
          unfolding merged_as_def by auto
      qed
    qed
  qed
qed

lemma fetches_prime_spec:
  "fetches_prime streams = (out, its, current) \<Longrightarrow> skipYields out = [] \<and> length its = length streams \<and> length current = length streams \<and>
     (\<forall>i < length streams. upcoming its current i = skipYields (streams ! i) \<and> (current ! i = None \<longrightarrow> skipYields (its ! i) = []))"
proof (induction streams arbitrary: out its current)
  case (Cons s streams)
  obtain n v rest where pull: "pullNext s = (n, v, rest)" by (metis prod_cases3)
  obtain out' its' current' where prime: "fetches_prime streams = (out', its', current')" by (metis prod_cases3)
  from Cons.prems pull prime have eq: "out = replicate n Yield @ out'" "its = rest # its'" "current = v # current'" by simp_all
  from Cons.IH [OF prime] pullNext_eq [OF pull] show ?case
    by (auto simp: eq upcoming_def nth_Cons split: nat.split option.split)
qed simp

lemma mergeFetches_spec:
  assumes "\<forall>s \<in> set streams. sorted_cmp cmp (skipYields s)"
  shows "merged_as cmp (map skipYields streams) None (skipYields (mergeFetches streams cmp))"
proof -
  obtain out its current where prime: "fetches_prime streams = (out, its, current)" by (metis prod_cases3)
  note spec = fetches_prime_spec [OF prime]
  then have "upcomings its current = map skipYields streams" by (intro nth_equalityI) simp_all
  moreover have "merging cmp its current None" using spec assms by (simp add: merging_def)
  ultimately show ?thesis
    using fetches_loop_spec [of its current None] spec by (simp add: mergeFetches_def prime)
qed

end

subsection \<open>Fetch\<close>

lemma in_Union_nth: "x \<in> \<Union> (set Ss) \<longleftrightarrow> (\<exists>j < length Ss. x \<in> Ss ! j)"
  by (metis UnionE UnionI in_set_conv_nth)

lemma comparator_node_cmp: "comparator cmp \<Longrightarrow> comparator (node_cmp cmp)"
  using comparator_key [of cmp node_row] by (simp add: node_cmp_def [abs_def])

lemma sorted_node_cmp: "sorted_cmp (node_cmp cmp) ns \<longleftrightarrow> sorted_cmp cmp (map node_row ns)"
  by (simp add: sorted_cmp_def node_cmp_def sorted_wrt_map)

lemma fetch_all_Inr: "fetch_all inputs req = Inr streams \<longleftrightarrow> list_all2 (\<lambda>input s. input req = Inr s) inputs streams"
  by (induction inputs arbitrary: streams) (auto simp: bind_result_eq_Inr list_all2_Cons1)

lemma rev_cmp_zero: "comparator cmp \<Longrightarrow> rev_cmp b cmp x y = 0 \<longleftrightarrow> cmp x y = 0"
  by (cases b) (auto dest: comparator.cmp_zero_sym)

lemma union_fetch_spec:
  assumes inputs: "list_all2 (\<lambda>input S. pipeline_input cmp input S ok) inputs Ss" and cmp: "comparator cmp"
    and one: "uniq cmp (\<Union> (set Ss))" and req: "ok req"
  shows "\<exists>items. union_fetch cmp inputs req = Inr items \<and>
    sorted_cmp (rev_cmp (req_reverse req) cmp) (rows_of_items items) \<and>
    set (rows_of_items items) = {r \<in> \<Union> (set Ss). requested cmp req r} \<and>
    (\<forall>n \<in> set (skipYields items). \<exists>i < length inputs. \<exists>s. (inputs ! i) req = Inr s \<and> n \<in> set (skipYields s) \<and>
      (\<forall>j < i. node_row n \<notin> Ss ! j))"
proof -
  let ?c = "rev_cmp (req_reverse req) cmp"
  define f where "f i = projr ((inputs ! i) req)" for i
  have f: "\<forall>i < length inputs. (inputs ! i) req = Inr (f i) \<and> sorted_cmp ?c (rows_of_items (f i)) \<and>
      set (rows_of_items (f i)) = {r \<in> Ss ! i. requested cmp req r}"
    using pipeline_input.fetch_rows [OF list_all2_nthD [OF inputs] req] unfolding f_def by force
  let ?streams = "map f [0..<length inputs]"
  have len: "length Ss = length inputs" using inputs by (simp add: list_all2_lengthD)
  have all: "fetch_all inputs req = Inr ?streams" using f by (simp add: fetch_all_Inr list_all2_conv_all_nth)
  note comp = comparator_node_cmp [OF comparator_rev_cmp [OF cmp, of "req_reverse req"]]
  define items where "items = mergeFetches ?streams (node_cmp ?c)"
  have "\<forall>s \<in> set ?streams. sorted_cmp (node_cmp ?c) (skipYields s)"
    using f by (auto simp: sorted_node_cmp rows_of_items_def)
  from comparator.mergeFetches_spec [OF comp this]
  have merged: "merged_as (node_cmp ?c) (map skipYields ?streams) None (skipYields items)" by (simp add: items_def)
  have zero: "node_cmp ?c x y = 0 \<longleftrightarrow> cmp (node_row x) (node_row y) = 0" for x y
    by (simp add: node_cmp_def rev_cmp_zero [OF cmp])
  have stream: "node_row n \<in> Ss ! i \<and> requested cmp req (node_row n)" if "i < length inputs" "n \<in> set (skipYields (f i))" for i n
  proof -
    have "node_row n \<in> set (rows_of_items (f i))" using that(2) by (simp add: rows_of_items_def)
    with f that(1) show ?thesis by simp
  qed
  have origin: "\<exists>i < length inputs. n \<in> set (skipYields (f i)) \<and> (\<forall>j < i. node_row n \<notin> Ss ! j)" if "n \<in> set (skipYields items)" for n
  proof -
    from merged that have "from_first (node_cmp ?c) (map skipYields ?streams) n" by (simp add: merged_as_def)
    then obtain i where i: "i < length inputs" "n \<in> set (skipYields (f i))"
      "\<forall>j < i. \<forall>x \<in> set (skipYields (f j)). node_cmp ?c x n \<noteq> 0" by (auto simp: from_first_def)
    have "node_row n \<notin> Ss ! j" if "j < i" for j
    proof
      assume "node_row n \<in> Ss ! j"
      with stream [OF i(1,2)] f i(1) that have "node_row n \<in> set (rows_of_items (f j))" by simp
      then obtain x where "x \<in> set (skipYields (f j))" "node_row x = node_row n" by (auto simp: rows_of_items_def)
      with i(3) that comparator.cmp_refl [OF cmp] show False by (metis zero)
    qed
    with i show ?thesis by blast
  qed
  have "set (rows_of_items items) = {r \<in> \<Union> (set Ss). requested cmp req r}"
  proof (rule set_eqI, rule iffI)
    fix r assume "r \<in> set (rows_of_items items)"
    then obtain n where "n \<in> set (skipYields items)" "r = node_row n" by (auto simp: rows_of_items_def)
    with origin [OF this(1)] stream obtain i where "i < length inputs" "r \<in> Ss ! i" "requested cmp req r" by blast
    then show "r \<in> {r \<in> \<Union> (set Ss). requested cmp req r}" using len nth_mem [of i Ss] by auto
  next
    fix r assume "r \<in> {r \<in> \<Union> (set Ss). requested cmp req r}"
    then obtain i where i: "i < length inputs" "r \<in> Ss ! i" "requested cmp req r" using len by (auto simp: in_set_conv_nth)
    then have "r \<in> set (rows_of_items (f i))" using f by simp
    then obtain n where n: "n \<in> set (skipYields (f i))" "r = node_row n" by (auto simp: rows_of_items_def)
    have "skipYields (f i) \<in> set (map skipYields ?streams)" using i(1) by auto
    with merged n(1) have "\<exists>m \<in> set (skipYields items). node_cmp ?c m n = 0" unfolding merged_as_def by blast
    then obtain m where m: "m \<in> set (skipYields items)" "cmp (node_row m) r = 0" unfolding zero n(2) by blast
    from origin [OF m(1)] stream len obtain j where "j < length inputs" "node_row m \<in> Ss ! j" by blast
    then have "node_row m = r" using uniqD [OF one, unfolded in_Union_nth, OF _ _ m(2)] i(1,2) len by metis
    with m(1) show "r \<in> set (rows_of_items items)" by (auto simp: rows_of_items_def)
  qed
  moreover have "union_fetch cmp inputs req = Inr items" by (simp add: union_fetch_def all items_def)
  moreover have "sorted_cmp ?c (rows_of_items items)"
    using merged by (simp add: merged_as_def sorted_node_cmp rows_of_items_def)
  moreover have "\<forall>n \<in> set (skipYields items). \<exists>i < length inputs. \<exists>s. (inputs ! i) req = Inr s \<and> n \<in> set (skipYields s) \<and>
      (\<forall>j < i. node_row n \<notin> Ss ! j)" using origin f by metis
  ultimately show ?thesis by blast
qed

subsection \<open>A change from inside a branch\<close>

text \<open>The primary key tells rows apart and has no null.\<close>

definition keyed_rows :: "string list \<Rightarrow> row set \<Rightarrow> bool" where
  "keyed_rows pk S \<longleftrightarrow> distinct pk \<and> (\<forall>x \<in> S. \<forall>y \<in> S. list_all (\<lambda>k. valuesEqual (get_field x k) (get_field y k)) pk \<longleftrightarrow> x = y)"

lemma key_request_matches:
  assumes "distinct pk"
  shows "matches (req_constraint (key_request pk r)) x \<longleftrightarrow> list_all (\<lambda>k. valuesEqual (get_field x k) (get_field r k)) pk"
proof -
  have "foldl (\<lambda>c key. AList.update key (get_field r key) c) [] pk = map (\<lambda>k. (k, get_field r k)) pk"
    using update_distinct [of "map (\<lambda>k. (k, get_field r k)) pk" "[]"] assms by (simp add: foldl_map o_def)
  then show ?thesis
    by (simp add: key_request_def matches_def constraintMatchesRow_iff list_all_iff)
qed

lemma key_fetch:
  assumes "pipeline_input cmp input S ok" "ok (key_request pk r)" "keyed_rows pk U" "S \<subseteq> U" "r \<in> U"
  shows "\<exists>out. input (key_request pk r) = Inr out \<and> (skipYields out \<noteq> [] \<longleftrightarrow> r \<in> S)"
proof -
  from pipeline_input.fetch_obtain [OF assms(1,2)] obtain out where out: "input (key_request pk r) = Inr out"
    "set (rows_of_items out) = {x \<in> S. requested cmp (key_request pk r) x}" by blast
  have "requested cmp (key_request pk r) x \<longleftrightarrow> x = r" if "x \<in> S" for x
  proof -
    have "distinct pk" "list_all (\<lambda>k. valuesEqual (get_field x k) (get_field r k)) pk \<longleftrightarrow> x = r"
      using assms(3-5) that unfolding keyed_rows_def by blast+
    then show ?thesis by (simp add: requested_def key_request_matches after_start_def) (simp add: key_request_def)
  qed
  then have "set (rows_of_items out) = S \<inter> {r}" using out(2) by auto
  moreover have "skipYields out \<noteq> [] \<longleftrightarrow> set (rows_of_items out) \<noteq> {}" by (simp add: rows_of_items_def)
  ultimately show ?thesis using out(1) by auto
qed

lemma probe_spec:
  assumes "list_all2 (\<lambda>input S. pipeline_input cmp input S ok) inputs Ss" "ok (key_request pk r)" "keyed_rows pk U"
    "\<Union> (set Ss) \<subseteq> U" "r \<in> U"
  shows "\<exists>found had'. probe_inputs pk i inputs pusher r had = Inr (found, had') \<and>
    (found \<longleftrightarrow> (\<exists>j < length inputs. i + j \<noteq> pusher \<and> r \<in> Ss ! j)) \<and>
    (\<not> found \<longrightarrow> (had' \<longleftrightarrow> had \<or> (i \<le> pusher \<and> pusher < i + length inputs)))"
  using assms(1,4)
proof (induction inputs Ss arbitrary: i had rule: list_all2_induct)
  case (Cons input inputs S Ss)
  have split: "(\<exists>j < length (input # inputs). i + j \<noteq> pusher \<and> r \<in> (S # Ss) ! j) \<longleftrightarrow>
      (i \<noteq> pusher \<and> r \<in> S) \<or> (\<exists>j < length inputs. Suc i + j \<noteq> pusher \<and> r \<in> Ss ! j)"
    unfolding list.size by (auto simp: less_Suc_eq_0_disj)
  have sub: "\<Union> (set Ss) \<subseteq> U" "S \<subseteq> U" using Cons.prems by auto
  show ?case
  proof (cases "i = pusher")
    case True
    obtain found had' where IH: "probe_inputs pk (Suc i) inputs pusher r True = Inr (found, had')"
      "found \<longleftrightarrow> (\<exists>j < length inputs. Suc i + j \<noteq> pusher \<and> r \<in> Ss ! j)" "\<not> found \<longrightarrow> had'"
      using Cons.IH [OF sub(1), of "Suc i" True] by blast
    then show ?thesis unfolding split using True by simp
  next
    case False
    from key_fetch [OF Cons.hyps(1) assms(2,3) sub(2) assms(5)] obtain out where
      out: "input (key_request pk r) = Inr out" "skipYields out \<noteq> [] \<longleftrightarrow> r \<in> S" by blast
    obtain found had' where IH: "probe_inputs pk (Suc i) inputs pusher r had = Inr (found, had')"
      "found \<longleftrightarrow> (\<exists>j < length inputs. Suc i + j \<noteq> pusher \<and> r \<in> Ss ! j)"
      "\<not> found \<longrightarrow> (had' \<longleftrightarrow> had \<or> (Suc i \<le> pusher \<and> pusher < Suc i + length inputs))"
      using Cons.IH [OF sub(1), of "Suc i" had] by blast
    show ?thesis unfolding split using False out IH by (cases "r \<in> S") auto
  qed
qed (rule exI [of _ False], auto)

lemma pushInternalChange_spec:
  assumes inputs: "list_all2 (\<lambda>input S. pipeline_input cmp input S ok) inputs (Ss[i := apply_push c (Ss ! i)])"
    and i: "i < length inputs" and push: "push_ok c (Ss ! i)" and type: "type_of_change c \<noteq> EDIT"
    and ok: "ok (key_request pk (node_row (change_node c)))"
    and key: "keyed_rows pk (\<Union> (set Ss) \<union> \<Union> (set (Ss[i := apply_push c (Ss ! i)])))"
  shows "\<exists>cs. pushInternalChange pk inputs c i = Inr cs \<and> set cs \<subseteq> {c} \<and> pushes_ok cs (\<Union> (set Ss)) \<and>
    apply_pushes cs (\<Union> (set Ss)) = \<Union> (set (Ss[i := apply_push c (Ss ! i)]))"
proof -
  let ?S' = "Ss[i := apply_push c (Ss ! i)]" and ?r = "node_row (change_node c)"
  have len: "length Ss = length inputs" using list_all2_lengthD [OF inputs] by simp
  have member: "x \<in> \<Union> (set Ss) \<longleftrightarrow> (\<exists>j < length inputs. x \<in> Ss ! j)"
    "x \<in> \<Union> (set ?S') \<longleftrightarrow> x \<in> apply_push c (Ss ! i) \<or> (\<exists>j < length inputs. j \<noteq> i \<and> x \<in> Ss ! j)" for x
    unfolding in_Union_nth using i len by (auto simp: nth_list_update split: if_splits)
  let ?others = "\<exists>j < length inputs. j \<noteq> i \<and> ?r \<in> Ss ! j"
  have probe: "\<exists>had. probe_inputs pk 0 inputs i ?r False = Inr (?others, had) \<and> (\<not> ?others \<longrightarrow> had)" if "?r \<in> Ss ! i \<or> ?r \<in> apply_push c (Ss ! i)"
  proof -
    have "?r \<in> \<Union> (set Ss) \<union> \<Union> (set ?S')" using that member [of ?r] i by auto
    from probe_spec [OF inputs ok key _ this, of 0 i False] obtain found had where
      "probe_inputs pk 0 inputs i ?r False = Inr (found, had)"
      "found \<longleftrightarrow> (\<exists>j < length inputs. 0 + j \<noteq> i \<and> ?r \<in> ?S' ! j)" "\<not> found \<longrightarrow> had" using i by auto
    moreover have "(\<exists>j < length inputs. 0 + j \<noteq> i \<and> ?r \<in> ?S' ! j) \<longleftrightarrow> ?others" by auto
    ultimately show ?thesis by auto
  qed
  show ?thesis
  proof (cases c)
    case (CAdd n)
    with probe obtain had where had: "probe_inputs pk 0 inputs i (node_row n) False = Inr (?others, had)" "\<not> ?others \<longrightarrow> had" by auto
    show ?thesis
    proof (cases ?others)
      case True
      then have "\<Union> (set ?S') = \<Union> (set Ss)" unfolding set_eq_iff insert_iff Diff_iff member using CAdd i by auto
      with had True show ?thesis by (simp add: pushInternalChange_def CAdd)
    next
      case False
      then have "node_row n \<notin> \<Union> (set Ss)" unfolding member using push CAdd by auto
      moreover have "\<Union> (set ?S') = insert (node_row n) (\<Union> (set Ss))"
        unfolding set_eq_iff insert_iff Diff_iff member using CAdd i by auto
      moreover have "probe_inputs pk 0 inputs i (node_row n) False = Inr (False, True)" using had False by simp
      ultimately show ?thesis by (simp add: pushInternalChange_def CAdd)
    qed
  next
    case (CRemove n)
    with push probe obtain had where had: "probe_inputs pk 0 inputs i (node_row n) False = Inr (?others, had)" "\<not> ?others \<longrightarrow> had" by auto
    show ?thesis
    proof (cases ?others)
      case True
      then have "\<Union> (set ?S') = \<Union> (set Ss)" unfolding set_eq_iff insert_iff Diff_iff member using CRemove i by auto
      with had True show ?thesis by (simp add: pushInternalChange_def CRemove)
    next
      case False
      have "node_row n \<in> \<Union> (set Ss)" unfolding member using push CRemove i by auto
      moreover have "\<Union> (set ?S') = \<Union> (set Ss) - {node_row n}"
        unfolding set_eq_iff insert_iff Diff_iff member using False CRemove i by auto
      moreover have "probe_inputs pk 0 inputs i (node_row n) False = Inr (False, True)" using had False by simp
      ultimately show ?thesis by (simp add: pushInternalChange_def CRemove)
    qed
  next
    case (CChild n rel d)
    then have "\<Union> (set ?S') = \<Union> (set Ss)" by simp
    moreover have "node_row n \<in> \<Union> (set Ss)" unfolding member using push CChild i by auto
    ultimately show ?thesis by (simp add: pushInternalChange_def CChild)
  qed (use type in simp)
qed

end
