(* ===== verification/UnionPush.thy ===== *)
theory UnionPush
  imports UnionCorrect
begin

section \<open>A change through a fan-out\<close>

text \<open>
  The branches of a union add relationships of their own to the nodes. Cut down to the relationships \<open>F\<close> of the fan-out, what
  \<open>pushAccumulatedChanges\<close> makes of their changes, relationships merged and missing ones added, is
  what it makes of the changes cut down, without merging: the case of a filter graph.
\<close>

definition cut_node :: "string list \<Rightarrow> node \<Rightarrow> node" where
  "cut_node F n = Node (node_row n) (map (\<lambda>name. (name, the (map_of (relationships n) name))) F)"

fun cut_change :: "string list \<Rightarrow> change \<Rightarrow> change" where
  "cut_change F (CAdd n) = CAdd (cut_node F n)"
| "cut_change F (CRemove n) = CRemove (cut_node F n)"
| "cut_change F (CChild n rel c) = CChild (cut_node F n) rel c"
| "cut_change F (CEdit n old) = CEdit (cut_node F n) (cut_node F old)"

text \<open>A node that has the relationships \<open>F\<close>.\<close>

definition has_all :: "string list \<Rightarrow> node \<Rightarrow> bool" where
  "has_all F n \<longleftrightarrow> distinct (map fst (relationships n)) \<and> set F \<subseteq> fst ` set (relationships n)"

fun nodes_of :: "change \<Rightarrow> node list" where
  "nodes_of (CAdd n) = [n]"
| "nodes_of (CRemove n) = [n]"
| "nodes_of (CChild n rel c) = [n]"
| "nodes_of (CEdit n old) = [n, old]"

abbreviation all_have :: "string list \<Rightarrow> change \<Rightarrow> bool" where
  "all_have F c \<equiv> list_all (has_all F) (nodes_of c)"

lemma type_cut [simp]: "type_of_change (cut_change F c) = type_of_change c"
  by (cases c) simp_all

lemma change_node_cut [simp]: "change_node (cut_change F c) = cut_node F (change_node c)"
  by (cases c) simp_all

lemma has_all_some: "has_all F n \<Longrightarrow> name \<in> set F \<Longrightarrow> \<exists>s. map_of (relationships n) name = Some s"
  unfolding has_all_def by (metis map_of_eq_None_iff not_None_eq subsetD)

lemma cut_node_eq:
  assumes "node_row m = node_row n" "\<And>name. name \<in> set F \<Longrightarrow> map_of (relationships m) name = map_of (relationships n) name"
  shows "cut_node F m = cut_node F n"
  using assms by (simp add: cut_node_def)

lemma cut_merge:
  assumes "has_all F l" "has_all F r"
  shows "cut_node F (merge_node l r) = cut_node F l" "has_all F (merge_node l r)"
proof -
  have rels: "map_of (relationships (merge_node l r)) = map_of (relationships r) ++ map_of (relationships l)"
    "distinct (map fst (relationships (merge_node l r)))"
    using assms map_of_spread distinct_spread by (auto simp: merge_node_def has_all_def)
  have some: "map_of (relationships (merge_node l r)) name = map_of (relationships l) name" if "name \<in> set F" for name
    using has_all_some [OF assms(1) that] rels(1) by auto
  show "cut_node F (merge_node l r) = cut_node F l"
    by (rule cut_node_eq) (simp add: merge_node_def, rule some)
  have "name \<in> fst ` set (relationships (merge_node l r))" if "name \<in> set F" for name
  proof -
    have "map_of (relationships (merge_node l r)) name \<noteq> None" using some [OF that] has_all_some [OF assms(1) that] by auto
    then show ?thesis by (simp add: map_of_eq_None_iff)
  qed
  with rels(2) show "has_all F (merge_node l r)" by (auto simp: has_all_def)
qed

lemma mergeEmpty_spec:
  "map_of (mergeEmpty rels names) name = (case map_of rels name of None \<Rightarrow> if name \<in> set names then Some [] else None | Some s \<Rightarrow> Some s) \<and>
   (distinct (map fst rels) \<longrightarrow> distinct (map fst (mergeEmpty rels names)))"
proof (induction names arbitrary: rels)
  case Nil
  then show ?case by (simp add: mergeEmpty_def split: option.split)
next
  case (Cons k names)
  let ?rels = "if map_of rels k = None then AList.update k [] rels else rels"
  have "mergeEmpty rels (k # names) = mergeEmpty ?rels names" by (simp add: mergeEmpty_def)
  with Cons.IH [of ?rels] show ?case
    by (auto simp: update_conv' distinct_update split: option.splits)
qed

lemma cut_fill:
  assumes "has_all F n"
  shows "cut_node F (Node (node_row n) (mergeEmpty (relationships n) names)) = cut_node F n"
    "has_all F (Node (node_row n) (mergeEmpty (relationships n) names))"
    "has_all names (Node (node_row n) (mergeEmpty (relationships n) names))"
proof -
  have spec: "map_of (mergeEmpty (relationships n) names) name = map_of (relationships n) name" if "name \<in> set F" for name
    using has_all_some [OF assms that] by (auto simp: mergeEmpty_spec)
  show "cut_node F (Node (node_row n) (mergeEmpty (relationships n) names)) = cut_node F n"
    by (rule cut_node_eq) (simp_all add: spec)
  have dist: "distinct (map fst (mergeEmpty (relationships n) names))" using assms mergeEmpty_spec by (auto simp: has_all_def)
  have "name \<in> fst ` set (mergeEmpty (relationships n) names)" if "name \<in> set F \<or> name \<in> set names" for name
  proof -
    have "map_of (mergeEmpty (relationships n) names) name \<noteq> None"
      using that has_all_some [OF assms, of name] by (auto simp: mergeEmpty_spec split: option.split)
    then show ?thesis by (simp add: map_of_eq_None_iff)
  qed
  with dist show "has_all F (Node (node_row n) (mergeEmpty (relationships n) names))"
    "has_all names (Node (node_row n) (mergeEmpty (relationships n) names))" by (auto simp: has_all_def)
qed

lemma merge_same_type:
  assumes "type_of_change a = type_of_change b" "all_have F a" "all_have F b"
  shows "\<exists>m. mergeRelationships a b = Inr m \<and> cut_change F m = cut_change F a \<and> all_have F m \<and> type_of_change m = type_of_change a"
  using assms by (cases a; cases b) (simp_all add: cut_merge)

lemma merge_into_edit:
  assumes "type_of_change a = EDIT" "type_of_change b = ADD \<or> type_of_change b = REMOVE" "all_have F a" "all_have F b"
  shows "\<exists>m. mergeRelationships a b = Inr m \<and> cut_change F m = cut_change F a \<and> all_have F m \<and> type_of_change m = EDIT"
  using assms by (cases a; cases b) (simp_all add: cut_merge)

lemma fill_change:
  assumes "all_have F c"
  shows "cut_change F (makeAddEmptyRelationships schema c) = cut_change F c"
    "type_of_change (makeAddEmptyRelationships schema c) = type_of_change c"
    "type_of_change c \<noteq> CHILD \<Longrightarrow> all_have (map fst (sc_relationships schema)) (makeAddEmptyRelationships schema c)"
proof -
  have none: "has_all [] n" if "has_all F n" for n using that by (simp add: has_all_def)
  show "cut_change F (makeAddEmptyRelationships schema c) = cut_change F c"
    "type_of_change (makeAddEmptyRelationships schema c) = type_of_change c"
    using assms by (cases c; simp add: Let_def cut_fill(1))+
  assume "type_of_change c \<noteq> CHILD"
  then show "all_have (map fst (sc_relationships schema)) (makeAddEmptyRelationships schema c)"
    using assms cut_fill(3) [of F] none by (cases c) (simp_all add: Let_def)
qed

subsection \<open>The candidates\<close>

abbreviation cut_cands :: "string list \<Rightarrow> candidates \<Rightarrow> candidates" where
  "cut_cands F \<equiv> map (\<lambda>(t, d). (t, cut_change F d))"

definition cands_ok :: "string list \<Rightarrow> candidates \<Rightarrow> bool" where
  "cands_ok F cands \<longleftrightarrow> (\<forall>t d. map_of cands t = Some d \<longrightarrow> type_of_change d = t \<and> all_have F d)"

lemma map_of_cut: "map_of (cut_cands F cands) t = map_option (cut_change F) (map_of cands t)"
  by (induction cands) auto

lemma update_cut: "AList.update t (cut_change F d) (cut_cands F cands) = cut_cands F (AList.update t d cands)"
  by (induction cands) auto

lemma keys_cut: "map fst (cut_cands F cands) = map fst cands"
  by (induction cands) auto

lemma collapse_cut:
  "cands_ok F cands \<Longrightarrow> \<forall>c \<in> set cs. all_have F c \<Longrightarrow>
     collapse_changes keep_first T (map (cut_change F) cs) (cut_cands F cands) = Inr r' \<Longrightarrow>
     \<exists>r. collapse_changes mergeRelationships T cs cands = Inr r \<and> r' = cut_cands F r \<and> cands_ok F r"
proof (induction cs arbitrary: cands)
  case (Cons c cs)
  let ?t = "type_of_change c"
  have guard: "\<not> (T = CHILD \<and> ?t \<noteq> CHILD \<and> map_of cands ?t \<noteq> None)"
    using Cons.prems(3) by (auto simp: map_of_cut split: if_splits)
  obtain m where m: "(case map_of cands ?t of None \<Rightarrow> Inr c | Some e \<Rightarrow> mergeRelationships e c) = Inr m"
    "cut_change F m = (case map_of cands ?t of None \<Rightarrow> cut_change F c | Some e \<Rightarrow> cut_change F e)"
    "type_of_change m = ?t" "all_have F m"
  proof (cases "map_of cands ?t")
    case None
    then show thesis using that [of c] Cons.prems(2) by simp
  next
    case (Some e)
    then have "type_of_change e = ?t" "all_have F e" using Cons.prems(1) by (auto simp: cands_ok_def)
    from merge_same_type [OF this] Cons.prems(2) obtain m where "mergeRelationships e c = Inr m"
      "cut_change F m = cut_change F e" "all_have F m" "type_of_change m = type_of_change e" by auto
    with Some \<open>type_of_change e = ?t\<close> show thesis by (intro that [of m]) simp_all
  qed
  have step: "collapse_changes mergeRelationships T (c # cs) cands = collapse_changes mergeRelationships T cs (AList.update ?t m cands)"
    unfolding collapse_changes.simps if_not_P [OF guard] m(1) by simp
  have guard': "\<not> (T = CHILD \<and> type_of_change (cut_change F c) \<noteq> CHILD \<and> map_of (cut_cands F cands) (type_of_change (cut_change F c)) \<noteq> None)"
    using guard by (simp add: map_of_cut)
  have "(case map_of (cut_cands F cands) (type_of_change (cut_change F c)) of None \<Rightarrow> Inr (cut_change F c) | Some e \<Rightarrow> Inr e) =
      (Inr (cut_change F m) :: change result)"
    using m(2) by (cases "map_of cands ?t") (simp_all add: map_of_cut)
  note cut_step = this
  have "collapse_changes keep_first T (map (cut_change F) (c # cs)) (cut_cands F cands) =
      collapse_changes keep_first T (map (cut_change F) cs) (cut_cands F (AList.update ?t m cands))"
    unfolding list.map collapse_changes.simps if_not_P [OF guard'] cut_step by (simp add: update_cut)
  then have "collapse_changes keep_first T (map (cut_change F) cs) (cut_cands F (AList.update ?t m cands)) = Inr r'"
    using Cons.prems(3) by simp
  moreover have "cands_ok F (AList.update ?t m cands)"
    using Cons.prems(1) m(3,4) by (auto simp: cands_ok_def update_conv')
  ultimately show ?case unfolding step using Cons.IH Cons.prems(2) by simp
qed simp

lemma keys_cut_list_all: "list_all P (map fst (cut_cands F cands)) = list_all P (map fst cands)"
  by (simp only: keys_cut)

lemma push_candidates_cut:
  assumes ok: "cands_ok F r" and run: "push_candidates keep_first (\<lambda>c. c) (cut_cands F r) T = Inr ds'"
  shows "\<exists>ds. push_candidates mergeRelationships (makeAddEmptyRelationships schema) r T = Inr ds \<and> ds' = map (cut_change F) ds \<and>
    (\<forall>d \<in> set ds. type_of_change d \<noteq> CHILD \<longrightarrow> all_have (map fst (sc_relationships schema)) d)"
proof -
  let ?fill = "makeAddEmptyRelationships schema" and ?names = "map fst (sc_relationships schema)"
  have cand: "type_of_change d = t \<and> all_have F d" if "map_of r t = Some d" for t d using ok that by (simp add: cands_ok_def)
  have filled: "cut_change F (?fill d) = cut_change F d \<and> (type_of_change (?fill d) \<noteq> CHILD \<longrightarrow> all_have ?names (?fill d))"
    if "all_have F d" for d using fill_change [OF that] by simp
  have aor: "\<exists>d. add_or_remove r = Inr d \<and> d' = cut_change F d \<and> all_have F d" if "add_or_remove (cut_cands F r) = Inr d'" for d'
    using that cand by (cases "map_of r ADD"; cases "map_of r REMOVE") (simp_all add: add_or_remove_def map_of_cut)
  show ?thesis
  proof (cases T)
    case ADD
    note run = run [unfolded ADD push_candidates.simps keys_cut map_of_cut]
    obtain d where d: "map_of r ADD = Some d" "map fst r = [ADD]" "ds' = [cut_change F d]"
      using run by (cases "map_of r ADD") (simp_all split: if_splits)
    with ADD cand [OF d(1)] filled [of d] show ?thesis by simp
  next
    case REMOVE
    note run = run [unfolded REMOVE push_candidates.simps keys_cut map_of_cut]
    obtain d where d: "map_of r REMOVE = Some d" "map fst r = [REMOVE]" "ds' = [cut_change F d]"
      using run by (cases "map_of r REMOVE") (simp_all split: if_splits)
    with REMOVE cand [OF d(1)] filled [of d] show ?thesis by simp
  next
    case CHILD
    note run = run [unfolded CHILD push_candidates.simps keys_cut length_map map_of_cut]
    have guards: "list_all (\<lambda>t. t = ADD \<or> t = REMOVE \<or> t = CHILD) (map fst r)" "\<not> 2 < length r"
      using run by (simp_all split: if_splits)
    show ?thesis
    proof (cases "map_of r CHILD")
      case (Some d)
      with run guards have "ds' = [cut_change F d]" by simp
      with Some CHILD guards cand [OF Some] show ?thesis by simp
    next
      case None
      with run guards have one: "\<not> (map_of r ADD \<noteq> None \<and> map_of r REMOVE \<noteq> None)"
        and "bind_result (add_or_remove (cut_cands F r)) (\<lambda>c. Inr [c]) = Inr ds'" by (auto split: if_splits)
      then obtain d' where d': "add_or_remove (cut_cands F r) = Inr d'" "ds' = [d']" by (auto simp: bind_result_eq_Inr)
      from aor [OF d'(1)] obtain d where "add_or_remove r = Inr d" "d' = cut_change F d" "all_have F d" by blast
      with None CHILD guards one d'(2) filled [of d] show ?thesis by auto
    qed
  next
    case EDIT
    note run = run [unfolded EDIT push_candidates.simps keys_cut map_of_cut]
    have guard: "list_all (\<lambda>t. t = ADD \<or> t = REMOVE \<or> t = EDIT) (map fst r)"
      using run by (simp split: if_splits)
    show ?thesis
    proof (cases "map_of r EDIT")
      case (Some e)
      note e = cand [OF Some]
      have "ds' = [cut_change F e]" using run guard Some by (auto simp: bind_result_eq_Inr split: option.splits)
      moreover obtain e1 where e1: "(case map_of r ADD of None \<Rightarrow> Inr e | Some c \<Rightarrow> mergeRelationships e c) = Inr e1"
        "cut_change F e1 = cut_change F e" "all_have F e1" "type_of_change e1 = EDIT"
        using merge_into_edit [of e _ F] e cand that by (cases "map_of r ADD") fastforce+
      moreover obtain e2 where e2: "(case map_of r REMOVE of None \<Rightarrow> Inr e1 | Some c \<Rightarrow> mergeRelationships e1 c) = Inr e2"
        "cut_change F e2 = cut_change F e1" "all_have F e2"
        using merge_into_edit [of e1 _ F] e1(3,4) cand that by (cases "map_of r REMOVE") fastforce+
      ultimately show ?thesis using filled [of e2] Some guard EDIT by simp
    next
      case None
      show ?thesis
      proof (cases "map_of r ADD \<noteq> None \<and> map_of r REMOVE \<noteq> None")
        case True
        then obtain a b where ab: "map_of r ADD = Some a" "map_of r REMOVE = Some b" by auto
        have ds': "ds' = [CEdit (change_node (cut_change F a)) (change_node (cut_change F b))]" using run guard None ab by simp
        have "all_have F (CEdit (change_node a) (change_node b))"
          using cand [OF ab(1)] cand [OF ab(2)] by (cases a; cases b) simp_all
        from filled [OF this] show ?thesis using ds' guard None ab EDIT by simp
      next
        case False
        have "bind_result (add_or_remove (cut_cands F r)) (\<lambda>c. Inr [c]) = Inr ds'"
          using run guard None False by (cases "map_of r ADD"; cases "map_of r REMOVE") simp_all
        then obtain d' where d': "add_or_remove (cut_cands F r) = Inr d'" "ds' = [d']" by (auto simp: bind_result_eq_Inr)
        from aor [OF d'(1)] obtain d where "add_or_remove r = Inr d" "d' = cut_change F d" "all_have F d" by blast
        with None EDIT guard False d'(2) filled [of d] show ?thesis
          by (cases "map_of r ADD"; cases "map_of r REMOVE") simp_all
      qed
    qed
  qed
qed

lemma pushAccumulated_cut:
  assumes "\<forall>c \<in> set cs. all_have F c" and "pushAccumulatedChanges keep_first (\<lambda>c. c) (map (cut_change F) cs) T = Inr ds'"
  shows "\<exists>ds. pushAccumulatedChanges mergeRelationships (makeAddEmptyRelationships schema) cs T = Inr ds \<and> ds' = map (cut_change F) ds \<and>
    (\<forall>d \<in> set ds. type_of_change d \<noteq> CHILD \<longrightarrow> all_have (map fst (sc_relationships schema)) d)"
proof (cases "cs = []")
  case True
  with assms(2) show ?thesis by (simp add: pushAccumulatedChanges_def)
next
  case False
  with assms(2) obtain r' where r': "collapse_changes keep_first T (map (cut_change F) cs) [] = Inr r'"
    "push_candidates keep_first (\<lambda>c. c) r' T = Inr ds'" by (auto simp: pushAccumulatedChanges_def bind_result_eq_Inr)
  have "cands_ok F []" by (simp add: cands_ok_def)
  from collapse_cut [OF this assms(1), of T r'] r'(1) obtain r where
    r: "collapse_changes mergeRelationships T cs [] = Inr r" "r' = cut_cands F r" "cands_ok F r" by auto
  from push_candidates_cut [OF r(3), of T ds' schema] r'(2) r(2) r(1) False show ?thesis
    by (auto simp: pushAccumulatedChanges_def)
qed

subsection \<open>The fan-out\<close>

lemma fan_in_pushes_started:
  "us_started st \<Longrightarrow> fan_in_pushes pk inputs cs i st = Inr ([], st\<lparr>us_accumulated := us_accumulated st @ cs\<rparr>)"
  by (induction cs arbitrary: st) (simp_all add: fan_in_push_def)

lemma fan_out_pushes_started:
  "us_started st \<Longrightarrow> list_all2 (\<lambda>f cs. f c = Inr cs) outputs css \<Longrightarrow>
     fan_out_pushes pk inputs i outputs c st = Inr ([], st\<lparr>us_accumulated := us_accumulated st @ concat css\<rparr>)"
proof (induction outputs arbitrary: i st css)
  case (Cons f outputs)
  then obtain cs css' where css: "css = cs # css'" "f c = Inr cs" "list_all2 (\<lambda>f cs. f c = Inr cs) outputs css'"
    by (auto simp: list_all2_Cons1)
  with Cons.IH [of "st\<lparr>us_accumulated := us_accumulated st @ cs\<rparr>" css' "Suc i"] Cons.prems(1) show ?case
    by (simp add: fan_in_pushes_started)
qed simp

lemma fan_out_push_spec:
  assumes st: "\<not> us_started st" "us_accumulated st = []" and len: "length inputs = length outputs"
    and run: "list_all2 (\<lambda>f cs. f c = Inr cs) outputs css" and have_all: "\<forall>d \<in> set (concat css). all_have F d"
    and branches: "list_all2 (\<lambda>P cs. turns P (cut_change F c) (map (cut_change F) cs)) Ps css"
    and child: "type_of_change c = CHILD \<Longrightarrow> sorted_wrt (\<lambda>P Q. held_before P (cut_change F c) = held_after P (cut_change F c) \<or>
      held_before Q (cut_change F c) = held_after Q (cut_change F c)) Ps"
  shows "\<exists>ds. fan_out_push schema inputs outputs c st = Inr (ds, st) \<and> turns (any_of Ps) (cut_change F c) (map (cut_change F) ds) \<and>
    (\<forall>d \<in> set ds. type_of_change d \<noteq> CHILD \<longrightarrow> all_have (map fst (sc_relationships schema)) d)"
proof -
  have "list_all2 (\<lambda>P. turns P (cut_change F c)) Ps (map (map (cut_change F)) css)"
    using branches by (simp add: list_all2_map2)
  from pushAccumulated_turns [OF this] child obtain ds' where
    ds': "pushAccumulatedChanges keep_first (\<lambda>c. c) (map (cut_change F) (concat css)) (type_of_change c) = Inr ds'"
    "turns (any_of Ps) (cut_change F c) ds'" by (auto simp: map_concat)
  from pushAccumulated_cut [OF have_all ds'(1), of schema] obtain ds where
    ds: "pushAccumulatedChanges mergeRelationships (makeAddEmptyRelationships schema) (concat css) (type_of_change c) = Inr ds"
    "ds' = map (cut_change F) ds" "\<forall>d \<in> set ds. type_of_change d \<noteq> CHILD \<longrightarrow> all_have (map fst (sc_relationships schema)) d"
    by blast
  let ?st1 = "st\<lparr>us_started := True\<rparr>"
  have "fan_out_pushes (sc_primaryKey schema) inputs 0 outputs c ?st1 = Inr ([], ?st1\<lparr>us_accumulated := concat css\<rparr>)"
    using fan_out_pushes_started [OF _ run, of ?st1] st(2) by simp
  moreover have "fanOutDonePushing schema inputs (type_of_change c) (?st1\<lparr>us_accumulated := concat css\<rparr>) = Inr (ds, st)"
  proof (cases "inputs = [] \<or> concat css = []")
    case True
    then have empty: "concat css = []" using len run by auto
    then have "ds = []" using ds(1) by (simp add: pushAccumulatedChanges_def)
    moreover have "st = \<lparr>us_started = False, us_accumulated = []\<rparr>" using st by (cases st) simp
    ultimately show ?thesis unfolding empty fanOutDonePushing_def Let_def by simp
  next
    case False
    moreover have "st = \<lparr>us_started = False, us_accumulated = []\<rparr>" using st by (cases st) simp
    ultimately show ?thesis using ds(1) by (simp add: fanOutDonePushing_def Let_def del: concat_eq_Nil_conv)
  qed
  ultimately have "fan_out_push schema inputs outputs c st = Inr (ds, st)"
    using st by (simp add: fan_out_push_def fanOutStartedPushing_def)
  with ds ds'(2) show ?thesis by blast
qed

end
