(* ===== verification/UnionClaims.thy ===== *)
theory UnionClaims
  imports UnionPush JoinClaims
begin

section \<open>The claims about unions\<close>

text \<open>
  The samples: a branch that has the two rows of the sample run and one that has only the first, and a fan-out whose branches
  keep the rows of one number \<open>foo\<close> each.
\<close>

text \<open>C12: A fetch through a UnionFanIn returns, in order and each row once, exactly the rows any of its branches has that match
  the request; a row of several branches is the node of the first of them. No assertion fails.\<close>

theorem union_fetch_correct:
  assumes "list_all2 (\<lambda>input S. pipeline_input cmp input S ok) inputs Ss" and "comparator cmp"
    and "uniq cmp (\<Union> (set Ss))" and "ok req"
  shows "\<exists>items. union_fetch cmp inputs req = Inr items \<and>
    sorted_cmp (rev_cmp (req_reverse req) cmp) (rows_of_items items) \<and>
    set (rows_of_items items) = {r \<in> \<Union> (set Ss). requested cmp req r} \<and>
    (\<forall>n \<in> set (skipYields items). \<exists>i < length inputs. \<exists>s. (inputs ! i) req = Inr s \<and> n \<in> set (skipYields s) \<and>
      (\<forall>j < i. node_row n \<notin> Ss ! j))"
  by (rule union_fetch_spec [OF assms])

text \<open>A branch of the rows that match a constraint.\<close>

definition narrowed :: "constraint \<Rightarrow> node_input \<Rightarrow> node_input" where
  "narrowed c input req = bind_result (input req) (\<lambda>items. Inr (filter (\<lambda>it. case it of
     Yield \<Rightarrow> True | Item n \<Rightarrow> matches (Some c) (node_row n)) items))"

lemma narrowed_rows:
  "skipYields (filter (\<lambda>it. case it of Yield \<Rightarrow> True | Item n \<Rightarrow> matches (Some c) (node_row n)) items) =
     filter (\<lambda>n. matches (Some c) (node_row n)) (skipYields items)"
  by (induction items rule: skipYields.induct) simp_all

lemma narrowed_input:
  assumes "pipeline_input cmp input S ok"
  shows "pipeline_input cmp (narrowed c input) {r \<in> S. matches (Some c) r} ok"
proof (intro pipeline_input.intro pipeline_input_axioms.intro)
  show "comparator cmp" using assms by (simp add: pipeline_input_def)
  fix req assume "ok req"
  from pipeline_input.fetch_obtain [OF assms this] obtain items where items: "input req = Inr items"
    "sorted_cmp (rev_cmp (req_reverse req) cmp) (rows_of_items items)" "set (rows_of_items items) = {r \<in> S. requested cmp req r}" .
  let ?items = "filter (\<lambda>it. case it of Yield \<Rightarrow> True | Item n \<Rightarrow> matches (Some c) (node_row n)) items"
  have rows: "rows_of_items ?items = filter (matches (Some c)) (rows_of_items items)"
    by (simp add: rows_of_items_def narrowed_rows filter_map o_def)
  have "narrowed c input req = Inr ?items" by (simp add: narrowed_def items)
  moreover have "sorted_cmp (rev_cmp (req_reverse req) cmp) (rows_of_items ?items)"
    unfolding rows using items(2) by (simp add: sorted_cmp_def sorted_wrt_filter)
  moreover have "set (rows_of_items ?items) = {r \<in> {r \<in> S. matches (Some c) r}. requested cmp req r}"
    unfolding rows using items(3) by auto
  ultimately show "\<exists>items. narrowed c input req = Inr items \<and> sorted_cmp (rev_cmp (req_reverse req) cmp) (rows_of_items items) \<and>
      set (rows_of_items items) = {r \<in> {r \<in> S. matches (Some c) r}. requested cmp req r}" by blast
qed

abbreviation whole_branch :: node_input where
  "whole_branch \<equiv> memory_fetch utf8_lex run6 sample_conn"

abbreviation first_branch :: node_input where
  "first_branch \<equiv> narrowed [(''id'', JNum 1)] whole_branch"

lemma sample_branches:
  "list_all2 (\<lambda>input S. pipeline_input (conn_compareRows utf8_lex sample_conn) input S join_ok)
     [first_branch, whole_branch] [{sample_row 1 1}, {sample_row 1 1, sample_row 2 1}]"
proof -
  have whole: "pipeline_input (conn_compareRows utf8_lex sample_conn) whole_branch {sample_row 1 1, sample_row 2 1} join_ok"
    using sample_source.source.pipeline_input_axioms by (simp add: join_ok_def [abs_def] sample_shown)
  have "{r \<in> {sample_row 1 1, sample_row 2 1}. matches (Some [(''id'', JNum 1)]) r} = {sample_row 1 1}"
    by (auto simp: matches_def constraintMatchesRow_iff sample_row_def get_field_def valuesEqual_iff normalizeUndefined_def)
  with narrowed_input [OF whole, of "[(''id'', JNum 1)]"] whole show ?thesis by simp
qed

lemma sample_uniq: "uniq (conn_compareRows utf8_lex sample_conn) {sample_row 1 1, sample_row 2 1}"
  using sample_signs by (auto simp: uniq_def)

theorem union_fetch_correct_witness:
  "\<exists>items. union_fetch (conn_compareRows utf8_lex sample_conn) [first_branch, whole_branch] (scan_request None False) = Inr items \<and>
     rows_of_items items = [sample_row 2 1, sample_row 1 1]"
proof -
  let ?c = "conn_compareRows utf8_lex sample_conn"
  let ?Ss = "[{sample_row 1 1}, {sample_row 1 1, sample_row 2 1}]"
  have both: "\<Union> (set ?Ss) = {sample_row 1 1, sample_row 2 1}" by auto
  have one: "uniq ?c (\<Union> (set ?Ss))" unfolding both by (rule sample_uniq)
  have "join_ok (scan_request None False)" using sample_scans by (simp add: join_ok_def scans_ok_def scan_request_def)
  from union_fetch_correct [OF sample_branches sample_source.source.comparator_axioms one this] obtain items where
    run: "union_fetch ?c [first_branch, whole_branch] (scan_request None False) = Inr items"
    and items: "sorted_cmp (rev_cmp (req_reverse (scan_request None False)) ?c) (rows_of_items items)"
      "set (rows_of_items items) = {r \<in> \<Union> (set ?Ss). requested ?c (scan_request None False) r}"
    by blast
  have "set (rows_of_items items) = set [sample_row 2 1, sample_row 1 1]"
    unfolding items(2) both by (auto simp: requested_def scan_request_def matches_def after_start_def)
  moreover have "sorted_cmp ?c [sample_row 2 1, sample_row 1 1]" using sample_signs by (simp add: sorted_cmp_def)
  ultimately have "rows_of_items items = [sample_row 2 1, sample_row 1 1]"
    using items(1) by (intro comparator.sorted_cmp_ext [OF sample_source.source.comparator_axioms]) (simp_all add: scan_request_def)
  with run show ?thesis by blast
qed








end
