(* ===== verification/View.thy ===== *)
theory View
  imports Join
begin

section \<open>Views (zql/src/ivm: view-apply-change.ts, array-view.ts)\<close>

text \<open>
  A view keeps the result of a query as a tree of entries. An entry is the columns of its row, the views of
  its relationships, and two fields under symbols, the reference count and the id; the columns and the
  relationships are separate fields here. The code copies the entries on the path of a change, or changes
  in place those that nobody has seen yet (\<open>mutate\<close>, \<open>activeDirty\<close>); the model is the value either way, and what
  it does not show is which objects of the old tree the new one shares. \<open>JSON.stringify\<close> is the parameter \<open>json\<close>.
\<close>

datatype entry = Entry (entry_row: row) (entry_rc: int) (entry_id: "string option") (entry_rels: "(string \<times> view) list")
  and view = Many "entry list" | One "entry option"

datatype view_change =
    VAdd node
  | VRemove node
  | VChild row string view_change
  | VEdit row row

datatype format = Format (fmt_singular: bool) (fmt_relationships: "(string \<times> format) list")

fun changeToViewChange :: "change \<Rightarrow> view_change" where
  "changeToViewChange (CAdd n) = VAdd n"
| "changeToViewChange (CRemove n) = VRemove n"
| "changeToViewChange (CChild n rel c) = VChild (node_row n) rel (changeToViewChange c)"
| "changeToViewChange (CEdit n old) = VEdit (node_row n) (node_row old)"

subsection \<open>Entries and lists of entries\<close>

text \<open>The schema, whether entries get ids, and \<open>JSON.stringify\<close>.\<close>

record view_conf =
  vw_withIDs :: bool
  vw_json :: "js_value list \<Rightarrow> string"

definition makeID :: "view_conf \<Rightarrow> row \<Rightarrow> source_schema \<Rightarrow> string" where
  "makeID cf r schema = vw_json cf (map (get_field r) (sc_primaryKey schema))"

definition makeNewMetaEntry :: "view_conf \<Rightarrow> row \<Rightarrow> source_schema \<Rightarrow> int \<Rightarrow> entry" where
  "makeNewMetaEntry cf r schema rc = Entry r rc (if vw_withIDs cf then Some (makeID cf r schema) else None) []"

definition setRefCount :: "entry \<Rightarrow> int \<Rightarrow> entry" where
  "setRefCount e rc = Entry (entry_row e) rc (entry_id e) (entry_rels e)"

definition incRefCount :: "entry \<Rightarrow> entry" where
  "incRefCount e = setRefCount e (entry_rc e + 1)"

definition decRefCount :: "entry \<Rightarrow> entry" where
  "decRefCount e = setRefCount e (entry_rc e - 1)"

definition setRelation :: "entry \<Rightarrow> string \<Rightarrow> view \<Rightarrow> entry" where
  "setRelation e rel v = Entry (entry_row e) (entry_rc e) (entry_id e) (AList.update rel v (entry_rels e))"

definition applyEdit :: "view_conf \<Rightarrow> entry \<Rightarrow> row \<Rightarrow> source_schema \<Rightarrow> entry" where
  "applyEdit cf e r schema = Entry (spread (entry_row e) r) (entry_rc e)
     (if vw_withIDs cf then Some (makeID cf r schema) else entry_id e) (entry_rels e)"

text \<open>
  \<open>binarySearch\<close> answers \<open>i\<close>, or \<open>~low\<close> when there is no such entry; \<open>Found i\<close> and \<open>InsertAt low\<close>. The interval
  is half open, \<open>hi\<close> is \<open>high + 1\<close>.
\<close>

datatype position = Found nat | InsertAt nat

function binarySearch_loop :: "entry list \<Rightarrow> row \<Rightarrow> row cmp \<Rightarrow> nat \<Rightarrow> nat \<Rightarrow> position" where
  "binarySearch_loop vs target cmp lo hi =
     (if lo < hi then
        let mid = (lo + (hi - 1)) div 2; comparison = cmp (entry_row (vs ! mid)) target in
        if comparison < 0 then binarySearch_loop vs target cmp (mid + 1) hi
        else if 0 < comparison then binarySearch_loop vs target cmp lo mid
        else Found mid
      else InsertAt lo)"
  by pat_completeness auto
termination
  by (relation "measure (\<lambda>(vs, target, cmp, lo, hi). hi - lo)") auto

declare binarySearch_loop.simps [simp del]

definition view_search :: "entry list \<Rightarrow> row \<Rightarrow> row cmp \<Rightarrow> position" where
  "view_search vs target cmp = binarySearch_loop vs target cmp 0 (length vs)"

definition must_find :: "string \<Rightarrow> entry list \<Rightarrow> row \<Rightarrow> row cmp \<Rightarrow> nat result" where
  "must_find msg vs r cmp = (case view_search vs r cmp of Found i \<Rightarrow> Inr i | InsertAt i \<Rightarrow> Inl (AssertionFailed msg))"

definition removeAndUpdateRefCount :: "entry list \<Rightarrow> row \<Rightarrow> row cmp \<Rightarrow> entry list result" where
  "removeAndUpdateRefCount vs r cmp =
     bind_result (must_find ''node does not exist'' vs r cmp) (\<lambda>pos.
       Inr (if entry_rc (vs ! pos) = 1 then remove_at pos vs else vs[pos := decRefCount (vs ! pos)]))"

text \<open>The \<open>edit\<close> of a list whose sort key changes: the entry is edited where it is, moved, or split from its ghost.\<close>

definition move_entry :: "view_conf \<Rightarrow> entry list \<Rightarrow> row \<Rightarrow> row \<Rightarrow> source_schema \<Rightarrow> entry list result" where
  "move_entry cf vs r old schema =
     bind_result (must_find ''old node does not exist'' vs old (sc_compareRows schema)) (\<lambda>oldPos.
       let oldEntry = vs ! oldPos; rawPos = view_search vs r (sc_compareRows schema);
           pos = (case rawPos of Found i \<Rightarrow> i | InsertAt i \<Rightarrow> i) in
       if entry_rc oldEntry = 1 \<and> (pos = oldPos \<or> pos = oldPos + 1)
       then Inr (vs[oldPos := applyEdit cf oldEntry r schema])
       else
         let newRefCount = entry_rc oldEntry - 1;
             newView = (if newRefCount = 0 then remove_at oldPos vs else vs[oldPos := setRefCount oldEntry newRefCount]);
             adjustedPos = (if newRefCount = 0 \<and> oldPos < pos then pos - 1 else pos) in
         Inr (case rawPos of
             Found _ \<Rightarrow>
               (let existingEntry = newView ! adjustedPos in
                newView[adjustedPos := setRefCount (applyEdit cf existingEntry r schema) (entry_rc existingEntry + 1)])
           | InsertAt _ \<Rightarrow> insert_at adjustedPos (setRefCount (applyEdit cf oldEntry r schema) 1) newView))"

definition edit_list :: "view_conf \<Rightarrow> entry list \<Rightarrow> row \<Rightarrow> row \<Rightarrow> source_schema \<Rightarrow> entry list result" where
  "edit_list cf vs r old schema =
     (if sc_compareRows schema old r \<noteq> 0 then move_entry cf vs r old schema
      else bind_result (must_find ''node does not exist'' vs old (sc_compareRows schema)) (\<lambda>pos.
        Inr (vs[pos := applyEdit cf (vs ! pos) r schema])))"

subsection \<open>Reading a relationship of an entry\<close>

definition getOptionalSingularEntry :: "entry \<Rightarrow> string \<Rightarrow> entry option result" where
  "getOptionalSingularEntry e rel = (case map_of (entry_rels e) rel of
     None \<Rightarrow> Inr None | Some (One x) \<Rightarrow> Inr x | Some (Many xs) \<Rightarrow> Inl (AssertionFailed ''number''))"

definition getSingularEntry :: "entry \<Rightarrow> string \<Rightarrow> entry result" where
  "getSingularEntry e rel = bind_result (getOptionalSingularEntry e rel) (\<lambda>x.
     case x of None \<Rightarrow> Inl (AssertionFailed ''node does not exist'') | Some y \<Rightarrow> Inr y)"

definition getChildEntryList :: "entry \<Rightarrow> string \<Rightarrow> entry list result" where
  "getChildEntryList e rel = (case map_of (entry_rels e) rel of
     Some (Many xs) \<Rightarrow> Inr xs | _ \<Rightarrow> Inl (AssertionFailed ''array''))"

definition must_schema :: "source_schema \<Rightarrow> string \<Rightarrow> source_schema result" where
  "must_schema schema rel = (case map_of (sc_relationships schema) rel of
     None \<Rightarrow> Inl (IllegalState ''must'') | Some sc \<Rightarrow> Inr sc)"

subsection \<open>Adding a node\<close>

text \<open>
  The loops over the relationships of a node read them in the order of the keys, and skip \<open>'yield'\<close> markers. In
  \<open>add_hidden\<close> the name of the inner relationship shadows that of the outer one, as in the code.
\<close>

lemma size_relationships: "size_list (size_prod (\<lambda>_. 0) (size_list (size_item size))) (relationships n) < size n"
  by (cases n) simp

function (sequential) apply_add :: "view_conf \<Rightarrow> node \<Rightarrow> source_schema \<Rightarrow> string \<Rightarrow> format \<Rightarrow> entry \<Rightarrow> entry result"
  and add_hidden :: "view_conf \<Rightarrow> (string \<times> node item list) list \<Rightarrow> source_schema \<Rightarrow> format \<Rightarrow> entry \<Rightarrow> entry result"
  and add_all :: "view_conf \<Rightarrow> node item list \<Rightarrow> source_schema \<Rightarrow> string \<Rightarrow> format \<Rightarrow> entry \<Rightarrow> entry result"
  and initializeRelationships ::
    "view_conf \<Rightarrow> (string \<times> node item list) list \<Rightarrow> source_schema \<Rightarrow> (string \<times> format) list \<Rightarrow> entry \<Rightarrow> entry result"
  and build_list :: "view_conf \<Rightarrow> node item list \<Rightarrow> source_schema \<Rightarrow> format \<Rightarrow> entry list \<Rightarrow> entry list result" where
  "apply_add cf (Node r rels) schema rel fmt parent_entry =
     (if sc_isHidden schema then add_hidden cf rels schema fmt parent_entry
      else if fmt_singular fmt then
        bind_result (getOptionalSingularEntry parent_entry rel) (\<lambda>oldEntry.
          case oldEntry of
            Some e \<Rightarrow>
              if sc_compareRows schema (entry_row e) r \<noteq> 0
              then Inl (AssertionFailed ''Singular relationship should not have multiple rows'')
              else Inr (setRelation parent_entry rel (One (Some (incRefCount e))))
          | None \<Rightarrow>
              bind_result (initializeRelationships cf rels schema (fmt_relationships fmt) (makeNewMetaEntry cf r schema 1)) (\<lambda>e.
                Inr (setRelation parent_entry rel (One (Some e)))))
      else
        bind_result (getChildEntryList parent_entry rel) (\<lambda>vs.
          case view_search vs r (sc_compareRows schema) of
            Found k \<Rightarrow> Inr (setRelation parent_entry rel (Many (vs[k := incRefCount (vs ! k)])))
          | InsertAt k \<Rightarrow>
              bind_result (initializeRelationships cf rels schema (fmt_relationships fmt) (makeNewMetaEntry cf r schema 1)) (\<lambda>e.
                Inr (setRelation parent_entry rel (Many (insert_at k e vs))))))"
| "add_hidden cf [] schema fmt parent_entry = Inr parent_entry"
| "add_hidden cf ((rel, stream) # rels) schema fmt parent_entry =
     bind_result (must_schema schema rel) (\<lambda>childSchema.
     bind_result (add_all cf stream childSchema rel fmt parent_entry) (\<lambda>p. add_hidden cf rels schema fmt p))"
| "add_all cf [] schema rel fmt parent_entry = Inr parent_entry"
| "add_all cf (Yield # xs) schema rel fmt parent_entry = add_all cf xs schema rel fmt parent_entry"
| "add_all cf (Item n # xs) schema rel fmt parent_entry =
     bind_result (apply_add cf n schema rel fmt parent_entry) (\<lambda>p. add_all cf xs schema rel fmt p)"
| "initializeRelationships cf [] schema fmts e = Inr e"
| "initializeRelationships cf ((rel, stream) # rels) schema fmts e =
     bind_result (must_schema schema rel) (\<lambda>childSchema.
       case map_of fmts rel of
         None \<Rightarrow> initializeRelationships cf rels schema fmts e
       | Some childFormat \<Rightarrow>
           bind_result
             (if sc_isHidden childSchema \<or> fmt_singular childFormat
              then add_all cf stream childSchema rel childFormat
                (setRelation e rel (if fmt_singular childFormat then One None else Many []))
              else bind_result (build_list cf stream childSchema childFormat []) (\<lambda>vs. Inr (setRelation e rel (Many vs))))
             (\<lambda>e'. initializeRelationships cf rels schema fmts e'))"
| "build_list cf [] schema fmt vs = Inr vs"
| "build_list cf (Yield # xs) schema fmt vs = build_list cf xs schema fmt vs"
| "build_list cf (Item n # xs) schema fmt vs =
     (case view_search vs (node_row n) (sc_compareRows schema) of
        Found k \<Rightarrow> build_list cf xs schema fmt (vs[k := incRefCount (vs ! k)])
      | InsertAt k \<Rightarrow>
          bind_result (initializeRelationships cf (relationships n) schema (fmt_relationships fmt)
              (makeNewMetaEntry cf (node_row n) schema 1)) (\<lambda>e.
            build_list cf xs schema fmt (insert_at k e vs)))"
  by pat_completeness auto
termination
  by (relation "measure (\<lambda>x. case x of
        Inl (Inl (_, n, _)) \<Rightarrow> size n
      | Inl (Inr (_, rels, _)) \<Rightarrow> size_list (size_prod (\<lambda>_. 0) (size_list (size_item size))) rels
      | Inr (Inl (_, xs, _)) \<Rightarrow> size_list (size_item size) xs
      | Inr (Inr (Inl (_, rels, _))) \<Rightarrow> size_list (size_prod (\<lambda>_. 0) (size_list (size_item size))) rels
      | Inr (Inr (Inr (_, xs, _))) \<Rightarrow> size_list (size_item size) xs)")
    (auto intro: less_le_trans [OF size_relationships])

subsection \<open>Removing a node\<close>

function (sequential) apply_remove :: "node \<Rightarrow> source_schema \<Rightarrow> string \<Rightarrow> format \<Rightarrow> entry \<Rightarrow> entry result"
  and remove_hidden :: "(string \<times> node item list) list \<Rightarrow> source_schema \<Rightarrow> format \<Rightarrow> entry \<Rightarrow> entry result"
  and remove_all :: "node item list \<Rightarrow> source_schema \<Rightarrow> string \<Rightarrow> format \<Rightarrow> entry \<Rightarrow> entry result" where
  "apply_remove (Node r rels) schema rel fmt parent_entry =
     (if sc_isHidden schema then remove_hidden rels schema fmt parent_entry
      else if fmt_singular fmt then
        bind_result (getSingularEntry parent_entry rel) (\<lambda>e.
          Inr (setRelation parent_entry rel (One (if entry_rc e = 1 then None else Some (decRefCount e)))))
      else
        bind_result (getChildEntryList parent_entry rel) (\<lambda>vs.
        bind_result (removeAndUpdateRefCount vs r (sc_compareRows schema)) (\<lambda>vs'.
          Inr (setRelation parent_entry rel (Many vs')))))"
| "remove_hidden [] schema fmt parent_entry = Inr parent_entry"
| "remove_hidden ((rel, stream) # rels) schema fmt parent_entry =
     bind_result (must_schema schema rel) (\<lambda>childSchema.
     bind_result (remove_all stream childSchema rel fmt parent_entry) (\<lambda>p. remove_hidden rels schema fmt p))"
| "remove_all [] schema rel fmt parent_entry = Inr parent_entry"
| "remove_all (Yield # xs) schema rel fmt parent_entry = remove_all xs schema rel fmt parent_entry"
| "remove_all (Item n # xs) schema rel fmt parent_entry =
     bind_result (apply_remove n schema rel fmt parent_entry) (\<lambda>p. remove_all xs schema rel fmt p)"
  by pat_completeness auto
termination
  by (relation "measure (\<lambda>x. case x of
        Inl (n, _) \<Rightarrow> size n
      | Inr (Inl (rels, _)) \<Rightarrow> size_list (size_prod (\<lambda>_. 0) (size_list (size_item size))) rels
      | Inr (Inr (xs, _)) \<Rightarrow> size_list (size_item size) xs)") auto

subsection \<open>Applying a change\<close>

fun applyChange :: "view_conf \<Rightarrow> view_change \<Rightarrow> source_schema \<Rightarrow> string \<Rightarrow> format \<Rightarrow> entry \<Rightarrow> entry result" where
  "applyChange cf (VAdd n) schema rel fmt parent_entry = apply_add cf n schema rel fmt parent_entry"
| "applyChange cf (VRemove n) schema rel fmt parent_entry = apply_remove n schema rel fmt parent_entry"
| "applyChange cf (VEdit r old) schema rel fmt parent_entry =
     (if sc_isHidden schema then Inr parent_entry
      else if fmt_singular fmt then
        bind_result (getSingularEntry parent_entry rel) (\<lambda>e.
          Inr (setRelation parent_entry rel (One (Some (applyEdit cf e r schema)))))
      else
        bind_result (getChildEntryList parent_entry rel) (\<lambda>vs.
        bind_result (edit_list cf vs r old schema) (\<lambda>vs'. Inr (setRelation parent_entry rel (Many vs')))))"
| "applyChange cf (VChild r childRel ch) schema rel fmt parent_entry =
     bind_result (must_schema schema childRel) (\<lambda>childSchema.
       if sc_isHidden schema then applyChange cf ch childSchema rel fmt parent_entry
       else case map_of (fmt_relationships fmt) childRel of
         None \<Rightarrow> Inr parent_entry
       | Some childFormat \<Rightarrow>
           if fmt_singular fmt then
             bind_result (getSingularEntry parent_entry rel) (\<lambda>e.
             bind_result (applyChange cf ch childSchema childRel childFormat e) (\<lambda>e'.
               Inr (setRelation parent_entry rel (One (Some e')))))
           else
             bind_result (getChildEntryList parent_entry rel) (\<lambda>vs.
             bind_result (must_find ''node does not exist'' vs r (sc_compareRows schema)) (\<lambda>pos.
             bind_result (applyChange cf ch childSchema childRel childFormat (vs ! pos)) (\<lambda>e'.
               Inr (setRelation parent_entry rel (Many (vs[pos := e'])))))))"

fun applyChanges :: "view_conf \<Rightarrow> view_change list \<Rightarrow> source_schema \<Rightarrow> string \<Rightarrow> format \<Rightarrow> entry \<Rightarrow> entry result" where
  "applyChanges cf [] schema rel fmt parent_entry = Inr parent_entry"
| "applyChanges cf (c # cs) schema rel fmt parent_entry =
     bind_result (applyChange cf c schema rel fmt parent_entry) (\<lambda>p. applyChanges cf cs schema rel fmt p)"

subsection \<open>ArrayView\<close>

text \<open>
  The root entry has one relationship, named by the empty string. A listener is told the data at a \<open>flush\<close> if
  there was a change since the last; the result type and the error of the query are not modelled.
\<close>

record array_view =
  av_schema :: source_schema
  av_format :: format
  av_root :: entry
  av_dirty :: bool

definition plain_views :: view_conf where
  "plain_views = \<lparr>vw_withIDs = False, vw_json = (\<lambda>_. [])\<rparr>"

definition av_data :: "array_view \<Rightarrow> view" where
  "av_data av = (case map_of (entry_rels (av_root av)) [] of Some v \<Rightarrow> v | None \<Rightarrow> One None)"

definition av_flush :: "array_view \<Rightarrow> view option \<times> array_view" where
  "av_flush av = (if \<not> av_dirty av then (None, av) else (Some (av_data av), av\<lparr>av_dirty := False\<rparr>))"

definition everything :: fetch_request where
  "everything = \<lparr>req_constraint = None, req_multi = None, req_start = None, req_reverse = False\<rparr>"

definition new_array_view :: "node_input \<Rightarrow> source_schema \<Rightarrow> format \<Rightarrow> (view option \<times> array_view) result" where
  "new_array_view input schema fmt =
     bind_result (input everything) (\<lambda>nodes.
     bind_result (applyChanges plain_views (map VAdd (skipYields nodes)) schema [] fmt
         (Entry [] 0 None [([], if fmt_singular fmt then One None else Many [])])) (\<lambda>root_entry.
       Inr (av_flush \<lparr>av_schema = schema, av_format = fmt, av_root = root_entry, av_dirty = True\<rparr>)))"

definition av_push :: "array_view \<Rightarrow> change \<Rightarrow> array_view result" where
  "av_push av c =
     bind_result (applyChange plain_views (changeToViewChange c) (av_schema av) [] (av_format av) (av_root av)) (\<lambda>e.
       Inr (av\<lparr>av_root := e, av_dirty := True\<rparr>))"

end
