(* ===== verification/ViewList.thy ===== *)
theory ViewList
  imports View
begin

section \<open>Lists of entries (view-apply-change.ts)\<close>

text \<open>
  The entries of a plural relationship are strictly sorted. The list operations of the code work by positions;
  here each is related to the parts into which the position splits the list.
\<close>

abbreviation entry_rows :: "entry list \<Rightarrow> row list" where
  "entry_rows vs \<equiv> map entry_row vs"

lemma entry_simps [simp]:
  "entry_row (setRefCount e n) = entry_row e" "entry_rc (setRefCount e n) = n" "entry_rels (setRefCount e n) = entry_rels e"
  "entry_id (setRefCount e n) = entry_id e"
  "entry_row (incRefCount e) = entry_row e" "entry_rc (incRefCount e) = entry_rc e + 1"
  "entry_row (decRefCount e) = entry_row e" "entry_rc (decRefCount e) = entry_rc e - 1"
  "entry_row (applyEdit cf e r sc) = spread (entry_row e) r" "entry_rc (applyEdit cf e r sc) = entry_rc e"
  "entry_rels (applyEdit cf e r sc) = entry_rels e"
  "entry_row (makeNewMetaEntry cf r sc n) = r" "entry_rc (makeNewMetaEntry cf r sc n) = n"
  "entry_rels (makeNewMetaEntry cf r sc n) = []"
  "entry_row (setRelation e rel v) = entry_row e" "entry_rc (setRelation e rel v) = entry_rc e"
  "entry_id (setRelation e rel v) = entry_id e"
  "entry_rels (setRelation e rel v) = AList.update rel v (entry_rels e)"
  by (simp_all add: setRefCount_def incRefCount_def decRefCount_def applyEdit_def makeNewMetaEntry_def setRelation_def)

lemma setRefCount_self [simp]: "setRefCount e (entry_rc e) = e"
  by (simp add: setRefCount_def)

lemma inc_dec [simp]: "decRefCount (incRefCount e) = e"
  by (cases e) (simp add: decRefCount_def incRefCount_def setRefCount_def)

text \<open>Putting an entry at its place.\<close>

definition put_entry :: "row cmp \<Rightarrow> entry \<Rightarrow> entry list \<Rightarrow> entry list" where
  "put_entry cmp e vs = filter (\<lambda>x. cmp (entry_row x) (entry_row e) < 0) vs @ e # filter (\<lambda>x. 0 < cmp (entry_row x) (entry_row e)) vs"

lemma put_entry_split:
  assumes "\<forall>x \<in> set as. cmp (entry_row x) (entry_row e) < 0" "\<forall>x \<in> set bs. 0 < cmp (entry_row x) (entry_row e)"
  shows "put_entry cmp e (as @ bs) = as @ e # bs"
proof -
  have "filter (\<lambda>x. cmp (entry_row x) (entry_row e) < 0) as = as" "filter (\<lambda>x. 0 < cmp (entry_row x) (entry_row e)) as = []"
    "filter (\<lambda>x. cmp (entry_row x) (entry_row e) < 0) bs = []" "filter (\<lambda>x. 0 < cmp (entry_row x) (entry_row e)) bs = bs"
    using assms by (auto simp: filter_id_conv filter_empty_conv)
  then show ?thesis by (simp add: put_entry_def)
qed

subsection \<open>Searching\<close>

context row_order
begin

lemma sorted_entries_nth:
  assumes "sorted_cmp cmp (entry_rows vs)" "i < j" "j < length vs"
  shows "cmp (entry_row (vs ! i)) (entry_row (vs ! j)) < 0"
  using assms sorted_wrt_nth_less [of _ "entry_rows vs" i j] by (simp add: sorted_cmp_def)

lemma binarySearch_loop_spec:
  assumes "sorted_cmp cmp (entry_rows vs)" "lo \<le> hi" "hi \<le> length vs"
    and "\<forall>i < lo. cmp (entry_row (vs ! i)) r < 0" "\<forall>i. hi \<le> i \<and> i < length vs \<longrightarrow> 0 < cmp (entry_row (vs ! i)) r"
  shows "case binarySearch_loop vs r cmp lo hi of
      Found i \<Rightarrow> i < length vs \<and> cmp (entry_row (vs ! i)) r = 0
    | InsertAt i \<Rightarrow> i \<le> length vs \<and> (\<forall>j < i. cmp (entry_row (vs ! j)) r < 0) \<and>
        (\<forall>j. i \<le> j \<and> j < length vs \<longrightarrow> 0 < cmp (entry_row (vs ! j)) r)"
  using assms(2-)
proof (induction "hi - lo" arbitrary: lo hi rule: less_induct)
  case less
  show ?case
  proof (cases "lo < hi")
    case False
    with less.prems show ?thesis by (subst binarySearch_loop.simps) auto
  next
    case True
    define mid where "mid = (lo + (hi - 1)) div 2"
    have mid: "lo \<le> mid" "mid < hi" "mid < length vs" using True less.prems(2) by (auto simp: mid_def)
    have step: "binarySearch_loop vs r cmp lo hi = (let comparison = cmp (entry_row (vs ! mid)) r in
        if comparison < 0 then binarySearch_loop vs r cmp (mid + 1) hi
        else if 0 < comparison then binarySearch_loop vs r cmp lo mid else Found mid)"
      using True by (subst binarySearch_loop.simps) (simp add: mid_def Let_def)
    consider "cmp (entry_row (vs ! mid)) r < 0" | "0 < cmp (entry_row (vs ! mid)) r" | "cmp (entry_row (vs ! mid)) r = 0"
      by linarith
    then show ?thesis
    proof cases
      case 1
      have "cmp (entry_row (vs ! i)) r < 0" if "i < mid + 1" for i
        using that 1 mid sorted_entries_nth [OF assms(1), of i mid] by (cases "i = mid") (auto intro: cmp_less_trans)
      with less.hyps [of hi "mid + 1"] mid less.prems show ?thesis
        unfolding step Let_def if_P [OF 1] by auto
    next
      case 2
      have "0 < cmp (entry_row (vs ! i)) r" if "mid \<le> i" "i < length vs" for i
        using that 2 mid sorted_entries_nth [OF assms(1), of mid i] by (cases "i = mid") (auto simp: cmp_pos intro: cmp_less_trans)
      moreover have "binarySearch_loop vs r cmp lo hi = binarySearch_loop vs r cmp lo mid" using 2 step by (simp add: Let_def)
      ultimately show ?thesis
        using less.hyps [of mid lo] mid less.prems by auto
    next
      case 3
      with mid show ?thesis by (simp add: step)
    qed
  qed
qed

lemma view_search_spec:
  assumes "sorted_cmp cmp (entry_rows vs)"
  shows "case view_search vs r cmp of
      Found i \<Rightarrow> i < length vs \<and> cmp (entry_row (vs ! i)) r = 0
    | InsertAt i \<Rightarrow> i \<le> length vs \<and> (\<forall>j < i. cmp (entry_row (vs ! j)) r < 0) \<and>
        (\<forall>j. i \<le> j \<and> j < length vs \<longrightarrow> 0 < cmp (entry_row (vs ! j)) r)"
  unfolding view_search_def by (rule binarySearch_loop_spec [OF assms]) auto

lemma view_search_found:
  assumes "sorted_cmp cmp (entry_rows (as @ e # bs))" "cmp (entry_row e) r = 0"
  shows "view_search (as @ e # bs) r cmp = Found (length as)"
proof (cases "view_search (as @ e # bs) r cmp")
  case (InsertAt i)
  with view_search_spec [OF assms(1), of r] assms(2) show ?thesis
    by (cases "length as < i") (auto dest: spec [of _ "length as"])
next
  case (Found i)
  note at = view_search_spec [OF assms(1), of r, unfolded Found position.case]
  show ?thesis
  proof (cases i "length as" rule: linorder_cases)
    case less
    with at sorted_entries_nth [OF assms(1), of i "length as"] assms(2) show ?thesis
      by (auto simp: cmp_less_eq)
  next
    case greater
    with at sorted_entries_nth [OF assms(1), of "length as" i] assms(2) show ?thesis
      by (auto simp: cmp_less_eq)
  qed (simp add: Found)
qed

lemma view_search_insert:
  assumes "sorted_cmp cmp (entry_rows (as @ bs))"
    and as: "\<forall>e \<in> set as. cmp (entry_row e) r < 0" and bs: "\<forall>e \<in> set bs. 0 < cmp (entry_row e) r"
  shows "view_search (as @ bs) r cmp = InsertAt (length as)"
proof (cases "view_search (as @ bs) r cmp")
  case (Found i)
  with view_search_spec [OF assms(1), of r] have i: "i < length (as @ bs)" "cmp (entry_row ((as @ bs) ! i)) r = 0" by simp_all
  then have "(as @ bs) ! i \<in> set as \<union> set bs" using nth_mem [OF i(1)] by auto
  with i(2) as bs show ?thesis by fastforce
next
  case (InsertAt i)
  note at = view_search_spec [OF assms(1), of r, unfolded InsertAt position.case]
  show ?thesis
  proof (cases i "length as" rule: linorder_cases)
    case less
    with at have "0 < cmp (entry_row (as ! i)) r" by (auto simp: nth_append dest: spec [of _ i])
    with less as show ?thesis by (metis nth_mem less_asym)
  next
    case greater
    with at have "cmp (entry_row (bs ! 0)) r < 0" "bs \<noteq> []" by (auto simp: nth_append dest: spec [of _ "length as"])
    with bs show ?thesis by (metis length_greater_0_conv nth_mem less_asym)
  qed (simp add: InsertAt)
qed

subsection \<open>The operations\<close>

lemma must_find_split:
  "sorted_cmp cmp (entry_rows (as @ e # bs)) \<Longrightarrow> cmp (entry_row e) r = 0 \<Longrightarrow> must_find msg (as @ e # bs) r cmp = Inr (length as)"
  by (simp add: must_find_def view_search_found)

lemma removeAndUpdateRefCount_split:
  assumes "sorted_cmp cmp (entry_rows (as @ e # bs))" "cmp (entry_row e) r = 0"
  shows "removeAndUpdateRefCount (as @ e # bs) r cmp =
    Inr (if entry_rc e = 1 then as @ bs else as @ decRefCount e # bs)"
  using assms by (simp add: removeAndUpdateRefCount_def must_find_split splice_simps)

text \<open>Every list splits at a row: there is an entry for it, or a place.\<close>

lemma entries_split:
  assumes "sorted_cmp cmp (entry_rows vs)"
  obtains (present) as e bs where "vs = as @ e # bs" "cmp (entry_row e) r = 0"
      "\<forall>x \<in> set as. cmp (entry_row x) r < 0" "\<forall>x \<in> set bs. 0 < cmp (entry_row x) r"
  | (absent) as bs where "vs = as @ bs" "\<forall>x \<in> set as. cmp (entry_row x) r < 0" "\<forall>x \<in> set bs. 0 < cmp (entry_row x) r"
      "\<forall>x \<in> set vs. cmp (entry_row x) r \<noteq> 0"
proof (cases "\<exists>e \<in> set vs. cmp (entry_row e) r = 0")
  case True
  then obtain as e bs where vs: "vs = as @ e # bs" "cmp (entry_row e) r = 0" by (meson split_list)
  with assms sorted_cmp_unique [of "entry_rows as" "entry_row e" "entry_rows bs" r] show ?thesis
    by (intro present [OF vs]) auto
next
  case False
  have "vs = filter (\<lambda>x. cmp (entry_row x) r < 0) vs @ filter (\<lambda>x. 0 < cmp (entry_row x) r) vs"
    using assms False
  proof (induction vs)
    case (Cons v vs)
    show ?case
    proof (cases "cmp (entry_row v) r < 0")
      case True
      with Cons show ?thesis by (auto simp: sorted_rules)
    next
      case False
      with Cons.prems(2) have pos: "0 < cmp (entry_row v) r" by force
      then have "\<forall>x \<in> set vs. 0 < cmp (entry_row x) r"
        using Cons.prems(1) by (auto simp: sorted_rules cmp_pos intro: cmp_less_trans)
      with pos show ?thesis by (auto simp: filter_empty_conv filter_id_conv)
    qed
  qed simp
  with False show ?thesis by (intro absent) auto
qed

lemma view_search_absent:
  assumes "sorted_cmp cmp (entry_rows vs)" "\<forall>x \<in> set vs. cmp (entry_row x) r \<noteq> 0"
  obtains k where "view_search vs r cmp = InsertAt k" "\<And>e. entry_row e = r \<Longrightarrow> insert_at k e vs = put_entry cmp e vs"
proof -
  from assms(1) obtain as bs where vs: "vs = as @ bs" "\<forall>x \<in> set as. cmp (entry_row x) r < 0" "\<forall>x \<in> set bs. 0 < cmp (entry_row x) r"
    by (rule entries_split [where r = r]) (use assms(2) in auto)
  then show ?thesis
    using assms(1) by (intro that [of "length as"]) (simp_all add: view_search_insert put_entry_split splice_simps)
qed

lemma move_entry_unshared:
  assumes "sorted_cmp cmp (entry_rows (as @ e # bs))" "sc_compareRows sc = cmp" "cmp (entry_row e) old = 0" "entry_rc e = 1"
    and "view_search (as @ e # bs) r cmp = InsertAt p"
  shows "move_entry cf (as @ e # bs) r old sc = Inr
    (if p = length as \<or> p = Suc (length as) then as @ applyEdit cf e r sc # bs
     else insert_at (if length as < p then p - 1 else p) (applyEdit cf e r sc) (as @ bs))"
proof -
  have "setRefCount (applyEdit cf e r sc) 1 = applyEdit cf e r sc"
    using setRefCount_self [of "applyEdit cf e r sc"] assms(4) by simp
  with assms show ?thesis by (simp add: move_entry_def must_find_split Let_def splice_simps)
qed

lemma edit_list_unshared:
  assumes sorted: "sorted_cmp (sc_compareRows sc) (entry_rows (as @ e # bs))" and cmp: "sc_compareRows sc = cmp"
    and old: "cmp (entry_row e) old = 0" and rc: "entry_rc e = 1"
    and free: "\<forall>x \<in> set (as @ bs). cmp (entry_row x) r \<noteq> 0" and row: "spread (entry_row e) r = r"
  shows "edit_list cf (as @ e # bs) r old sc = Inr (put_entry cmp (applyEdit cf e r sc) (as @ bs))"
proof -
  let ?e = "applyEdit cf e r sc"
  note sorted = sorted [unfolded cmp]
  have before: "\<forall>x \<in> set as. cmp (entry_row x) old < 0" and after: "\<forall>x \<in> set bs. 0 < cmp (entry_row x) old"
    using sorted_cmp_unique [of "entry_rows as" "entry_row e" "entry_rows bs" old] sorted old by auto
  note find = must_find_split [OF sorted old]
  consider "cmp old r = 0" | "cmp old r < 0" | "0 < cmp old r" by linarith
  then show ?thesis
  proof cases
    case 1
    have "put_entry cmp ?e (as @ bs) = as @ ?e # bs"
      using before after 1 by (intro put_entry_split) (auto simp: row cmp_pos cmp_less_eq cmp_eq_less)
    then show ?thesis using 1 by (simp add: edit_list_def cmp find)
  next
    case 2
    have less: "\<forall>x \<in> set as. cmp (entry_row x) r < 0" "cmp (entry_row e) r < 0"
      using before 2 old cmp_less_trans cmp_eq_less by blast+
    have "sorted_cmp cmp (entry_rows bs)" using sorted by (simp add: sorted_rules)
    then obtain b1 b2 where bs: "bs = b1 @ b2" "\<forall>x \<in> set b1. cmp (entry_row x) r < 0" "\<forall>x \<in> set b2. 0 < cmp (entry_row x) r"
      by (rule entries_split [where r = r]) (use free in auto)
    have search: "view_search (as @ e # bs) r cmp = InsertAt (length as + Suc (length b1))"
      using view_search_insert [of "as @ e # b1" b2 r] sorted less bs by auto
    have put: "put_entry cmp ?e (as @ bs) = as @ b1 @ ?e # b2"
      using put_entry_split [of "as @ b1" cmp ?e b2] less bs by (auto simp: row)
    from 2 put move_entry_unshared [OF sorted cmp old rc search] show ?thesis
      unfolding edit_list_def cmp bs by (cases b1) (auto simp: insert_at_def)
  next
    case 3
    have more: "\<forall>x \<in> set bs. 0 < cmp (entry_row x) r" "0 < cmp (entry_row e) r"
      using after 3 old cmp_less_trans cmp_less_eq cmp_zero_sym unfolding cmp_pos by blast+
    have "sorted_cmp cmp (entry_rows as)" using sorted by (simp add: sorted_rules)
    then obtain a1 a2 where as: "as = a1 @ a2" "\<forall>x \<in> set a1. cmp (entry_row x) r < 0" "\<forall>x \<in> set a2. 0 < cmp (entry_row x) r"
      by (rule entries_split [where r = r]) (use free in auto)
    have search: "view_search (as @ e # bs) r cmp = InsertAt (length a1)"
      using view_search_insert [of a1 "a2 @ e # bs" r] sorted more as by auto
    have put: "put_entry cmp ?e (as @ bs) = a1 @ ?e # a2 @ bs"
      using put_entry_split [of a1 cmp ?e "a2 @ bs"] more as by (auto simp: row)
    from 3 put move_entry_unshared [OF sorted cmp old rc search] show ?thesis
      unfolding edit_list_def cmp as by (cases a2) (auto simp: insert_at_def)
  qed
qed

end

end
