(* ===== verification/ViewTree.thy ===== *)
theory ViewTree
  imports ViewList
begin

section \<open>What a view shows\<close>

text \<open>
  The nodes of an input, with the relationships of the format, as a tree of entries; changes of a forest of nodes.
  In a forest without hidden relationships the nodes of a relationship are strictly sorted, so that each
  entry has one reference, and applying a change to the entries is changing the forest.
\<close>

subsection \<open>The entries of a forest\<close>

definition shape :: "format \<Rightarrow> entry list \<Rightarrow> view" where
  "shape fmt es = (if fmt_singular fmt then One (case es of [] \<Rightarrow> None | e # _ \<Rightarrow> Some e) else Many es)"

function (sequential) entry_of :: "view_conf \<Rightarrow> source_schema \<Rightarrow> format \<Rightarrow> node \<Rightarrow> entry"
  and rels_of :: "view_conf \<Rightarrow> source_schema \<Rightarrow> (string \<times> format) list \<Rightarrow> (string \<times> node item list) list \<Rightarrow> (string \<times> view) list"
  and entries_of :: "view_conf \<Rightarrow> source_schema \<Rightarrow> format \<Rightarrow> node item list \<Rightarrow> entry list" where
  "entry_of cf sc fmt (Node r rels) =
     Entry r 1 (if vw_withIDs cf then Some (makeID cf r sc) else None) (rels_of cf sc (fmt_relationships fmt) rels)"
| "rels_of cf sc fmts [] = []"
| "rels_of cf sc fmts ((rel, stream) # rels) =
     (case (map_of (sc_relationships sc) rel, map_of fmts rel) of
        (Some csc, Some cfmt) \<Rightarrow> (rel, shape cfmt (entries_of cf csc cfmt stream)) # rels_of cf sc fmts rels
      | _ \<Rightarrow> rels_of cf sc fmts rels)"
| "entries_of cf sc fmt [] = []"
| "entries_of cf sc fmt (Yield # xs) = entries_of cf sc fmt xs"
| "entries_of cf sc fmt (Item n # xs) = entry_of cf sc fmt n # entries_of cf sc fmt xs"
  by pat_completeness auto
termination
  by (relation "measure (\<lambda>x. case x of Inl (_, _, _, n) \<Rightarrow> size n
      | Inr (Inl (_, _, _, rels)) \<Rightarrow> size_list (size_prod (\<lambda>_. 0) (size_list (size_item size))) rels
      | Inr (Inr (_, _, _, xs)) \<Rightarrow> size_list (size_item size) xs)") auto

definition tree_view :: "view_conf \<Rightarrow> source_schema \<Rightarrow> format \<Rightarrow> node list \<Rightarrow> view" where
  "tree_view cf sc fmt ns = shape fmt (map (entry_of cf sc fmt) ns)"

lemma entries_of_map [simp]: "entries_of cf sc fmt xs = map (entry_of cf sc fmt) (skipYields xs)"
  by (induction xs rule: skipYields.induct) auto

lemma entry_of_simps [simp]:
  "entry_row (entry_of cf sc fmt n) = node_row n" "entry_rc (entry_of cf sc fmt n) = 1"
  "entry_rels (entry_of cf sc fmt n) = rels_of cf sc (fmt_relationships fmt) (relationships n)"
  "entry_id (entry_of cf sc fmt n) = (if vw_withIDs cf then Some (makeID cf (node_row n) sc) else None)"
  by (cases n; simp)+

lemma entry_rows_of [simp]: "entry_rows (map (entry_of cf sc fmt) ns) = map node_row ns"
  by simp

subsection \<open>Forests without hidden relationships\<close>

text \<open>No relationship of the format is hidden, and the rows of each are compared by a total order.\<close>

inductive plain :: "source_schema \<Rightarrow> format \<Rightarrow> bool" where
  plainI: "comparator (sc_compareRows sc) \<Longrightarrow> \<not> sc_isHidden sc \<Longrightarrow>
     (\<And>rel csc cfmt. map_of (sc_relationships sc) rel = Some csc \<Longrightarrow> map_of (fmt_relationships fmt) rel = Some cfmt \<Longrightarrow>
       plain csc cfmt) \<Longrightarrow> plain sc fmt"

inductive_cases plainE: "plain sc fmt"

function (sequential) node_ok :: "source_schema \<Rightarrow> format \<Rightarrow> node \<Rightarrow> bool"
  and rels_ok :: "source_schema \<Rightarrow> (string \<times> format) list \<Rightarrow> (string \<times> node item list) list \<Rightarrow> bool"
  and nodes_ok :: "source_schema \<Rightarrow> format \<Rightarrow> node item list \<Rightarrow> bool" where
  "node_ok sc fmt (Node r rels) \<longleftrightarrow> distinct (map fst rels) \<and> rels_ok sc (fmt_relationships fmt) rels"
| "rels_ok sc fmts [] \<longleftrightarrow> True"
| "rels_ok sc fmts ((rel, stream) # rels) \<longleftrightarrow>
     (case (map_of (sc_relationships sc) rel, map_of fmts rel) of
        (None, _) \<Rightarrow> False
      | (Some csc, None) \<Rightarrow> True
      | (Some csc, Some cfmt) \<Rightarrow> sorted_cmp (sc_compareRows csc) (rows_of_items stream) \<and>
          (fmt_singular cfmt \<longrightarrow> length (skipYields stream) \<le> 1) \<and> nodes_ok csc cfmt stream) \<and> rels_ok sc fmts rels"
| "nodes_ok sc fmt [] \<longleftrightarrow> True"
| "nodes_ok sc fmt (Yield # xs) \<longleftrightarrow> nodes_ok sc fmt xs"
| "nodes_ok sc fmt (Item n # xs) \<longleftrightarrow> node_ok sc fmt n \<and> nodes_ok sc fmt xs"
  by pat_completeness auto
termination
  by (relation "measure (\<lambda>x. case x of Inl (_, _, n) \<Rightarrow> size n
      | Inr (Inl (_, _, rels)) \<Rightarrow> size_list (size_prod (\<lambda>_. 0) (size_list (size_item size))) rels
      | Inr (Inr (_, _, xs)) \<Rightarrow> size_list (size_item size) xs)") auto

lemma nodes_ok_list_all [simp]: "nodes_ok sc fmt xs = list_all (node_ok sc fmt) (skipYields xs)"
  by (induction xs rule: skipYields.induct) auto

definition forest_ok :: "source_schema \<Rightarrow> format \<Rightarrow> node list \<Rightarrow> bool" where
  "forest_ok sc fmt ns \<longleftrightarrow> sorted_cmp (sc_compareRows sc) (map node_row ns) \<and> (fmt_singular fmt \<longrightarrow> length ns \<le> 1) \<and>
     list_all (node_ok sc fmt) ns"

lemma rels_ok_Cons:
  "rels_ok sc fmts ((rel, stream) # rels) \<longleftrightarrow> (\<exists>csc. map_of (sc_relationships sc) rel = Some csc \<and>
     (\<forall>cfmt. map_of fmts rel = Some cfmt \<longrightarrow> forest_ok csc cfmt (skipYields stream))) \<and> rels_ok sc fmts rels"
  by (auto simp: forest_ok_def rows_of_items_def split: option.split)

subsection \<open>Changing a forest\<close>

definition put_node :: "row cmp \<Rightarrow> node \<Rightarrow> node list \<Rightarrow> node list" where
  "put_node cmp n ns = filter (\<lambda>m. cmp (node_row m) (node_row n) < 0) ns @ n # filter (\<lambda>m. 0 < cmp (node_row m) (node_row n)) ns"

definition drop_node :: "row cmp \<Rightarrow> row \<Rightarrow> node list \<Rightarrow> node list" where
  "drop_node cmp r ns = filter (\<lambda>m. cmp (node_row m) r \<noteq> 0) ns"

definition on_relationship :: "string \<Rightarrow> (node list \<Rightarrow> node list) \<Rightarrow> node \<Rightarrow> node" where
  "on_relationship rel f m = Node (node_row m)
     (map (\<lambda>(name, stream). (name, if name = rel then map Item (f (skipYields stream)) else stream)) (relationships m))"

fun tree_apply :: "source_schema \<Rightarrow> change \<Rightarrow> node list \<Rightarrow> node list" where
  "tree_apply sc (CAdd n) ns = put_node (sc_compareRows sc) n ns"
| "tree_apply sc (CRemove n) ns = drop_node (sc_compareRows sc) (node_row n) ns"
| "tree_apply sc (CEdit n old) ns =
     (case find (\<lambda>m. sc_compareRows sc (node_row m) (node_row old) = 0) ns of
        None \<Rightarrow> ns
      | Some m \<Rightarrow> put_node (sc_compareRows sc) (Node (node_row n) (relationships m)) (drop_node (sc_compareRows sc) (node_row old) ns))"
| "tree_apply sc (CChild n rel c) ns =
     (case map_of (sc_relationships sc) rel of
        None \<Rightarrow> ns
      | Some csc \<Rightarrow> map (\<lambda>m. if sc_compareRows sc (node_row m) (node_row n) = 0
          then on_relationship rel (tree_apply csc c) m else m) ns)"

text \<open>The change is one of this forest: what it adds is new, what it removes, edits or changes below is there.\<close>

fun fits :: "source_schema \<Rightarrow> format \<Rightarrow> change \<Rightarrow> node list \<Rightarrow> bool" where
  "fits sc fmt (CAdd n) ns \<longleftrightarrow> node_ok sc fmt n \<and> list_all (\<lambda>m. sc_compareRows sc (node_row m) (node_row n) \<noteq> 0) ns \<and>
     (fmt_singular fmt \<longrightarrow> ns = [])"
| "fits sc fmt (CRemove n) ns \<longleftrightarrow> list_ex (\<lambda>m. sc_compareRows sc (node_row m) (node_row n) = 0) ns"
| "fits sc fmt (CEdit n old) ns \<longleftrightarrow>
     list_ex (\<lambda>m. sc_compareRows sc (node_row m) (node_row old) = 0 \<and> map fst (node_row m) = map fst (node_row n)) ns \<and>
     distinct (map fst (node_row n)) \<and>
     list_all (\<lambda>m. sc_compareRows sc (node_row m) (node_row n) = 0 \<longrightarrow> sc_compareRows sc (node_row m) (node_row old) = 0) ns"
| "fits sc fmt (CChild n rel c) ns \<longleftrightarrow>
     (case (map_of (sc_relationships sc) rel, map_of (fmt_relationships fmt) rel) of
        (None, _) \<Rightarrow> False
      | (Some csc, None) \<Rightarrow> True
      | (Some csc, Some cfmt) \<Rightarrow> list_ex (\<lambda>m. sc_compareRows sc (node_row m) (node_row n) = 0 \<and>
          (case map_of (relationships m) rel of None \<Rightarrow> False | Some stream \<Rightarrow> fits csc cfmt c (skipYields stream))) ns)"

end
