(* ===== verification/ViewCorrect.thy ===== *)
theory ViewCorrect
  imports ViewTree
begin

section \<open>Views refine forests\<close>

subsection \<open>Forests\<close>

lemma put_node_last:
  assumes "\<forall>m \<in> set ns. cmp (node_row m) (node_row n) < 0"
  shows "put_node cmp n ns = ns @ [n]"
proof -
  have "filter (\<lambda>m. cmp (node_row m) (node_row n) < 0) ns = ns" "filter (\<lambda>m. 0 < cmp (node_row m) (node_row n)) ns = []"
    using assms by (auto simp: filter_id_conv filter_empty_conv)
  then show ?thesis by (simp add: put_node_def)
qed

lemma filter_map_entries:
  "filter (\<lambda>x. P (entry_row x)) (map (entry_of cf sc fmt) ns) = map (entry_of cf sc fmt) (filter (\<lambda>m. P (node_row m)) ns)"
  by (simp add: filter_map o_def)

lemma map_put_node:
  "map (entry_of cf sc fmt) (put_node cmp n ns) = put_entry cmp (entry_of cf sc fmt n) (map (entry_of cf sc fmt) ns)"
  by (simp add: put_node_def put_entry_def filter_map_entries filter_map o_def)

lemma set_put_node: "set (put_node cmp n ns) \<subseteq> insert n (set ns)"
  by (auto simp: put_node_def)

lemma rows_put_node: "map node_row (put_node cmp n ns) = ins_sorted cmp (node_row n) (map node_row ns)"
  by (simp add: put_node_def ins_sorted_def filter_map o_def)

lemma rows_drop_node: "map node_row (drop_node cmp r ns) = del_sorted cmp r (map node_row ns)"
  by (simp add: drop_node_def del_sorted_def filter_map o_def)

lemma forest_put:
  assumes "comparator (sc_compareRows sc)" "forest_ok sc fmt ns" "node_ok sc fmt n" "fmt_singular fmt \<longrightarrow> ns = []"
  shows "forest_ok sc fmt (put_node (sc_compareRows sc) n ns)"
proof -
  have "list_all (node_ok sc fmt) (put_node (sc_compareRows sc) n ns)"
    using assms(2,3) set_put_node [of _ n ns] by (auto simp: forest_ok_def list_all_iff)
  moreover have "length (put_node (sc_compareRows sc) n []) = 1" by (simp add: put_node_def)
  ultimately show ?thesis
    using assms comparator.sorted_ins_sorted [OF assms(1)] by (auto simp: forest_ok_def rows_put_node)
qed

lemma forest_drop: "forest_ok sc fmt ns \<Longrightarrow> forest_ok sc fmt (drop_node (sc_compareRows sc) r ns)"
  unfolding forest_ok_def rows_drop_node by (auto simp: drop_node_def list_all_iff intro: sorted_del_sorted le_trans [OF length_filter_le])

subsection \<open>Relationships of an entry\<close>

lemma update_same: "map_of al k = Some v \<Longrightarrow> AList.update k v al = al"
  by (induction al) (auto split: if_splits)

lemma update_absent: "k \<notin> fst ` set al \<Longrightarrow> AList.update k v al = al @ [(k, v)]"
  by (induction al) auto

lemma setRelation_twice [simp]: "setRelation (setRelation e rel v) rel w = setRelation e rel w"
  by (simp add: setRelation_def)

lemma setRelation_same: "map_of (entry_rels e) rel = Some v \<Longrightarrow> setRelation e rel v = e"
  by (cases e) (simp add: setRelation_def update_same)

lemma map_of_setRelation [simp]: "map_of (AList.update k v al) k = Some v"
  by (simp add: update_conv)

lemma rels_of_names: "fst ` set (rels_of cf sc fmts rels) \<subseteq> fst ` set rels"
proof (induction rels)
  case (Cons r rels)
  then have "fst ` set (rels_of cf sc fmts (r # rels)) \<subseteq> insert (fst r) (fst ` set rels)"
    by (cases r) (auto split: option.splits)
  then show ?case by simp
qed simp

lemma tree_view_Nil: "tree_view cf sc fmt [] = (if fmt_singular fmt then One None else Many [])"
  by (simp add: tree_view_def shape_def)

lemma entry_of_new:
  "Entry r 1 (entry_id (makeNewMetaEntry cf r sc 1)) (rels_of cf sc (fmt_relationships fmt) rels) = entry_of cf sc fmt (Node r rels)"
  by (simp add: makeNewMetaEntry_def)

lemma search_fresh:
  assumes "comparator (sc_compareRows sc)" "forest_ok sc fmt ns" "list_all (\<lambda>m. sc_compareRows sc (node_row m) (node_row n) \<noteq> 0) ns"
  obtains k where "view_search (map (entry_of cf sc fmt) ns) (node_row n) (sc_compareRows sc) = InsertAt k"
    "insert_at k (entry_of cf sc fmt n) (map (entry_of cf sc fmt) ns) = map (entry_of cf sc fmt) (put_node (sc_compareRows sc) n ns)"
proof -
  have "sorted_cmp (sc_compareRows sc) (entry_rows (map (entry_of cf sc fmt) ns))"
    "\<forall>x \<in> set (map (entry_of cf sc fmt) ns). sc_compareRows sc (entry_row x) (node_row n) \<noteq> 0"
    using assms(2,3) by (auto simp: forest_ok_def list_all_iff o_def)
  then show ?thesis
    by (rule row_order.view_search_absent [OF row_order.intro, OF assms(1)]) (auto simp: map_put_node intro: that)
qed

subsection \<open>Adding a node\<close>

lemma add_refines:
  "\<lbrakk>plain sc fmt; node_ok sc fmt n; forest_ok sc fmt ns; list_all (\<lambda>m. sc_compareRows sc (node_row m) (node_row n) \<noteq> 0) ns;
     fmt_singular fmt \<longrightarrow> ns = []; map_of (entry_rels p) rel = Some (tree_view cf sc fmt ns)\<rbrakk> \<Longrightarrow>
     apply_add cf n sc rel fmt p = Inr (setRelation p rel (tree_view cf sc fmt (put_node (sc_compareRows sc) n ns)))"
  "True"
  "\<lbrakk>plain sc fmt; forest_ok sc fmt (ns @ skipYields xs); fmt_singular fmt; map_of (entry_rels p) rel = Some (tree_view cf sc fmt ns)\<rbrakk> \<Longrightarrow>
     add_all cf xs sc rel fmt p = Inr (setRelation p rel (tree_view cf sc fmt (ns @ skipYields xs)))"
  "\<lbrakk>\<And>rel csc cfmt. map_of (sc_relationships sc) rel = Some csc \<Longrightarrow> map_of fmts rel = Some cfmt \<Longrightarrow> plain csc cfmt;
     rels_ok sc fmts rels; distinct (map fst rels); fst ` set (entry_rels e) \<inter> fst ` set rels = {}\<rbrakk> \<Longrightarrow>
     initializeRelationships cf rels sc fmts e =
       Inr (Entry (entry_row e) (entry_rc e) (entry_id e) (entry_rels e @ rels_of cf sc fmts rels))"
  "\<lbrakk>plain sc fmt; \<not> fmt_singular fmt; forest_ok sc fmt (ns @ skipYields xs); vs = map (entry_of cf sc fmt) ns\<rbrakk> \<Longrightarrow>
     build_list cf xs sc fmt vs = Inr (map (entry_of cf sc fmt) (ns @ skipYields xs))"
proof (induction cf n sc rel fmt p and cf rels sc fmt p and cf xs sc rel fmt p and cf rels sc fmts e and cf xs sc fmt vs
    arbitrary: ns and and ns and and ns rule: apply_add_add_hidden_add_all_initializeRelationships_build_list.induct)
  case (1 cf r rels sc rel fmt p)
  from "1.prems"(1) have sc: "comparator (sc_compareRows sc)" "\<not> sc_isHidden sc"
    and deep: "\<And>rel csc cfmt. map_of (sc_relationships sc) rel = Some csc \<Longrightarrow> map_of (fmt_relationships fmt) rel = Some cfmt \<Longrightarrow> plain csc cfmt"
    by (auto elim: plainE)
  let ?init = "initializeRelationships cf rels sc (fmt_relationships fmt) (makeNewMetaEntry cf r sc 1)"
  show ?case
  proof (cases "fmt_singular fmt")
    case True
    with "1.prems"(5,6) have none: "getOptionalSingularEntry p rel = Inr None" and ns: "ns = []"
      by (simp_all add: getOptionalSingularEntry_def tree_view_def shape_def)
    have "?init = Inr (entry_of cf sc fmt (Node r rels))"
      using "1.IH"(2) [OF sc(2) True none refl] deep "1.prems"(2) by (simp add: makeNewMetaEntry_def)
    with True sc(2) none show ?thesis
      by (simp add: ns tree_view_def shape_def put_node_def del: entry_of.simps)
  next
    case False
    then have list: "getChildEntryList p rel = Inr (map (entry_of cf sc fmt) ns)"
      using "1.prems"(6) by (simp add: getChildEntryList_def tree_view_def shape_def)
    from sc(1) "1.prems"(3,4) obtain k where search: "view_search (map (entry_of cf sc fmt) ns) r (sc_compareRows sc) = InsertAt k"
      "insert_at k (entry_of cf sc fmt (Node r rels)) (map (entry_of cf sc fmt) ns) =
        map (entry_of cf sc fmt) (put_node (sc_compareRows sc) (Node r rels) ns)"
      using search_fresh [of sc fmt ns "Node r rels"] by (metis node.sel(1))
    have init: "?init = Inr (entry_of cf sc fmt (Node r rels))"
      using "1.IH"(3) [OF sc(2) False list search(1)] deep "1.prems"(2) by (simp add: makeNewMetaEntry_def)
    from False sc(2) init search list show ?thesis
      by (simp add: tree_view_def shape_def del: entry_of.simps)
  qed
next
  case (2 cf schema fmt parent_entry)
  then show ?case by simp
next
  case (3 cf rel stream rels schema fmt parent_entry)
  then show ?case by simp
next
  case (4 cf schema rel fmt parent_entry)
  then show ?case by (simp add: setRelation_same)
next
  case (5 cf xs schema rel fmt parent_entry)
  then show ?case by simp
next
  case (6 cf n xs sc rel fmt p)
  from "6.prems"(1) have sc: "comparator (sc_compareRows sc)" by (auto elim: plainE)
  from "6.prems"(2,3) have one: "ns = []" "skipYields xs = []" by (auto simp: forest_ok_def)
  have add: "apply_add cf n sc rel fmt p = Inr (setRelation p rel (tree_view cf sc fmt [n]))"
    using "6.IH"(1) [of "[]"] "6.prems" by (simp add: one forest_ok_def put_node_def)
  from "6.IH"(2) [OF add, of "[n]"] "6.prems" show ?case by (simp add: add one)
next
  case (7 cf schema fmts e)
  then show ?case by simp
next
  case (8 cf rel stream rels sc fmts e)
  from "8.prems"(2) obtain csc where csc: "map_of (sc_relationships sc) rel = Some csc" "must_schema sc rel = Inr csc"
    and forest: "\<And>cfmt. map_of fmts rel = Some cfmt \<Longrightarrow> forest_ok csc cfmt (skipYields stream)" and rest: "rels_ok sc fmts rels"
    unfolding rels_ok_Cons by (auto simp: must_schema_def)
  show ?case
  proof (cases "map_of fmts rel")
    case None
    with "8.IH"(1) [OF csc(2) None] "8.prems" rest csc show ?thesis by auto
  next
    case (Some cfmt)
    have deep: "plain csc cfmt" by (rule "8.prems"(1) [OF csc(1) Some])
    then have "\<not> sc_isHidden csc" by (auto elim: plainE)
    let ?e = "setRelation e rel (tree_view cf csc cfmt (skipYields stream))"
    have new: "entry_rels ?e = entry_rels e @ [(rel, tree_view cf csc cfmt (skipYields stream))]"
      using "8.prems"(4) by (simp add: update_absent)
    have step: "(if sc_isHidden csc \<or> fmt_singular cfmt
        then add_all cf stream csc rel cfmt (setRelation e rel (if fmt_singular cfmt then One None else Many []))
        else bind_result (build_list cf stream csc cfmt []) (\<lambda>vs. Inr (setRelation e rel (Many vs)))) = Inr ?e"
    proof (cases "fmt_singular cfmt")
      case True
      with "8.IH"(2) [OF csc(2) Some, of "[]"] deep forest [OF Some] show ?thesis by (simp add: tree_view_Nil)
    next
      case False
      with "8.IH"(3) [OF csc(2) Some, of "[]"] deep forest [OF Some] \<open>\<not> sc_isHidden csc\<close> show ?thesis
        by (simp add: tree_view_def shape_def)
    qed
    with "8.IH"(4) [OF csc(2) Some step] "8.prems" rest csc new Some show ?thesis
      by (auto simp: tree_view_def)
  qed
next
  case (9 cf schema fmt vs)
  then show ?case by simp
next
  case (10 cf xs schema fmt vs)
  then show ?case by simp
next
  case (11 cf n xs sc fmt vs)
  from "11.prems"(1) have sc: "comparator (sc_compareRows sc)"
    and deep: "\<And>rel csc cfmt. map_of (sc_relationships sc) rel = Some csc \<Longrightarrow> map_of (fmt_relationships fmt) rel = Some cfmt \<Longrightarrow> plain csc cfmt"
    by (auto elim: plainE)
  have forest: "forest_ok sc fmt ns" "\<forall>m \<in> set ns. sc_compareRows sc (node_row m) (node_row n) < 0" "node_ok sc fmt n"
    using "11.prems"(2,3) by (auto simp: forest_ok_def sorted_rules)
  have last: "put_node (sc_compareRows sc) n ns = ns @ [n]" by (rule put_node_last) (rule forest(2))
  have fresh: "list_all (\<lambda>m. sc_compareRows sc (node_row m) (node_row n) \<noteq> 0) ns"
    using forest(2) by (auto simp: list_all_iff)
  obtain k where search: "view_search vs (node_row n) (sc_compareRows sc) = InsertAt k"
    "insert_at k (entry_of cf sc fmt n) vs = map (entry_of cf sc fmt) (ns @ [n])"
    using search_fresh [OF sc forest(1) fresh, where cf = cf] unfolding last "11.prems"(4) by blast
  have init: "initializeRelationships cf (relationships n) sc (fmt_relationships fmt) (makeNewMetaEntry cf (node_row n) sc 1) =
      Inr (entry_of cf sc fmt n)"
    using "11.IH"(2) [OF search(1)] deep forest(3) by (cases n) (simp add: makeNewMetaEntry_def)
  from "11.IH"(3) [OF search(1) init, of "ns @ [n]"] "11.prems" search init show ?case by simp
qed

subsection \<open>Removing and editing\<close>

lemma forest_split:
  assumes "comparator (sc_compareRows sc)" "forest_ok sc fmt ns" "m \<in> set ns" "sc_compareRows sc (node_row m) r = 0"
  obtains as bs where "ns = as @ m # bs" "drop_node (sc_compareRows sc) r ns = as @ bs"
    "\<forall>x \<in> set (as @ bs). sc_compareRows sc (node_row x) r \<noteq> 0"
    "sorted_cmp (sc_compareRows sc) (entry_rows (map (entry_of cf sc fmt) as @ entry_of cf sc fmt m # map (entry_of cf sc fmt) bs))"
proof -
  from assms(3) obtain as bs where ns: "ns = as @ m # bs" by (meson split_list)
  have sorted: "sorted_cmp (sc_compareRows sc) (map node_row as @ node_row m # map node_row bs)"
    using assms(2) by (simp add: forest_ok_def ns)
  from comparator.sorted_cmp_unique [OF assms(1) sorted assms(4)]
  have others: "\<forall>x \<in> set (as @ bs). sc_compareRows sc (node_row x) r \<noteq> 0" by force
  then have "drop_node (sc_compareRows sc) r ns = as @ bs"
    using assms(4) by (auto simp: ns drop_node_def filter_id_conv)
  with ns others sorted show ?thesis by (intro that [of as bs]) (simp_all add: o_def)
qed

lemma spread_Cons: "k \<notin> fst ` set c \<Longrightarrow> spread ((k, v) # base) c = (k, v) # spread base c"
  by (induction c arbitrary: base) (auto simp: spread_def)

lemma spread_columns: "map fst base = map fst c \<Longrightarrow> distinct (map fst c) \<Longrightarrow> spread base c = c"
proof (induction c arbitrary: base)
  case (Cons kv c)
  then obtain v bs where base: "base = (fst kv, v) # bs" "map fst bs = map fst c" by (cases base) auto
  have "spread base (kv # c) = spread ((fst kv, snd kv) # bs) c" by (cases kv) (simp add: spread_def base)
  with Cons.IH [OF base(2)] Cons.prems(2) spread_Cons [of "fst kv" c "snd kv" bs] show ?case by simp
qed (simp add: spread_def)

lemma applyEdit_entry_of:
  "spread (node_row m) r = r \<Longrightarrow> applyEdit cf (entry_of cf sc fmt m) r sc = entry_of cf sc fmt (Node r (relationships m))"
  by (cases m) (simp add: applyEdit_def)

lemma node_ok_row [simp]: "node_ok sc fmt (Node r (relationships m)) = node_ok sc fmt m"
  by (cases m) simp

lemma remove_refines:
  assumes "plain sc fmt" "forest_ok sc fmt ns" "fits sc fmt (CRemove n) ns" "map_of (entry_rels e) rel = Some (tree_view cf sc fmt ns)"
  shows "apply_remove n sc rel fmt e = Inr (setRelation e rel (tree_view cf sc fmt (drop_node (sc_compareRows sc) (node_row n) ns)))"
proof -
  from assms(1) have sc: "comparator (sc_compareRows sc)" "\<not> sc_isHidden sc" by (auto elim: plainE)
  from assms(3) obtain m where m: "m \<in> set ns" "sc_compareRows sc (node_row m) (node_row n) = 0" by (auto simp: list_ex_iff)
  from forest_split [OF sc(1) assms(2) m, where cf = cf] obtain as bs where ns: "ns = as @ m # bs"
    "drop_node (sc_compareRows sc) (node_row n) ns = as @ bs"
    "sorted_cmp (sc_compareRows sc) (entry_rows (map (entry_of cf sc fmt) as @ entry_of cf sc fmt m # map (entry_of cf sc fmt) bs))"
    by blast
  obtain r rels where n: "n = Node r rels" by (cases n)
  show ?thesis
  proof (cases "fmt_singular fmt")
    case True
    with assms(2) have "as = []" "bs = []" by (auto simp: forest_ok_def ns(1))
    with True sc(2) assms(4) ns show ?thesis
      by (simp add: n getSingularEntry_def getOptionalSingularEntry_def tree_view_def shape_def)
  next
    case False
    from row_order.removeAndUpdateRefCount_split [OF row_order.intro, OF sc(1) ns(3), of r] m(2)
    have "removeAndUpdateRefCount (map (entry_of cf sc fmt) ns) r (sc_compareRows sc) = Inr (map (entry_of cf sc fmt) (as @ bs))"
      by (simp add: ns(1) n)
    with False sc(2) assms(4) ns(2) show ?thesis
      by (simp add: n getChildEntryList_def tree_view_def shape_def)
  qed
qed

lemma find_split: "\<forall>x \<in> set as. \<not> P x \<Longrightarrow> P m \<Longrightarrow> find P (as @ m # bs) = Some m"
  by (induction as) auto

lemma edit_refines:
  assumes "plain sc fmt" "forest_ok sc fmt ns" "fits sc fmt (CEdit n old) ns" "map_of (entry_rels e) rel = Some (tree_view cf sc fmt ns)"
  shows "applyChange cf (VEdit (node_row n) (node_row old)) sc rel fmt e =
      Inr (setRelation e rel (tree_view cf sc fmt (tree_apply sc (CEdit n old) ns))) \<and> forest_ok sc fmt (tree_apply sc (CEdit n old) ns)"
proof -
  let ?cmp = "sc_compareRows sc"
  from assms(1) have sc: "comparator ?cmp" "\<not> sc_isHidden sc" by (auto elim: plainE)
  from assms(3) obtain m where m: "m \<in> set ns" "?cmp (node_row m) (node_row old) = 0"
    and row: "spread (node_row m) (node_row n) = node_row n"
    by (auto simp: list_ex_iff intro: spread_columns)
  from forest_split [OF sc(1) assms(2) m, where cf = cf] obtain as bs where ns: "ns = as @ m # bs"
    "drop_node ?cmp (node_row old) ns = as @ bs" "\<forall>x \<in> set (as @ bs). ?cmp (node_row x) (node_row old) \<noteq> 0"
    and sorted: "sorted_cmp ?cmp (entry_rows (map (entry_of cf sc fmt) as @ entry_of cf sc fmt m # map (entry_of cf sc fmt) bs))"
    by blast
  let ?m = "Node (node_row n) (relationships m)"
  have "find (\<lambda>m. ?cmp (node_row m) (node_row old) = 0) ns = Some m" unfolding ns(1) by (rule find_split) (use ns(3) m(2) in auto)
  then have new: "tree_apply sc (CEdit n old) ns = put_node ?cmp ?m (as @ bs)" using ns(2) by simp
  have parts: "forest_ok sc fmt (as @ bs)" using forest_drop [OF assms(2), of "node_row old"] by (simp add: ns(2))
  have single: "as = [] \<and> bs = []" if "fmt_singular fmt" using assms(2) that by (auto simp: forest_ok_def ns(1))
  have "node_ok sc fmt ?m" using assms(2) m(1) by (simp add: forest_ok_def list_all_iff del: node_ok.simps)
  with single have forest: "forest_ok sc fmt (put_node ?cmp ?m (as @ bs))" by (intro forest_put sc(1) parts) auto
  show ?thesis
  proof (cases "fmt_singular fmt")
    case True
    with single sc(2) assms(4) ns new forest applyEdit_entry_of [OF row] show ?thesis
      by (simp add: getSingularEntry_def getOptionalSingularEntry_def tree_view_def shape_def put_node_def)
  next
    case False
    have "\<forall>x \<in> set (map (entry_of cf sc fmt) as @ map (entry_of cf sc fmt) bs). ?cmp (entry_row x) (node_row n) \<noteq> 0"
      using assms(3) ns(3) by (auto simp: list_all_iff ns(1))
    from row_order.edit_list_unshared [OF row_order.intro, OF sc(1) sorted refl _ _ this, of "node_row old" cf] m(2) row
    have "edit_list cf (map (entry_of cf sc fmt) ns) (node_row n) (node_row old) sc =
        Inr (map (entry_of cf sc fmt) (put_node ?cmp ?m (as @ bs)))"
      by (simp add: ns(1) map_put_node applyEdit_entry_of)
    with False sc(2) assms(4) new forest show ?thesis
      by (simp add: getChildEntryList_def tree_view_def shape_def)
  qed
qed

subsection \<open>A change below a node\<close>

abbreviation on_stream :: "string \<Rightarrow> (node list \<Rightarrow> node list) \<Rightarrow> string \<times> node item list \<Rightarrow> string \<times> node item list" where
  "on_stream rel f \<equiv> \<lambda>(name, stream). (name, if name = rel then map Item (f (skipYields stream)) else stream)"

lemma on_stream_absent: "rel \<notin> fst ` set rels \<Longrightarrow> map (on_stream rel f) rels = rels"
  by (induction rels) auto

lemma rels_of_unformatted: "map_of fmts rel = None \<Longrightarrow> rels_of cf sc fmts (map (on_stream rel f) rels) = rels_of cf sc fmts rels"
  by (induction rels) (auto split: option.split)

lemma map_of_rels_of:
  "map_of (sc_relationships sc) rel = Some csc \<Longrightarrow> map_of fmts rel = Some cfmt \<Longrightarrow>
     map_of rels rel = Some stream \<Longrightarrow> map_of (rels_of cf sc fmts rels) rel = Some (tree_view cf csc cfmt (skipYields stream))"
  by (induction rels) (auto simp: tree_view_def split: if_splits option.split)

lemma rels_of_on_stream:
  "map_of (sc_relationships sc) rel = Some csc \<Longrightarrow> map_of fmts rel = Some cfmt \<Longrightarrow>
     distinct (map fst rels) \<Longrightarrow> map_of rels rel = Some stream \<Longrightarrow>
     rels_of cf sc fmts (map (on_stream rel f) rels) = AList.update rel (tree_view cf csc cfmt (f (skipYields stream))) (rels_of cf sc fmts rels)"
proof (induction rels)
  case (Cons r rels)
  show ?case
  proof (cases "fst r = rel")
    case True
    with Cons.prems have r: "r = (rel, stream)" "rel \<notin> fst ` set rels" by (cases r; auto)+
    then show ?thesis using on_stream_absent [OF r(2), of f] Cons.prems by (simp add: tree_view_def)
  next
    case False
    with Cons show ?thesis by (cases r) (auto split: option.split)
  qed
qed simp

lemma rels_ok_forest:
  "map_of (sc_relationships sc) rel = Some csc \<Longrightarrow> map_of fmts rel = Some cfmt \<Longrightarrow>
     rels_ok sc fmts rels \<Longrightarrow> map_of rels rel = Some stream \<Longrightarrow> forest_ok csc cfmt (skipYields stream)"
  by (induction rels) (auto simp: rels_ok_Cons split: if_splits simp del: rels_ok.simps(2))

lemma rels_ok_on_stream:
  "map_of (sc_relationships sc) rel = Some csc \<Longrightarrow> map_of fmts rel = Some cfmt \<Longrightarrow>
     rels_ok sc fmts rels \<Longrightarrow> distinct (map fst rels) \<Longrightarrow> map_of rels rel = Some stream \<Longrightarrow>
     forest_ok csc cfmt (f (skipYields stream)) \<Longrightarrow> rels_ok sc fmts (map (on_stream rel f) rels)"
proof (induction rels)
  case (Cons r rels)
  show ?case
  proof (cases "fst r = rel")
    case True
    with Cons.prems have r: "r = (rel, stream)" "rel \<notin> fst ` set rels" by (cases r; auto)+
    then show ?thesis
      using on_stream_absent [OF r(2), of f] Cons.prems by (simp add: rels_ok_Cons del: rels_ok.simps(2))
  next
    case False
    with Cons show ?thesis by (cases r) (auto simp: rels_ok_Cons simp del: rels_ok.simps(2))
  qed
qed simp

lemma fst_on_stream [simp]: "fst \<circ> on_stream rel f = fst"
  by (auto simp: fun_eq_iff)

lemma on_relationship_simps [simp]:
  "node_row (on_relationship rel f m) = node_row m"
  "relationships (on_relationship rel f m) = map (on_stream rel f) (relationships m)"
  by (simp_all add: on_relationship_def)

lemma node_ok_iff: "node_ok sc fmt m \<longleftrightarrow> distinct (map fst (relationships m)) \<and> rels_ok sc (fmt_relationships fmt) (relationships m)"
  by (cases m) simp

lemma entry_eqI:
  "entry_row e = entry_row d \<Longrightarrow> entry_rc e = entry_rc d \<Longrightarrow> entry_id e = entry_id d \<Longrightarrow> entry_rels e = entry_rels d \<Longrightarrow> e = d"
  by (cases e; cases d) simp

lemma applyChange_refines:
  "\<lbrakk>plain sc fmt; forest_ok sc fmt ns; fits sc fmt c ns; map_of (entry_rels e) rel = Some (tree_view cf sc fmt ns)\<rbrakk> \<Longrightarrow>
     applyChange cf (changeToViewChange c) sc rel fmt e = Inr (setRelation e rel (tree_view cf sc fmt (tree_apply sc c ns))) \<and>
     forest_ok sc fmt (tree_apply sc c ns)"
proof (induction c arbitrary: sc fmt ns e rel)
  case (CAdd n)
  then have sc: "comparator (sc_compareRows sc)" by (auto elim: plainE)
  from CAdd add_refines(1) [of sc fmt n ns e rel cf] forest_put [OF sc, of fmt ns n] show ?case by simp
next
  case (CRemove n)
  from remove_refines [OF CRemove] forest_drop [OF CRemove(2)] show ?case by simp
next
  case (CEdit n old)
  from edit_refines [OF CEdit] show ?case by simp
next
  case (CChild n childRel c)
  let ?cmp = "sc_compareRows sc"
  from CChild.prems(1) have sc: "comparator ?cmp" "\<not> sc_isHidden sc"
    and deep: "\<And>rel csc cfmt. map_of (sc_relationships sc) rel = Some csc \<Longrightarrow> map_of (fmt_relationships fmt) rel = Some cfmt \<Longrightarrow> plain csc cfmt"
    by (auto elim: plainE)
  from CChild.prems(3) obtain csc where csc: "map_of (sc_relationships sc) childRel = Some csc" by (auto split: option.splits)
  let ?on = "on_relationship childRel (tree_apply csc c)"
  let ?new = "map (\<lambda>m. if ?cmp (node_row m) (node_row n) = 0 then ?on m else m) ns"
  have new: "tree_apply sc (CChild n childRel c) ns = ?new" by (simp add: csc)
  have rows: "map node_row ?new = map node_row ns" by simp
  show ?case
  proof (cases "map_of (fmt_relationships fmt) childRel")
    case None
    have same: "entry_of cf sc fmt (?on m) = entry_of cf sc fmt m" for m
      by (rule entry_eqI) (simp_all add: rels_of_unformatted None)
    have "rels_ok sc (fmt_relationships fmt) (map (on_stream childRel (tree_apply csc c)) rels) = rels_ok sc (fmt_relationships fmt) rels" for rels
    proof (induction rels)
      case (Cons r rels)
      then show ?case
        by (cases r; cases "fst r = childRel") (simp_all add: rels_ok_Cons None del: rels_ok.simps(2))
    qed simp
    then have ok: "node_ok sc fmt (?on m) = node_ok sc fmt m" for m by (simp add: node_ok_iff)
    have "map (entry_of cf sc fmt) ?new = map (entry_of cf sc fmt) ns" by (simp add: same)
    then have "tree_view cf sc fmt ?new = tree_view cf sc fmt ns" unfolding tree_view_def by (simp only:)
    moreover have "forest_ok sc fmt ?new" using CChild.prems(2) unfolding forest_ok_def rows by (auto simp: list_all_iff ok)
    ultimately show ?thesis
      unfolding new using CChild.prems(4) by (simp add: None sc(2) must_schema_def csc setRelation_same)
  next
    case (Some cfmt)
    from CChild.prems(3) obtain m stream where m: "m \<in> set ns" "?cmp (node_row m) (node_row n) = 0"
      and stream: "map_of (relationships m) childRel = Some stream" "fits csc cfmt c (skipYields stream)"
      by (auto simp: csc Some list_ex_iff split: option.splits)
    from forest_split [OF sc(1) CChild.prems(2) m, where cf = cf] obtain as bs where ns: "ns = as @ m # bs"
      "\<forall>x \<in> set (as @ bs). ?cmp (node_row x) (node_row n) \<noteq> 0"
      and sorted: "sorted_cmp ?cmp (entry_rows (map (entry_of cf sc fmt) as @ entry_of cf sc fmt m # map (entry_of cf sc fmt) bs))"
      by blast
    have mapped: "?new = as @ ?on m # bs" using ns m(2) by (auto simp: ns(1) intro: map_idI)
    have okm: "distinct (map fst (relationships m))" "rels_ok sc (fmt_relationships fmt) (relationships m)"
      using CChild.prems(2) m(1) by (auto simp: forest_ok_def list_all_iff node_ok_iff)
    have below: "applyChange cf (changeToViewChange c) csc childRel cfmt (entry_of cf sc fmt m) =
          Inr (setRelation (entry_of cf sc fmt m) childRel (tree_view cf csc cfmt (tree_apply csc c (skipYields stream)))) \<and>
        forest_ok csc cfmt (tree_apply csc c (skipYields stream))"
      by (rule CChild.IH [OF deep [OF csc Some] rels_ok_forest [OF csc Some okm(2) stream(1)] stream(2)])
        (simp add: map_of_rels_of [OF csc Some stream(1)])
    have entry: "setRelation (entry_of cf sc fmt m) childRel (tree_view cf csc cfmt (tree_apply csc c (skipYields stream))) =
        entry_of cf sc fmt (?on m)"
      by (rule entry_eqI) (simp_all add: rels_of_on_stream [OF csc Some okm(1) stream(1)])
    have "node_ok sc fmt (?on m)"
      using rels_ok_on_stream [OF csc Some okm(2,1) stream(1), of "tree_apply csc c"] below okm(1) by (simp add: node_ok_iff)
    then have forest: "forest_ok sc fmt (as @ ?on m # bs)"
      using CChild.prems(2) unfolding forest_ok_def ns(1) by auto
    show ?thesis
    proof (cases "fmt_singular fmt")
      case True
      with CChild.prems(2) have "as = []" "bs = []" by (auto simp: forest_ok_def ns(1))
      with True CChild.prems(4) below entry forest show ?thesis
        unfolding new mapped
        by (simp add: Some sc(2) must_schema_def csc ns(1) getSingularEntry_def getOptionalSingularEntry_def tree_view_def shape_def)
    next
      case False
      have "must_find ''node does not exist'' (map (entry_of cf sc fmt) ns) (node_row n) ?cmp = Inr (length as)"
        using row_order.must_find_split [OF row_order.intro, OF sc(1) sorted, of "node_row n" "''node does not exist''"] m(2)
        by (simp add: ns(1))
      moreover have "(map (entry_of cf sc fmt) as @ x # ys)[length as := y] = map (entry_of cf sc fmt) as @ y # ys" for x y ys
        using list_update_length [of "map (entry_of cf sc fmt) as"] by simp
      moreover have "(map (entry_of cf sc fmt) as @ x # ys) ! length as = x" for x ys
        using nth_append_length [of "map (entry_of cf sc fmt) as"] by simp
      ultimately show ?thesis
        using False CChild.prems(4) below entry forest unfolding new mapped
        by (simp add: Some sc(2) must_schema_def csc getChildEntryList_def tree_view_def shape_def ns(1))
    qed
  qed
qed

subsection \<open>A view of a forest\<close>

fun all_fit :: "source_schema \<Rightarrow> format \<Rightarrow> change list \<Rightarrow> node list \<Rightarrow> bool" where
  "all_fit sc fmt [] ns \<longleftrightarrow> True"
| "all_fit sc fmt (c # cs) ns \<longleftrightarrow> fits sc fmt c ns \<and> all_fit sc fmt cs (tree_apply sc c ns)"

lemma hydrate_refines:
  assumes "plain sc fmt"
  shows "forest_ok sc fmt (ns @ ms) \<Longrightarrow> map_of (entry_rels e) rel = Some (tree_view cf sc fmt ns) \<Longrightarrow>
     applyChanges cf (map VAdd ms) sc rel fmt e = Inr (setRelation e rel (tree_view cf sc fmt (ns @ ms)))"
proof (induction ms arbitrary: ns e)
  case (Cons m ms)
  have forest: "forest_ok sc fmt ns" "\<forall>x \<in> set ns. sc_compareRows sc (node_row x) (node_row m) < 0" "node_ok sc fmt m"
    "fmt_singular fmt \<longrightarrow> ns = []"
    using Cons.prems(1) by (auto simp: forest_ok_def sorted_rules)
  have last: "put_node (sc_compareRows sc) m ns = ns @ [m]" by (rule put_node_last) (rule forest(2))
  have fresh: "list_all (\<lambda>x. sc_compareRows sc (node_row x) (node_row m) \<noteq> 0) ns"
    using forest(2) by (auto simp: list_all_iff)
  note add = add_refines(1) [OF assms forest(3,1) fresh forest(4) Cons.prems(2), unfolded last]
  from Cons.IH [of "ns @ [m]" "setRelation e rel (tree_view cf sc fmt (ns @ [m]))"] Cons.prems(1) show ?case by (simp add: add)
qed (simp add: setRelation_same)

definition displays :: "array_view \<Rightarrow> source_schema \<Rightarrow> format \<Rightarrow> node list \<Rightarrow> bool" where
  "displays av sc fmt ns \<longleftrightarrow> av_schema av = sc \<and> av_format av = fmt \<and>
     map_of (entry_rels (av_root av)) [] = Some (tree_view plain_views sc fmt ns)"

lemma displays_data: "displays av sc fmt ns \<Longrightarrow> av_data av = tree_view plain_views sc fmt ns"
  by (simp add: displays_def av_data_def)

lemma new_array_view_displays:
  assumes "plain sc fmt" "input everything = Inr nodes" "forest_ok sc fmt (skipYields nodes)"
  shows "\<exists>av. new_array_view input sc fmt = Inr (Some (tree_view plain_views sc fmt (skipYields nodes)), av) \<and>
     displays av sc fmt (skipYields nodes) \<and> \<not> av_dirty av"
proof -
  have "applyChanges plain_views (map VAdd (skipYields nodes)) sc [] fmt (Entry [] 0 None [([], if fmt_singular fmt then One None else Many [])]) =
      Inr (setRelation (Entry [] 0 None [([], if fmt_singular fmt then One None else Many [])]) [] (tree_view plain_views sc fmt (skipYields nodes)))"
    using hydrate_refines [OF assms(1), of "[]" "skipYields nodes"] assms(3) by (simp add: tree_view_Nil)
  then show ?thesis using assms(2) by (simp add: new_array_view_def av_flush_def av_data_def displays_def)
qed

lemma av_push_displays:
  assumes "plain sc fmt" "forest_ok sc fmt ns" "fits sc fmt c ns" "displays av sc fmt ns"
  shows "\<exists>av'. av_push av c = Inr av' \<and> displays av' sc fmt (tree_apply sc c ns) \<and> forest_ok sc fmt (tree_apply sc c ns) \<and> av_dirty av'"
  using applyChange_refines [OF assms(1-3), of "av_root av" "[]" plain_views] assms(4) by (simp add: av_push_def displays_def)

end
