(* ===== verification/ViewClaims.thy ===== *)
theory ViewClaims
  imports ViewCorrect MemorySourceClaims
begin

section \<open>The claims about views\<close>

text \<open>
  A view that follows its input, changes that undo each other, and two ways in which an entry with several
  references goes wrong.
\<close>

fun av_pushes :: "array_view \<Rightarrow> change list \<Rightarrow> array_view result" where
  "av_pushes av [] = Inr av"
| "av_pushes av (c # cs) = bind_result (av_push av c) (\<lambda>av'. av_pushes av' cs)"

lemma av_pushes_displays:
  assumes "plain sc fmt"
  shows "forest_ok sc fmt ns \<Longrightarrow> all_fit sc fmt cs ns \<Longrightarrow> displays av sc fmt ns \<Longrightarrow>
     \<exists>av'. av_pushes av cs = Inr av' \<and> displays av' sc fmt (foldl (\<lambda>ns c. tree_apply sc c ns) ns cs) \<and>
       (av_dirty av' \<longleftrightarrow> av_dirty av \<or> cs \<noteq> [])"
proof (induction cs arbitrary: ns av)
  case (Cons c cs)
  from av_push_displays [OF assms Cons.prems(1) _ Cons.prems(3), of c] Cons.prems(2)
  obtain av1 where av1: "av_push av c = Inr av1" "displays av1 sc fmt (tree_apply sc c ns)" "forest_ok sc fmt (tree_apply sc c ns)" "av_dirty av1"
    by auto
  from Cons.IH [OF av1(3) _ av1(2)] Cons.prems(2) av1 show ?case by simp
qed simp

text \<open>C8: A view shows the tree of the nodes that it fetched at first and, after any pushes of changes that are
  changes of that tree, the changed tree: rows are added, removed, edited (moved when their sort key changes) at
  any depth of the format, no assertion fails, and the next flush tells the listeners iff there was a push. No
  relationship of the format is hidden (\<open>plain\<close>).\<close>

theorem view_follows_input:
  assumes "plain sc fmt" and "input everything = Inr nodes" and "forest_ok sc fmt (skipYields nodes)"
    and "all_fit sc fmt cs (skipYields nodes)"
  shows "\<exists>av av'. new_array_view input sc fmt = Inr (Some (tree_view plain_views sc fmt (skipYields nodes)), av) \<and>
     av_pushes av cs = Inr av' \<and>
     fst (av_flush av') = (if cs = [] then None
       else Some (tree_view plain_views sc fmt (foldl (\<lambda>ns c. tree_apply sc c ns) (skipYields nodes) cs)))"
proof -
  from new_array_view_displays [where input = input, OF assms(1-3)] obtain av where
    av: "new_array_view input sc fmt = Inr (Some (tree_view plain_views sc fmt (skipYields nodes)), av)"
    "displays av sc fmt (skipYields nodes)" "\<not> av_dirty av" by blast
  from av_pushes_displays [OF assms(1,3,4) av(2)] obtain av' where
    "av_pushes av cs = Inr av'" "displays av' sc fmt (foldl (\<lambda>ns c. tree_apply sc c ns) (skipYields nodes) cs)"
    "av_dirty av' \<longleftrightarrow> cs \<noteq> []" using av(3) by auto
  with av show ?thesis by (auto simp: av_flush_def displays_data)
qed

subsection \<open>A sample\<close>

text \<open>Rows ordered by a number that can be edited and their id, with children in the same order.\<close>

definition by_foo :: "row cmp" where
  "by_foo = row_cmp utf8_lex [(''foo'', Asc), (''id'', Asc)] False"

definition kid_schema :: source_schema where
  "kid_schema = Schema by_foo [''id''] None [] False"

definition tree_schema :: source_schema where
  "tree_schema = Schema by_foo [''id''] None [(''kids'', kid_schema)] False"

definition tree_format :: format where
  "tree_format = Format False [(''kids'', Format False [])]"

lemma by_foo [simp]:
  "by_foo (sample_row i f) (sample_row j g) = (if f = g then of_nat i - of_nat j else of_nat f - of_nat g)"
  by (simp add: by_foo_def sample_row_def get_field_def Let_def)

lemma comparator_by_foo: "comparator by_foo"
  unfolding by_foo_def by (rule bytes.comparator_row_cmp)

lemma plain_kids: "plain kid_schema (Format False [])"
  by (rule plainI) (simp_all add: kid_schema_def comparator_by_foo)

lemma plain_tree: "plain tree_schema tree_format"
proof (rule plainI)
  fix rel csc cfmt
  assume "map_of (sc_relationships tree_schema) rel = Some csc" "map_of (fmt_relationships tree_format) rel = Some cfmt"
  then have "csc = kid_schema" "cfmt = Format False []"
    by (simp_all add: tree_schema_def tree_format_def split: if_splits)
  then show "plain csc cfmt" using plain_kids by simp
qed (simp_all add: tree_schema_def comparator_by_foo)

definition childless :: "nat \<Rightarrow> nat \<Rightarrow> node" where
  "childless i f = Node (sample_row i f) []"

definition one_parent :: node_input where
  "one_parent = (\<lambda>req. Inr [Item (Node (sample_row 1 1) [(''kids'', [Item (childless 5 1)])])])"

definition family_changes :: "change list" where
  "family_changes = [CAdd (Node (sample_row 2 2) [(''kids'', [])]), CChild (childless 1 1) ''kids'' (CAdd (childless 4 2)),
     CEdit (childless 1 3) (childless 1 1), CChild (childless 1 3) ''kids'' (CRemove (childless 5 1))]"

definition grown_entry :: "nat \<Rightarrow> nat \<Rightarrow> (string \<times> view) list \<Rightarrow> entry" where
  "grown_entry i f rels = Entry (sample_row i f) 1 None rels"

theorem view_follows_input_witness:
  "\<exists>av av'. new_array_view one_parent tree_schema tree_format =
       Inr (Some (Many [grown_entry 1 1 [(''kids'', Many [grown_entry 5 1 []])]]), av) \<and>
     av_pushes av family_changes = Inr av' \<and>
     fst (av_flush av') = Some (Many [grown_entry 2 2 [(''kids'', Many [])], grown_entry 1 3 [(''kids'', Many [grown_entry 4 2 []])]])"
proof -
  let ?start = "[Node (sample_row 1 1) [(''kids'', [Item (childless 5 1)])]]"
  have columns: "map fst (sample_row i f) = [''id'', ''foo'']" for i f by (simp add: sample_row_def)
  note defs = tree_schema_def tree_format_def kid_schema_def childless_def
  have ok: "forest_ok tree_schema tree_format ?start"
    by (simp add: forest_ok_def defs sorted_rules rows_of_items_def)
  have fit: "all_fit tree_schema tree_format family_changes ?start"
    by (simp add: family_changes_def defs columns put_node_def drop_node_def on_relationship_def)
  have final: "foldl (\<lambda>ns c. tree_apply tree_schema c ns) ?start family_changes =
      [Node (sample_row 2 2) [(''kids'', [])], Node (sample_row 1 3) [(''kids'', [Item (childless 4 2)])]]"
    by (simp add: family_changes_def defs put_node_def drop_node_def on_relationship_def)
  have views: "tree_view plain_views tree_schema tree_format ?start = Many [grown_entry 1 1 [(''kids'', Many [grown_entry 5 1 []])]]"
    "tree_view plain_views tree_schema tree_format [Node (sample_row 2 2) [(''kids'', [])], Node (sample_row 1 3) [(''kids'', [Item (childless 4 2)])]] =
      Many [grown_entry 2 2 [(''kids'', Many [])], grown_entry 1 3 [(''kids'', Many [grown_entry 4 2 []])]]"
    by (simp_all add: tree_view_def shape_def defs grown_entry_def plain_views_def)
  have input: "one_parent everything = Inr [Item (Node (sample_row 1 1) [(''kids'', [Item (childless 5 1)])])]"
    by (simp add: one_parent_def)
  have start: "skipYields [Item (Node (sample_row 1 1) [(''kids'', [Item (childless 5 1)])])] = ?start" by simp
  have some: "family_changes \<noteq> []" by (simp add: family_changes_def)
  from view_follows_input [where input = one_parent, OF plain_tree input, unfolded start, OF ok fit, unfolded final views] some
  show ?thesis by (simp only: if_False)
qed

subsection \<open>Adding and removing\<close>

lemma new_entry_kept:
  "apply_add cf n sc rel fmt p = Inr p' \<Longrightarrow> entry_row p' = entry_row p \<and> entry_rc p' = entry_rc p"
  "add_hidden cf rels sc fmt p = Inr p' \<Longrightarrow> entry_row p' = entry_row p \<and> entry_rc p' = entry_rc p"
  "add_all cf xs sc rel fmt p = Inr p' \<Longrightarrow> entry_row p' = entry_row p \<and> entry_rc p' = entry_rc p"
  "initializeRelationships cf rels sc fmts e = Inr e' \<Longrightarrow> entry_row e' = entry_row e \<and> entry_rc e' = entry_rc e"
  "build_list cf xs sc fmt vs = Inr vs' \<Longrightarrow> True"
proof (induction cf n sc rel fmt p and cf rels sc fmt p and cf xs sc rel fmt p and cf rels sc fmts e and cf xs sc fmt vs
    arbitrary: p' and p' and p' and e' and vs' rule: apply_add_add_hidden_add_all_initializeRelationships_build_list.induct)
  case (1 cf r rels sc rel fmt p)
  show ?case
  proof (cases "sc_isHidden sc \<or> fmt_singular fmt")
    case True
    with 1 show ?thesis by (auto simp: bind_result_eq_Inr split: if_splits option.splits)
  next
    case False
    with "1.prems" obtain vs where "getChildEntryList p rel = Inr vs" by (cases "getChildEntryList p rel") auto
    with "1.prems" False show ?thesis
      by (cases "view_search vs r (sc_compareRows sc)") (auto simp: bind_result_eq_Inr)
  qed
next
  case (3 cf rel stream rels sc fmt p)
  then show ?case by (fastforce simp: bind_result_eq_Inr)
next
  case (6 cf n xs sc rel fmt p)
  then show ?case by (fastforce simp: bind_result_eq_Inr)
next
  case (8 cf rel stream rels sc fmts e)
  then show ?case by (fastforce simp: bind_result_eq_Inr split: if_splits option.splits)
qed auto

text \<open>A relationship in the shape of its format, with entries in order and positive counts.\<close>

fun counted :: "source_schema \<Rightarrow> format \<Rightarrow> view \<Rightarrow> bool" where
  "counted sc fmt (Many vs) \<longleftrightarrow> \<not> fmt_singular fmt \<and> sorted_cmp (sc_compareRows sc) (entry_rows vs) \<and> list_all (\<lambda>e. 0 < entry_rc e) vs"
| "counted sc fmt (One x) \<longleftrightarrow> fmt_singular fmt \<and> (case x of None \<Rightarrow> True | Some e \<Rightarrow> 0 < entry_rc e)"

text \<open>C9: Adding a node to a relationship and removing it again gives the entry there was before: when the row is
  there already its count goes up and down, else its entry comes and goes. The node may have any
  relationships, and its row may have any number of references.\<close>

theorem view_add_remove_roundtrip:
  assumes "comparator (sc_compareRows sc)" and "\<not> sc_isHidden sc" and "map_of (entry_rels p) rel = Some v" and "counted sc fmt v"
    and "apply_add cf n sc rel fmt p = Inr p'"
  shows "apply_remove n sc rel fmt p' = Inr p"
proof -
  obtain r rels where n: "n = Node r rels" by (cases n)
  show ?thesis
  proof (cases v)
    case (One x)
    with assms(4) have single: "fmt_singular fmt" by simp
    show ?thesis
    proof (cases x)
      case None
      with assms(2,3,5) One single obtain e where
        "initializeRelationships cf rels sc (fmt_relationships fmt) (makeNewMetaEntry cf r sc 1) = Inr e" "p' = setRelation p rel (One (Some e))"
        by (auto simp: n getOptionalSingularEntry_def bind_result_eq_Inr)
      with new_entry_kept(4) [OF this(1)] assms(2,3) One None single show ?thesis
        by (simp add: n getSingularEntry_def getOptionalSingularEntry_def setRelation_same)
    next
      case (Some e)
      with assms(2-5) One single have "p' = setRelation p rel (One (Some (incRefCount e)))" "0 < entry_rc e"
        by (auto simp: n getOptionalSingularEntry_def bind_result_eq_Inr split: if_splits)
      with assms(2,3) One Some single show ?thesis
        by (simp add: n getSingularEntry_def getOptionalSingularEntry_def setRelation_same)
    qed
  next
    case (Many vs)
    with assms(4) have plural: "\<not> fmt_singular fmt" and sorted: "sorted_cmp (sc_compareRows sc) (entry_rows vs)"
      and positive: "\<forall>e \<in> set vs. 0 < entry_rc e" by (auto simp: list_all_iff)
    have list: "getChildEntryList p rel = Inr vs" using assms(3) Many by (simp add: getChildEntryList_def)
    note order = row_order.intro [OF assms(1)]
    show ?thesis
    proof (rule row_order.entries_split [OF order sorted, where r = r])
      fix as e bs
      assume present: "vs = as @ e # bs" "sc_compareRows sc (entry_row e) r = 0"
      note search = row_order.view_search_found [OF order, of as e bs r] row_order.removeAndUpdateRefCount_split [OF order, of as "incRefCount e" bs r]
      from present(1,2) sorted positive list assms(2,3,5) Many plural search show ?thesis
        by (auto simp: n getChildEntryList_def setRelation_same)
    next
      fix as bs
      assume absent: "vs = as @ bs" "\<forall>x \<in> set as. sc_compareRows sc (entry_row x) r < 0"
        "\<forall>x \<in> set bs. 0 < sc_compareRows sc (entry_row x) r"
      have search: "view_search vs r (sc_compareRows sc) = InsertAt (length as)"
        using row_order.view_search_insert [OF order, of as bs r] absent(1-3) sorted by simp
      from list assms(2,3,5) plural search obtain e where
        e: "initializeRelationships cf rels sc (fmt_relationships fmt) (makeNewMetaEntry cf r sc 1) = Inr e"
        "p' = setRelation p rel (Many (as @ e # bs))"
        by (auto simp: n bind_result_eq_Inr absent(1) splice_simps)
      note kept = new_entry_kept(4) [OF e(1), simplified]
      have "sorted_cmp (sc_compareRows sc) (entry_rows (as @ e # bs))"
        using sorted absent(1-3) kept comparator.cmp_pos [OF assms(1)] comparator.cmp_less_trans [OF assms(1)]
        by (auto simp: sorted_rules)
      from row_order.removeAndUpdateRefCount_split [OF order this, of r] kept comparator.cmp_refl [OF assms(1)]
        assms(2,3) Many plural absent(1) show ?thesis
        by (simp add: n e(2) getChildEntryList_def setRelation_same)
    qed
  qed
qed

text \<open>An entry whose relationship \<open>kids\<close> holds the given entries.\<close>

definition holder :: "entry list \<Rightarrow> entry" where
  "holder vs = Entry (sample_row 1 1) 1 None [(''kids'', Many vs)]"

lemma view_search_simps:
  "view_search [] r cmp = InsertAt 0"
  "view_search [e] r cmp = (if cmp (entry_row e) r < 0 then InsertAt 1 else if 0 < cmp (entry_row e) r then InsertAt 0 else Found 0)"
  "view_search [e, d] r cmp = (if cmp (entry_row e) r < 0 then
       if cmp (entry_row d) r < 0 then InsertAt 2 else if 0 < cmp (entry_row d) r then InsertAt 1 else Found 1
     else if 0 < cmp (entry_row e) r then InsertAt 0 else Found 0)"
  by (simp_all add: view_search_def binarySearch_loop.simps Let_def)

theorem view_add_remove_roundtrip_witness:
  "\<exists>p'. apply_add plain_views (childless 7 1) kid_schema ''kids'' (Format False []) (holder [Entry (sample_row 7 1) 2 None []]) = Inr p' \<and>
     p' = holder [Entry (sample_row 7 1) 3 None []] \<and>
     apply_remove (childless 7 1) kid_schema ''kids'' (Format False []) p' = Inr (holder [Entry (sample_row 7 1) 2 None []])"
proof -
  have add: "apply_add plain_views (childless 7 1) kid_schema ''kids'' (Format False []) (holder [Entry (sample_row 7 1) 2 None []]) =
      Inr (holder [Entry (sample_row 7 1) 3 None []])"
    by (simp add: childless_def kid_schema_def holder_def getChildEntryList_def view_search_simps setRelation_def incRefCount_def
        setRefCount_def)
  have "apply_remove (childless 7 1) kid_schema ''kids'' (Format False []) (holder [Entry (sample_row 7 1) 3 None []]) =
      Inr (holder [Entry (sample_row 7 1) 2 None []])"
    by (rule view_add_remove_roundtrip [where v = "Many [Entry (sample_row 7 1) 2 None []]", OF _ _ _ _ add])
      (simp_all add: kid_schema_def comparator_by_foo holder_def sorted_rules)
  with add show ?thesis by simp
qed

subsection \<open>Entries with several references\<close>

text \<open>
  Two rows of a hidden relationship lead to one row, as two comments of one author. Its entry has two references,
  and every change of the row or below it comes once for each of the hidden rows.
\<close>

definition hidden_over :: "source_schema \<Rightarrow> source_schema" where
  "hidden_over sc = Schema by_foo [''id''] None [(''kids'', sc)] True"

definition link :: "nat \<Rightarrow> node \<Rightarrow> node" where
  "link i n = Node (sample_row i 0) [(''kids'', [Item n])]"

definition through_both :: "change \<Rightarrow> view_change list" where
  "through_both c = map (\<lambda>i. changeToViewChange (CChild (link i (childless 7 1)) ''kids'' c)) [1, 2]"

lemmas view_eval = hidden_over_def link_def childless_def kid_schema_def tree_schema_def tree_format_def holder_def through_both_def
  must_schema_def getChildEntryList_def view_search_simps setRelation_def incRefCount_def decRefCount_def setRefCount_def
  makeNewMetaEntry_def plain_views_def edit_list_def move_entry_def must_find_def applyEdit_def insert_at_def
  removeAndUpdateRefCount_def remove_at_def

lemma spread_sample [simp]: "spread (sample_row i f) (sample_row j g) = sample_row j g"
  by (rule spread_columns) (simp_all add: sample_row_def)

text \<open>When the row of an entry with two references is edited so that it moves forward past no other entry, the
  view ends with two equal entries of one reference each instead of one entry with two: the second edit
  finds the entry that the first one moved directly after the remaining reference and takes that for a move
  to the same place.\<close>

theorem view_edit_doubles_entry:
  "applyChanges plain_views ([VAdd (link 1 (childless 7 1)), VAdd (link 2 (childless 7 1))] @ through_both (CEdit (childless 7 3) (childless 7 1)))
      (hidden_over kid_schema) ''kids'' (Format False []) (holder []) =
    Inr (holder [Entry (sample_row 7 3) 1 None [], Entry (sample_row 7 3) 1 None []]) \<and>
   applyChanges plain_views [VAdd (link 1 (childless 7 3)), VAdd (link 2 (childless 7 3))]
      (hidden_over kid_schema) ''kids'' (Format False []) (holder []) = Inr (holder [Entry (sample_row 7 3) 2 None []])"
  by (simp add: view_eval)

text \<open>A row with one child, as a node of the hidden relationship's target.\<close>

definition with_kid :: node where
  "with_kid = Node (sample_row 7 1) [(''kids'', [Item (childless 5 1)])]"

text \<open>What is below an entry with two references at first is counted once, but its removal comes twice: the
  second time the assertion that the node exists fails.\<close>

theorem view_removes_below_twice:
  "applyChanges plain_views [VAdd (link 1 with_kid), VAdd (link 2 with_kid)] (hidden_over tree_schema) ''kids'' tree_format (holder []) =
     Inr (holder [Entry (sample_row 7 1) 2 None [(''kids'', Many [Entry (sample_row 5 1) 1 None []])]]) \<and>
   applyChanges plain_views ([VAdd (link 1 with_kid), VAdd (link 2 with_kid)] @ through_both (CChild with_kid ''kids'' (CRemove (childless 5 1))))
     (hidden_over tree_schema) ''kids'' tree_format (holder []) = Inl (AssertionFailed ''node does not exist'')"
  by (simp add: view_eval with_kid_def)

end
