(* ===== verification/CompleteOrdering.thy ===== *)
theory CompleteOrdering
  imports MemorySource
begin

section \<open>Completing the orderings of a query (zql/src/query/complete-ordering.ts)\<close>

text \<open>
  A source can only be connected with an ordering that includes its primary key. \<open>completeOrdering\<close> appends
  the missing columns to the ordering of a query and of every query in it. \<open>getPrimaryKey\<close> is a parameter;
  \<open>must\<close> throws where it has no answer.
\<close>

definition addPrimaryKeys :: "string list \<Rightarrow> ordering option \<Rightarrow> ordering" where
  "addPrimaryKeys primaryKey orderBy =
     (let order = (case orderBy of None \<Rightarrow> [] | Some ob \<Rightarrow> ob);
          primaryKeysToAdd = filter (\<lambda>k. k \<notin> fst ` set order) (rev (remdups (rev primaryKey)))
      in if primaryKeysToAdd = [] then order else order @ map (\<lambda>k. (k, Asc)) primaryKeysToAdd)"

fun completeOrdering :: "(string \<Rightarrow> string list option) \<Rightarrow> ast \<Rightarrow> ast result"
  and completeRelated :: "(string \<Rightarrow> string list option) \<Rightarrow> correlated_subquery \<Rightarrow> correlated_subquery result"
  and completeOrderingInCondition :: "(string \<Rightarrow> string list option) \<Rightarrow> condition \<Rightarrow> condition result" where
  "completeOrdering getPrimaryKey (AST schm tbl als wh related start limit orderBy) =
     (case getPrimaryKey tbl of
        None \<Rightarrow> Inl (IllegalState ''Unexpected undefined value'')
      | Some primaryKey \<Rightarrow>
          bind_result (traverse_option (traverse (completeRelated getPrimaryKey)) related) (\<lambda>related'.
          bind_result (traverse_option (completeOrderingInCondition getPrimaryKey) wh) (\<lambda>wh'.
            Inr (AST schm tbl als wh' related' start limit (Some (addPrimaryKeys primaryKey orderBy))))))"
| "completeRelated getPrimaryKey (Subquery pf cf q sys hidden) =
     bind_result (completeOrdering getPrimaryKey q) (\<lambda>q'. Inr (Subquery pf cf q' sys hidden))"
| "completeOrderingInCondition getPrimaryKey (Simple op l r) = Inr (Simple op l r)"
| "completeOrderingInCondition getPrimaryKey (Correlated related op flp sc) =
     bind_result (completeRelated getPrimaryKey related) (\<lambda>related'. Inr (Correlated related' op flp sc))"
| "completeOrderingInCondition getPrimaryKey (And cs) =
     bind_result (traverse (completeOrderingInCondition getPrimaryKey) cs) (\<lambda>cs'. Inr (And cs'))"
| "completeOrderingInCondition getPrimaryKey (Or cs) =
     bind_result (traverse (completeOrderingInCondition getPrimaryKey) cs) (\<lambda>cs'. Inr (Or cs'))"

subsection \<open>What it gives\<close>

text \<open>The tables of a query, queries whose orderings are complete, and a query without its orderings.\<close>

fun tables :: "ast \<Rightarrow> string set" and tables_sub :: "correlated_subquery \<Rightarrow> string set"
  and tables_cond :: "condition \<Rightarrow> string set" where
  "tables (AST schm tbl als wh related start limit orderBy) =
     insert tbl (\<Union> (tables_cond ` set_option wh) \<union> \<Union> ((\<lambda>rs. \<Union> (tables_sub ` set rs)) ` set_option related))"
| "tables_sub (Subquery pf cf q sys hidden) = tables q"
| "tables_cond (Simple op l r) = {}"
| "tables_cond (Correlated related op flp sc) = tables_sub related"
| "tables_cond (And cs) = \<Union> (tables_cond ` set cs)"
| "tables_cond (Or cs) = \<Union> (tables_cond ` set cs)"

fun ordered :: "(string \<Rightarrow> string list option) \<Rightarrow> ast \<Rightarrow> bool"
  and ordered_sub :: "(string \<Rightarrow> string list option) \<Rightarrow> correlated_subquery \<Rightarrow> bool"
  and ordered_cond :: "(string \<Rightarrow> string list option) \<Rightarrow> condition \<Rightarrow> bool" where
  "ordered pk (AST schm tbl als wh related start limit orderBy) \<longleftrightarrow>
     (\<exists>key ob. pk tbl = Some key \<and> orderBy = Some ob \<and> assertOrderingIncludesPK ob key = Inr ()) \<and>
     pred_option (ordered_cond pk) wh \<and> pred_option (list_all (ordered_sub pk)) related"
| "ordered_sub pk (Subquery pf cf q sys hidden) \<longleftrightarrow> ordered pk q"
| "ordered_cond pk (Simple op l r) \<longleftrightarrow> True"
| "ordered_cond pk (Correlated related op flp sc) \<longleftrightarrow> ordered_sub pk related"
| "ordered_cond pk (And cs) \<longleftrightarrow> list_all (ordered_cond pk) cs"
| "ordered_cond pk (Or cs) \<longleftrightarrow> list_all (ordered_cond pk) cs"

fun unordered :: "ast \<Rightarrow> ast" and unordered_sub :: "correlated_subquery \<Rightarrow> correlated_subquery"
  and unordered_cond :: "condition \<Rightarrow> condition" where
  "unordered (AST schm tbl als wh related start limit orderBy) =
     AST schm tbl als (map_option unordered_cond wh) (map_option (map unordered_sub) related) start limit None"
| "unordered_sub (Subquery pf cf q sys hidden) = Subquery pf cf (unordered q) sys hidden"
| "unordered_cond (Simple op l r) = Simple op l r"
| "unordered_cond (Correlated related op flp sc) = Correlated (unordered_sub related) op flp sc"
| "unordered_cond (And cs) = And (map unordered_cond cs)"
| "unordered_cond (Or cs) = Or (map unordered_cond cs)"

lemma addPrimaryKeys_complete: "assertOrderingIncludesPK (addPrimaryKeys key ob) key = Inr ()"
  by (auto simp: assertOrderingIncludesPK_def addPrimaryKeys_def Let_def filter_empty_conv image_Un image_image split: if_splits)

lemma addPrimaryKeys_same: "assertOrderingIncludesPK ob key = Inr () \<Longrightarrow> addPrimaryKeys key (Some ob) = ob"
  by (auto simp: assertOrderingIncludesPK_def addPrimaryKeys_def Let_def filter_empty_conv split: if_splits)

lemma addPrimaryKeys_prefix: "\<exists>added. addPrimaryKeys key (Some ob) = ob @ added"
  by (auto simp: addPrimaryKeys_def Let_def)

lemma traverse_each:
  assumes "traverse f xs = Inr ys" "\<forall>x \<in> set xs. \<forall>y. f x = Inr y \<longrightarrow> P y \<and> g y = g x"
  shows "list_all P ys \<and> map g ys = map g xs"
  using assms by (induction xs arbitrary: ys) (auto simp: bind_result_eq_Inr)

lemma traverse_same: "(\<And>x. x \<in> set xs \<Longrightarrow> f x = Inr x) \<Longrightarrow> traverse f xs = Inr xs"
  using traverse_Inr [of xs f id] by simp

lemma isl_traverse: "isl (traverse f xs) \<longleftrightarrow> (\<exists>x \<in> set xs. isl (f x))"
proof (induction xs)
  case (Cons x xs)
  then show ?case by (cases "f x"; cases "traverse f xs") auto
qed simp

lemma isl_bind: "isl (bind_result r (\<lambda>x. Inr (g x))) \<longleftrightarrow> isl r"
  by (cases r) simp_all

lemma complete_ordered:
  "completeOrdering pk q = Inr q' \<Longrightarrow> ordered pk q' \<and> unordered q' = unordered q"
  "completeRelated pk s = Inr s' \<Longrightarrow> ordered_sub pk s' \<and> unordered_sub s' = unordered_sub s"
  "completeOrderingInCondition pk c = Inr c' \<Longrightarrow> ordered_cond pk c' \<and> unordered_cond c' = unordered_cond c"
proof (induction pk q and pk s and pk c arbitrary: q' and s' and c'
    rule: completeOrdering_completeRelated_completeOrderingInCondition.induct)
  case (1 pk schm tbl als wh related start limit orderBy)
  from "1.prems" obtain key related' wh' where key: "pk tbl = Some key"
    and rel: "traverse_option (traverse (completeRelated pk)) related = Inr related'"
    and wh: "traverse_option (completeOrderingInCondition pk) wh = Inr wh'"
    and q': "q' = AST schm tbl als wh' related' start limit (Some (addPrimaryKeys key orderBy))"
    by (auto simp: bind_result_eq_Inr split: option.splits)
  have "pred_option (list_all (ordered_sub pk)) related' \<and> map_option (map unordered_sub) related' = map_option (map unordered_sub) related"
  proof (cases related)
    case (Some rs)
    with rel obtain rs' where rs': "related' = Some rs'" "traverse (completeRelated pk) rs = Inr rs'"
      by (auto simp: bind_result_eq_Inr)
    have "list_all (ordered_sub pk) rs' \<and> map unordered_sub rs' = map unordered_sub rs"
      by (rule traverse_each [OF rs'(2)]) (use "1.IH"(1) [OF key, of rs] Some in auto)
    then show ?thesis by (simp add: Some rs'(1))
  qed (use rel in simp)
  moreover have "pred_option (ordered_cond pk) wh' \<and> map_option unordered_cond wh' = map_option unordered_cond wh"
    using "1.IH"(2) [OF key rel] wh by (cases wh) (auto simp: bind_result_eq_Inr)
  ultimately show ?case by (simp add: q' key addPrimaryKeys_complete)
next
  case (5 pk cs)
  from "5.prems" obtain ds where ds: "traverse (completeOrderingInCondition pk) cs = Inr ds" "c' = And ds" by (auto simp: bind_result_eq_Inr)
  have "list_all (ordered_cond pk) ds \<and> map unordered_cond ds = map unordered_cond cs"
    by (rule traverse_each [OF ds(1)]) (use "5.IH" in blast)
  then show ?case by (simp add: ds(2))
next
  case (6 pk cs)
  from "6.prems" obtain ds where ds: "traverse (completeOrderingInCondition pk) cs = Inr ds" "c' = Or ds" by (auto simp: bind_result_eq_Inr)
  have "list_all (ordered_cond pk) ds \<and> map unordered_cond ds = map unordered_cond cs"
    by (rule traverse_each [OF ds(1)]) (use "6.IH" in blast)
  then show ?case by (simp add: ds(2))
qed (auto simp: bind_result_eq_Inr)

lemma ordered_complete:
  "ordered pk q \<Longrightarrow> completeOrdering pk q = Inr q"
  "ordered_sub pk s \<Longrightarrow> completeRelated pk s = Inr s"
  "ordered_cond pk c \<Longrightarrow> completeOrderingInCondition pk c = Inr c"
proof (induction pk q and pk s and pk c rule: ordered_ordered_sub_ordered_cond.induct)
  case (1 pk schm tbl als wh related start limit orderBy)
  then obtain key ob where key: "pk tbl = Some key" "orderBy = Some ob" "assertOrderingIncludesPK ob key = Inr ()" by auto
  have "traverse_option (traverse (completeRelated pk)) related = Inr related"
  proof (cases related)
    case (Some rs)
    have "traverse (completeRelated pk) rs = Inr rs"
      by (rule traverse_same) (use 1 Some in \<open>auto simp: list_all_iff\<close>)
    then show ?thesis by (simp add: Some)
  qed simp
  moreover have "traverse_option (completeOrderingInCondition pk) wh = Inr wh" using 1 by (cases wh) auto
  ultimately show ?case by (simp add: key addPrimaryKeys_same)
next
  case (5 pk cs)
  have "traverse (completeOrderingInCondition pk) cs = Inr cs" by (rule traverse_same) (use 5 in \<open>auto simp: list_all_iff\<close>)
  then show ?case by simp
next
  case (6 pk cs)
  have "traverse (completeOrderingInCondition pk) cs = Inr cs" by (rule traverse_same) (use 6 in \<open>auto simp: list_all_iff\<close>)
  then show ?case by simp
qed auto

lemma complete_fails:
  "isl (completeOrdering pk q) \<longleftrightarrow> (\<exists>t \<in> tables q. pk t = None)"
  "isl (completeRelated pk s) \<longleftrightarrow> (\<exists>t \<in> tables_sub s. pk t = None)"
  "isl (completeOrderingInCondition pk c) \<longleftrightarrow> (\<exists>t \<in> tables_cond c. pk t = None)"
proof (induction pk q and pk s and pk c rule: completeOrdering_completeRelated_completeOrderingInCondition.induct)
  case (1 pk schm tbl als wh related start limit orderBy)
  show ?case
  proof (cases "pk tbl")
    case (Some key)
    have rel: "isl (traverse_option (traverse (completeRelated pk)) related) \<longleftrightarrow>
        (\<exists>t \<in> \<Union> ((\<lambda>rs. \<Union> (tables_sub ` set rs)) ` set_option related). pk t = None)"
      using "1.IH"(1) [OF Some] by (cases related) (auto simp: isl_bind isl_traverse)
    show ?thesis
    proof (cases "traverse_option (traverse (completeRelated pk)) related")
      case (Inl e)
      with rel show ?thesis by (auto simp: Some)
    next
      case (Inr related')
      have "isl (traverse_option (completeOrderingInCondition pk) wh) \<longleftrightarrow>
          (\<exists>t \<in> \<Union> (tables_cond ` set_option wh). pk t = None)"
        using "1.IH"(2) [OF Some Inr] by (cases wh) (auto simp: isl_bind)
      moreover have "\<not> (\<exists>t \<in> \<Union> ((\<lambda>rs. \<Union> (tables_sub ` set rs)) ` set_option related). pk t = None)"
        using rel by (simp only: Inr) simp
      moreover have "pk tbl \<noteq> None" by (simp add: Some)
      moreover have "completeOrdering pk (AST schm tbl als wh related start limit orderBy) =
          bind_result (traverse_option (completeOrderingInCondition pk) wh) (\<lambda>wh'.
            Inr (AST schm tbl als wh' related' start limit (Some (addPrimaryKeys key orderBy))))" by (simp add: Some Inr)
      ultimately show ?thesis unfolding tables.simps by (simp only: isl_bind) blast
    qed
  qed simp
qed (auto simp: isl_bind isl_traverse)

subsection \<open>The claim\<close>

text \<open>C35: completeOrdering fails exactly when some table in the query has no primary key; else it changes
  nothing but orderings, it only appends to that of the query, every ordering in the result passes the
  check of a connect (assertOrderingIncludesPK), and completing it again changes nothing.\<close>

theorem completeOrdering_correct:
  "case completeOrdering getPrimaryKey q of
     Inl e \<Rightarrow> \<exists>t \<in> tables q. getPrimaryKey t = None
   | Inr q' \<Rightarrow> \<not> (\<exists>t \<in> tables q. getPrimaryKey t = None) \<and> unordered q' = unordered q \<and> ordered getPrimaryKey q' \<and>
       (\<exists>added. ast_orderBy q' = Some ((case ast_orderBy q of None \<Rightarrow> [] | Some ob \<Rightarrow> ob) @ added)) \<and>
       completeOrdering getPrimaryKey q' = Inr q'"
proof (cases "completeOrdering getPrimaryKey q")
  case (Inl e)
  then show ?thesis using complete_fails(1) [of getPrimaryKey q] by simp
next
  case (Inr q')
  have "\<exists>added. ast_orderBy q' = Some ((case ast_orderBy q of None \<Rightarrow> [] | Some ob \<Rightarrow> ob) @ added)"
    using Inr addPrimaryKeys_prefix by (cases q) (auto simp: bind_result_eq_Inr split: option.splits)
  then show ?thesis
    using Inr complete_fails(1) [of getPrimaryKey q] complete_ordered(1) [OF Inr] ordered_complete(1) by simp
qed

end
