(* ===== verification/LexiVersion.thy ===== *)
theory LexiVersion
  imports Prelude "HOL-Library.Char_ord"
begin

section \<open>Lexicographic versions (zero-cache/src/types/lexi-version.ts, shared/src/parse-big-int.ts)\<close>

text \<open>
  A version is written in base 36 after one character that holds the number of its digits less one, so
  that comparing the strings compares the numbers. A version is a \<open>number\<close> or a \<open>bigint\<close>; a string is the
  list of its code units, compared one by one as JavaScript does.
\<close>

datatype js_version = VNumber number | VBigInt int

fun version_value :: "js_version \<Rightarrow> number" where
  "version_value (VNumber q) = q"
| "version_value (VBigInt n) = of_int n"

subsection \<open>Conversion to and from a radix\<close>

definition digit_char :: "nat \<Rightarrow> char" where
  "digit_char d = ''0123456789abcdefghijklmnopqrstuvwxyz'' ! d"

fun toString36 :: "nat \<Rightarrow> string" where
  "toString36 n = (if n < 36 then [digit_char n] else toString36 (n div 36) @ [digit_char (n mod 36)])"

declare toString36.simps [simp del]

text \<open>\<open>parseInt\<close> of one character; \<open>None\<close> stands for \<open>NaN\<close>.\<close>

definition parse_digit :: "nat \<Rightarrow> char \<Rightarrow> nat option" where
  "parse_digit radix ch =
     (let c = of_char ch :: nat;
          d = (if 48 \<le> c \<and> c \<le> 57 then c - 48 else if 97 \<le> c \<and> c \<le> 122 then c - 87
               else if 65 \<le> c \<and> c \<le> 90 then c - 55 else 36)
      in if d < radix then Some d else None)"

fun parse_big_int_loop :: "nat \<Rightarrow> string \<Rightarrow> int \<Rightarrow> int result" where
  "parse_big_int_loop radix [] r = Inr r"
| "parse_big_int_loop radix (c # cs) r = (case parse_digit radix c of
     None \<Rightarrow> Inl RangeError
   | Some d \<Rightarrow> parse_big_int_loop radix cs (r * int radix + int d))"

definition parseBigInt :: "string \<Rightarrow> nat \<Rightarrow> int result" where
  "parseBigInt val radix = parse_big_int_loop radix val 0"

subsection \<open>Versions\<close>

definition max_safe_integer :: number where
  "max_safe_integer = 9007199254740991"

definition versionToLexi :: "js_version \<Rightarrow> string result" where
  "versionToLexi v =
     (if version_value v < 0 then Inl (AssertionFailed ''Negative versions are not supported'')
      else if \<not> (case v of VBigInt n \<Rightarrow> True | VNumber q \<Rightarrow> q \<le> max_safe_integer \<and> q = of_int \<lfloor>q\<rfloor>)
      then Inl (AssertionFailed ''Invalid or unsafe version'')
      else
        (let base36Version = toString36 (nat \<lfloor>version_value v\<rfloor>);
             len = toString36 (length base36Version - 1)
         in if length len \<noteq> 1 then Inl (AssertionFailed ''Value is too large to be encoded as a LexiVersion'')
            else Inr (len @ base36Version)))"

definition versionFromLexi :: "string \<Rightarrow> int result" where
  "versionFromLexi lexiVersion =
     (if length lexiVersion < 2 then Inl (AssertionFailed ''LexiVersion must have at least 2 characters'')
      else
        (let len = take 1 lexiVersion; base36Version = drop 1 lexiVersion
         in if (case parse_digit 36 (hd len) of None \<Rightarrow> True | Some d \<Rightarrow> length base36Version \<noteq> d + 1)
            then Inl (AssertionFailed ''Invalid LexiVersion'')
            else parseBigInt base36Version 36))"

text \<open>\<open><\<close> of two strings.\<close>

fun string_less :: "string \<Rightarrow> string \<Rightarrow> bool" where
  "string_less s [] = False"
| "string_less [] (b # bs) = True"
| "string_less (a # as) (b # bs) = ((of_char a :: nat) < of_char b \<or> (a = b \<and> string_less as bs))"

definition lexi_max :: "string \<Rightarrow> string list \<Rightarrow> string" where
  "lexi_max v versions = foldl (\<lambda>winner b. if string_less b winner then winner else b) v versions"

definition lexi_min :: "string \<Rightarrow> string list \<Rightarrow> string" where
  "lexi_min v versions = foldl (\<lambda>winner b. if string_less winner b then winner else b) v versions"

subsection \<open>Digits\<close>

lemma digit_char_code: "d < 36 \<Longrightarrow> (of_char (digit_char d) :: nat) = (if d < 10 then 48 + d else 87 + d)"
proof -
  have codes: "map of_char ''0123456789abcdefghijklmnopqrstuvwxyz'' = [48..<58] @ [97..<123 :: nat]" by (simp add: upt_rec)
  assume d: "d < 36"
  then have "(of_char (digit_char d) :: nat) = (map of_char ''0123456789abcdefghijklmnopqrstuvwxyz'') ! d"
    unfolding digit_char_def by (intro nth_map [symmetric]) simp
  then have char: "(of_char (digit_char d) :: nat) = ([48..<58] @ [97..<123]) ! d" unfolding codes .
  have len: "length [48..<58 :: nat] = 10" by simp
  have "([48..<58] @ [97..<123 :: nat]) ! d = (if d < 10 then [48..<58] ! d else [97..<123] ! (d - 10))"
    by (simp only: nth_append len)
  also have "\<dots> = (if d < 10 then 48 + d else 97 + (d - 10))"
  proof (cases "d < 10")
    case True
    have "[48..<58] ! d = 48 + d" by (rule nth_upt) (use True in simp)
    then show ?thesis by (simp only: True if_True)
  next
    case False
    have "[97..<123] ! (d - 10) = 97 + (d - 10)" by (rule nth_upt) (use d in simp)
    then show ?thesis by (simp only: False if_False)
  qed
  also have "\<dots> = (if d < 10 then 48 + d else 87 + d)" by simp
  finally show ?thesis using char by simp
qed

lemma parse_digit_char: "d < 36 \<Longrightarrow> parse_digit 36 (digit_char d) = Some d"
  by (auto simp: parse_digit_def Let_def digit_char_code)

lemma digit_char_less: "d < 36 \<Longrightarrow> e < 36 \<Longrightarrow> (of_char (digit_char d) :: nat) < of_char (digit_char e) \<longleftrightarrow> d < e"
  by (auto simp: digit_char_code)

lemma digit_char_eq: "d < 36 \<Longrightarrow> e < 36 \<Longrightarrow> digit_char d = digit_char e \<longleftrightarrow> d = e"
  by (metis parse_digit_char option.inject)

fun digits36 :: "nat \<Rightarrow> nat list" where
  "digits36 n = (if n < 36 then [n] else digits36 (n div 36) @ [n mod 36])"

declare digits36.simps [simp del]

lemma toString36_digits: "toString36 n = map digit_char (digits36 n)"
  by (induction n rule: digits36.induct) (auto simp: toString36.simps digits36.simps)

lemma digits36_one: "n < 36 \<Longrightarrow> digits36 n = [n]"
  by (simp add: digits36.simps)

definition value36 :: "nat list \<Rightarrow> nat" where
  "value36 ds = foldl (\<lambda>r d. r * 36 + d) 0 ds"

lemma value36_snoc [simp]: "value36 [] = 0" "value36 (ds @ [d]) = value36 ds * 36 + d"
  by (simp_all add: value36_def)

lemma digits36_value: "value36 (digits36 n) = n"
proof (induction n rule: digits36.induct)
  case (1 n)
  show ?case
  proof (cases "n < 36")
    case True
    then show ?thesis by (simp add: digits36.simps value36_def)
  next
    case False
    then have "digits36 n = digits36 (n div 36) @ [n mod 36]" by (simp add: digits36.simps)
    with 1 False show ?thesis by simp
  qed
qed

lemma digits36_small: "list_all (\<lambda>d. d < 36) (digits36 n)"
proof (induction n rule: digits36.induct)
  case (1 n)
  then show ?case by (cases "n < 36") (simp_all add: digits36.simps [of n])
qed

lemma digits36_nonempty [simp]: "digits36 n \<noteq> []"
  by (simp add: digits36.simps)

lemma digits36_length: "0 < l \<Longrightarrow> length (digits36 n) \<le> l \<longleftrightarrow> n < 36 ^ l"
proof (induction n arbitrary: l rule: digits36.induct)
  case (1 n)
  show ?case
  proof (cases "n < 36")
    case True
    have "36 ^ 1 \<le> (36::nat) ^ l" using 1(2) by (intro power_increasing) simp_all
    with True 1(2) show ?thesis by (simp add: digits36.simps)
  next
    case False
    show ?thesis
    proof (cases "l = 1")
      case True
      with False show ?thesis by (simp add: digits36.simps [of n] Suc_le_eq)
    next
      case False': False
      then obtain m where m: "l = Suc m" "0 < m" using 1(2) by (cases l) auto
      have "length (digits36 n) \<le> l \<longleftrightarrow> n div 36 < 36 ^ m" using 1(1) [OF False m(2)] False by (simp add: digits36.simps [of n] m(1))
      also have "\<dots> \<longleftrightarrow> n < 36 ^ l" by (simp add: m(1) div_less_iff_less_mult mult.commute)
      finally show ?thesis .
    qed
  qed
qed

subsection \<open>Encoding and decoding\<close>

lemma parse_loop_digits:
  "list_all (\<lambda>d. d < 36) ds \<Longrightarrow>
   parse_big_int_loop 36 (map digit_char ds) (int r) = Inr (int (foldl (\<lambda>r d. r * 36 + d) r ds))"
proof (induction ds arbitrary: r)
  case (Cons d ds)
  then show ?case using Cons.IH [of "r * 36 + d"] by (simp add: parse_digit_char)
qed simp

lemma parse_toString36: "parseBigInt (toString36 n) 36 = Inr (int n)"
  using parse_loop_digits [OF digits36_small, of n 0] digits36_value [of n]
  by (simp add: parseBigInt_def toString36_digits value36_def)

definition encodable :: "js_version \<Rightarrow> bool" where
  "encodable v \<longleftrightarrow> 0 \<le> version_value v \<and>
     (case v of VBigInt n \<Rightarrow> n < 36 ^ 36 | VNumber q \<Rightarrow> q \<le> max_safe_integer \<and> q = of_int \<lfloor>q\<rfloor>)"

definition encoded :: "nat \<Rightarrow> string" where
  "encoded n = digit_char (length (digits36 n) - 1) # map digit_char (digits36 n)"

lemma encodable_small:
  assumes "encodable v"
  shows "nat \<lfloor>version_value v\<rfloor> < 36 ^ 36"
proof (cases v)
  case (VNumber q)
  then have "q \<le> 9007199254740991" using assms by (simp add: encodable_def max_safe_integer_def)
  then have "\<lfloor>q\<rfloor> \<le> 9007199254740991" by linarith
  then have "nat \<lfloor>q\<rfloor> \<le> 9007199254740991" by linarith
  then show ?thesis by (simp add: VNumber)
qed (use assms in \<open>auto simp: encodable_def nat_less_iff\<close>)

lemma digits36_36: "n < 36 ^ 36 \<longleftrightarrow> length (digits36 n) - 1 < 36"
  using digits36_length [of 36 n] by (cases "digits36 n") auto

lemma versionToLexi_encoded:
  "versionToLexi v = Inr s \<longleftrightarrow> encodable v \<and> s = encoded (nat \<lfloor>version_value v\<rfloor>)"
proof -
  let ?n = "nat \<lfloor>version_value v\<rfloor>"
  have "length (toString36 (length (toString36 ?n) - 1)) = 1 \<longleftrightarrow> length (digits36 ?n) - 1 < 36"
    using digits36_length [of 1 "length (digits36 ?n) - 1"] by (simp add: toString36_digits Suc_le_eq le_Suc_eq)
  also have "\<dots> \<longleftrightarrow> ?n < 36 ^ 36" by (simp only: digits36_36)
  finally have small: "length (toString36 (length (toString36 ?n) - 1)) = 1 \<longleftrightarrow> ?n < 36 ^ 36" .
  show ?thesis
  proof (cases "encodable v")
    case True
    then have lt: "?n < 36 ^ 36" by (rule encodable_small)
    then have one: "toString36 (length (toString36 ?n) - 1) = [digit_char (length (digits36 ?n) - 1)]"
      unfolding digits36_36 by (simp add: toString36_digits digits36_one)
    have "versionToLexi v = Inr ([digit_char (length (digits36 ?n) - 1)] @ toString36 ?n)"
      using True one by (cases v) (simp_all add: versionToLexi_def encodable_def Let_def)
    with True show ?thesis by (auto simp: encoded_def toString36_digits)
  next
    case False
    then have "versionToLexi v \<noteq> Inr s" using small
      by (cases v) (auto simp: versionToLexi_def encodable_def Let_def split: if_splits)
    with False show ?thesis by simp
  qed
qed

lemma versionFromLexi_encoded:
  assumes "n < 36 ^ 36"
  shows "versionFromLexi (encoded n) = Inr (int n)"
proof -
  have "parse_digit 36 (digit_char (length (digits36 n) - 1)) = Some (length (digits36 n) - 1)"
    using assms unfolding digits36_36 by (rule parse_digit_char)
  moreover have "0 < length (digits36 n)" by simp
  ultimately show ?thesis using parse_toString36 [of n]
    by (simp add: versionFromLexi_def encoded_def Let_def toString36_digits del: length_greater_0_conv)
qed

lemma encodable_value: "encodable v \<Longrightarrow> version_value v = of_int \<lfloor>version_value v\<rfloor> \<and> 0 \<le> \<lfloor>version_value v\<rfloor>"
  by (cases v) (auto simp: encodable_def)

subsection \<open>Order\<close>

lemma value36_Cons: "value36 (d # ds) = d * 36 ^ length ds + value36 ds"
proof (induction ds rule: rev_induct)
  case (snoc e ds)
  have "value36 (d # ds @ [e]) = value36 (d # ds) * 36 + e" using value36_snoc(2) [of "d # ds" e] by simp
  with snoc show ?case by (simp add: algebra_simps)
qed (simp add: value36_def)

lemma value36_bound: "list_all (\<lambda>d. d < 36) ds \<Longrightarrow> value36 ds < 36 ^ length ds"
proof (induction ds)
  case (Cons d ds)
  then have "value36 ds < 36 ^ length ds" by simp
  moreover have "d * 36 ^ length ds \<le> 35 * 36 ^ length ds" using Cons.prems by (intro mult_le_mono1) simp
  ultimately have "d * 36 ^ length ds + value36 ds < 36 * 36 ^ length ds" by linarith
  then show ?case by (simp add: value36_Cons)
qed simp

lemma radix_less:
  assumes "x < p" "y < (p::nat)"
  shows "d * p + x < e * p + y \<longleftrightarrow> d < e \<or> (d = e \<and> x < y)"
proof -
  have step: "a * p + x' < b * p + y'" if "a < b" "x' < p" for a b x' y'
  proof -
    have "(a + 1) * p \<le> b * p" using that(1) by (intro mult_le_mono1) simp
    with that(2) show ?thesis by (simp add: add.commute)
  qed
  from step [of d e x y] step [of e d y x] assms show ?thesis by (cases d e rule: linorder_cases) auto
qed

lemma string_less_digits:
  "length ds = length es \<Longrightarrow> list_all (\<lambda>d. d < 36) ds \<Longrightarrow> list_all (\<lambda>d. d < 36) es \<Longrightarrow>
   string_less (map digit_char ds) (map digit_char es) \<longleftrightarrow> value36 ds < value36 es"
proof (induction ds es rule: list_induct2)
  case (Cons d ds e es)
  then have "value36 (d # ds) < value36 (e # es) \<longleftrightarrow> d < e \<or> (d = e \<and> value36 ds < value36 es)"
    using radix_less [of "value36 ds" "36 ^ length ds" "value36 es" d e] value36_bound [of ds] value36_bound [of es]
    by (simp add: value36_Cons)
  with Cons show ?case by (simp add: digit_char_less digit_char_eq)
qed simp

lemma longer_digits:
  assumes "length (digits36 m) < length (digits36 n)"
  shows "m < n"
proof -
  have "0 < length (digits36 m)" by simp
  then have "m < 36 ^ length (digits36 m)" "\<not> n < 36 ^ length (digits36 m)"
    using digits36_length [of "length (digits36 m)" m] digits36_length [of "length (digits36 m)" n] assms by simp_all
  then show ?thesis by simp
qed

lemma encoded_less:
  assumes "m < 36 ^ 36" "n < 36 ^ 36"
  shows "string_less (encoded m) (encoded n) \<longleftrightarrow> m < n"
proof -
  let ?l = "\<lambda>n. length (digits36 n) - 1"
  have small: "?l m < 36" "?l n < 36" using assms unfolding digits36_36 .
  have pos: "0 < length (digits36 m)" "0 < length (digits36 n)" by simp_all
  have "string_less (encoded m) (encoded n) \<longleftrightarrow>
      ?l m < ?l n \<or> (?l m = ?l n \<and> string_less (map digit_char (digits36 m)) (map digit_char (digits36 n)))"
    by (simp only: encoded_def string_less.simps digit_char_less [OF small] digit_char_eq [OF small])
  also have "\<dots> \<longleftrightarrow> m < n"
  proof (cases "?l m" "?l n" rule: linorder_cases)
    case less
    with longer_digits [of m n] show ?thesis by simp
  next
    case equal
    then have "length (digits36 m) = length (digits36 n)" using pos by linarith
    with equal show ?thesis by (simp add: string_less_digits digits36_small digits36_value)
  next
    case greater
    then have "length (digits36 n) < length (digits36 m)" by linarith
    from longer_digits [OF this] greater show ?thesis by simp
  qed
  finally show ?thesis .
qed

lemma lexi_max_encoded:
  "m < 36 ^ 36 \<Longrightarrow> list_all (\<lambda>n. n < 36 ^ 36) ns \<Longrightarrow> lexi_max (encoded m) (map encoded ns) = encoded (foldl max m ns)"
proof (induction ns arbitrary: m)
  case (Cons n ns)
  have "(if string_less (encoded n) (encoded m) then encoded m else encoded n) = encoded (max m n)"
    using Cons.prems by (simp add: encoded_less max_def)
  with Cons show ?case by (simp add: lexi_max_def max_def)
qed (simp add: lexi_max_def)

lemma lexi_min_encoded:
  "m < 36 ^ 36 \<Longrightarrow> list_all (\<lambda>n. n < 36 ^ 36) ns \<Longrightarrow> lexi_min (encoded m) (map encoded ns) = encoded (foldl min m ns)"
proof (induction ns arbitrary: m)
  case (Cons n ns)
  have "(if string_less (encoded m) (encoded n) then encoded m else encoded n) = encoded (min m n)"
    using Cons.prems by (simp add: encoded_less min_def)
  with Cons show ?case by (simp add: lexi_min_def min_def)
qed (simp add: lexi_min_def)

lemma foldl_max: "foldl max m ns \<in> set (m # ns) \<and> (\<forall>x \<in> set (m # ns). x \<le> foldl max (m::nat) ns)"
proof (induction ns arbitrary: m)
  case (Cons n ns)
  from Cons [of "max m n"] show ?case by (auto simp: max_def split: if_splits)
qed simp

lemma foldl_min: "foldl min m ns \<in> set (m # ns) \<and> (\<forall>x \<in> set (m # ns). foldl min (m::nat) ns \<le> x)"
proof (induction ns arbitrary: m)
  case (Cons n ns)
  from Cons [of "min m n"] show ?case by (auto simp: min_def split: if_splits)
qed simp

definition version_nat :: "js_version \<Rightarrow> nat" where
  "version_nat v = nat \<lfloor>version_value v\<rfloor>"

lemma version_nat_value: "encodable v \<Longrightarrow> version_value v = of_nat (version_nat v)"
  using encodable_value [of v] by (simp add: version_nat_def of_nat_nat)

lemma traverse_encoded:
  assumes "traverse versionToLexi vs = Inr ss"
  shows "list_all encodable vs \<and> ss = map (\<lambda>v. encoded (version_nat v)) vs"
proof -
  have "list_all2 (\<lambda>v s. versionToLexi v = Inr s) vs ss" using assms by (simp add: traverse_eq_Inr)
  then show ?thesis by (induction rule: list_all2_induct) (simp_all add: versionToLexi_encoded version_nat_def)
qed

subsection \<open>The claims\<close>

text \<open>C39: Exactly the versions from 0 to 36^36 - 1 can be encoded, as a number only the integers up to
  MAX_SAFE_INTEGER; the others are rejected with an error. Decoding an encoded version gives it back, and
  it has at most 37 characters.\<close>

theorem lexi_roundtrip:
  "case versionToLexi v of Inl e \<Rightarrow> \<not> encodable v
   | Inr s \<Rightarrow> encodable v \<and> length s \<le> 37 \<and>
       (\<exists>n. versionFromLexi s = Inr n \<and> of_int n = version_value v)"
proof (cases "encodable v")
  case True
  let ?n = "version_nat v"
  have lt: "?n < 36 ^ 36" unfolding version_nat_def by (rule encodable_small [OF True])
  have "versionToLexi v = Inr (encoded ?n)" using True by (simp add: versionToLexi_encoded version_nat_def)
  moreover have "length (encoded ?n) \<le> 37" using digits36_length [of 36 ?n] lt by (simp add: encoded_def)
  ultimately show ?thesis using True versionFromLexi_encoded [OF lt] version_nat_value [OF True] by simp
next
  case False
  then show ?thesis by (cases "versionToLexi v") (simp_all add: versionToLexi_encoded)
qed

text \<open>C40: Comparing the encodings of versions as strings compares the versions, so that max and min of
  encodings are the encodings of the greatest and of the least version.\<close>

theorem lexi_order:
  assumes "traverse versionToLexi (v # vs) = Inr (s # ss)"
  shows "(\<forall>i < length (s # ss). \<forall>j < length (s # ss).
      string_less ((s # ss) ! i) ((s # ss) ! j) \<longleftrightarrow> version_value ((v # vs) ! i) < version_value ((v # vs) ! j)) \<and>
    (\<exists>m \<in> set (v # vs). versionToLexi m = Inr (lexi_max s ss) \<and> (\<forall>w \<in> set (v # vs). version_value w \<le> version_value m)) \<and>
    (\<exists>m \<in> set (v # vs). versionToLexi m = Inr (lexi_min s ss) \<and> (\<forall>w \<in> set (v # vs). version_value m \<le> version_value w))"
proof -
  from traverse_encoded [OF assms] have enc: "list_all encodable (v # vs)"
    and s: "s = encoded (version_nat v)" "ss = map encoded (map version_nat vs)" by (simp_all add: comp_def)
  have code: "versionToLexi w = Inr (encoded (version_nat w))" "version_nat w < 36 ^ 36"
    "version_value w = of_nat (version_nat w)" if "w \<in> set (v # vs)" for w
  proof -
    have w: "encodable w" using enc that unfolding list_all_iff by blast
    then show "versionToLexi w = Inr (encoded (version_nat w))" by (simp add: versionToLexi_encoded version_nat_def)
    show "version_nat w < 36 ^ 36" unfolding version_nat_def by (rule encodable_small [OF w])
    show "version_value w = of_nat (version_nat w)" by (rule version_nat_value [OF w])
  qed
  have small: "version_nat v < 36 ^ 36" by (rule code(2)) (rule list.set_intros(1))
  have smalls: "list_all (\<lambda>n. n < 36 ^ 36) (map version_nat vs)"
    unfolding list_all_iff set_map
  proof
    fix n
    assume "n \<in> version_nat ` set vs"
    then obtain w where "w \<in> set vs" "n = version_nat w" by blast
    then show "n < 36 ^ 36" using code(2) [OF list.set_intros(2)] by (simp only:)
  qed
  have nth: "(s # ss) ! i = encoded (version_nat ((v # vs) ! i))" if "i < length (s # ss)" for i
    using that by (cases i) (simp_all add: s)
  have len: "length (s # ss) = length (v # vs)" by (simp add: s)
  obtain m where m: "m \<in> set (v # vs)" "foldl max (version_nat v) (map version_nat vs) = version_nat m"
    using foldl_max [of "version_nat v" "map version_nat vs"] by auto
  obtain m' where m': "m' \<in> set (v # vs)" "foldl min (version_nat v) (map version_nat vs) = version_nat m'"
    using foldl_min [of "version_nat v" "map version_nat vs"] by auto
  show ?thesis
  proof (intro conjI allI impI)
    fix i j
    assume ij: "i < length (s # ss)" "j < length (s # ss)"
    then have "i < length (v # vs)" "j < length (v # vs)" by (simp_all only: len)
    note c = code [OF nth_mem, OF this(1)] code [OF nth_mem, OF this(2)]
    show "string_less ((s # ss) ! i) ((s # ss) ! j) \<longleftrightarrow> version_value ((v # vs) ! i) < version_value ((v # vs) ! j)"
      unfolding nth [OF ij(1)] nth [OF ij(2)] encoded_less [OF c(2,5)] c(3,6) by simp
  next
    have "\<forall>w \<in> set (v # vs). version_value w \<le> version_value m"
      using foldl_max [of "version_nat v" "map version_nat vs"] m code(3) by simp
    then show "\<exists>m \<in> set (v # vs). versionToLexi m = Inr (lexi_max s ss) \<and> (\<forall>w \<in> set (v # vs). version_value w \<le> version_value m)"
      using m code(1) [OF m(1)] lexi_max_encoded [OF small smalls] by (intro bexI [OF _ m(1)]) (simp add: s)
  next
    have "\<forall>w \<in> set (v # vs). version_value m' \<le> version_value w"
      using foldl_min [of "version_nat v" "map version_nat vs"] m' code(3) by simp
    then show "\<exists>m \<in> set (v # vs). versionToLexi m = Inr (lexi_min s ss) \<and> (\<forall>w \<in> set (v # vs). version_value m \<le> version_value w)"
      using m' code(1) [OF m'(1)] lexi_min_encoded [OF small smalls] by (intro bexI [OF _ m'(1)]) (simp add: s)
  qed
qed

theorem lexi_order_witness:
  "lexi_max ''0z'' [''110'', ''2zzz''] = ''2zzz'' \<and> string_less ''0z'' ''110''"
proof -
  have codes: "versionToLexi (VBigInt 35) = Inr ''0z''" "versionToLexi (VNumber 36) = Inr ''110''"
    "versionToLexi (VBigInt 46655) = Inr ''2zzz''"
    by (simp_all add: versionToLexi_def max_safe_integer_def toString36.simps digit_char_def Let_def)
  then have run: "traverse versionToLexi [VBigInt 35, VNumber 36, VBigInt 46655] = Inr [''0z'', ''110'', ''2zzz'']" by simp
  obtain m where m: "m \<in> set [VBigInt 35, VNumber 36, VBigInt 46655]"
      "versionToLexi m = Inr (lexi_max ''0z'' [''110'', ''2zzz''])"
      "\<forall>w \<in> set [VBigInt 35, VNumber 36, VBigInt 46655]. version_value w \<le> version_value m"
    using lexi_order [OF run, THEN conjunct2, THEN conjunct1] by (elim bexE conjE)
  then have "m = VBigInt 46655" by auto
  moreover have "string_less ''0z'' ''110''" using lexi_order [OF run, THEN conjunct1, rule_format, of 0 1] by simp
  ultimately show ?thesis using m(2) codes by simp
qed

end
