(* ===== verification/Spec2Isabelle.thy ===== *)
theory Spec2Isabelle
  imports Prelude JsValue BTreeSet BTreeCorrect BTreeIter BTreeIndex Ast AstProps
    RowPredicate RowPredicateProps QueryCovering QueryCoveringProps NormalizeProps QueryIndexProps
    Constraint Bounds Streams MergeStreams MemorySource MemorySourceInv FetchStages
    MemorySourceFetch FetchCorrect FetchMulti MemorySourcePush MemorySourceProps
    MemorySourceClaims MemoryFetchClaims Operators Take TakeOrder TakeStep TakePush TakeCorrect
    Pipeline PipelineClaims Join JoinCorrect JoinClaims PushAccumulated FilterGraph FilterGraphCorrect
    FilterPush FilterClaims Cap CapCorrect CapClaims Union UnionCorrect UnionPush UnionClaims
    View ViewList ViewTree ViewCorrect ViewClaims CompleteOrdering LexiVersion
begin

text \<open>
  \<^bold>\<open>The query engine of a sync engine, verified.\<close>

  \<^bold>\<open>What is modelled.\<close> The core of the incremental query engine of this repository (packages \<open>zql\<close>,
  \<open>zero-protocol\<close>, \<open>shared\<close>) and the parts of the server (\<open>zero-cache\<close>) that decide on queries and versions.
  A query is an AST that is normalised and named for the server; its filter becomes a predicate on rows; a
  \<open>MemorySource\<close> keeps a table in B+ trees, one per order, answers fetches of its connections and pushes
  changes to them; operators (\<open>Skip\<close>, \<open>Take\<close>, \<open>Cap\<close>, \<open>Join\<close>, unions of branches, and the filter graph of a \<open>where\<close> clause with its \<open>Exists\<close>) stand on a connection
  and turn fetches and pushes of their input into fetches and pushes of their output; a view keeps the result as a
  tree. Each part is a group of theories: the definitions, one per
  function of the code and in its order, then the lemmas, then the claims \<open>C1\<close> to \<open>C40\<close>.

  \<^item> \<open>Prelude\<close>: JavaScript facts (errors as values in \<open>'a result\<close>, numbers as rationals, array splicing), the
    contract of a comparator as the locale \<open>comparator\<close>, strictly sorted lists (\<open>sorted_rules\<close>).
  \<^item> \<open>JsValue\<close> (\<open>zql/src/ivm/data.ts\<close>): values, rows, \<open>compareValues\<close>, \<open>makeComparator\<close>, \<open>valuesEqual\<close>; the
    order of strings is the parameter \<open>u8\<close> with the laws of \<open>utf8_order\<close>, which \<open>compareUTF8\<close> documents.
  \<^item> \<open>BTreeSet\<close>, \<open>BTreeCorrect\<close>, \<open>BTreeIter\<close>, \<open>BTreeIndex\<close> (\<open>shared/src/btree-set.ts\<close>): the ordered set behind the
    indexes, with splitting, merging, deletion, bulk loading and both iterators; the invariant of the nodes,
    the refinement of a strictly sorted list, and the interface \<open>ordered_set\<close> that the sources use.
  \<^item> \<open>Ast\<close>, \<open>AstProps\<close> (\<open>zero-protocol/src/ast.ts\<close>, \<open>zql/src/query/expression.ts\<close>): normalisation, name mapping,
    expression helpers and \<open>simplifyCondition\<close>, against the meaning of a condition.
  \<^item> \<open>RowPredicate\<close>, \<open>RowPredicateProps\<close> (\<open>zql/src/builder/filter.ts\<close>, \<open>like.ts\<close>): from conditions to predicates, \<open>LIKE\<close>
    with its shortcut and its regular expression (the source that is built, parsed and matched) against SQL's \<open>LIKE\<close>, \<open>transformFilters\<close>.
  \<^item> \<open>QueryCovering\<close>, \<open>QueryCoveringProps\<close>, \<open>NormalizeProps\<close>, \<open>QueryIndexProps\<close> (\<open>zero-cache/.../query-covering.ts\<close>): the check that one
    query produces the rows of another, its soundness over an evaluation of queries, that normalisation keeps this
    evaluation (so the check is sound with it), and the index of running
    queries, which refines a map.
  \<^item> \<open>Constraint\<close>, \<open>Bounds\<close>, \<open>Streams\<close>, \<open>MergeStreams\<close> (\<open>zql/src/ivm/constraint.ts\<close>, \<open>filter-push.ts\<close>, \<open>change.ts\<close>,
    parts of \<open>memory-source.ts\<close>): constraints, bounds of a scan, changes and the contract of \<open>Output.push\<close>
    (\<open>push_ok\<close>, \<open>apply_push\<close>), the heap merge of sorted streams.
  \<^item> \<open>MemorySource\<close>, \<open>MemorySourceInv\<close>, \<open>FetchStages\<close>, \<open>MemorySourceFetch\<close>, \<open>FetchCorrect\<close>, \<open>FetchMulti\<close>,
    \<open>MemorySourcePush\<close>, \<open>MemorySourceProps\<close>, \<open>MemorySourceClaims\<close>, \<open>MemoryFetchClaims\<close> (\<open>zql/src/ivm/memory-source.ts\<close>):
    the class as the record \<open>memory_source\<close>, its methods as functions on it, and its reachable states
    (\<open>ms_reachable\<close>) under every interleaving of the steps of a push with fetches, connects and disconnects.
  \<^item> \<open>Operators\<close> (\<open>operator.ts\<close>, \<open>skip.ts\<close>), \<open>Take\<close>, \<open>TakeOrder\<close>, \<open>TakeStep\<close>, \<open>TakePush\<close>, \<open>TakeCorrect\<close> (\<open>take.ts\<close>): the
    contract \<open>pipeline_input\<close> of \<open>Input.fetch\<close>, which \<open>Skip\<close> preserves, and \<open>Take\<close> with its partitions.
  \<^item> \<open>Pipeline\<close>, \<open>PipelineClaims\<close>: a connection of a reachable source keeps \<open>pipeline_input\<close>; source, \<open>Skip\<close> and
    \<open>Take\<close> composed.
  \<^item> \<open>Join\<close>, \<open>JoinCorrect\<close>, \<open>JoinClaims\<close> (\<open>join.ts\<close>, \<open>join-utils.ts\<close>, \<open>schema.ts\<close>): the operator that adds a
    relationship, with the overlay that hides a change of a child from the parents it has not reached yet.
  \<^item> \<open>PushAccumulated\<close>, \<open>FilterGraph\<close>, \<open>FilterGraphCorrect\<close>, \<open>FilterPush\<close>, \<open>FilterClaims\<close> (\<open>push-accumulated.ts\<close>, \<open>exists.ts\<close>,
    \<open>filter.ts\<close>, \<open>fan-out.ts\<close>, \<open>fan-in.ts\<close>, \<open>filter-operators.ts\<close>, \<open>applyFilter\<close> of \<open>zql/src/builder/builder.ts\<close>): the graph of
    filter operators of a condition as a chain whose fans hold chains, against the meaning of the condition; how a
    change turns into an addition or removal when the existence of children changes.
  \<^item> \<open>Cap\<close>, \<open>CapCorrect\<close>, \<open>CapClaims\<close> (\<open>cap.ts\<close>): the limit without order in the subquery of an \<open>EXISTS\<close>, which
    remembers the keys of the rows it let pass.
  \<^item> \<open>Union\<close>, \<open>UnionCorrect\<close>, \<open>UnionPush\<close>, \<open>UnionClaims\<close> (\<open>union-fan-out.ts\<close>, \<open>union-fan-in.ts\<close>): branches that each
    see the same rows and are merged without duplicates; the merge (a loop that ends because the streams shrink), a change from
    inside a branch, and a change through the fan-out, reduced to the case of a filter graph by cutting nodes down
    to the relationships the branches share.
  \<^item> \<open>View\<close>, \<open>ViewList\<close>, \<open>ViewTree\<close>, \<open>ViewCorrect\<close>, \<open>ViewClaims\<close> (\<open>view-apply-change.ts\<close>, \<open>array-view.ts\<close>): the tree of
    entries with reference counts. \<open>ViewTree\<close> is the specification, a forest of nodes and its changes (\<open>tree_apply\<close>);
    the view refines it where no relationship of the format is hidden; two lemmas of \<open>ViewClaims\<close> show what can go
    wrong where one is.
  \<^item> \<open>CompleteOrdering\<close> (\<open>zql/src/query/complete-ordering.ts\<close>): orderings made to include the primary key.
  \<^item> \<open>LexiVersion\<close> (\<open>zero-cache/src/types/lexi-version.ts\<close>, \<open>shared/src/parse-big-int.ts\<close>): versions as strings.

  \<^bold>\<open>How state and operations correspond.\<close> A class is a record of its fields and a method a function that
  takes and returns it; a thrown error or a failed assertion is \<open>Inl\<close>. A generator is the list of what
  reading it to the end yields, \<open>'yield'\<close> markers included (\<open>node item list\<close>); where the code runs between the
  steps of a generator, as during a push, the steps are a transition relation (\<open>ms_step\<close>: begin, deliver to
  one connection, finish) and the properties hold in every reachable state. A push of an operator returns the
  changes it pushes, each with the state in which it is pushed, which is what a fetch by the output sees.
  Rows are association lists of columns and values; a set of rows is the abstract state of a source, an
  input and an output.

  \<^bold>\<open>What the lemmas show.\<close> Data structures: invariants kept by every operation and functional behaviour
  against sorted lists, sets and maps. Queries: transformations keep the meaning of conditions, or the case
  where they do not is proved too. Sources and operators: no assertion fails, a fetch returns exactly the rows
  it should in order, a push gives its output exactly the change of what it sees, and the composition of a
  source with operators keeps this. The interfaces are locales (\<open>comparator\<close>, \<open>utf8_order\<close>, \<open>ordered_set\<close>,
  \<open>row_order\<close>, \<open>pipeline_input\<close>, \<open>skip_input\<close>, \<open>cap_input\<close>, \<open>take_step\<close>, \<open>take_edit\<close>, \<open>join_schema\<close>, \<open>join_inputs\<close>, \<open>memory_input\<close>), each interpreted on the definitions of
  the model.

  \<^bold>\<open>Termination and bounds.\<close> No definition takes fuel. The recursion on a tree is on the depth of the node, the
  binary search on the width of its interval, the heap merge on the rows left in all streams, the covering check
  on the weight of the two queries. The \<open>next\<close> of an iterator loops until it finds a leaf with keys and is a
  \<open>partial_function\<close>; that it returns is part of the claims about scans. A node holds at most \<open>max_node_size\<close>
  (32) entries. A version has at most 36 digits in base 36.
  Numbers are rationals and the values of JSON, so NaN and the infinities do not occur.

  \<^bold>\<open>Not modelled.\<close> Laziness of streams beyond the steps of a push: a reader that stops early, and the
  assertion of \<open>#initialFetch\<close> about it. Sharing of mutable objects between clones of a tree (a flag keeps the
  place of the code). Object identity and the caches keyed by it. Characters of strings beyond
  code unit 255, for which \<open>ILIKE\<close> needs the case tables of Unicode. The wire schemas, the operators with relationships other than those above
  (\<open>FlippedJoin\<close>), the builder of queries and the planner, the SQLite
  source and SQL generation, replication and view syncing of \<open>zero-cache\<close>, the clients, Replicache and the
  bindings: the manifest lists each with the reason.
\<close>

end
